(* ===== verification/RL_Prelude.thy ===== *)
theory RL_Prelude
  imports Main "HOL-Library.Word" "HOL-Library.Monad_Syntax"
begin

text \<open>
  Shared material of the development: address ranges and their two notions of overlap, the
  contract every notion of range order has to meet (the locale \<open>range_order\<close>), and the
  theory of singly linked chains given by a successor function, which the lock-free lists of
  \<open>src/v0\<close> and \<open>src/v2\<close> both instantiate.
\<close>

subsection \<open>Automation collections\<close>

named_theorems stable \<open>facts of one thread that the steps of the others keep\<close>

lemma bind_eq_SomeE:
  assumes "Option.bind m f = Some y"
  obtains x where "m = Some x" and "f x = Some y"
  using assms by (auto simp: bind_eq_Some_conv)

text \<open>The limits of the unsigned key types, for evaluation.\<close>

declare bot_word_eq [code] top_word_eq [code]

lemma word_less_top: "w < (top :: 'a::len word) \<longleftrightarrow> w \<noteq> -1"
  by (metis top.not_eq_extremum top_word_eq)

subsection \<open>Ranges\<close>

type_synonym 't range = "'t \<times> 't"

text \<open>Closed ranges \<open>[s, e]\<close>, as the skip lists of v0 and v3 and the tree of v4 take them.\<close>

definition closed_valid :: "('t::linorder) range \<Rightarrow> bool" where
  "closed_valid r \<longleftrightarrow> fst r \<le> snd r"

definition closed_before :: "('t::linorder) range \<Rightarrow> 't range \<Rightarrow> bool" where
  "closed_before r q \<longleftrightarrow> snd r < fst q"

definition closed_overlaps :: "('t::linorder) range \<Rightarrow> 't range \<Rightarrow> bool" where
  "closed_overlaps r q \<longleftrightarrow> fst r \<le> snd q \<and> fst q \<le> snd r"

text \<open>Half-open ranges \<open>[s, e)\<close>, as the linked list of v2 takes them.\<close>

definition half_open_valid :: "('t::linorder) range \<Rightarrow> bool" where
  "half_open_valid r \<longleftrightarrow> fst r < snd r"

definition half_open_before :: "('t::linorder) range \<Rightarrow> 't range \<Rightarrow> bool" where
  "half_open_before r q \<longleftrightarrow> snd r \<le> fst q"

definition half_open_overlaps :: "('t::linorder) range \<Rightarrow> 't range \<Rightarrow> bool" where
  "half_open_overlaps r q \<longleftrightarrow> fst r < snd q \<and> fst q < snd r"

lemmas closed_defs = closed_valid_def closed_before_def closed_overlaps_def
lemmas half_open_defs = half_open_valid_def half_open_before_def half_open_overlaps_def

text \<open>
  The overlap predicates say that two valid ranges share a point; for the half-open ones
  the point is one both contain.
\<close>

lemma closed_overlaps_shares_point:
  "closed_valid r \<Longrightarrow> closed_valid q \<Longrightarrow>
   closed_overlaps r q \<longleftrightarrow> (\<exists>x. fst r \<le> x \<and> x \<le> snd r \<and> fst q \<le> x \<and> x \<le> snd q)"
  by (auto simp: closed_defs intro!: exI [of _ "max (fst r) (fst q)"])

lemma half_open_overlaps_shares_point:
  "half_open_valid r \<Longrightarrow> half_open_valid q \<Longrightarrow>
   half_open_overlaps r q \<longleftrightarrow> (\<exists>x. fst r \<le> x \<and> x < snd r \<and> fst q \<le> x \<and> x < snd q)"
  by (auto simp: half_open_defs intro!: exI [of _ "max (fst r) (fst q)"])

subsection \<open>Chains of linked nodes\<close>

text \<open>
  A singly linked structure is its successor function \<open>nx\<close>; \<open>reach nx a b\<close> says that the
  node \<open>b\<close> is met on the way from \<open>a\<close>. Inserting a node behind \<open>p\<close> and cutting a node out
  behind \<open>p\<close> are the two writes the lock-free lists make.
\<close>

definition reach :: "('k \<Rightarrow> 'k option) \<Rightarrow> 'k \<Rightarrow> 'k \<Rightarrow> bool" where
  "reach nx a b \<longleftrightarrow> (\<lambda>x y. nx x = Some y)\<^sup>*\<^sup>* a b"

lemma reach_refl [simp, intro]: "reach nx a a"
  by (simp add: reach_def)

lemma reach_step: "reach nx a b \<Longrightarrow> nx b = Some c \<Longrightarrow> reach nx a c"
  unfolding reach_def by (rule rtranclp.rtrancl_into_rtrancl)

lemma reach_induct [consumes 1, case_names refl step]:
  assumes "reach nx a b" and "P a"
    and "\<And>x y. reach nx a x \<Longrightarrow> P x \<Longrightarrow> nx x = Some y \<Longrightarrow> P y"
  shows "P b"
  using assms unfolding reach_def by (induction rule: rtranclp_induct) blast+

lemma reach_trans: "reach nx a b \<Longrightarrow> reach nx b c \<Longrightarrow> reach nx a c"
  unfolding reach_def by (rule rtranclp_trans)

lemma reach_cong:
  assumes "reach nx a b" and "\<And>x. reach nx a x \<Longrightarrow> nx' x = nx x"
  shows "reach nx' a b"
  using assms(1)
proof (induction rule: reach_induct)
  case refl
  then show ?case by simp
next
  case (step x y)
  then show ?case using assms(2) [of x] by (auto intro: reach_step)
qed

text \<open>A chain has no branches, so two nodes on it lie one behind the other.\<close>

lemma reach_linear:
  assumes "reach nx r a" and "reach nx r b"
  shows "reach nx a b \<or> reach nx b a"
  using assms(1)
proof (induction rule: reach_induct)
  case refl
  then show ?case using assms(2) by simp
next
  case (step x y)
  from \<open>reach nx x b \<or> reach nx b x\<close> show ?case
  proof
    assume "reach nx x b"
    then show ?thesis using \<open>nx x = Some y\<close>
      unfolding reach_def by (auto elim: converse_rtranclpE)
  qed (use step in \<open>auto intro: reach_step\<close>)
qed

lemma reach_insert_new:
  assumes "reach nx r p" and "n \<noteq> p"
    and "nx n = nx p"
  shows "reach (nx(p := Some n)) r a \<longleftrightarrow> reach nx r a \<or> a = n"
proof
  assume "reach (nx(p := Some n)) r a"
  then show "reach nx r a \<or> a = n"
  proof (induction rule: reach_induct)
    case (step x y)
    then show ?case
      using assms by (cases "x = p"; cases "x = n") (auto intro: reach_step)
  qed simp
next
  have keep: "reach (nx(p := Some n)) r a" if "reach nx r a" for a
    using that
  proof (induction rule: reach_induct)
    case (step x y)
    show ?case
    proof (cases "x = p")
      case True
      with step.IH have "reach (nx(p := Some n)) r p" by (simp only:)
      then have "reach (nx(p := Some n)) r n" by (rule reach_step) simp
      moreover have "(nx(p := Some n)) n = Some y" using True step.hyps assms by simp
      ultimately show ?thesis by (rule reach_step)
    next
      case False
      with step show ?thesis by (auto intro: reach_step)
    qed
  qed simp
  assume "reach nx r a \<or> a = n"
  then show "reach (nx(p := Some n)) r a"
    using keep reach_step [OF keep [OF assms(1)], of n] by auto
qed

lemma reach_cut_out:
  assumes "reach nx r p" and "nx p = Some c"
  shows "reach nx r a \<Longrightarrow> reach (nx(p := nx c)) r a \<or> a = c"
    and "reach (nx(p := nx c)) r a \<Longrightarrow> reach nx r a"
proof -
  assume "reach nx r a"
  then have "reach (nx(p := nx c)) r a \<or> a = c \<and> reach (nx(p := nx c)) r p"
  proof (induction rule: reach_induct)
    case (step x y)
    then show ?case
      using assms(2)
      by (cases "x = p"; cases "x = c") (auto intro: reach_step)
  qed simp
  then show "reach (nx(p := nx c)) r a \<or> a = c" by blast
next
  assume "reach (nx(p := nx c)) r a"
  then show "reach nx r a"
  proof (induction rule: reach_induct)
    case (step x y)
    show ?case
    proof (cases "x = p")
      case True
      with step assms have "nx c = Some y" by simp
      with assms show ?thesis by (blast intro: reach_step)
    next
      case False
      with step show ?thesis by (auto intro: reach_step)
    qed
  qed simp
qed

lemma reach_extend:
  assumes "\<not> reach nx r n"
  shows "reach (nx(n := v)) r a \<longleftrightarrow> reach nx r a"
proof
  assume "reach (nx(n := v)) r a"
  then show "reach nx r a"
  proof (induction rule: reach_induct)
    case (step x y)
    with assms have "x \<noteq> n" by auto
    with step show ?case by (auto intro: reach_step)
  qed simp
next
  assume "reach nx r a"
  then show "reach (nx(n := v)) r a"
  proof (induction rule: reach_induct)
    case (step x y)
    with assms have "x \<noteq> n" by auto
    with step show ?case by (auto intro: reach_step)
  qed simp
qed

text \<open>
  A chain with deletion marks: a node is linked when it is on the chain or marked. Inserting a
  new node links it and nothing else, cutting out a marked node and marking a linked one keep
  what is linked.
\<close>

definition linked_in :: "('k \<Rightarrow> 'k option) \<Rightarrow> ('k \<Rightarrow> bool) \<Rightarrow> 'k \<Rightarrow> 'k \<Rightarrow> bool" where
  "linked_in nx mk root a \<longleftrightarrow> reach nx root a \<or> mk a"

lemma linked_root [simp, intro]: "linked_in nx mk root root"
  by (simp add: linked_in_def)

lemma linked_unmarked: "linked_in nx mk root a \<Longrightarrow> \<not> mk a \<Longrightarrow> reach nx root a"
  by (simp add: linked_in_def)

lemma linked_insert:
  assumes "linked_in nx mk root p" "\<not> mk p" "n \<noteq> p" "nx n = nx p"
  shows "linked_in (nx(p := Some n)) mk root a \<longleftrightarrow> linked_in nx mk root a \<or> a = n"
  using reach_insert_new [OF linked_unmarked [OF assms(1,2)] assms(3,4)]
  by (auto simp: linked_in_def)

lemma linked_cut:
  assumes "linked_in nx mk root p" "\<not> mk p" "nx p = Some c" "mk c"
  shows "linked_in (nx(p := nx c)) mk root a \<longleftrightarrow> linked_in nx mk root a"
  using reach_cut_out [OF linked_unmarked [OF assms(1,2)] assms(3), of a] assms(4)
  by (auto simp: linked_in_def)

lemma linked_mark:
  assumes "linked_in nx mk root p"
  shows "linked_in nx (mk(p := True)) root a \<longleftrightarrow> linked_in nx mk root a"
  using assms by (auto simp: linked_in_def)

lemma linked_extend:
  assumes "\<not> linked_in nx mk root n"
  shows "linked_in (nx(n := v)) mk root a \<longleftrightarrow> linked_in nx mk root a"
  using reach_extend [of nx root n v a] assms by (simp add: linked_in_def)

subsection \<open>The contract of a range order\<close>

text \<open>
  What the lists need of a notion of range: a strict order on the valid ranges whose
  comparable ranges do not overlap. Every link of a list leads to a later range; then all
  nodes of the chain are pairwise disjoint, which is the mutual exclusion of the locks.
\<close>

definition ordered_links ::
  "('r \<Rightarrow> bool) \<Rightarrow> ('r \<Rightarrow> 'r \<Rightarrow> bool) \<Rightarrow> ('k \<Rightarrow> 'k option) \<Rightarrow> ('k \<Rightarrow> 'r) \<Rightarrow> 'k \<Rightarrow> bool" where
  "ordered_links valid before nx rg root \<longleftrightarrow>
     (\<forall>a b. nx a = Some b \<longrightarrow>
        b \<noteq> root \<and> valid (rg b) \<and> (a \<noteq> root \<longrightarrow> before (rg a) (rg b)))"

locale range_order =
  fixes valid :: "'r \<Rightarrow> bool"
    and before :: "'r \<Rightarrow> 'r \<Rightarrow> bool"
    and overlaps :: "'r \<Rightarrow> 'r \<Rightarrow> bool"
  assumes before_trans: "before x y \<Longrightarrow> valid y \<Longrightarrow> before y z \<Longrightarrow> before x z"
    and before_disjoint: "before x y \<Longrightarrow> \<not> overlaps x y"
    and overlaps_sym: "overlaps x y \<Longrightarrow> overlaps y x"
    and disjoint_cases: "valid x \<Longrightarrow> valid y \<Longrightarrow> \<not> overlaps x y \<Longrightarrow> before x y \<or> before y x"
begin

lemma reach_before:
  assumes "ordered_links valid before nx rg root"
    and "reach nx a b" and "a \<noteq> root"
  shows "b \<noteq> root \<and> (a = b \<or> valid (rg b) \<and> before (rg a) (rg b))"
  using assms(2)
proof (induction rule: reach_induct)
  case refl
  then show ?case using assms(3) by simp
next
  case (step x y)
  with assms(1) have "y \<noteq> root" "valid (rg y)" "before (rg x) (rg y)"
    by (auto simp: ordered_links_def)
  with step.IH show ?case by (auto intro: before_trans)
qed

text \<open>Mutual exclusion on a chain.\<close>

lemma chain_disjoint:
  assumes ord: "ordered_links valid before nx rg root"
    and a: "reach nx root a" "a \<noteq> root" and b: "reach nx root b" "b \<noteq> root"
    and "a \<noteq> b"
  shows "\<not> overlaps (rg a) (rg b)"
proof -
  from reach_linear [OF a(1) b(1)] have "before (rg a) (rg b) \<or> before (rg b) (rg a)"
    using reach_before [OF ord _ a(2)] reach_before [OF ord _ b(2)] \<open>a \<noteq> b\<close> by blast
  then show ?thesis by (auto dest: before_disjoint overlaps_sym)
qed

lemma chain_acyclic:
  assumes ord: "ordered_links valid before nx rg root" and irr: "\<And>x. valid x \<Longrightarrow> \<not> before x x"
    and "reach nx a b" "reach nx b a" "a \<noteq> root"
  shows "a = b"
proof (rule ccontr)
  assume ne: "a \<noteq> b"
  with reach_before [OF ord assms(3,5)] have b: "b \<noteq> root" "valid (rg b)" "before (rg a) (rg b)" by auto
  with reach_before [OF ord assms(4)] ne have "valid (rg a)" "before (rg b) (rg a)" by auto
  with b irr show False using before_trans by blast
qed

text \<open>A write that makes a node point behind its successor takes the successor off the chain.\<close>

lemma chain_bypass:
  assumes ord: "ordered_links valid before nx rg root" and irr: "\<And>x. valid x \<Longrightarrow> \<not> before x x"
    and a: "reach nx root a" "a \<noteq> root" "nx a = Some n"
    and v: "\<And>q. v = Some q \<Longrightarrow> q \<noteq> root \<and> valid (rg q) \<and> before (rg n) (rg q)"
  shows "\<not> reach (nx(a := v)) root n"
proof -
  have n: "n \<noteq> root" "valid (rg n)" "before (rg a) (rg n)" using ord a(2,3) by (auto simp: ordered_links_def)
  have na: "\<not> reach nx n a"
  proof
    assume na: "reach nx n a"
    have "reach nx a n" by (rule reach_step [where b = a]) (simp_all add: a(3))
    with chain_acyclic [OF ord irr na] n(1) have "n = a" by blast
    with n irr show False by simp
  qed
  have "(reach nx root x \<and> \<not> reach nx n x) \<or> (\<exists>q. v = Some q \<and> reach nx q x)" if "reach (nx(a := v)) root x" for x
    using that
  proof (induction rule: reach_induct)
    case refl
    then show ?case using reach_before [OF ord _ n(1)] by auto
  next
    case (step x y)
    show ?case
    proof (cases "x = a")
      case True
      with step show ?thesis by auto
    next
      case False
      then have y: "nx x = Some y" using step by simp
      from step.IH show ?thesis
      proof
        assume x: "reach nx root x \<and> \<not> reach nx n x"
        have "\<not> reach nx n y"
        proof
          assume ny: "reach nx n y"
          have "y = n"
          proof -
            from x reach_linear [OF _ reach_step [OF a(1,3)], of x] have "reach nx x n" by blast
            then have "reach nx y n" using x y unfolding reach_def by (auto elim: converse_rtranclpE)
            with chain_acyclic [OF ord irr ny] n(1) show ?thesis by blast
          qed
          with y have xn: "nx x = Some n" by simp
          from x reach_linear [OF _ a(1), of x] consider "reach nx x a" | "reach nx a x" by blast
          then show False
          proof cases
            case 1
            with False xn have "reach nx n a" unfolding reach_def by (auto elim: converse_rtranclpE)
            with na show False by blast
          next
            case 2
            with False a(3) have "reach nx n x" unfolding reach_def by (auto elim: converse_rtranclpE)
            with x show False by blast
          qed
        qed
        with x y show ?thesis by (auto intro: reach_step)
      next
        assume "\<exists>q. v = Some q \<and> reach nx q x"
        with y show ?thesis by (auto intro: reach_step)
      qed
    qed
  qed
  moreover have "\<not> reach nx q n" if "v = Some q" for q
    using reach_before [OF ord, of q n] v [OF that] n(2) irr before_trans by metis
  ultimately show ?thesis by auto
qed

end

interpretation closed: range_order closed_valid closed_before closed_overlaps
  by unfold_locales (auto simp: closed_defs)

interpretation half_open: range_order half_open_valid half_open_before half_open_overlaps
  by unfold_locales (auto simp: half_open_defs)

end
