(* ===== verification/V0_Markable_Reference.thy ===== *)
theory V0_Markable_Reference
  imports RL_Prelude
begin

unbundle bit_operations_syntax

text \<open>
  \<open>AtomicMarkableReference\<close> of \<open>src/v0/atomic_reference.hpp\<close>: a pointer and a mark bit packed
  into one \<open>uintptr_t\<close>. The first part translates the class at the level of 64-bit words; the
  second states what its users rely on as the locale \<open>markable_reference\<close>, which the words
  provide for even addresses; the third gives the cells of the list models, pairs of a
  pointer and a mark, and shows that they meet the same contract.
  A memory order (relaxed, acquire, acq_rel) has no counterpart here: every access is one
  atomic step.
\<close>

subsection \<open>The class on machine words\<close>

type_synonym uintptr = "64 word"

definition MARK_MASK :: uintptr where
  "MARK_MASK = 1"

record markable_reference_state =
  atomicRefMark :: uintptr

definition pack :: "uintptr \<Rightarrow> bool \<Rightarrow> uintptr" where
  "pack ref mark = ref OR (if mark then 1 else 0)"

definition unpack :: "uintptr \<Rightarrow> uintptr \<times> bool" where
  "unpack packed =
     (let ref = packed AND NOT MARK_MASK;
          mark = (packed AND MARK_MASK \<noteq> 0)
      in (ref, mark))"

text \<open>The constructors: a null reference, and the two moves.\<close>

definition AtomicMarkableReference :: markable_reference_state where
  "AtomicMarkableReference = \<lparr>atomicRefMark = pack 0 False\<rparr>"

definition move_construct :: "markable_reference_state \<Rightarrow> markable_reference_state" where
  "move_construct other = \<lparr>atomicRefMark = atomicRefMark other\<rparr>"

text \<open>\<open>same\<close> says whether \<open>this\<close> and \<open>&other\<close> are one object.\<close>

definition move_assign ::
  "bool \<Rightarrow> markable_reference_state \<Rightarrow> markable_reference_state \<Rightarrow> markable_reference_state" where
  "move_assign same other s =
     (if \<not> same then s\<lparr>atomicRefMark := atomicRefMark other\<rparr> else s)"

definition store :: "uintptr \<Rightarrow> bool \<Rightarrow> markable_reference_state \<Rightarrow> markable_reference_state" where
  "store ref mark s = s\<lparr>atomicRefMark := pack ref mark\<rparr>"

text \<open>\<open>std::atomic::compare_exchange_strong\<close> on the packed word.\<close>

definition compare_exchange_strong ::
  "uintptr \<Rightarrow> uintptr \<Rightarrow> markable_reference_state \<Rightarrow> bool \<times> markable_reference_state" where
  "compare_exchange_strong expected desired s =
     (if atomicRefMark s = expected then (True, s\<lparr>atomicRefMark := desired\<rparr>) else (False, s))"

definition compareAndSet ::
  "uintptr \<Rightarrow> uintptr \<Rightarrow> bool \<Rightarrow> bool \<Rightarrow> markable_reference_state \<Rightarrow>
   bool \<times> markable_reference_state" where
  "compareAndSet expectedRef newRef expectedMark newMark s =
     (let expected = pack expectedRef expectedMark;
          desired = pack newRef newMark
      in compare_exchange_strong expected desired s)"

text \<open>
  \<open>attemptMark\<close> makes two accesses: a load, which yields \<open>current\<close>, and, when the loaded value
  passes the test, an exchange, on the state \<open>s\<close> the reference has by then. Without
  interference \<open>current\<close> is the value of \<open>s\<close>.
\<close>

definition attemptMark_after_load ::
  "uintptr \<Rightarrow> uintptr \<Rightarrow> bool \<Rightarrow> markable_reference_state \<Rightarrow> bool \<times> markable_reference_state" where
  "attemptMark_after_load current expectedRef newMark s =
     (let (currentRef, currentMark) = unpack current
      in if currentRef = expectedRef \<and> currentMark \<noteq> newMark
         then let desired = pack expectedRef newMark
              in compare_exchange_strong current desired s
         else (False, s))"

definition attemptMark ::
  "uintptr \<Rightarrow> bool \<Rightarrow> markable_reference_state \<Rightarrow> bool \<times> markable_reference_state" where
  "attemptMark expectedRef newMark s =
     attemptMark_after_load (atomicRefMark s) expectedRef newMark s"

definition get :: "markable_reference_state \<Rightarrow> uintptr \<times> bool" where
  "get s = unpack (atomicRefMark s)"

definition getReference :: "markable_reference_state \<Rightarrow> uintptr" where
  "getReference s = fst (unpack (atomicRefMark s))"

lemmas word_reference_defs =
  store_def compare_exchange_strong_def compareAndSet_def attemptMark_after_load_def
  attemptMark_def get_def getReference_def

text \<open>A node address is even: \<open>new\<close> returns storage aligned for a class that holds pointers.\<close>

definition aligned :: "uintptr \<Rightarrow> bool" where
  "aligned ref \<longleftrightarrow> ref AND MARK_MASK = 0"

lemma aligned_bit: "aligned ref \<longleftrightarrow> \<not> bit ref 0"
  by (simp add: aligned_def MARK_MASK_def and_one_eq mod_2_eq_odd flip: bit_0)

lemma bit_one_iff: "bit (1 :: uintptr) n \<longleftrightarrow> n = 0"
  by (simp add: bit_1_iff)

lemma bit_pack: "bit (pack ref mark) n \<longleftrightarrow> bit ref n \<or> n = 0 \<and> mark"
  by (auto simp: pack_def bit_or_iff bit_one_iff)

lemma unpack_mark: "snd (unpack w) \<longleftrightarrow> bit w 0"
  by (simp add: unpack_def Let_def MARK_MASK_def and_one_eq mod_2_eq_odd bit_0)

lemma bit_unpack_ref: "bit (fst (unpack w)) n \<longleftrightarrow> bit w n \<and> n \<noteq> 0"
  by (auto simp: unpack_def Let_def MARK_MASK_def bit_and_iff bit_not_iff bit_one_iff
      dest: bit_imp_le_length)

lemma aligned_unpack [simp]: "aligned (fst (unpack w))"
  by (simp add: aligned_bit bit_unpack_ref)

lemma unpack_pack:
  assumes "aligned ref"
  shows "unpack (pack ref mark) = (ref, mark)"
proof (rule prod_eqI)
  show "fst (unpack (pack ref mark)) = fst (ref, mark)"
    using assms
    by (intro bit_word_eqI) (auto simp: bit_unpack_ref bit_pack aligned_bit intro!: gr0I)
  show "snd (unpack (pack ref mark)) = snd (ref, mark)"
    using assms by (simp add: unpack_mark bit_pack aligned_bit)
qed

lemma pack_unpack: "pack (fst (unpack w)) (snd (unpack w)) = w"
  by (intro bit_word_eqI) (auto simp: bit_unpack_ref bit_pack unpack_mark intro!: gr0I)

lemma word_eq_pack: "aligned ref \<Longrightarrow> w = pack ref mark \<longleftrightarrow> unpack w = (ref, mark)"
  by (metis pack_unpack unpack_pack fst_conv snd_conv)

subsection \<open>What the users of a reference rely on\<close>

text \<open>
  The operations a list applies to a published reference: it swings an unmarked one to
  another node, or marks it. \<open>observe\<close> is the pair of pointer and mark a reference stands for.
\<close>

datatype 'p reference_op = Swing 'p 'p bool | Mark 'p

locale markable_reference =
  fixes valid :: "'p \<Rightarrow> bool"
    and observe :: "'s \<Rightarrow> 'p \<times> bool"
    and put :: "'p \<Rightarrow> bool \<Rightarrow> 's \<Rightarrow> 's"
    and cas :: "'p \<Rightarrow> 'p \<Rightarrow> bool \<Rightarrow> bool \<Rightarrow> 's \<Rightarrow> bool \<times> 's"
    and attempt :: "'p \<Rightarrow> bool \<Rightarrow> 's \<Rightarrow> bool \<times> 's"
    and look :: "'s \<Rightarrow> 'p \<times> bool"
  assumes look: "look s = observe s"
    and put: "valid p \<Longrightarrow> observe (put p m s) = (p, m)"
    and cas_succeeds: "valid p \<Longrightarrow> valid q \<Longrightarrow> observe s = (p, m) \<Longrightarrow>
      fst (cas p q m n s) \<and> observe (snd (cas p q m n s)) = (q, n)"
    and cas_fails: "valid p \<Longrightarrow> observe s \<noteq> (p, m) \<Longrightarrow> cas p q m n s = (False, s)"
    and attempt_is_cas: "valid p \<Longrightarrow> attempt p m s = cas p p (\<not> m) m s"
begin

primrec perform :: "'p reference_op \<Rightarrow> 's \<Rightarrow> 's" where
  "perform (Swing p q n) s = snd (cas p q False n s)"
| "perform (Mark p) s = snd (attempt p True s)"

primrec legal :: "'p reference_op \<Rightarrow> bool" where
  "legal (Swing p q n) \<longleftrightarrow> valid p \<and> valid q"
| "legal (Mark p) \<longleftrightarrow> valid p"

text \<open>A reference that is marked keeps its pointer and its mark: the logical deletion is final.\<close>

lemma perform_marked: "legal op \<Longrightarrow> observe s = (r, True) \<Longrightarrow> perform op s = s"
  by (cases op) (auto simp: cas_fails attempt_is_cas)

lemma marked_is_final:
  "list_all legal ops \<Longrightarrow> observe s = (r, True) \<Longrightarrow> fold perform ops s = s"
  by (induction ops) (auto simp: perform_marked)

lemma look_after_put: "valid p \<Longrightarrow> look (put p m s) = (p, m)"
  by (simp add: look put)

end

lemma compareAndSet_unpack:
  assumes "aligned p"
  shows "compareAndSet p q m n s =
    (if unpack (atomicRefMark s) = (p, m) then (True, s\<lparr>atomicRefMark := pack q n\<rparr>) else (False, s))"
  using word_eq_pack [OF assms, of "atomicRefMark s" m]
  by (simp add: compareAndSet_def compare_exchange_strong_def)

lemma attemptMark_compareAndSet:
  assumes "aligned p"
  shows "attemptMark p m s = compareAndSet p p (\<not> m) m s"
  using assms
  by (auto simp: compareAndSet_unpack attemptMark_def attemptMark_after_load_def
      compare_exchange_strong_def split: prod.splits)

interpretation word_reference: markable_reference
  aligned "\<lambda>s. unpack (atomicRefMark s)" store compareAndSet attemptMark get
  by unfold_locales
     (auto simp: get_def store_def unpack_pack compareAndSet_unpack attemptMark_compareAndSet)

subsection \<open>Cells: a reference as a pair\<close>

text \<open>
  The list models keep a reference as the pair it stands for. The null pointer is
  \<^const>\<open>None\<close>; node addresses are abstract.
\<close>

type_synonym addr = nat
type_synonym cell = "addr option \<times> bool"

definition cell_null :: cell where
  "cell_null = (None, False)"

definition cell_store :: "addr option \<Rightarrow> bool \<Rightarrow> cell \<Rightarrow> cell" where
  "cell_store ref mark c = (ref, mark)"

definition cell_compareAndSet ::
  "addr option \<Rightarrow> addr option \<Rightarrow> bool \<Rightarrow> bool \<Rightarrow> cell \<Rightarrow> bool \<times> cell" where
  "cell_compareAndSet expectedRef newRef expectedMark newMark c =
     (if c = (expectedRef, expectedMark) then (True, (newRef, newMark)) else (False, c))"

definition cell_attemptMark :: "addr option \<Rightarrow> bool \<Rightarrow> cell \<Rightarrow> bool \<times> cell" where
  "cell_attemptMark expectedRef newMark c =
     (if fst c = expectedRef \<and> snd c \<noteq> newMark
      then cell_compareAndSet expectedRef expectedRef (snd c) newMark c else (False, c))"

lemmas cell_defs = cell_store_def cell_compareAndSet_def cell_attemptMark_def

interpretation cell_reference: markable_reference
  "\<lambda>_. True" "\<lambda>c. c" cell_store cell_compareAndSet cell_attemptMark "\<lambda>c. c"
  by unfold_locales (auto simp: cell_defs)

subsection \<open>Properties\<close>

text \<open>
  C40. Packing a node address (an even word) with a mark and unpacking it gives both back,
  and unpacking any word and packing the parts gives the word: the mark bit never leaks
  into the pointer and no state of the word is lost.
\<close>
theorem pack_unpack_roundtrip:
  "(aligned ref \<longrightarrow> unpack (pack ref mark) = (ref, mark)) \<and>
   pack (fst (unpack w)) (snd (unpack w)) = w \<and> aligned (fst (unpack w))"
  by (simp add: unpack_pack pack_unpack)

theorem pack_unpack_roundtrip_witness:
  "unpack (pack 0x7F10 True) = (0x7F10, True)"
  using pack_unpack_roundtrip [of "0x7F10" True 0] by (simp add: aligned_def MARK_MASK_def)

text \<open>
  C38. The word-level class refines the cells: for the pointers \<open>A\<close> in use, named by distinct
  even words through \<open>f\<close>, \<open>compareAndSet\<close>, \<open>attemptMark\<close>, \<open>store\<close> and \<open>get\<close> on the packed word
  succeed exactly when the pair operations do and leave the word of the resulting pair.
\<close>
theorem word_reference_refines_cell:
  fixes f :: "addr option \<Rightarrow> uintptr"
  assumes inj: "inj_on f A" and even: "\<forall>x\<in>A. aligned (f x)"
    and A: "fst c \<in> A" "p \<in> A" "q \<in> A"
    and s: "unpack (atomicRefMark s) = (f (fst c), snd c)"
  shows "fst (compareAndSet (f p) (f q) m n s) = fst (cell_compareAndSet p q m n c) \<and>
    get (snd (compareAndSet (f p) (f q) m n s)) =
      map_prod f id (snd (cell_compareAndSet p q m n c)) \<and>
    fst (attemptMark (f p) m s) = fst (cell_attemptMark p m c) \<and>
    get (snd (attemptMark (f p) m s)) = map_prod f id (snd (cell_attemptMark p m c)) \<and>
    get (store (f p) m s) = map_prod f id (cell_store p m c) \<and>
    get s = map_prod f id c \<and> getReference s = f (fst c)"
proof -
  have "unpack (atomicRefMark s) = (f p, m) \<longleftrightarrow> c = (p, m)" if "p \<in> A" for p m
    using s inj that A by (cases c) (auto simp: inj_on_eq_iff)
  then show ?thesis
    using s even A by (cases c)
      (auto simp: get_def getReference_def store_def unpack_pack compareAndSet_unpack
        attemptMark_compareAndSet cell_defs)
qed

theorem word_reference_refines_cell_witness:
  fixes f and s
  defines "f \<equiv> case_option 0 (\<lambda>a::addr. 0x40 * (1 + of_nat a) :: uintptr)"
    and "s \<equiv> store 0x40 False AtomicMarkableReference"
  shows "fst (compareAndSet (f (Some 0)) (f None) False True s) \<and>
    get (snd (compareAndSet (f (Some 0)) (f None) False True s)) = (0, True)"
  using word_reference_refines_cell
      [of f "{None, Some 0}" "(Some 0, False)" "Some 0" None s False True]
  by (simp add: f_def s_def store_def unpack_pack aligned_def MARK_MASK_def cell_defs)

text \<open>
  C39. \<open>attemptMark\<close> loads and then exchanges, and other threads may write in between. Its effect
  and its result are still those of one atomic \<open>compareAndSet\<close> of the expected pointer, taken
  at the exchange when the loaded value passed the test and at the load when it did not
  (then it changes nothing and reports failure, as the exchange would have at the load).
\<close>
theorem attemptMark_is_atomic:
  assumes "aligned p"
  shows "attemptMark_after_load (atomicRefMark s0) p m s =
    (if fst (compareAndSet p p (\<not> m) m s0) then compareAndSet p p (\<not> m) m s else (False, s))"
  using assms word_eq_pack [OF assms, of "atomicRefMark s0" "\<not> m"]
  by (auto simp: compareAndSet_unpack attemptMark_after_load_def compare_exchange_strong_def
      unpack_pack split: prod.splits) (metis pack_unpack fst_conv snd_conv)+

theorem attemptMark_is_atomic_witness:
  "attemptMark_after_load (pack 0x40 False) 0x40 True \<lparr>atomicRefMark = pack 0x80 False\<rparr> =
    (False, \<lparr>atomicRefMark = pack 0x80 False\<rparr>)"
  using attemptMark_is_atomic [of "0x40" "\<lparr>atomicRefMark = pack 0x40 False\<rparr>" True
      "\<lparr>atomicRefMark = pack 0x80 False\<rparr>"]
  by (simp add: aligned_def MARK_MASK_def compareAndSet_def compare_exchange_strong_def pack_def)

end
