(* ===== verification/RL_Random_Level.thy ===== *)
theory RL_Random_Level
  imports RL_Prelude
begin

text \<open>
  The height of a new node: \<open>randomLevel\<close> of \<open>src/v0/range_lock.hpp\<close>, which
  \<open>src/v3/range_lock.cpp\<close> has with the same body. \<open>rand()\<close> is a parameter: the \<open>i\<close>-th iteration of the loop has \<open>level = i\<close> and makes the \<open>i\<close>-th call of
  \<open>rand()\<close>, so \<open>rnd i\<close> is what that call returns.
\<close>

function randomLevel_from :: "nat \<Rightarrow> (nat \<Rightarrow> nat) \<Rightarrow> nat \<Rightarrow> nat" where
  "randomLevel_from maxLevel rnd lv =
     (if rnd lv mod 2 \<noteq> 0 \<and> lv < maxLevel then randomLevel_from maxLevel rnd (lv + 1) else lv)"
  by pat_completeness auto
termination
  by (relation "measure (\<lambda>(maxLevel, rnd, lv). maxLevel - lv)") auto

declare randomLevel_from.simps [simp del]

definition randomLevel :: "nat \<Rightarrow> (nat \<Rightarrow> nat) \<Rightarrow> nat" where
  "randomLevel maxLevel rnd = randomLevel_from maxLevel rnd 0"

lemma randomLevel_from_bound: "lv \<le> maxLevel \<Longrightarrow> randomLevel_from maxLevel rnd lv \<le> maxLevel"
proof (induction maxLevel rnd lv rule: randomLevel_from.induct)
  case (1 maxLevel rnd lv)
  then show ?case by (subst randomLevel_from.simps) auto
qed

lemma randomLevel_bound: "randomLevel maxLevel rnd \<le> maxLevel"
  by (simp add: randomLevel_def randomLevel_from_bound)

text \<open>
  \<open>randomLevel\<close> ends, stays within \<open>maxLevel\<close>, and is the number of odd results of \<open>rand()\<close>
  before the first even one, cut off at \<open>maxLevel\<close>.
\<close>
theorem randomLevel_correct:
  "randomLevel maxLevel rnd = lv \<longleftrightarrow>
     (lv \<le> maxLevel \<and> (\<forall>i<lv. rnd i mod 2 \<noteq> 0) \<and> (lv \<noteq> maxLevel \<longrightarrow> rnd lv mod 2 = 0))"
proof -
  have ex: "randomLevel_from maxLevel rnd lv \<le> maxLevel \<and>
      (\<forall>i<randomLevel_from maxLevel rnd lv. lv \<le> i \<longrightarrow> rnd i mod 2 \<noteq> 0) \<and>
      (randomLevel_from maxLevel rnd lv \<noteq> maxLevel \<longrightarrow>
        rnd (randomLevel_from maxLevel rnd lv) mod 2 = 0)" if "lv \<le> maxLevel" for lv
    using that
  proof (induction maxLevel rnd lv rule: randomLevel_from.induct)
    case (1 maxLevel rnd lv)
    show ?case
    proof (cases "rnd lv mod 2 \<noteq> 0 \<and> lv < maxLevel")
      case True
      then have "randomLevel_from maxLevel rnd lv = randomLevel_from maxLevel rnd (lv + 1)"
        by (simp add: randomLevel_from.simps [of maxLevel rnd lv])
      with 1(1) True show ?thesis
        by simp (metis Suc_leI le_neq_implies_less)
    next
      case False
      then have "randomLevel_from maxLevel rnd lv = lv"
        by (subst randomLevel_from.simps) (rule if_not_P)
      with False 1(2) show ?thesis by auto
    qed
  qed
  let ?r = "randomLevel maxLevel rnd"
  have r: "?r \<le> maxLevel" "\<And>i. i < ?r \<Longrightarrow> rnd i mod 2 \<noteq> 0" "?r \<noteq> maxLevel \<Longrightarrow> rnd ?r mod 2 = 0"
    using ex [of 0] by (auto simp: randomLevel_def)
  show ?thesis
  proof
    assume "lv \<le> maxLevel \<and> (\<forall>i<lv. rnd i mod 2 \<noteq> 0) \<and> (lv \<noteq> maxLevel \<longrightarrow> rnd lv mod 2 = 0)"
    with r have "\<not> ?r < lv" "\<not> lv < ?r" by fastforce+
    then show "?r = lv" by simp
  qed (use r in auto)
qed

theorem randomLevel_correct_witness: "randomLevel 3 (\<lambda>i. if i = 2 then 4 else 1) = 2"
  using randomLevel_correct [of 3 "\<lambda>i. if i = 2 then 4 else 1" 2] by simp

end
