(* ===== verification/V0_Skiplist.thy ===== *)
theory V0_Skiplist
  imports V0_Markable_Reference RL_Random_Level
begin

text \<open>
  The lock-free skip list of \<open>src/v0/node.hpp\<close> and \<open>src/v0/range_lock.hpp\<close>, the range lock the
  README proposes. The key type \<open>T\<close> of the templates is a type variable with a least and a
  greatest element (\<open>bot\<close> and \<open>top\<close> stand for \<open>numeric_limits<T>::min()\<close> and \<open>max()\<close>), and the
  template argument \<open>maxLevel\<close> is an argument of the definitions.

  The program is translated at the granularity of its atomic accesses. \<open>locals\<close> holds the local
  variables of the operation a thread is in, \<open>pc\<close> its place in the code, and \<open>step\<close> runs the code
  up to and including the next access to shared memory. \<open>None\<close> is a null pointer followed or an
  array index out of bounds.
\<close>

subsection \<open>Node\<close>

record 't node =
  n_start :: 't
  n_end :: 't
  n_topLevel :: nat
  n_next :: "cell list"

definition initialize :: "'t \<Rightarrow> 't \<Rightarrow> nat \<Rightarrow> 't node" where
  "initialize start_key end_key topLvl =
     \<lparr>n_start = start_key, n_end = end_key, n_topLevel = topLvl,
      n_next = replicate (topLvl + 1) cell_null\<rparr>"

definition initializeHead :: "'t \<Rightarrow> 't \<Rightarrow> nat \<Rightarrow> addr option \<Rightarrow> 't node" where
  "initializeHead start_key end_key topLvl tailp =
     \<lparr>n_start = start_key, n_end = end_key, n_topLevel = topLvl,
      n_next = replicate (topLvl + 1) (cell_store tailp False cell_null)\<rparr>"

definition getTopLevel :: "'t node \<Rightarrow> nat" where
  "getTopLevel n = n_topLevel n"

definition getStart :: "'t node \<Rightarrow> 't" where
  "getStart n = n_start n"

definition getEnd :: "'t node \<Rightarrow> 't" where
  "getEnd n = n_end n"

lemmas getter_defs [simp] = getTopLevel_def getStart_def getEnd_def

subsection \<open>The lock object\<close>

text \<open>
  \<open>new\<close> hands out storage that is in no use; the code never deletes a node, so the model
  takes the next unused address \<open>brk\<close>.
\<close>

record 't crl =
  heap :: "addr \<Rightarrow> 't node option"
  brk :: addr
  head :: addr
  tail :: addr
  elementsCount :: "64 word"

definition ConcurrentRangeLock :: "nat \<Rightarrow> ('t::{linorder,order_bot,order_top}) crl" where
  "ConcurrentRangeLock maxLevel =
     \<lparr>heap = [0 \<mapsto> initializeHead bot bot maxLevel (Some 1), 1 \<mapsto> initialize top top maxLevel],
      brk = 2, head = 0, tail = 1, elementsCount = 0\<rparr>"

definition size_v0 :: "'t crl \<Rightarrow> 64 word" where
  "size_v0 \<sigma> = elementsCount \<sigma>"

subsection \<open>Access to shared memory\<close>

definition deref :: "'t crl \<Rightarrow> addr option \<Rightarrow> 't node option" where
  "deref \<sigma> p = Option.bind p (heap \<sigma>)"

definition read_next :: "'t crl \<Rightarrow> addr option \<Rightarrow> nat \<Rightarrow> cell option" where
  "read_next \<sigma> p k = do {
     n \<leftarrow> deref \<sigma> p;
     if k < length (n_next n) then Some (n_next n ! k) else None }"

definition write_next :: "'t crl \<Rightarrow> addr option \<Rightarrow> nat \<Rightarrow> cell \<Rightarrow> 't crl option" where
  "write_next \<sigma> p k c = do {
     a \<leftarrow> p;
     n \<leftarrow> heap \<sigma> a;
     if k < length (n_next n)
     then Some (\<sigma>\<lparr>heap := (heap \<sigma>)(a \<mapsto> n\<lparr>n_next := (n_next n)[k := c]\<rparr>)\<rparr>) else None }"

definition cas_next ::
  "'t crl \<Rightarrow> addr option \<Rightarrow> nat \<Rightarrow> addr option \<Rightarrow> addr option \<Rightarrow> bool \<Rightarrow> bool \<Rightarrow>
   (bool \<times> 't crl) option" where
  "cas_next \<sigma> p k expectedRef newRef expectedMark newMark = do {
     c \<leftarrow> read_next \<sigma> p k;
     let (ok, c') = cell_compareAndSet expectedRef newRef expectedMark newMark c;
     \<sigma>' \<leftarrow> write_next \<sigma> p k c';
     Some (ok, \<sigma>') }"

definition attemptMark_next ::
  "'t crl \<Rightarrow> addr option \<Rightarrow> nat \<Rightarrow> addr option \<Rightarrow> bool \<Rightarrow> (bool \<times> 't crl) option" where
  "attemptMark_next \<sigma> p k expectedRef newMark = do {
     c \<leftarrow> read_next \<sigma> p k;
     let (ok, c') = cell_attemptMark expectedRef newMark c;
     \<sigma>' \<leftarrow> write_next \<sigma> p k c';
     Some (ok, \<sigma>') }"

subsection \<open>The state of a thread\<close>

text \<open>
  The places inside the search loop shared by \<open>findInsert\<close>, \<open>findExact\<close> and \<open>findDelete\<close>:
  \<open>FRetry\<close> the label \<open>retry\<close>; \<open>FLevel\<close> the head of the loop over the levels; \<open>FWhile\<close> the test of
  the inner loop and the read of \<open>curr->next[level]\<close> behind it; \<open>FMarked\<close> the test of
  \<open>while (marked[0])\<close>; \<open>FReload\<close> and \<open>FReget\<close> the two reads after a successful snip; \<open>FReturn\<close> the
  return statement.
\<close>

datatype find_pc = FRetry | FLevel | FWhile | FMarked | FReload | FReget | FReturn

text \<open>
  \<open>FindInsert\<close> carries whether the call is the one that tries again to link the upper levels.
\<close>

datatype pc =
    Idle
  | FindInsert bool find_pc
  | FindExact find_pc
  | FindDelete find_pc
  | TryAlloc | TryCas0 | TryLink
  | RelMark | RelMarkWhile | RelMarkReget | RelCas0 | RelReget0
  | TryReturned bool
  | RelReturned bool
  | Crashed

record 't locals =
  pc :: pc
  arg_start :: 't
  arg_end :: 't
  pred :: "addr option"
  curr :: "addr option"
  succ :: "addr option"
  marked :: bool
  level :: nat
  preds :: "nat \<Rightarrow> addr option"
  succs :: "nat \<Rightarrow> addr option"
  topLevel :: nat
  newNode :: "addr option"
  link_level :: nat
  nodeToRemove :: "addr option"
  mark_level :: nat
  iMarkedIt :: bool

text \<open>The local variables before the first call: what they hold is never read.\<close>

definition fresh_locals :: "('t::order_bot) locals" where
  "fresh_locals =
     \<lparr>pc = Idle, arg_start = bot, arg_end = bot, pred = None, curr = None, succ = None,
      marked = False, level = 0, preds = (\<lambda>_. None), succs = (\<lambda>_. None), topLevel = 0,
      newNode = None, link_level = 0, nodeToRemove = None, mark_level = 0, iMarkedIt = False\<rparr>"

text \<open>Entering the two operations.\<close>

definition call_tryLock ::
  "nat \<Rightarrow> 't \<Rightarrow> 't \<Rightarrow> (nat \<Rightarrow> nat) \<Rightarrow> 't locals \<Rightarrow> 't locals" where
  "call_tryLock maxLevel s e rnd l =
     l\<lparr>pc := FindInsert False FRetry, arg_start := s, arg_end := e,
       topLevel := randomLevel maxLevel rnd\<rparr>"

definition call_releaseLock :: "'t \<Rightarrow> 't \<Rightarrow> 't locals \<Rightarrow> 't locals" where
  "call_releaseLock s e l = l\<lparr>pc := FindExact FRetry, arg_start := s, arg_end := e\<rparr>"

subsection \<open>The search loop\<close>

text \<open>
  The three search functions have one loop, with a test \<open>wg start curr\<close> of the inner loop and a
  test \<open>ag start curr\<close> for going on behind an unmarked \<open>curr\<close>; \<open>arrays\<close> says whether the function
  records the nodes it found in \<open>preds\<close> and \<open>succs\<close>. \<open>K\<close> is the function the place belongs to.
\<close>

type_synonym 't result = "('t crl \<times> 't locals) option"

text \<open>The end of the loop body of one level, and \<open>level--\<close> with the test \<open>level >= 0\<close>.\<close>

definition level_done :: "bool \<Rightarrow> (find_pc \<Rightarrow> pc) \<Rightarrow> 't locals \<Rightarrow> 't locals" where
  "level_done arrays K l =
     (let l1 = (if arrays
                then l\<lparr>preds := (preds l)(level l := pred l),
                       succs := (succs l)(level l := curr l)\<rparr>
                else l)
      in if level l = 0 then l1\<lparr>pc := K FReturn\<rparr>
         else l1\<lparr>level := level l - 1, pc := K FLevel\<rparr>)"

fun find_step ::
  "('t \<Rightarrow> 't node \<Rightarrow> bool) \<Rightarrow> ('t \<Rightarrow> 't node \<Rightarrow> bool) \<Rightarrow> bool \<Rightarrow> (find_pc \<Rightarrow> pc) \<Rightarrow> nat \<Rightarrow>
   find_pc \<Rightarrow> 't crl \<Rightarrow> 't locals \<Rightarrow> 't result" where
  "find_step wg ag arrays K maxLevel FRetry \<sigma> l =
     Some (\<sigma>, l\<lparr>pred := Some (head \<sigma>), level := maxLevel, pc := K FLevel\<rparr>)"
| "find_step wg ag arrays K maxLevel FLevel \<sigma> l = do {
     c \<leftarrow> read_next \<sigma> (pred l) (level l);
     Some (\<sigma>, l\<lparr>curr := fst c, pc := K FWhile\<rparr>) }"
| "find_step wg ag arrays K maxLevel FWhile \<sigma> l = do {
     n \<leftarrow> deref \<sigma> (curr l);
     if wg (arg_start l) n
     then do {
       c \<leftarrow> read_next \<sigma> (curr l) (level l);
       Some (\<sigma>, l\<lparr>succ := fst c, marked := snd c, pc := K FMarked\<rparr>) }
     else Some (\<sigma>, level_done arrays K l) }"
| "find_step wg ag arrays K maxLevel FMarked \<sigma> l =
     (if marked l
      then do {
        (snip, \<sigma>') \<leftarrow> cas_next \<sigma> (pred l) (level l) (curr l) (succ l) False False;
        Some (\<sigma>', l\<lparr>pc := K (if snip then FReload else FRetry)\<rparr>) }
      else do {
        n \<leftarrow> deref \<sigma> (curr l);
        Some (\<sigma>, if ag (arg_start l) n
                 then l\<lparr>pred := curr l, curr := succ l, pc := K FWhile\<rparr>
                 else level_done arrays K l) })"
| "find_step wg ag arrays K maxLevel FReload \<sigma> l = do {
     c \<leftarrow> read_next \<sigma> (pred l) (level l);
     Some (\<sigma>, l\<lparr>curr := fst c, pc := K FReget\<rparr>) }"
| "find_step wg ag arrays K maxLevel FReget \<sigma> l = do {
     c \<leftarrow> read_next \<sigma> (curr l) (level l);
     Some (\<sigma>, l\<lparr>succ := fst c, marked := snd c, pc := K FMarked\<rparr>) }"
| "find_step wg ag arrays K maxLevel FReturn \<sigma> l = None"

text \<open>The return expressions.\<close>

definition findInsert_result :: "('t::linorder) crl \<Rightarrow> 't locals \<Rightarrow> bool option" where
  "findInsert_result \<sigma> l = do {
     p \<leftarrow> deref \<sigma> (pred l);
     c \<leftarrow> deref \<sigma> (curr l);
     Some (\<not> (arg_start l > getEnd p \<and> arg_end l < getStart c)) }"

definition findExact_result :: "'t crl \<Rightarrow> 't locals \<Rightarrow> bool option" where
  "findExact_result \<sigma> l = do {
     c \<leftarrow> deref \<sigma> (curr l);
     Some (arg_start l = getStart c \<and> arg_end l = getEnd c) }"

text \<open>
  The three functions. \<open>findInsert\<close> returns to \<open>tryLock\<close>: at the first call a conflict makes
  \<open>tryLock\<close> return false; the result of the second call is not looked at.
\<close>

definition findInsert_step ::
  "nat \<Rightarrow> bool \<Rightarrow> find_pc \<Rightarrow> ('t::linorder) crl \<Rightarrow> 't locals \<Rightarrow> 't result" where
  "findInsert_step maxLevel relink f \<sigma> l =
     (if f = FReturn
      then do {
        found \<leftarrow> findInsert_result \<sigma> l;
        Some (\<sigma>, l\<lparr>pc := if relink then TryLink
                         else if found then TryReturned False else TryAlloc\<rparr>) }
      else find_step (\<lambda>s n. s > getStart n) (\<lambda>s n. s \<ge> getStart n) True (FindInsert relink)
             maxLevel f \<sigma> l)"

definition findExact_step ::
  "nat \<Rightarrow> find_pc \<Rightarrow> ('t::linorder) crl \<Rightarrow> 't locals \<Rightarrow> 't result" where
  "findExact_step maxLevel f \<sigma> l =
     (if f = FReturn
      then do {
        found \<leftarrow> findExact_result \<sigma> l;
        if \<not> found then Some (\<sigma>, l\<lparr>pc := RelReturned False\<rparr>)
        else do {
          n \<leftarrow> deref \<sigma> (succs l 0);
          Some (\<sigma>, l\<lparr>nodeToRemove := succs l 0, mark_level := getTopLevel n, pc := RelMark\<rparr>) } }
      else find_step (\<lambda>s n. s \<ge> getStart n) (\<lambda>s n. s \<ge> getEnd n) True FindExact maxLevel f \<sigma> l)"

definition findDelete_step ::
  "nat \<Rightarrow> find_pc \<Rightarrow> ('t::linorder) crl \<Rightarrow> 't locals \<Rightarrow> 't result" where
  "findDelete_step maxLevel f \<sigma> l =
     (if f = FReturn
      then Some (\<sigma>\<lparr>elementsCount := elementsCount \<sigma> - 1\<rparr>, l\<lparr>pc := RelReturned True\<rparr>)
      else find_step (\<lambda>s n. s \<ge> getStart n) (\<lambda>s n. s \<ge> getEnd n) False FindDelete maxLevel f \<sigma> l)"

subsection \<open>tryLock\<close>

text \<open>The node a \<open>tryLock\<close> builds before it publishes it: its cells are written in private.\<close>

definition build_node :: "'t locals \<Rightarrow> 't node" where
  "build_node l =
     (let n = initialize (arg_start l) (arg_end l) (topLevel l);
          cells = map (\<lambda>k. cell_store (succs l k) False (n_next n ! k)) [0 ..< topLevel l + 1]
      in n\<lparr>n_next := cells[0 := cell_store (succs l 0) False (cells ! 0)]\<rparr>)"

fun try_step :: "pc \<Rightarrow> 't crl \<Rightarrow> 't locals \<Rightarrow> 't result" where
  "try_step TryAlloc \<sigma> l =
     Some (\<sigma>\<lparr>heap := (heap \<sigma>)(brk \<sigma> \<mapsto> build_node l), brk := brk \<sigma> + 1\<rparr>,
           l\<lparr>newNode := Some (brk \<sigma>), pc := TryCas0\<rparr>)"
| "try_step TryCas0 \<sigma> l = do {
     (ok, \<sigma>') \<leftarrow> cas_next \<sigma> (preds l 0) 0 (succs l 0) (newNode l) False False;
     Some (\<sigma>', if ok then l\<lparr>link_level := 1, pc := TryLink\<rparr>
               else l\<lparr>pc := FindInsert False FRetry\<rparr>) }"
| "try_step TryLink \<sigma> l =
     (if link_level l \<le> topLevel l
      then do {
        (ok, \<sigma>') \<leftarrow> cas_next \<sigma> (preds l (link_level l)) (link_level l) (succs l (link_level l))
                     (newNode l) False False;
        Some (\<sigma>', if ok then l\<lparr>link_level := link_level l + 1\<rparr>
                  else l\<lparr>pc := FindInsert True FRetry\<rparr>) }
      else Some (\<sigma>\<lparr>elementsCount := elementsCount \<sigma> + 1\<rparr>, l\<lparr>pc := TryReturned True\<rparr>))"
| "try_step _ \<sigma> l = None"

subsection \<open>releaseLock\<close>

fun release_step :: "pc \<Rightarrow> 't crl \<Rightarrow> 't locals \<Rightarrow> 't result" where
  "release_step RelMark \<sigma> l =
     (if mark_level l \<ge> 1
      then do {
        c \<leftarrow> read_next \<sigma> (nodeToRemove l) (mark_level l);
        Some (\<sigma>, l\<lparr>succ := fst c, marked := snd c, pc := RelMarkWhile\<rparr>) }
      else do {
        c \<leftarrow> read_next \<sigma> (nodeToRemove l) 0;
        Some (\<sigma>, l\<lparr>succ := fst c, marked := snd c, pc := RelCas0\<rparr>) })"
| "release_step RelMarkWhile \<sigma> l =
     (if \<not> marked l
      then do {
        (_, \<sigma>') \<leftarrow> attemptMark_next \<sigma> (nodeToRemove l) (mark_level l) (succ l) True;
        Some (\<sigma>', l\<lparr>pc := RelMarkReget\<rparr>) }
      else Some (\<sigma>, l\<lparr>mark_level := mark_level l - 1, pc := RelMark\<rparr>))"
| "release_step RelMarkReget \<sigma> l = do {
     c \<leftarrow> read_next \<sigma> (nodeToRemove l) (mark_level l);
     Some (\<sigma>, l\<lparr>succ := fst c, marked := snd c, pc := RelMarkWhile\<rparr>) }"
| "release_step RelCas0 \<sigma> l = do {
     (ok, \<sigma>') \<leftarrow> cas_next \<sigma> (nodeToRemove l) 0 (succ l) (succ l) False True;
     Some (\<sigma>', l\<lparr>iMarkedIt := ok, pc := RelReget0\<rparr>) }"
| "release_step RelReget0 \<sigma> l = do {
     c \<leftarrow> read_next \<sigma> (succs l 0) 0;
     Some (\<sigma>, l\<lparr>succ := fst c, marked := snd c,
               pc := if iMarkedIt l then FindDelete FRetry
                     else if snd c then RelReturned False else RelCas0\<rparr>) }"
| "release_step _ \<sigma> l = None"

subsection \<open>One step of a thread\<close>

definition code_step :: "nat \<Rightarrow> ('t::linorder) crl \<Rightarrow> 't locals \<Rightarrow> 't result" where
  "code_step maxLevel \<sigma> l = (case pc l of
       FindInsert relink f \<Rightarrow> findInsert_step maxLevel relink f \<sigma> l
     | FindExact f \<Rightarrow> findExact_step maxLevel f \<sigma> l
     | FindDelete f \<Rightarrow> findDelete_step maxLevel f \<sigma> l
     | TryAlloc \<Rightarrow> try_step TryAlloc \<sigma> l
     | TryCas0 \<Rightarrow> try_step TryCas0 \<sigma> l
     | TryLink \<Rightarrow> try_step TryLink \<sigma> l
     | Idle \<Rightarrow> Some (\<sigma>, l)
     | TryReturned b \<Rightarrow> Some (\<sigma>, l)
     | RelReturned b \<Rightarrow> Some (\<sigma>, l)
     | Crashed \<Rightarrow> Some (\<sigma>, l)
     | r \<Rightarrow> release_step r \<sigma> l)"

definition step :: "nat \<Rightarrow> ('t::linorder) crl \<Rightarrow> 't locals \<Rightarrow> 't crl \<times> 't locals" where
  "step maxLevel \<sigma> l = (case code_step maxLevel \<sigma> l of
     Some r \<Rightarrow> r | None \<Rightarrow> (\<sigma>, l\<lparr>pc := Crashed\<rparr>))"

subsection \<open>Threads\<close>

text \<open>
  A system is the lock and the threads that use it. An event is a thread calling one of the
  operations while it is in none, or a thread making one step. A run is a list of events:
  every interleaving of the atomic accesses is one.
\<close>

record 't system =
  lock :: "'t crl"
  threads :: "nat \<Rightarrow> 't locals"

datatype 't event =
    CallTry nat 't 't "nat \<Rightarrow> nat"
  | CallRelease nat 't 't
  | Step nat

definition at_rest :: "'t locals \<Rightarrow> bool" where
  "at_rest l \<longleftrightarrow> (case pc l of Idle \<Rightarrow> True | TryReturned _ \<Rightarrow> True | RelReturned _ \<Rightarrow> True | _ \<Rightarrow> False)"

fun do_event :: "nat \<Rightarrow> ('t::linorder) event \<Rightarrow> 't system \<Rightarrow> 't system" where
  "do_event maxLevel (CallTry t s e rnd) S =
     (if at_rest (threads S t)
      then S\<lparr>threads := (threads S)(t := call_tryLock maxLevel s e rnd (threads S t))\<rparr> else S)"
| "do_event maxLevel (CallRelease t s e) S =
     (if at_rest (threads S t)
      then S\<lparr>threads := (threads S)(t := call_releaseLock s e (threads S t))\<rparr> else S)"
| "do_event maxLevel (Step t) S =
     (let (\<sigma>', l') = step maxLevel (lock S) (threads S t)
      in S\<lparr>lock := \<sigma>', threads := (threads S)(t := l')\<rparr>)"

definition init_system :: "nat \<Rightarrow> ('t::{linorder,order_bot,order_top}) system" where
  "init_system maxLevel = \<lparr>lock = ConcurrentRangeLock maxLevel, threads = (\<lambda>_. fresh_locals)\<rparr>"

definition run_events :: "nat \<Rightarrow> ('t::linorder) event list \<Rightarrow> 't system \<Rightarrow> 't system" where
  "run_events maxLevel evs S = fold (do_event maxLevel) evs S"

text \<open>
  What a caller has to keep to: the range is not reversed and does not start at the largest
  key, where the tail sentinel sits.
\<close>

fun legal_event :: "('t::{linorder,order_top}) event \<Rightarrow> bool" where
  "legal_event (CallTry t s e rnd) \<longleftrightarrow> s \<le> e \<and> s < top"
| "legal_event (CallRelease t s e) \<longleftrightarrow> s \<le> e \<and> s < top"
| "legal_event (Step t) \<longleftrightarrow> True"

end
