(* ===== verification/V0_Safety.thy ===== *)
theory V0_Safety
  imports V0_Skiplist
begin

text \<open>
  Safety of the lock-free skip list of v0 under every interleaving: the invariant of the
  shared heap, what each thread knows at each place of the code, and how a step of one thread
  affects what the others know. Mutual exclusion and the absence of null dereferences follow.
\<close>

subsection \<open>The level-0 chain\<close>

definition nx :: "'t crl \<Rightarrow> addr \<Rightarrow> addr option" where
  "nx \<sigma> a = (case read_next \<sigma> (Some a) 0 of None \<Rightarrow> None | Some c \<Rightarrow> fst c)"

definition marked0 :: "'t crl \<Rightarrow> addr \<Rightarrow> bool" where
  "marked0 \<sigma> a \<longleftrightarrow> (case read_next \<sigma> (Some a) 0 of None \<Rightarrow> False | Some c \<Rightarrow> snd c)"

definition on_chain :: "'t crl \<Rightarrow> addr \<Rightarrow> bool" where
  "on_chain \<sigma> a \<longleftrightarrow> reach (nx \<sigma>) (head \<sigma>) a"

text \<open>A node that was inserted stays linked for ever: it is on the chain, or it is deleted.\<close>

definition linked :: "'t crl \<Rightarrow> addr \<Rightarrow> bool" where
  "linked \<sigma> a \<longleftrightarrow> on_chain \<sigma> a \<or> marked0 \<sigma> a"

definition tall :: "'t crl \<Rightarrow> addr \<Rightarrow> nat \<Rightarrow> bool" where
  "tall \<sigma> a k \<longleftrightarrow> read_next \<sigma> (Some a) k \<noteq> None"

definition rg :: "'t crl \<Rightarrow> addr \<Rightarrow> 't range" where
  "rg \<sigma> a = (n_start (the (heap \<sigma> a)), n_end (the (heap \<sigma> a)))"

definition good_ref :: "'t crl \<Rightarrow> nat \<Rightarrow> addr \<Rightarrow> bool" where
  "good_ref \<sigma> k p \<longleftrightarrow> linked \<sigma> p \<and> p \<noteq> head \<sigma> \<and> tall \<sigma> p k"

definition sentinels :: "nat \<Rightarrow> ('t::{linorder,order_bot,order_top}) crl \<Rightarrow> bool" where
  "sentinels M \<sigma> \<longleftrightarrow> head \<sigma> \<noteq> tail \<sigma> \<and>
     rg \<sigma> (head \<sigma>) = (bot, bot) \<and> rg \<sigma> (tail \<sigma>) = (top, top) \<and>
     (\<forall>k\<le>M. tall \<sigma> (head \<sigma>) k) \<and> (\<forall>k\<le>M. read_next \<sigma> (Some (tail \<sigma>)) k = Some (None, False))"

definition well_formed_node :: "nat \<Rightarrow> ('t::linorder) node \<Rightarrow> bool" where
  "well_formed_node M n \<longleftrightarrow> n_start n \<le> n_end n \<and> length (n_next n) = n_topLevel n + 1 \<and>
     n_topLevel n \<le> M"

definition good_cell :: "('t::linorder) crl \<Rightarrow> addr \<Rightarrow> nat \<Rightarrow> cell \<Rightarrow> bool" where
  "good_cell \<sigma> a k c \<longleftrightarrow> (case fst c of None \<Rightarrow> False | Some p \<Rightarrow>
     good_ref \<sigma> k p \<and> (k = 0 \<and> a \<noteq> head \<sigma> \<longrightarrow> closed_before (rg \<sigma> a) (rg \<sigma> p)))"

definition heap_inv :: "nat \<Rightarrow> ('t::{linorder,order_bot,order_top}) crl \<Rightarrow> bool" where
  "heap_inv M \<sigma> \<longleftrightarrow>
     (\<forall>a. heap \<sigma> a \<noteq> None \<longleftrightarrow> a < brk \<sigma>) \<and> sentinels M \<sigma> \<and>
     (\<forall>a n. heap \<sigma> a = Some n \<longrightarrow> well_formed_node M n) \<and>
     (\<forall>a k c. a \<noteq> tail \<sigma> \<longrightarrow> read_next \<sigma> (Some a) k = Some c \<longrightarrow> good_cell \<sigma> a k c)"

text \<open>
  What the steps of other threads may do to the heap: nodes keep their ranges and levels,
  inserted nodes stay linked, a marked cell never changes again, and a node that is not yet
  inserted is touched only by its owner. \<open>X\<close> holds the nodes the step inserts.
\<close>

definition same_node :: "'t node \<Rightarrow> 't node \<Rightarrow> bool" where
  "same_node n n' \<longleftrightarrow> n_start n' = n_start n \<and> n_end n' = n_end n \<and>
     n_topLevel n' = n_topLevel n \<and> length (n_next n') = length (n_next n)"

definition evolves :: "addr set \<Rightarrow> 't crl \<Rightarrow> 't crl \<Rightarrow> bool" where
  "evolves X \<sigma> \<sigma>' \<longleftrightarrow> head \<sigma>' = head \<sigma> \<and> tail \<sigma>' = tail \<sigma> \<and> brk \<sigma> \<le> brk \<sigma>' \<and>
     (\<forall>a n. heap \<sigma> a = Some n \<longrightarrow> (\<exists>n'. heap \<sigma>' a = Some n' \<and> same_node n n')) \<and>
     (\<forall>a. linked \<sigma> a \<longrightarrow> linked \<sigma>' a) \<and> (\<forall>a. linked \<sigma>' a \<longrightarrow> linked \<sigma> a \<or> a \<in> X) \<and>
     (\<forall>a k q. read_next \<sigma> (Some a) k = Some (q, True) \<longrightarrow> read_next \<sigma>' (Some a) k = Some (q, True)) \<and>
     (\<forall>a. heap \<sigma> a \<noteq> None \<and> \<not> linked \<sigma> a \<and> a \<notin> X \<longrightarrow> heap \<sigma>' a = heap \<sigma> a)"

subsection \<open>Reading and writing cells\<close>

lemma deref_Some [simp]: "deref \<sigma> (Some a) = heap \<sigma> a"
  by (simp add: deref_def)

lemma read_next_Some:
  "read_next \<sigma> (Some a) k = Some c \<longleftrightarrow>
   (\<exists>n. heap \<sigma> a = Some n \<and> k < length (n_next n) \<and> n_next n ! k = c)"
  by (auto simp: read_next_def bind_eq_Some_conv)

lemma tall_iff: "tall \<sigma> a k \<longleftrightarrow> (\<exists>n. heap \<sigma> a = Some n \<and> k < length (n_next n))"
  by (auto simp: tall_def read_next_def split: bind_splits)

lemma tallD: "tall \<sigma> a k \<Longrightarrow> \<exists>c. read_next \<sigma> (Some a) k = Some c"
  by (auto simp: tall_def)

lemma tall_mono: "tall \<sigma> a k \<Longrightarrow> j \<le> k \<Longrightarrow> tall \<sigma> a j"
  by (auto simp: tall_iff)

lemma write_next_Some:
  "write_next \<sigma> (Some a) k c = Some \<sigma>' \<longleftrightarrow>
   (\<exists>n. heap \<sigma> a = Some n \<and> k < length (n_next n) \<and>
        \<sigma>' = \<sigma>\<lparr>heap := (heap \<sigma>)(a \<mapsto> n\<lparr>n_next := (n_next n)[k := c]\<rparr>)\<rparr>)"
  by (auto simp: write_next_def bind_eq_Some_conv)

lemma write_next_frame:
  assumes "write_next \<sigma> (Some a) k c = Some \<sigma>'"
  shows "head \<sigma>' = head \<sigma>" "tail \<sigma>' = tail \<sigma>" "brk \<sigma>' = brk \<sigma>"
    "read_next \<sigma>' (Some b) j = (if b = a \<and> j = k then Some c else read_next \<sigma> (Some b) j)"
    "tall \<sigma>' b j \<longleftrightarrow> tall \<sigma> b j" "rg \<sigma>' b = rg \<sigma> b"
    "b \<noteq> a \<Longrightarrow> heap \<sigma>' b = heap \<sigma> b"
    "heap \<sigma> b = Some n \<Longrightarrow> \<exists>n'. heap \<sigma>' b = Some n' \<and> same_node n n'"
    "heap \<sigma>' b = Some n' \<Longrightarrow> \<exists>n. heap \<sigma> b = Some n \<and> same_node n n'"
  using assms
  by (auto simp: write_next_Some read_next_def tall_def rg_def same_node_def nth_list_update
      split: if_splits)

lemma write_same: "read_next \<sigma> (Some a) k = Some c \<Longrightarrow> write_next \<sigma> (Some a) k c = Some \<sigma>"
proof -
  assume "read_next \<sigma> (Some a) k = Some c"
  then obtain n where n: "heap \<sigma> a = Some n" "k < length (n_next n)" "n_next n ! k = c"
    by (auto simp: read_next_Some)
  then have "(heap \<sigma>)(a \<mapsto> n\<lparr>n_next := (n_next n)[k := c]\<rparr>) = heap \<sigma>"
    by (auto simp: fun_upd_idem_iff)
  with n show ?thesis by (simp add: write_next_Some)
qed

lemma cas_next_cases:
  assumes "cas_next \<sigma> (Some a) k exp new em nm = Some (ok, \<sigma>')"
  obtains "ok" "read_next \<sigma> (Some a) k = Some (exp, em)"
      "write_next \<sigma> (Some a) k (new, nm) = Some \<sigma>'"
    | "\<not> ok" "\<sigma>' = \<sigma>"
proof -
  from assms obtain c where c: "read_next \<sigma> (Some a) k = Some c"
    and w: "write_next \<sigma> (Some a) k (snd (cell_compareAndSet exp new em nm c)) = Some \<sigma>'"
    and ok: "ok = fst (cell_compareAndSet exp new em nm c)"
    by (auto simp: cas_next_def bind_eq_Some_conv split_beta Let_def)
  show thesis
  proof (cases "c = (exp, em)")
    case True
    with c w ok that(1) show ?thesis by (simp add: cell_compareAndSet_def)
  next
    case False
    from False c w have "\<sigma>' = \<sigma>"
      by (simp add: cell_compareAndSet_def write_same)
    with False ok that(2) show ?thesis by (simp add: cell_compareAndSet_def)
  qed
qed

lemma attemptMark_next_cases:
  assumes "attemptMark_next \<sigma> (Some a) k exp True = Some (ok, \<sigma>')"
  obtains "read_next \<sigma> (Some a) k = Some (exp, False)"
      "write_next \<sigma> (Some a) k (exp, True) = Some \<sigma>'"
    | "\<sigma>' = \<sigma>"
proof -
  from assms obtain c where c: "read_next \<sigma> (Some a) k = Some c"
    and w: "write_next \<sigma> (Some a) k (snd (cell_attemptMark exp True c)) = Some \<sigma>'"
    by (auto simp: attemptMark_next_def bind_eq_Some_conv split_beta Let_def)
  show thesis
  proof (cases "c = (exp, False)")
    case True
    with c w that(1) show ?thesis by (simp add: cell_attemptMark_def cell_compareAndSet_def)
  next
    case False
    then have "snd (cell_attemptMark exp True c) = c"
      by (cases c) (auto simp: cell_attemptMark_def cell_compareAndSet_def)
    with c w have "\<sigma>' = \<sigma>" by (simp add: write_same)
    with that(2) show ?thesis by simp
  qed
qed

lemma tall_can_cas:
  "tall \<sigma> a k \<Longrightarrow> \<exists>ok \<sigma>'. cas_next \<sigma> (Some a) k exp new em nm = Some (ok, \<sigma>')"
  by (auto simp: tall_iff cas_next_def read_next_def write_next_def split: prod.splits)

lemma tall_can_attemptMark:
  "tall \<sigma> a k \<Longrightarrow> \<exists>ok \<sigma>'. attemptMark_next \<sigma> (Some a) k exp m = Some (ok, \<sigma>')"
  by (auto simp: tall_iff attemptMark_next_def read_next_def write_next_def split: prod.splits)

subsection \<open>What a write does to the chain\<close>

lemma nx_marked0_frame:
  assumes "write_next \<sigma> (Some a) k c = Some \<sigma>'"
  shows "nx \<sigma>' = (if k = 0 then (nx \<sigma>)(a := fst c) else nx \<sigma>)"
    and "marked0 \<sigma>' b \<longleftrightarrow> (if k = 0 \<and> b = a then snd c else marked0 \<sigma> b)"
  using write_next_frame(4) [OF assms]
  by (auto simp: nx_def marked0_def fun_eq_iff)

lemma evolves_refl [simp]: "evolves X \<sigma> \<sigma>"
  by (auto simp: evolves_def same_node_def)

text \<open>
  One write to an unmarked cell of a linked node keeps the invariant when the new target is a
  good one, no node loses its link and at most \<open>X\<close> gains one.
\<close>

lemma write_keeps_inv:
  assumes inv: "heap_inv M \<sigma>" and w: "write_next \<sigma> (Some a) k (q, b) = Some \<sigma>'"
    and old: "read_next \<sigma> (Some a) k = Some (r, False)" and a: "a \<noteq> tail \<sigma>" "linked \<sigma> a"
    and mono: "\<And>x. linked \<sigma> x \<Longrightarrow> linked \<sigma>' x"
    and only: "\<And>x. linked \<sigma>' x \<Longrightarrow> linked \<sigma> x \<or> x \<in> X"
    and q: "q = Some p" "linked \<sigma>' p" "p \<noteq> head \<sigma>" "tall \<sigma> p k"
      "k = 0 \<Longrightarrow> a \<noteq> head \<sigma> \<Longrightarrow> closed_before (rg \<sigma> a) (rg \<sigma> p)"
  shows "heap_inv M \<sigma>' \<and> evolves X \<sigma> \<sigma>'"
proof -
  note fr = write_next_frame [OF w]
  have good: "good_cell \<sigma>' x j c" if "good_cell \<sigma> x j c" for x j c
    using that mono by (auto simp: good_cell_def good_ref_def fr split: option.splits)
  have "good_cell \<sigma>' a k (q, b)"
    using q by (auto simp: good_cell_def good_ref_def fr)
  moreover have "heap \<sigma>' x \<noteq> None \<longleftrightarrow> heap \<sigma> x \<noteq> None" for x
    using fr(8) [of x] fr(9) [of x] by auto
  then have "heap \<sigma>' x \<noteq> None \<longleftrightarrow> x < brk \<sigma>'" for x
    using inv by (simp add: heap_inv_def fr(3))
  moreover have "well_formed_node M n" if "heap \<sigma>' x = Some n" for x n
    using inv fr(9) [OF that] by (auto simp: heap_inv_def well_formed_node_def same_node_def)
  moreover have "sentinels M \<sigma>'"
    using inv a(1) by (auto simp: heap_inv_def sentinels_def fr)
  ultimately have "heap_inv M \<sigma>'"
    using inv good by (auto simp: heap_inv_def fr)
  moreover have "heap \<sigma>' x = heap \<sigma> x" if "\<not> linked \<sigma> x" for x
    using fr(7) that a by metis
  ultimately show ?thesis
    using old mono only fr(8) by (auto simp: evolves_def fr)
qed

lemma upper_write:
  assumes inv: "heap_inv M \<sigma>" and w: "write_next \<sigma> (Some a) k (Some p, b) = Some \<sigma>'"
    and old: "read_next \<sigma> (Some a) k = Some (r, False)" and a: "a \<noteq> tail \<sigma>" "linked \<sigma> a"
    and k: "k \<noteq> 0" and p: "good_ref \<sigma> k p"
  shows "heap_inv M \<sigma>' \<and> evolves X \<sigma> \<sigma>'"
proof (rule write_keeps_inv [OF inv w old a])
  have same: "linked \<sigma>' x \<longleftrightarrow> linked \<sigma> x" for x
    using nx_marked0_frame [OF w] write_next_frame(1) [OF w] k
    by (simp add: linked_def on_chain_def)
  show "linked \<sigma> x \<Longrightarrow> linked \<sigma>' x" "linked \<sigma>' x \<Longrightarrow> linked \<sigma> x \<or> x \<in> X" for x
    by (simp_all add: same)
  show "linked \<sigma>' p" "p \<noteq> head \<sigma>" "tall \<sigma> p k" using p same by (auto simp: good_ref_def)
qed (use k in auto)

text \<open>Setting the mark of a cell: the pointer stays.\<close>

lemma mark_write:
  assumes inv: "heap_inv M \<sigma>" and w: "write_next \<sigma> (Some a) k (q, True) = Some \<sigma>'"
    and old: "read_next \<sigma> (Some a) k = Some (q, False)" and a: "a \<noteq> tail \<sigma>" "linked \<sigma> a"
  shows "heap_inv M \<sigma>' \<and> evolves X \<sigma> \<sigma>'"
proof -
  from inv old a have "good_cell \<sigma> a k (q, False)" by (auto simp: heap_inv_def)
  then obtain p where p: "q = Some p" "good_ref \<sigma> k p"
    "k = 0 \<Longrightarrow> a \<noteq> head \<sigma> \<Longrightarrow> closed_before (rg \<sigma> a) (rg \<sigma> p)"
    by (auto simp: good_cell_def split: option.splits)
  have nx: "nx \<sigma>' = nx \<sigma>"
    using nx_marked0_frame(1) [OF w] old by (auto simp: nx_def fun_eq_iff)
  have iff: "linked \<sigma>' x \<longleftrightarrow> linked \<sigma> x" for x
    using nx_marked0_frame(2) [OF w, of x] write_next_frame(1) [OF w] nx a(2) old
    by (auto simp: linked_def on_chain_def marked0_def)
  show ?thesis
    by (rule write_keeps_inv [OF inv w old a])
       (use p in \<open>auto simp: iff good_ref_def\<close>)
qed

lemma heap_inv_cell:
  "heap_inv M \<sigma> \<Longrightarrow> a \<noteq> tail \<sigma> \<Longrightarrow> read_next \<sigma> (Some a) k = Some c \<Longrightarrow> good_cell \<sigma> a k c"
  unfolding heap_inv_def by blast

lemma heap_inv_node: "heap_inv M \<sigma> \<Longrightarrow> heap \<sigma> a = Some n \<Longrightarrow> well_formed_node M n"
  unfolding heap_inv_def by blast

lemma heap_inv_brk: "heap_inv M \<sigma> \<Longrightarrow> heap \<sigma> a = Some n \<Longrightarrow> a < brk \<sigma>"
  unfolding heap_inv_def by blast

lemma heap_inv_sentinels:
  assumes "heap_inv M \<sigma>"
  shows "head \<sigma> \<noteq> tail \<sigma>" "rg \<sigma> (head \<sigma>) = (bot, bot)" "rg \<sigma> (tail \<sigma>) = (top, top)"
    and "k \<le> M \<Longrightarrow> tall \<sigma> (head \<sigma>) k"
    and "k \<le> M \<Longrightarrow> read_next \<sigma> (Some (tail \<sigma>)) k = Some (None, False)"
  using assms by (simp_all add: heap_inv_def sentinels_def)

text \<open>Publishing a private node behind \<open>a\<close>, and cutting a deleted node out behind \<open>a\<close>.\<close>

lemma insert_write:
  assumes inv: "heap_inv M \<sigma>" and w: "write_next \<sigma> (Some a) 0 (Some n, False) = Some \<sigma>'"
    and old: "read_next \<sigma> (Some a) 0 = Some (r, False)" and a: "a \<noteq> tail \<sigma>" "linked \<sigma> a"
    and n: "read_next \<sigma> (Some n) 0 = Some (r, False)" "\<not> linked \<sigma> n" "n \<noteq> head \<sigma>"
    and ord: "closed_before (rg \<sigma> a) (rg \<sigma> n)"
  shows "heap_inv M \<sigma>' \<and> evolves {n} \<sigma> \<sigma>' \<and> linked \<sigma>' n"
proof -
  have chain: "on_chain \<sigma> a" using a(2) old by (auto simp: linked_def marked0_def)
  have ne: "n \<noteq> a" using n(2) a(2) by blast
  have nx: "nx \<sigma>' = (nx \<sigma>)(a := Some n)" using nx_marked0_frame(1) [OF w] by simp
  have eq: "nx \<sigma> n = nx \<sigma> a" using n(1) old by (simp add: nx_def)
  have ch: "on_chain \<sigma>' x \<longleftrightarrow> on_chain \<sigma> x \<or> x = n" for x
    using reach_insert_new [OF chain [unfolded on_chain_def] ne eq]
    by (simp add: on_chain_def nx write_next_frame(1) [OF w])
  have mk: "marked0 \<sigma>' x \<longleftrightarrow> marked0 \<sigma> x" for x
    using nx_marked0_frame(2) [OF w, of x] old by (auto simp: marked0_def)
  have iff: "linked \<sigma>' x \<longleftrightarrow> linked \<sigma> x \<or> x = n" for x
    by (auto simp: linked_def ch mk)
  have "tall \<sigma> n 0" using n(1) by (simp add: tall_def)
  then show ?thesis
    using write_keeps_inv [OF inv w old a, of "{n}" n] n(3) ord by (auto simp: iff)
qed

lemma snip_write:
  assumes inv: "heap_inv M \<sigma>" and w: "write_next \<sigma> (Some a) 0 (Some q, False) = Some \<sigma>'"
    and old: "read_next \<sigma> (Some a) 0 = Some (Some c, False)"
    and a: "a \<noteq> tail \<sigma>" "linked \<sigma> a"
    and c: "read_next \<sigma> (Some c) 0 = Some (Some q, True)"
  shows "heap_inv M \<sigma>' \<and> evolves X \<sigma> \<sigma>'"
proof -
  have chain: "on_chain \<sigma> a" using a(2) old by (auto simp: linked_def marked0_def)
  have nxa: "nx \<sigma> a = Some c" and nxc: "nx \<sigma> c = Some q" and mc: "marked0 \<sigma> c"
    using old c by (auto simp: nx_def marked0_def)
  have nx: "nx \<sigma>' = (nx \<sigma>)(a := nx \<sigma> c)" using nx_marked0_frame(1) [OF w] nxc by simp
  have mk: "marked0 \<sigma>' x \<longleftrightarrow> marked0 \<sigma> x" for x
    using nx_marked0_frame(2) [OF w, of x] old by (auto simp: marked0_def)
  note cut = reach_cut_out [OF chain [unfolded on_chain_def] nxa]
  have iff: "linked \<sigma>' x \<longleftrightarrow> linked \<sigma> x" for x
    using cut(1) [of x] cut(2) [of x] mc
    by (auto simp: linked_def on_chain_def mk nx write_next_frame(1) [OF w])
  have "c \<noteq> tail \<sigma>" using c inv by (auto simp: heap_inv_def sentinels_def)
  with inv c have gc: "good_cell \<sigma> c 0 (Some q, True)" by (auto simp: heap_inv_def)
  from inv a old have ga: "good_cell \<sigma> a 0 (Some c, False)" by (auto simp: heap_inv_def)
  have "closed_valid (rg \<sigma> c)"
    using c inv by (auto simp: heap_inv_def well_formed_node_def closed_valid_def rg_def read_next_Some)
  moreover have "c \<noteq> head \<sigma>" using ga by (auto simp: good_cell_def good_ref_def)
  ultimately have "a \<noteq> head \<sigma> \<Longrightarrow> closed_before (rg \<sigma> a) (rg \<sigma> q)"
    using ga gc by (auto simp: good_cell_def intro: closed.before_trans)
  then show ?thesis
    using write_keeps_inv [OF inv w old a, of X q] gc by (auto simp: iff good_cell_def good_ref_def)
qed

text \<open>Allocating a node nobody knows yet.\<close>

lemma alloc_keeps_inv:
  assumes inv: "heap_inv M \<sigma>"
    and \<sigma>': "\<sigma>' = \<sigma>\<lparr>heap := (heap \<sigma>)(brk \<sigma> \<mapsto> n), brk := brk \<sigma> + 1\<rparr>"
    and n: "well_formed_node M n" "\<not> snd (n_next n ! 0)"
    and cells: "\<And>k. k \<le> n_topLevel n \<Longrightarrow> \<exists>p. fst (n_next n ! k) = Some p \<and> good_ref \<sigma> k p \<and>
      (k = 0 \<longrightarrow> closed_before (n_start n, n_end n) (rg \<sigma> p))"
  shows "heap_inv M \<sigma>' \<and> evolves X \<sigma> \<sigma>' \<and> \<not> linked \<sigma>' (brk \<sigma>)"
proof -
  let ?b = "brk \<sigma>"
  have free: "heap \<sigma> ?b = None" using inv by (auto simp: heap_inv_def)
  have rd: "read_next \<sigma>' (Some x) k =
      (if x = ?b then if k < length (n_next n) then Some (n_next n ! k) else None
       else read_next \<sigma> (Some x) k)" for x k
    by (simp add: read_next_def \<sigma>')
  have hd: "head \<sigma>' = head \<sigma>" "tail \<sigma>' = tail \<sigma>" "?b \<noteq> head \<sigma>" "?b \<noteq> tail \<sigma>"
    using inv free by (auto simp: \<sigma>' heap_inv_def sentinels_def tall_iff read_next_Some)
  have rg: "rg \<sigma>' x = rg \<sigma> x" if "x \<noteq> ?b" for x
    using that by (simp add: rg_def \<sigma>')
  have tall: "tall \<sigma>' x k \<longleftrightarrow> tall \<sigma> x k" if "x \<noteq> ?b" for x k
    using that by (simp add: tall_def rd)
  have alloc: "x \<noteq> ?b" if "on_chain \<sigma> x" for x
  proof -
    from that have "x = head \<sigma> \<or> (\<exists>y. nx \<sigma> y = Some x)"
      unfolding on_chain_def reach_def by (auto elim: rtranclp.cases)
    then show ?thesis
    proof
      assume "\<exists>y. nx \<sigma> y = Some x"
      then obtain y c where y: "read_next \<sigma> (Some y) 0 = Some c" "fst c = Some x"
        by (auto simp: nx_def split: option.splits)
      then have "y \<noteq> tail \<sigma>" using inv by (auto simp: heap_inv_def sentinels_def)
      from heap_inv_cell [OF inv this y(1)] y(2) have "tall \<sigma> x 0"
        by (simp add: good_cell_def good_ref_def)
      then show ?thesis using free by (auto simp: tall_iff)
    qed (use hd in auto)
  qed
  have "nx \<sigma>' = (nx \<sigma>)(?b := nx \<sigma>' ?b)" by (auto simp: nx_def rd fun_eq_iff)
  then have ch: "on_chain \<sigma>' x \<longleftrightarrow> on_chain \<sigma> x" for x
    using reach_extend [of "nx \<sigma>" "head \<sigma>" ?b "nx \<sigma>' ?b" x] alloc
    unfolding on_chain_def hd by metis
  have "read_next \<sigma> (Some ?b) 0 = None" using free by (simp add: read_next_def)
  then have mk: "marked0 \<sigma>' x \<longleftrightarrow> marked0 \<sigma> x" "\<not> marked0 \<sigma> ?b" for x
    using n(2) by (simp_all add: marked0_def rd)
  have iff: "linked \<sigma>' x \<longleftrightarrow> linked \<sigma> x" for x
    by (simp add: linked_def ch mk)
  have "\<not> linked \<sigma>' ?b"
    using alloc [of ?b] by (auto simp: linked_def ch mk)
  have old: "p \<noteq> ?b" if "good_ref \<sigma> k p" for k p
    using that free by (auto simp: good_ref_def tall_iff)
  have good: "good_ref \<sigma>' k p" if "good_ref \<sigma> k p" for k p
    using that old [OF that] by (simp add: good_ref_def iff hd tall)
  have "good_cell \<sigma>' x k c" if "x \<noteq> tail \<sigma>'" "read_next \<sigma>' (Some x) k = Some c" for x k c
  proof (cases "x = ?b")
    case True
    with that n cells [of k] show ?thesis
      by (auto simp: rd good_cell_def well_formed_node_def good old rg split: if_splits)
         (simp add: rg_def \<sigma>')
  next
    case False
    with that have "good_cell \<sigma> x k c" by (simp add: rd hd heap_inv_cell [OF inv])
    with False show ?thesis by (auto simp: good_cell_def good old rg hd split: option.splits)
  qed
  moreover have "sentinels M \<sigma>'"
    using inv hd by (auto simp: heap_inv_def sentinels_def rg tall rd)
  moreover have "heap \<sigma>' x \<noteq> None \<longleftrightarrow> x < brk \<sigma>'" for x
    using inv by (auto simp: heap_inv_def \<sigma>' less_Suc_eq)
  ultimately have "heap_inv M \<sigma>'"
    using inv n by (auto simp: heap_inv_def \<sigma>')
  moreover have "evolves X \<sigma> \<sigma>'"
  proof -
    have hp: "heap \<sigma>' = (heap \<sigma>)(?b \<mapsto> n)" "brk \<sigma>' = ?b + 1" by (simp_all add: \<sigma>')
    have "read_next \<sigma> (Some ?b) k = None" for k using free by (simp add: read_next_def)
    then show ?thesis using free by (auto simp: evolves_def hp same_node_def iff hd rd)
  qed
  ultimately show ?thesis using \<open>\<not> linked \<sigma>' ?b\<close> by blast
qed

end
