(* ===== verification/V0_Threads.thy ===== *)
theory V0_Threads
  imports V0_Safety
begin

text \<open>
  What a thread of the v0 lock knows at each place of the code, the proof that every step of
  a thread keeps the heap invariant and its own knowledge, and that the steps of the other
  threads do not spoil it.
\<close>

subsection \<open>Knowledge of a thread\<close>

definition pred_ok :: "'t crl \<Rightarrow> 't locals \<Rightarrow> bool" where
  "pred_ok \<sigma> l \<longleftrightarrow> (\<exists>p. pred l = Some p \<and> linked \<sigma> p \<and> p \<noteq> tail \<sigma> \<and> tall \<sigma> p (level l))"

definition curr_ok :: "'t crl \<Rightarrow> 't locals \<Rightarrow> bool" where
  "curr_ok \<sigma> l \<longleftrightarrow> (\<exists>c. curr l = Some c \<and> good_ref \<sigma> (level l) c)"

text \<open>
  Behind the read of \<open>curr->next[level]\<close>: a marked cell is final, an unmarked one gave a good
  successor, but for the tail.
\<close>

definition succ_ok :: "'t crl \<Rightarrow> 't locals \<Rightarrow> bool" where
  "succ_ok \<sigma> l \<longleftrightarrow> (\<exists>c. curr l = Some c \<and>
     (if marked l then read_next \<sigma> (Some c) (level l) = Some (succ l, True)
      else c \<noteq> tail \<sigma> \<longrightarrow> (\<exists>q. succ l = Some q \<and> good_ref \<sigma> (level l) q)))"

definition arrays_from :: "nat \<Rightarrow> nat \<Rightarrow> 't crl \<Rightarrow> 't locals \<Rightarrow> bool" where
  "arrays_from M k \<sigma> l \<longleftrightarrow> (\<forall>j. k \<le> j \<and> j \<le> M \<longrightarrow>
     (\<exists>p c. preds l j = Some p \<and> succs l j = Some c \<and> linked \<sigma> p \<and> p \<noteq> tail \<sigma> \<and>
            tall \<sigma> p j \<and> good_ref \<sigma> j c))"

text \<open>The search left the level below \<open>curr\<close> because one of its two tests failed there.\<close>

definition left_at ::
  "('t \<Rightarrow> 't node \<Rightarrow> bool) \<Rightarrow> ('t \<Rightarrow> 't node \<Rightarrow> bool) \<Rightarrow> 't crl \<Rightarrow> 't locals \<Rightarrow> bool" where
  "left_at wg ag \<sigma> l \<longleftrightarrow> (\<exists>n. deref \<sigma> (curr l) = Some n \<and>
     \<not> (wg (arg_start l) n \<and> ag (arg_start l) n))"

text \<open>The search went past \<open>pred\<close> because the second test held there, unless it is the head.\<close>

definition passed :: "('t \<Rightarrow> 't node \<Rightarrow> bool) \<Rightarrow> 't crl \<Rightarrow> 't locals \<Rightarrow> bool" where
  "passed ag \<sigma> l \<longleftrightarrow> (\<exists>p n. pred l = Some p \<and> heap \<sigma> p = Some n \<and>
     (p = head \<sigma> \<or> ag (arg_start l) n))"

definition find_inv ::
  "('t \<Rightarrow> 't node \<Rightarrow> bool) \<Rightarrow> ('t \<Rightarrow> 't node \<Rightarrow> bool) \<Rightarrow> bool \<Rightarrow> nat \<Rightarrow> find_pc \<Rightarrow>
   't crl \<Rightarrow> 't locals \<Rightarrow> bool" where
  "find_inv wg ag arrays M f \<sigma> l \<longleftrightarrow> (case f of
       FRetry \<Rightarrow> True
     | FReturn \<Rightarrow> arrays \<longrightarrow> arrays_from M 0 \<sigma> l \<and> pred l = preds l 0 \<and> curr l = succs l 0 \<and>
         left_at wg ag \<sigma> l \<and> passed ag \<sigma> l
     | _ \<Rightarrow> level l \<le> M \<and> pred_ok \<sigma> l \<and> passed ag \<sigma> l \<and> (arrays \<longrightarrow> arrays_from M (Suc (level l)) \<sigma> l) \<and>
         (f \<in> {FWhile, FMarked, FReget} \<longrightarrow> curr_ok \<sigma> l) \<and> (f = FMarked \<longrightarrow> succ_ok \<sigma> l))"

abbreviation findInsert_inv :: "nat \<Rightarrow> find_pc \<Rightarrow> ('t::linorder) crl \<Rightarrow> 't locals \<Rightarrow> bool" where
  "findInsert_inv \<equiv> find_inv (\<lambda>s n. s > getStart n) (\<lambda>s n. s \<ge> getStart n) True"

abbreviation findExact_inv :: "bool \<Rightarrow> nat \<Rightarrow> find_pc \<Rightarrow> ('t::linorder) crl \<Rightarrow> 't locals \<Rightarrow> bool" where
  "findExact_inv \<equiv> find_inv (\<lambda>s n. s \<ge> getStart n) (\<lambda>s n. s \<ge> getEnd n)"

text \<open>The gap between \<open>preds[0]\<close> and \<open>succs[0]\<close> has room for the range.\<close>

definition gap :: "('t::linorder) crl \<Rightarrow> 't locals \<Rightarrow> bool" where
  "gap \<sigma> l \<longleftrightarrow> (\<exists>p c. preds l 0 = Some p \<and> succs l 0 = Some c \<and>
     closed_before (rg \<sigma> p) (arg_start l, arg_end l) \<and>
     closed_before (arg_start l, arg_end l) (rg \<sigma> c))"

definition private_node :: "'t crl \<Rightarrow> 't locals \<Rightarrow> bool" where
  "private_node \<sigma> l \<longleftrightarrow> (\<exists>n. newNode l = Some n \<and> \<not> linked \<sigma> n \<and> heap \<sigma> n = Some (build_node l))"

definition published :: "('t::{linorder,order_bot,order_top}) crl \<Rightarrow> 't locals \<Rightarrow> bool" where
  "published \<sigma> l \<longleftrightarrow> bot < arg_start l \<and> arg_end l < top \<and> (\<exists>n. newNode l = Some n \<and> linked \<sigma> n \<and> n \<noteq> head \<sigma> \<and> n \<noteq> tail \<sigma> \<and>
     rg \<sigma> n = (arg_start l, arg_end l) \<and> tall \<sigma> n (topLevel l))"

definition victim :: "('t::linorder) crl \<Rightarrow> 't locals \<Rightarrow> bool" where
  "victim \<sigma> l \<longleftrightarrow> arg_start l < arg_end l \<and> (\<exists>n. nodeToRemove l = Some n \<and> linked \<sigma> n \<and> n \<noteq> head \<sigma> \<and> n \<noteq> tail \<sigma> \<and>
     rg \<sigma> n = (arg_start l, arg_end l) \<and> tall \<sigma> n (mark_level l) \<and> succs l 0 = Some n)"

text \<open>A refused range overlaps a node that was inserted, or a sentinel.\<close>

definition refused :: "('t::linorder) crl \<Rightarrow> 't locals \<Rightarrow> bool" where
  "refused \<sigma> l \<longleftrightarrow> (\<exists>a. linked \<sigma> a \<and> tall \<sigma> a 0 \<and>
     closed_overlaps (arg_start l, arg_end l) (rg \<sigma> a))"

definition legal_args :: "('t::{linorder,order_top}) locals \<Rightarrow> bool" where
  "legal_args l \<longleftrightarrow> arg_start l \<le> arg_end l \<and> arg_start l < top"

definition thread_inv :: "nat \<Rightarrow> ('t::{linorder,order_bot,order_top}) crl \<Rightarrow> 't locals \<Rightarrow> bool" where
  "thread_inv M \<sigma> l \<longleftrightarrow> (case pc l of
       Idle \<Rightarrow> True
     | TryReturned b \<Rightarrow> if b then published \<sigma> l else refused \<sigma> l
     | RelReturned b \<Rightarrow> b \<longrightarrow> arg_start l < arg_end l
     | Crashed \<Rightarrow> False
     | FindInsert relink f \<Rightarrow> legal_args l \<and> topLevel l \<le> M \<and> findInsert_inv M f \<sigma> l \<and>
         (relink \<longrightarrow> published \<sigma> l \<and> 1 \<le> link_level l)
     | TryAlloc \<Rightarrow> legal_args l \<and> topLevel l \<le> M \<and> arrays_from M 0 \<sigma> l \<and> gap \<sigma> l
     | TryCas0 \<Rightarrow> legal_args l \<and> topLevel l \<le> M \<and> arrays_from M 0 \<sigma> l \<and> gap \<sigma> l \<and>
         private_node \<sigma> l
     | TryLink \<Rightarrow> legal_args l \<and> topLevel l \<le> M \<and> arrays_from M 0 \<sigma> l \<and> published \<sigma> l \<and>
         1 \<le> link_level l
     | FindExact f \<Rightarrow> legal_args l \<and> findExact_inv True M f \<sigma> l
     | FindDelete f \<Rightarrow> legal_args l \<and> arg_start l < arg_end l \<and> findExact_inv False M f \<sigma> l
     | RelMarkWhile \<Rightarrow> legal_args l \<and> victim \<sigma> l \<and> 1 \<le> mark_level l
     | RelMarkReget \<Rightarrow> legal_args l \<and> victim \<sigma> l \<and> 1 \<le> mark_level l
     | _ \<Rightarrow> legal_args l \<and> victim \<sigma> l)"

text \<open>
  The node a thread works on in \<open>tryLock\<close> or acquired with it, and whether it is still private.
\<close>

definition claimed :: "'t locals \<Rightarrow> addr set" where
  "claimed l = (case pc l of
       TryCas0 \<Rightarrow> set_option (newNode l)
     | TryLink \<Rightarrow> set_option (newNode l)
     | FindInsert relink _ \<Rightarrow> if relink then set_option (newNode l) else {}
     | TryReturned b \<Rightarrow> if b then set_option (newNode l) else {}
     | _ \<Rightarrow> {})"

definition owned :: "'t locals \<Rightarrow> addr set" where
  "owned l = (if pc l = TryCas0 then claimed l else {})"

lemmas claim_defs = claimed_def owned_def

subsection \<open>Other threads do not spoil it\<close>

lemma evolvesD:
  assumes "evolves X \<sigma> \<sigma>'"
  shows "head \<sigma>' = head \<sigma>" "tail \<sigma>' = tail \<sigma>" "brk \<sigma> \<le> brk \<sigma>'"
    and "linked \<sigma> a \<Longrightarrow> linked \<sigma>' a"
    and "read_next \<sigma> (Some a) k = Some (q, True) \<Longrightarrow> read_next \<sigma>' (Some a) k = Some (q, True)"
    and "heap \<sigma> a = Some n \<Longrightarrow> \<exists>n'. heap \<sigma>' a = Some n' \<and> same_node n n'"
    and "heap \<sigma> a = Some n \<Longrightarrow> \<not> linked \<sigma> a \<Longrightarrow> a \<notin> X \<Longrightarrow> heap \<sigma>' a = Some n \<and> \<not> linked \<sigma>' a"
    and "linked \<sigma>' a \<Longrightarrow> linked \<sigma> a \<or> a \<in> X"
  using assms by (auto simp add: evolves_def)

lemma tall_stable [stable]: "evolves X \<sigma> \<sigma>' \<Longrightarrow> tall \<sigma> a k \<Longrightarrow> tall \<sigma>' a k"
  by (auto simp: tall_iff same_node_def dest!: evolvesD(6))

lemma rg_stable: "evolves X \<sigma> \<sigma>' \<Longrightarrow> tall \<sigma> a k \<Longrightarrow> rg \<sigma>' a = rg \<sigma> a"
  by (auto simp: rg_def tall_iff same_node_def dest!: evolvesD(6))

lemma good_ref_stable [stable]: "evolves X \<sigma> \<sigma>' \<Longrightarrow> good_ref \<sigma> k p \<Longrightarrow> good_ref \<sigma>' k p"
  by (auto simp: good_ref_def evolvesD tall_stable)

lemma pred_ok_stable [stable]: "evolves X \<sigma> \<sigma>' \<Longrightarrow> pred_ok \<sigma> l \<Longrightarrow> pred_ok \<sigma>' l"
  by (auto simp: pred_ok_def evolvesD tall_stable)

lemma curr_ok_stable [stable]: "evolves X \<sigma> \<sigma>' \<Longrightarrow> curr_ok \<sigma> l \<Longrightarrow> curr_ok \<sigma>' l"
  by (auto simp: curr_ok_def good_ref_stable)

lemma succ_ok_stable [stable]: "evolves X \<sigma> \<sigma>' \<Longrightarrow> succ_ok \<sigma> l \<Longrightarrow> succ_ok \<sigma>' l"
  by (auto simp: succ_ok_def evolvesD good_ref_stable split: if_splits)

lemma arrays_from_stable [stable]:
  "evolves X \<sigma> \<sigma>' \<Longrightarrow> arrays_from M k \<sigma> l \<Longrightarrow> arrays_from M k \<sigma>' l"
  by (fastforce simp: arrays_from_def evolvesD tall_stable good_ref_stable)

definition fields_only :: "('t \<Rightarrow> 't node \<Rightarrow> bool) \<Rightarrow> bool" where
  "fields_only wg \<longleftrightarrow> (\<forall>s n n'. same_node n n' \<longrightarrow> wg s n' = wg s n)"

lemma left_at_stable:
  assumes "evolves X \<sigma> \<sigma>'" "fields_only wg" "fields_only ag" "left_at wg ag \<sigma> l"
  shows "left_at wg ag \<sigma>' l"
proof -
  from assms(4) obtain c n where c: "curr l = Some c" "heap \<sigma> c = Some n"
    and t: "\<not> (wg (arg_start l) n \<and> ag (arg_start l) n)"
    by (auto simp: left_at_def deref_def bind_eq_Some_conv)
  from evolvesD(6) [OF assms(1) c(2)] obtain n' where "heap \<sigma>' c = Some n'" "same_node n n'"
    by blast
  with c t assms(2,3) show ?thesis by (auto simp: left_at_def fields_only_def)
qed

lemma passed_stable:
  assumes "evolves X \<sigma> \<sigma>'" "fields_only ag" "passed ag \<sigma> l"
  shows "passed ag \<sigma>' l"
proof -
  from assms(3) obtain p n where p: "pred l = Some p" "heap \<sigma> p = Some n"
    and t: "p = head \<sigma> \<or> ag (arg_start l) n"
    by (auto simp: passed_def)
  from evolvesD(6) [OF assms(1) p(2)] obtain n' where "heap \<sigma>' p = Some n'" "same_node n n'"
    by blast
  with p t assms(1,2) show ?thesis by (auto simp: passed_def fields_only_def evolvesD(1))
qed

lemma refused_stable [stable]: "evolves X \<sigma> \<sigma>' \<Longrightarrow> refused \<sigma> l \<Longrightarrow> refused \<sigma>' l"
  unfolding refused_def by (metis evolvesD(4) tall_stable rg_stable)

lemma find_inv_stable:
  "evolves X \<sigma> \<sigma>' \<Longrightarrow> fields_only wg \<Longrightarrow> fields_only ag \<Longrightarrow>
   find_inv wg ag arrays M f \<sigma> l \<Longrightarrow> find_inv wg ag arrays M f \<sigma>' l"
  by (cases f) (auto simp: find_inv_def stable left_at_stable passed_stable)

lemma fields_only_tests [simp]:
  "fields_only (\<lambda>s n. n_start n < s)" "fields_only (\<lambda>s n. n_start n \<le> s)"
  "fields_only (\<lambda>s n. n_end n \<le> s)"
  by (auto simp: fields_only_def same_node_def)

lemma fields_only_getters:
  "fields_only (\<lambda>s n. s \<ge> getStart n)" "fields_only (\<lambda>s n. s \<ge> getEnd n)"
  by simp_all

lemma gap_stable:
  assumes ev: "evolves X \<sigma> \<sigma>'" and arr: "arrays_from M 0 \<sigma> l" and "gap \<sigma> l"
  shows "gap \<sigma>' l"
proof -
  from arr obtain p c where "preds l 0 = Some p" "succs l 0 = Some c" "tall \<sigma> p 0" "tall \<sigma> c 0"
    by (fastforce simp: arrays_from_def good_ref_def)
  with assms(3) show ?thesis by (simp add: gap_def rg_stable [OF ev])
qed

lemma published_stable [stable]: "evolves X \<sigma> \<sigma>' \<Longrightarrow> published \<sigma> l \<Longrightarrow> published \<sigma>' l"
  by (auto simp: published_def evolvesD tall_stable rg_stable)

lemma victim_stable [stable]: "evolves X \<sigma> \<sigma>' \<Longrightarrow> victim \<sigma> l \<Longrightarrow> victim \<sigma>' l"
  by (auto simp: victim_def evolvesD tall_stable rg_stable)

lemma private_node_stable:
  "evolves X \<sigma> \<sigma>' \<Longrightarrow> private_node \<sigma> l \<Longrightarrow> set_option (newNode l) \<inter> X = {} \<Longrightarrow> private_node \<sigma>' l"
  by (auto simp: private_node_def evolvesD(7))

lemma thread_inv_stable:
  assumes "evolves X \<sigma> \<sigma>'" "thread_inv M \<sigma> l" "owned l \<inter> X = {}"
  shows "thread_inv M \<sigma>' l"
  using assms
  by (auto simp: thread_inv_def claim_defs stable find_inv_stable gap_stable private_node_stable
      split: pc.splits)

subsection \<open>The search loop\<close>

text \<open>What a search step leaves alone.\<close>

definition search_frame :: "bool \<Rightarrow> 't locals \<Rightarrow> 't locals \<Rightarrow> bool" where
  "search_frame arrays l l' \<longleftrightarrow> arg_start l' = arg_start l \<and> arg_end l' = arg_end l \<and>
     topLevel l' = topLevel l \<and> newNode l' = newNode l \<and> link_level l' = link_level l \<and>
     (\<not> arrays \<longrightarrow> preds l' = preds l \<and> succs l' = succs l)"

lemma search_frame_published [simp]:
  "search_frame arrays l l' \<Longrightarrow> published \<sigma> l' \<longleftrightarrow> published \<sigma> l"
  "search_frame arrays l l' \<Longrightarrow> legal_args l' \<longleftrightarrow> legal_args l"
  by (auto simp: search_frame_def published_def legal_args_def)

lemma pred_ok_pc [simp]: "pred_ok \<sigma> (l\<lparr>pc := x\<rparr>) = pred_ok \<sigma> l"
  and curr_ok_pc [simp]: "curr_ok \<sigma> (l\<lparr>pc := x\<rparr>) = curr_ok \<sigma> l"
  and succ_ok_pc [simp]: "succ_ok \<sigma> (l\<lparr>pc := x\<rparr>) = succ_ok \<sigma> l"
  and arrays_from_pc [simp]: "arrays_from M k \<sigma> (l\<lparr>pc := x\<rparr>) = arrays_from M k \<sigma> l"
  and passed_pc [simp]: "passed ag \<sigma> (l\<lparr>pc := x\<rparr>) = passed ag \<sigma> l"
  by (simp_all add: pred_ok_def curr_ok_def succ_ok_def arrays_from_def passed_def)

lemma level_done_inv:
  assumes lv: "level l \<le> M" and p: "pred_ok \<sigma> l" and c: "curr_ok \<sigma> l"
    and arr: "arrays \<longrightarrow> arrays_from M (Suc (level l)) \<sigma> l" and left: "left_at wg ag \<sigma> l"
    and past: "passed ag \<sigma> l"
  shows "\<exists>f'. pc (level_done arrays K l) = K f' \<and>
    find_inv wg ag arrays M f' \<sigma> (level_done arrays K l) \<and>
    search_frame arrays l (level_done arrays K l)"
proof -
  let ?l1 = "l\<lparr>preds := (preds l)(level l := pred l), succs := (succs l)(level l := curr l)\<rparr>"
  have arr1: "arrays_from M (level l) \<sigma> ?l1" if arrays
    using that arr p c lv unfolding arrays_from_def pred_ok_def curr_ok_def
    by (auto simp: le_Suc_eq Suc_le_eq)
  have down: "pred_ok \<sigma> (l'\<lparr>level := level l - 1\<rparr>)" if "pred l' = pred l" for l'
    using p that by (auto simp: pred_ok_def intro: tall_mono [OF _ diff_le_self])
  show ?thesis
  proof (cases "level l = 0")
    case True
    then have "find_inv wg ag arrays M FReturn \<sigma> (level_done arrays K l)"
      using arr1 left past
      by (auto simp: find_inv_def level_done_def left_at_def arrays_from_def passed_def)
    with True show ?thesis
      by (auto simp: level_done_def search_frame_def)
  next
    case False
    then have "find_inv wg ag arrays M FLevel \<sigma> (level_done arrays K l)"
      using arr1 lv down past
      by (auto simp: find_inv_def level_done_def arrays_from_def Let_def passed_def)
    with False show ?thesis
      by (auto simp: level_done_def search_frame_def)
  qed
qed

lemma unmarked_succ_ok:
  assumes inv: "heap_inv M \<sigma>" and "level l \<le> M" and c: "curr l = Some c"
    and rd: "read_next \<sigma> (Some c) (level l) = Some x"
  shows "succ_ok \<sigma> (l\<lparr>succ := fst x, marked := snd x, pc := y\<rparr>)"
  using heap_inv_cell [OF inv _ rd] c rd
  by (cases x) (auto simp: succ_ok_def good_cell_def split: option.splits)

lemma snip_keeps_inv:
  assumes inv: "heap_inv M \<sigma>" and lv: "level l \<le> M" and p: "pred_ok \<sigma> l" and c: "succ_ok \<sigma> l"
    and m: "marked l"
    and cas: "cas_next \<sigma> (pred l) (level l) (curr l) (succ l) False False = Some (ok, \<sigma>')"
  shows "heap_inv M \<sigma>' \<and> evolves {} \<sigma> \<sigma>'"
proof -
  from p obtain a where a: "pred l = Some a" "linked \<sigma> a" "a \<noteq> tail \<sigma>"
    by (auto simp: pred_ok_def)
  from c m obtain d where d: "curr l = Some d"
    and rd: "read_next \<sigma> (Some d) (level l) = Some (succ l, True)"
    by (auto simp: succ_ok_def)
  then have "d \<noteq> tail \<sigma>" using heap_inv_sentinels(5) [OF inv lv] by auto
  from heap_inv_cell [OF inv this rd] obtain q where q: "succ l = Some q" "good_ref \<sigma> (level l) q"
    by (auto simp: good_cell_def split: option.splits)
  from cas [unfolded a(1) d q(1)] show ?thesis
  proof (cases rule: cas_next_cases)
    case 1
    show ?thesis
    proof (cases "level l = 0")
      case True
      with 1 a q rd d show ?thesis by (intro snip_write [OF inv]) auto
    next
      case False
      with 1 a q show ?thesis by (intro upper_write [OF inv]) auto
    qed
  qed (use inv in simp)
qed

lemma find_step_inv:
  assumes inv: "heap_inv M \<sigma>" and fi: "find_inv wg ag arrays M f \<sigma> l" and f: "f \<noteq> FReturn"
    and tests: "fields_only ag"
    and tl: "\<And>n. n_start n = top \<Longrightarrow> n_end n = top \<Longrightarrow> \<not> ag (arg_start l) n"
  shows "\<exists>\<sigma>' l' f'. find_step wg ag arrays K M f \<sigma> l = Some (\<sigma>', l') \<and> heap_inv M \<sigma>' \<and>
    evolves {} \<sigma> \<sigma>' \<and> pc l' = K f' \<and> find_inv wg ag arrays M f' \<sigma>' l' \<and> search_frame arrays l l'"
proof (cases f)
  case FRetry
  have "pred_ok \<sigma> (l\<lparr>pred := Some (head \<sigma>), level := M, pc := K FLevel\<rparr>)"
    using heap_inv_sentinels [OF inv]
    by (auto simp: pred_ok_def linked_def on_chain_def)
  moreover have "passed ag \<sigma> (l\<lparr>pred := Some (head \<sigma>), level := M, pc := K FLevel\<rparr>)"
    using heap_inv_sentinels(4) [OF inv, of 0] by (auto simp: passed_def tall_iff)
  ultimately show ?thesis using FRetry inv
    by (auto simp: find_inv_def arrays_from_def search_frame_def intro!: exI [of _ FLevel])
next
  case FLevel
  with fi obtain p where p: "pred l = Some p" "tall \<sigma> p (level l)" "p \<noteq> tail \<sigma>"
    and lv: "level l \<le> M" "pred_ok \<sigma> l" "arrays \<longrightarrow> arrays_from M (Suc (level l)) \<sigma> l"
      "passed ag \<sigma> l"
    by (auto simp: find_inv_def pred_ok_def)
  from tallD [OF p(2)] obtain c where c: "read_next \<sigma> (Some p) (level l) = Some c" by blast
  from heap_inv_cell [OF inv p(3) c] have "curr_ok \<sigma> (l\<lparr>curr := fst c, pc := K FWhile\<rparr>)"
    by (auto simp: good_cell_def curr_ok_def split: option.splits)
  with lv c p(1) inv FLevel show ?thesis
    by (auto simp: find_inv_def search_frame_def pred_ok_def arrays_from_def passed_def
        intro!: exI [of _ FWhile])
next
  case FReload
  with fi obtain p where p: "pred l = Some p" "tall \<sigma> p (level l)" "p \<noteq> tail \<sigma>"
    and lv: "level l \<le> M" "pred_ok \<sigma> l" "arrays \<longrightarrow> arrays_from M (Suc (level l)) \<sigma> l"
      "passed ag \<sigma> l"
    by (auto simp: find_inv_def pred_ok_def)
  from tallD [OF p(2)] obtain c where c: "read_next \<sigma> (Some p) (level l) = Some c" by blast
  from heap_inv_cell [OF inv p(3) c] have "curr_ok \<sigma> (l\<lparr>curr := fst c, pc := K FReget\<rparr>)"
    by (auto simp: good_cell_def curr_ok_def split: option.splits)
  with lv c p(1) inv FReload show ?thesis
    by (auto simp: find_inv_def search_frame_def pred_ok_def arrays_from_def passed_def
        intro!: exI [of _ FReget])
next
  case FWhile
  with fi obtain c where c: "curr l = Some c" "tall \<sigma> c (level l)"
    and lv: "level l \<le> M" "pred_ok \<sigma> l" "curr_ok \<sigma> l"
      "arrays \<longrightarrow> arrays_from M (Suc (level l)) \<sigma> l" "passed ag \<sigma> l"
    by (auto simp: find_inv_def curr_ok_def good_ref_def)
  from tallD [OF c(2)] obtain x where x: "read_next \<sigma> (Some c) (level l) = Some x" by blast
  from c(2) obtain n where n: "heap \<sigma> c = Some n" by (auto simp: tall_iff)
  show ?thesis
  proof (cases "wg (arg_start l) n")
    case True
    with unmarked_succ_ok [OF inv lv(1) c(1) x] lv c x n inv FWhile show ?thesis
      by (auto simp: find_inv_def search_frame_def pred_ok_def curr_ok_def arrays_from_def
          passed_def
          intro!: exI [of _ FMarked])
  next
    case False
    then have "left_at wg ag \<sigma> l" using c n by (simp add: left_at_def)
    from level_done_inv [OF lv(1-4) this lv(5), of K] False c n inv FWhile show ?thesis by auto
  qed
next
  case FReget
  with fi obtain c where c: "curr l = Some c" "tall \<sigma> c (level l)"
    and lv: "level l \<le> M" "pred_ok \<sigma> l" "curr_ok \<sigma> l"
      "arrays \<longrightarrow> arrays_from M (Suc (level l)) \<sigma> l" "passed ag \<sigma> l"
    by (auto simp: find_inv_def curr_ok_def good_ref_def)
  from tallD [OF c(2)] obtain x where x: "read_next \<sigma> (Some c) (level l) = Some x" by blast
  with unmarked_succ_ok [OF inv lv(1) c(1) x] lv c inv FReget show ?thesis
    by (auto simp: find_inv_def search_frame_def pred_ok_def curr_ok_def arrays_from_def
          passed_def
        intro!: exI [of _ FMarked])
next
  case FMarked
  with fi have lv: "level l \<le> M" "pred_ok \<sigma> l" "curr_ok \<sigma> l"
      "arrays \<longrightarrow> arrays_from M (Suc (level l)) \<sigma> l" "succ_ok \<sigma> l" "passed ag \<sigma> l"
    by (auto simp: find_inv_def)
  from lv(3) obtain c n where c: "curr l = Some c" "heap \<sigma> c = Some n" "linked \<sigma> c"
      "tall \<sigma> c (level l)"
    by (auto simp: curr_ok_def good_ref_def tall_iff)
  show ?thesis
  proof (cases "marked l")
    case True
    from lv(2) obtain p where "pred l = Some p" "tall \<sigma> p (level l)" by (auto simp: pred_ok_def)
    from tall_can_cas [OF this(2)] this(1) obtain ok \<sigma>'
      where cas: "cas_next \<sigma> (pred l) (level l) (curr l) (succ l) False False = Some (ok, \<sigma>')"
      by metis
    from snip_keeps_inv [OF inv lv(1,2,5) True cas] have h: "heap_inv M \<sigma>'" "evolves {} \<sigma> \<sigma>'" by auto
    then have "find_inv wg ag arrays M (if ok then FReload else FRetry) \<sigma>'
        (l\<lparr>pc := K (if ok then FReload else FRetry)\<rparr>)"
      using lv passed_stable [OF h(2) _ lv(6)] tests by (auto simp: find_inv_def stable)
    with h cas True FMarked show ?thesis
      by (auto simp: search_frame_def intro!: exI [of _ "if ok then FReload else FRetry"])
  next
    case False
    show ?thesis
    proof (cases "ag (arg_start l) n")
      case True
      with tl c have "c \<noteq> tail \<sigma>" using heap_inv_sentinels(3) [OF inv] by (auto simp: rg_def)
      with lv(5) c False obtain q where "succ l = Some q" "good_ref \<sigma> (level l) q"
        by (auto simp: succ_ok_def)
      with True False FMarked c lv \<open>c \<noteq> tail \<sigma>\<close> inv show ?thesis
        by (auto simp: find_inv_def search_frame_def pred_ok_def curr_ok_def arrays_from_def
          passed_def
            intro!: exI [of _ FWhile])
    next
      case notag: False
      then have "left_at wg ag \<sigma> l" using c by (simp add: left_at_def)
      from level_done_inv [OF lv(1-4) this lv(6), of K] notag False c inv FMarked show ?thesis by auto
    qed
  qed
qed (use f in simp)

subsection \<open>The steps of the operations\<close>

lemma count_frame [simp]:
  "heap_inv M (\<sigma>\<lparr>elementsCount := x\<rparr>) = heap_inv M \<sigma>"
  "evolves X \<sigma> (\<sigma>\<lparr>elementsCount := x\<rparr>)"
proof -
  let ?s = "\<sigma>\<lparr>elementsCount := x\<rparr>"
  have rd: "read_next ?s p k = read_next \<sigma> p k" for p k
    by (simp add: read_next_def deref_def)
  then have nx: "nx ?s = nx \<sigma>" and mk: "marked0 ?s a = marked0 \<sigma> a"
    and tall: "tall ?s a k = tall \<sigma> a k" and rg: "rg ?s a = rg \<sigma> a" for a k
    by (auto simp: nx_def marked0_def tall_def rg_def fun_eq_iff)
  then have ln: "linked ?s a = linked \<sigma> a" for a by (simp add: linked_def on_chain_def)
  have "good_cell ?s a k c = good_cell \<sigma> a k c" for a k c
    by (simp add: good_cell_def good_ref_def tall rg ln split: option.split)
  then show "heap_inv M ?s = heap_inv M \<sigma>"
    by (simp add: heap_inv_def sentinels_def rd tall rg)
  show "evolves X \<sigma> ?s" by (simp add: evolves_def rd ln same_node_def)
qed

text \<open>What one step of a thread in state \<open>l\<close> has to deliver.\<close>

definition step_ok ::
  "nat \<Rightarrow> ('t::{linorder,order_bot,order_top}) crl \<Rightarrow> 't locals \<Rightarrow> 't result \<Rightarrow> bool" where
  "step_ok M \<sigma> l r \<longleftrightarrow> (\<exists>\<sigma>' l'. r = Some (\<sigma>', l') \<and> heap_inv M \<sigma>' \<and> evolves (owned l) \<sigma> \<sigma>' \<and>
     thread_inv M \<sigma>' l' \<and> claimed l' \<subseteq> claimed l \<union> {brk \<sigma>})"

lemma arrays_fromD:
  assumes "arrays_from M 0 \<sigma> l" "k \<le> M"
  obtains p c where "preds l k = Some p" "succs l k = Some c" "linked \<sigma> p" "p \<noteq> tail \<sigma>"
    "tall \<sigma> p k" "good_ref \<sigma> k c"
  using assms by (auto simp: arrays_from_def)

lemma evolves_mono: "evolves {} \<sigma> \<sigma>' \<Longrightarrow> evolves X \<sigma> \<sigma>'"
  by (auto simp: evolves_def)

text \<open>
  When \<open>findInsert\<close> finds no room, the range overlaps the range on the left or on the right.
\<close>

lemma no_room_neighbour:
  assumes "heap_inv M \<sigma>" "legal_args l" "pred l = Some p" "heap \<sigma> p = Some n" "curr l = Some c"
    and "heap \<sigma> c = Some m" "findInsert_inv M FReturn \<sigma> l"
    and "\<not> (n_end n < arg_start l \<and> arg_end l < n_start m)"
  shows "\<exists>a\<in>{p, c}. linked \<sigma> a \<and> tall \<sigma> a 0 \<and> closed_overlaps (arg_start l, arg_end l) (rg \<sigma> a)"
proof -
  from assms(3,5,7) have a: "arrays_from M 0 \<sigma> l" "preds l 0 = Some p" "succs l 0 = Some c"
    by (auto simp: find_inv_def)
  then have lk: "linked \<sigma> p" "linked \<sigma> c" "tall \<sigma> p 0" "tall \<sigma> c 0"
    by (auto simp: good_ref_def elim!: arrays_fromD)
  have "p = head \<sigma> \<or> n_start n \<le> arg_start l"
    using assms(3,4,7) by (auto simp: find_inv_def passed_def)
  then have "n_start n \<le> arg_start l"
    using heap_inv_sentinels(2) [OF assms(1)] assms(4) by (auto simp: rg_def)
  moreover have "arg_start l \<le> n_start m"
    using assms(5-7) by (auto simp: find_inv_def left_at_def)
  moreover have "n_start n \<le> n_end n" "n_start m \<le> n_end m"
    using heap_inv_node [OF assms(1)] assms(4,6) by (auto simp: well_formed_node_def)
  ultimately have "closed_overlaps (arg_start l, arg_end l) (rg \<sigma> p) \<or>
      closed_overlaps (arg_start l, arg_end l) (rg \<sigma> c)"
    using assms(2,4,6,8) by (auto simp: closed_overlaps_def rg_def legal_args_def)
  with lk show ?thesis by auto
qed

lemma no_room_overlaps:
  assumes "heap_inv M \<sigma>" "legal_args l" "pred l = Some p" "heap \<sigma> p = Some n" "curr l = Some c"
    and "heap \<sigma> c = Some m" "findInsert_inv M FReturn \<sigma> l"
    and "\<not> (n_end n < arg_start l \<and> arg_end l < n_start m)"
  shows "refused \<sigma> l"
  using no_room_neighbour [OF assms] by (auto simp: refused_def)

lemma findInsert_step_ok:
  assumes inv: "heap_inv M \<sigma>" and pc: "pc l = FindInsert relink f" and ti: "thread_inv M \<sigma> l"
  shows "step_ok M \<sigma> l (findInsert_step M relink f \<sigma> l)"
proof (cases "f = FReturn")
  case True
  with pc ti have l: "legal_args l" "topLevel l \<le> M" "arrays_from M 0 \<sigma> l" "pred l = preds l 0"
      "curr l = succs l 0" "relink \<longrightarrow> published \<sigma> l \<and> 1 \<le> link_level l"
    by (auto simp: thread_inv_def find_inv_def)
  then obtain p c where pc0: "preds l 0 = Some p" "succs l 0 = Some c" "tall \<sigma> p 0" "tall \<sigma> c 0"
    by (fastforce simp: arrays_from_def good_ref_def)
  then obtain n m where n: "heap \<sigma> p = Some n" "heap \<sigma> c = Some m" by (auto simp: tall_iff)
  have "\<not> (n_end n < arg_start l \<and> arg_end l < n_start m) \<Longrightarrow> refused \<sigma> (l\<lparr>pc := x\<rparr>)" for x
    using no_room_overlaps [OF inv l(1) _ n(1) _ n(2)] pc0 l True pc ti
    by (auto simp: thread_inv_def refused_def)
  with True pc0 n l inv pc show ?thesis
    by (auto simp: step_ok_def findInsert_step_def findInsert_result_def thread_inv_def claim_defs
        gap_def closed_before_def rg_def arrays_from_def published_def legal_args_def)
next
  case False
  from pc ti have l: "legal_args l" "topLevel l \<le> M" "findInsert_inv M f \<sigma> l"
      "relink \<longrightarrow> published \<sigma> l \<and> 1 \<le> link_level l"
    by (auto simp: thread_inv_def)
  have tl: "\<And>n. n_start n = top \<Longrightarrow> n_end n = top \<Longrightarrow> \<not> arg_start l \<ge> getStart n"
    using l(1) by (auto simp: legal_args_def)
  from find_step_inv [OF inv l(3) False fields_only_getters(1) tl, of "FindInsert relink"] obtain \<sigma>' l' f' where
      s: "find_step (\<lambda>s n. s > getStart n) (\<lambda>s n. s \<ge> getStart n) True
            (FindInsert relink) M f \<sigma> l = Some (\<sigma>', l')" and
      r: "heap_inv M \<sigma>'" "evolves {} \<sigma> \<sigma>'" "pc l' = FindInsert relink f'" "findInsert_inv M f' \<sigma>' l'"
      "search_frame True l l'"
    by blast
  have "findInsert_step M relink f \<sigma> l = Some (\<sigma>', l')"
    using s False by (simp add: findInsert_step_def)
  note r = this r
  have "thread_inv M \<sigma>' l'"
    using r l published_stable [OF r(3)] by (auto simp: thread_inv_def) (auto simp: search_frame_def)
  with r pc show ?thesis
    by (auto simp: step_ok_def claim_defs evolves_mono) (auto simp: search_frame_def)
qed

lemma findExact_step_ok:
  assumes inv: "heap_inv M \<sigma>" and pc: "pc l = FindExact f" and ti: "thread_inv M \<sigma> l"
  shows "step_ok M \<sigma> l (findExact_step M f \<sigma> l)"
proof (cases "f = FReturn")
  case True
  with pc ti have l: "legal_args l" "arrays_from M 0 \<sigma> l" "curr l = succs l 0"
      "left_at (\<lambda>s n. s \<ge> getStart n) (\<lambda>s n. s \<ge> getEnd n) \<sigma> l"
    by (auto simp: thread_inv_def find_inv_def)
  then obtain c where c: "succs l 0 = Some c" "good_ref \<sigma> 0 c"
    by (fastforce simp: arrays_from_def)
  then obtain n where n: "heap \<sigma> c = Some n" by (auto simp: good_ref_def tall_iff)
  have "tall \<sigma> c (n_topLevel n)"
    using heap_inv_node [OF inv n] n by (auto simp: tall_iff well_formed_node_def)
  moreover have "arg_start l = n_start n \<Longrightarrow> arg_end l = n_end n \<Longrightarrow> n_start n < n_end n"
    using l(3,4) c n by (auto simp: left_at_def)
  moreover have "n_start n = arg_start l \<Longrightarrow> c \<noteq> tail \<sigma>"
    using heap_inv_sentinels(3) [OF inv] l(1) n by (auto simp: rg_def legal_args_def)
  ultimately show ?thesis
    using True l c n inv
    by (auto simp: step_ok_def findExact_step_def findExact_result_def thread_inv_def claim_defs
        victim_def good_ref_def rg_def legal_args_def)
next
  case False
  from pc ti have l: "legal_args l" "findExact_inv True M f \<sigma> l"
    by (auto simp: thread_inv_def)
  have tl: "\<And>n. n_start n = top \<Longrightarrow> n_end n = top \<Longrightarrow> \<not> arg_start l \<ge> getEnd n"
    using l(1) by (auto simp: legal_args_def)
  from find_step_inv [OF inv l(2) False fields_only_getters(2) tl, of "FindExact"] obtain \<sigma>' l' f' where
      s: "find_step (\<lambda>s n. s \<ge> getStart n) (\<lambda>s n. s \<ge> getEnd n) True
            FindExact M f \<sigma> l = Some (\<sigma>', l')" and
      r: "heap_inv M \<sigma>'" "evolves {} \<sigma> \<sigma>'" "pc l' = FindExact f'" "findExact_inv True M f' \<sigma>' l'"
      "search_frame True l l'"
    by blast
  have "findExact_step M f \<sigma> l = Some (\<sigma>', l')"
    using s False by (simp add: findExact_step_def)
  note r = this r
  then show ?thesis
    using l by (auto simp: step_ok_def claim_defs evolves_mono thread_inv_def)
qed

lemma findDelete_step_ok:
  assumes inv: "heap_inv M \<sigma>" and pc: "pc l = FindDelete f" and ti: "thread_inv M \<sigma> l"
  shows "step_ok M \<sigma> l (findDelete_step M f \<sigma> l)"
proof (cases "f = FReturn")
  case True
  with inv pc ti show ?thesis
    by (auto simp: step_ok_def findDelete_step_def thread_inv_def claim_defs)
next
  case False
  from pc ti have l: "legal_args l" "findExact_inv False M f \<sigma> l" "arg_start l < arg_end l"
    by (auto simp: thread_inv_def)
  have tl: "\<And>n. n_start n = top \<Longrightarrow> n_end n = top \<Longrightarrow> \<not> arg_start l \<ge> getEnd n"
    using l(1) by (auto simp: legal_args_def)
  from find_step_inv [OF inv l(2) False fields_only_getters(2) tl, of "FindDelete"] obtain \<sigma>' l' f' where
      s: "find_step (\<lambda>s n. s \<ge> getStart n) (\<lambda>s n. s \<ge> getEnd n) False
            FindDelete M f \<sigma> l = Some (\<sigma>', l')" and
      r: "heap_inv M \<sigma>'" "evolves {} \<sigma> \<sigma>'" "pc l' = FindDelete f'" "findExact_inv False M f' \<sigma>' l'"
      "search_frame False l l'"
    by blast
  have "findDelete_step M f \<sigma> l = Some (\<sigma>', l')"
    using s False by (simp add: findDelete_step_def)
  note r = this r
  then show ?thesis
    using l by (auto simp: step_ok_def claim_defs evolves_mono thread_inv_def)
      (simp add: search_frame_def)
qed

lemma build_node_fields [simp]:
  "n_start (build_node l) = arg_start l" "n_end (build_node l) = arg_end l"
  "n_topLevel (build_node l) = topLevel l" "length (n_next (build_node l)) = topLevel l + 1"
  by (simp_all add: build_node_def Let_def initialize_def)

lemma build_node_nonempty [simp]: "n_next (build_node l) \<noteq> []"
  by (metis build_node_fields(4) list.size(3) add_is_0 zero_neq_one)

lemma build_node_cell [simp]:
  "k \<le> topLevel l \<Longrightarrow> n_next (build_node l) ! k = (succs l k, False)"
  by (cases k) (simp_all add: build_node_def Let_def initialize_def cell_store_def
      nth_list_update del: upt_Suc)

lemma TryAlloc_ok:
  assumes inv: "heap_inv M \<sigma>" and pc: "pc l = TryAlloc" and ti: "thread_inv M \<sigma> l"
  shows "step_ok M \<sigma> l (try_step TryAlloc \<sigma> l)"
proof -
  let ?n = "build_node l" and ?b = "brk \<sigma>"
  let ?s = "\<sigma>\<lparr>heap := (heap \<sigma>)(?b \<mapsto> ?n), brk := ?b + 1\<rparr>"
  let ?l = "l\<lparr>newNode := Some ?b, pc := TryCas0\<rparr>"
  from pc ti have l: "legal_args l" "topLevel l \<le> M" "arrays_from M 0 \<sigma> l" "gap \<sigma> l"
    by (auto simp: thread_inv_def)
  have wf: "well_formed_node M ?n" using l by (simp add: well_formed_node_def legal_args_def)
  have cells: "\<exists>p. fst (n_next ?n ! k) = Some p \<and> good_ref \<sigma> k p \<and>
      (k = 0 \<longrightarrow> closed_before (n_start ?n, n_end ?n) (rg \<sigma> p))" if "k \<le> n_topLevel ?n" for k
  proof -
    from that l(2) have "k \<le> M" by simp
    from arrays_fromD [OF l(3) this] obtain c where "succs l k = Some c" "good_ref \<sigma> k c" by blast
    with that l(4) show ?thesis by (auto simp: gap_def)
  qed
  from alloc_keeps_inv [OF inv refl wf _ cells, of "{}"]
  have h: "heap_inv M ?s" "evolves {} \<sigma> ?s" "\<not> linked ?s ?b" by simp_all
  have "private_node ?s ?l"
    using h(3) by (simp add: private_node_def) (simp add: build_node_def)
  moreover have "arrays_from M 0 ?s ?l" "gap ?s ?l"
    using arrays_from_stable [OF h(2) l(3)] gap_stable [OF h(2) l(3,4)]
    by (simp_all add: arrays_from_def gap_def)
  ultimately have "thread_inv M ?s ?l"
    using l(1,2) by (simp add: thread_inv_def legal_args_def)
  with h show ?thesis by (auto simp: step_ok_def claim_defs evolves_mono)
qed

lemma TryCas0_ok:
  assumes inv: "heap_inv M \<sigma>" and pc: "pc l = TryCas0" and ti: "thread_inv M \<sigma> l"
  shows "step_ok M \<sigma> l (try_step TryCas0 \<sigma> l)"
proof -
  from pc ti have l: "legal_args l" "topLevel l \<le> M" "arrays_from M 0 \<sigma> l" "gap \<sigma> l"
      "private_node \<sigma> l"
    by (auto simp: thread_inv_def)
  from l(5) obtain n where n: "newNode l = Some n" "\<not> linked \<sigma> n" "heap \<sigma> n = Some (build_node l)"
    by (auto simp: private_node_def)
  from arrays_fromD [OF l(3), of 0] obtain p c where p: "preds l 0 = Some p" "succs l 0 = Some c"
      "linked \<sigma> p" "p \<noteq> tail \<sigma>" "tall \<sigma> p 0"
    by blast
  from tall_can_cas [OF p(5)] obtain ok \<sigma>' where
    cas: "cas_next \<sigma> (Some p) 0 (Some c) (Some n) False False = Some (ok, \<sigma>')" by blast
  have rgn: "rg \<sigma> n = (arg_start l, arg_end l)" using n by (simp add: rg_def)
  have nh: "n \<noteq> head \<sigma>" using n(2) by (auto simp: linked_def on_chain_def)
  from cas show ?thesis
  proof (cases rule: cas_next_cases)
    case 1
    have "read_next \<sigma> (Some n) 0 = Some (Some c, False)" using n p by (simp add: read_next_Some)
    then have h: "heap_inv M \<sigma>'" "evolves {n} \<sigma> \<sigma>'" "linked \<sigma>' n"
      using insert_write [OF inv 1(3,2) p(4,3) _ n(2) nh] l(4) p rgn by (auto simp: gap_def)
    have "n \<noteq> tail \<sigma>"
      using heap_inv_sentinels(3) [OF inv] rgn l(1) by (auto simp: legal_args_def)
    moreover have "tall \<sigma> n (topLevel l)" using n by (simp add: tall_iff)
    moreover have "bot < arg_start l" "arg_end l < top"
      using l(4) by (auto simp: gap_def closed_before_def intro: le_less_trans less_le_trans)
    ultimately have "published \<sigma>' l"
      using h n nh rgn by (simp add: published_def evolvesD tall_stable rg_stable)
    with h cas 1 pc l p n arrays_from_stable [OF h(2) l(3)] show ?thesis
      by (simp add: step_ok_def claim_defs thread_inv_def published_def arrays_from_def
          legal_args_def)
  next
    case 2
    with cas pc l p n inv show ?thesis
      by (simp add: step_ok_def claim_defs thread_inv_def find_inv_def legal_args_def)
  qed
qed

lemma TryLink_ok:
  assumes inv: "heap_inv M \<sigma>" and pc: "pc l = TryLink" and ti: "thread_inv M \<sigma> l"
  shows "step_ok M \<sigma> l (try_step TryLink \<sigma> l)"
proof (cases "link_level l \<le> topLevel l")
  case False
  let ?s = "\<sigma>\<lparr>elementsCount := elementsCount \<sigma> + 1\<rparr>"
  have "evolves {} \<sigma> ?s" by simp
  from published_stable [OF this] False pc ti inv show ?thesis
    by (auto simp: step_ok_def claim_defs thread_inv_def published_def)
next
  case True
  let ?k = "link_level l"
  from pc ti have l: "legal_args l" "topLevel l \<le> M" "arrays_from M 0 \<sigma> l" "published \<sigma> l" "1 \<le> ?k"
    by (auto simp: thread_inv_def)
  from l(4) obtain n where n: "newNode l = Some n" "linked \<sigma> n" "n \<noteq> head \<sigma>" "tall \<sigma> n (topLevel l)"
    by (auto simp: published_def)
  from arrays_fromD [OF l(3), of ?k] True l(2) obtain p c where p: "preds l ?k = Some p"
      "succs l ?k = Some c" "linked \<sigma> p" "p \<noteq> tail \<sigma>" "tall \<sigma> p ?k"
    by (metis le_trans)
  from tall_can_cas [OF p(5)] obtain ok \<sigma>' where
    cas: "cas_next \<sigma> (Some p) ?k (Some c) (Some n) False False = Some (ok, \<sigma>')" by blast
  have "good_ref \<sigma> ?k n" using n True by (auto simp: good_ref_def intro: tall_mono)
  note good = this
  from cas have h: "heap_inv M \<sigma>' \<and> evolves {} \<sigma> \<sigma>'"
  proof (cases rule: cas_next_cases)
    case 1
    with upper_write [OF inv 1(3,2) p(4,3) _ good] l(5) show ?thesis by simp
  qed (use inv in simp)
  then have "arrays_from M 0 \<sigma>' l" "published \<sigma>' l"
    using l by (auto simp: stable)
  with h cas pc l p n True show ?thesis
    by (simp add: step_ok_def claim_defs thread_inv_def find_inv_def published_def arrays_from_def
        legal_args_def evolves_mono)
qed

lemma victimE:
  assumes "victim \<sigma> l"
  obtains n where "nodeToRemove l = Some n" "linked \<sigma> n" "n \<noteq> tail \<sigma>" "tall \<sigma> n (mark_level l)"
    "succs l 0 = Some n"
  using assms by (auto simp: victim_def)

lemma step_okI:
  assumes "r = Some (\<sigma>', l')" "heap_inv M \<sigma>' \<and> evolves {} \<sigma> \<sigma>'" "thread_inv M \<sigma>' l'"
    and "claimed l' = {}"
  shows "step_ok M \<sigma> l r"
  using assms by (auto simp: step_ok_def evolves_mono)

text \<open>Inside \<open>releaseLock\<close> a thread knows its victim; it stays the victim.\<close>

lemma victim_inv:
  assumes "victim \<sigma> l" "legal_args l"
    and "pc l' \<in> {RelMark, RelMarkWhile, RelMarkReget, RelCas0, RelReget0, RelReturned b,
      FindDelete FRetry}"
    and "nodeToRemove l' = nodeToRemove l" "succs l' = succs l" "arg_start l' = arg_start l"
      "arg_end l' = arg_end l" "mark_level l' \<le> mark_level l"
    and "pc l' \<in> {RelMarkWhile, RelMarkReget} \<longrightarrow> 1 \<le> mark_level l'"
  shows "thread_inv M \<sigma> l' \<and> claimed l' = {}"
proof -
  have "victim \<sigma> l'" using assms by (auto simp: victim_def intro: tall_mono)
  moreover from this have "arg_start l' < arg_end l'" by (simp add: victim_def)
  moreover have "legal_args l'" using assms by (simp add: legal_args_def)
  ultimately show ?thesis
    using assms(3,9) by (auto simp: thread_inv_def claim_defs find_inv_def)
qed

lemma release_step_ok:
  assumes inv: "heap_inv M \<sigma>" and ti: "thread_inv M \<sigma> l"
    and pc: "pc l \<in> {RelMark, RelMarkWhile, RelMarkReget, RelCas0, RelReget0}"
  shows "step_ok M \<sigma> l (release_step (pc l) \<sigma> l)"
proof -
  let ?k = "mark_level l"
  from pc ti have v: "victim \<sigma> l" and la: "legal_args l" by (auto simp: thread_inv_def)
  from v obtain n where n: "nodeToRemove l = Some n" "linked \<sigma> n" "n \<noteq> tail \<sigma>" "tall \<sigma> n ?k"
      "succs l 0 = Some n"
    by (rule victimE)
  have low: "tall \<sigma> n 0" using n(4) by (rule tall_mono) simp
  obtain c where c: "read_next \<sigma> (Some n) ?k = Some c" using tallD [OF n(4)] by blast
  obtain d where d: "read_next \<sigma> (Some n) 0 = Some d" using tallD [OF low] by blast
  obtain ok \<sigma>1 where m: "attemptMark_next \<sigma> (Some n) ?k (succ l) True = Some (ok, \<sigma>1)"
    using tall_can_attemptMark [OF n(4)] by blast
  then have h1: "heap_inv M \<sigma>1 \<and> evolves {} \<sigma> \<sigma>1"
    by (cases rule: attemptMark_next_cases) (use inv n mark_write [OF inv, of n] in \<open>blast | simp\<close>)+
  obtain ok2 \<sigma>2 where m2: "cas_next \<sigma> (Some n) 0 (succ l) (succ l) False True = Some (ok2, \<sigma>2)"
    using tall_can_cas [OF low] by blast
  then have h2: "heap_inv M \<sigma>2 \<and> evolves {} \<sigma> \<sigma>2"
    by (cases rule: cas_next_cases) (use inv n mark_write [OF inv, of n] in \<open>blast | simp\<close>)+
  obtain \<sigma>' l' where r: "release_step (pc l) \<sigma> l = Some (\<sigma>', l')" and "\<sigma>' \<in> {\<sigma>, \<sigma>1, \<sigma>2}"
    and l': "pc l' \<in> {RelMark, RelMarkWhile, RelMarkReget, RelCas0, RelReget0, RelReturned False,
      FindDelete FRetry}" "nodeToRemove l' = nodeToRemove l" "succs l' = succs l"
      "arg_start l' = arg_start l" "arg_end l' = arg_end l" "mark_level l' \<le> ?k"
      "pc l' \<in> {RelMarkWhile, RelMarkReget} \<longrightarrow> 1 \<le> mark_level l'"
    using pc n c d m m2 ti [unfolded thread_inv_def]
    by (cases "1 \<le> ?k"; cases "marked l"; cases "iMarkedIt l"; cases "snd d") auto
  with inv h1 h2 have h: "heap_inv M \<sigma>' \<and> evolves {} \<sigma> \<sigma>'" by auto
  with v have "victim \<sigma>' l" using victim_stable by blast
  from victim_inv [OF this la l'] show ?thesis using step_okI [OF r h] by blast
qed

lemma code_step_ok:
  assumes inv: "heap_inv M \<sigma>" and ti: "thread_inv M \<sigma> l"
  shows "step_ok M \<sigma> l (code_step M \<sigma> l)"
proof (cases "pc l")
  case (FindInsert r f)
  then show ?thesis using findInsert_step_ok [OF inv _ ti] by (simp add: code_step_def)
next
  case (FindExact f)
  then show ?thesis using findExact_step_ok [OF inv _ ti] by (simp add: code_step_def)
next
  case (FindDelete f)
  then show ?thesis using findDelete_step_ok [OF inv _ ti] by (simp add: code_step_def)
next
  case TryAlloc
  then show ?thesis using TryAlloc_ok [OF inv _ ti] by (simp add: code_step_def)
next
  case TryCas0
  then show ?thesis using TryCas0_ok [OF inv _ ti] by (simp add: code_step_def)
next
  case TryLink
  then show ?thesis using TryLink_ok [OF inv _ ti] by (simp add: code_step_def)
next
  case Crashed
  with ti show ?thesis by (simp add: thread_inv_def)
qed (use release_step_ok [OF inv ti] inv ti in
      \<open>auto simp: code_step_def step_ok_def claim_defs\<close>)

end
