(* ===== verification/V0_System.thy ===== *)
theory V0_System
  imports V0_Threads
begin

text \<open>
  The v0 lock with all its threads: the invariant of the whole system, that every reachable
  state has it, and the properties of the lock its callers rely on.
\<close>

subsection \<open>Reachable states\<close>

inductive reachable :: "nat \<Rightarrow> ('t::{linorder,order_bot,order_top}) system \<Rightarrow> bool"
  for M :: nat where
  start: "reachable M (init_system M)"
| event: "reachable M S \<Longrightarrow> legal_event ev \<Longrightarrow> reachable M (do_event M ev S)"

definition system_inv :: "nat \<Rightarrow> ('t::{linorder,order_bot,order_top}) system \<Rightarrow> bool" where
  "system_inv M S \<longleftrightarrow> heap_inv M (lock S) \<and> (\<forall>t. thread_inv M (lock S) (threads S t)) \<and>
     (\<forall>t u. t \<noteq> u \<longrightarrow> claimed (threads S t) \<inter> claimed (threads S u) = {})"

lemma reachable_run:
  "list_all legal_event evs \<Longrightarrow> reachable M S \<Longrightarrow> reachable M (run_events M evs S)"
  by (induction evs arbitrary: S) (auto simp: run_events_def intro: reachable.event)

lemma init_heap_inv: "heap_inv M (ConcurrentRangeLock M)"
proof -
  let ?s = "ConcurrentRangeLock M :: 'a crl"
  have hp: "heap ?s = [0 \<mapsto> initializeHead bot bot M (Some 1), 1 \<mapsto> initialize top top M]"
    and hd: "head ?s = 0" "tail ?s = 1" "brk ?s = 2"
    by (simp_all add: ConcurrentRangeLock_def)
  have rd: "read_next ?s (Some a) k =
      (if a = 0 \<and> k \<le> M then Some (Some 1, False)
       else if a = 1 \<and> k \<le> M then Some (None, False) else None)" for a k
    by (simp add: read_next_def hp initializeHead_def initialize_def cell_store_def cell_null_def
        del: replicate_Suc)
  have "nx ?s 0 = Some 1" by (simp add: nx_def rd)
  then have "on_chain ?s 1" unfolding on_chain_def hd by (auto intro: reach_step)
  then have "good_ref ?s k 1" if "k \<le> M" for k
    using that by (simp add: good_ref_def linked_def hd tall_def rd)
  then have "good_cell ?s a k c" if "a \<noteq> tail ?s" "read_next ?s (Some a) k = Some c" for a k c
    using that by (auto simp: good_cell_def rd hd split: if_splits)
  moreover have "sentinels M ?s"
    by (simp add: sentinels_def hd rg_def hp initializeHead_def initialize_def tall_def rd)
  moreover have "heap ?s a \<noteq> None \<longleftrightarrow> a < brk ?s" for a
    by (auto simp: hp hd)
  moreover have "well_formed_node M n" if "heap ?s a = Some n" for a n
    using that by (auto simp: hp well_formed_node_def initializeHead_def initialize_def
        split: if_splits)
  ultimately show ?thesis unfolding heap_inv_def by blast
qed

lemma init_system_inv: "system_inv M (init_system M)"
  by (simp add: system_inv_def init_system_def init_heap_inv thread_inv_def fresh_locals_def
      claimed_def)

lemma claimed_allocated:
  assumes "heap_inv M \<sigma>" "thread_inv M \<sigma> l" "a \<in> claimed l"
  shows "a < brk \<sigma>"
proof -
  have "heap \<sigma> a \<noteq> None"
    using assms(2,3)
    by (auto simp: thread_inv_def claimed_def private_node_def published_def tall_iff
        split: pc.splits if_splits)
  then show ?thesis using heap_inv_brk [OF assms(1)] by auto
qed

lemma step_keeps_system_inv:
  assumes inv: "system_inv M S"
  shows "system_inv M (do_event M (Step t) S)"
proof -
  let ?\<sigma> = "lock S" and ?l = "threads S t"
  from inv have h: "heap_inv M ?\<sigma>" and ti: "\<And>u. thread_inv M ?\<sigma> (threads S u)"
    and dj: "\<And>u v. u \<noteq> v \<Longrightarrow> claimed (threads S u) \<inter> claimed (threads S v) = {}"
    by (auto simp: system_inv_def)
  from code_step_ok [OF h ti, of t] obtain \<sigma>' l' where s: "step M ?\<sigma> ?l = (\<sigma>', l')"
    and h': "heap_inv M \<sigma>'" and ev: "evolves (owned ?l) ?\<sigma> \<sigma>'" and ti': "thread_inv M \<sigma>' l'"
    and cl: "claimed l' \<subseteq> claimed ?l \<union> {brk ?\<sigma>}"
    by (auto simp: step_ok_def step_def)
  have "thread_inv M \<sigma>' (threads S u)" if "u \<noteq> t" for u
    using thread_inv_stable [OF ev ti] dj [OF that] by (auto simp: owned_def)
  moreover have "claimed l' \<inter> claimed (threads S u) = {}" if "u \<noteq> t" for u
    using cl dj [OF that] claimed_allocated [OF h ti, of _ u] by fastforce
  ultimately show ?thesis
    using h' ti' dj by (auto simp: system_inv_def s)
qed

lemma call_keeps_thread_inv:
  assumes "s \<le> e" "s < top"
  shows "thread_inv M \<sigma> (call_tryLock M s e rnd l)" "thread_inv M \<sigma> (call_releaseLock s e l)"
    and "claimed (call_tryLock M s e rnd l) = {}" "claimed (call_releaseLock s e l) = {}"
  using assms
  by (simp_all add: thread_inv_def call_tryLock_def call_releaseLock_def legal_args_def
      find_inv_def claimed_def randomLevel_bound)

lemma event_keeps_system_inv:
  assumes "system_inv M S" "legal_event ev"
  shows "system_inv M (do_event M ev S)"
proof (cases ev)
  case (Step t)
  then show ?thesis using step_keeps_system_inv [OF assms(1)] by simp
qed (use assms in \<open>auto simp: system_inv_def call_keeps_thread_inv\<close>)

lemma reachable_system_inv: "reachable M S \<Longrightarrow> system_inv M S"
  by (induction rule: reachable.induct) (auto intro: init_system_inv event_keeps_system_inv)

end
