(* ===== verification/RL_Abstract_Lock.thy ===== *)
theory RL_Abstract_Lock
  imports RL_Prelude
begin

text \<open>
  The abstract range lock: a set of held ranges. It grants a valid range that overlaps no held
  one, and gives up a held one. The locks of the repository are shown to implement it, each for
  its own notion of range.
\<close>

datatype 'r action = Acquire 'r | Release 'r | Silent

inductive lock_spec ::
  "('r \<Rightarrow> bool) \<Rightarrow> ('r \<Rightarrow> 'r \<Rightarrow> bool) \<Rightarrow> 'r set \<Rightarrow> 'r action \<Rightarrow> 'r set \<Rightarrow> bool"
  for valid :: "'r \<Rightarrow> bool" and overlaps :: "'r \<Rightarrow> 'r \<Rightarrow> bool" where
  acquire: "valid r \<Longrightarrow> \<forall>q\<in>R. \<not> overlaps r q \<Longrightarrow> lock_spec valid overlaps R (Acquire r) (insert r R)"
| release: "r \<in> R \<Longrightarrow> lock_spec valid overlaps R (Release r) (R - {r})"
| silent: "lock_spec valid overlaps R Silent R"

inductive_simps lock_spec_simps [simp]:
  "lock_spec valid overlaps R (Acquire r) R'" "lock_spec valid overlaps R (Release r) R'"
  "lock_spec valid overlaps R Silent R'"

inductive spec_run ::
  "('r \<Rightarrow> bool) \<Rightarrow> ('r \<Rightarrow> 'r \<Rightarrow> bool) \<Rightarrow> 'r set \<Rightarrow> 'r action list \<Rightarrow> 'r set \<Rightarrow> bool"
  for valid :: "'r \<Rightarrow> bool" and overlaps :: "'r \<Rightarrow> 'r \<Rightarrow> bool" where
  nil: "spec_run valid overlaps R [] R"
| cons: "lock_spec valid overlaps R a R' \<Longrightarrow> spec_run valid overlaps R' as R'' \<Longrightarrow>
    spec_run valid overlaps R (a # as) R''"

abbreviation closed_spec ::
  "('t::linorder) range set \<Rightarrow> 't range action \<Rightarrow> 't range set \<Rightarrow> bool" where
  "closed_spec \<equiv> lock_spec closed_valid closed_overlaps"

abbreviation closed_run ::
  "('t::linorder) range set \<Rightarrow> 't range action list \<Rightarrow> 't range set \<Rightarrow> bool" where
  "closed_run \<equiv> spec_run closed_valid closed_overlaps"

text \<open>The abstract lock is deterministic: a run ends with what its actions make of the start.\<close>

primrec apply_action :: "'r action \<Rightarrow> 'r set \<Rightarrow> 'r set" where
  "apply_action (Acquire r) R = insert r R"
| "apply_action (Release r) R = R - {r}"
| "apply_action Silent R = R"

lemma spec_run_final: "spec_run valid overlaps R as R' \<Longrightarrow> R' = fold apply_action as R"
  by (induction rule: spec_run.induct) (auto elim!: lock_spec.cases)

lemma fold_silent: "fold apply_action (replicate n Silent) R = R"
  by (induction n) simp_all

text \<open>Whatever it is asked, the abstract lock holds pairwise disjoint ranges.\<close>

definition pairwise_disjoint :: "('r \<Rightarrow> 'r \<Rightarrow> bool) \<Rightarrow> 'r set \<Rightarrow> bool" where
  "pairwise_disjoint overlaps R \<longleftrightarrow> (\<forall>r\<in>R. \<forall>q\<in>R. r \<noteq> q \<longrightarrow> \<not> overlaps r q)"

context range_order begin

lemma spec_keeps_disjoint:
  "lock_spec valid overlaps R a R' \<Longrightarrow> pairwise_disjoint overlaps R \<Longrightarrow> pairwise_disjoint overlaps R'"
  by (induction rule: lock_spec.induct) (auto simp: pairwise_disjoint_def dest: overlaps_sym)

lemma run_keeps_disjoint:
  "spec_run valid overlaps R as R' \<Longrightarrow> pairwise_disjoint overlaps R \<Longrightarrow> pairwise_disjoint overlaps R'"
  by (induction rule: spec_run.induct) (auto intro: spec_keeps_disjoint)

end

subsection \<open>Implementations\<close>

text \<open>The actions of the abstract lock a run of events amounts to.\<close>

fun actions_of :: "('e \<Rightarrow> 's \<Rightarrow> 's) \<Rightarrow> ('e \<Rightarrow> 's \<Rightarrow> 'r action) \<Rightarrow> 'e list \<Rightarrow> 's \<Rightarrow> 'r action list" where
  "actions_of step act [] S = []"
| "actions_of step act (ev # evs) S = act ev S # actions_of step act evs (step ev S)"

text \<open>A run of events each of which is legal in the state it meets.\<close>

fun legal_run :: "('e \<Rightarrow> 's \<Rightarrow> 's) \<Rightarrow> ('e \<Rightarrow> 's \<Rightarrow> bool) \<Rightarrow> 'e list \<Rightarrow> 's \<Rightarrow> bool" where
  "legal_run step legal [] S \<longleftrightarrow> True"
| "legal_run step legal (ev # evs) S \<longleftrightarrow> legal ev S \<and> legal_run step legal evs (step ev S)"

lemma legal_run_const [simp]: "legal_run step (\<lambda>ev S. P ev) evs S \<longleftrightarrow> list_all P evs"
  by (induction evs arbitrary: S) simp_all

lemmas legal_run_constI = legal_run_const [THEN iffD2]

lemma legal_run_append [simp]:
  "legal_run step legal (evs @ evs') S \<longleftrightarrow> legal_run step legal evs S \<and> legal_run step legal evs' (fold step evs S)"
  by (induction evs arbitrary: S) simp_all

text \<open>
  The contract of an implementation: a transition system driven by events, an invariant that its
  legal events keep, the ranges it holds, and an action of the abstract lock for every event.
\<close>

locale lock_implementation = range_order +
  fixes init :: 's and do_ev :: "'e \<Rightarrow> 's \<Rightarrow> 's" and legal :: "'e \<Rightarrow> 's \<Rightarrow> bool" and inv :: "'s \<Rightarrow> bool"
    and holds :: "'s \<Rightarrow> 'a set" and act :: "'e \<Rightarrow> 's \<Rightarrow> 'a action"
  assumes init_inv: "inv init" and init_holds: "holds init = {}"
    and keeps_inv: "inv S \<Longrightarrow> legal ev S \<Longrightarrow> inv (do_ev ev S)"
    and refines: "inv S \<Longrightarrow> lock_spec valid overlaps (holds S) (act ev S) (holds (do_ev ev S))"
begin

lemma run_inv: "legal_run do_ev legal evs S \<Longrightarrow> inv S \<Longrightarrow> inv (fold do_ev evs S)"
  by (induction evs arbitrary: S) (auto intro: keeps_inv)

lemma run_refines:
  "legal_run do_ev legal evs S \<Longrightarrow> inv S \<Longrightarrow>
   spec_run valid overlaps (holds S) (actions_of do_ev act evs S) (holds (fold do_ev evs S))"
proof (induction evs arbitrary: S)
  case (Cons ev evs)
  then show ?case using refines [of S ev] keeps_inv by (auto intro: spec_run.cons)
qed (simp add: spec_run.nil)

lemma init_run_refines:
  "legal_run do_ev legal evs init \<Longrightarrow>
   spec_run valid overlaps {} (actions_of do_ev act evs init) (holds (fold do_ev evs init))"
  using run_refines [OF _ init_inv] by (simp add: init_holds)

lemma holds_of_run:
  "legal_run do_ev legal evs init \<Longrightarrow> holds (fold do_ev evs init) = fold apply_action (actions_of do_ev act evs init) {}"
  using spec_run_final [OF init_run_refines] .

lemma run_holds_disjoint:
  "legal_run do_ev legal evs init \<Longrightarrow> pairwise_disjoint overlaps (holds (fold do_ev evs init))"
  using run_keeps_disjoint [OF init_run_refines] by (simp add: pairwise_disjoint_def)

lemma held_survives: "inv S \<Longrightarrow> r \<in> holds S \<Longrightarrow> act ev S \<noteq> Release r \<Longrightarrow> r \<in> holds (do_ev ev S)"
  using refines [of S ev] by (auto elim: lock_spec.cases)

lemma never_released:
  assumes "\<And>S ev. inv S \<Longrightarrow> act ev S \<noteq> Release r" "legal_run do_ev legal evs S" "inv S" "r \<in> holds S"
  shows "r \<in> holds (fold do_ev evs S)"
  using assms(2-4)
proof (induction evs arbitrary: S)
  case (Cons ev evs)
  then have "inv (do_ev ev S)" "r \<in> holds (do_ev ev S)"
    using keeps_inv held_survives [OF _ _ assms(1)] by auto
  with Cons show ?case by simp
qed simp

end

end
