(* ===== verification/V0_Properties.thy ===== *)
theory V0_Properties
  imports V0_System RL_Abstract_Lock
begin

text \<open>
  What the v0 lock promises: the abstract lock, a set of held ranges that grants a range when
  it meets no held one; the code as an implementation of it under every interleaving; and the
  properties a caller relies on.
\<close>

subsection \<open>Held ranges\<close>

text \<open>A range is held from the insertion of its node until the mark of the node's lowest cell.\<close>

definition held :: "'t crl \<Rightarrow> addr set" where
  "held \<sigma> = {a. linked \<sigma> a \<and> \<not> marked0 \<sigma> a \<and> a \<noteq> head \<sigma> \<and> a \<noteq> tail \<sigma>}"

definition held_ranges :: "'t crl \<Rightarrow> 't range set" where
  "held_ranges \<sigma> = rg \<sigma> ` held \<sigma>"

lemma held_on_chain: "a \<in> held \<sigma> \<Longrightarrow> on_chain \<sigma> a"
  by (auto simp: held_def linked_def)

lemma nx_good:
  assumes "heap_inv M \<sigma>" "nx \<sigma> a = Some b"
  shows "b \<noteq> head \<sigma> \<and> tall \<sigma> b 0 \<and> (a \<noteq> head \<sigma> \<longrightarrow> closed_before (rg \<sigma> a) (rg \<sigma> b))"
proof -
  from assms(2) obtain c where c: "read_next \<sigma> (Some a) 0 = Some c" "fst c = Some b"
    by (auto simp: nx_def split: option.splits)
  then have "a \<noteq> tail \<sigma>" using heap_inv_sentinels(5) [OF assms(1), of 0] by auto
  from heap_inv_cell [OF assms(1) this c(1)] c(2) show ?thesis
    by (simp add: good_cell_def good_ref_def)
qed

lemma chain_ordered:
  assumes "heap_inv M \<sigma>"
  shows "ordered_links closed_valid closed_before (nx \<sigma>) (rg \<sigma>) (head \<sigma>)"
  unfolding ordered_links_def
proof (intro allI impI)
  fix a b assume "nx \<sigma> a = Some b"
  from nx_good [OF assms this] show "b \<noteq> head \<sigma> \<and> closed_valid (rg \<sigma> b) \<and>
      (a \<noteq> head \<sigma> \<longrightarrow> closed_before (rg \<sigma> a) (rg \<sigma> b))"
    using heap_inv_node [OF assms]
    by (auto simp: tall_iff closed_valid_def rg_def well_formed_node_def)
qed

lemma held_disjoint:
  assumes "heap_inv M \<sigma>" "a \<in> held \<sigma>" "b \<in> held \<sigma>" "a \<noteq> b"
  shows "\<not> closed_overlaps (rg \<sigma> a) (rg \<sigma> b)"
  using closed.chain_disjoint [OF chain_ordered [OF assms(1)]] assms(2-4) held_on_chain
  by (auto simp: held_def on_chain_def)

lemma chain_tall:
  assumes inv: "heap_inv M \<sigma>" and "on_chain \<sigma> a"
  shows "tall \<sigma> a 0"
  using assms(2) [unfolded on_chain_def]
proof (induction rule: reach_induct)
  case refl
  then show ?case using heap_inv_sentinels(4) [OF inv] by simp
next
  case (step x y)
  then show ?case using nx_good [OF inv] by blast
qed

lemma held_tall: "heap_inv M \<sigma> \<Longrightarrow> a \<in> held \<sigma> \<Longrightarrow> tall \<sigma> a 0"
  using chain_tall held_on_chain by blast

subsection \<open>Which steps change a lowest mark\<close>

lemma cas_unmarked_marked0:
  assumes "cas_next \<sigma> p k exp new False False = Some (ok, \<sigma>')"
  shows "marked0 \<sigma>' = marked0 \<sigma>"
proof -
  from assms obtain a where a: "p = Some a"
    by (auto simp: cas_next_def read_next_def deref_def bind_eq_Some_conv)
  from assms [unfolded a] show ?thesis
  proof (cases rule: cas_next_cases)
    case 1
    then show ?thesis
      using nx_marked0_frame(2) [OF 1(3)] by (auto simp: fun_eq_iff marked0_def)
  qed simp
qed

lemma attemptMark_upper_marked0:
  assumes "attemptMark_next \<sigma> p k exp True = Some (ok, \<sigma>')" "k \<noteq> 0"
  shows "marked0 \<sigma>' = marked0 \<sigma>"
proof -
  from assms(1) obtain a where a: "p = Some a"
    by (auto simp: attemptMark_next_def read_next_def deref_def bind_eq_Some_conv)
  from assms(1) [unfolded a] show ?thesis
  proof (cases rule: attemptMark_next_cases)
    case 1
    then show ?thesis
      using nx_marked0_frame(2) [OF 1(2)] assms(2) by (auto simp: fun_eq_iff)
  qed simp
qed

lemma count_marked0 [simp]: "marked0 (\<sigma>\<lparr>elementsCount := x\<rparr>) = marked0 \<sigma>"
  by (simp add: marked0_def read_next_def deref_def fun_eq_iff)

lemma find_step_marked0:
  assumes "find_step wg ag arrays K M f \<sigma> l = Some (\<sigma>', l')"
  shows "marked0 \<sigma>' = marked0 \<sigma>"
  using assms
  by (cases f) (auto simp: bind_eq_Some_conv cas_unmarked_marked0 split: if_splits)

lemma alloc_marked0:
  assumes "heap_inv M \<sigma>"
  shows "marked0 (\<sigma>\<lparr>heap := (heap \<sigma>)(brk \<sigma> \<mapsto> build_node l), brk := brk \<sigma> + 1\<rparr>) = marked0 \<sigma>"
proof -
  have "heap \<sigma> (brk \<sigma>) = None" using assms by (auto simp: heap_inv_def)
  then show ?thesis by (auto simp: marked0_def read_next_def fun_eq_iff)
qed

lemma code_step_marked0:
  assumes inv: "heap_inv M \<sigma>" and ti: "thread_inv M \<sigma> l" and pc: "pc l \<noteq> RelCas0"
    and s: "code_step M \<sigma> l = Some (\<sigma>', l')"
  shows "marked0 \<sigma>' = marked0 \<sigma>"
proof (cases "pc l")
  case (FindInsert relink f)
  with s show ?thesis
    by (auto simp: code_step_def findInsert_step_def bind_eq_Some_conv find_step_marked0
        split: if_splits)
next
  case (FindExact f)
  with s show ?thesis
    by (auto simp: code_step_def findExact_step_def bind_eq_Some_conv find_step_marked0
        split: if_splits)
next
  case (FindDelete f)
  with s show ?thesis
    by (auto simp: code_step_def findDelete_step_def find_step_marked0 split: if_splits)
next
  case TryAlloc
  with s alloc_marked0 [OF inv] show ?thesis by (auto simp: code_step_def)
next
  case RelMarkWhile
  with ti have "mark_level l \<noteq> 0" by (auto simp: thread_inv_def)
  with RelMarkWhile s show ?thesis
    by (auto simp: code_step_def bind_eq_Some_conv attemptMark_upper_marked0 split: if_splits)
qed (use s pc in \<open>auto simp: code_step_def bind_eq_Some_conv cas_unmarked_marked0
      split: if_splits\<close>)

subsection \<open>The code implements the abstract lock\<close>

lemma held_rg_stable:
  "heap_inv M \<sigma> \<Longrightarrow> evolves X \<sigma> \<sigma>' \<Longrightarrow> a \<in> held \<sigma> \<Longrightarrow> rg \<sigma>' a = rg \<sigma> a"
  using held_tall rg_stable by blast

text \<open>The held nodes behind a step that inserts at most \<open>X\<close> and marks at most \<open>Y\<close>.\<close>

lemma held_change:
  assumes inv: "heap_inv M \<sigma>" and ev: "evolves X \<sigma> \<sigma>'"
    and X: "\<And>a. linked \<sigma>' a \<longleftrightarrow> linked \<sigma> a \<or> a \<in> X"
    and Y: "\<And>a. marked0 \<sigma>' a \<longleftrightarrow> marked0 \<sigma> a \<or> a \<in> Y"
    and clean: "\<And>a. a \<in> X \<Longrightarrow> \<not> marked0 \<sigma> a \<and> a \<noteq> head \<sigma> \<and> a \<noteq> tail \<sigma>"
  shows "held \<sigma>' = (held \<sigma> \<union> X) - Y"
  using clean evolvesD(1,2) [OF ev] by (auto simp: held_def X Y)

lemma held_ranges_same:
  assumes "heap_inv M \<sigma>" "evolves {} \<sigma> \<sigma>'" "marked0 \<sigma>' = marked0 \<sigma>"
  shows "held \<sigma>' = held \<sigma>" "held_ranges \<sigma>' = held_ranges \<sigma>"
proof -
  have "linked \<sigma>' a \<longleftrightarrow> linked \<sigma> a" for a
    using evolvesD(4,8) [OF assms(2)] by blast
  then show *: "held \<sigma>' = held \<sigma>"
    using held_change [OF assms(1,2), of "{}"] assms(3) by simp
  show "held_ranges \<sigma>' = held_ranges \<sigma>"
    using held_rg_stable [OF assms(1,2)] by (force simp: held_ranges_def *)
qed

lemma held_inj:
  assumes inv: "heap_inv M \<sigma>"
  shows "inj_on (rg \<sigma>) (held \<sigma>)"
proof (rule inj_onI)
  fix a b assume a: "a \<in> held \<sigma>" and b: "b \<in> held \<sigma>" and eq: "rg \<sigma> a = rg \<sigma> b"
  from held_tall [OF inv a] obtain n where n: "heap \<sigma> a = Some n" by (auto simp: tall_iff)
  with heap_inv_node [OF inv n] have "closed_overlaps (rg \<sigma> a) (rg \<sigma> a)"
    by (simp add: closed_overlaps_def rg_def well_formed_node_def)
  then show "a = b" using held_disjoint [OF inv a b] eq by auto
qed

text \<open>The action of the abstract lock a step of a thread amounts to.\<close>

definition action_of :: "'t locals \<Rightarrow> 't locals \<Rightarrow> 't range action" where
  "action_of l l' =
     (if pc l = TryCas0 \<and> pc l' = TryLink then Acquire (arg_start l, arg_end l)
      else if pc l = RelCas0 \<and> iMarkedIt l' then Release (arg_start l, arg_end l)
      else Silent)"

lemma acquire_step:
  assumes inv: "heap_inv M \<sigma>" and pc: "pc l = TryCas0" and ti: "thread_inv M \<sigma> l"
    and s: "code_step M \<sigma> l = Some (\<sigma>', l')"
  shows "closed_spec (held_ranges \<sigma>) (action_of l l') (held_ranges \<sigma>')"
proof -
  from ti pc obtain n where n: "newNode l = Some n" "\<not> linked \<sigma> n" by (auto simp: thread_inv_def private_node_def)
  from code_step_ok [OF inv ti] s pc n have h: "heap_inv M \<sigma>'" "evolves {n} \<sigma> \<sigma>'" "thread_inv M \<sigma>' l'"
    by (auto simp: step_ok_def claim_defs)
  have mk: "marked0 \<sigma>' = marked0 \<sigma>" using code_step_marked0 [OF inv ti _ s] pc by simp
  from ti pc obtain p where p: "preds l 0 = Some p" by (auto simp: thread_inv_def gap_def)
  from s pc obtain ok where
    cas: "cas_next \<sigma> (Some p) 0 (succs l 0) (Some n) False False = Some (ok, \<sigma>')" and
    l': "l' = (if ok then l\<lparr>link_level := 1, pc := TryLink\<rparr> else l\<lparr>pc := FindInsert False FRetry\<rparr>)"
    by (auto simp: code_step_def bind_eq_Some_conv n(1) p)
  show ?thesis
  proof (cases ok)
    case False
    with cas have "\<sigma>' = \<sigma>" by (auto elim: cas_next_cases)
    with False l' pc show ?thesis by (simp add: action_of_def)
  next
    case True
    with l' h(3) n have pub: "linked \<sigma>' n" "n \<noteq> head \<sigma>'" "n \<noteq> tail \<sigma>'"
        "rg \<sigma>' n = (arg_start l, arg_end l)" and ok: "arg_start l \<le> arg_end l"
      by (auto simp: thread_inv_def published_def legal_args_def)
    have lk: "linked \<sigma>' a \<longleftrightarrow> linked \<sigma> a \<or> a \<in> {n}" for a
      using evolvesD(4,8) [OF h(2)] pub(1) by blast
    have "\<not> marked0 \<sigma> n" using n(2) by (simp add: linked_def)
    then have held: "held \<sigma>' = insert n (held \<sigma>)"
      using held_change [OF inv h(2) lk, of "{}"] mk pub evolvesD(1,2) [OF h(2)] by simp
    have "n \<notin> held \<sigma>" using n(2) by (simp add: held_def)
    then have "\<not> closed_overlaps (rg \<sigma>' n) (rg \<sigma>' a)" if "a \<in> held \<sigma>" for a
      using held_disjoint [OF h(1), of n a] held that by auto
    moreover have rg: "rg \<sigma>' a = rg \<sigma> a" if "a \<in> held \<sigma>" for a
      using held_rg_stable [OF inv h(2) that] .
    ultimately have "\<forall>q\<in>held_ranges \<sigma>. \<not> closed_overlaps (arg_start l, arg_end l) q"
      by (simp add: held_ranges_def pub(4))
    moreover have "rg \<sigma>' ` held \<sigma> = held_ranges \<sigma>"
      unfolding held_ranges_def by (rule image_cong [OF refl]) (rule rg)
    then have "held_ranges \<sigma>' = insert (arg_start l, arg_end l) (held_ranges \<sigma>)"
      by (simp add: held_ranges_def held pub(4))
    moreover have "closed_valid (arg_start l, arg_end l)" using ok by (simp add: closed_valid_def)
    moreover have "action_of l l' = Acquire (arg_start l, arg_end l)"
      using pc l' True by (simp add: action_of_def)
    ultimately show ?thesis by simp
  qed
qed

lemma release_mark_step:
  assumes inv: "heap_inv M \<sigma>" and pc: "pc l = RelCas0" and ti: "thread_inv M \<sigma> l"
    and s: "code_step M \<sigma> l = Some (\<sigma>', l')"
  shows "closed_spec (held_ranges \<sigma>) (action_of l l') (held_ranges \<sigma>')"
proof -
  from ti pc obtain n where n: "nodeToRemove l = Some n" "linked \<sigma> n" "n \<noteq> head \<sigma>" "n \<noteq> tail \<sigma>"
      "rg \<sigma> n = (arg_start l, arg_end l)"
    by (auto simp: thread_inv_def victim_def)
  from code_step_ok [OF inv ti] s pc have h: "evolves {} \<sigma> \<sigma>'"
    by (auto simp: step_ok_def claim_defs)
  from s pc n(1) obtain ok where
    cas: "cas_next \<sigma> (Some n) 0 (succ l) (succ l) False True = Some (ok, \<sigma>')" and
    l': "l' = l\<lparr>iMarkedIt := ok, pc := RelReget0\<rparr>"
    by (auto simp: code_step_def bind_eq_Some_conv)
  from cas show ?thesis
  proof (cases rule: cas_next_cases)
    case 2
    with l' pc show ?thesis by (simp add: action_of_def)
  next
    case 1
    have mk: "marked0 \<sigma>' a \<longleftrightarrow> marked0 \<sigma> a \<or> a \<in> {n}" for a
      using nx_marked0_frame(2) [OF 1(3), of a] 1(2) by (auto simp: marked0_def)
    have lk: "linked \<sigma>' a \<longleftrightarrow> linked \<sigma> a \<or> a \<in> {}" for a
      using evolvesD(4,8) [OF h] by blast
    have held: "held \<sigma>' = held \<sigma> - {n}"
      using held_change [OF inv h lk mk] by simp
    have mem: "n \<in> held \<sigma>" using n 1(2) by (simp add: held_def marked0_def)
    have "held_ranges \<sigma>' = rg \<sigma> ` (held \<sigma> - {n})"
      unfolding held_ranges_def held
      by (rule image_cong [OF refl]) (simp add: held_rg_stable [OF inv h])
    also have "\<dots> = held_ranges \<sigma> - {rg \<sigma> n}"
      using inj_on_image_set_diff [OF held_inj [OF inv], of "held \<sigma>" "{n}"] mem
      by (simp add: held_ranges_def)
    finally have "held_ranges \<sigma>' = held_ranges \<sigma> - {(arg_start l, arg_end l)}" by (simp add: n)
    moreover have "(arg_start l, arg_end l) \<in> held_ranges \<sigma>"
      using mem n(5) unfolding held_ranges_def by force
    moreover have "action_of l l' = Release (arg_start l, arg_end l)"
      using pc l' 1(1) by (simp add: action_of_def)
    ultimately show ?thesis by simp
  qed
qed

lemma step_refines:
  assumes inv: "heap_inv M \<sigma>" and ti: "thread_inv M \<sigma> l" and s: "code_step M \<sigma> l = Some (\<sigma>', l')"
  shows "closed_spec (held_ranges \<sigma>) (action_of l l') (held_ranges \<sigma>')"
proof (cases "pc l = TryCas0 \<or> pc l = RelCas0")
  case True
  then show ?thesis using acquire_step [OF inv _ ti s] release_mark_step [OF inv _ ti s] by blast
next
  case False
  from code_step_ok [OF inv ti] s False have "evolves {} \<sigma> \<sigma>'"
    by (auto simp: step_ok_def claim_defs)
  moreover have "marked0 \<sigma>' = marked0 \<sigma>" using code_step_marked0 [OF inv ti _ s] False by simp
  ultimately have "held_ranges \<sigma>' = held_ranges \<sigma>" by (rule held_ranges_same(2) [OF inv])
  then show ?thesis using False by (simp add: action_of_def)
qed

text \<open>Runs of the code and runs of the abstract lock.\<close>

fun event_action :: "nat \<Rightarrow> ('t::linorder) event \<Rightarrow> 't system \<Rightarrow> 't range action" where
  "event_action M (Step t) S =
     action_of (threads S t) (snd (step M (lock S) (threads S t)))"
| "event_action M (CallTry t s e rnd) S = Silent"
| "event_action M (CallRelease t s e) S = Silent"

definition run_actions :: "nat \<Rightarrow> ('t::linorder) event list \<Rightarrow> 't system \<Rightarrow> 't range action list" where
  "run_actions M = actions_of (do_event M) (event_action M)"

lemma run_events_append: "run_events M (evs @ [ev]) S = do_event M ev (run_events M evs S)"
  by (simp add: run_events_def)

lemma system_invD:
  assumes "system_inv M S"
  shows "heap_inv M (lock S)" "thread_inv M (lock S) (threads S t)"
    and "t \<noteq> u \<Longrightarrow> claimed (threads S t) \<inter> claimed (threads S u) = {}"
  using assms by (simp_all add: system_inv_def)

lemma step_defined:
  assumes "system_inv M S"
  obtains \<sigma>' l' where "code_step M (lock S) (threads S t) = Some (\<sigma>', l')"
    "step M (lock S) (threads S t) = (\<sigma>', l')"
  using code_step_ok [OF system_invD(1,2) [OF assms], of t] by (auto simp: step_ok_def step_def)

lemma event_refines:
  assumes inv: "system_inv M S"
  shows "closed_spec (held_ranges (lock S)) (event_action M ev S)
    (held_ranges (lock (do_event M ev S)))"
proof (cases ev)
  case (Step t)
  obtain \<sigma>' l' where s: "code_step M (lock S) (threads S t) = Some (\<sigma>', l')"
    "step M (lock S) (threads S t) = (\<sigma>', l')"
    by (rule step_defined [OF inv])
  from step_refines [OF system_invD(1,2) [OF inv] s(1)] s(2) Step show ?thesis by simp
qed simp_all

lemma init_held_ranges: "held_ranges (lock (init_system M)) = {}"
proof -
  let ?s = "ConcurrentRangeLock M :: 'a crl"
  have rd: "read_next ?s (Some a) 0 =
      (if a = 0 then Some (Some 1, False) else if a = 1 then Some (None, False) else None)" for a
    by (simp add: ConcurrentRangeLock_def read_next_def initializeHead_def initialize_def
        cell_store_def cell_null_def)
  have hd: "head ?s = 0" "tail ?s = 1" by (simp_all add: ConcurrentRangeLock_def)
  have "a = 0 \<or> a = 1" if "on_chain ?s a" for a
    using that [unfolded on_chain_def]
    by (induction rule: reach_induct) (auto simp: nx_def rd hd split: if_splits)
  then have "held ?s = {}"
    by (auto simp: held_def linked_def hd)
  then show ?thesis by (simp add: held_ranges_def init_system_def)
qed

interpretation v0: lock_implementation closed_valid closed_before closed_overlaps "init_system M" "do_event M"
    "\<lambda>ev S. legal_event ev" "system_inv M" "\<lambda>S. held_ranges (lock S)" "event_action M" for M
  by unfold_locales
    (auto simp: init_system_inv init_held_ranges event_keeps_system_inv event_refines)

lemma held_ranges_of_run:
  "list_all legal_event evs \<Longrightarrow> held_ranges (lock (run_events M evs (init_system M))) =
    fold apply_action (run_actions M evs (init_system M)) {}"
  unfolding run_actions_def run_events_def by (rule v0.holds_of_run [OF legal_run_constI])

lemma run_reachable: "list_all legal_event evs \<Longrightarrow> reachable M (run_events M evs (init_system M))"
  by (rule reachable_run) (auto intro: reachable.start)

lemma granted_node:
  assumes "system_inv M S" "pc (threads S t) = TryReturned True"
  obtains a where "newNode (threads S t) = Some a" "linked (lock S) a" "a \<noteq> head (lock S)"
    "a \<noteq> tail (lock S)" "rg (lock S) a = (arg_start (threads S t), arg_end (threads S t))"
    "bot < arg_start (threads S t)" "arg_end (threads S t) < top"
  using system_invD(2) [OF assms(1), of t] assms(2) by (auto simp: thread_inv_def published_def)

text \<open>A range \<open>[s, s]\<close> is held for ever: only the mark of \<open>releaseLock\<close> ends a grant.\<close>

lemma release_action_proper:
  assumes "system_inv M S" "event_action M ev S = Release r"
  shows "fst r < snd r"
proof (cases ev)
  case (Step t)
  with assms(2) have "pc (threads S t) = RelCas0"
    "r = (arg_start (threads S t), arg_end (threads S t))"
    by (auto simp: action_of_def split: if_splits)
  then show ?thesis
    using system_invD(2) [OF assms(1), of t] by (simp add: thread_inv_def victim_def)
qed (use assms in simp_all)

subsection \<open>Properties\<close>

text \<open>
  C1. Mutual exclusion of the v0 lock under every interleaving of the atomic accesses of any
  number of threads: two threads whose \<open>tryLock\<close> returned true and whose nodes are not deleted
  hold ranges that do not overlap.
\<close>
theorem v0_mutual_exclusion:
  assumes "reachable M S" "t \<noteq> u"
    and "pc (threads S t) = TryReturned True" "pc (threads S u) = TryReturned True"
    and "newNode (threads S t) = Some a" "\<not> marked0 (lock S) a"
    and "newNode (threads S u) = Some b" "\<not> marked0 (lock S) b"
  shows "\<not> closed_overlaps (arg_start (threads S t), arg_end (threads S t))
    (arg_start (threads S u), arg_end (threads S u))"
proof -
  note inv = reachable_system_inv [OF assms(1)]
  have "a \<in> held (lock S)" "b \<in> held (lock S)"
    "rg (lock S) a = (arg_start (threads S t), arg_end (threads S t))"
    "rg (lock S) b = (arg_start (threads S u), arg_end (threads S u))"
    using granted_node [OF inv assms(3)] granted_node [OF inv assms(4)] assms(5-8)
    by (auto simp: held_def)
  moreover have "a \<noteq> b"
    using system_invD(3) [OF inv assms(2)] assms(3-5,7) by (auto simp: claimed_def)
  ultimately show ?thesis using held_disjoint [OF system_invD(1) [OF inv]] by metis
qed

theorem v0_mutual_exclusion_witness:
  "\<not> closed_overlaps (5, 10) (11, 20 :: 16 word)"
proof -
  let ?evs = "CallTry 0 5 (10 :: 16 word) (\<lambda>_. 1) # CallTry 1 11 20 (\<lambda>_. 0) #
    concat (replicate 20 [Step 0, Step 1])"
  let ?S = "run_events 1 ?evs (init_system 1)"
  have "list_all legal_event ?evs" by code_simp
  then have r: "reachable 1 ?S" by (rule run_reachable)
  have p: "pc (threads ?S 0) = TryReturned True" "pc (threads ?S 1) = TryReturned True"
    "newNode (threads ?S 0) = Some 2" "newNode (threads ?S 1) = Some 4"
    "\<not> marked0 (lock ?S) 2" "\<not> marked0 (lock ?S) 4"
    by code_simp+
  have "arg_start (threads ?S 0) = 5" "arg_end (threads ?S 0) = 10"
    "arg_start (threads ?S 1) = 11" "arg_end (threads ?S 1) = 20"
    by code_simp+
  with v0_mutual_exclusion [OF r zero_neq_one p(1,2,3,5,4,6)] show ?thesis
    by (simp only: not_False_eq_True)
qed

text \<open>
  C2. The lock implements the abstract lock: from the constructor on, whatever the calls and the
  interleaving, the successful insertions and marks of a run are, in their order, a run of the
  abstract lock, which acquires only ranges that overlap no held range and releases only ranges
  that are held, and the abstract lock ends with the ranges of the undeleted inserted nodes.
\<close>
theorem v0_refines_abstract_lock:
  assumes "list_all legal_event evs"
  shows "closed_run {} (run_actions M evs (init_system M))
    (held_ranges (lock (run_events M evs (init_system M))))"
  unfolding run_actions_def run_events_def by (rule v0.init_run_refines [OF legal_run_constI [OF assms]])

theorem v0_refines_abstract_lock_witness:
  "held_ranges (lock (run_events 1 (CallTry 0 5 (10 :: 16 word) (\<lambda>_. 1) # replicate 12 (Step 0))
    (init_system 1))) = {(5, 10)}"
proof -
  let ?evs = "CallTry 0 5 (10 :: 16 word) (\<lambda>_. 1) # replicate 12 (Step 0)"
  have "list_all legal_event ?evs" by code_simp
  note run = v0_refines_abstract_lock [OF this, of 1]
  have acts: "run_actions 1 ?evs (init_system 1) =
      [Silent, Silent, Silent, Silent, Silent, Silent, Silent, Silent,
       Acquire (5, 10), Silent, Silent, Silent, Silent]"
    by code_simp
  from spec_run_final [OF run, unfolded acts] show ?thesis by simp
qed

text \<open>
  C3. No operation of the v0 lock follows a null pointer or leaves the bounds of a node's array
  of links, under any interleaving, when its callers keep to ranges that are not reversed and do
  not start at the largest key.
\<close>
theorem v0_never_crashes:
  assumes "reachable M S"
  shows "pc (threads S t) \<noteq> Crashed"
  using system_invD(2) [OF reachable_system_inv [OF assms], of t] by (auto simp: thread_inv_def)

theorem v0_never_crashes_witness:
  "pc (threads (run_events 1 (CallRelease 0 5 (10 :: 16 word) # replicate 9 (Step 0))
    (init_system 1)) 0) \<noteq> Crashed"
proof -
  let ?evs = "CallRelease 0 5 (10 :: 16 word) # replicate 9 (Step 0)"
  have "list_all legal_event ?evs" by code_simp
  then have "reachable 1 (run_events 1 ?evs (init_system 1))"
    by (rule reachable_run) (rule reachable.start)
  then show ?thesis by (rule v0_never_crashes)
qed

text \<open>
  C4. A granted range stays held until a \<open>releaseLock\<close> of exactly these bounds marks its node:
  whatever else happens (a conflicting \<open>tryLock\<close>, a search that cuts nodes out, a release of
  another range), a held range is held behind the event.
\<close>
theorem v0_only_matching_release:
  assumes "reachable M S" "r \<in> held_ranges (lock S)"
    and "r \<notin> held_ranges (lock (do_event M ev S))"
  shows "\<exists>t. ev = Step t \<and> pc (threads S t) = RelCas0 \<and>
    (arg_start (threads S t), arg_end (threads S t)) = r"
proof -
  have "event_action M ev S = Release r"
    using v0.held_survives [OF reachable_system_inv [OF assms(1)] assms(2)] assms(3) by blast
  then show ?thesis by (cases ev) (auto simp: action_of_def split: if_splits)
qed

theorem v0_only_matching_release_witness:
  "\<exists>t. Step 1 = Step t \<and> pc (threads (run_events 0 (CallTry 0 5 (10 :: 16 word) (\<lambda>_. 0) #
      replicate 8 (Step 0) @ CallRelease 1 5 10 # replicate 6 (Step 1)) (init_system 0)) t) = RelCas0"
proof -
  let ?evs = "CallTry 0 5 (10 :: 16 word) (\<lambda>_. 0) # replicate 8 (Step 0) @
    CallRelease 1 5 10 # replicate 6 (Step 1)"
  let ?S = "run_events 0 ?evs (init_system 0)"
  have legal: "list_all legal_event ?evs" "list_all legal_event (?evs @ [Step 1])" by code_simp+
  have "(5, 10) \<in> fold apply_action (run_actions 0 ?evs (init_system 0)) {}"
    "(5, 10) \<notin> fold apply_action (run_actions 0 (?evs @ [Step 1]) (init_system 0)) {}"
    by code_simp+
  then have "(5, 10) \<in> held_ranges (lock ?S)"
    "(5, 10) \<notin> held_ranges (lock (do_event 0 (Step 1) ?S))"
    unfolding held_ranges_of_run [OF legal(1), of 0]
      held_ranges_of_run [OF legal(2), of 0, unfolded run_events_append] .
  from v0_only_matching_release [OF run_reachable [OF legal(1)] this] show ?thesis by blast
qed

text \<open>
  A refusal has a cause: when \<open>tryLock\<close> returns false, its range overlaps the range of a node
  that was inserted before (and may be deleted by now), or touches the least or greatest key,
  where the sentinels sit.
\<close>
theorem v0_refusal_has_cause:
  assumes "reachable M S" "pc (threads S t) = TryReturned False"
  shows "\<exists>a. linked (lock S) a \<and>
    closed_overlaps (arg_start (threads S t), arg_end (threads S t)) (rg (lock S) a)"
  using system_invD(2) [OF reachable_system_inv [OF assms(1)], of t] assms(2)
  by (auto simp: thread_inv_def refused_def)

theorem v0_refusal_has_cause_witness:
  "\<exists>a. linked (lock (run_events 1 (CallTry 0 0 (5 :: 16 word) (\<lambda>_. 0) # replicate 7 (Step 0))
    (init_system 1))) a"
proof -
  let ?evs = "CallTry 0 0 (5 :: 16 word) (\<lambda>_. 0) # replicate 7 (Step 0)"
  have "list_all legal_event ?evs" by code_simp
  then have "reachable 1 (run_events 1 ?evs (init_system 1))"
    by (rule reachable_run) (rule reachable.start)
  moreover have "pc (threads (run_events 1 ?evs (init_system 1)) 0) = TryReturned False"
    by code_simp
  ultimately show ?thesis using v0_refusal_has_cause [of 1 _ 0] by blast
qed

text \<open>
  \<open>tryLock\<close> never grants a range that touches the limits of the key type: a granted range
  starts above \<open>numeric_limits<T>::min()\<close> and ends below \<open>numeric_limits<T>::max()\<close>, because the
  sentinels occupy these keys.
\<close>
theorem v0_limits_never_granted:
  assumes "reachable M S" "pc (threads S t) = TryReturned True"
  shows "bot < arg_start (threads S t) \<and> arg_end (threads S t) < top"
  using granted_node [OF reachable_system_inv [OF assms(1)] assms(2)] by blast

theorem v0_limits_never_granted_witness:
  "0 < (5 :: 16 word) \<and> (10 :: 16 word) < 0xFFFF"
proof -
  let ?evs = "CallTry 0 5 (10 :: 16 word) (\<lambda>_. 1) # replicate 12 (Step 0)"
  let ?S = "run_events 1 ?evs (init_system 1)"
  have "list_all legal_event ?evs" by code_simp
  then have "reachable 1 ?S" by (rule reachable_run) (rule reachable.start)
  moreover have "pc (threads ?S 0) = TryReturned True" by code_simp
  ultimately have "bot < arg_start (threads ?S 0) \<and> arg_end (threads ?S 0) < top"
    by (rule v0_limits_never_granted)
  moreover have "arg_start (threads ?S 0) = 5" "arg_end (threads ?S 0) = 10" by code_simp+
  ultimately show ?thesis by (simp add: top_word_eq bot_word_eq)
qed

text \<open>
  C6. A single-point range cannot be given back: once \<open>[s, s]\<close> is held it stays held through
  every later run, because \<open>findExact\<close> moves past a node with \<open>start >= curr->getEnd()\<close>.
\<close>
theorem v0_point_range_never_released:
  assumes "reachable M S" "(s, s) \<in> held_ranges (lock S)" "list_all legal_event evs"
  shows "(s, s) \<in> held_ranges (lock (run_events M evs S))"
  unfolding run_events_def
proof (rule v0.never_released [OF _ legal_run_constI [OF assms(3)] reachable_system_inv [OF assms(1)] assms(2)])
  show "event_action M ev S \<noteq> Release (s, s)" if "system_inv M S" for S :: "'a system" and ev
    using release_action_proper [OF that, of ev "(s, s)"] by auto
qed

theorem v0_point_range_never_released_witness:
  "(7, 7) \<in> held_ranges (lock (run_events 0 (CallRelease 0 7 7 # replicate 30 (Step 0))
    (run_events 0 (CallTry 0 7 (7 :: 16 word) (\<lambda>_. 0) # replicate 12 (Step 0)) (init_system 0))))"
proof -
  let ?evs = "CallTry 0 7 (7 :: 16 word) (\<lambda>_. 0) # replicate 12 (Step 0)"
  have legal: "list_all legal_event ?evs"
    "list_all legal_event (CallRelease 0 (7 :: 16 word) 7 # replicate 30 (Step 0))"
    by code_simp+
  have "(7, 7) \<in> fold apply_action (run_actions 0 ?evs (init_system 0)) {}" by code_simp
  then have "(7, 7) \<in> held_ranges (lock (run_events 0 ?evs (init_system 0)))"
    unfolding held_ranges_of_run [OF legal(1)] .
  from v0_point_range_never_released [OF run_reachable [OF legal(1)] this legal(2)] show ?thesis .
qed

end
