(* ===== verification/V0_Release.thy ===== *)
theory V0_Release
  imports V0_Properties
begin

text \<open>
  A held range can be released: the search of \<open>releaseLock\<close> finds its node whatever the other
  threads do meanwhile. Two facts carry the proof: a held node that lies ahead of a node stays ahead
  of it (\<open>flows\<close>), even when that node is deleted and cut out, and the cells of a node are marked
  from the top down, so a node the search passes on an upper level was on the chain when it did.
\<close>

subsection \<open>What lies ahead stays ahead\<close>

lemma reach_Cons: "f a = Some b \<Longrightarrow> reach f b c \<Longrightarrow> reach f a c"
  unfolding reach_def by (rule converse_rtranclp_into_rtranclp)

lemma reach_next: "reach f a b \<Longrightarrow> a \<noteq> b \<Longrightarrow> f a = Some c \<Longrightarrow> reach f c b"
  unfolding reach_def by (auto elim: converse_rtranclpE)

lemma reach_first: "reach f a b \<Longrightarrow> a \<noteq> b \<Longrightarrow> \<exists>d. f a = Some d \<and> reach f d b"
  unfolding reach_def by (auto elim: converse_rtranclpE)

lemma reach_skip:
  assumes "reach f p b" "f a = Some c" "b \<noteq> c"
  shows "reach (f(a := f c)) p b"
  using assms(1) [unfolded reach_def]
proof (induction rule: converse_rtranclp_induct)
  case (step p q)
  note IH = step.IH [folded reach_def]
  show ?case
  proof (cases "p = a \<and> c \<noteq> a")
    case True
    then have "q = c" using step.hyps assms(2) by simp
    then obtain d where d: "(f(a := f c)) c = Some d" "reach (f(a := f c)) d b"
      using reach_first [OF IH] assms(3) by blast
    then have "(f(a := f c)) p = Some d" using True by simp
    then show ?thesis using d(2) by (rule reach_Cons)
  next
    case False
    then have "(f(a := f c)) p = Some q" using step.hyps assms(2) by auto
    then show ?thesis using IH by (rule reach_Cons)
  qed
qed (simp add: reach_def)

lemma reach_put:
  assumes "reach f p b" "f n = f a" "n \<noteq> a"
  shows "reach (f(a := Some n)) p b"
  using assms(1) [unfolded reach_def]
proof (induction rule: converse_rtranclp_induct)
  case (step p q)
  note IH = step.IH [folded reach_def]
  show ?case
  proof (cases "p = a")
    case True
    then have "(f(a := Some n)) n = Some q" using step.hyps assms(2,3) by simp
    then have "reach (f(a := Some n)) n b" using IH by (rule reach_Cons)
    moreover have "(f(a := Some n)) p = Some n" using True by simp
    ultimately show ?thesis by (rule reach_Cons [rotated])
  next
    case False
    then have "(f(a := Some n)) p = Some q" using step.hyps by simp
    then show ?thesis using IH by (rule reach_Cons)
  qed
qed (simp add: reach_def)

definition flows :: "'t crl \<Rightarrow> 't crl \<Rightarrow> bool" where
  "flows \<sigma> \<sigma>' \<longleftrightarrow> (\<forall>p b. reach (nx \<sigma>) p b \<and> (\<not> marked0 \<sigma> b \<or> on_chain \<sigma>' b) \<longrightarrow> reach (nx \<sigma>') p b) \<and>
     (\<forall>b. on_chain \<sigma>' b \<and> marked0 \<sigma> b \<longrightarrow> on_chain \<sigma> b)"

lemma flowsD:
  assumes "flows \<sigma> \<sigma>'"
  shows "reach (nx \<sigma>) p b \<Longrightarrow> \<not> marked0 \<sigma> b \<or> on_chain \<sigma>' b \<Longrightarrow> reach (nx \<sigma>') p b"
    and "on_chain \<sigma>' b \<Longrightarrow> marked0 \<sigma> b \<Longrightarrow> on_chain \<sigma> b"
  using assms unfolding flows_def by blast+

lemma flows_same: "nx \<sigma>' = nx \<sigma> \<Longrightarrow> head \<sigma>' = head \<sigma> \<Longrightarrow> flows \<sigma> \<sigma>'"
  by (simp add: flows_def on_chain_def)

lemma flows_refl [simp]: "flows \<sigma> \<sigma>"
  by (simp add: flows_def)

lemma flows_count [simp]: "flows \<sigma> (\<sigma>\<lparr>elementsCount := x\<rparr>)"
  by (rule flows_same) (simp_all add: nx_def read_next_def deref_def fun_eq_iff)

lemma reach_skip_back:
  assumes "reach (f(a := f c)) r b" "f a = Some c"
  shows "reach f r b"
  using reach_cut_out(2) [OF _ assms(2) assms(1)] reach_extend [of f r a "f c" b] assms(1) by blast

lemma reach_put_back:
  assumes "reach (f(a := Some n)) r b" "f n = f a" "n \<noteq> a"
  shows "reach f r b \<or> b = n"
  using reach_insert_new [OF _ assms(3,2), of r b] reach_extend [of f r a "Some n" b] assms(1) by blast

lemma cas_flows:
  assumes cas: "cas_next \<sigma> (Some a) k exp new False m = Some (ok, \<sigma>')"
    and side: "k = 0 \<Longrightarrow> new = exp \<or> (\<exists>c. exp = Some c \<and> marked0 \<sigma> c \<and> nx \<sigma> c = new \<and> (ok \<longrightarrow> \<not> on_chain \<sigma>' c)) \<or>
      (\<exists>n. new = Some n \<and> nx \<sigma> n = exp \<and> n \<noteq> a \<and> \<not> marked0 \<sigma> n)"
  shows "flows \<sigma> \<sigma>'"
  using cas
proof (cases rule: cas_next_cases)
  case 1
  note n = nx_marked0_frame(1) [OF 1(3)] and hd = write_next_frame(1) [OF 1(3)]
  show ?thesis
  proof (cases "k = 0")
    case True
    have old: "nx \<sigma> a = exp" using 1(2) True by (simp add: nx_def)
    have new: "nx \<sigma>' = (nx \<sigma>)(a := new)" using n True by simp
    from side [OF True] 1(1) consider "new = exp" | c where "exp = Some c" "marked0 \<sigma> c" "nx \<sigma> c = new" "\<not> on_chain \<sigma>' c"
      | n where "new = Some n" "nx \<sigma> n = exp" "n \<noteq> a" "\<not> marked0 \<sigma> n" by blast
    then show ?thesis
    proof cases
      case 1
      then show ?thesis using new old hd by (intro flows_same) (simp_all add: fun_upd_idem)
    next
      case 2
      then have new: "nx \<sigma>' = (nx \<sigma>)(a := nx \<sigma> c)" and old: "nx \<sigma> a = Some c" using new old by simp_all
      have "on_chain \<sigma> b" if "on_chain \<sigma>' b" for b
        using reach_skip_back [of "nx \<sigma>" a c "head \<sigma>" b] old that unfolding on_chain_def new hd by blast
      moreover have "reach (nx \<sigma>') p b" if "reach (nx \<sigma>) p b" "\<not> marked0 \<sigma> b \<or> on_chain \<sigma>' b" for p b
        using reach_skip [OF that(1), of a c] old that(2) 2(2,4) unfolding new by blast
      ultimately show ?thesis unfolding flows_def by blast
    next
      case 3
      then have new: "nx \<sigma>' = (nx \<sigma>)(a := Some n)" and old: "nx \<sigma> n = nx \<sigma> a" using new old by simp_all
      have "on_chain \<sigma> b" if "on_chain \<sigma>' b" "marked0 \<sigma> b" for b
        using reach_put_back [of "nx \<sigma>" a n "head \<sigma>" b] old 3(3) that 3(4) unfolding on_chain_def new hd by blast
      moreover have "reach (nx \<sigma>') p b" if "reach (nx \<sigma>) p b" for p b
        using reach_put [OF that old 3(3)] unfolding new .
      ultimately show ?thesis unfolding flows_def by blast
    qed
  next
    case False
    then show ?thesis using n hd by (intro flows_same) simp_all
  qed
qed simp

text \<open>A node that is cut out leaves the chain: two nodes on it have not the same successor.\<close>

lemma chain_inj:
  assumes inv: "heap_inv M \<sigma>" and ch: "on_chain \<sigma> a" "on_chain \<sigma> b" and q: "nx \<sigma> a = Some q" "nx \<sigma> b = Some q"
  shows "a = b"
proof (rule ccontr)
  assume ne: "a \<noteq> b"
  note ord = chain_ordered [OF inv]
  have one: False if r: "reach (nx \<sigma>) x y" "x \<noteq> y" "nx \<sigma> x = Some q" "nx \<sigma> y = Some q" for x y
  proof -
    have qy: "reach (nx \<sigma>) q y" by (rule reach_next [OF r(1-3)])
    have yq: "reach (nx \<sigma>) y q" using reach_Cons [of "nx \<sigma>" y q q] r(4) by (simp add: reach_def)
    have qh: "q \<noteq> head \<sigma>" "closed_valid (rg \<sigma> q)" "y \<noteq> head \<sigma> \<Longrightarrow> closed_before (rg \<sigma> y) (rg \<sigma> q)"
      using ord r(4) by (auto simp: ordered_links_def)
    have "\<not> closed_before x x" if "closed_valid x" for x :: "'a range" using that by (auto simp: closed_before_def closed_valid_def)
    from closed.chain_acyclic [OF ord this qy yq qh(1)] have "q = y" .
    with qh show False by (auto simp: closed_before_def closed_valid_def)
  qed
  from reach_linear [OF ch [unfolded on_chain_def]] consider "reach (nx \<sigma>) a b" | "reach (nx \<sigma>) b a" by blast
  with one [of a b] one [of b a] ne q show False by metis
qed

lemma snip_leaves:
  assumes inv: "heap_inv M \<sigma>" and lv: "level l \<le> M" and p: "pred_ok \<sigma> l" and c: "succ_ok \<sigma> l" and m: "marked l"
    and cas: "cas_next \<sigma> (pred l) (level l) (curr l) (succ l) False False = Some (True, \<sigma>')"
    and l0: "level l = 0" and b: "curr l = Some b"
  shows "\<not> on_chain \<sigma>' b"
proof
  assume ch: "on_chain \<sigma>' b"
  from snip_keeps_inv [OF inv lv p c m cas] have inv': "heap_inv M \<sigma>'" and ev: "evolves {} \<sigma> \<sigma>'" by auto
  from p obtain a where a: "pred l = Some a" "linked \<sigma> a" by (auto simp: pred_ok_def)
  from c m b l0 have rd: "read_next \<sigma> (Some b) 0 = Some (succ l, True)" by (auto simp: succ_ok_def)
  from cas a b l0 have "read_next \<sigma> (Some a) 0 = Some (Some b, False)" and w: "write_next \<sigma> (Some a) 0 (succ l, False) = Some \<sigma>'"
    by (auto elim: cas_next_cases)
  note fr = nx_marked0_frame [OF w]
  have "\<not> marked0 \<sigma>' a" using fr(2) [of a] by simp
  with evolvesD(4) [OF ev a(2)] have "on_chain \<sigma>' a" by (simp add: linked_def)
  moreover have "nx \<sigma>' a = succ l" using fr(1) by simp
  moreover have "nx \<sigma>' b = succ l" using evolvesD(5) [OF ev rd] by (simp add: nx_def)
  moreover have "succ l \<noteq> None"
  proof -
    have "b \<noteq> tail \<sigma>" using rd heap_inv_sentinels(5) [OF inv, of 0] by auto
    from heap_inv_cell [OF inv this rd] show ?thesis by (auto simp: good_cell_def split: option.splits)
  qed
  ultimately have "a = b" using chain_inj [OF inv' _ ch] by auto
  with \<open>read_next \<sigma> (Some a) 0 = Some (Some b, False)\<close> rd show False by simp
qed

lemma find_step_flows:
  assumes inv: "heap_inv M \<sigma>" and fi: "find_inv wg ag arrays M f \<sigma> l" and s: "find_step wg ag arrays K M f \<sigma> l = Some (\<sigma>', l')"
  shows "flows \<sigma> \<sigma>'"
proof (cases "f = FMarked \<and> marked l")
  case True
  from True fi have ok: "level l \<le> M" "pred_ok \<sigma> l" "succ_ok \<sigma> l" "marked l" by (simp_all add: find_inv_def)
  from True fi obtain p c where p: "pred l = Some p" and c: "curr l = Some c"
      "read_next \<sigma> (Some c) (level l) = Some (succ l, True)"
    by (auto simp: find_inv_def pred_ok_def succ_ok_def)
  from s True p c(1) obtain ok where
    cas: "cas_next \<sigma> (Some p) (level l) (Some c) (succ l) False False = Some (ok, \<sigma>')"
    by (auto simp: bind_eq_Some_conv)
  show ?thesis
    by (rule cas_flows [OF cas])
      (use c(2) snip_leaves [OF inv ok, of \<sigma>' c] cas p c(1) in \<open>simp add: nx_def marked0_def\<close>)
next
  case False
  then have "\<sigma>' = \<sigma>" using s by (cases f) (auto simp: bind_eq_Some_conv split: if_splits)
  then show ?thesis by simp
qed

lemma alloc_flows:
  assumes inv: "heap_inv M \<sigma>"
  shows "flows \<sigma> (\<sigma>\<lparr>heap := (heap \<sigma>)(brk \<sigma> \<mapsto> n), brk := brk \<sigma> + 1\<rparr>)" (is "flows \<sigma> ?s")
proof -
  have free: "heap \<sigma> (brk \<sigma>) = None" using inv by (auto simp: heap_inv_def)
  have same: "nx ?s a = nx \<sigma> a" if "a \<noteq> brk \<sigma>" for a using that by (simp add: nx_def read_next_def)
  have none: "nx \<sigma> (brk \<sigma>) = None" using free by (simp add: nx_def read_next_def)
  have "reach (nx ?s) p b" if "reach (nx \<sigma>) p b" for p b
    using that [unfolded reach_def]
  proof (induction rule: converse_rtranclp_induct)
    case (step p q)
    then have "nx ?s p = Some q" using same [of p] none by (cases "p = brk \<sigma>") auto
    then show ?case using step.IH by (rule reach_Cons)
  qed simp
  moreover have "on_chain \<sigma> b" if "on_chain ?s b" for b
  proof -
    have "\<not> reach (nx \<sigma>) (head \<sigma>) (brk \<sigma>)"
      using chain_tall [OF inv, of "brk \<sigma>"] free by (auto simp: on_chain_def tall_iff)
    moreover have "nx ?s = (nx \<sigma>)(brk \<sigma> := nx ?s (brk \<sigma>))" using same by (auto simp: fun_eq_iff)
    ultimately show ?thesis using that reach_extend [of "nx \<sigma>" "head \<sigma>" "brk \<sigma>" "nx ?s (brk \<sigma>)" b] by (simp add: on_chain_def)
  qed
  ultimately show ?thesis by (simp add: flows_def)
qed

lemma cas_ref: "cas_next \<sigma> q k exp new em nm = Some r \<Longrightarrow> \<exists>a. q = Some a"
  by (cases q) (auto simp: cas_next_def read_next_def deref_def)

text \<open>Behind the exchange that inserts a node, and in \<open>releaseLock\<close> before \<open>findDelete\<close>, no lowest pointer changes.\<close>

definition searching :: "'t locals \<Rightarrow> bool" where
  "searching l \<longleftrightarrow> (\<exists>relink f. pc l = FindInsert relink f) \<or> (\<exists>f. pc l = FindExact f \<or> pc l = FindDelete f)"

lemma cas_nx_same:
  assumes "cas_next \<sigma> (Some a) k exp new False m = Some (ok, \<sigma>')" "k = 0 \<Longrightarrow> new = exp"
  shows "nx \<sigma>' = nx \<sigma> \<and> head \<sigma>' = head \<sigma>"
  using assms(1)
proof (cases rule: cas_next_cases)
  case 1
  have "(nx \<sigma>)(a := new) = nx \<sigma>" if "k = 0"
    using 1(2) assms(2) that by (auto simp: nx_def fun_eq_iff)
  then show ?thesis using nx_marked0_frame(1) [OF 1(3)] write_next_frame(1) [OF 1(3)] by simp
qed simp

lemma quiet_step_nx:
  assumes ti: "thread_inv M \<sigma> l" and s: "code_step M \<sigma> l = Some (\<sigma>', l')"
    and pc: "\<not> searching l" "pc l \<noteq> TryAlloc" "pc l \<noteq> TryCas0"
  shows "nx \<sigma>' = nx \<sigma> \<and> head \<sigma>' = head \<sigma>"
proof (cases "pc l")
  case TryLink
  show ?thesis
  proof (cases "link_level l \<le> topLevel l")
    case True
    with s TryLink obtain ok where
      cas: "cas_next \<sigma> (preds l (link_level l)) (link_level l) (succs l (link_level l)) (newNode l) False False = Some (ok, \<sigma>')"
      by (auto simp: code_step_def bind_eq_Some_conv)
    from cas_ref [OF cas] obtain p where "preds l (link_level l) = Some p" ..
    from cas [unfolded this] show ?thesis by (rule cas_nx_same) (use ti TryLink in \<open>simp add: thread_inv_def\<close>)
  qed (use s TryLink in \<open>auto simp: code_step_def nx_def read_next_def deref_def\<close>)
next
  case RelMarkWhile
  show ?thesis
  proof (cases "marked l")
    case False
    from ti RelMarkWhile obtain a where a: "nodeToRemove l = Some a" and lv: "mark_level l \<noteq> 0"
      by (auto simp: thread_inv_def victim_def)
    from False s RelMarkWhile obtain ok where
      am: "attemptMark_next \<sigma> (Some a) (mark_level l) (succ l) True = Some (ok, \<sigma>')"
      by (auto simp: code_step_def bind_eq_Some_conv a)
    from am show ?thesis
    proof (cases rule: attemptMark_next_cases)
      case 1
      then show ?thesis using nx_marked0_frame(1) [OF 1(2)] write_next_frame(1) [OF 1(2)] lv by simp
    qed simp
  qed (use s RelMarkWhile in \<open>auto simp: code_step_def\<close>)
next
  case RelCas0
  with s obtain ok where cas: "cas_next \<sigma> (nodeToRemove l) 0 (succ l) (succ l) False True = Some (ok, \<sigma>')"
    by (auto simp: code_step_def bind_eq_Some_conv)
  from cas_ref [OF cas] obtain a where "nodeToRemove l = Some a" ..
  from cas [unfolded this] show ?thesis by (rule cas_nx_same) simp
qed (use s pc in \<open>auto simp: code_step_def searching_def bind_eq_Some_conv split: if_splits\<close>)

lemma code_step_flows:
  assumes inv: "heap_inv M \<sigma>" and ti: "thread_inv M \<sigma> l" and s: "code_step M \<sigma> l = Some (\<sigma>', l')"
  shows "flows \<sigma> \<sigma>'"
proof (cases "pc l")
  case (FindInsert relink f)
  with ti s show ?thesis
    by (auto simp: code_step_def findInsert_step_def thread_inv_def bind_eq_Some_conv split: if_splits
        intro: find_step_flows [OF inv])
next
  case (FindExact f)
  with ti s show ?thesis
    by (auto simp: code_step_def findExact_step_def thread_inv_def bind_eq_Some_conv split: if_splits
        intro: find_step_flows [OF inv])
next
  case (FindDelete f)
  with ti s show ?thesis
    by (auto simp: code_step_def findDelete_step_def thread_inv_def split: if_splits intro: find_step_flows [OF inv])
next
  case TryAlloc
  with s alloc_flows [OF inv] show ?thesis by (auto simp: code_step_def)
next
  case TryCas0
  with ti obtain p n where p: "preds l 0 = Some p" "newNode l = Some n" "\<not> linked \<sigma> n" "heap \<sigma> n = Some (build_node l)"
      "linked \<sigma> p" by (auto simp: thread_inv_def private_node_def arrays_from_def)
  from s TryCas0 p obtain ok where cas: "cas_next \<sigma> (Some p) 0 (succs l 0) (Some n) False False = Some (ok, \<sigma>')"
    by (auto simp: code_step_def bind_eq_Some_conv)
  have "nx \<sigma> n = succs l 0"
    using p(4) by (simp add: nx_def read_next_def build_node_def initialize_def Let_def cell_store_def del: upt_Suc replicate_Suc)
  moreover have "n \<noteq> p" "\<not> marked0 \<sigma> n" using p(3,5) by (auto simp: linked_def)
  ultimately show ?thesis by (intro cas_flows [OF cas]) simp
qed (use quiet_step_nx [OF ti s] flows_same in \<open>auto simp: searching_def\<close>)

subsection \<open>Marks go from the top down\<close>

definition upper_marked :: "'t crl \<Rightarrow> addr \<Rightarrow> nat \<Rightarrow> bool" where
  "upper_marked \<sigma> a j \<longleftrightarrow> (\<forall>k c. j < k \<longrightarrow> read_next \<sigma> (Some a) k = Some c \<longrightarrow> snd c)"

definition top_down :: "'t crl \<Rightarrow> bool" where
  "top_down \<sigma> \<longleftrightarrow> (\<forall>a. marked0 \<sigma> a \<longrightarrow> upper_marked \<sigma> a 0)"

text \<open>What a thread in \<open>releaseLock\<close> has marked.\<close>

definition marking :: "'t crl \<Rightarrow> 't locals \<Rightarrow> bool" where
  "marking \<sigma> l \<longleftrightarrow> (pc l \<in> {RelMark, RelMarkWhile, RelMarkReget, RelCas0, RelReget0} \<longrightarrow>
     (\<exists>n. nodeToRemove l = Some n \<and> upper_marked \<sigma> n (if pc l \<in> {RelCas0, RelReget0} then 0 else mark_level l) \<and>
       (pc l = RelMarkWhile \<and> marked l \<longrightarrow> read_next \<sigma> (Some n) (mark_level l) = Some (succ l, True))))"

lemma upper_marked_stable:
  assumes ev: "evolves X \<sigma> \<sigma>'" and a: "heap \<sigma> a \<noteq> None" and u: "upper_marked \<sigma> a j"
  shows "upper_marked \<sigma>' a j"
  unfolding upper_marked_def
proof (intro allI impI)
  fix k c assume k: "j < k" and c: "read_next \<sigma>' (Some a) k = Some c"
  from a obtain n where n: "heap \<sigma> a = Some n" by auto
  from evolvesD(6) [OF ev n] c have "tall \<sigma> a k" by (auto simp: tall_iff read_next_Some same_node_def n)
  then obtain q m where "read_next \<sigma> (Some a) k = Some (q, m)" by (auto simp: tall_def)
  with u k have "read_next \<sigma> (Some a) k = Some (q, True)" by (auto simp: upper_marked_def)
  from evolvesD(5) [OF ev this] c show "snd c" by simp
qed

lemma marked0_heap: "marked0 \<sigma> a \<Longrightarrow> heap \<sigma> a \<noteq> None"
  by (cases "heap \<sigma> a") (auto simp: marked0_def read_next_def)

lemma top_down_step:
  assumes inv: "heap_inv M \<sigma>" and ti: "thread_inv M \<sigma> l" and s: "code_step M \<sigma> l = Some (\<sigma>', l')"
    and td: "top_down \<sigma>" and mk: "marking \<sigma> l"
  shows "top_down \<sigma>'"
  unfolding top_down_def
proof (intro allI impI)
  fix a assume a: "marked0 \<sigma>' a"
  from code_step_ok [OF inv ti] s have ev: "evolves (owned l) \<sigma> \<sigma>'" by (auto simp: step_ok_def)
  show "upper_marked \<sigma>' a 0"
  proof (cases "marked0 \<sigma> a")
    case True
    with td show ?thesis using upper_marked_stable [OF ev marked0_heap] by (auto simp: top_down_def)
  next
    case False
    with a have pc: "pc l = RelCas0" using code_step_marked0 [OF inv ti _ s] by metis
    with mk obtain n where n: "nodeToRemove l = Some n" "upper_marked \<sigma> n 0" by (auto simp: marking_def)
    from s pc n(1) obtain ok where cas: "cas_next \<sigma> (Some n) 0 (succ l) (succ l) False True = Some (ok, \<sigma>')"
      by (auto simp: code_step_def bind_eq_Some_conv)
    from cas have "a = n"
    proof (cases rule: cas_next_cases)
      case 1
      then show ?thesis using nx_marked0_frame(2) [OF 1(3), of a] a False by (auto split: if_splits)
    qed (use a False in simp)
    moreover have "heap \<sigma> n \<noteq> None" using ti pc n(1) by (auto simp: thread_inv_def victim_def tall_iff)
    ultimately show ?thesis using upper_marked_stable [OF ev _ n(2)] by simp
  qed
qed

lemma marking_stable:
  assumes ev: "evolves X \<sigma> \<sigma>'" and ti: "thread_inv M \<sigma> l" and mk: "marking \<sigma> l"
  shows "marking \<sigma>' l"
  unfolding marking_def
proof
  assume pc: "pc l \<in> {RelMark, RelMarkWhile, RelMarkReget, RelCas0, RelReget0}"
  with mk obtain n where n: "nodeToRemove l = Some n" "upper_marked \<sigma> n (if pc l \<in> {RelCas0, RelReget0} then 0 else mark_level l)"
    "pc l = RelMarkWhile \<and> marked l \<longrightarrow> read_next \<sigma> (Some n) (mark_level l) = Some (succ l, True)"
    by (auto simp: marking_def)
  have "heap \<sigma> n \<noteq> None" using ti pc n(1) by (auto simp: thread_inv_def victim_def tall_iff)
  from upper_marked_stable [OF ev this n(2)] evolvesD(5) [OF ev] n(1,3)
  show "\<exists>n. nodeToRemove l = Some n \<and> upper_marked \<sigma>' n (if pc l \<in> {RelCas0, RelReget0} then 0 else mark_level l) \<and>
       (pc l = RelMarkWhile \<and> marked l \<longrightarrow> read_next \<sigma>' (Some n) (mark_level l) = Some (succ l, True))" by auto
qed

lemma find_step_pc: "find_step wg ag arrays K M f \<sigma> l = Some (\<sigma>', l') \<Longrightarrow> \<exists>f'. pc l' = K f'"
  by (cases f) (auto simp: bind_eq_Some_conv level_done_def Let_def split: if_splits)

lemma marking_step:
  assumes inv: "heap_inv M \<sigma>" and ti: "thread_inv M \<sigma> l" and s: "code_step M \<sigma> l = Some (\<sigma>', l')" and mk: "marking \<sigma> l"
  shows "marking \<sigma>' l'"
proof -
  from code_step_ok [OF inv ti] s have ev: "evolves (owned l) \<sigma> \<sigma>'" and ti': "thread_inv M \<sigma>' l'" by (auto simp: step_ok_def)
  show ?thesis
  proof (cases "pc l \<in> {RelMark, RelMarkWhile, RelMarkReget, RelCas0, RelReget0}")
    case True
    with mk obtain n where n: "nodeToRemove l = Some n" "upper_marked \<sigma> n (if pc l \<in> {RelCas0, RelReget0} then 0 else mark_level l)"
      "pc l = RelMarkWhile \<and> marked l \<longrightarrow> read_next \<sigma> (Some n) (mark_level l) = Some (succ l, True)"
      by (auto simp: marking_def)
    have hp: "heap \<sigma> n \<noteq> None" using ti True n(1) by (auto simp: thread_inv_def victim_def tall_iff)
    note up = upper_marked_stable [OF ev hp n(2)]
    from True show ?thesis
    proof (elim insertE emptyE)
      assume pc: "pc l = RelMarkWhile"
      show ?thesis
      proof (cases "marked l")
        case True
        then have cell: "read_next \<sigma> (Some n) (mark_level l) = Some (succ l, True)" using n(3) pc by simp
        have "upper_marked \<sigma> n (mark_level l - 1)"
          unfolding upper_marked_def
        proof (intro allI impI)
          fix k c assume k: "mark_level l - 1 < k" "read_next \<sigma> (Some n) k = Some c"
          show "snd c"
          proof (cases "k = mark_level l")
            case False
            then have "mark_level l < k" using k(1) by simp
            moreover have "upper_marked \<sigma> n (mark_level l)" using n(2) pc by simp
          ultimately show ?thesis using k(2) unfolding upper_marked_def by blast
          qed (use cell k(2) in auto)
        qed
        then show ?thesis using s pc True n(1) by (auto simp: code_step_def marking_def)
      next
        case False
        then show ?thesis using s pc n(1) up by (auto simp: code_step_def marking_def bind_eq_Some_conv)
      qed
    qed (use s n(1) up in \<open>auto simp: code_step_def marking_def bind_eq_Some_conv Suc_le_eq split: if_splits\<close>)
  next
    case False
    show ?thesis
    proof (cases "\<exists>f. pc l = FindExact f")
      case True
      then obtain f where pc: "pc l = FindExact f" ..
      show ?thesis
      proof (cases "f = FReturn \<and> pc l' = RelMark")
        case True
        with s pc obtain c n where c: "succs l 0 = Some c" "heap \<sigma> c = Some n" "nodeToRemove l' = Some c"
            "mark_level l' = n_topLevel n" "\<sigma>' = \<sigma>"
          by (auto simp: code_step_def findExact_step_def deref_def bind_eq_Some_conv split: if_splits)
        have "upper_marked \<sigma> c (n_topLevel n)"
          using heap_inv_node [OF inv c(2)] c(2) by (auto simp: upper_marked_def read_next_Some well_formed_node_def)
        with c True show ?thesis by (simp add: marking_def)
      next
        case False
        with s pc have "pc l' = RelReturned False \<or> (\<exists>f'. pc l' = FindExact f')"
          using find_step_pc [of _ _ _ FindExact M f \<sigma> l \<sigma>' l']
          by (auto simp: code_step_def findExact_step_def bind_eq_Some_conv split: if_splits)
        then show ?thesis by (auto simp: marking_def)
      qed
    next
      case no: False
      have "pc l' \<notin> {RelMark, RelMarkWhile, RelMarkReget, RelCas0, RelReget0}"
      proof (cases "pc l")
        case (FindInsert relink f)
        with s show ?thesis using find_step_pc [of _ _ _ "FindInsert relink" M f \<sigma> l \<sigma>' l']
          by (auto simp: code_step_def findInsert_step_def bind_eq_Some_conv split: if_splits)
      next
        case (FindDelete f)
        with s show ?thesis using find_step_pc [of _ _ _ FindDelete M f \<sigma> l \<sigma>' l']
          by (auto simp: code_step_def findDelete_step_def split: if_splits)
      qed (use no False s in \<open>auto simp: code_step_def bind_eq_Some_conv split: if_splits\<close>)
      then show ?thesis by (auto simp: marking_def)
    qed
  qed
qed

text \<open>Every reachable state marks from the top down.\<close>

definition marked_inv :: "('t::{linorder,order_bot,order_top}) system \<Rightarrow> bool" where
  "marked_inv S \<longleftrightarrow> top_down (lock S) \<and> (\<forall>t. marking (lock S) (threads S t))"

lemma init_marked: "marked_inv (init_system M)"
proof -
  have "\<not> marked0 (ConcurrentRangeLock M :: 'a crl) a" for a
    by (simp add: marked0_def read_next_def ConcurrentRangeLock_def initializeHead_def initialize_def
        cell_store_def cell_null_def del: replicate_Suc split: option.split)
  then show ?thesis by (simp add: marked_inv_def init_system_def top_down_def marking_def fresh_locals_def)
qed

lemma event_marked:
  assumes inv: "system_inv M S" and m: "marked_inv S"
  shows "marked_inv (do_event M ev S)"
proof (cases ev)
  case (Step t)
  obtain \<sigma>' l' where s: "code_step M (lock S) (threads S t) = Some (\<sigma>', l')"
    "step M (lock S) (threads S t) = (\<sigma>', l')"
    by (rule step_defined [OF inv])
  note i = system_invD [OF inv]
  from code_step_ok [OF i(1) i(2) [of t]] s(1) have "evolves (owned (threads S t)) (lock S) \<sigma>'" by (auto simp: step_ok_def)
  from marking_stable [OF this i(2)] m have "marking \<sigma>' (threads S u)" for u by (simp add: marked_inv_def)
  with top_down_step [OF i(1) i(2) s(1)] marking_step [OF i(1) i(2) s(1)] m Step s(2) show ?thesis
    by (auto simp: marked_inv_def)
qed (use m in \<open>auto simp: marked_inv_def marking_def call_tryLock_def call_releaseLock_def\<close>)

lemma reachable_marked: "reachable M S \<Longrightarrow> marked_inv S"
  by (induction rule: reachable.induct) (auto intro: init_marked event_marked reachable_system_inv)

lemma unmarked_on_chain:
  assumes "top_down \<sigma>" "linked \<sigma> c" "read_next \<sigma> (Some c) k = Some (q, False)"
  shows "on_chain \<sigma> c"
proof -
  have "\<not> marked0 \<sigma> c"
  proof
    assume m: "marked0 \<sigma> c"
    with assms(1) have "upper_marked \<sigma> c 0" by (simp add: top_down_def)
    with assms(3) m show False by (cases "k = 0") (auto simp: marked0_def upper_marked_def)
  qed
  with assms(2) show ?thesis by (simp add: linked_def)
qed

subsection \<open>The search for a held node\<close>

text \<open>
  \<open>seek\<close>: the thread looks for the node \<open>b\<close>, which lies ahead of every node it has passed and, on
  the lowest level, of the node it looks at.
\<close>

definition ahead :: "'t crl \<Rightarrow> addr option \<Rightarrow> addr \<Rightarrow> bool" where
  "ahead \<sigma> p b \<longleftrightarrow> (\<exists>a. p = Some a \<and> reach (nx \<sigma>) a b)"

definition seek :: "('t::linorder) crl \<Rightarrow> addr \<Rightarrow> 't locals \<Rightarrow> find_pc \<Rightarrow> bool" where
  "seek \<sigma> b l f \<longleftrightarrow> (case f of
       FRetry \<Rightarrow> True
     | FReturn \<Rightarrow> curr l = Some b
     | _ \<Rightarrow> ahead \<sigma> (pred l) b \<and>
         (f \<in> {FWhile, FMarked, FReget} \<and> level l = 0 \<longrightarrow> ahead \<sigma> (curr l) b) \<and>
         (f = FMarked \<and> \<not> marked l \<and> (\<forall>n. deref \<sigma> (curr l) = Some n \<longrightarrow> getEnd n \<le> arg_start l) \<longrightarrow>
            ahead \<sigma> (curr l) b \<and> (level l = 0 \<longrightarrow> ahead \<sigma> (succ l) b)))"

lemma held_order:
  assumes inv: "heap_inv M \<sigma>" and c: "reach (nx \<sigma>) c b" "c \<noteq> b" "c \<noteq> head \<sigma>"
  shows "snd (rg \<sigma> c) < fst (rg \<sigma> b)"
  using closed.reach_before [OF chain_ordered [OF inv] c(1,3)] c(2) by (simp add: closed_before_def)

lemma passed_not:
  assumes b: "b \<noteq> head (\<sigma> :: 't::linorder crl)" "arg_start l < snd (rg \<sigma> b)" and p: "passed (\<lambda>s n. s \<ge> getEnd n) \<sigma> l"
  shows "pred l \<noteq> Some b"
  using p b by (auto simp: passed_def rg_def)

lemma ahead_next:
  assumes "ahead \<sigma> (Some a) b" "a \<noteq> b" "read_next \<sigma> (Some a) 0 = Some c"
  shows "ahead \<sigma> (fst c) b"
proof -
  from assms(1,2) obtain d where d: "nx \<sigma> a = Some d" "reach (nx \<sigma>) d b"
    using reach_first by (fastforce simp: ahead_def)
  then show ?thesis using assms(3) by (simp add: nx_def ahead_def)
qed

text \<open>A node read unmarked whose range ends before the wanted one is on the chain before it.\<close>

lemma read_ahead:
  assumes inv: "heap_inv M \<sigma>" and td: "top_down \<sigma>" and b: "on_chain \<sigma> b" "b \<noteq> head \<sigma>" and s: "x < snd (rg \<sigma> b)"
    and c: "good_ref \<sigma> k c" "read_next \<sigma> (Some c) k = Some (q, False)" "snd (rg \<sigma> c) \<le> x"
  shows "ahead \<sigma> (Some c) b \<and> (k = 0 \<longrightarrow> ahead \<sigma> q b)"
proof -
  have "c \<noteq> b" using s c(3) by auto
  have ch: "on_chain \<sigma> c" using unmarked_on_chain [OF td _ c(2)] c(1) by (simp add: good_ref_def)
  have val: "fst (rg \<sigma> c) \<le> snd (rg \<sigma> c)"
    using heap_inv_node [OF inv] c(1) by (auto simp: good_ref_def tall_iff rg_def well_formed_node_def)
  have "\<not> reach (nx \<sigma>) b c"
  proof
    assume "reach (nx \<sigma>) b c"
    then have "snd (rg \<sigma> b) < fst (rg \<sigma> c)"
      using closed.reach_before [OF chain_ordered [OF inv], of b c] b \<open>c \<noteq> b\<close> by (auto simp: closed_before_def)
    with s c(3) val show False by auto
  qed
  with reach_linear [OF ch [unfolded on_chain_def] b(1) [unfolded on_chain_def]]
  have r: "ahead \<sigma> (Some c) b" by (simp add: ahead_def)
  with ahead_next [OF r \<open>c \<noteq> b\<close>] c(2) show ?thesis by fastforce
qed

text \<open>On the lowest level the search stops at the node it looks for.\<close>

lemma stop_at:
  assumes inv: "heap_inv M \<sigma>" and b: "fst (rg \<sigma> b) = x"
    and c: "ahead \<sigma> (Some c) b" "c \<noteq> head \<sigma>" "x < snd (rg \<sigma> c)"
  shows "c = b"
proof (rule ccontr)
  assume "c \<noteq> b"
  with held_order [OF inv _ this c(2)] c(1,3) b show False by (auto simp: ahead_def)
qed

lemma seek_step:
  assumes inv: "heap_inv M \<sigma>" and td: "top_down \<sigma>" and fi: "findExact_inv arrays M f \<sigma> l"
    and b: "on_chain \<sigma> b" "b \<noteq> head \<sigma>" "rg \<sigma> b = (arg_start l, arg_end l)" "arg_start l < arg_end l"
    and live: "\<not> marked0 \<sigma> b \<or> on_chain \<sigma>' b"
    and s: "find_step (\<lambda>s n. s \<ge> getStart n) (\<lambda>s n. s \<ge> getEnd n) arrays K M f \<sigma> l = Some (\<sigma>', l')"
    and sk: "seek \<sigma> b l f"
  shows "\<exists>f'. pc l' = K f' \<and> seek \<sigma>' b l' f'"
proof -
  have sb: "arg_start l < snd (rg \<sigma> b)" using b by simp
  have pn: "pred l \<noteq> Some b" if "f \<notin> {FRetry, FReturn}"
    using fi that by (intro passed_not [OF b(2) sb]) (auto simp: find_inv_def split: find_pc.splits)
  have over: "seek \<sigma> b (level_done arrays K l) f' \<and> pc (level_done arrays K l) = K f'"
    if "ahead \<sigma> (pred l) b" "level l = 0 \<longrightarrow> curr l = Some b" "f' = (if level l = 0 then FReturn else FLevel)" for f'
    using that by (auto simp: level_done_def seek_def Let_def)
  have reread: "\<not> snd x \<and> (\<forall>n. deref \<sigma> (curr l) = Some n \<longrightarrow> getEnd n \<le> arg_start l) \<longrightarrow>
      ahead \<sigma> (curr l) b \<and> (level l = 0 \<longrightarrow> ahead \<sigma> (fst x) b)"
    if "curr l = Some c" "good_ref \<sigma> (level l) c" "read_next \<sigma> (Some c) (level l) = Some x" for c x
  proof
    assume a: "\<not> snd x \<and> (\<forall>n. deref \<sigma> (curr l) = Some n \<longrightarrow> getEnd n \<le> arg_start l)"
    from that(2) obtain n where "heap \<sigma> c = Some n" by (auto simp: good_ref_def tall_iff)
    with a that(1) have "snd (rg \<sigma> c) \<le> arg_start l" by (simp add: rg_def)
    moreover have "read_next \<sigma> (Some c) (level l) = Some (fst x, False)" using that(3) a by (cases x) simp
    ultimately show "ahead \<sigma> (curr l) b \<and> (level l = 0 \<longrightarrow> ahead \<sigma> (fst x) b)"
      using read_ahead [OF inv td b(1,2) sb that(2)] that(1) by simp
  qed
  show ?thesis
  proof (cases f)
    case FRetry
    with s have "\<sigma>' = \<sigma>" "pc l' = K FLevel" "pred l' = Some (head \<sigma>)" by auto
    moreover have "ahead \<sigma> (Some (head \<sigma>)) b" using b(1) by (simp add: ahead_def on_chain_def)
    ultimately show ?thesis by (auto simp: seek_def)
  next
    case FLevel
    with sk obtain p where p: "pred l = Some p" "ahead \<sigma> (Some p) b" by (auto simp: seek_def ahead_def)
    with s FLevel obtain c where c: "read_next \<sigma> (Some p) (level l) = Some c" "\<sigma>' = \<sigma>"
      "l' = l\<lparr>curr := fst c, pc := K FWhile\<rparr>" by (auto simp: bind_eq_Some_conv)
    with p pn FLevel ahead_next [OF p(2), of c] show ?thesis by (cases "level l = 0") (auto simp: seek_def)
  next
    case FReload
    with sk obtain p where p: "pred l = Some p" "ahead \<sigma> (Some p) b" by (auto simp: seek_def ahead_def)
    with s FReload obtain c where c: "read_next \<sigma> (Some p) (level l) = Some c" "\<sigma>' = \<sigma>"
      "l' = l\<lparr>curr := fst c, pc := K FReget\<rparr>" by (auto simp: bind_eq_Some_conv)
    with p pn FReload ahead_next [OF p(2), of c] show ?thesis by (cases "level l = 0") (auto simp: seek_def)
  next
    case FReget
    with fi obtain c where c: "curr l = Some c" "good_ref \<sigma> (level l) c" by (auto simp: find_inv_def curr_ok_def)
    with s FReget obtain x where x: "read_next \<sigma> (Some c) (level l) = Some x" "\<sigma>' = \<sigma>"
      "l' = l\<lparr>succ := fst x, marked := snd x, pc := K FMarked\<rparr>" by (auto simp: bind_eq_Some_conv)
    from reread [OF c x(1)] sk x(2,3) FReget show ?thesis by (auto simp: seek_def)
  next
    case FWhile
    with fi obtain c where c: "curr l = Some c" "good_ref \<sigma> (level l) c" by (auto simp: find_inv_def curr_ok_def)
    then obtain n where n: "heap \<sigma> c = Some n" by (auto simp: good_ref_def tall_iff)
    show ?thesis
    proof (cases "arg_start l \<ge> getStart n")
      case True
      with s FWhile c(1) n obtain x where x: "read_next \<sigma> (Some c) (level l) = Some x" "\<sigma>' = \<sigma>"
        "l' = l\<lparr>succ := fst x, marked := snd x, pc := K FMarked\<rparr>" by (auto simp: bind_eq_Some_conv)
      from reread [OF c x(1)] sk x(2,3) FWhile show ?thesis by (auto simp: seek_def)
    next
      case False
      then have "arg_start l < snd (rg \<sigma> c)" using heap_inv_node [OF inv n] n by (auto simp: rg_def well_formed_node_def)
      then have "level l = 0 \<longrightarrow> curr l = Some b"
        using stop_at [OF inv, of b "arg_start l" c] b(3) c sk FWhile by (auto simp: seek_def good_ref_def)
      with False s FWhile c(1) n sk show ?thesis using over by (auto simp: seek_def)
    qed
  next
    case FMarked
    show ?thesis
    proof (cases "marked l")
      case True
      from sk FMarked obtain p where p: "pred l = Some p" "reach (nx \<sigma>) p b" by (auto simp: seek_def ahead_def)
      with flowsD(1) [OF find_step_flows [OF inv fi s] _ live] have "ahead \<sigma>' (pred l) b" by (auto simp: ahead_def)
      then show ?thesis using s FMarked True by (auto simp: seek_def bind_eq_Some_conv)
    next
      case False
      from fi FMarked obtain c where c: "curr l = Some c" "good_ref \<sigma> (level l) c" by (auto simp: find_inv_def curr_ok_def)
      then obtain n where n: "heap \<sigma> c = Some n" by (auto simp: good_ref_def tall_iff)
      show ?thesis
      proof (cases "getEnd n \<le> arg_start l")
        case True
        with s FMarked False c(1) n sk show ?thesis by (auto simp: seek_def)
      next
        case notag: False
        then have "arg_start l < snd (rg \<sigma> c)" using n by (simp add: rg_def)
        then have "level l = 0 \<longrightarrow> curr l = Some b"
          using stop_at [OF inv, of b "arg_start l" c] b(3) c sk FMarked by (auto simp: seek_def good_ref_def)
        with notag False s FMarked c(1) n sk show ?thesis using over by (auto simp: seek_def)
      qed
    qed
  next
    case FReturn
    with s show ?thesis by simp
  qed
qed

lemma ahead_stable: "flows \<sigma> \<sigma>' \<Longrightarrow> \<not> marked0 \<sigma> b \<or> on_chain \<sigma>' b \<Longrightarrow> ahead \<sigma> p b \<Longrightarrow> ahead \<sigma>' p b"
  by (auto simp: ahead_def dest: flowsD(1))

definition passing :: "('t::linorder) crl \<Rightarrow> 't locals \<Rightarrow> bool" where
  "passing \<sigma> l \<longleftrightarrow> (\<forall>n. deref \<sigma> (curr l) = Some n \<longrightarrow> getEnd n \<le> arg_start l)"

lemma seek_FMarked:
  "seek \<sigma> b l FMarked \<longleftrightarrow> ahead \<sigma> (pred l) b \<and> (level l = 0 \<longrightarrow> ahead \<sigma> (curr l) b) \<and>
     (\<not> marked l \<and> passing \<sigma> l \<longrightarrow> ahead \<sigma> (curr l) b \<and> (level l = 0 \<longrightarrow> ahead \<sigma> (succ l) b))"
  by (simp add: seek_def passing_def)

lemma passing_back:
  assumes ev: "evolves X \<sigma> \<sigma>'" and p: "passing \<sigma>' l"
  shows "passing \<sigma> l"
  unfolding passing_def
proof (intro allI impI)
  fix n assume "deref \<sigma> (curr l) = Some n"
  then obtain c where c: "curr l = Some c" "heap \<sigma> c = Some n" by (cases "curr l") (auto simp: deref_def)
  from evolvesD(6) [OF ev c(2)] obtain n' where n': "heap \<sigma>' c = Some n'" "same_node n n'" by auto
  with p c(1) show "getEnd n \<le> arg_start l" by (simp add: passing_def deref_def same_node_def)
qed

lemma seek_stable:
  assumes ev: "evolves X \<sigma> \<sigma>'" and fl: "flows \<sigma> \<sigma>'" "\<not> marked0 \<sigma> b \<or> on_chain \<sigma>' b" and sk: "seek \<sigma> b l f"
  shows "seek \<sigma>' b l f"
proof (cases "f = FMarked")
  case True
  with sk ahead_stable [OF fl] passing_back [OF ev] show ?thesis by (auto simp: seek_FMarked)
qed (use sk ahead_stable [OF fl] in \<open>cases f; simp add: seek_def\<close>)

subsection \<open>releaseLock of a held range\<close>

text \<open>A thread is inside \<open>releaseLock\<close> and has not marked the node yet.\<close>

definition releasing :: "'t locals \<Rightarrow> 't range \<Rightarrow> bool" where
  "releasing l r \<longleftrightarrow> (pc l \<in> range FindExact \<or> pc l \<in> {RelMark, RelMarkWhile, RelMarkReget, RelCas0} \<or>
     pc l = RelReget0 \<and> \<not> iMarkedIt l) \<and> (arg_start l, arg_end l) = r"

text \<open>The thread works on the node \<open>b\<close>, or has marked its node.\<close>

definition hunts :: "('t::linorder) crl \<Rightarrow> addr \<Rightarrow> 't locals \<Rightarrow> bool" where
  "hunts \<sigma> b l \<longleftrightarrow> releasing l (rg \<sigma> b) \<and> b \<in> held \<sigma> \<and>
     (case pc l of FindExact f \<Rightarrow> seek \<sigma> b l f | _ \<Rightarrow> nodeToRemove l = Some b)"

definition succeeds :: "'t locals \<Rightarrow> bool" where
  "succeeds l \<longleftrightarrow> pc l = RelReget0 \<and> iMarkedIt l \<or> pc l \<in> range FindDelete \<or> pc l = RelReturned True"

lemma held_stays:
  assumes inv: "heap_inv M \<sigma>" and ti: "thread_inv M \<sigma> l" and s: "code_step M \<sigma> l = Some (\<sigma>', l')"
    and b: "b \<in> held \<sigma>" and no: "\<not> (pc l = RelCas0 \<and> iMarkedIt l' \<and> rg \<sigma> b = (arg_start l, arg_end l))"
  shows "b \<in> held \<sigma>'" "rg \<sigma>' b = rg \<sigma> b"
proof -
  from code_step_ok [OF inv ti] s have ev: "evolves (owned l) \<sigma> \<sigma>'" by (auto simp: step_ok_def)
  show rg: "rg \<sigma>' b = rg \<sigma> b" by (rule held_rg_stable [OF inv ev b])
  have "\<not> marked0 \<sigma>' b"
  proof (cases "pc l = RelCas0")
    case False
    then show ?thesis using code_step_marked0 [OF inv ti False s] b by (simp add: held_def)
  next
    case True
    with ti obtain n where n: "nodeToRemove l = Some n" "rg \<sigma> n = (arg_start l, arg_end l)" by (auto simp: thread_inv_def victim_def)
    from s True n(1) obtain ok where cas: "cas_next \<sigma> (Some n) 0 (succ l) (succ l) False True = Some (ok, \<sigma>')"
      and l': "l' = l\<lparr>iMarkedIt := ok, pc := RelReget0\<rparr>" by (auto simp: code_step_def bind_eq_Some_conv)
    from cas show ?thesis
    proof (cases rule: cas_next_cases)
      case 1
      with no True n(2) l' have "b \<noteq> n" by auto
      with nx_marked0_frame(2) [OF 1(3), of b] b show ?thesis by (simp add: held_def)
    qed (use b in \<open>simp add: held_def\<close>)
  qed
  with b evolvesD(1,2,4) [OF ev] show "b \<in> held \<sigma>'" by (simp add: held_def)
qed

lemma hunts_other:
  assumes inv: "heap_inv M \<sigma>" and ti: "thread_inv M \<sigma> m" and s: "code_step M \<sigma> m = Some (\<sigma>', m')"
    and h: "hunts \<sigma> b l" and no: "\<not> releasing m (rg \<sigma> b)"
  shows "hunts \<sigma>' b l"
proof -
  from code_step_ok [OF inv ti] s have ev: "evolves (owned m) \<sigma> \<sigma>'" by (auto simp: step_ok_def)
  have b: "b \<in> held \<sigma>" using h by (simp add: hunts_def)
  have "\<not> (pc m = RelCas0 \<and> iMarkedIt m' \<and> rg \<sigma> b = (arg_start m, arg_end m))"
    using no by (auto simp: releasing_def)
  note st = held_stays [OF inv ti s b this]
  have "seek \<sigma> b l f \<Longrightarrow> seek \<sigma>' b l f" for f
    using seek_stable [OF ev code_step_flows [OF inv ti s]] b by (simp add: held_def)
  with h st show ?thesis by (auto simp: hunts_def split: pc.splits)
qed

lemma find_step_args:
  "find_step wg ag arrays K M f \<sigma> l = Some (\<sigma>', l') \<Longrightarrow> arg_start l' = arg_start l \<and> arg_end l' = arg_end l"
  by (cases f) (auto simp: bind_eq_Some_conv level_done_def Let_def split: if_splits)

lemma hunts_step:
  assumes inv: "heap_inv M \<sigma>" and td: "top_down \<sigma>" and ti: "thread_inv M \<sigma> l" and s: "code_step M \<sigma> l = Some (\<sigma>', l')"
    and h: "hunts \<sigma> b l" and v: "fst (rg \<sigma> b) < snd (rg \<sigma> b)"
  shows "hunts \<sigma>' b l' \<or> succeeds l'"
proof -
  have b: "b \<in> held \<sigma>" and args: "rg \<sigma> b = (arg_start l, arg_end l)" using h by (auto simp: hunts_def releasing_def)
  note st = held_stays [OF inv ti s b]
  show ?thesis
  proof (cases "\<exists>f. pc l = FindExact f")
    case True
    then obtain f where pc: "pc l = FindExact f" ..
    with h have sk: "seek \<sigma> b l f" by (simp add: hunts_def)
    from pc st have st: "b \<in> held \<sigma>'" "rg \<sigma>' b = rg \<sigma> b" by simp_all
    show ?thesis
    proof (cases "f = FReturn")
      case True
      with sk have "curr l = Some b" by (simp add: seek_def)
      moreover from ti pc True have "curr l = succs l 0" by (simp add: thread_inv_def find_inv_def)
      moreover have "\<exists>n. heap \<sigma> b = Some n" using held_tall [OF inv b] by (auto simp: tall_iff)
      ultimately have "l' = l\<lparr>nodeToRemove := Some b, mark_level := getTopLevel (the (heap \<sigma> b)), pc := RelMark\<rparr>" "\<sigma>' = \<sigma>"
        using s pc True args by (auto simp: code_step_def findExact_step_def findExact_result_def rg_def)
      then show ?thesis using b args by (simp add: hunts_def releasing_def)
    next
      case False
      with s pc have fs: "find_step (\<lambda>s n. s \<ge> getStart n) (\<lambda>s n. s \<ge> getEnd n) True FindExact M f \<sigma> l = Some (\<sigma>', l')"
        by (simp add: code_step_def findExact_step_def)
      from ti pc have "findExact_inv True M f \<sigma> l" "legal_args l" by (auto simp: thread_inv_def)
      from seek_step [OF inv td this(1) held_on_chain [OF b] _ args _ _ fs sk] b v args obtain f' where "pc l' = FindExact f'" "seek \<sigma>' b l' f'" by (auto simp: held_def)
      with find_step_args [OF fs] st args show ?thesis by (auto simp: hunts_def releasing_def)
    qed
  next
    case False
    with h have pc: "pc l \<in> {RelMark, RelMarkWhile, RelMarkReget, RelCas0, RelReget0}" and n: "nodeToRemove l = Some b"
      by (auto simp: hunts_def releasing_def split: pc.splits)
    have mk: "\<not> marked0 \<sigma> b" using b by (simp add: held_def)
    from pc show ?thesis
    proof (elim insertE emptyE)
      assume pc: "pc l = RelCas0"
      with s n have l': "pc l' = RelReget0" "nodeToRemove l' = Some b" "arg_start l' = arg_start l" "arg_end l' = arg_end l"
        by (auto simp: code_step_def bind_eq_Some_conv)
      show ?thesis
      proof (cases "iMarkedIt l'")
        case True
        with l' show ?thesis by (simp add: succeeds_def)
      next
        case False
        with st l' args show ?thesis by (simp add: hunts_def releasing_def)
      qed
    next
      assume pc: "pc l = RelReget0"
      have sc: "succs l 0 = Some b" using ti pc n by (auto simp: thread_inv_def victim_def)
      show ?thesis
      proof (cases "iMarkedIt l")
        case True
        with s pc have "pc l' = FindDelete FRetry" by (auto simp: code_step_def bind_eq_Some_conv)
        then show ?thesis by (simp add: succeeds_def)
      next
        case False
        with s pc sc obtain x where x: "read_next \<sigma> (Some b) 0 = Some x" "\<sigma>' = \<sigma>"
          "l' = l\<lparr>succ := fst x, marked := snd x, pc := if snd x then RelReturned False else RelCas0\<rparr>"
          by (auto simp: code_step_def bind_eq_Some_conv)
        with mk have "\<not> snd x" by (simp add: marked0_def)
        with x b n args show ?thesis by (simp add: hunts_def releasing_def)
      qed
    qed (use s n st args in \<open>auto simp: code_step_def bind_eq_Some_conv hunts_def releasing_def split: if_splits\<close>)
  qed
qed

subsection \<open>Every interleaving\<close>

lemma search_step_pc:
  assumes s: "code_step M \<sigma> l = Some (\<sigma>', l')"
  shows "pc l = FindInsert relink f \<Longrightarrow> (\<exists>f'. pc l' = FindInsert relink f') \<or> pc l' \<in> {TryReturned False, TryAlloc, TryLink}"
    and "pc l = FindDelete f \<Longrightarrow> (\<exists>f'. pc l' = FindDelete f') \<or> pc l' = RelReturned True"
    and "pc l = FindExact f \<Longrightarrow> arg_start l' = arg_start l \<and> arg_end l' = arg_end l"
proof -
  show "(\<exists>f'. pc l' = FindInsert relink f') \<or> pc l' \<in> {TryReturned False, TryAlloc, TryLink}"
    if pc: "pc l = FindInsert relink f"
  proof (cases "f = FReturn")
    case True
    with s pc show ?thesis by (auto simp: code_step_def findInsert_step_def bind_eq_Some_conv split: if_splits)
  next
    case False
    with s pc show ?thesis by (simp add: code_step_def findInsert_step_def find_step_pc)
  qed
  show "(\<exists>f'. pc l' = FindDelete f') \<or> pc l' = RelReturned True" if pc: "pc l = FindDelete f"
  proof (cases "f = FReturn")
    case True
    with s pc show ?thesis by (auto simp: code_step_def findDelete_step_def)
  next
    case False
    with s pc show ?thesis by (simp add: code_step_def findDelete_step_def find_step_pc)
  qed
  show "arg_start l' = arg_start l \<and> arg_end l' = arg_end l" if pc: "pc l = FindExact f"
  proof (cases "f = FReturn")
    case True
    with s pc show ?thesis by (auto simp: code_step_def findExact_step_def bind_eq_Some_conv split: if_splits)
  next
    case False
    with s pc have fs: "find_step (\<lambda>s n. s \<ge> getStart n) (\<lambda>s n. s \<ge> getEnd n) True FindExact M f \<sigma> l = Some (\<sigma>', l')"
      by (simp add: code_step_def findExact_step_def)
    show ?thesis by (rule find_step_args [OF fs])
  qed
qed

lemma releasing_step:
  assumes s: "code_step M \<sigma> l = Some (\<sigma>', l')" and r: "releasing l' r"
  shows "releasing l r"
proof (cases "pc l")
  case (FindInsert relink f)
  from search_step_pc(1) [OF s this] r show ?thesis by (auto simp: releasing_def)
next
  case (FindExact f)
  from search_step_pc(3) [OF s this] r FindExact show ?thesis by (simp add: releasing_def)
next
  case (FindDelete f)
  from search_step_pc(2) [OF s this] r show ?thesis by (auto simp: releasing_def)
next
  case TryAlloc
  with s r show ?thesis by (auto simp: code_step_def releasing_def)
next
  case TryCas0
  with s r show ?thesis by (auto simp: code_step_def releasing_def bind_eq_Some_conv split: if_splits)
next
  case TryLink
  with s r show ?thesis by (auto simp: code_step_def releasing_def bind_eq_Some_conv split: if_splits)
next
  case RelMark
  with s r show ?thesis by (auto simp: code_step_def releasing_def bind_eq_Some_conv split: if_splits)
next
  case RelMarkWhile
  with s r show ?thesis by (auto simp: code_step_def releasing_def bind_eq_Some_conv split: if_splits)
next
  case RelMarkReget
  with s r show ?thesis by (auto simp: code_step_def releasing_def bind_eq_Some_conv split: if_splits)
next
  case RelCas0
  with s r show ?thesis by (auto simp: code_step_def releasing_def bind_eq_Some_conv split: if_splits)
next
  case RelReget0
  with s have "arg_start l' = arg_start l" "arg_end l' = arg_end l" "iMarkedIt l \<longrightarrow> pc l' = FindDelete FRetry"
    by (auto simp: code_step_def bind_eq_Some_conv)
  with r RelReget0 show ?thesis by (auto simp: releasing_def)
qed (use s r in \<open>simp_all add: code_step_def releasing_def\<close>)

lemma succeeds_step:
  assumes s: "code_step M \<sigma> l = Some (\<sigma>', l')" and h: "succeeds l"
  shows "succeeds l'"
proof (cases "\<exists>f. pc l = FindDelete f")
  case True
  then obtain f where "pc l = FindDelete f" ..
  from search_step_pc(2) [OF s this] show ?thesis by (auto simp: succeeds_def)
next
  case False
  with h consider "pc l = RelReget0" "iMarkedIt l" | "pc l = RelReturned True" by (auto simp: succeeds_def)
  then show ?thesis
  proof cases
    case 1
    with s have "pc l' = FindDelete FRetry" by (auto simp: code_step_def bind_eq_Some_conv)
    then show ?thesis by (simp add: succeeds_def)
  qed (use s in \<open>simp add: succeeds_def code_step_def\<close>)
qed

text \<open>
  Thread \<open>t\<close> is on its way to release \<open>r\<close>, and no other thread is releasing the same range.
\<close>

definition succeeding :: "nat \<Rightarrow> 't range \<Rightarrow> ('t::linorder) system \<Rightarrow> bool" where
  "succeeding t r S \<longleftrightarrow> succeeds (threads S t) \<or>
     (\<exists>b. rg (lock S) b = r \<and> hunts (lock S) b (threads S t)) \<and> (\<forall>u. u \<noteq> t \<longrightarrow> \<not> releasing (threads S u) r)"

fun undisturbed :: "nat \<Rightarrow> 't range \<Rightarrow> 't event \<Rightarrow> bool" where
  "undisturbed t r (CallTry u s e rnd) \<longleftrightarrow> u \<noteq> t"
| "undisturbed t r (CallRelease u s e) \<longleftrightarrow> u \<noteq> t \<and> (s, e) \<noteq> r"
| "undisturbed t r (Step u) \<longleftrightarrow> True"

lemma releasing_call [simp]:
  "\<not> releasing (call_tryLock M s e rnd l) r" "releasing (call_releaseLock s e l) r \<longleftrightarrow> r = (s, e)"
  by (auto simp: releasing_def call_tryLock_def call_releaseLock_def)

lemma other_call:
  assumes "succeeding t r S" "lock S' = lock S" "threads S' t = threads S t"
    and "\<And>u. u \<noteq> t \<Longrightarrow> releasing (threads S' u) r \<Longrightarrow> releasing (threads S u) r"
  shows "succeeding t r S'"
  using assms unfolding succeeding_def by metis

lemma event_succeeding:
  assumes inv: "system_inv M S" and mi: "marked_inv S" and h: "succeeding t r S" and v: "fst r < snd r"
    and u: "undisturbed t r ev"
  shows "succeeding t r (do_event M ev S)"
proof (cases ev)
  case (Step u)
  obtain \<sigma>' l' where s: "code_step M (lock S) (threads S u) = Some (\<sigma>', l')"
    "step M (lock S) (threads S u) = (\<sigma>', l')"
    by (rule step_defined [OF inv])
  note i = system_invD [OF inv]
  from mi have td: "top_down (lock S)" by (simp add: marked_inv_def)
  show ?thesis
  proof (cases "succeeds (threads S t)")
    case True
    with Step s(2) succeeds_step [OF s(1)] show ?thesis by (auto simp: succeeding_def)
  next
    case False
    with h obtain b where b: "rg (lock S) b = r" "hunts (lock S) b (threads S t)"
      and no: "\<And>v. v \<noteq> t \<Longrightarrow> \<not> releasing (threads S v) r" by (auto simp: succeeding_def)
    from code_step_ok [OF i(1) i(2) [of u]] s(1) have ev: "evolves (owned (threads S u)) (lock S) \<sigma>'"
      by (auto simp: step_ok_def)
    have "rg \<sigma>' b = r" using held_rg_stable [OF i(1) ev, of b] b by (simp add: hunts_def)
    moreover have "hunts \<sigma>' b (if u = t then l' else threads S t) \<or> u = t \<and> succeeds l'"
    proof (cases "u = t")
      case True
      with hunts_step [OF i(1) td i(2) s(1)] b v show ?thesis by auto
    next
      case False
      with hunts_other [OF i(1) i(2) s(1) b(2)] no [OF False] b(1) show ?thesis by simp
    qed
    moreover have no': "\<not> releasing (if v = u then l' else threads S v) r" if "v \<noteq> t" for v
      using no [OF that] releasing_step [OF s(1), of r] by (cases "v = u") auto
    ultimately show ?thesis unfolding succeeding_def using Step s(2) by auto
  qed
next
  case (CallTry v s e rnd)
  with u have "v \<noteq> t" by simp
  with CallTry show ?thesis
    by (intro other_call [OF h]) (auto split: if_splits)
next
  case (CallRelease v s e)
  with u have "v \<noteq> t" "(s, e) \<noteq> r" by simp_all
  with CallRelease show ?thesis
    by (intro other_call [OF h]) (auto split: if_splits)
qed

lemma run_succeeding:
  assumes "list_all legal_event evs" "list_all (undisturbed t r) evs" "reachable M S" "succeeding t r S" "fst r < snd r"
  shows "succeeding t r (run_events M evs S)"
  using assms(1-4)
proof (induction evs arbitrary: S)
  case (Cons ev evs)
  from Cons.prems have "reachable M (do_event M ev S)" by (simp add: reachable.event)
  moreover have "succeeding t r (do_event M ev S)"
    using event_succeeding [OF reachable_system_inv reachable_marked _ assms(5)] Cons.prems by simp
  ultimately show ?case using Cons by (simp add: run_events_def)
qed (simp add: run_events_def)

lemma call_succeeding:
  assumes "(s, e) \<in> held_ranges (lock S)" "at_rest (threads S t)"
    and "\<forall>u. u \<noteq> t \<longrightarrow> \<not> releasing (threads S u) (s, e)"
  shows "succeeding t (s, e) (do_event M (CallRelease t s e) S)"
proof -
  from assms(1) obtain b where "b \<in> held (lock S)" "rg (lock S) b = (s, e)" by (auto simp: held_ranges_def)
  then have "hunts (lock S) b (call_releaseLock s e (threads S t))"
    by (simp add: hunts_def releasing_def call_releaseLock_def seek_def)
  with \<open>rg (lock S) b = (s, e)\<close> assms(2,3) show ?thesis by (auto simp: succeeding_def)
qed

text \<open>A thread without events in a run stays where it is.\<close>

fun event_thread :: "'t event \<Rightarrow> nat" where
  "event_thread (CallTry u s e rnd) = u"
| "event_thread (CallRelease u s e) = u"
| "event_thread (Step u) = u"

lemma idle_thread:
  "u \<notin> event_thread ` set evs \<Longrightarrow> threads (run_events M evs S) u = threads S u"
proof (induction evs arbitrary: S)
  case (Cons ev evs)
  have "threads (do_event M ev S) u = threads S u"
    using Cons.prems by (cases ev) (auto split: prod.split)
  with Cons show ?case by (simp add: run_events_def)
qed (simp add: run_events_def)

text \<open>
  C5. \<open>releaseLock\<close> of a held range does not fail: if \<open>[s, e]\<close> with \<open>s < e\<close> is held and one thread
  at a time releases it, the call never returns false, however the calls and steps of other threads
  (searches that cut nodes out, insertions, releases of other ranges) interleave with its search.
\<close>
theorem v0_release_succeeds:
  assumes "reachable M S" "(s, e) \<in> held_ranges (lock S)" "s < e" "at_rest (threads S t)"
    and "\<forall>u. u \<noteq> t \<longrightarrow> \<not> releasing (threads S u) (s, e)"
    and "list_all legal_event evs" "list_all (undisturbed t (s, e)) evs"
  shows "pc (threads (run_events M evs (do_event M (CallRelease t s e) S)) t) \<noteq> RelReturned False"
proof -
  have "s < top" using assms(3) top_greatest [of e] by (rule less_le_trans)
  then have "legal_event (CallRelease t s e)" using assms(3) by simp
  then have "reachable M (do_event M (CallRelease t s e) S)" using assms(1) by (rule reachable.event [rotated])
  from run_succeeding [OF assms(6,7) this call_succeeding [OF assms(2,4,5)]] assms(3)
  have "succeeding t (s, e) (run_events M evs (do_event M (CallRelease t s e) S))" by simp
  then show ?thesis by (auto simp: succeeding_def succeeds_def hunts_def releasing_def)
qed

theorem v0_release_succeeds_witness:
  "pc (threads (run_events 0 (CallTry 1 12 20 (\<lambda>_. 0) # concat (replicate 9 [Step 0, Step 1]))
     (do_event 0 (CallRelease 0 5 10) (run_events 0 (CallTry 0 5 (10 :: 16 word) (\<lambda>_. 0) # replicate 8 (Step 0))
       (init_system 0)))) 0) \<noteq> RelReturned False"
proof -
  let ?evs = "CallTry 0 5 (10 :: 16 word) (\<lambda>_. 0) # replicate 8 (Step 0)"
  let ?more = "CallTry 1 12 (20 :: 16 word) (\<lambda>_. 0) # concat (replicate 9 [Step 0, Step 1])"
  let ?S = "run_events 0 ?evs (init_system 0)"
  have legal: "list_all legal_event ?evs" "list_all legal_event ?more" "list_all (undisturbed 0 (5, 10)) ?more"
    by code_simp+
  have "(5, 10) \<in> fold apply_action (run_actions 0 ?evs (init_system 0)) {}" by code_simp
  then have held: "(5, 10) \<in> held_ranges (lock ?S)" unfolding held_ranges_of_run [OF legal(1)] .
  have rest: "at_rest (threads ?S 0)" by code_simp
  have "\<forall>u. u \<noteq> 0 \<longrightarrow> \<not> releasing (threads ?S u) (5, 10)"
  proof (intro allI impI)
    fix u :: nat assume "u \<noteq> 0"
    then have "threads ?S u = fresh_locals" by (subst idle_thread) (auto simp: init_system_def)
    then show "\<not> releasing (threads ?S u) (5, 10)" by (auto simp: releasing_def fresh_locals_def)
  qed
  from v0_release_succeeds [OF run_reachable [OF legal(1)] held _ rest this legal(2,3)] show ?thesis by simp
qed

end
