(* ===== verification/V0_Phases.thy ===== *)
theory V0_Phases
  imports V0_Release
begin

text \<open>
  The phases of an operation of the v0 lock, as a caller sees them, with the action of the abstract
  lock between two of them; and the element count, which is right whenever no operation is running.
\<close>

subsection \<open>Phases\<close>

text \<open>Inside \<open>tryLock\<close> before and behind the insertion, and inside \<open>releaseLock\<close> behind the mark.\<close>

definition trying :: "'t locals \<Rightarrow> bool" where
  "trying l \<longleftrightarrow> pc l \<in> range (FindInsert False) \<or> pc l \<in> {TryAlloc, TryCas0}"

definition publishing :: "'t locals \<Rightarrow> bool" where
  "publishing l \<longleftrightarrow> pc l \<in> range (FindInsert True) \<or> pc l = TryLink"

definition finishing :: "'t locals \<Rightarrow> bool" where
  "finishing l \<longleftrightarrow> pc l = RelReget0 \<and> iMarkedIt l \<or> pc l \<in> range FindDelete"

lemmas phase_defs = trying_def publishing_def finishing_def releasing_def at_rest_def

lemma phase_call [simp]:
  "trying (call_tryLock M s e rnd l)" "\<not> publishing (call_tryLock M s e rnd l)" "\<not> finishing (call_tryLock M s e rnd l)"
  "\<not> trying (call_releaseLock s e l)" "\<not> publishing (call_releaseLock s e l)" "\<not> finishing (call_releaseLock s e l)"
  by (auto simp: phase_defs call_tryLock_def call_releaseLock_def)

abbreviation args :: "'t locals \<Rightarrow> 't range" where
  "args l \<equiv> (arg_start l, arg_end l)"

lemma find_action [simp]: "pc l \<notin> {TryCas0, RelCas0} \<Longrightarrow> action_of l l' = Silent"
  by (simp add: action_of_def)

lemma search_step_args:
  assumes s: "code_step M \<sigma> l = Some (\<sigma>', l')"
  shows "pc l = FindInsert relink f \<Longrightarrow> args l' = args l" "pc l = FindDelete f \<Longrightarrow> args l' = args l"
proof -
  show "args l' = args l" if pc: "pc l = FindInsert relink f"
  proof (cases "f = FReturn")
    case True
    with s pc show ?thesis by (auto simp: code_step_def findInsert_step_def bind_eq_Some_conv split: if_splits)
  next
    case False
    with s pc show ?thesis
      using find_step_args by (fastforce simp: code_step_def findInsert_step_def)
  qed
  show "args l' = args l" if pc: "pc l = FindDelete f"
  proof (cases "f = FReturn")
    case True
    with s pc show ?thesis by (auto simp: code_step_def findDelete_step_def)
  next
    case False
    with s pc show ?thesis
      using find_step_args by (fastforce simp: code_step_def findDelete_step_def)
  qed
qed

lemma insert_step_pc:
  assumes s: "code_step M \<sigma> l = Some (\<sigma>', l')" and pc: "pc l = FindInsert relink f"
  shows "(\<exists>f'. pc l' = FindInsert relink f') \<or> pc l' = TryLink \<and> relink \<or> pc l' \<in> {TryReturned False, TryAlloc} \<and> \<not> relink"
proof (cases "f = FReturn")
  case True
  with s pc show ?thesis
    by (cases relink) (auto simp: code_step_def findInsert_step_def bind_eq_Some_conv split: if_splits)
next
  case False
  with s pc show ?thesis by (simp add: code_step_def findInsert_step_def find_step_pc)
qed

lemma trying_step:
  assumes s: "code_step M \<sigma> l = Some (\<sigma>', l')" and l: "trying l"
  shows "args l' = args l" and "(trying l' \<or> pc l' = TryReturned False) \<and> action_of l l' = Silent \<or>
    publishing l' \<and> action_of l l' = Acquire (args l)"
proof -
  from l consider f where "pc l = FindInsert False f" | "pc l = TryAlloc" | "pc l = TryCas0" by (auto simp: trying_def)
  then have "args l' = args l \<and> ((trying l' \<or> pc l' = TryReturned False) \<and> action_of l l' = Silent \<or>
    publishing l' \<and> action_of l l' = Acquire (args l))"
  proof cases
    case 1
    from insert_step_pc [OF s 1] search_step_args(1) [OF s 1] 1 show ?thesis by (auto simp: trying_def)
  next
    case 2
    with s show ?thesis by (auto simp: code_step_def trying_def)
  next
    case 3
    with s have "args l' = args l \<and> (pc l' = TryLink \<or> pc l' = FindInsert False FRetry)"
      by (auto simp: code_step_def bind_eq_Some_conv split: if_splits)
    with 3 show ?thesis by (auto simp: trying_def publishing_def action_of_def)
  qed
  then show "args l' = args l" "(trying l' \<or> pc l' = TryReturned False) \<and> action_of l l' = Silent \<or>
    publishing l' \<and> action_of l l' = Acquire (args l)" by simp_all
qed

lemma publishing_step:
  assumes s: "code_step M \<sigma> l = Some (\<sigma>', l')" and l: "publishing l"
  shows "args l' = args l" "publishing l' \<or> pc l' = TryReturned True" "action_of l l' = Silent"
proof -
  from l consider f where "pc l = FindInsert True f" | "pc l = TryLink" by (auto simp: publishing_def)
  then have "args l' = args l \<and> (publishing l' \<or> pc l' = TryReturned True) \<and> action_of l l' = Silent"
  proof cases
    case 1
    from insert_step_pc [OF s 1] search_step_args(1) [OF s 1] 1 show ?thesis by (auto simp: publishing_def)
  next
    case 2
    with s show ?thesis by (auto simp: code_step_def publishing_def bind_eq_Some_conv split: if_splits)
  qed
  then show "args l' = args l" "publishing l' \<or> pc l' = TryReturned True" "action_of l l' = Silent" by simp_all
qed

lemma releasing_phase_step:
  assumes s: "code_step M \<sigma> l = Some (\<sigma>', l')" and l: "releasing l (args l)"
  shows "args l' = args l"
    and "(releasing l' (args l) \<or> pc l' = RelReturned False) \<and> action_of l l' = Silent \<or>
      finishing l' \<and> action_of l l' = Release (args l)"
proof -
  have "args l' = args l \<and> ((releasing l' (args l) \<or> pc l' = RelReturned False) \<and> action_of l l' = Silent \<or>
      finishing l' \<and> action_of l l' = Release (args l))"
  proof (cases "\<exists>f. pc l = FindExact f")
    case True
    then obtain f where pc: "pc l = FindExact f" ..
    have "(\<exists>f'. pc l' = FindExact f') \<or> pc l' \<in> {RelReturned False, RelMark}"
    proof (cases "f = FReturn")
      case True
      with s pc show ?thesis by (auto simp: code_step_def findExact_step_def bind_eq_Some_conv split: if_splits)
    next
      case False
      with s pc show ?thesis by (simp add: code_step_def findExact_step_def find_step_pc)
    qed
    with search_step_pc(3) [OF s pc] pc show ?thesis by (auto simp: releasing_def)
  next
    case False
    with l consider "pc l \<in> {RelMark, RelMarkWhile, RelMarkReget}" | "pc l = RelCas0" | "pc l = RelReget0" "\<not> iMarkedIt l"
      by (auto simp: releasing_def)
    then show ?thesis
    proof cases
      case 1
      with s have "args l' = args l \<and> pc l' \<in> {RelMark, RelMarkWhile, RelMarkReget, RelCas0}"
        by (auto simp: code_step_def bind_eq_Some_conv split: if_splits)
      with 1 show ?thesis by (auto simp: releasing_def)
    next
      case 2
      with s have "args l' = args l \<and> pc l' = RelReget0" by (auto simp: code_step_def bind_eq_Some_conv)
      with 2 show ?thesis by (auto simp: releasing_def finishing_def action_of_def)
    next
      case 3
      with s have "args l' = args l \<and> pc l' \<in> {RelReturned False, RelCas0}"
        by (auto simp: code_step_def bind_eq_Some_conv split: if_splits)
      with 3 show ?thesis by (auto simp: releasing_def)
    qed
  qed
  then show "args l' = args l" "(releasing l' (args l) \<or> pc l' = RelReturned False) \<and> action_of l l' = Silent \<or>
      finishing l' \<and> action_of l l' = Release (args l)" by simp_all
qed

lemma finishing_step:
  assumes s: "code_step M \<sigma> l = Some (\<sigma>', l')" and l: "finishing l"
  shows "finishing l' \<or> pc l' = RelReturned True" "action_of l l' = Silent"
proof -
  from l consider f where "pc l = FindDelete f" | "pc l = RelReget0" "iMarkedIt l" by (auto simp: finishing_def)
  then have "(finishing l' \<or> pc l' = RelReturned True) \<and> action_of l l' = Silent"
  proof cases
    case 1
    from search_step_pc(2) [OF s 1] 1 show ?thesis by (auto simp: finishing_def)
  next
    case 2
    with s have "pc l' = FindDelete FRetry" by (auto simp: code_step_def bind_eq_Some_conv)
    with 2 show ?thesis by (auto simp: finishing_def)
  qed
  then show "finishing l' \<or> pc l' = RelReturned True" "action_of l l' = Silent" by simp_all
qed

lemma at_rest_step:
  "at_rest l \<Longrightarrow> code_step M \<sigma> l = Some (\<sigma>, l)" "at_rest l \<Longrightarrow> action_of l l' = Silent"
  by (cases "pc l"; simp add: at_rest_def code_step_def action_of_def)+

lemma phase_exhaust:
  assumes "pc l \<noteq> Crashed"
  obtains "at_rest l" | "trying l" | "publishing l" | "releasing l (args l)" | "finishing l"
proof -
  have "at_rest l \<or> trying l \<or> publishing l \<or> releasing l (args l) \<or> finishing l"
  proof (cases "pc l")
    case (FindInsert relink f)
    then show ?thesis by (cases relink) (simp_all add: phase_defs)
  qed (use assms in \<open>simp_all add: phase_defs\<close>)
  with that show ?thesis by blast
qed

subsection \<open>The element count\<close>

text \<open>
  \<open>tryLock\<close> counts up when it returns and \<open>releaseLock\<close> counts down when it returns, so the count
  lags behind the held ranges by the threads in between.
\<close>

lemma write_next_count: "write_next \<sigma> p k c = Some \<sigma>' \<Longrightarrow> elementsCount \<sigma>' = elementsCount \<sigma>"
  by (auto simp: write_next_def bind_eq_Some_conv split: if_splits)

lemma cas_next_count: "cas_next \<sigma> p k exp new em nm = Some (ok, \<sigma>') \<Longrightarrow> elementsCount \<sigma>' = elementsCount \<sigma>"
  by (auto simp: cas_next_def bind_eq_Some_conv split_beta Let_def dest: write_next_count)

lemma attemptMark_next_count: "attemptMark_next \<sigma> p k exp m = Some (ok, \<sigma>') \<Longrightarrow> elementsCount \<sigma>' = elementsCount \<sigma>"
  by (auto simp: attemptMark_next_def bind_eq_Some_conv split_beta Let_def dest: write_next_count)

lemma search_count:
  "find_step wg ag arrays K M f \<sigma> l = Some (\<sigma>', l') \<Longrightarrow> elementsCount \<sigma>' = elementsCount \<sigma>"
  by (cases f) (auto simp: bind_eq_Some_conv dest: cas_next_count split: if_splits)

lemma code_step_count:
  assumes s: "code_step M \<sigma> l = Some (\<sigma>', l')"
  shows "elementsCount \<sigma>' = elementsCount \<sigma> + (if publishing l \<and> pc l' = TryReturned True then 1 else 0)
    - (if finishing l \<and> pc l' = RelReturned True then 1 else 0)"
proof -
  note cas = cas_next_count and am = attemptMark_next_count
  show ?thesis
  proof (cases "pc l")
    case (FindInsert relink f)
    then show ?thesis
    proof (cases "f = FReturn")
      case True
      with s FindInsert have "\<sigma>' = \<sigma>" "pc l' \<noteq> TryReturned True"
        by (auto simp: code_step_def findInsert_step_def bind_eq_Some_conv split: if_splits)
      with FindInsert show ?thesis by (auto simp: finishing_def)
    next
      case False
      with s FindInsert have fs: "find_step (\<lambda>s n. s > getStart n) (\<lambda>s n. s \<ge> getStart n) True (FindInsert relink) M f \<sigma> l = Some (\<sigma>', l')"
        by (simp add: code_step_def findInsert_step_def)
      with search_count [OF fs] find_step_pc [OF fs] FindInsert show ?thesis by (auto simp: finishing_def)
    qed
  next
    case (FindExact f)
    then show ?thesis
    proof (cases "f = FReturn")
      case True
      with s FindExact have "\<sigma>' = \<sigma>"
        by (auto simp: code_step_def findExact_step_def bind_eq_Some_conv split: if_splits)
      with FindExact show ?thesis by (auto simp: finishing_def publishing_def)
    next
      case False
      with s FindExact have fs: "find_step (\<lambda>s n. s \<ge> getStart n) (\<lambda>s n. s \<ge> getEnd n) True FindExact M f \<sigma> l = Some (\<sigma>', l')"
        by (simp add: code_step_def findExact_step_def)
      with search_count [OF fs] FindExact show ?thesis by (auto simp: finishing_def publishing_def)
    qed
  next
    case (FindDelete f)
    then show ?thesis
    proof (cases "f = FReturn")
      case True
      with s FindDelete have "\<sigma>' = \<sigma>\<lparr>elementsCount := elementsCount \<sigma> - 1\<rparr>" "pc l' = RelReturned True"
        by (auto simp: code_step_def findDelete_step_def)
      with FindDelete show ?thesis by (auto simp: finishing_def publishing_def)
    next
      case False
      with s FindDelete have fs: "find_step (\<lambda>s n. s \<ge> getStart n) (\<lambda>s n. s \<ge> getEnd n) False FindDelete M f \<sigma> l = Some (\<sigma>', l')"
        by (simp add: code_step_def findDelete_step_def)
      with search_count [OF fs] find_step_pc [OF fs] FindDelete show ?thesis by (auto simp: publishing_def)
    qed
  next
    case TryLink
    show ?thesis
    proof (cases "link_level l \<le> topLevel l")
      case True
      with s TryLink obtain ok where "cas_next \<sigma> (preds l (link_level l)) (link_level l) (succs l (link_level l)) (newNode l) False False = Some (ok, \<sigma>')"
        "pc l' \<in> {TryLink, FindInsert True FRetry}"
        by (auto simp: code_step_def bind_eq_Some_conv)
      with cas TryLink show ?thesis by (auto simp: finishing_def)
    next
      case False
      with s TryLink show ?thesis by (auto simp: code_step_def publishing_def finishing_def)
    qed
  next
    case TryCas0
    with s obtain ok where "cas_next \<sigma> (preds l 0) 0 (succs l 0) (newNode l) False False = Some (ok, \<sigma>')"
      by (auto simp: code_step_def bind_eq_Some_conv)
    with cas TryCas0 show ?thesis by (auto simp: finishing_def publishing_def)
  next
    case RelCas0
    with s obtain ok where "cas_next \<sigma> (nodeToRemove l) 0 (succ l) (succ l) False True = Some (ok, \<sigma>')"
      by (auto simp: code_step_def bind_eq_Some_conv)
    with cas RelCas0 show ?thesis by (auto simp: finishing_def publishing_def)
  next
    case RelMarkWhile
    with s show ?thesis
      by (auto simp: code_step_def bind_eq_Some_conv finishing_def publishing_def dest: am split: if_splits)
  next
    case RelReget0
    with s have "\<sigma>' = \<sigma>" "pc l' \<noteq> RelReturned True"
      by (auto simp: code_step_def bind_eq_Some_conv split: if_splits)
    with RelReget0 show ?thesis by (auto simp: publishing_def)
  qed (use s in \<open>auto simp: code_step_def bind_eq_Some_conv finishing_def publishing_def split: if_splits\<close>)
qed

definition count_inv :: "('t::{linorder,order_bot,order_top}) system \<Rightarrow> bool" where
  "count_inv S \<longleftrightarrow> finite (held_ranges (lock S)) \<and> finite {t. publishing (threads S t)} \<and> finite {t. finishing (threads S t)} \<and>
     of_nat (card (held_ranges (lock S))) + of_nat (card {t. finishing (threads S t)}) =
     elementsCount (lock S) + of_nat (card {t. publishing (threads S t)})"

text \<open>The threads in a phase when one thread moves on.\<close>

lemma card_phase_upd:
  assumes "finite {u. P (f u)}"
  shows "finite {u. P ((f(t := x)) u)}"
    and "card {u. P ((f(t := x)) u)} + of_bool (P (f t)) = card {u. P (f u)} + of_bool (P x)"
proof -
  define A where "A = {u. P (f u)} - {t}"
  have A: "finite A" "t \<notin> A" using assms by (simp_all add: A_def)
  have new: "{u. P ((f(t := x)) u)} = (if P x then insert t A else A)" by (auto simp: A_def)
  have old: "{u. P (f u)} = (if P (f t) then insert t A else A)" by (auto simp: A_def)
  show "finite {u. P ((f(t := x)) u)}" "card {u. P ((f(t := x)) u)} + of_bool (P (f t)) = card {u. P (f u)} + of_bool (P x)"
    unfolding new old using A by simp_all
qed

definition is_acquire :: "'r action \<Rightarrow> bool" where
  "is_acquire a \<longleftrightarrow> (\<exists>r. a = Acquire r)"

definition is_release :: "'r action \<Rightarrow> bool" where
  "is_release a \<longleftrightarrow> (\<exists>r. a = Release r)"

lemma card_spec:
  assumes "closed_spec R a R'" "finite R"
  shows "finite R'" "card R' + of_bool (is_release a) = card R + of_bool (is_acquire a)"
proof -
  from assms(1) have "finite R' \<and> card R' + of_bool (is_release a) = card R + of_bool (is_acquire a)"
  proof cases
    case (acquire r)
    then have "r \<notin> R" by (auto simp: closed_valid_def closed_overlaps_def)
    with acquire assms(2) show ?thesis by (simp add: is_acquire_def is_release_def)
  next
    case (release r)
    with card_Suc_Diff1 [OF assms(2), of r] assms(2) show ?thesis by (simp add: is_acquire_def is_release_def)
  qed (use assms(2) in \<open>simp add: is_acquire_def is_release_def\<close>)
  then show "finite R'" "card R' + of_bool (is_release a) = card R + of_bool (is_acquire a)" by simp_all
qed

lemma fresh_phase [simp]: "\<not> publishing fresh_locals" "\<not> finishing fresh_locals"
  by (auto simp: phase_defs fresh_locals_def)

lemma init_count: "count_inv (init_system M)"
  by (simp add: count_inv_def init_held_ranges) (simp add: init_system_def ConcurrentRangeLock_def)

lemma word_count:
  fixes e :: "64 word"
  assumes "of_nat R + of_nat F = e + of_nat P"
    and "R' + r = R + a" "F' + f = F + f'" "P' + p = P + p'" "a + f' + y + p = x + p' + r + f"
  shows "of_nat R' + of_nat F' = e + of_nat x - of_nat y + of_nat P'"
proof -
  have "of_nat R' + of_nat r = (of_nat R + of_nat a :: 64 word)" "of_nat F' + of_nat f = (of_nat F + of_nat f' :: 64 word)"
    "of_nat P' + of_nat p = (of_nat P + of_nat p' :: 64 word)"
    "of_nat a + of_nat f' + of_nat y + of_nat p = (of_nat x + of_nat p' + of_nat r + of_nat f :: 64 word)"
    using assms(2-5) by (simp_all only: flip: of_nat_add)
  then have R': "of_nat R' = (of_nat R + of_nat a - of_nat r :: 64 word)" and F': "of_nat F' = (of_nat F + of_nat f' - of_nat f :: 64 word)"
    and P': "of_nat P' = (of_nat P + of_nat p' - of_nat p :: 64 word)"
    and a: "of_nat a = (of_nat x + of_nat p' + of_nat r + of_nat f - of_nat f' - of_nat y - of_nat p :: 64 word)"
    and R: "of_nat R = (e + of_nat P - of_nat F :: 64 word)"
    using assms(1) by (simp_all add: eq_diff_eq ac_simps)
  show ?thesis unfolding R' F' P' a R by (simp add: algebra_simps)
qed

text \<open>What a step does to the phases, the count and the held ranges at once.\<close>

lemma step_balance:
  assumes s: "code_step M \<sigma> l = Some (\<sigma>', l')" and nc: "pc l \<noteq> Crashed"
  shows "of_bool (is_acquire (action_of l l')) + of_bool (finishing l') + of_bool (finishing l \<and> pc l' = RelReturned True)
      + of_bool (publishing l) =
    (of_bool (publishing l \<and> pc l' = TryReturned True) + of_bool (publishing l') + of_bool (is_release (action_of l l'))
      + of_bool (finishing l) :: nat)"
  using nc
proof (cases rule: phase_exhaust)
  case 1
  with s have "l' = l" using at_rest_step(1) by fastforce
  with 1 at_rest_step(2) [OF 1, of l] show ?thesis by (auto simp: phase_defs is_acquire_def is_release_def)
next
  case 2
  then have "\<not> publishing l" "\<not> finishing l" by (auto simp: phase_defs)
  moreover from trying_step(2) [OF s 2]
  have "action_of l l' = Silent \<and> \<not> publishing l' \<and> \<not> finishing l' \<or>
    action_of l l' = Acquire (args l) \<and> publishing l' \<and> \<not> finishing l'" by (auto simp: phase_defs)
  ultimately show ?thesis by (auto simp: is_acquire_def is_release_def)
next
  case 3
  then have "\<not> finishing l" by (auto simp: phase_defs)
  moreover from publishing_step(2) [OF s 3]
  have "(publishing l' \<and> pc l' \<noteq> TryReturned True \<or> \<not> publishing l' \<and> pc l' = TryReturned True) \<and> \<not> finishing l'"
    by (auto simp: phase_defs)
  ultimately show ?thesis using publishing_step(3) [OF s 3] 3 by (auto simp: is_acquire_def is_release_def)
next
  case 4
  then have "\<not> publishing l" "\<not> finishing l" by (auto simp: phase_defs)
  moreover from releasing_phase_step(2) [OF s 4]
  have "action_of l l' = Silent \<and> \<not> publishing l' \<and> \<not> finishing l' \<or>
    action_of l l' = Release (args l) \<and> finishing l' \<and> \<not> publishing l'" by (auto simp: phase_defs)
  ultimately show ?thesis by (auto simp: is_acquire_def is_release_def)
next
  case 5
  then have "\<not> publishing l" by (auto simp: phase_defs)
  moreover from finishing_step(1) [OF s 5]
  have "(finishing l' \<and> pc l' \<noteq> RelReturned True \<or> \<not> finishing l' \<and> pc l' = RelReturned True) \<and> \<not> publishing l'"
    by (auto simp: phase_defs)
  ultimately show ?thesis using finishing_step(2) [OF s 5] 5 by (auto simp: is_acquire_def is_release_def)
qed

lemma count_same:
  assumes "count_inv S" "lock S' = lock S" "\<And>u. publishing (threads S' u) \<longleftrightarrow> publishing (threads S u)"
    "\<And>u. finishing (threads S' u) \<longleftrightarrow> finishing (threads S u)"
  shows "count_inv S'"
  using assms by (simp add: count_inv_def)

lemma event_count:
  assumes inv: "system_inv M S" and c: "count_inv S"
  shows "count_inv (do_event M ev S)"
proof (cases ev)
  case (Step t)
  let ?l = "threads S t"
  obtain \<sigma>' l' where s: "code_step M (lock S) ?l = Some (\<sigma>', l')" "step M (lock S) ?l = (\<sigma>', l')"
    by (rule step_defined [OF inv])
  have S: "lock (do_event M ev S) = \<sigma>'" "threads (do_event M ev S) = (threads S)(t := l')" using s(2) Step by simp_all
  have ref: "closed_spec (held_ranges (lock S)) (action_of ?l l') (held_ranges \<sigma>')"
    using event_refines [OF inv, of "Step t"] s(2) by simp
  have nc: "pc ?l \<noteq> Crashed" using system_invD(2) [OF inv, of t] by (auto simp: thread_inv_def)
  from c have fin: "finite (held_ranges (lock S))" "finite {t. publishing (threads S t)}" "finite {t. finishing (threads S t)}"
    and eq: "of_nat (card (held_ranges (lock S))) + of_nat (card {t. finishing (threads S t)}) =
      elementsCount (lock S) + of_nat (card {t. publishing (threads S t)})"
    by (simp_all only: count_inv_def)
  note word_count [OF eq card_spec(2) [OF ref fin(1)] card_phase_upd(2) [where P = finishing, OF fin(3), of t l']
    card_phase_upd(2) [where P = publishing, OF fin(2), of t l'] step_balance [OF s(1) nc]]
  moreover have "elementsCount \<sigma>' = elementsCount (lock S) + of_nat (of_bool (publishing ?l \<and> pc l' = TryReturned True))
    - of_nat (of_bool (finishing ?l \<and> pc l' = RelReturned True))"
    using code_step_count [OF s(1)] by simp
  ultimately show ?thesis
    unfolding count_inv_def S using card_spec(1) [OF ref fin(1)] card_phase_upd(1) [where P = publishing, OF fin(2), of t l']
      card_phase_upd(1) [where P = finishing, OF fin(3), of t l'] by (simp only: simp_thms)
qed (intro count_same [OF c]; auto simp: phase_defs call_tryLock_def call_releaseLock_def)+

lemma reachable_count: "reachable M S \<Longrightarrow> count_inv S"
  by (induction rule: reachable.induct) (auto intro: init_count event_count reachable_system_inv)

lemma size_of_rest:
  assumes "reachable M S" "\<forall>t. at_rest (threads S t)"
  shows "finite (held_ranges (lock S)) \<and> size_v0 (lock S) = of_nat (card (held_ranges (lock S)))"
proof -
  have "\<not> publishing (threads S t)" "\<not> finishing (threads S t)" for t
    using assms(2) by (auto simp: phase_defs split: pc.splits)
  then show ?thesis using reachable_count [OF assms(1)] by (simp add: count_inv_def size_v0_def)
qed

text \<open>
  C7. \<open>size()\<close> is right whenever no thread is inside an operation: after any interleaving of calls and
  steps that ends with all threads at rest it is the number of held ranges (modulo \<open>2 ^ 64\<close>).
\<close>
theorem v0_size_at_rest:
  assumes "reachable M S" "\<forall>t. at_rest (threads S t)"
  shows "finite (held_ranges (lock S)) \<and> size_v0 (lock S) = of_nat (card (held_ranges (lock S)))"
  using assms by (rule size_of_rest)

theorem v0_size_at_rest_witness:
  "size_v0 (lock (run_events 0 (CallTry 0 5 (10 :: 16 word) (\<lambda>_. 0) # replicate 8 (Step 0)) (init_system 0))) = 1"
proof -
  let ?evs = "CallTry 0 5 (10 :: 16 word) (\<lambda>_. 0) # replicate 8 (Step 0)"
  let ?S = "run_events 0 ?evs (init_system 0)"
  have legal: "list_all legal_event ?evs" by code_simp
  have "at_rest (threads ?S t)" for t
  proof (cases "t = 0")
    case True
    have "at_rest (threads ?S 0)" by code_simp
    with True show ?thesis by simp
  next
    case False
    then have "threads ?S t = fresh_locals" by (subst idle_thread) (auto simp: init_system_def)
    then show ?thesis by (simp add: at_rest_def fresh_locals_def)
  qed
  then have "size_v0 (lock ?S) = of_nat (card (held_ranges (lock ?S)))"
    using v0_size_at_rest [OF run_reachable [OF legal]] by blast
  moreover have "fold apply_action (run_actions 0 ?evs (init_system 0)) {} = {(5, 10)}" by code_simp
  then have "held_ranges (lock ?S) = {(5, 10)}" unfolding held_ranges_of_run [OF legal] .
  ultimately show ?thesis by simp
qed

end
