(* ===== verification/V0_Display.thy ===== *)
theory V0_Display
  imports V0_Skiplist
begin

text \<open>
  \<open>displayList\<close> of \<open>src/v0/range_lock.hpp\<close>, as one thread runs it while no other does: the display
  as data, for each level from the highest down a cell per element, with the range and the flag it
  prints for the nodes that reach the level. \<open>None\<close> is a null pointer followed, or the exception of
  a vector of negative length.
\<close>

datatype 't display0 = List_Is_Empty0 | Display_Levels0 "(nat \<times> ('t range \<times> bool) option list) list"

text \<open>The flag printed with an element is the one read with the link that led to it.\<close>

fun display_elements0 :: "nat \<Rightarrow> addr option \<Rightarrow> bool \<Rightarrow> 't crl \<Rightarrow> ('t node \<times> bool) list option" where
  "display_elements0 0 current flag \<sigma> = Some []"
| "display_elements0 (Suc len) current flag \<sigma> = do {
     n \<leftarrow> deref \<sigma> current;
     (q, flag') \<leftarrow> read_next \<sigma> current 0;
     ns \<leftarrow> display_elements0 len q flag' \<sigma>;
     Some ((n, flag) # ns) }"

definition displayList_v0 :: "nat \<Rightarrow> 't crl \<Rightarrow> 't display0 option" where
  "displayList_v0 maxLevel \<sigma> =
     (if elementsCount \<sigma> = 0 then Some List_Is_Empty0
      else if 0x80000000 \<le> elementsCount \<sigma> then None
      else do {
        (current, _) \<leftarrow> read_next \<sigma> (Some (head \<sigma>)) 0;
        ns \<leftarrow> display_elements0 (unat (elementsCount \<sigma>)) current False \<sigma>;
        Some (Display_Levels0 (map (\<lambda>i. (i, map (\<lambda>(n, flag). if i < getTopLevel n + 1
          then Some ((getStart n, getEnd n), flag) else None) ns)) (rev [0 ..< maxLevel + 1]))) })"

text \<open>
  The flag is the mark of the element before: while the first of two nodes is marked and still
  linked, the display shows the first without and the second with the flag.
\<close>

theorem v0_display_shifts_mark:
  "displayList_v0 0 (lock (run_events 0 (CallTry 0 5 (10 :: 16 word) (\<lambda>_. 0) # replicate 12 (Step 0) @
     CallTry 0 20 30 (\<lambda>_. 0) # replicate 12 (Step 0) @ CallRelease 0 5 10 # replicate 7 (Step 0)) (init_system 0))) =
   Some (Display_Levels0 [(0, [Some ((5, 10), False), Some ((20, 30), True)])])"
  by code_simp

end
