(* ===== verification/V1_Skiplist.thy ===== *)
theory V1_Skiplist
  imports RL_Prelude
begin

text \<open>
  The skip list of \<open>src/v1/node.hpp\<close> and \<open>src/v1/range_lock.hpp\<close>: the searches take no lock, an
  insertion or removal locks the predecessors of its node and checks them again. As in the model of
  v0, the key type is a type variable with a least and a greatest element, \<open>maxLevel\<close> is an
  argument, and one step runs the code of a thread up to and including its next access to shared
  memory. The plain fields \<open>next\<close>, \<open>marked\<close> and \<open>fullyLinked\<close> are accessed as if each access were
  atomic. A step that would block on a mutex leaves everything as it is; \<open>None\<close> is a null pointer
  followed, an uninitialised pointer followed or an array left.
\<close>

subsection \<open>Nodes and the lock object\<close>

type_synonym addr1 = nat

record 't node1 =
  start1 :: 't
  end1 :: 't
  topLevel1 :: nat
  next1 :: "addr1 option list"
  marked1 :: bool
  fullyLinked1 :: bool
  mutex1 :: bool

text \<open>The constructor leaves the links uninitialised; reading one is reading \<open>None\<close>.\<close>

definition createNode_V1 :: "'t \<Rightarrow> 't \<Rightarrow> nat \<Rightarrow> 't node1" where
  "createNode_V1 s e lvl = \<lparr>start1 = s, end1 = e, topLevel1 = lvl, next1 = replicate (lvl + 1) None,
     marked1 = False, fullyLinked1 = False, mutex1 = False\<rparr>"

definition getTopLevel1 :: "'t node1 \<Rightarrow> nat" where
  "getTopLevel1 n = topLevel1 n"

definition getStart1 :: "'t node1 \<Rightarrow> 't" where
  "getStart1 n = start1 n"

definition getEnd1 :: "'t node1 \<Rightarrow> 't" where
  "getEnd1 n = end1 n"

lemmas getter1_defs [simp] = getTopLevel1_def getStart1_def getEnd1_def

record 't lock1 =
  heap1 :: "addr1 \<Rightarrow> 't node1 option"
  brk1 :: addr1
  head1 :: addr1
  tail1 :: addr1
  elementsCount1 :: "64 word"

text \<open>The loop of the constructor sets all links of the head.\<close>

definition ConcurrentRangeLock_V1 :: "nat \<Rightarrow> ('t::{linorder,order_bot,order_top}) lock1" where
  "ConcurrentRangeLock_V1 maxLevel =
     (let h = createNode_V1 bot bot maxLevel
      in \<lparr>heap1 = [0 \<mapsto> h\<lparr>next1 := map (\<lambda>_. Some 1) [0 ..< maxLevel + 1]\<rparr>, 1 \<mapsto> createNode_V1 top top maxLevel],
          brk1 = 2, head1 = 0, tail1 = 1, elementsCount1 = 0\<rparr>)"

definition size_v1 :: "'t lock1 \<Rightarrow> 64 word" where
  "size_v1 \<sigma> = elementsCount1 \<sigma>"

text \<open>
  \<open>generateRandomLevel\<close>: the \<open>i\<close>-th test of the loop, counted from 1, has \<open>level = i\<close>, so \<open>rnd i\<close>
  is what its call of \<open>rand()\<close> returns.
\<close>

function generateRandomLevel_from :: "nat \<Rightarrow> (nat \<Rightarrow> nat) \<Rightarrow> nat \<Rightarrow> nat" where
  "generateRandomLevel_from maxLevel rnd lv =
     (if rnd lv mod 2 = 0 \<and> lv < maxLevel then generateRandomLevel_from maxLevel rnd (lv + 1) else lv)"
  by pat_completeness auto
termination
  by (relation "measure (\<lambda>(maxLevel, rnd, lv). maxLevel - lv)") auto

declare generateRandomLevel_from.simps [simp del]

definition generateRandomLevel :: "nat \<Rightarrow> (nat \<Rightarrow> nat) \<Rightarrow> nat" where
  "generateRandomLevel maxLevel rnd = generateRandomLevel_from maxLevel rnd 1"

subsection \<open>Access to shared memory\<close>

definition deref1 :: "'t lock1 \<Rightarrow> addr1 option \<Rightarrow> 't node1 option" where
  "deref1 \<sigma> p = Option.bind p (heap1 \<sigma>)"

text \<open>\<open>p->next[k]\<close>, read and written.\<close>

definition read1 :: "'t lock1 \<Rightarrow> addr1 option \<Rightarrow> nat \<Rightarrow> addr1 option option" where
  "read1 \<sigma> p k = do {
     n \<leftarrow> deref1 \<sigma> p;
     if k < length (next1 n) then Some (next1 n ! k) else None }"

definition update1 :: "'t lock1 \<Rightarrow> addr1 option \<Rightarrow> ('t node1 \<Rightarrow> 't node1) \<Rightarrow> 't lock1 option" where
  "update1 \<sigma> p f = do {
     a \<leftarrow> p;
     n \<leftarrow> heap1 \<sigma> a;
     Some (\<sigma>\<lparr>heap1 := (heap1 \<sigma>)(a \<mapsto> f n)\<rparr>) }"

definition write1 :: "'t lock1 \<Rightarrow> addr1 option \<Rightarrow> nat \<Rightarrow> addr1 option \<Rightarrow> 't lock1 option" where
  "write1 \<sigma> p k q = do {
     n \<leftarrow> deref1 \<sigma> p;
     if k < length (next1 n) then update1 \<sigma> p (\<lambda>n. n\<lparr>next1 := (next1 n)[k := q]\<rparr>) else None }"

subsection \<open>The state of a thread\<close>

text \<open>Which operation a search or a locking loop is for.\<close>

datatype op1 = Inserting | Removing | Searching

text \<open>
  The places in the code. \<open>FindLevel\<close> is the head of the loop over the levels, \<open>FindWhile\<close> the
  inner loop and \<open>FindDone\<close> the code behind the search. \<open>LockPred\<close> is \<open>trackAndLock(pred)\<close>, the
  three \<open>Val\<close> places are the parts of the validation, \<open>Unlock\<close> is \<open>unlockAll\<close> at the end of the
  scope: behind it the operation starts over, or returns.
\<close>

datatype pc1 =
    Idle1
  | FindLevel op1 | FindWhile op1 | FindDone op1
  | SearchMarked
  | LockVictim | CheckVictim | MarkVictim
  | LockPred op1 | ValPred op1 | ValSucc | ValNext op1
  | NewNode | LinkNew | LinkPred | FullyLinked | CountUp
  | UnlinkRead | UnlinkWrite | CountDown
  | Unlock op1 "bool option"
  | TryReturned1 bool
  | RelReturned1 bool
  | SearchReturned1 bool
  | Exited1
  | Crashed1

record 't locals1 =
  pc1 :: pc1
  s_arg :: 't
  e_arg :: 't
  top_lv :: nat
  found_lv :: "nat option"
  pred1 :: "addr1 option"
  curr1 :: "addr1 option"
  lv1 :: nat
  preds1 :: "nat \<Rightarrow> addr1 option"
  succs1 :: "nat \<Rightarrow> addr1 option"
  tracked :: "addr1 list"
  new1 :: "addr1 option"
  victim1 :: "addr1 option"
  isMarked1 :: bool
  next_val :: "addr1 option"

definition fresh_locals1 :: "('t::order_bot) locals1" where
  "fresh_locals1 = \<lparr>pc1 = Idle1, s_arg = bot, e_arg = bot, top_lv = 0, found_lv = None, pred1 = None,
     curr1 = None, lv1 = 0, preds1 = (\<lambda>_. None), succs1 = (\<lambda>_. None), tracked = [], new1 = None,
     victim1 = None, isMarked1 = False, next_val = None\<rparr>"

type_synonym 't result1 = "('t lock1 \<times> 't locals1) option"

text \<open>Entering a search: \<open>levelFound = -1\<close>, \<open>pred = head\<close>, \<open>level = maxLevel\<close>.\<close>

definition start_find :: "nat \<Rightarrow> 't lock1 \<Rightarrow> op1 \<Rightarrow> 't locals1 \<Rightarrow> 't locals1" where
  "start_find maxLevel \<sigma> op l = l\<lparr>found_lv := None, pred1 := Some (head1 \<sigma>), lv1 := maxLevel, pc1 := FindLevel op\<rparr>"

text \<open>Entering the operations.\<close>

definition call_tryLock1 :: "nat \<Rightarrow> 't \<Rightarrow> 't \<Rightarrow> (nat \<Rightarrow> nat) \<Rightarrow> 't lock1 \<Rightarrow> 't locals1 \<Rightarrow> 't locals1" where
  "call_tryLock1 maxLevel s e rnd \<sigma> l =
     start_find maxLevel \<sigma> Inserting (l\<lparr>s_arg := s, e_arg := e, top_lv := generateRandomLevel maxLevel rnd\<rparr>)"

definition call_releaseLock1 :: "nat \<Rightarrow> 't \<Rightarrow> 't \<Rightarrow> 't lock1 \<Rightarrow> 't locals1 \<Rightarrow> 't locals1" where
  "call_releaseLock1 maxLevel s e \<sigma> l =
     start_find maxLevel \<sigma> Removing (l\<lparr>s_arg := s, e_arg := e, victim1 := None, isMarked1 := False\<rparr>)"

definition call_searchLock1 :: "nat \<Rightarrow> 't \<Rightarrow> 't \<Rightarrow> 't lock1 \<Rightarrow> 't locals1 \<Rightarrow> 't locals1" where
  "call_searchLock1 maxLevel s e \<sigma> l = start_find maxLevel \<sigma> Searching (l\<lparr>s_arg := s, e_arg := e\<rparr>)"

subsection \<open>The searches\<close>

text \<open>
  \<open>findInsert\<close> and \<open>findExact\<close> have one loop and differ in the test that sets \<open>levelFound\<close>.
\<close>

definition found_test :: "op1 \<Rightarrow> ('t::linorder) locals1 \<Rightarrow> 't node1 \<Rightarrow> bool" where
  "found_test op l n = (case op of
       Inserting \<Rightarrow> e_arg l \<ge> getStart1 n
     | _ \<Rightarrow> s_arg l = getStart1 n \<and> e_arg l = getEnd1 n)"

definition find_level :: "op1 \<Rightarrow> 't lock1 \<Rightarrow> 't locals1 \<Rightarrow> 't result1" where
  "find_level op \<sigma> l = do {
     q \<leftarrow> read1 \<sigma> (pred1 l) (lv1 l);
     Some (\<sigma>, l\<lparr>curr1 := q, pc1 := FindWhile op\<rparr>) }"

definition find_while :: "op1 \<Rightarrow> ('t::linorder) lock1 \<Rightarrow> 't locals1 \<Rightarrow> 't result1" where
  "find_while op \<sigma> l = do {
     n \<leftarrow> deref1 \<sigma> (curr1 l);
     if s_arg l \<ge> getEnd1 n
     then do {
       q \<leftarrow> read1 \<sigma> (curr1 l) (lv1 l);
       Some (\<sigma>, l\<lparr>pred1 := curr1 l, curr1 := q\<rparr>) }
     else (let l1 = l\<lparr>found_lv := (if found_lv l = None \<and> found_test op l n then Some (lv1 l) else found_lv l),
                      preds1 := (preds1 l)(lv1 l := pred1 l), succs1 := (succs1 l)(lv1 l := curr1 l)\<rparr>
           in Some (\<sigma>, if lv1 l = 0 then l1\<lparr>pc1 := FindDone op\<rparr>
                       else l1\<lparr>lv1 := lv1 l - 1, pc1 := FindLevel op\<rparr>)) }"

text \<open>Behind the search: what \<open>tryLock\<close>, \<open>releaseLock\<close> and \<open>searchLock\<close> make of \<open>levelFound\<close>.\<close>

definition insert_found :: "nat \<Rightarrow> 't lock1 \<Rightarrow> 't locals1 \<Rightarrow> 't result1" where
  "insert_found maxLevel \<sigma> l = (case found_lv l of
       Some k \<Rightarrow> do {
         n \<leftarrow> deref1 \<sigma> (succs1 l k);
         Some (\<sigma>, if \<not> marked1 n then l\<lparr>pc1 := TryReturned1 False\<rparr> else start_find maxLevel \<sigma> Inserting l) }
     | None \<Rightarrow> Some (\<sigma>, l\<lparr>lv1 := 0, pc1 := LockPred Inserting\<rparr>))"

text \<open>\<open>exit(0)\<close> is the place \<open>Exited1\<close> of the calling thread; the model lets the other threads go on.\<close>

definition remove_found :: "'t lock1 \<Rightarrow> 't locals1 \<Rightarrow> 't result1" where
  "remove_found \<sigma> l = (case found_lv l of
       None \<Rightarrow> Some (\<sigma>, l\<lparr>pc1 := Exited1\<rparr>)
     | Some k \<Rightarrow>
         (let l1 = l\<lparr>victim1 := succs1 l k\<rparr>
          in if isMarked1 l then Some (\<sigma>, l1\<lparr>lv1 := 0, pc1 := LockPred Removing\<rparr>)
             else do {
               n \<leftarrow> deref1 \<sigma> (victim1 l1);
               Some (\<sigma>, if getTopLevel1 n = k \<and> \<not> marked1 n then l1\<lparr>pc1 := LockVictim\<rparr>
                        else l1\<lparr>pc1 := Unlock Removing (Some False)\<rparr>) }))"

definition search_found :: "'t lock1 \<Rightarrow> 't locals1 \<Rightarrow> 't result1" where
  "search_found \<sigma> l = (case found_lv l of
       None \<Rightarrow> Some (\<sigma>, l\<lparr>pc1 := SearchReturned1 False\<rparr>)
     | Some k \<Rightarrow> do {
         n \<leftarrow> deref1 \<sigma> (succs1 l k);
         Some (\<sigma>, l\<lparr>pc1 := (if fullyLinked1 n then SearchMarked else SearchReturned1 False)\<rparr>) })"

subsection \<open>Locking\<close>

text \<open>\<open>Node_V1Locker::trackAndLock\<close>, going on at \<open>k\<close>: a step that finds the mutex locked waits.\<close>

definition trackAndLock :: "addr1 option \<Rightarrow> pc1 \<Rightarrow> 't lock1 \<Rightarrow> 't locals1 \<Rightarrow> 't result1" where
  "trackAndLock p k \<sigma> l = do {
     a \<leftarrow> p;
     if a \<in> set (tracked l) then Some (\<sigma>, l\<lparr>pc1 := k\<rparr>)
     else do {
       n \<leftarrow> heap1 \<sigma> a;
       if mutex1 n then Some (\<sigma>, l)
       else do {
         \<sigma>' \<leftarrow> update1 \<sigma> p (\<lambda>n. n\<lparr>mutex1 := True\<rparr>);
         Some (\<sigma>', l\<lparr>tracked := tracked l @ [a], pc1 := k\<rparr>) } } }"

text \<open>
  \<open>Node_V1Locker::unlockAll\<close>, from the last node locked to the first; \<open>res\<close> is what the
  operation returns behind it, \<open>None\<close> when it starts over.
\<close>

definition unlockAll :: "nat \<Rightarrow> op1 \<Rightarrow> bool option \<Rightarrow> 't lock1 \<Rightarrow> 't locals1 \<Rightarrow> 't result1" where
  "unlockAll maxLevel op res \<sigma> l =
     (if tracked l = []
      then Some (\<sigma>, case res of
               None \<Rightarrow> start_find maxLevel \<sigma> op l
             | Some b \<Rightarrow> l\<lparr>pc1 := (if op = Inserting then TryReturned1 b else RelReturned1 b)\<rparr>)
      else do {
        \<sigma>' \<leftarrow> update1 \<sigma> (Some (last (tracked l))) (\<lambda>n. n\<lparr>mutex1 := False\<rparr>);
        Some (\<sigma>', l\<lparr>tracked := butlast (tracked l)\<rparr>) })"

text \<open>The node whose predecessors are validated.\<close>

definition expected :: "op1 \<Rightarrow> 't locals1 \<Rightarrow> addr1 option" where
  "expected op l = (if op = Inserting then succs1 l (lv1 l) else victim1 l)"

text \<open>The end of one round of the locking loop: the next level, or the code behind the loop.\<close>

definition level_valid :: "op1 \<Rightarrow> 't locals1 \<Rightarrow> 't locals1" where
  "level_valid op l =
     (if lv1 l + 1 \<le> top_lv l then l\<lparr>lv1 := lv1 l + 1, pc1 := LockPred op\<rparr>
      else if op = Inserting then l\<lparr>pc1 := NewNode\<rparr>
      else l\<lparr>lv1 := top_lv l, pc1 := UnlinkRead\<rparr>)"

fun lock_step :: "nat \<Rightarrow> pc1 \<Rightarrow> 't lock1 \<Rightarrow> 't locals1 \<Rightarrow> 't result1" where
  "lock_step maxLevel (LockPred op) \<sigma> l =
     (if lv1 l \<le> maxLevel then trackAndLock (preds1 l (lv1 l)) (ValPred op) \<sigma> l else None)"
| "lock_step maxLevel (ValPred op) \<sigma> l = do {
     p \<leftarrow> deref1 \<sigma> (preds1 l (lv1 l));
     Some (\<sigma>, l\<lparr>pc1 := (if marked1 p then Unlock op None
                        else if op = Inserting then ValSucc else ValNext op)\<rparr>) }"
| "lock_step maxLevel ValSucc \<sigma> l = do {
     c \<leftarrow> deref1 \<sigma> (succs1 l (lv1 l));
     Some (\<sigma>, l\<lparr>pc1 := (if marked1 c then Unlock Inserting None else ValNext Inserting)\<rparr>) }"
| "lock_step maxLevel (ValNext op) \<sigma> l = do {
     q \<leftarrow> read1 \<sigma> (preds1 l (lv1 l)) (lv1 l);
     Some (\<sigma>, if q = expected op l then level_valid op l else l\<lparr>pc1 := Unlock op None\<rparr>) }"
| "lock_step maxLevel (Unlock op res) \<sigma> l = unlockAll maxLevel op res \<sigma> l"
| "lock_step maxLevel _ \<sigma> l = None"

subsection \<open>Linking and unlinking\<close>

fun insert_step1 :: "pc1 \<Rightarrow> 't lock1 \<Rightarrow> 't locals1 \<Rightarrow> 't result1" where
  "insert_step1 NewNode \<sigma> l =
     Some (\<sigma>\<lparr>heap1 := (heap1 \<sigma>)(brk1 \<sigma> \<mapsto> createNode_V1 (s_arg l) (e_arg l) (top_lv l)), brk1 := brk1 \<sigma> + 1\<rparr>,
           l\<lparr>new1 := Some (brk1 \<sigma>), lv1 := 0, pc1 := LinkNew\<rparr>)"
| "insert_step1 LinkNew \<sigma> l = do {
     \<sigma>' \<leftarrow> write1 \<sigma> (new1 l) (lv1 l) (succs1 l (lv1 l));
     Some (\<sigma>', l\<lparr>pc1 := LinkPred\<rparr>) }"
| "insert_step1 LinkPred \<sigma> l = do {
     \<sigma>' \<leftarrow> write1 \<sigma> (preds1 l (lv1 l)) (lv1 l) (new1 l);
     Some (\<sigma>', if lv1 l + 1 \<le> top_lv l then l\<lparr>lv1 := lv1 l + 1, pc1 := LinkNew\<rparr> else l\<lparr>pc1 := FullyLinked\<rparr>) }"
| "insert_step1 FullyLinked \<sigma> l = do {
     \<sigma>' \<leftarrow> update1 \<sigma> (new1 l) (\<lambda>n. n\<lparr>fullyLinked1 := True\<rparr>);
     Some (\<sigma>', l\<lparr>pc1 := CountUp\<rparr>) }"
| "insert_step1 CountUp \<sigma> l =
     Some (\<sigma>\<lparr>elementsCount1 := elementsCount1 \<sigma> + 1\<rparr>, l\<lparr>pc1 := Unlock Inserting (Some True)\<rparr>)"
| "insert_step1 _ \<sigma> l = None"

fun remove_step1 :: "pc1 \<Rightarrow> 't lock1 \<Rightarrow> 't locals1 \<Rightarrow> 't result1" where
  "remove_step1 LockVictim \<sigma> l = do {
     n \<leftarrow> deref1 \<sigma> (victim1 l);
     trackAndLock (victim1 l) CheckVictim \<sigma> (l\<lparr>top_lv := getTopLevel1 n\<rparr>) }"
| "remove_step1 CheckVictim \<sigma> l = do {
     n \<leftarrow> deref1 \<sigma> (victim1 l);
     Some (\<sigma>, l\<lparr>pc1 := (if marked1 n then Unlock Removing (Some False) else MarkVictim)\<rparr>) }"
| "remove_step1 MarkVictim \<sigma> l = do {
     \<sigma>' \<leftarrow> update1 \<sigma> (victim1 l) (\<lambda>n. n\<lparr>marked1 := True\<rparr>);
     Some (\<sigma>', l\<lparr>isMarked1 := True, lv1 := 0, pc1 := LockPred Removing\<rparr>) }"
| "remove_step1 UnlinkRead \<sigma> l = do {
     q \<leftarrow> read1 \<sigma> (victim1 l) (lv1 l);
     Some (\<sigma>, l\<lparr>next_val := q, pc1 := UnlinkWrite\<rparr>) }"
| "remove_step1 UnlinkWrite \<sigma> l = do {
     \<sigma>' \<leftarrow> write1 \<sigma> (preds1 l (lv1 l)) (lv1 l) (next_val l);
     Some (\<sigma>', if lv1 l = 0 then l\<lparr>pc1 := CountDown\<rparr> else l\<lparr>lv1 := lv1 l - 1, pc1 := UnlinkRead\<rparr>) }"
| "remove_step1 CountDown \<sigma> l =
     Some (\<sigma>\<lparr>elementsCount1 := elementsCount1 \<sigma> - 1\<rparr>, l\<lparr>pc1 := Unlock Removing (Some True)\<rparr>)"
| "remove_step1 _ \<sigma> l = None"

definition search_marked :: "'t lock1 \<Rightarrow> 't locals1 \<Rightarrow> 't result1" where
  "search_marked \<sigma> l = do {
     k \<leftarrow> found_lv l;
     n \<leftarrow> deref1 \<sigma> (succs1 l k);
     Some (\<sigma>, l\<lparr>pc1 := SearchReturned1 (\<not> marked1 n)\<rparr>) }"

subsection \<open>One step of a thread, and all threads\<close>

definition at_rest1 :: "'t locals1 \<Rightarrow> bool" where
  "at_rest1 l \<longleftrightarrow> (case pc1 l of Idle1 \<Rightarrow> True | TryReturned1 _ \<Rightarrow> True | RelReturned1 _ \<Rightarrow> True
     | SearchReturned1 _ \<Rightarrow> True | _ \<Rightarrow> False)"

definition code_step1 :: "nat \<Rightarrow> ('t::linorder) lock1 \<Rightarrow> 't locals1 \<Rightarrow> 't result1" where
  "code_step1 maxLevel \<sigma> l = (case pc1 l of
       FindLevel op \<Rightarrow> find_level op \<sigma> l
     | FindWhile op \<Rightarrow> find_while op \<sigma> l
     | FindDone Inserting \<Rightarrow> insert_found maxLevel \<sigma> l
     | FindDone Removing \<Rightarrow> remove_found \<sigma> l
     | FindDone Searching \<Rightarrow> search_found \<sigma> l
     | SearchMarked \<Rightarrow> search_marked \<sigma> l
     | LockPred op \<Rightarrow> lock_step maxLevel (LockPred op) \<sigma> l
     | ValPred op \<Rightarrow> lock_step maxLevel (ValPred op) \<sigma> l
     | ValSucc \<Rightarrow> lock_step maxLevel ValSucc \<sigma> l
     | ValNext op \<Rightarrow> lock_step maxLevel (ValNext op) \<sigma> l
     | Unlock op res \<Rightarrow> lock_step maxLevel (Unlock op res) \<sigma> l
     | NewNode \<Rightarrow> insert_step1 NewNode \<sigma> l
     | LinkNew \<Rightarrow> insert_step1 LinkNew \<sigma> l
     | LinkPred \<Rightarrow> insert_step1 LinkPred \<sigma> l
     | FullyLinked \<Rightarrow> insert_step1 FullyLinked \<sigma> l
     | CountUp \<Rightarrow> insert_step1 CountUp \<sigma> l
     | LockVictim \<Rightarrow> remove_step1 LockVictim \<sigma> l
     | CheckVictim \<Rightarrow> remove_step1 CheckVictim \<sigma> l
     | MarkVictim \<Rightarrow> remove_step1 MarkVictim \<sigma> l
     | UnlinkRead \<Rightarrow> remove_step1 UnlinkRead \<sigma> l
     | UnlinkWrite \<Rightarrow> remove_step1 UnlinkWrite \<sigma> l
     | CountDown \<Rightarrow> remove_step1 CountDown \<sigma> l
     | _ \<Rightarrow> Some (\<sigma>, l))"

definition step1 :: "nat \<Rightarrow> ('t::linorder) lock1 \<Rightarrow> 't locals1 \<Rightarrow> 't lock1 \<times> 't locals1" where
  "step1 maxLevel \<sigma> l = (case code_step1 maxLevel \<sigma> l of
     Some r \<Rightarrow> r | None \<Rightarrow> (\<sigma>, l\<lparr>pc1 := Crashed1\<rparr>))"

record 't system1 =
  lock1_of :: "'t lock1"
  threads1 :: "nat \<Rightarrow> 't locals1"

datatype 't event1 =
    CallTry1 nat 't 't "nat \<Rightarrow> nat"
  | CallRelease1 nat 't 't
  | CallSearch1 nat 't 't
  | Step1 nat

definition set_thread :: "nat \<Rightarrow> 't locals1 \<Rightarrow> 't system1 \<Rightarrow> 't system1" where
  "set_thread t l S = S\<lparr>threads1 := (threads1 S)(t := l)\<rparr>"

fun do_event1 :: "nat \<Rightarrow> ('t::linorder) event1 \<Rightarrow> 't system1 \<Rightarrow> 't system1" where
  "do_event1 maxLevel (CallTry1 t s e rnd) S = (if at_rest1 (threads1 S t)
     then set_thread t (call_tryLock1 maxLevel s e rnd (lock1_of S) (threads1 S t)) S else S)"
| "do_event1 maxLevel (CallRelease1 t s e) S = (if at_rest1 (threads1 S t)
     then set_thread t (call_releaseLock1 maxLevel s e (lock1_of S) (threads1 S t)) S else S)"
| "do_event1 maxLevel (CallSearch1 t s e) S = (if at_rest1 (threads1 S t)
     then set_thread t (call_searchLock1 maxLevel s e (lock1_of S) (threads1 S t)) S else S)"
| "do_event1 maxLevel (Step1 t) S =
     (let (\<sigma>', l') = step1 maxLevel (lock1_of S) (threads1 S t)
      in set_thread t l' (S\<lparr>lock1_of := \<sigma>'\<rparr>))"

definition init_system1 :: "nat \<Rightarrow> ('t::{linorder,order_bot,order_top}) system1" where
  "init_system1 maxLevel = \<lparr>lock1_of = ConcurrentRangeLock_V1 maxLevel, threads1 = (\<lambda>_. fresh_locals1)\<rparr>"

definition run_events1 :: "nat \<Rightarrow> ('t::linorder) event1 list \<Rightarrow> 't system1 \<Rightarrow> 't system1" where
  "run_events1 maxLevel evs S = fold (do_event1 maxLevel) evs S"

text \<open>
  What a caller has to keep to, as in v0: no reversed range, and none that starts at the largest key.
\<close>

fun legal_event1 :: "('t::{linorder,order_top}) event1 \<Rightarrow> bool" where
  "legal_event1 (CallTry1 t s e rnd) \<longleftrightarrow> s \<le> e \<and> s < top"
| "legal_event1 (CallRelease1 t s e) \<longleftrightarrow> s \<le> e \<and> s < top"
| "legal_event1 (CallSearch1 t s e) \<longleftrightarrow> s \<le> e \<and> s < top"
| "legal_event1 (Step1 t) \<longleftrightarrow> True"

end
