(* ===== verification/V1_Safety.thy ===== *)
theory V1_Safety
  imports V1_Skiplist
begin

text \<open>
  The shared heap of the v1 list: its invariant, and what a step of one thread may change under
  the others. The lowest links form the chain the prelude speaks of; ranges that touch are
  neighbours here, so the order is the one of half-open ranges.
\<close>

interpretation touching: range_order closed_valid half_open_before half_open_overlaps
  by unfold_locales (auto simp: closed_defs half_open_defs)

subsection \<open>Views of the heap\<close>

definition nx1 :: "'t lock1 \<Rightarrow> addr1 \<Rightarrow> addr1 option" where
  "nx1 \<sigma> a = Option.bind (read1 \<sigma> (Some a) 0) id"

definition mk1 :: "'t lock1 \<Rightarrow> addr1 \<Rightarrow> bool" where
  "mk1 \<sigma> a \<longleftrightarrow> (case heap1 \<sigma> a of None \<Rightarrow> False | Some n \<Rightarrow> marked1 n)"

definition locked1 :: "'t lock1 \<Rightarrow> addr1 \<Rightarrow> bool" where
  "locked1 \<sigma> a \<longleftrightarrow> (case heap1 \<sigma> a of None \<Rightarrow> False | Some n \<Rightarrow> mutex1 n)"

definition rg1 :: "'t lock1 \<Rightarrow> addr1 \<Rightarrow> 't range" where
  "rg1 \<sigma> a = (start1 (the (heap1 \<sigma> a)), end1 (the (heap1 \<sigma> a)))"

definition on_chain1 :: "'t lock1 \<Rightarrow> addr1 \<Rightarrow> bool" where
  "on_chain1 \<sigma> a \<longleftrightarrow> reach (nx1 \<sigma>) (head1 \<sigma>) a"

definition linked1 :: "'t lock1 \<Rightarrow> addr1 \<Rightarrow> bool" where
  "linked1 \<sigma> a \<longleftrightarrow> linked_in (nx1 \<sigma>) (mk1 \<sigma>) (head1 \<sigma>) a"

text \<open>The link of level \<open>k\<close> exists and is set, but for the tail.\<close>

definition tall1 :: "'t lock1 \<Rightarrow> addr1 \<Rightarrow> nat \<Rightarrow> bool" where
  "tall1 \<sigma> a k \<longleftrightarrow> (\<exists>q. read1 \<sigma> (Some a) k = Some q \<and> (q = None \<longrightarrow> a = tail1 \<sigma>))"

definition good_ref1 :: "'t lock1 \<Rightarrow> nat \<Rightarrow> addr1 \<Rightarrow> bool" where
  "good_ref1 \<sigma> k p \<longleftrightarrow> linked1 \<sigma> p \<and> p \<noteq> head1 \<sigma> \<and> tall1 \<sigma> p k"

definition sentinels1 :: "nat \<Rightarrow> ('t::{linorder,order_bot,order_top}) lock1 \<Rightarrow> bool" where
  "sentinels1 M \<sigma> \<longleftrightarrow> head1 \<sigma> \<noteq> tail1 \<sigma> \<and> heap1 \<sigma> (tail1 \<sigma>) \<noteq> None \<and> rg1 \<sigma> (head1 \<sigma>) = (bot, bot) \<and> rg1 \<sigma> (tail1 \<sigma>) = (top, top) \<and>
     (\<forall>k\<le>M. tall1 \<sigma> (head1 \<sigma>) k) \<and> (\<forall>k q. read1 \<sigma> (Some (tail1 \<sigma>)) k = Some q \<longrightarrow> q = None)"

definition wf_node1 :: "nat \<Rightarrow> ('t::linorder) node1 \<Rightarrow> bool" where
  "wf_node1 M n \<longleftrightarrow> start1 n \<le> end1 n \<and> length (next1 n) = topLevel1 n + 1 \<and> topLevel1 n \<le> M"

definition heap_inv1 :: "nat \<Rightarrow> ('t::{linorder,order_bot,order_top}) lock1 \<Rightarrow> bool" where
  "heap_inv1 M \<sigma> \<longleftrightarrow> (\<forall>a. heap1 \<sigma> a \<noteq> None \<longleftrightarrow> a < brk1 \<sigma>) \<and> sentinels1 M \<sigma> \<and>
     (\<forall>a n. heap1 \<sigma> a = Some n \<longrightarrow> wf_node1 M n) \<and>
     (\<forall>a k p. read1 \<sigma> (Some a) k = Some (Some p) \<longrightarrow> good_ref1 \<sigma> k p \<and>
        (k = 0 \<and> a \<noteq> head1 \<sigma> \<longrightarrow> half_open_before (rg1 \<sigma> a) (rg1 \<sigma> p))) \<and>
     (\<forall>a k. tall1 \<sigma> a (Suc k) \<longrightarrow> tall1 \<sigma> a k)"

lemma heap_inv1D:
  assumes "heap_inv1 M \<sigma>"
  shows "heap1 \<sigma> a \<noteq> None \<longleftrightarrow> a < brk1 \<sigma>" "sentinels1 M \<sigma>"
    "heap1 \<sigma> a = Some n \<Longrightarrow> wf_node1 M n"
    "read1 \<sigma> (Some a) k = Some (Some p) \<Longrightarrow> good_ref1 \<sigma> k p"
    "read1 \<sigma> (Some a) 0 = Some (Some p) \<Longrightarrow> a \<noteq> head1 \<sigma> \<Longrightarrow> half_open_before (rg1 \<sigma> a) (rg1 \<sigma> p)"
    "tall1 \<sigma> a (Suc k) \<Longrightarrow> tall1 \<sigma> a k"
  using assms by (auto simp: heap_inv1_def)

lemma sentinels1D:
  assumes "heap_inv1 M \<sigma>"
  shows "head1 \<sigma> \<noteq> tail1 \<sigma>" "rg1 \<sigma> (head1 \<sigma>) = (bot, bot)" "rg1 \<sigma> (tail1 \<sigma>) = (top, top)"
    "k \<le> M \<Longrightarrow> tall1 \<sigma> (head1 \<sigma>) k" "read1 \<sigma> (Some (tail1 \<sigma>)) k \<noteq> Some (Some p)" "heap1 \<sigma> (tail1 \<sigma>) \<noteq> None"
  using assms by (auto simp: heap_inv1_def sentinels1_def)

subsection \<open>Reading and writing\<close>

lemma deref1_Some [simp]: "deref1 \<sigma> (Some a) = heap1 \<sigma> a"
  by (simp add: deref1_def)

lemma read1_Some:
  "read1 \<sigma> (Some a) k = Some q \<longleftrightarrow> (\<exists>n. heap1 \<sigma> a = Some n \<and> k < length (next1 n) \<and> next1 n ! k = q)"
  by (auto simp: read1_def bind_eq_Some_conv)

lemma nx1_iff: "nx1 \<sigma> a = Some p \<longleftrightarrow> read1 \<sigma> (Some a) 0 = Some (Some p)"
  by (auto simp: nx1_def bind_eq_Some_conv)

lemma update1_Some:
  "update1 \<sigma> (Some a) f = Some \<sigma>' \<longleftrightarrow>
   (\<exists>n. heap1 \<sigma> a = Some n \<and> \<sigma>' = \<sigma>\<lparr>heap1 := (heap1 \<sigma>)(a \<mapsto> f n)\<rparr>)"
  by (auto simp: update1_def bind_eq_Some_conv)

lemma write1_Some:
  "write1 \<sigma> (Some a) k q = Some \<sigma>' \<longleftrightarrow>
   (\<exists>n. heap1 \<sigma> a = Some n \<and> k < length (next1 n) \<and>
        \<sigma>' = \<sigma>\<lparr>heap1 := (heap1 \<sigma>)(a \<mapsto> n\<lparr>next1 := (next1 n)[k := q]\<rparr>)\<rparr>)"
  by (auto simp: write1_def update1_def bind_eq_Some_conv)

lemma tall1_iff: "tall1 \<sigma> a k \<longleftrightarrow> (\<exists>n. heap1 \<sigma> a = Some n \<and> k < length (next1 n) \<and>
    (next1 n ! k = None \<longrightarrow> a = tail1 \<sigma>))"
  by (auto simp: tall1_def read1_Some)

lemma tall1_mono:
  assumes "heap_inv1 M \<sigma>" "tall1 \<sigma> a k" "j \<le> k" shows "tall1 \<sigma> a j"
  using assms(3,2) by (induction rule: inc_induct) (auto intro: heap_inv1D(6) [OF assms(1)])

lemma linked1_root [simp]: "linked1 \<sigma> (head1 \<sigma>)"
  by (simp add: linked1_def)

lemma linked1_iff: "linked1 \<sigma> a \<longleftrightarrow> on_chain1 \<sigma> a \<or> mk1 \<sigma> a"
  by (simp add: linked1_def linked_in_def on_chain1_def)

definition same_node1 :: "'t node1 \<Rightarrow> 't node1 \<Rightarrow> bool" where
  "same_node1 n n' \<longleftrightarrow> start1 n' = start1 n \<and> end1 n' = end1 n \<and> topLevel1 n' = topLevel1 n \<and>
     length (next1 n') = length (next1 n)"

text \<open>
  A step of a thread: \<open>T\<close> are the nodes the thread has locked, \<open>X\<close> its own node while that is
  private, and \<open>U\<close> the node it has marked and may cut out.
\<close>

definition evolves1 :: "addr1 set \<Rightarrow> addr1 set \<Rightarrow> addr1 set \<Rightarrow> 't lock1 \<Rightarrow> 't lock1 \<Rightarrow> bool" where
  "evolves1 T X U \<sigma> \<sigma>' \<longleftrightarrow> head1 \<sigma>' = head1 \<sigma> \<and> tail1 \<sigma>' = tail1 \<sigma> \<and> brk1 \<sigma> \<le> brk1 \<sigma>' \<and>
     (\<forall>a n. heap1 \<sigma> a = Some n \<longrightarrow> (\<exists>n'. heap1 \<sigma>' a = Some n' \<and> same_node1 n n')) \<and>
     (\<forall>a. linked1 \<sigma> a \<longrightarrow> linked1 \<sigma>' a) \<and> (\<forall>a. linked1 \<sigma>' a \<longrightarrow> linked1 \<sigma> a \<or> a \<in> X) \<and>
     (\<forall>a. mk1 \<sigma> a \<longrightarrow> mk1 \<sigma>' a \<and> nx1 \<sigma>' a = nx1 \<sigma> a) \<and>
     (\<forall>a k. tall1 \<sigma> a k \<longrightarrow> tall1 \<sigma>' a k) \<and>
     (\<forall>a. linked1 \<sigma> a \<and> a \<notin> T \<longrightarrow> mk1 \<sigma>' a = mk1 \<sigma> a \<and> nx1 \<sigma>' a = nx1 \<sigma> a) \<and>
     (\<forall>a n. heap1 \<sigma> a = Some n \<and> \<not> linked1 \<sigma> a \<and> a \<notin> X \<longrightarrow> heap1 \<sigma>' a = Some n) \<and>
     (\<forall>a. on_chain1 \<sigma> a \<and> a \<notin> U \<longrightarrow> on_chain1 \<sigma>' a) \<and>
     (\<forall>a. locked1 \<sigma> a \<and> a \<notin> T \<longrightarrow> locked1 \<sigma>' a)"

lemma evolves1D:
  assumes "evolves1 T X U \<sigma> \<sigma>'"
  shows "head1 \<sigma>' = head1 \<sigma>" "tail1 \<sigma>' = tail1 \<sigma>" "brk1 \<sigma> \<le> brk1 \<sigma>'"
    "heap1 \<sigma> a = Some n \<Longrightarrow> \<exists>n'. heap1 \<sigma>' a = Some n' \<and> same_node1 n n'"
    "linked1 \<sigma> a \<Longrightarrow> linked1 \<sigma>' a" "linked1 \<sigma>' a \<Longrightarrow> linked1 \<sigma> a \<or> a \<in> X"
    "mk1 \<sigma> a \<Longrightarrow> mk1 \<sigma>' a" "mk1 \<sigma> a \<Longrightarrow> nx1 \<sigma>' a = nx1 \<sigma> a" "tall1 \<sigma> a k \<Longrightarrow> tall1 \<sigma>' a k"
    "linked1 \<sigma> a \<Longrightarrow> a \<notin> T \<Longrightarrow> mk1 \<sigma>' a = mk1 \<sigma> a" "linked1 \<sigma> a \<Longrightarrow> a \<notin> T \<Longrightarrow> nx1 \<sigma>' a = nx1 \<sigma> a"
    "heap1 \<sigma> a = Some n \<Longrightarrow> \<not> linked1 \<sigma> a \<Longrightarrow> a \<notin> X \<Longrightarrow> heap1 \<sigma>' a = Some n"
    "on_chain1 \<sigma> a \<Longrightarrow> a \<notin> U \<Longrightarrow> on_chain1 \<sigma>' a" "locked1 \<sigma> a \<Longrightarrow> a \<notin> T \<Longrightarrow> locked1 \<sigma>' a"
  using assms by (auto simp: evolves1_def)

lemma evolves1_refl [simp]: "evolves1 T X U \<sigma> \<sigma>"
  by (auto simp: evolves1_def same_node1_def)

lemma rg1_stable: "evolves1 T X U \<sigma> \<sigma>' \<Longrightarrow> heap1 \<sigma> a \<noteq> None \<Longrightarrow> rg1 \<sigma>' a = rg1 \<sigma> a"
  by (auto simp: rg1_def same_node1_def dest!: evolves1D(4))

lemma tall1_alloc: "tall1 \<sigma> a k \<Longrightarrow> heap1 \<sigma> a \<noteq> None"
  by (auto simp: tall1_iff)

lemma good_ref1_stable: "evolves1 T X U \<sigma> \<sigma>' \<Longrightarrow> good_ref1 \<sigma> k p \<Longrightarrow> good_ref1 \<sigma>' k p"
  using evolves1D(1,5,9) by (metis good_ref1_def)

subsection \<open>Updates that leave links and marks alone\<close>

lemma quiet_frame:
  assumes "update1 \<sigma> (Some a) f = Some \<sigma>'"
    and "\<And>n. same_node1 n (f n) \<and> next1 (f n) = next1 n \<and> marked1 (f n) = marked1 n"
  shows "head1 \<sigma>' = head1 \<sigma>" "tail1 \<sigma>' = tail1 \<sigma>" "brk1 \<sigma>' = brk1 \<sigma>" "read1 \<sigma>' = read1 \<sigma>"
    "mk1 \<sigma>' = mk1 \<sigma>" "rg1 \<sigma>' = rg1 \<sigma>" "nx1 \<sigma>' = nx1 \<sigma>" "linked1 \<sigma>' = linked1 \<sigma>" "tall1 \<sigma>' = tall1 \<sigma>"
    "on_chain1 \<sigma>' = on_chain1 \<sigma>" "b \<noteq> a \<Longrightarrow> heap1 \<sigma>' b = heap1 \<sigma> b" "heap1 \<sigma>' b = None \<longleftrightarrow> heap1 \<sigma> b = None"
    "heap1 \<sigma> b = Some n \<Longrightarrow> \<exists>n'. heap1 \<sigma>' b = Some n' \<and> same_node1 n n'"
    "heap1 \<sigma>' b = Some n' \<Longrightarrow> \<exists>n. heap1 \<sigma> b = Some n \<and> same_node1 n n'"
proof -
  from assms(1) obtain m where s': "heap1 \<sigma> a = Some m" "\<sigma>' = \<sigma>\<lparr>heap1 := (heap1 \<sigma>)(a \<mapsto> f m)\<rparr>"
    by (auto simp: update1_Some)
  have f: "start1 (f m) = start1 m" "end1 (f m) = end1 m" "next1 (f m) = next1 m" "marked1 (f m) = marked1 m"
    "same_node1 m (f m)"
    using assms(2) [of m] by (auto simp: same_node1_def)
  show hd: "head1 \<sigma>' = head1 \<sigma>" and tl: "tail1 \<sigma>' = tail1 \<sigma>" and "brk1 \<sigma>' = brk1 \<sigma>" by (simp_all add: s')
  show rd: "read1 \<sigma>' = read1 \<sigma>"
  proof (intro ext)
    fix q k show "read1 \<sigma>' q k = read1 \<sigma> q k" using f s' by (cases q) (auto simp: read1_def deref1_def)
  qed
  show mk: "mk1 \<sigma>' = mk1 \<sigma>" and "rg1 \<sigma>' = rg1 \<sigma>" using s' f by (auto simp: mk1_def rg1_def fun_eq_iff)
  show nx: "nx1 \<sigma>' = nx1 \<sigma>" by (simp add: nx1_def rd fun_eq_iff)
  show "linked1 \<sigma>' = linked1 \<sigma>" "tall1 \<sigma>' = tall1 \<sigma>" "on_chain1 \<sigma>' = on_chain1 \<sigma>"
    by (simp_all add: linked1_def on_chain1_def tall1_def nx mk hd tl rd fun_eq_iff)
  show "b \<noteq> a \<Longrightarrow> heap1 \<sigma>' b = heap1 \<sigma> b" "heap1 \<sigma>' b = None \<longleftrightarrow> heap1 \<sigma> b = None" using s' by auto
  show "heap1 \<sigma> b = Some n \<Longrightarrow> \<exists>n'. heap1 \<sigma>' b = Some n' \<and> same_node1 n n'"
    "heap1 \<sigma>' b = Some n' \<Longrightarrow> \<exists>n. heap1 \<sigma> b = Some n \<and> same_node1 n n'"
    using s' f(5) by (auto simp: same_node1_def split: if_splits)
qed

lemma quiet_heap_inv:
  assumes "heap_inv1 M \<sigma>" "update1 \<sigma> (Some a) f = Some \<sigma>'"
    and "\<And>n. same_node1 n (f n) \<and> next1 (f n) = next1 n \<and> marked1 (f n) = marked1 n"
  shows "heap_inv1 M \<sigma>'"
proof -
  note F = quiet_frame [OF assms(2,3)]
  have "wf_node1 M n'" if "heap1 \<sigma>' b = Some n'" for b n'
    using F(14) [OF that] heap_inv1D(3) [OF assms(1)] by (auto simp: wf_node1_def same_node1_def)
  moreover have "good_ref1 \<sigma>' = good_ref1 \<sigma>" "sentinels1 M \<sigma>' = sentinels1 M \<sigma>"
    by (simp_all only: good_ref1_def sentinels1_def fun_eq_iff F(1-10,12) simp_thms)
  ultimately show ?thesis
    using assms(1) F(12) unfolding heap_inv1_def by (simp add: F(1-10))
qed

lemma quiet_evolves:
  assumes "update1 \<sigma> (Some a) f = Some \<sigma>'" "linked1 \<sigma> a \<or> a \<in> X"
    and "\<And>n. same_node1 n (f n) \<and> next1 (f n) = next1 n \<and> marked1 (f n) = marked1 n"
    and "a \<in> T \<or> (\<forall>n. mutex1 n \<longrightarrow> mutex1 (f n))"
  shows "evolves1 T X U \<sigma> \<sigma>'"
proof -
  note F = quiet_frame [OF assms(1,3)]
  have "locked1 \<sigma>' b" if "locked1 \<sigma> b" "b \<notin> T" for b
  proof (cases "b = a")
    case True
    with that assms(1,4) show ?thesis by (auto simp: locked1_def update1_Some)
  next
    case False
    with that F(11) [of b] show ?thesis by (simp add: locked1_def)
  qed
  moreover have "heap1 \<sigma>' b = Some n" if "heap1 \<sigma> b = Some n" "\<not> linked1 \<sigma> b" "b \<notin> X" for b n
    using that assms(2) F(11) [of b] by auto
  ultimately show ?thesis unfolding evolves1_def using F(13) by (simp add: F(1-10))
qed

lemma count_quiet [simp]:
  "heap_inv1 M (\<sigma>\<lparr>elementsCount1 := c\<rparr>) = heap_inv1 M \<sigma>"
  "evolves1 T X U \<sigma> (\<sigma>\<lparr>elementsCount1 := c\<rparr>)"
proof -
  let ?s = "\<sigma>\<lparr>elementsCount1 := c\<rparr>"
  have rd: "read1 ?s = read1 \<sigma>" by (simp add: read1_def deref1_def fun_eq_iff)
  have V: "nx1 ?s = nx1 \<sigma>" "mk1 ?s = mk1 \<sigma>" "rg1 ?s = rg1 \<sigma>" "tall1 ?s = tall1 \<sigma>" "locked1 ?s = locked1 \<sigma>"
    by (simp_all add: nx1_def mk1_def rg1_def tall1_def locked1_def rd fun_eq_iff)
  have "linked1 ?s a = linked1 \<sigma> a" "on_chain1 ?s a = on_chain1 \<sigma> a" for a
    by (simp_all add: linked1_def on_chain1_def V)
  then have W: "linked1 ?s = linked1 \<sigma>" "on_chain1 ?s = on_chain1 \<sigma>" by blast+
  then have "good_ref1 ?s k a = good_ref1 \<sigma> k a" for k a by (simp add: good_ref1_def V)
  note W = W this
  show "heap_inv1 M ?s = heap_inv1 M \<sigma>"
    by (simp add: heap_inv1_def sentinels1_def V W rd)
  show "evolves1 T X U \<sigma> ?s" by (auto simp: evolves1_def V W same_node1_def)
qed

subsection \<open>Marking\<close>

lemma mark_frame:
  assumes "update1 \<sigma> (Some a) (\<lambda>n. n\<lparr>marked1 := True\<rparr>) = Some \<sigma>'"
  shows "head1 \<sigma>' = head1 \<sigma>" "tail1 \<sigma>' = tail1 \<sigma>" "brk1 \<sigma>' = brk1 \<sigma>" "read1 \<sigma>' = read1 \<sigma>"
    "mk1 \<sigma>' = (mk1 \<sigma>)(a := True)" "rg1 \<sigma>' = rg1 \<sigma>" "nx1 \<sigma>' = nx1 \<sigma>" "tall1 \<sigma>' = tall1 \<sigma>"
    "on_chain1 \<sigma>' = on_chain1 \<sigma>" "locked1 \<sigma>' = locked1 \<sigma>"
    "b \<noteq> a \<Longrightarrow> heap1 \<sigma>' b = heap1 \<sigma> b" "heap1 \<sigma>' b = None \<longleftrightarrow> heap1 \<sigma> b = None"
    "heap1 \<sigma> b = Some n \<Longrightarrow> \<exists>n'. heap1 \<sigma>' b = Some n' \<and> same_node1 n n'"
    "heap1 \<sigma>' b = Some n' \<Longrightarrow> \<exists>n. heap1 \<sigma> b = Some n \<and> same_node1 n n'"
proof -
  from assms obtain m where s': "heap1 \<sigma> a = Some m" "\<sigma>' = \<sigma>\<lparr>heap1 := (heap1 \<sigma>)(a \<mapsto> m\<lparr>marked1 := True\<rparr>)\<rparr>"
    by (auto simp: update1_Some)
  show hd: "head1 \<sigma>' = head1 \<sigma>" and tl: "tail1 \<sigma>' = tail1 \<sigma>" and "brk1 \<sigma>' = brk1 \<sigma>" by (simp_all add: s')
  show rd: "read1 \<sigma>' = read1 \<sigma>"
  proof (intro ext)
    fix q k show "read1 \<sigma>' q k = read1 \<sigma> q k" using s' by (cases q) (auto simp: read1_def deref1_def)
  qed
  show "mk1 \<sigma>' = (mk1 \<sigma>)(a := True)" "rg1 \<sigma>' = rg1 \<sigma>" "locked1 \<sigma>' = locked1 \<sigma>"
    using s' by (auto simp: mk1_def rg1_def locked1_def fun_eq_iff)
  show nx: "nx1 \<sigma>' = nx1 \<sigma>" by (simp add: nx1_def rd fun_eq_iff)
  show "tall1 \<sigma>' = tall1 \<sigma>" "on_chain1 \<sigma>' = on_chain1 \<sigma>"
    by (simp_all add: on_chain1_def tall1_def nx hd tl rd fun_eq_iff)
  show "b \<noteq> a \<Longrightarrow> heap1 \<sigma>' b = heap1 \<sigma> b" "heap1 \<sigma>' b = None \<longleftrightarrow> heap1 \<sigma> b = None" using s' by auto
  show "heap1 \<sigma> b = Some n \<Longrightarrow> \<exists>n'. heap1 \<sigma>' b = Some n' \<and> same_node1 n n'"
    "heap1 \<sigma>' b = Some n' \<Longrightarrow> \<exists>n. heap1 \<sigma> b = Some n \<and> same_node1 n n'"
    using s' by (auto simp: same_node1_def split: if_splits)
qed

lemma mark_keeps:
  assumes inv: "heap_inv1 M \<sigma>" and a: "linked1 \<sigma> a" "a \<in> T"
    and u: "update1 \<sigma> (Some a) (\<lambda>n. n\<lparr>marked1 := True\<rparr>) = Some \<sigma>'"
  shows "heap_inv1 M \<sigma>'" "evolves1 T X U \<sigma> \<sigma>'" "linked1 \<sigma>' = linked1 \<sigma>"
proof -
  note F = mark_frame [OF u]
  show l: "linked1 \<sigma>' = linked1 \<sigma>"
    using linked_mark [of "nx1 \<sigma>" "mk1 \<sigma>" "head1 \<sigma>" a] a(1) by (simp add: linked1_def F fun_eq_iff)
  have "good_ref1 \<sigma>' = good_ref1 \<sigma>" "sentinels1 M \<sigma>' = sentinels1 M \<sigma>"
    by (simp_all only: good_ref1_def sentinels1_def fun_eq_iff F(1-10,12) l simp_thms)
  moreover have "wf_node1 M n'" if "heap1 \<sigma>' b = Some n'" for b n'
    using F(14) [OF that] heap_inv1D(3) [OF inv] by (auto simp: wf_node1_def same_node1_def)
  ultimately show "heap_inv1 M \<sigma>'"
    using inv F(12) unfolding heap_inv1_def by (simp add: F(1-10) l)
  have "heap1 \<sigma>' b = Some n" if "heap1 \<sigma> b = Some n" "\<not> linked1 \<sigma> b" for b n
    using that a(1) F(11) [of b] by auto
  then show "evolves1 T X U \<sigma> \<sigma>'"
    unfolding evolves1_def using F(13) a(2) by (auto simp: F(1-10) l)
qed

subsection \<open>Writing a link\<close>

lemma write1_frame:
  assumes "write1 \<sigma> (Some a) k q = Some \<sigma>'"
  shows "head1 \<sigma>' = head1 \<sigma>" "tail1 \<sigma>' = tail1 \<sigma>" "brk1 \<sigma>' = brk1 \<sigma>"
    "read1 \<sigma>' (Some b) j = (if b = a \<and> j = k then Some q else read1 \<sigma> (Some b) j)"
    "mk1 \<sigma>' = mk1 \<sigma>" "rg1 \<sigma>' = rg1 \<sigma>" "locked1 \<sigma>' = locked1 \<sigma>"
    "nx1 \<sigma>' = (if k = 0 then (nx1 \<sigma>)(a := q) else nx1 \<sigma>)"
    "b \<noteq> a \<Longrightarrow> heap1 \<sigma>' b = heap1 \<sigma> b" "heap1 \<sigma>' b = None \<longleftrightarrow> heap1 \<sigma> b = None"
    "heap1 \<sigma> b = Some n \<Longrightarrow> \<exists>n'. heap1 \<sigma>' b = Some n' \<and> same_node1 n n'"
    "heap1 \<sigma>' b = Some n' \<Longrightarrow> \<exists>n. heap1 \<sigma> b = Some n \<and> same_node1 n n'"
proof -
  from assms obtain m where s': "heap1 \<sigma> a = Some m" "k < length (next1 m)"
      "\<sigma>' = \<sigma>\<lparr>heap1 := (heap1 \<sigma>)(a \<mapsto> m\<lparr>next1 := (next1 m)[k := q]\<rparr>)\<rparr>"
    by (auto simp: write1_Some)
  show "head1 \<sigma>' = head1 \<sigma>" "tail1 \<sigma>' = tail1 \<sigma>" "brk1 \<sigma>' = brk1 \<sigma>" by (simp_all add: s')
  have rd: "read1 \<sigma>' (Some b) j = (if b = a \<and> j = k then Some q else read1 \<sigma> (Some b) j)" for b j
    using s' by (auto simp: read1_def nth_list_update)
  then show "read1 \<sigma>' (Some b) j = (if b = a \<and> j = k then Some q else read1 \<sigma> (Some b) j)" .
  show "mk1 \<sigma>' = mk1 \<sigma>" "rg1 \<sigma>' = rg1 \<sigma>" "locked1 \<sigma>' = locked1 \<sigma>"
    using s' by (auto simp: mk1_def rg1_def locked1_def fun_eq_iff)
  show "nx1 \<sigma>' = (if k = 0 then (nx1 \<sigma>)(a := q) else nx1 \<sigma>)" by (auto simp: nx1_def rd fun_eq_iff)
  show "b \<noteq> a \<Longrightarrow> heap1 \<sigma>' b = heap1 \<sigma> b" "heap1 \<sigma>' b = None \<longleftrightarrow> heap1 \<sigma> b = None" using s' by auto
  show "heap1 \<sigma> b = Some n \<Longrightarrow> \<exists>n'. heap1 \<sigma>' b = Some n' \<and> same_node1 n n'"
    "heap1 \<sigma>' b = Some n' \<Longrightarrow> \<exists>n. heap1 \<sigma> b = Some n \<and> same_node1 n n'"
    using s' by (auto simp: same_node1_def split: if_splits)
qed

lemma write1_tall:
  assumes "write1 \<sigma> (Some a) k (Some p) = Some \<sigma>'"
  shows "tall1 \<sigma>' b j \<longleftrightarrow> b = a \<and> j = k \<or> tall1 \<sigma> b j"
  using write1_frame(2,4) [OF assms] by (auto simp: tall1_def)

lemma write_keeps_inv1:
  assumes inv: "heap_inv1 M \<sigma>" and w: "write1 \<sigma> (Some a) k (Some p) = Some \<sigma>'" and "a \<noteq> tail1 \<sigma>"
    and lnk: "\<And>b. linked1 \<sigma> b \<Longrightarrow> linked1 \<sigma>' b" and p: "linked1 \<sigma>' p" "p \<noteq> head1 \<sigma>" "tall1 \<sigma> p k"
    and ord: "k = 0 \<Longrightarrow> a \<noteq> head1 \<sigma> \<Longrightarrow> half_open_before (rg1 \<sigma> a) (rg1 \<sigma> p)"
    and low: "\<And>j. j < k \<Longrightarrow> tall1 \<sigma> a j"
  shows "heap_inv1 M \<sigma>'"
proof -
  note F = write1_frame [OF w] and tl = write1_tall [OF w]
  have ref: "good_ref1 \<sigma> j b \<Longrightarrow> good_ref1 \<sigma>' j b" for j b
    using lnk tl by (auto simp: good_ref1_def F(1))
  have "q = None" if "read1 \<sigma>' (Some (tail1 \<sigma>)) j = Some q" for j q
    using that F(4) \<open>a \<noteq> tail1 \<sigma>\<close> sentinels1D(5) [OF inv, of j] by (cases q) auto
  then have "sentinels1 M \<sigma>'"
    using sentinels1D(1-4,6) [OF inv] tl F(10) by (auto simp: sentinels1_def F(1,2,6))
  moreover have "wf_node1 M n'" if "heap1 \<sigma>' b = Some n'" for b n'
    using F(12) [OF that] heap_inv1D(3) [OF inv] by (auto simp: wf_node1_def same_node1_def)
  moreover have "good_ref1 \<sigma>' j r \<and> (j = 0 \<and> b \<noteq> head1 \<sigma>' \<longrightarrow> half_open_before (rg1 \<sigma>' b) (rg1 \<sigma>' r))"
    if "read1 \<sigma>' (Some b) j = Some (Some r)" for b j r
  proof (cases "b = a \<and> j = k")
    case True
    with that have "r = p" by (simp add: F(4))
    with True p ord tl show ?thesis by (auto simp: good_ref1_def F(1,6))
  next
    case False
    with that have "read1 \<sigma> (Some b) j = Some (Some r)" by (simp add: F(4))
    then show ?thesis
      using ref heap_inv1D(4,5) [OF inv] by (auto simp: F(1,6))
  qed
  moreover have "tall1 \<sigma>' b j" if "tall1 \<sigma>' b (Suc j)" for b j
    using that tl low heap_inv1D(6) [OF inv] by auto
  moreover have "heap1 \<sigma>' b \<noteq> None \<longleftrightarrow> b < brk1 \<sigma>'" for b
    using heap_inv1D(1) [OF inv] F(3,10) by simp
  ultimately show ?thesis unfolding heap_inv1_def by blast
qed

lemma write_evolves:
  assumes w: "write1 \<sigma> (Some a) k (Some p) = Some \<sigma>'"
    and lnk: "\<And>b. linked1 \<sigma> b \<Longrightarrow> linked1 \<sigma>' b" "\<And>b. linked1 \<sigma>' b \<Longrightarrow> linked1 \<sigma> b \<or> b \<in> X"
    and a: "k = 0 \<Longrightarrow> \<not> mk1 \<sigma> a" "k = 0 \<Longrightarrow> a \<in> T \<or> \<not> linked1 \<sigma> a" "linked1 \<sigma> a \<or> a \<in> X"
    and ch: "\<And>b. on_chain1 \<sigma> b \<Longrightarrow> b \<notin> U \<Longrightarrow> on_chain1 \<sigma>' b"
  shows "evolves1 T X U \<sigma> \<sigma>'"
proof -
  note F = write1_frame [OF w] and tl = write1_tall [OF w]
  have "heap1 \<sigma>' b = Some n" if "heap1 \<sigma> b = Some n" "\<not> linked1 \<sigma> b" "b \<notin> X" for b n
    using that a(3) F(9) [of b] by auto
  then show ?thesis
    unfolding evolves1_def using lnk a ch F(11) tl by (auto simp: F(1-3,5,7,8))
qed

text \<open>A link of an upper level.\<close>

lemma write_upper:
  assumes inv: "heap_inv1 M \<sigma>" and w: "write1 \<sigma> (Some a) k (Some p) = Some \<sigma>'" and "k \<noteq> 0"
    and a: "linked1 \<sigma> a" "a \<noteq> tail1 \<sigma>" "\<And>j. j < k \<Longrightarrow> tall1 \<sigma> a j" and p: "good_ref1 \<sigma> k p"
  shows "heap_inv1 M \<sigma>'" "evolves1 T X U \<sigma> \<sigma>'" "linked1 \<sigma>' = linked1 \<sigma>"
proof -
  note F = write1_frame [OF w]
  have nx: "nx1 \<sigma>' = nx1 \<sigma>" using F(8) \<open>k \<noteq> 0\<close> by simp
  show l: "linked1 \<sigma>' = linked1 \<sigma>" by (simp add: linked1_def fun_eq_iff F(1,5) nx)
  have c: "on_chain1 \<sigma>' = on_chain1 \<sigma>" by (simp add: on_chain1_def fun_eq_iff F(1) nx)
  show "heap_inv1 M \<sigma>'"
    using p \<open>k \<noteq> 0\<close> a l by (intro write_keeps_inv1 [OF inv w]) (auto simp: good_ref1_def)
  show "evolves1 T X U \<sigma> \<sigma>'" using \<open>k \<noteq> 0\<close> a l c by (intro write_evolves [OF w]) auto
qed

text \<open>The first link of a private node.\<close>

lemma write_private:
  assumes inv: "heap_inv1 M \<sigma>" and w: "write1 \<sigma> (Some a) 0 (Some p) = Some \<sigma>'"
    and a: "\<not> linked1 \<sigma> a" "a \<noteq> tail1 \<sigma>" "a \<in> X" and p: "good_ref1 \<sigma> 0 p"
    and ord: "half_open_before (rg1 \<sigma> a) (rg1 \<sigma> p)"
  shows "heap_inv1 M \<sigma>'" "evolves1 T X U \<sigma> \<sigma>'" "linked1 \<sigma>' = linked1 \<sigma>"
proof -
  note F = write1_frame [OF w]
  have nx: "nx1 \<sigma>' = (nx1 \<sigma>)(a := Some p)" using F(8) by simp
  have un: "\<not> linked_in (nx1 \<sigma>) (mk1 \<sigma>) (head1 \<sigma>) a" "\<not> reach (nx1 \<sigma>) (head1 \<sigma>) a" "\<not> mk1 \<sigma> a"
    using a(1) by (auto simp: linked_in_def linked1_def)
  show l: "linked1 \<sigma>' = linked1 \<sigma>"
    using linked_extend [OF un(1)] by (simp add: linked1_def fun_eq_iff F(1,5) nx)
  have c: "on_chain1 \<sigma>' = on_chain1 \<sigma>"
    using reach_extend [OF un(2)] by (simp add: on_chain1_def fun_eq_iff F(1) nx)
  show "heap_inv1 M \<sigma>'"
    using p a l ord by (intro write_keeps_inv1 [OF inv w]) (auto simp: good_ref1_def)
  show "evolves1 T X U \<sigma> \<sigma>'" using a l c un(3) by (intro write_evolves [OF w]) auto
qed

text \<open>Linking a private node behind \<open>a\<close>.\<close>

lemma write_insert:
  assumes inv: "heap_inv1 M \<sigma>" and w: "write1 \<sigma> (Some a) 0 (Some p) = Some \<sigma>'"
    and a: "linked1 \<sigma> a" "\<not> mk1 \<sigma> a" "a \<noteq> tail1 \<sigma>" "a \<in> T"
    and p: "\<not> linked1 \<sigma> p" "p \<in> X" "nx1 \<sigma> p = nx1 \<sigma> a" "tall1 \<sigma> p 0"
    and ord: "a \<noteq> head1 \<sigma> \<Longrightarrow> half_open_before (rg1 \<sigma> a) (rg1 \<sigma> p)"
  shows "heap_inv1 M \<sigma>'" "evolves1 T X U \<sigma> \<sigma>'" "linked1 \<sigma>' b \<longleftrightarrow> linked1 \<sigma> b \<or> b = p"
proof -
  note F = write1_frame [OF w]
  have nx: "nx1 \<sigma>' = (nx1 \<sigma>)(a := Some p)" using F(8) by simp
  have ne: "p \<noteq> a" "p \<noteq> head1 \<sigma>" using a(1) p(1) by auto
  have l: "linked1 \<sigma>' b \<longleftrightarrow> linked1 \<sigma> b \<or> b = p" for b
    using linked_insert [of "nx1 \<sigma>" "mk1 \<sigma>" "head1 \<sigma>" a p b] a(1,2) ne(1) p(3)
    by (simp add: linked1_def F(1,5) nx)
  then show "linked1 \<sigma>' b \<longleftrightarrow> linked1 \<sigma> b \<or> b = p" .
  have "reach (nx1 \<sigma>) (head1 \<sigma>) a" using a(1,2) by (simp add: linked1_iff on_chain1_def)
  from reach_insert_new [OF this ne(1) p(3)]
  have c: "on_chain1 \<sigma> b \<Longrightarrow> on_chain1 \<sigma>' b" for b by (simp add: on_chain1_def F(1) nx)
  show "heap_inv1 M \<sigma>'"
    using a p ne l ord by (intro write_keeps_inv1 [OF inv w]) auto
  show "evolves1 T X U \<sigma> \<sigma>'" using a p l c by (intro write_evolves [OF w]) auto
qed

text \<open>Cutting out the marked node \<open>c\<close> behind \<open>a\<close>.\<close>

lemma write_cut:
  assumes inv: "heap_inv1 M \<sigma>" and w: "write1 \<sigma> (Some a) 0 (Some p) = Some \<sigma>'"
    and a: "linked1 \<sigma> a" "\<not> mk1 \<sigma> a" "a \<noteq> tail1 \<sigma>" "a \<in> T"
    and c: "nx1 \<sigma> a = Some c" "mk1 \<sigma> c" "nx1 \<sigma> c = Some p" "c \<in> U"
  shows "heap_inv1 M \<sigma>'" "evolves1 T X U \<sigma> \<sigma>'" "linked1 \<sigma>' = linked1 \<sigma>"
proof -
  note F = write1_frame [OF w]
  have nx: "nx1 \<sigma>' = (nx1 \<sigma>)(a := nx1 \<sigma> c)" using F(8) c(3) by simp
  show l: "linked1 \<sigma>' = linked1 \<sigma>"
    using linked_cut [of "nx1 \<sigma>" "mk1 \<sigma>" "head1 \<sigma>" a c] a(1,2) c(1,2)
    by (simp add: linked1_def F(1,5) nx fun_eq_iff)
  have "reach (nx1 \<sigma>) (head1 \<sigma>) a" using a(1,2) by (simp add: linked1_iff on_chain1_def)
  from reach_cut_out(1) [OF this c(1)]
  have ch: "on_chain1 \<sigma> b \<Longrightarrow> b \<noteq> c \<Longrightarrow> on_chain1 \<sigma>' b" for b by (auto simp: on_chain1_def F(1) nx)
  have rc: "read1 \<sigma> (Some a) 0 = Some (Some c)" "read1 \<sigma> (Some c) 0 = Some (Some p)"
    using c(1,3) by (simp_all add: nx1_iff)
  have g: "good_ref1 \<sigma> 0 c" "good_ref1 \<sigma> 0 p" using heap_inv1D(4) [OF inv] rc by blast+
  have "half_open_before (rg1 \<sigma> c) (rg1 \<sigma> p)"
    using heap_inv1D(5) [OF inv rc(2)] g(1) by (simp add: good_ref1_def)
  moreover have "closed_valid (rg1 \<sigma> c)"
    using g(1) heap_inv1D(3) [OF inv] by (auto simp: good_ref1_def tall1_iff closed_valid_def rg1_def wf_node1_def)
  ultimately have "a \<noteq> head1 \<sigma> \<Longrightarrow> half_open_before (rg1 \<sigma> a) (rg1 \<sigma> p)"
    using heap_inv1D(5) [OF inv rc(1)] touching.before_trans by blast
  then show "heap_inv1 M \<sigma>'"
    using a g(2) l by (intro write_keeps_inv1 [OF inv w]) (auto simp: good_ref1_def)
  show "evolves1 T X U \<sigma> \<sigma>'" using a c(4) l ch by (intro write_evolves [OF w]) auto
qed

subsection \<open>A new node\<close>

lemma linked1_alloc:
  assumes inv: "heap_inv1 M \<sigma>" and "linked1 \<sigma> a"
  shows "heap1 \<sigma> a \<noteq> None"
proof -
  from assms(2) consider "mk1 \<sigma> a" | "reach (nx1 \<sigma>) (head1 \<sigma>) a" by (auto simp: linked1_iff on_chain1_def)
  then show ?thesis
  proof cases
    case 2
    then show ?thesis
    proof (induction rule: reach_induct)
      case refl
      then show ?case using sentinels1D(4) [OF inv, of 0] tall1_alloc by blast
    next
      case (step x y)
      then have "good_ref1 \<sigma> 0 y" using heap_inv1D(4) [OF inv] by (simp add: nx1_iff)
      then show ?case using tall1_alloc by (auto simp: good_ref1_def)
    qed
  qed (auto simp: mk1_def split: option.splits)
qed

lemma alloc_keeps:
  fixes \<sigma> :: "('t::{linorder,order_bot,order_top}) lock1"
  assumes inv: "heap_inv1 M \<sigma>" and "s \<le> e" "lvl \<le> M"
    and s': "\<sigma>' = \<sigma>\<lparr>heap1 := (heap1 \<sigma>)(brk1 \<sigma> \<mapsto> createNode_V1 s e lvl), brk1 := brk1 \<sigma> + 1\<rparr>"
  shows "heap_inv1 M \<sigma>'" "evolves1 T X U \<sigma> \<sigma>'" "\<not> linked1 \<sigma>' (brk1 \<sigma>)" "brk1 \<sigma> \<noteq> tail1 \<sigma>"
proof -
  let ?b = "brk1 \<sigma>"
  have none: "heap1 \<sigma> ?b = None" using heap_inv1D(1) [OF inv] by blast
  have hd: "head1 \<sigma>' = head1 \<sigma>" "tail1 \<sigma>' = tail1 \<sigma>" "brk1 \<sigma>' = ?b + 1" by (simp_all add: s')
  have rd: "read1 \<sigma>' (Some a) k = (if a = ?b then (if k \<le> lvl then Some None else None) else read1 \<sigma> (Some a) k)" for a k
    by (simp add: s' read1_def createNode_V1_def del: replicate_Suc)
  have old: "read1 \<sigma> (Some ?b) k = None" for k by (simp add: read1_def none)
  have nx: "nx1 \<sigma>' = nx1 \<sigma>" using old by (auto simp: nx1_def rd fun_eq_iff)
  have mk: "mk1 \<sigma>' = mk1 \<sigma>" using none by (auto simp: mk1_def s' createNode_V1_def fun_eq_iff)
  have lk: "locked1 \<sigma>' = locked1 \<sigma>" using none by (auto simp: locked1_def s' createNode_V1_def fun_eq_iff)
  have l: "linked1 \<sigma>' = linked1 \<sigma>" by (simp add: linked1_def nx mk hd fun_eq_iff)
  have c: "on_chain1 \<sigma>' = on_chain1 \<sigma>" by (simp add: on_chain1_def nx hd fun_eq_iff)
  show un: "\<not> linked1 \<sigma>' ?b" using linked1_alloc [OF inv, of ?b] none l by auto
  show t: "?b \<noteq> tail1 \<sigma>" using none sentinels1D(6) [OF inv] by auto
  have h: "head1 \<sigma> \<noteq> ?b" using linked1_alloc [OF inv linked1_root] none by auto
  have tl: "tall1 \<sigma>' a k \<longleftrightarrow> tall1 \<sigma> a k" for a k
    using old t by (auto simp: tall1_def rd hd)
  have rg: "rg1 \<sigma>' a = rg1 \<sigma> a" if "a \<noteq> ?b" for a using that by (simp add: rg1_def s')
  have g: "good_ref1 \<sigma>' k a = good_ref1 \<sigma> k a" for k a by (simp add: good_ref1_def l hd tl)
  have gb: "good_ref1 \<sigma> k a \<Longrightarrow> a \<noteq> ?b" for k a using un l by (auto simp: good_ref1_def)
  have "heap1 \<sigma>' (tail1 \<sigma>) \<noteq> None" using sentinels1D(6) [OF inv] by (simp add: s')
  then have "sentinels1 M \<sigma>'"
    using inv t h by (auto simp: heap_inv1_def sentinels1_def hd rg tl rd)
  moreover have "wf_node1 M n" if "heap1 \<sigma>' a = Some n" for a n
    using that heap_inv1D(3) [OF inv] assms(2,3)
    by (auto simp: s' createNode_V1_def wf_node1_def split: if_splits)
  moreover have "heap1 \<sigma>' a \<noteq> None \<longleftrightarrow> a < brk1 \<sigma>'" for a
    using heap_inv1D(1) [OF inv, of a] by (auto simp: s' less_Suc_eq)
  moreover have "good_ref1 \<sigma>' k p \<and> (k = 0 \<and> a \<noteq> head1 \<sigma>' \<longrightarrow> half_open_before (rg1 \<sigma>' a) (rg1 \<sigma>' p))"
    if "read1 \<sigma>' (Some a) k = Some (Some p)" for a k p
  proof -
    from that have r: "a \<noteq> ?b" "read1 \<sigma> (Some a) k = Some (Some p)" by (auto simp: rd split: if_splits)
    have gr: "good_ref1 \<sigma> k p" using heap_inv1D(4) [OF inv r(2)] .
    then have "p \<noteq> ?b" by (rule gb)
    with r gr heap_inv1D(5) [OF inv] show ?thesis by (auto simp: g rg hd)
  qed
  moreover have "tall1 \<sigma>' a k" if "tall1 \<sigma>' a (Suc k)" for a k using that heap_inv1D(6) [OF inv] by (simp add: tl)
  ultimately show "heap_inv1 M \<sigma>'" unfolding heap_inv1_def by blast
  have "heap1 \<sigma>' a = Some n" if "heap1 \<sigma> a = Some n" for a n using that none by (auto simp: s')
  moreover have "same_node1 n n" for n :: "'t node1" by (simp add: same_node1_def)
  ultimately show "evolves1 T X U \<sigma> \<sigma>'"
    unfolding evolves1_def by (auto simp: hd l c mk nx tl lk)
qed

end
