(* ===== verification/V1_Threads.thy ===== *)
theory V1_Threads
  imports V1_Safety
begin

text \<open>
  What a thread of the v1 lock knows at each place of the code. The node a removal has marked and
  not yet cut out is a parameter \<open>v\<close> of this knowledge: the code forgets it when it searches again,
  and finds it again because no other node on the chain has its range.
\<close>

subsection \<open>Knowledge of a thread\<close>

abbreviation args1 :: "'t locals1 \<Rightarrow> 't range" where
  "args1 l \<equiv> (s_arg l, e_arg l)"

definition legal_args1 :: "('t::{linorder,order_top}) locals1 \<Rightarrow> bool" where
  "legal_args1 l \<longleftrightarrow> s_arg l \<le> e_arg l \<and> s_arg l < top"

text \<open>A node the search may have gone past at level \<open>k\<close>, and one it may have stopped at.\<close>

definition pred_at :: "('t::linorder) lock1 \<Rightarrow> nat \<Rightarrow> 't \<Rightarrow> addr1 \<Rightarrow> bool" where
  "pred_at \<sigma> k s p \<longleftrightarrow> linked1 \<sigma> p \<and> p \<noteq> tail1 \<sigma> \<and> tall1 \<sigma> p k \<and> (p = head1 \<sigma> \<or> snd (rg1 \<sigma> p) \<le> s)"

definition succ_at :: "('t::linorder) lock1 \<Rightarrow> nat \<Rightarrow> 't \<Rightarrow> addr1 \<Rightarrow> bool" where
  "succ_at \<sigma> k s c \<longleftrightarrow> good_ref1 \<sigma> k c \<and> s < snd (rg1 \<sigma> c)"

definition arrays1 :: "nat \<Rightarrow> nat \<Rightarrow> ('t::linorder) lock1 \<Rightarrow> 't locals1 \<Rightarrow> bool" where
  "arrays1 M j \<sigma> l \<longleftrightarrow> (\<forall>i. j \<le> i \<and> i \<le> M \<longrightarrow> (\<exists>p c. preds1 l i = Some p \<and> succs1 l i = Some c \<and>
     pred_at \<sigma> i (s_arg l) p \<and> succ_at \<sigma> i (s_arg l) c))"

definition found1 :: "op1 \<Rightarrow> nat \<Rightarrow> nat \<Rightarrow> ('t::linorder) lock1 \<Rightarrow> 't locals1 \<Rightarrow> bool" where
  "found1 op M j \<sigma> l \<longleftrightarrow> (case found_lv l of
       None \<Rightarrow> op = Inserting \<longrightarrow> (\<forall>i c. j \<le> i \<and> i \<le> M \<and> succs1 l i = Some c \<longrightarrow> e_arg l < fst (rg1 \<sigma> c))
     | Some k \<Rightarrow> j \<le> k \<and> k \<le> M \<and> (\<exists>c. succs1 l k = Some c \<and>
         (if op = Inserting then fst (rg1 \<sigma> c) \<le> e_arg l else rg1 \<sigma> c = args1 l)))"

definition searching1 :: "op1 \<Rightarrow> nat \<Rightarrow> bool \<Rightarrow> ('t::linorder) lock1 \<Rightarrow> 't locals1 \<Rightarrow> bool" where
  "searching1 op M at_curr \<sigma> l \<longleftrightarrow> lv1 l \<le> M \<and> (\<exists>p. pred1 l = Some p \<and> pred_at \<sigma> (lv1 l) (s_arg l) p) \<and>
     (at_curr \<longrightarrow> (\<exists>c. curr1 l = Some c \<and> good_ref1 \<sigma> (lv1 l) c)) \<and>
     arrays1 M (Suc (lv1 l)) \<sigma> l \<and> found1 op M (Suc (lv1 l)) \<sigma> l"

text \<open>The range of an insertion fits in front of the lowest successor.\<close>

definition room1 :: "('t::linorder) lock1 \<Rightarrow> 't locals1 \<Rightarrow> bool" where
  "room1 \<sigma> l \<longleftrightarrow> (\<exists>c. succs1 l 0 = Some c \<and> e_arg l < fst (rg1 \<sigma> c))"

text \<open>The node to remove, while it is not yet marked by the thread, and its marked node.\<close>

definition target1 :: "('t::linorder) lock1 \<Rightarrow> 't locals1 \<Rightarrow> bool" where
  "target1 \<sigma> l \<longleftrightarrow> (\<exists>c. victim1 l = Some c \<and> linked1 \<sigma> c \<and> c \<noteq> head1 \<sigma> \<and> c \<noteq> tail1 \<sigma> \<and>
     rg1 \<sigma> c = args1 l \<and> fst (args1 l) < snd (args1 l))"

definition tall_target :: "('t::linorder) lock1 \<Rightarrow> 't locals1 \<Rightarrow> bool" where
  "tall_target \<sigma> l \<longleftrightarrow> (\<exists>c. victim1 l = Some c \<and> (\<exists>n. heap1 \<sigma> c = Some n \<and> tall1 \<sigma> c (topLevel1 n)))"

definition own1 :: "nat \<Rightarrow> ('t::linorder) lock1 \<Rightarrow> addr1 \<Rightarrow> 't locals1 \<Rightarrow> bool" where
  "own1 M \<sigma> c l \<longleftrightarrow> mk1 \<sigma> c \<and> on_chain1 \<sigma> c \<and> c \<noteq> head1 \<sigma> \<and> c \<noteq> tail1 \<sigma> \<and> rg1 \<sigma> c = args1 l \<and>
     tall1 \<sigma> c (top_lv l) \<and> top_lv l \<le> M \<and> fst (args1 l) < snd (args1 l)"

definition removing1 :: "nat \<Rightarrow> ('t::linorder) lock1 \<Rightarrow> addr1 option \<Rightarrow> 't locals1 \<Rightarrow> bool" where
  "removing1 M \<sigma> v l \<longleftrightarrow> (if isMarked1 l then (\<exists>c. v = Some c \<and> own1 M \<sigma> c l) else v = None)"

text \<open>The lowest predecessor is locked and still the predecessor of the expected node.\<close>

definition want1 :: "op1 \<Rightarrow> 't locals1 \<Rightarrow> addr1 option" where
  "want1 op l = (if op = Inserting then succs1 l 0 else victim1 l)"

definition has_lock :: "'t locals1 \<Rightarrow> bool" where
  "has_lock l \<longleftrightarrow> (\<exists>p. preds1 l 0 = Some p \<and> p \<in> set (tracked l))"

definition unmarked_pred :: "'t lock1 \<Rightarrow> 't locals1 \<Rightarrow> bool" where
  "unmarked_pred \<sigma> l \<longleftrightarrow> (\<exists>p. preds1 l 0 = Some p \<and> p \<in> set (tracked l) \<and> \<not> mk1 \<sigma> p)"

definition secured1 :: "op1 \<Rightarrow> 't lock1 \<Rightarrow> 't locals1 \<Rightarrow> bool" where
  "secured1 op \<sigma> l \<longleftrightarrow> (\<exists>p. preds1 l 0 = Some p \<and> p \<in> set (tracked l) \<and> \<not> mk1 \<sigma> p \<and> nx1 \<sigma> p = want1 op l)"

definition tracked_ok :: "'t lock1 \<Rightarrow> 't locals1 \<Rightarrow> bool" where
  "tracked_ok \<sigma> l \<longleftrightarrow> distinct (tracked l) \<and> (\<forall>a\<in>set (tracked l). linked1 \<sigma> a \<and> locked1 \<sigma> a)"

text \<open>The locking loop, of an insertion and of a removal.\<close>

definition locking1 :: "nat \<Rightarrow> op1 \<Rightarrow> ('t::linorder) lock1 \<Rightarrow> addr1 option \<Rightarrow> 't locals1 \<Rightarrow> bool" where
  "locking1 M op \<sigma> v l \<longleftrightarrow> arrays1 M 0 \<sigma> l \<and> tracked_ok \<sigma> l \<and> lv1 l \<le> top_lv l \<and> top_lv l \<le> M \<and>
     (if op = Inserting then room1 \<sigma> l \<and> v = None else isMarked1 l \<and> removing1 M \<sigma> v l \<and> target1 \<sigma> l)"

text \<open>The private node, before and after its first link is set, and the linked one.\<close>

definition private1 :: "bool \<Rightarrow> ('t::linorder) lock1 \<Rightarrow> 't locals1 \<Rightarrow> bool" where
  "private1 set_link \<sigma> l \<longleftrightarrow> (\<exists>a. new1 l = Some a \<and> \<not> linked1 \<sigma> a \<and> a \<noteq> tail1 \<sigma> \<and> rg1 \<sigma> a = args1 l \<and>
     (\<exists>n. heap1 \<sigma> a = Some n \<and> topLevel1 n = top_lv l) \<and>
     (set_link \<longrightarrow> read1 \<sigma> (Some a) 0 = Some (succs1 l 0) \<and> tall1 \<sigma> a 0))"

definition published1 :: "('t::linorder) lock1 \<Rightarrow> 't locals1 \<Rightarrow> bool" where
  "published1 \<sigma> l \<longleftrightarrow> (\<exists>a. new1 l = Some a \<and> linked1 \<sigma> a \<and> a \<noteq> head1 \<sigma> \<and> a \<noteq> tail1 \<sigma> \<and> rg1 \<sigma> a = args1 l \<and>
     (\<exists>n. heap1 \<sigma> a = Some n \<and> topLevel1 n = top_lv l))"

definition linked_below :: "nat \<Rightarrow> ('t::linorder) lock1 \<Rightarrow> 't locals1 \<Rightarrow> bool" where
  "linked_below k \<sigma> l \<longleftrightarrow> (\<exists>a. new1 l = Some a \<and> (\<forall>j<k. tall1 \<sigma> a j))"

definition linking1 :: "nat \<Rightarrow> bool \<Rightarrow> ('t::linorder) lock1 \<Rightarrow> addr1 option \<Rightarrow> 't locals1 \<Rightarrow> bool" where
  "linking1 M at_pred \<sigma> v l \<longleftrightarrow> locking1 M Inserting \<sigma> v l \<and>
     (if lv1 l = 0 then private1 at_pred \<sigma> l \<and> secured1 Inserting \<sigma> l else published1 \<sigma> l) \<and>
     linked_below (if at_pred then Suc (lv1 l) else lv1 l) \<sigma> l"

text \<open>A refused range reaches into, or touches from the left, the range of an inserted node.\<close>

definition refused1 :: "('t::linorder) lock1 \<Rightarrow> 't locals1 \<Rightarrow> bool" where
  "refused1 \<sigma> l \<longleftrightarrow> (\<exists>c. good_ref1 \<sigma> 0 c \<and> s_arg l < snd (rg1 \<sigma> c) \<and> fst (rg1 \<sigma> c) \<le> e_arg l)"

definition thread_inv1 ::
  "nat \<Rightarrow> ('t::{linorder,order_bot,order_top}) lock1 \<Rightarrow> addr1 option \<Rightarrow> 't locals1 \<Rightarrow> bool" where
  "thread_inv1 M \<sigma> v l \<longleftrightarrow> (case pc1 l of
       Idle1 \<Rightarrow> tracked l = [] \<and> v = None
     | FindLevel op \<Rightarrow> legal_args1 l \<and> tracked l = [] \<and> searching1 op M False \<sigma> l \<and>
         (op = Inserting \<longrightarrow> top_lv l \<le> M) \<and> (if op = Removing then removing1 M \<sigma> v l else v = None)
     | FindWhile op \<Rightarrow> legal_args1 l \<and> tracked l = [] \<and> searching1 op M True \<sigma> l \<and>
         (op = Inserting \<longrightarrow> top_lv l \<le> M) \<and> (if op = Removing then removing1 M \<sigma> v l else v = None)
     | FindDone op \<Rightarrow> legal_args1 l \<and> tracked l = [] \<and> arrays1 M 0 \<sigma> l \<and> found1 op M 0 \<sigma> l \<and>
         (op = Inserting \<longrightarrow> top_lv l \<le> M) \<and> (if op = Removing then removing1 M \<sigma> v l else v = None)
     | SearchMarked \<Rightarrow> tracked l = [] \<and> v = None \<and> arrays1 M 0 \<sigma> l \<and>
         (\<exists>k. found_lv l = Some k \<and> k \<le> M)
     | LockVictim \<Rightarrow> legal_args1 l \<and> tracked l = [] \<and> arrays1 M 0 \<sigma> l \<and> \<not> isMarked1 l \<and> v = None \<and>
         target1 \<sigma> l \<and> tall_target \<sigma> l
     | CheckVictim \<Rightarrow> legal_args1 l \<and> tracked_ok \<sigma> l \<and> arrays1 M 0 \<sigma> l \<and> \<not> isMarked1 l \<and> v = None \<and>
         target1 \<sigma> l \<and> top_lv l \<le> M \<and>
         (\<exists>c. victim1 l = Some c \<and> c \<in> set (tracked l) \<and> tall1 \<sigma> c (top_lv l))
     | MarkVictim \<Rightarrow> legal_args1 l \<and> tracked_ok \<sigma> l \<and> arrays1 M 0 \<sigma> l \<and> \<not> isMarked1 l \<and> v = None \<and>
         target1 \<sigma> l \<and> top_lv l \<le> M \<and>
         (\<exists>c. victim1 l = Some c \<and> c \<in> set (tracked l) \<and> tall1 \<sigma> c (top_lv l) \<and> \<not> mk1 \<sigma> c)
     | LockPred op \<Rightarrow> legal_args1 l \<and> op \<noteq> Searching \<and> locking1 M op \<sigma> v l \<and> (lv1 l > 0 \<longrightarrow> secured1 op \<sigma> l)
     | ValPred op \<Rightarrow> legal_args1 l \<and> op \<noteq> Searching \<and> locking1 M op \<sigma> v l \<and>
         (if lv1 l > 0 then secured1 op \<sigma> l else has_lock l)
     | ValSucc \<Rightarrow> legal_args1 l \<and> locking1 M Inserting \<sigma> v l \<and>
         (if lv1 l > 0 then secured1 Inserting \<sigma> l else unmarked_pred \<sigma> l)
     | ValNext op \<Rightarrow> legal_args1 l \<and> op \<noteq> Searching \<and> locking1 M op \<sigma> v l \<and>
         (if lv1 l > 0 then secured1 op \<sigma> l else unmarked_pred \<sigma> l)
     | NewNode \<Rightarrow> legal_args1 l \<and> locking1 M Inserting \<sigma> v l \<and> secured1 Inserting \<sigma> l
     | LinkNew \<Rightarrow> legal_args1 l \<and> linking1 M False \<sigma> v l
     | LinkPred \<Rightarrow> legal_args1 l \<and> linking1 M True \<sigma> v l
     | FullyLinked \<Rightarrow> legal_args1 l \<and> tracked_ok \<sigma> l \<and> v = None \<and> published1 \<sigma> l
     | CountUp \<Rightarrow> legal_args1 l \<and> tracked_ok \<sigma> l \<and> v = None \<and> published1 \<sigma> l
     | UnlinkRead \<Rightarrow> legal_args1 l \<and> locking1 M Removing \<sigma> v l \<and> secured1 Removing \<sigma> l
     | UnlinkWrite \<Rightarrow> legal_args1 l \<and> locking1 M Removing \<sigma> v l \<and> secured1 Removing \<sigma> l \<and>
         (\<exists>q. next_val l = Some q \<and> good_ref1 \<sigma> (lv1 l) q) \<and>
         (lv1 l = 0 \<longrightarrow> (\<exists>c. victim1 l = Some c \<and> nx1 \<sigma> c = next_val l))
     | CountDown \<Rightarrow> legal_args1 l \<and> tracked_ok \<sigma> l \<and> v = None
     | Unlock op res \<Rightarrow> legal_args1 l \<and> op \<noteq> Searching \<and> tracked_ok \<sigma> l \<and> (op = Inserting \<longrightarrow> top_lv l \<le> M) \<and>
         (if op = Removing \<and> res = None then isMarked1 l \<and> removing1 M \<sigma> v l else v = None) \<and>
         (op = Inserting \<and> res \<noteq> None \<longrightarrow> res = Some True \<and> published1 \<sigma> l)
     | TryReturned1 b \<Rightarrow> tracked l = [] \<and> v = None \<and> (if b then published1 \<sigma> l else refused1 \<sigma> l)
     | RelReturned1 b \<Rightarrow> tracked l = [] \<and> v = None
     | SearchReturned1 b \<Rightarrow> tracked l = [] \<and> v = None
     | Exited1 \<Rightarrow> tracked l = [] \<and> (\<forall>c. v = Some c \<longrightarrow> mk1 \<sigma> c)
     | Crashed1 \<Rightarrow> False)"

text \<open>The node an insertion works on or has inserted, and while it is private.\<close>

definition claimed1 :: "'t locals1 \<Rightarrow> addr1 set" where
  "claimed1 l = (case pc1 l of
       LinkNew \<Rightarrow> set_option (new1 l) | LinkPred \<Rightarrow> set_option (new1 l)
     | FullyLinked \<Rightarrow> set_option (new1 l) | CountUp \<Rightarrow> set_option (new1 l)
     | Unlock op res \<Rightarrow> if op = Inserting \<and> res = Some True then set_option (new1 l) else {}
     | TryReturned1 b \<Rightarrow> if b then set_option (new1 l) else {}
     | _ \<Rightarrow> {})"

definition owned1 :: "'t locals1 \<Rightarrow> addr1 set" where
  "owned1 l = (if (pc1 l = LinkNew \<or> pc1 l = LinkPred) \<and> lv1 l = 0 then set_option (new1 l) else {})"

subsection \<open>The marked node\<close>

lemma chain_ordered1:
  assumes inv: "heap_inv1 M \<sigma>"
  shows "ordered_links closed_valid half_open_before (nx1 \<sigma>) (rg1 \<sigma>) (head1 \<sigma>)"
  unfolding ordered_links_def
proof (intro allI impI)
  fix a b assume "nx1 \<sigma> a = Some b"
  then have r: "read1 \<sigma> (Some a) 0 = Some (Some b)" by (simp add: nx1_iff)
  from heap_inv1D(4) [OF inv r] have g: "good_ref1 \<sigma> 0 b" .
  then have "closed_valid (rg1 \<sigma> b)"
    using heap_inv1D(3) [OF inv] by (auto simp: good_ref1_def tall1_iff closed_valid_def rg1_def wf_node1_def)
  with g heap_inv1D(5) [OF inv r]
  show "b \<noteq> head1 \<sigma> \<and> closed_valid (rg1 \<sigma> b) \<and> (a \<noteq> head1 \<sigma> \<longrightarrow> half_open_before (rg1 \<sigma> a) (rg1 \<sigma> b))"
    by (auto simp: good_ref1_def)
qed

lemma chain_same_range:
  assumes inv: "heap_inv1 M \<sigma>" and a: "on_chain1 \<sigma> a" "a \<noteq> head1 \<sigma>" and b: "on_chain1 \<sigma> b" "b \<noteq> head1 \<sigma>"
    and same: "rg1 \<sigma> a = rg1 \<sigma> b" "fst (rg1 \<sigma> a) < snd (rg1 \<sigma> a)"
  shows "a = b"
proof (rule ccontr)
  assume "a \<noteq> b"
  from touching.chain_disjoint [OF chain_ordered1 [OF inv] a [unfolded on_chain1_def] b [unfolded on_chain1_def] this]
  show False using same by (simp add: half_open_overlaps_def)
qed

text \<open>Behind the validation of the lowest predecessor, the victim is the node the thread has marked.\<close>

lemma secured_victim:
  assumes inv: "heap_inv1 M \<sigma>" and lk: "locking1 M Removing \<sigma> v l" and sec: "secured1 Removing \<sigma> l"
  obtains c p where "v = Some c" "victim1 l = Some c" "own1 M \<sigma> c l" "mk1 \<sigma> c"
    "preds1 l 0 = Some p" "p \<in> set (tracked l)" "\<not> mk1 \<sigma> p" "nx1 \<sigma> p = Some c" "linked1 \<sigma> p" "p \<noteq> tail1 \<sigma>"
proof -
  from lk have I: "isMarked1 l" "removing1 M \<sigma> v l" "target1 \<sigma> l" "arrays1 M 0 \<sigma> l" by (auto simp: locking1_def)
  from I obtain c where c: "v = Some c" "own1 M \<sigma> c l" by (auto simp: removing1_def)
  from I(3) obtain d where d: "victim1 l = Some d" "d \<noteq> head1 \<sigma>" "rg1 \<sigma> d = args1 l" by (auto simp: target1_def)
  from sec obtain p where p: "preds1 l 0 = Some p" "p \<in> set (tracked l)" "\<not> mk1 \<sigma> p" "nx1 \<sigma> p = Some d"
    by (auto simp: secured1_def want1_def d(1))
  from I(4) p(1) have pl: "linked1 \<sigma> p" "p \<noteq> tail1 \<sigma>" by (auto simp: arrays1_def pred_at_def)
  with p(3) have "on_chain1 \<sigma> p" by (simp add: linked1_iff)
  then have "on_chain1 \<sigma> d" unfolding on_chain1_def using p(4) by (rule reach_step)
  then have "c = d"
    using c(2) d by (intro chain_same_range [OF inv]) (auto simp: own1_def)
  then show thesis using that c d p pl by (auto simp: own1_def)
qed

subsection \<open>Steps of other threads\<close>

lemma pred_at_stable: "evolves1 T X U \<sigma> \<sigma>' \<Longrightarrow> pred_at \<sigma> k s p \<Longrightarrow> pred_at \<sigma>' k s p"
  using evolves1D(1,2,5,9) rg1_stable tall1_alloc unfolding pred_at_def by metis

lemma succ_at_stable: "evolves1 T X U \<sigma> \<sigma>' \<Longrightarrow> succ_at \<sigma> k s c \<Longrightarrow> succ_at \<sigma>' k s c"
  using good_ref1_stable rg1_stable tall1_alloc unfolding succ_at_def good_ref1_def by metis

lemma arrays1_stable: "evolves1 T X U \<sigma> \<sigma>' \<Longrightarrow> arrays1 M j \<sigma> l \<Longrightarrow> arrays1 M j \<sigma>' l"
  unfolding arrays1_def using pred_at_stable succ_at_stable by meson

lemma arrays1_rg:
  assumes "evolves1 T X U \<sigma> \<sigma>'" "arrays1 M j \<sigma> l" "j \<le> i" "i \<le> M" "succs1 l i = Some c"
  shows "rg1 \<sigma>' c = rg1 \<sigma> c"
proof -
  from assms(2-5) have "tall1 \<sigma> c i" by (auto simp: arrays1_def succ_at_def good_ref1_def)
  then show ?thesis using rg1_stable [OF assms(1)] tall1_alloc by blast
qed

lemma found1_stable:
  assumes ev: "evolves1 T X U \<sigma> \<sigma>'" and ar: "arrays1 M j \<sigma> l" and f: "found1 op M j \<sigma> l"
  shows "found1 op M j \<sigma>' l"
proof -
  note rg = arrays1_rg [OF ev ar]
  show ?thesis
  proof (cases "found_lv l")
    case None
    with f rg show ?thesis by (auto simp: found1_def)
  next
    case (Some k)
    with f obtain c where "j \<le> k" "k \<le> M" "succs1 l k = Some c" by (auto simp: found1_def)
    with f rg [of k c] Some show ?thesis by (auto simp: found1_def)
  qed
qed

lemma searching1_stable:
  "evolves1 T X U \<sigma> \<sigma>' \<Longrightarrow> searching1 op M b \<sigma> l \<Longrightarrow> searching1 op M b \<sigma>' l"
  unfolding searching1_def
  using pred_at_stable good_ref1_stable arrays1_stable found1_stable by meson

lemma rg1_linked:
  "heap_inv1 M \<sigma> \<Longrightarrow> evolves1 T X U \<sigma> \<sigma>' \<Longrightarrow> linked1 \<sigma> c \<Longrightarrow> rg1 \<sigma>' c = rg1 \<sigma> c"
  using rg1_stable linked1_alloc by blast

lemma refused1_stable: "evolves1 T X U \<sigma> \<sigma>' \<Longrightarrow> refused1 \<sigma> l \<Longrightarrow> refused1 \<sigma>' l"
  unfolding refused1_def using good_ref1_stable rg1_stable tall1_alloc unfolding good_ref1_def by metis

lemma room1_stable:
  assumes "evolves1 T X U \<sigma> \<sigma>'" "arrays1 M 0 \<sigma> l" "room1 \<sigma> l" shows "room1 \<sigma>' l"
  using assms(3) arrays1_rg [OF assms(1,2), of 0] by (auto simp: room1_def)

lemma target1_stable:
  assumes "heap_inv1 M \<sigma>" "evolves1 T X U \<sigma> \<sigma>'" "target1 \<sigma> l" shows "target1 \<sigma>' l"
  using assms(3) rg1_linked [OF assms(1,2)] evolves1D(1,2,5) [OF assms(2)] by (auto simp: target1_def)

lemma tall_target_stable:
  assumes "evolves1 T X U \<sigma> \<sigma>'" "tall_target \<sigma> l" shows "tall_target \<sigma>' l"
proof -
  from assms(2) obtain c n where c: "victim1 l = Some c" "heap1 \<sigma> c = Some n" "tall1 \<sigma> c (topLevel1 n)"
    by (auto simp: tall_target_def)
  from evolves1D(4) [OF assms(1) c(2)] obtain n' where "heap1 \<sigma>' c = Some n'" "topLevel1 n' = topLevel1 n"
    by (auto simp: same_node1_def)
  with c evolves1D(9) [OF assms(1) c(3)] show ?thesis by (auto simp: tall_target_def)
qed

lemma own1_stable:
  assumes "heap_inv1 M \<sigma>" "evolves1 T X U \<sigma> \<sigma>'" "own1 M \<sigma> c l" "c \<notin> U" shows "own1 M \<sigma>' c l"
proof -
  have "linked1 \<sigma> c" using assms(3) by (simp add: own1_def linked1_iff)
  with assms rg1_linked [OF assms(1,2)] show ?thesis
    using evolves1D(1,2,7,9,13) [OF assms(2)] by (simp add: own1_def)
qed

lemma removing1_stable:
  "heap_inv1 M \<sigma> \<Longrightarrow> evolves1 T X U \<sigma> \<sigma>' \<Longrightarrow> U \<inter> set_option v = {} \<Longrightarrow> removing1 M \<sigma> v l \<Longrightarrow> removing1 M \<sigma>' v l"
  using own1_stable by (fastforce simp: removing1_def)

lemma tracked_ok_stable:
  "evolves1 T X U \<sigma> \<sigma>' \<Longrightarrow> T \<inter> set (tracked l) = {} \<Longrightarrow> tracked_ok \<sigma> l \<Longrightarrow> tracked_ok \<sigma>' l"
  unfolding tracked_ok_def using evolves1D(5,14) [of T X U \<sigma> \<sigma>'] by blast

lemma tracked_fixed:
  assumes "evolves1 T X U \<sigma> \<sigma>'" "T \<inter> set (tracked l) = {}" "tracked_ok \<sigma> l" "p \<in> set (tracked l)"
  shows "mk1 \<sigma>' p = mk1 \<sigma> p" "nx1 \<sigma>' p = nx1 \<sigma> p"
  using assms evolves1D(10,11) [OF assms(1), of p] by (auto simp: tracked_ok_def)

lemma unmarked_pred_stable:
  "evolves1 T X U \<sigma> \<sigma>' \<Longrightarrow> T \<inter> set (tracked l) = {} \<Longrightarrow> tracked_ok \<sigma> l \<Longrightarrow> unmarked_pred \<sigma> l \<Longrightarrow> unmarked_pred \<sigma>' l"
  using tracked_fixed(1) by (metis unmarked_pred_def)

lemma secured1_stable:
  "evolves1 T X U \<sigma> \<sigma>' \<Longrightarrow> T \<inter> set (tracked l) = {} \<Longrightarrow> tracked_ok \<sigma> l \<Longrightarrow> secured1 op \<sigma> l \<Longrightarrow> secured1 op \<sigma>' l"
  using tracked_fixed unfolding secured1_def by metis

lemma locking1_stable:
  "heap_inv1 M \<sigma> \<Longrightarrow> evolves1 T X U \<sigma> \<sigma>' \<Longrightarrow> T \<inter> set (tracked l) = {} \<Longrightarrow> U \<inter> set_option v = {} \<Longrightarrow>
   locking1 M op \<sigma> v l \<Longrightarrow> locking1 M op \<sigma>' v l"
  unfolding locking1_def
  using arrays1_stable tracked_ok_stable room1_stable removing1_stable target1_stable by (metis (full_types))

lemma published1_stable:
  assumes "evolves1 T X U \<sigma> \<sigma>'" "published1 \<sigma> l" shows "published1 \<sigma>' l"
proof -
  from assms(2) obtain a n where a: "new1 l = Some a" "linked1 \<sigma> a" "a \<noteq> head1 \<sigma>" "a \<noteq> tail1 \<sigma>"
    "rg1 \<sigma> a = args1 l" "heap1 \<sigma> a = Some n" "topLevel1 n = top_lv l" by (auto simp: published1_def)
  then show ?thesis
    using evolves1D(1,2,5) [OF assms(1)] evolves1D(4) [OF assms(1) a(6)] rg1_stable [OF assms(1), of a]
    by (auto simp: published1_def same_node1_def)
qed

lemma private1_stable:
  assumes "evolves1 T X U \<sigma> \<sigma>'" "private1 b \<sigma> l" "new1 l = Some a" "a \<notin> X" shows "private1 b \<sigma>' l"
proof -
  from assms(2,3) obtain n where n: "\<not> linked1 \<sigma> a" "heap1 \<sigma> a = Some n" "a \<noteq> tail1 \<sigma>" "rg1 \<sigma> a = args1 l"
    by (auto simp: private1_def)
  have h: "heap1 \<sigma>' a = Some n" using evolves1D(12) [OF assms(1) n(2,1) assms(4)] .
  then have "read1 \<sigma>' (Some a) 0 = read1 \<sigma> (Some a) 0" "rg1 \<sigma>' a = rg1 \<sigma> a"
    using n(2) by (simp_all add: read1_def rg1_def)
  moreover have "\<not> linked1 \<sigma>' a" using evolves1D(6) [OF assms(1), of a] n(1) assms(4) by blast
  ultimately show ?thesis
    using assms(2,3) h n evolves1D(2,9) [OF assms(1)] by (auto simp: private1_def)
qed

lemma linked_below_stable: "evolves1 T X U \<sigma> \<sigma>' \<Longrightarrow> linked_below k \<sigma> l \<Longrightarrow> linked_below k \<sigma>' l"
  unfolding linked_below_def using evolves1D(9) by blast

lemma linking1_stable:
  assumes "heap_inv1 M \<sigma>" "evolves1 T X U \<sigma> \<sigma>'" "T \<inter> set (tracked l) = {}" "U \<inter> set_option v = {}"
    and "X \<inter> set_option (new1 l) = {}" "linking1 M b \<sigma> v l"
  shows "linking1 M b \<sigma>' v l"
proof -
  from assms(6) have L: "locking1 M Inserting \<sigma> v l" "tracked_ok \<sigma> l"
    "if lv1 l = 0 then private1 b \<sigma> l \<and> secured1 Inserting \<sigma> l else published1 \<sigma> l"
    "linked_below (if b then Suc (lv1 l) else lv1 l) \<sigma> l" by (auto simp: linking1_def locking1_def)
  from L(4) obtain a where a: "new1 l = Some a" by (auto simp: linked_below_def)
  with assms(5) have "a \<notin> X" by simp
  from L(3) have "if lv1 l = 0 then private1 b \<sigma>' l \<and> secured1 Inserting \<sigma>' l else published1 \<sigma>' l"
    using private1_stable [OF assms(2) _ a \<open>a \<notin> X\<close>] secured1_stable [OF assms(2,3) L(2)] published1_stable [OF assms(2)]
    by (auto split: if_splits)
  then show ?thesis
    unfolding linking1_def using locking1_stable [OF assms(1-4) L(1)] linked_below_stable [OF assms(2) L(4)] by blast
qed

lemmas stable1 = searching1_stable arrays1_stable found1_stable refused1_stable target1_stable tall_target_stable
  removing1_stable tracked_ok_stable unmarked_pred_stable secured1_stable locking1_stable published1_stable linking1_stable

lemma thread_inv1_stable:
  assumes inv: "heap_inv1 M \<sigma>" and ev: "evolves1 T X U \<sigma> \<sigma>'" and T: "T \<inter> set (tracked l) = {}"
    and X: "X \<inter> claimed1 l = {}" and U: "U \<inter> set_option v = {}" and ti: "thread_inv1 M \<sigma> v l"
  shows "thread_inv1 M \<sigma>' v l"
proof -
  note S = searching1_stable [OF ev] arrays1_stable [OF ev] refused1_stable [OF ev]
    target1_stable [OF inv ev] tall_target_stable [OF ev] removing1_stable [OF inv ev U] tracked_ok_stable [OF ev T]
    unmarked_pred_stable [OF ev T] secured1_stable [OF ev T] locking1_stable [OF inv ev T U] published1_stable [OF ev]
  have trk: "locking1 M op \<sigma> v l \<Longrightarrow> tracked_ok \<sigma> l" for op by (simp add: locking1_def)
  show ?thesis
  proof (cases "pc1 l")
    case (FindDone op)
    with ti S found1_stable [OF ev] show ?thesis by (auto simp: thread_inv1_def)
  next
    case CheckVictim
    with ti S evolves1D(9) [OF ev] show ?thesis by (auto simp: thread_inv1_def)
  next
    case MarkVictim
    with ti S(4,7,2) tracked_fixed(1) [OF ev T] evolves1D(9) [OF ev] show ?thesis
      by (auto simp: thread_inv1_def)
  next
    case Exited1
    with ti evolves1D(7) [OF ev] show ?thesis by (auto simp: thread_inv1_def)
  next
    case LinkNew
    with ti X linking1_stable [OF inv ev T U] show ?thesis by (auto simp: thread_inv1_def claimed1_def)
  next
    case LinkPred
    with ti X linking1_stable [OF inv ev T U] show ?thesis by (auto simp: thread_inv1_def claimed1_def)
  next
    case UnlinkWrite
    with ti have "locking1 M Removing \<sigma> v l" "secured1 Removing \<sigma> l" by (auto simp: thread_inv1_def)
    then obtain c where "victim1 l = Some c" "mk1 \<sigma> c" by (rule secured_victim [OF inv])
    then have "nx1 \<sigma>' c = nx1 \<sigma> c" if "victim1 l = Some c" for c
      using that evolves1D(8) [OF ev] by simp
    with UnlinkWrite ti S trk good_ref1_stable [OF ev] show ?thesis by (auto simp: thread_inv1_def)
  qed (use ti S trk in \<open>auto simp: thread_inv1_def split: if_splits\<close>)
qed

end
