(* ===== verification/V1_Steps.thy ===== *)
theory V1_Steps
  imports V1_Threads
begin

text \<open>
  Every step of a thread of the v1 lock keeps the invariant of the heap and the knowledge of the
  thread, and changes only what the other threads allow it to change.
\<close>

subsection \<open>Steps of the thread itself\<close>

definition step_ok1 ::
  "nat \<Rightarrow> ('t::{linorder,order_bot,order_top}) lock1 \<Rightarrow> addr1 option \<Rightarrow> 't locals1 \<Rightarrow> 't result1 \<Rightarrow> bool" where
  "step_ok1 M \<sigma> v l r \<longleftrightarrow> (\<exists>\<sigma>' l' v'. r = Some (\<sigma>', l') \<and> heap_inv1 M \<sigma>' \<and> thread_inv1 M \<sigma>' v' l' \<and>
     evolves1 (set (tracked l)) (owned1 l) (set_option v) \<sigma> \<sigma>' \<and>
     (\<forall>a\<in>set (tracked l'). a \<in> set (tracked l) \<or> \<not> locked1 \<sigma> a) \<and>
     claimed1 l' \<subseteq> claimed1 l \<union> {brk1 \<sigma>} \<and> (v' = v \<or> v' = None \<or> (\<exists>c. v' = Some c \<and> \<not> mk1 \<sigma> c)))"

lemma step_ok1I:
  assumes "heap_inv1 M \<sigma>'" "thread_inv1 M \<sigma>' v' l'"
    "evolves1 (set (tracked l)) (owned1 l) (set_option v) \<sigma> \<sigma>'" "set (tracked l') \<subseteq> set (tracked l)"
    "claimed1 l' \<subseteq> claimed1 l \<union> {brk1 \<sigma>}" "v' = v \<or> v' = None \<or> (\<exists>c. v' = Some c \<and> \<not> mk1 \<sigma> c)"
  shows "step_ok1 M \<sigma> v l (Some (\<sigma>', l'))"
  using assms unfolding step_ok1_def by blast

lemma step_ok1_local:
  assumes "heap_inv1 M \<sigma>" "thread_inv1 M \<sigma> v l'" "tracked l' = tracked l" "claimed1 l' \<subseteq> claimed1 l \<union> {brk1 \<sigma>}"
  shows "step_ok1 M \<sigma> v l (Some (\<sigma>, l'))"
  using assms by (intro step_ok1I [where v' = v]) simp_all

lemma tall1_read:
  assumes "heap_inv1 M \<sigma>" "tall1 \<sigma> p k" "p \<noteq> tail1 \<sigma>"
  obtains q where "read1 \<sigma> (Some p) k = Some (Some q)" "good_ref1 \<sigma> k q"
proof -
  from assms(2,3) obtain q where "read1 \<sigma> (Some p) k = Some (Some q)" by (auto simp: tall1_def)
  with heap_inv1D(4) [OF assms(1) this] that show thesis by blast
qed

lemma start_find_ok:
  assumes "heap_inv1 M \<sigma>" "legal_args1 l" "tracked l = []" "op = Inserting \<longrightarrow> top_lv l \<le> M"
    "if op = Removing then removing1 M \<sigma> v l else v = None"
  shows "thread_inv1 M \<sigma> v (start_find M \<sigma> op l)"
proof -
  have "pred_at \<sigma> M (s_arg l) (head1 \<sigma>)"
    using sentinels1D [OF assms(1)] by (simp add: pred_at_def)
  then show ?thesis
    using assms by (auto simp: thread_inv1_def start_find_def searching1_def arrays1_def found1_def legal_args1_def
        removing1_def own1_def)
qed

lemma claimed_start_find [simp]: "claimed1 (start_find M \<sigma> op l) = {}" "tracked (start_find M \<sigma> op l) = tracked l"
  by (simp_all add: start_find_def claimed1_def)

text \<open>What does not depend on the place in the code, or on the level.\<close>

lemmas know1_defs = legal_args1_def arrays1_def found1_def room1_def target1_def tall_target_def removing1_def own1_def
  has_lock_def unmarked_pred_def secured1_def want1_def tracked_ok_def private1_def published1_def linked_below_def refused1_def

lemma pc1_frame [simp]:
  "arrays1 M j \<sigma> (l\<lparr>pc1 := x\<rparr>) = arrays1 M j \<sigma> l"
  "found1 op M j \<sigma> (l\<lparr>pc1 := x\<rparr>) = found1 op M j \<sigma> l" "room1 \<sigma> (l\<lparr>pc1 := x\<rparr>) = room1 \<sigma> l"
  "target1 \<sigma> (l\<lparr>pc1 := x\<rparr>) = target1 \<sigma> l" "tall_target \<sigma> (l\<lparr>pc1 := x\<rparr>) = tall_target \<sigma> l"
  "removing1 M \<sigma> v (l\<lparr>pc1 := x\<rparr>) = removing1 M \<sigma> v l" "has_lock (l\<lparr>pc1 := x\<rparr>) = has_lock l"
  "unmarked_pred \<sigma> (l\<lparr>pc1 := x\<rparr>) = unmarked_pred \<sigma> l" "secured1 op \<sigma> (l\<lparr>pc1 := x\<rparr>) = secured1 op \<sigma> l"
  "tracked_ok \<sigma> (l\<lparr>pc1 := x\<rparr>) = tracked_ok \<sigma> l" "private1 b \<sigma> (l\<lparr>pc1 := x\<rparr>) = private1 b \<sigma> l"
  "published1 \<sigma> (l\<lparr>pc1 := x\<rparr>) = published1 \<sigma> l" "linked_below j \<sigma> (l\<lparr>pc1 := x\<rparr>) = linked_below j \<sigma> l"
  "refused1 \<sigma> (l\<lparr>pc1 := x\<rparr>) = refused1 \<sigma> l"
  by (simp_all add: know1_defs cong: option.case_cong)

lemma lv1_frame [simp]:
  "arrays1 M j \<sigma> (l\<lparr>lv1 := k\<rparr>) = arrays1 M j \<sigma> l"
  "found1 op M j \<sigma> (l\<lparr>lv1 := k\<rparr>) = found1 op M j \<sigma> l" "room1 \<sigma> (l\<lparr>lv1 := k\<rparr>) = room1 \<sigma> l"
  "target1 \<sigma> (l\<lparr>lv1 := k\<rparr>) = target1 \<sigma> l" "tall_target \<sigma> (l\<lparr>lv1 := k\<rparr>) = tall_target \<sigma> l"
  "removing1 M \<sigma> v (l\<lparr>lv1 := k\<rparr>) = removing1 M \<sigma> v l" "has_lock (l\<lparr>lv1 := k\<rparr>) = has_lock l"
  "unmarked_pred \<sigma> (l\<lparr>lv1 := k\<rparr>) = unmarked_pred \<sigma> l" "secured1 op \<sigma> (l\<lparr>lv1 := k\<rparr>) = secured1 op \<sigma> l"
  "tracked_ok \<sigma> (l\<lparr>lv1 := k\<rparr>) = tracked_ok \<sigma> l" "private1 b \<sigma> (l\<lparr>lv1 := k\<rparr>) = private1 b \<sigma> l"
  "published1 \<sigma> (l\<lparr>lv1 := k\<rparr>) = published1 \<sigma> l" "linked_below j \<sigma> (l\<lparr>lv1 := k\<rparr>) = linked_below j \<sigma> l"
  "refused1 \<sigma> (l\<lparr>lv1 := k\<rparr>) = refused1 \<sigma> l"
  by (simp_all add: know1_defs cong: option.case_cong)

lemma next_val_frame [simp]:
  "arrays1 M j \<sigma> (l\<lparr>next_val := q\<rparr>) = arrays1 M j \<sigma> l"
  "found1 op M j \<sigma> (l\<lparr>next_val := q\<rparr>) = found1 op M j \<sigma> l" "room1 \<sigma> (l\<lparr>next_val := q\<rparr>) = room1 \<sigma> l"
  "target1 \<sigma> (l\<lparr>next_val := q\<rparr>) = target1 \<sigma> l" "tall_target \<sigma> (l\<lparr>next_val := q\<rparr>) = tall_target \<sigma> l"
  "removing1 M \<sigma> v (l\<lparr>next_val := q\<rparr>) = removing1 M \<sigma> v l" "has_lock (l\<lparr>next_val := q\<rparr>) = has_lock l"
  "unmarked_pred \<sigma> (l\<lparr>next_val := q\<rparr>) = unmarked_pred \<sigma> l" "secured1 op \<sigma> (l\<lparr>next_val := q\<rparr>) = secured1 op \<sigma> l"
  "tracked_ok \<sigma> (l\<lparr>next_val := q\<rparr>) = tracked_ok \<sigma> l" "private1 b \<sigma> (l\<lparr>next_val := q\<rparr>) = private1 b \<sigma> l"
  "published1 \<sigma> (l\<lparr>next_val := q\<rparr>) = published1 \<sigma> l" "linked_below j \<sigma> (l\<lparr>next_val := q\<rparr>) = linked_below j \<sigma> l"
  "refused1 \<sigma> (l\<lparr>next_val := q\<rparr>) = refused1 \<sigma> l"
  by (simp_all add: know1_defs cong: option.case_cong)

lemma legal_frame [simp]:
  "legal_args1 (l\<lparr>pc1 := x\<rparr>) = legal_args1 l" "legal_args1 (l\<lparr>lv1 := k\<rparr>) = legal_args1 l"
  "legal_args1 (l\<lparr>next_val := q\<rparr>) = legal_args1 l" "legal_args1 (l\<lparr>tracked := as\<rparr>) = legal_args1 l"
  by (simp_all add: legal_args1_def)

lemma search_frame [simp]:
  "removing1 M \<sigma> v (l\<lparr>pred1 := p\<rparr>) = removing1 M \<sigma> v l" "removing1 M \<sigma> v (l\<lparr>curr1 := p\<rparr>) = removing1 M \<sigma> v l"
  "removing1 M \<sigma> v (l\<lparr>victim1 := p\<rparr>) = removing1 M \<sigma> v l" "removing1 M \<sigma> v (l\<lparr>tracked := as\<rparr>) = removing1 M \<sigma> v l"
  "removing1 M \<sigma> v (l\<lparr>found_lv := f, preds1 := ps, succs1 := cs\<rparr>) = removing1 M \<sigma> v l"
  "claimed1 (l\<lparr>pc1 := TryReturned1 False\<rparr>) = {}"
  by (simp_all add: removing1_def own1_def claimed1_def)

lemma locking1_frame [simp]:
  "locking1 M op \<sigma> v (l\<lparr>pc1 := x\<rparr>) = locking1 M op \<sigma> v l" "locking1 M op \<sigma> v (l\<lparr>next_val := q\<rparr>) = locking1 M op \<sigma> v l"
  by (simp_all add: locking1_def)

lemma find_level_ok:
  assumes inv: "heap_inv1 M \<sigma>" and ti: "thread_inv1 M \<sigma> v l" and pc: "pc1 l = FindLevel op"
  shows "step_ok1 M \<sigma> v l (find_level op \<sigma> l)"
proof -
  from ti pc obtain p where p: "pred1 l = Some p" "pred_at \<sigma> (lv1 l) (s_arg l) p"
    by (auto simp: thread_inv1_def searching1_def)
  then obtain q where q: "read1 \<sigma> (Some p) (lv1 l) = Some (Some q)" "good_ref1 \<sigma> (lv1 l) q"
    using tall1_read [OF inv] by (auto simp: pred_at_def)
  have "thread_inv1 M \<sigma> v (l\<lparr>curr1 := Some q, pc1 := FindWhile op\<rparr>)"
    using ti pc q p by (auto simp: thread_inv1_def searching1_def legal_args1_def arrays1_def found1_def split: option.splits if_splits)
  then show ?thesis
    using step_ok1_local [OF inv] p q by (simp add: find_level_def claimed1_def)
qed


text \<open>The inner loop: it goes on, or stores the two nodes of its level.\<close>

lemma arrays1_extend:
  assumes "arrays1 M (Suc k) \<sigma> l" "pred_at \<sigma> k (s_arg l) p" "succ_at \<sigma> k (s_arg l) c"
    and "s_arg l' = s_arg l" "preds1 l' = (preds1 l)(k := Some p)" "succs1 l' = (succs1 l)(k := Some c)"
  shows "arrays1 M k \<sigma> l'"
  using assms by (auto simp: arrays1_def Suc_le_eq)

lemma found1_extend:
  assumes "found1 op M (Suc k) \<sigma> l" "k \<le> M" "heap1 \<sigma> c = Some n" "succs1 l' = (succs1 l)(k := Some c)"
    and "s_arg l' = s_arg l" "e_arg l' = e_arg l"
    and "found_lv l' = (if found_lv l = None \<and> found_test op l n then Some k else found_lv l)"
  shows "found1 op M k \<sigma> l'"
proof (cases "found_lv l")
  case None
  have "found_test op l n \<longleftrightarrow> (if op = Inserting then fst (rg1 \<sigma> c) \<le> e_arg l else rg1 \<sigma> c = args1 l)"
    using assms(3) by (cases op) (auto simp: found_test_def rg1_def)
  with None assms show ?thesis
    by (auto simp: found1_def Suc_le_eq not_le split: if_splits) (metis le_neq_implies_less not_le)+
next
  case (Some j)
  with assms show ?thesis by (auto simp: found1_def)
qed

lemma find_while_ok:
  assumes inv: "heap_inv1 M \<sigma>" and ti: "thread_inv1 M \<sigma> v l" and pc: "pc1 l = FindWhile op"
  shows "step_ok1 M \<sigma> v l (find_while op \<sigma> l)"
proof -
  have ti: "legal_args1 l" "tracked l = []" "searching1 op M True \<sigma> l" "op = Inserting \<longrightarrow> top_lv l \<le> M"
      "if op = Removing then removing1 M \<sigma> v l else v = None"
    using ti pc by (simp_all add: thread_inv1_def)
  then obtain p c where p: "lv1 l \<le> M" "pred1 l = Some p" "pred_at \<sigma> (lv1 l) (s_arg l) p"
      "arrays1 M (Suc (lv1 l)) \<sigma> l" "found1 op M (Suc (lv1 l)) \<sigma> l"
      and c: "curr1 l = Some c" "good_ref1 \<sigma> (lv1 l) c" by (auto simp: searching1_def)
  from c(2) obtain n where n: "heap1 \<sigma> c = Some n" by (auto simp: good_ref1_def tall1_iff)
  then have rg: "end1 n = snd (rg1 \<sigma> c)" by (simp add: rg1_def)
  show ?thesis
  proof (cases "s_arg l \<ge> end1 n")
    case True
    have "c \<noteq> tail1 \<sigma>"
    proof
      assume "c = tail1 \<sigma>"
      with True rg sentinels1D(3) [OF inv] have "top \<le> s_arg l" by simp
      with ti(1) show False by (simp add: legal_args1_def leD)
    qed
    with c(2) obtain q where q: "read1 \<sigma> (Some c) (lv1 l) = Some (Some q)" "good_ref1 \<sigma> (lv1 l) q"
      using tall1_read [OF inv] by (auto simp: good_ref1_def)
    have "pred_at \<sigma> (lv1 l) (s_arg l) c"
      using True rg c(2) \<open>c \<noteq> tail1 \<sigma>\<close> by (simp add: pred_at_def good_ref1_def)
    then have "thread_inv1 M \<sigma> v (l\<lparr>pred1 := Some c, curr1 := Some q\<rparr>)"
      using ti p q pc by (auto simp: thread_inv1_def searching1_def legal_args1_def arrays1_def found1_def split: option.splits if_splits)
    then show ?thesis
      using step_ok1_local [OF inv] True c(1) n q(1) pc by (simp add: find_while_def claimed1_def)
  next
    case False
    let ?l = "l\<lparr>found_lv := (if found_lv l = None \<and> found_test op l n then Some (lv1 l) else found_lv l),
                      preds1 := (preds1 l)(lv1 l := pred1 l), succs1 := (succs1 l)(lv1 l := curr1 l)\<rparr>"
    have "succ_at \<sigma> (lv1 l) (s_arg l) c" using False rg c(2) by (simp add: succ_at_def not_le)
    with p c(1) have ar: "arrays1 M (lv1 l) \<sigma> ?l" by (intro arrays1_extend [OF p(4,3)]) simp_all
    have fo: "found1 op M (lv1 l) \<sigma> ?l" using p c(1) n by (intro found1_extend [OF p(5,1) n]) simp_all
    show ?thesis
    proof (cases "lv1 l = 0")
      case True
      have "thread_inv1 M \<sigma> v (?l\<lparr>pc1 := FindDone op\<rparr>)"
        using ti ar fo True by (auto simp: thread_inv1_def legal_args1_def)
      then show ?thesis
        using step_ok1_local [OF inv, of v] False True c(1) n by (simp add: find_while_def claimed1_def Let_def)
    next
      case gt: False
      then obtain k where k: "lv1 l = Suc k" by (cases "lv1 l") auto
      have "pred_at \<sigma> k (s_arg l) p" using p(3) tall1_mono [OF inv, of p "Suc k" k] by (simp add: pred_at_def k)
      then have "thread_inv1 M \<sigma> v (?l\<lparr>lv1 := k, pc1 := FindLevel op\<rparr>)"
        using ti ar fo p by (auto simp: thread_inv1_def searching1_def legal_args1_def k)
      then show ?thesis
        using step_ok1_local [OF inv, of v] False k c(1) n by (simp add: find_while_def claimed1_def Let_def)
    qed
  qed
qed


subsection \<open>Behind the searches\<close>

lemma found_succ:
  assumes "arrays1 M 0 \<sigma> l" "found1 op M 0 \<sigma> l" "found_lv l = Some k"
  obtains c n where "k \<le> M" "succs1 l k = Some c" "succ_at \<sigma> k (s_arg l) c" "heap1 \<sigma> c = Some n"
    "if op = Inserting then fst (rg1 \<sigma> c) \<le> e_arg l else rg1 \<sigma> c = args1 l"
proof -
  from assms(2,3) obtain c where c: "k \<le> M" "succs1 l k = Some c"
      "if op = Inserting then fst (rg1 \<sigma> c) \<le> e_arg l else rg1 \<sigma> c = args1 l" by (auto simp: found1_def)
  with assms(1) have "succ_at \<sigma> k (s_arg l) c" by (auto simp: arrays1_def)
  moreover from this obtain n where "heap1 \<sigma> c = Some n" by (auto simp: succ_at_def good_ref1_def tall1_iff)
  ultimately show thesis using c that by blast
qed

lemma insert_found_ok:
  assumes inv: "heap_inv1 M \<sigma>" and ti: "thread_inv1 M \<sigma> v l" and pc: "pc1 l = FindDone Inserting"
  shows "step_ok1 M \<sigma> v l (insert_found M \<sigma> l)"
proof -
  have ti: "legal_args1 l" "tracked l = []" "arrays1 M 0 \<sigma> l" "found1 Inserting M 0 \<sigma> l" "top_lv l \<le> M" "v = None"
    using ti pc by (simp_all add: thread_inv1_def)
  show ?thesis
  proof (cases "found_lv l")
    case None
    from ti(3) obtain c where "succs1 l 0 = Some c" by (auto simp: arrays1_def)
    with ti(4) None have "room1 \<sigma> l" by (auto simp: found1_def room1_def)
    then have "thread_inv1 M \<sigma> v (l\<lparr>lv1 := 0, pc1 := LockPred Inserting\<rparr>)"
      using ti by (simp add: thread_inv1_def locking1_def legal_args1_def arrays1_def room1_def tracked_ok_def)
    then show ?thesis
      using None step_ok1_local [OF inv, of v] by (simp add: insert_found_def claimed1_def)
  next
    case (Some k)
    obtain c n where c: "k \<le> M" "succs1 l k = Some c" "succ_at \<sigma> k (s_arg l) c" "heap1 \<sigma> c = Some n"
      "if Inserting = Inserting then fst (rg1 \<sigma> c) \<le> e_arg l else rg1 \<sigma> c = args1 l"
      by (rule found_succ [OF ti(3,4) Some])
    then have "good_ref1 \<sigma> 0 c" "s_arg l < snd (rg1 \<sigma> c)"
      using tall1_mono [OF inv, of c k 0] by (auto simp: succ_at_def good_ref1_def)
    then have "refused1 \<sigma> l" using c(5) unfolding refused1_def by auto
    then have r: "thread_inv1 M \<sigma> v (l\<lparr>pc1 := TryReturned1 False\<rparr>)"
      using ti by (simp add: thread_inv1_def refused1_def)
    have g: "thread_inv1 M \<sigma> v (start_find M \<sigma> Inserting l)"
      using ti by (intro start_find_ok [OF inv]) simp_all
    have "step_ok1 M \<sigma> v l (Some (\<sigma>, if \<not> marked1 n then l\<lparr>pc1 := TryReturned1 False\<rparr> else start_find M \<sigma> Inserting l))"
      using r g by (cases "marked1 n") (auto intro!: step_ok1_local [OF inv])
    then show ?thesis using Some c(2,4) by (simp add: insert_found_def)
  qed
qed

lemma remove_found_ok:
  assumes inv: "heap_inv1 M \<sigma>" and ti: "thread_inv1 M \<sigma> v l" and pc: "pc1 l = FindDone Removing"
  shows "step_ok1 M \<sigma> v l (remove_found \<sigma> l)"
proof -
  have ti: "legal_args1 l" "tracked l = []" "arrays1 M 0 \<sigma> l" "found1 Removing M 0 \<sigma> l" "removing1 M \<sigma> v l"
    using ti pc by (simp_all add: thread_inv1_def)
  show ?thesis
  proof (cases "found_lv l")
    case None
    have "thread_inv1 M \<sigma> v (l\<lparr>pc1 := Exited1\<rparr>)"
      using ti by (auto simp: thread_inv1_def removing1_def own1_def split: if_splits)
    then show ?thesis using None step_ok1_local [OF inv, of v] by (simp add: remove_found_def claimed1_def)
  next
    case (Some k)
    obtain c n where c: "k \<le> M" "succs1 l k = Some c" "succ_at \<sigma> k (s_arg l) c" "heap1 \<sigma> c = Some n"
      "if Removing = Inserting then fst (rg1 \<sigma> c) \<le> e_arg l else rg1 \<sigma> c = args1 l"
      by (rule found_succ [OF ti(3,4) Some])
    let ?l = "l\<lparr>victim1 := Some c\<rparr>"
    have "c \<noteq> tail1 \<sigma>"
      using c(5) ti(1) sentinels1D(3) [OF inv] by (auto simp: legal_args1_def)
    then have tg: "target1 \<sigma> ?l" "tall1 \<sigma> c k"
      using c by (auto simp: target1_def succ_at_def good_ref1_def)
    show ?thesis
    proof (cases "isMarked1 l")
      case True
      then have "top_lv l \<le> M" using ti(5) by (auto simp: removing1_def own1_def)
      then have "thread_inv1 M \<sigma> v (?l\<lparr>lv1 := 0, pc1 := LockPred Removing\<rparr>)"
        using ti tg True
        by (simp add: thread_inv1_def locking1_def legal_args1_def arrays1_def target1_def tracked_ok_def removing1_def own1_def)
      then show ?thesis using Some c(2) True step_ok1_local [OF inv, of v] by (simp add: remove_found_def claimed1_def Let_def)
    next
      case False
      then have v: "v = None" using ti(5) by (simp add: removing1_def)
      have a: "thread_inv1 M \<sigma> v (?l\<lparr>pc1 := LockVictim\<rparr>)" if "topLevel1 n = k"
        using ti tg that c(4) False v
        by (simp add: thread_inv1_def legal_args1_def arrays1_def target1_def tall_target_def)
      have b: "thread_inv1 M \<sigma> v (?l\<lparr>pc1 := Unlock Removing (Some False)\<rparr>)"
        using ti v by (simp add: thread_inv1_def legal_args1_def tracked_ok_def)
      have "step_ok1 M \<sigma> v l (Some (\<sigma>, if topLevel1 n = k \<and> \<not> marked1 n then ?l\<lparr>pc1 := LockVictim\<rparr>
                        else ?l\<lparr>pc1 := Unlock Removing (Some False)\<rparr>))"
        using a b by (auto intro!: step_ok1_local [OF inv] simp: claimed1_def split: if_split)
      then show ?thesis using Some c(2,4) False by (simp add: remove_found_def Let_def)
    qed
  qed
qed

lemma search_found_ok:
  assumes inv: "heap_inv1 M \<sigma>" and ti: "thread_inv1 M \<sigma> v l" and pc: "pc1 l = FindDone Searching"
  shows "step_ok1 M \<sigma> v l (search_found \<sigma> l)"
proof -
  have ti: "tracked l = []" "arrays1 M 0 \<sigma> l" "found1 Searching M 0 \<sigma> l" "v = None"
    using ti pc by (simp_all add: thread_inv1_def)
  show ?thesis
  proof (cases "found_lv l")
    case None
    have "thread_inv1 M \<sigma> v (l\<lparr>pc1 := SearchReturned1 False\<rparr>)" using ti by (simp add: thread_inv1_def)
    then show ?thesis using None step_ok1_local [OF inv, of v] by (simp add: search_found_def claimed1_def)
  next
    case (Some k)
    obtain c n where c: "k \<le> M" "succs1 l k = Some c" "heap1 \<sigma> c = Some n"
      by (rule found_succ [OF ti(2,3) Some])
    have "thread_inv1 M \<sigma> v (l\<lparr>pc1 := (if fullyLinked1 n then SearchMarked else SearchReturned1 False)\<rparr>)"
      using ti c Some by (auto simp: thread_inv1_def arrays1_def)
    then show ?thesis using Some c step_ok1_local [OF inv, of v] by (simp add: search_found_def claimed1_def)
  qed
qed

lemma search_marked_ok:
  assumes inv: "heap_inv1 M \<sigma>" and ti: "thread_inv1 M \<sigma> v l" and pc: "pc1 l = SearchMarked"
  shows "step_ok1 M \<sigma> v l (search_marked \<sigma> l)"
proof -
  have ti: "tracked l = []" "arrays1 M 0 \<sigma> l" "v = None" and "\<exists>k. found_lv l = Some k \<and> k \<le> M"
    using ti pc by (simp_all add: thread_inv1_def)
  then obtain k c n where c: "found_lv l = Some k" "succs1 l k = Some c" "heap1 \<sigma> c = Some n"
    by (auto simp: arrays1_def succ_at_def good_ref1_def tall1_iff)
  have "thread_inv1 M \<sigma> v (l\<lparr>pc1 := SearchReturned1 b\<rparr>)" for b using ti by (simp add: thread_inv1_def)
  then show ?thesis using c step_ok1_local [OF inv, of v] by (simp add: search_marked_def claimed1_def)
qed


subsection \<open>Locking and validating\<close>

lemma tracked_frame [simp]:
  "arrays1 M j \<sigma> (l\<lparr>tracked := as\<rparr>) = arrays1 M j \<sigma> l" "room1 \<sigma> (l\<lparr>tracked := as\<rparr>) = room1 \<sigma> l"
  "target1 \<sigma> (l\<lparr>tracked := as\<rparr>) = target1 \<sigma> l" "tall_target \<sigma> (l\<lparr>tracked := as\<rparr>) = tall_target \<sigma> l"
  "arrays1 M j \<sigma> (l\<lparr>top_lv := k\<rparr>) = arrays1 M j \<sigma> l" "target1 \<sigma> (l\<lparr>top_lv := k\<rparr>) = target1 \<sigma> l"
  "published1 \<sigma> (l\<lparr>tracked := as\<rparr>) = published1 \<sigma> l"
  "tall_target \<sigma> (l\<lparr>top_lv := k\<rparr>) = tall_target \<sigma> l" "tracked_ok \<sigma> (l\<lparr>top_lv := k\<rparr>) = tracked_ok \<sigma> l"
  by (simp_all add: know1_defs)

lemma claimed_tracked [simp]: "claimed1 (l\<lparr>tracked := as\<rparr>) = claimed1 l"
  by (simp add: claimed1_def split: pc1.split)

lemma secured_append: "secured1 op \<sigma> l \<Longrightarrow> secured1 op \<sigma> (l\<lparr>tracked := tracked l @ as\<rparr>)"
  by (auto simp: secured1_def want1_def)

text \<open>What locking may leave behind: the old state of the thread, or one more node locked.\<close>

definition locked_to :: "addr1 \<Rightarrow> 't locals1 \<Rightarrow> 't locals1 \<Rightarrow> bool" where
  "locked_to a l l' \<longleftrightarrow> a \<in> set (tracked l') \<and> (l' = l \<or> l' = l\<lparr>tracked := tracked l @ [a]\<rparr>)"

lemma trackAndLock_ok:
  fixes \<sigma> :: "('t::{linorder,order_bot,order_top}) lock1" and l l0 :: "'t locals1"
  assumes inv: "heap_inv1 M \<sigma>" and p: "p = Some a" "linked1 \<sigma> a" and tr: "tracked_ok \<sigma> l"
    and same: "tracked l0 = tracked l" "\<And>l' :: 't locals1. claimed1 (l'\<lparr>pc1 := k\<rparr>) = {}" "claimed1 l = {}"
    and waits: "thread_inv1 M \<sigma> v l"
    and goes: "\<And>\<sigma>' l'. heap_inv1 M \<sigma>' \<Longrightarrow> evolves1 {} {} {} \<sigma> \<sigma>' \<Longrightarrow> tracked_ok \<sigma>' l' \<Longrightarrow> locked_to a l l' \<Longrightarrow>
      thread_inv1 M \<sigma>' v (l'\<lparr>pc1 := k\<rparr>)"
  shows "step_ok1 M \<sigma> v l0 (trackAndLock p k \<sigma> l)"
proof -
  from linked1_alloc [OF inv p(2)] obtain n where n: "heap1 \<sigma> a = Some n" by auto
  consider "a \<in> set (tracked l)" | "a \<notin> set (tracked l)" "mutex1 n" | "a \<notin> set (tracked l)" "\<not> mutex1 n" by blast
  then show ?thesis
  proof cases
    case 1
    with goes [OF inv _ tr] have "thread_inv1 M \<sigma> v (l\<lparr>pc1 := k\<rparr>)" by (simp add: locked_to_def)
    moreover have "claimed1 (l\<lparr>pc1 := k\<rparr>) \<subseteq> claimed1 l0 \<union> {brk1 \<sigma>}" using same(2) [of l] by blast
    ultimately show ?thesis using 1 p(1) same(1)
      by (simp add: trackAndLock_def step_ok1_local [OF inv])
  next
    case 2
    with p(1) n waits same show ?thesis
      by (auto simp: trackAndLock_def intro!: step_ok1_local [OF inv])
  next
    case 3
    let ?f = "\<lambda>n::'t node1. n\<lparr>mutex1 := True\<rparr>"
    obtain \<sigma>' where s': "update1 \<sigma> (Some a) ?f = Some \<sigma>'" using n by (auto simp: update1_Some)
    have q: "same_node1 n (?f n) \<and> next1 (?f n) = next1 n \<and> marked1 (?f n) = marked1 n" for n
      by (simp add: same_node1_def)
    have ev: "evolves1 T X U \<sigma> \<sigma>'" for T X U
      using p(2) by (intro quiet_evolves [OF s' _ q]) auto
    have inv': "heap_inv1 M \<sigma>'" by (rule quiet_heap_inv [OF inv s' q])
    have "locked1 \<sigma>' a" using s' by (auto simp: update1_Some locked1_def)
    with tracked_ok_stable [OF ev [of "{}"] _ tr] evolves1D(5) [OF ev p(2)] 3
    have tr': "tracked_ok \<sigma>' (l\<lparr>tracked := tracked l @ [a]\<rparr>)" by (auto simp: tracked_ok_def)
    from goes [OF inv' ev tr'] have "thread_inv1 M \<sigma>' v (l\<lparr>tracked := tracked l @ [a], pc1 := k\<rparr>)"
      by (simp add: locked_to_def)
    moreover have "\<not> locked1 \<sigma> a" using 3 n by (simp add: locked1_def)
    ultimately have "step_ok1 M \<sigma> v l0 (Some (\<sigma>', l\<lparr>tracked := tracked l @ [a], pc1 := k\<rparr>))"
      using inv' ev same unfolding step_ok1_def by (intro exI conjI) auto
    then show ?thesis using 3 p(1) n s' by (simp add: trackAndLock_def)
  qed
qed

lemma locked_to_facts:
  assumes "locked_to a l l'" "secured1 op \<sigma> l"
  shows "secured1 op \<sigma> l'"
  using assms secured_append by (auto simp: locked_to_def)

lemma locked_to_frame:
  assumes "locked_to a l l'"
  shows "arrays1 M j \<sigma> l' = arrays1 M j \<sigma> l" "room1 \<sigma> l' = room1 \<sigma> l" "target1 \<sigma> l' = target1 \<sigma> l"
    "tall_target \<sigma> l' = tall_target \<sigma> l" "removing1 M \<sigma> v l' = removing1 M \<sigma> v l" "isMarked1 l' = isMarked1 l"
    "lv1 l' = lv1 l" "top_lv l' = top_lv l" "victim1 l' = victim1 l" "preds1 l' = preds1 l" "a \<in> set (tracked l')"
    "s_arg l' = s_arg l" "e_arg l' = e_arg l"
  using assms by (auto simp: locked_to_def)

lemma lock_victim_ok:
  assumes inv: "heap_inv1 M \<sigma>" and ti: "thread_inv1 M \<sigma> v l" and pc: "pc1 l = LockVictim"
  shows "step_ok1 M \<sigma> v l (remove_step1 LockVictim \<sigma> l)"
proof -
  have ti: "legal_args1 l" "tracked l = []" "arrays1 M 0 \<sigma> l" "\<not> isMarked1 l" "v = None" "target1 \<sigma> l" "tall_target \<sigma> l"
    using ti pc by (simp_all add: thread_inv1_def)
  from ti(7,6) obtain c n where c: "victim1 l = Some c" "heap1 \<sigma> c = Some n" "tall1 \<sigma> c (topLevel1 n)" "linked1 \<sigma> c"
    by (auto simp: tall_target_def target1_def)
  have top: "topLevel1 n \<le> M" using heap_inv1D(3) [OF inv c(2)] by (simp add: wf_node1_def)
  let ?l = "l\<lparr>top_lv := topLevel1 n\<rparr>"
  have "step_ok1 M \<sigma> v l (trackAndLock (victim1 l) CheckVictim \<sigma> ?l)"
  proof (rule trackAndLock_ok [OF inv c(1,4)])
    show "tracked_ok \<sigma> ?l" using ti(2) by (simp add: tracked_ok_def)
    show "thread_inv1 M \<sigma> v ?l" using ti pc by (simp add: thread_inv1_def legal_args1_def)
  next
    fix \<sigma>' l' assume g: "heap_inv1 M \<sigma>'" "evolves1 {} {} {} \<sigma> \<sigma>'" "tracked_ok \<sigma>' l'" "locked_to c ?l l'"
    note L = locked_to_frame [OF g(4)]
    have "legal_args1 l'" using ti(1) L(12,13) by (simp add: legal_args1_def)
    moreover have "arrays1 M 0 \<sigma>' l'" "target1 \<sigma>' l'"
      using arrays1_stable [OF g(2) ti(3)] target1_stable [OF inv g(2) ti(6)] by (simp_all add: L)
    ultimately show "thread_inv1 M \<sigma>' v (l'\<lparr>pc1 := CheckVictim\<rparr>)"
      using ti top c(1) g(3) L(11) evolves1D(9) [OF g(2) c(3)] by (simp add: thread_inv1_def L(6-9))
  qed (use pc in \<open>simp_all add: claimed1_def\<close>)
  then show ?thesis using c by simp
qed

lemma check_victim_ok:
  assumes inv: "heap_inv1 M \<sigma>" and ti: "thread_inv1 M \<sigma> v l" and pc: "pc1 l = CheckVictim"
  shows "step_ok1 M \<sigma> v l (remove_step1 CheckVictim \<sigma> l)"
proof -
  have ti: "legal_args1 l" "tracked_ok \<sigma> l" "arrays1 M 0 \<sigma> l" "\<not> isMarked1 l" "v = None" "target1 \<sigma> l" "top_lv l \<le> M"
      "\<exists>c. victim1 l = Some c \<and> c \<in> set (tracked l) \<and> tall1 \<sigma> c (top_lv l)"
    using ti pc by (simp_all add: thread_inv1_def)
  then obtain c where c: "victim1 l = Some c" "c \<in> set (tracked l)" "tall1 \<sigma> c (top_lv l)" by auto
  from tall1_alloc [OF c(3)] obtain n where n: "heap1 \<sigma> c = Some n" by auto
  note c = c n
  have "thread_inv1 M \<sigma> v (l\<lparr>pc1 := (if marked1 n then Unlock Removing (Some False) else MarkVictim)\<rparr>)"
    using ti c by (auto simp: thread_inv1_def mk1_def)
  then show ?thesis
    using c step_ok1_local [OF inv, of v] by (simp add: claimed1_def)
qed

lemma mark_victim_ok:
  assumes inv: "heap_inv1 M \<sigma>" and ti: "thread_inv1 M \<sigma> v l" and pc: "pc1 l = MarkVictim"
  shows "step_ok1 M \<sigma> v l (remove_step1 MarkVictim \<sigma> l)"
proof -
  have ti: "legal_args1 l" "tracked_ok \<sigma> l" "arrays1 M 0 \<sigma> l" "v = None" "target1 \<sigma> l" "top_lv l \<le> M"
      "\<exists>c. victim1 l = Some c \<and> c \<in> set (tracked l) \<and> tall1 \<sigma> c (top_lv l) \<and> \<not> mk1 \<sigma> c"
    using ti pc by (simp_all add: thread_inv1_def)
  then obtain c where c: "victim1 l = Some c" "c \<in> set (tracked l)" "tall1 \<sigma> c (top_lv l)" "\<not> mk1 \<sigma> c" by auto
  from ti(5) c(1) have t: "linked1 \<sigma> c" "c \<noteq> head1 \<sigma>" "c \<noteq> tail1 \<sigma>" "rg1 \<sigma> c = args1 l" "s_arg l < e_arg l"
    by (auto simp: target1_def)
  from c(3) obtain \<sigma>' where u: "update1 \<sigma> (Some c) (\<lambda>n. n\<lparr>marked1 := True\<rparr>) = Some \<sigma>'"
    by (auto simp: update1_Some tall1_iff)
  note K = mark_keeps [OF inv t(1) c(2) u] and F = mark_frame [OF u]
  have ev: "evolves1 (set (tracked l)) X U \<sigma> \<sigma>'" for X U by (rule K(2))
  let ?l = "l\<lparr>isMarked1 := True, lv1 := 0, pc1 := LockPred Removing\<rparr>"
  have "own1 M \<sigma>' c l"
    using t c ti(6) by (simp add: own1_def F linked1_iff)
  then have "removing1 M \<sigma>' (Some c) ?l" by (simp add: removing1_def own1_def)
  moreover have "arrays1 M 0 \<sigma>' ?l" "target1 \<sigma>' ?l"
    using arrays1_stable [OF ev ti(3)] target1_stable [OF inv ev ti(5)] by (simp_all add: arrays1_def target1_def)
  moreover have "tracked_ok \<sigma>' ?l" using ti(2) by (simp add: tracked_ok_def K(3) F(10))
  ultimately have "thread_inv1 M \<sigma>' (Some c) ?l"
    using ti by (simp add: thread_inv1_def locking1_def legal_args1_def)
  moreover have "claimed1 ?l \<subseteq> claimed1 l \<union> {brk1 \<sigma>}" by (simp add: claimed1_def)
  ultimately have "step_ok1 M \<sigma> v l (Some (\<sigma>', ?l))"
    using ev c(4) by (intro step_ok1I [OF K(1)]) auto
  then show ?thesis using c(1) u by simp
qed


lemma locking1_locked_to:
  assumes "locking1 M op \<sigma> v l" "locked_to a l l'" "tracked_ok \<sigma> l'"
  shows "locking1 M op \<sigma> v l'"
  using assms(1,3) by (simp add: locking1_def locked_to_frame [OF assms(2)])

lemma locking1_at:
  assumes "locking1 M op \<sigma> v l"
  obtains p c where "preds1 l (lv1 l) = Some p" "succs1 l (lv1 l) = Some c" "pred_at \<sigma> (lv1 l) (s_arg l) p"
    "succ_at \<sigma> (lv1 l) (s_arg l) c" "lv1 l \<le> M"
proof -
  from assms have "lv1 l \<le> M" "arrays1 M 0 \<sigma> l" by (simp_all add: locking1_def)
  then show thesis using that by (auto simp: arrays1_def)
qed

lemma lock_pred_ok:
  assumes inv: "heap_inv1 M \<sigma>" and ti: "thread_inv1 M \<sigma> v l" and pc: "pc1 l = LockPred op"
  shows "step_ok1 M \<sigma> v l (lock_step M (LockPred op) \<sigma> l)"
proof -
  have k: "legal_args1 l" "op \<noteq> Searching" "locking1 M op \<sigma> v l" "lv1 l > 0 \<longrightarrow> secured1 op \<sigma> l"
    using ti pc by (simp_all add: thread_inv1_def)
  from k(3) have tr: "tracked_ok \<sigma> l" by (simp add: locking1_def)
  from locking1_at [OF k(3)] obtain p where p: "preds1 l (lv1 l) = Some p" "linked1 \<sigma> p" "lv1 l \<le> M"
    by (auto simp: pred_at_def)
  have "step_ok1 M \<sigma> v l (trackAndLock (preds1 l (lv1 l)) (ValPred op) \<sigma> l)"
  proof (rule trackAndLock_ok [OF inv p(1,2) tr])
    show "thread_inv1 M \<sigma> v l" by (rule ti)
  next
    fix \<sigma>' l' assume g: "heap_inv1 M \<sigma>'" "evolves1 {} {} {} \<sigma> \<sigma>'" "tracked_ok \<sigma>' l'" "locked_to p l l'"
    note L = locked_to_frame [OF g(4)]
    have "locking1 M op \<sigma>' v l'"
      using locking1_locked_to [OF locking1_stable [OF inv g(2) _ _ k(3)] g(4,3)] by simp
    moreover have "legal_args1 l'" using k(1) L(12,13) by (simp add: legal_args1_def)
    moreover have "if lv1 l > 0 then secured1 op \<sigma>' l' else has_lock l'"
      using k(4) locked_to_facts [OF g(4) secured1_stable [OF g(2) _ tr]] p(1)
      by (auto simp: has_lock_def L(10,11))
    ultimately show "thread_inv1 M \<sigma>' v (l'\<lparr>pc1 := ValPred op\<rparr>)"
      using k(2) by (simp add: thread_inv1_def L(7))
  qed (use pc in \<open>simp_all add: claimed1_def\<close>)
  then show ?thesis using p(3) by simp
qed

lemma locking_unlock:
  assumes "legal_args1 l" "op \<noteq> Searching" "locking1 M op \<sigma> v l"
  shows "thread_inv1 M \<sigma> v (l\<lparr>pc1 := Unlock op None\<rparr>)"
  using assms by (cases op) (simp_all add: thread_inv1_def locking1_def)

lemma val_pred_ok:
  assumes inv: "heap_inv1 M \<sigma>" and ti: "thread_inv1 M \<sigma> v l" and pc: "pc1 l = ValPred op"
  shows "step_ok1 M \<sigma> v l (lock_step M (ValPred op) \<sigma> l)"
proof -
  have k: "legal_args1 l" "op \<noteq> Searching" "locking1 M op \<sigma> v l" "if lv1 l > 0 then secured1 op \<sigma> l else has_lock l"
    using ti pc by (simp_all add: thread_inv1_def)
  from locking1_at [OF k(3)] obtain p where p: "preds1 l (lv1 l) = Some p" "linked1 \<sigma> p" by (auto simp: pred_at_def)
  from linked1_alloc [OF inv p(2)] obtain n where n: "heap1 \<sigma> p = Some n" by auto
  have u: "if lv1 l > 0 then secured1 op \<sigma> l else unmarked_pred \<sigma> l" if "\<not> marked1 n"
    using k(4) p(1) n that by (auto simp: has_lock_def unmarked_pred_def mk1_def)
  have "thread_inv1 M \<sigma> v (l\<lparr>pc1 := (if marked1 n then Unlock op None else if op = Inserting then ValSucc else ValNext op)\<rparr>)"
    using locking_unlock [OF k(1-3)] k(1-3) u by (auto simp: thread_inv1_def)
  then show ?thesis
    using p n step_ok1_local [OF inv, of v] by (simp add: claimed1_def)
qed

lemma val_succ_ok:
  assumes inv: "heap_inv1 M \<sigma>" and ti: "thread_inv1 M \<sigma> v l" and pc: "pc1 l = ValSucc"
  shows "step_ok1 M \<sigma> v l (lock_step M ValSucc \<sigma> l)"
proof -
  have k: "legal_args1 l" "locking1 M Inserting \<sigma> v l"
      "if lv1 l > 0 then secured1 Inserting \<sigma> l else unmarked_pred \<sigma> l"
    using ti pc by (simp_all add: thread_inv1_def)
  from locking1_at [OF k(2)] obtain c where c: "succs1 l (lv1 l) = Some c" "linked1 \<sigma> c"
    by (auto simp: succ_at_def good_ref1_def)
  from linked1_alloc [OF inv c(2)] obtain n where n: "heap1 \<sigma> c = Some n" by auto
  have "thread_inv1 M \<sigma> v (l\<lparr>pc1 := (if marked1 n then Unlock Inserting None else ValNext Inserting)\<rparr>)"
    using locking_unlock [OF k(1) _ k(2)] k by (auto simp: thread_inv1_def)
  then show ?thesis
    using c n step_ok1_local [OF inv, of v] by (simp add: claimed1_def)
qed

lemma level_valid_ok:
  assumes "legal_args1 l" "op \<noteq> Searching" "locking1 M op \<sigma> v l" "secured1 op \<sigma> l"
  shows "thread_inv1 M \<sigma> v (level_valid op l)" "claimed1 (level_valid op l) = {}" "tracked (level_valid op l) = tracked l"
proof -
  have "locking1 M op \<sigma> v (l\<lparr>lv1 := k\<rparr>)" if "k \<le> top_lv l" for k
    using assms(3) that by (simp add: locking1_def)
  moreover have "op = Inserting \<or> op = Removing" using assms(2) by (cases op) auto
  ultimately show "thread_inv1 M \<sigma> v (level_valid op l)"
    using assms by (auto simp: level_valid_def thread_inv1_def)
qed (simp_all add: level_valid_def claimed1_def)

lemma val_next_ok:
  assumes inv: "heap_inv1 M \<sigma>" and ti: "thread_inv1 M \<sigma> v l" and pc: "pc1 l = ValNext op"
  shows "step_ok1 M \<sigma> v l (lock_step M (ValNext op) \<sigma> l)"
proof -
  have k: "legal_args1 l" "op \<noteq> Searching" "locking1 M op \<sigma> v l"
      "if lv1 l > 0 then secured1 op \<sigma> l else unmarked_pred \<sigma> l"
    using ti pc by (simp_all add: thread_inv1_def)
  from locking1_at [OF k(3)] obtain p where p: "preds1 l (lv1 l) = Some p" "tall1 \<sigma> p (lv1 l)" "p \<noteq> tail1 \<sigma>"
    by (auto simp: pred_at_def)
  from tall1_read [OF inv p(2,3)] obtain q where q: "read1 \<sigma> (Some p) (lv1 l) = Some (Some q)" by blast
  have s: "secured1 op \<sigma> l" if "Some q = expected op l"
  proof (cases "lv1 l > 0")
    case False
    with q have "nx1 \<sigma> p = Some q" by (simp add: nx1_iff)
    with False k(4) p(1) that show ?thesis by (auto simp: secured1_def unmarked_pred_def want1_def expected_def)
  qed (use k(4) in simp)
  have "step_ok1 M \<sigma> v l (Some (\<sigma>, if Some q = expected op l then level_valid op l else l\<lparr>pc1 := Unlock op None\<rparr>))"
  proof (cases "Some q = expected op l")
    case True
    then show ?thesis
      using level_valid_ok [OF k(1-3) s] by (simp add: step_ok1_local [OF inv])
  next
    case False
    moreover have "claimed1 (l\<lparr>pc1 := Unlock op None\<rparr>) = {}" by (simp add: claimed1_def)
    ultimately show ?thesis using locking_unlock [OF k(1-3)] by (simp add: step_ok1_local [OF inv])
  qed
  then show ?thesis using p(1) q by simp
qed

lemma unlock_ok:
  assumes inv: "heap_inv1 M \<sigma>" and ti: "thread_inv1 M \<sigma> v l" and pc: "pc1 l = Unlock op res"
  shows "step_ok1 M \<sigma> v l (lock_step M (Unlock op res) \<sigma> l)"
proof -
  have k: "legal_args1 l" "op \<noteq> Searching" "tracked_ok \<sigma> l" "op = Inserting \<longrightarrow> top_lv l \<le> M"
      "if op = Removing \<and> res = None then isMarked1 l \<and> removing1 M \<sigma> v l else v = None"
      "op = Inserting \<and> res \<noteq> None \<longrightarrow> res = Some True \<and> published1 \<sigma> l"
    using ti pc by (simp_all add: thread_inv1_def)
  show ?thesis
  proof (cases "tracked l = []")
    case True
    show ?thesis
    proof (cases res)
      case None
      have "thread_inv1 M \<sigma> v (start_find M \<sigma> op l)"
        using k True None by (intro start_find_ok [OF inv]) auto
      then show ?thesis using True None by (simp add: unlockAll_def step_ok1_local [OF inv])
    next
      case (Some b)
      let ?l = "l\<lparr>pc1 := (if op = Inserting then TryReturned1 b else RelReturned1 b)\<rparr>"
      have "thread_inv1 M \<sigma> v ?l" using k True Some by (auto simp: thread_inv1_def)
      moreover have "claimed1 ?l \<subseteq> claimed1 l \<union> {brk1 \<sigma>}"
        using pc Some k(6) by (auto simp: claimed1_def)
      ultimately have "step_ok1 M \<sigma> v l (Some (\<sigma>, ?l))" by (intro step_ok1_local [OF inv]) simp_all
      then show ?thesis using True Some by (simp add: unlockAll_def)
    qed
  next
    case False
    let ?a = "last (tracked l)" and ?f = "\<lambda>n::'a node1. n\<lparr>mutex1 := False\<rparr>" and ?l = "l\<lparr>tracked := butlast (tracked l)\<rparr>"
    from False have a: "?a \<in> set (tracked l)" by simp
    with k(3) have la: "linked1 \<sigma> ?a" by (simp add: tracked_ok_def)
    from linked1_alloc [OF inv this] obtain \<sigma>' where s': "update1 \<sigma> (Some ?a) ?f = Some \<sigma>'" by (auto simp: update1_Some)
    have q: "same_node1 n (?f n) \<and> next1 (?f n) = next1 n \<and> marked1 (?f n) = marked1 n" for n by (simp add: same_node1_def)
    note F = quiet_frame [OF s' q]
    have ev: "evolves1 (set (tracked l)) X U \<sigma> \<sigma>'" for X U
      using a la by (intro quiet_evolves [OF s' _ q]) auto
    have at: "tracked l = butlast (tracked l) @ [?a]" using False by simp
    then have nin: "b \<in> set (butlast (tracked l)) \<Longrightarrow> b \<noteq> ?a \<and> b \<in> set (tracked l)" for b
      using k(3) unfolding tracked_ok_def by (metis distinct_butlast in_set_butlastD not_distinct_conv_prefix)
    have "tracked_ok \<sigma>' ?l"
      using k(3) F(11) nin by (auto simp: tracked_ok_def distinct_butlast locked1_def F(8))
    moreover have "published1 \<sigma> l \<Longrightarrow> published1 \<sigma>' ?l" using published1_stable [OF ev, of l] by (simp add: published1_def)
    moreover have "removing1 M \<sigma> v l \<Longrightarrow> removing1 M \<sigma>' v ?l" using removing1_stable [OF inv ev, of "{}" v l] by simp
    ultimately have "thread_inv1 M \<sigma>' v ?l" using k pc by (auto simp: thread_inv1_def split: if_splits)
    then have "step_ok1 M \<sigma> v l (Some (\<sigma>', ?l))"
      using ev quiet_heap_inv [OF inv s' q] in_set_butlastD
      by (intro step_ok1I [where v' = v]) auto
    then show ?thesis using False s' by (simp add: unlockAll_def)
  qed
qed

end
