(* ===== verification/V1_Linking.thy ===== *)
theory V1_Linking
  imports V1_Steps
begin

text \<open>
  The steps of the v1 lock that write links, and the theorem for every step of a thread.
\<close>

subsection \<open>Linking a node\<close>

lemma locking1_own:
  assumes "evolves1 T X U \<sigma> \<sigma>'" "locked1 \<sigma>' = locked1 \<sigma>" "locking1 M Inserting \<sigma> v l"
  shows "locking1 M Inserting \<sigma>' v l"
proof -
  from assms(3) have k: "arrays1 M 0 \<sigma> l" "tracked_ok \<sigma> l" "room1 \<sigma> l" "lv1 l \<le> top_lv l" "top_lv l \<le> M" "v = None"
    by (simp_all add: locking1_def)
  have "tracked_ok \<sigma>' l" using k(2) evolves1D(5) [OF assms(1)] assms(2) by (auto simp: tracked_ok_def)
  then show ?thesis
    using k arrays1_stable [OF assms(1) k(1)] room1_stable [OF assms(1) k(1,3)] by (simp add: locking1_def)
qed

lemma new_node_ok:
  assumes inv: "heap_inv1 M \<sigma>" and ti: "thread_inv1 M \<sigma> v l" and pc: "pc1 l = NewNode"
  shows "step_ok1 M \<sigma> v l (insert_step1 NewNode \<sigma> l)"
proof -
  have k: "legal_args1 l" "locking1 M Inserting \<sigma> v l" "secured1 Inserting \<sigma> l"
    using ti pc by (simp_all add: thread_inv1_def)
  from k(2) have tr: "tracked_ok \<sigma> l" and top: "top_lv l \<le> M" by (simp_all add: locking1_def)
  define \<sigma>' where "\<sigma>' = \<sigma>\<lparr>heap1 := (heap1 \<sigma>)(brk1 \<sigma> \<mapsto> createNode_V1 (s_arg l) (e_arg l) (top_lv l)), brk1 := brk1 \<sigma> + 1\<rparr>"
  have se: "s_arg l \<le> e_arg l" using k(1) by (simp add: legal_args1_def)
  note A = alloc_keeps [OF inv se top \<sigma>'_def]
  have ev: "evolves1 {} {} {} \<sigma> \<sigma>'" by (rule A(2))
  let ?l = "l\<lparr>new1 := Some (brk1 \<sigma>), lv1 := 0, pc1 := LinkNew\<rparr>"
  have "heap1 \<sigma>' (brk1 \<sigma>) = Some (createNode_V1 (s_arg l) (e_arg l) (top_lv l))" "tail1 \<sigma>' = tail1 \<sigma>"
    by (simp_all add: \<sigma>'_def)
  then have "private1 False \<sigma>' ?l"
    using A(3,4) by (simp add: private1_def rg1_def createNode_V1_def del: replicate_Suc)
  moreover have "locking1 M Inserting \<sigma>' v ?l"
    using locking1_stable [OF inv ev _ _ k(2)] by (simp add: locking1_def know1_defs)
  moreover have "secured1 Inserting \<sigma>' ?l"
    using secured1_stable [OF ev _ tr k(3)] by (simp add: know1_defs)
  ultimately have "thread_inv1 M \<sigma>' v ?l"
    using k(1) by (simp add: thread_inv1_def linking1_def linked_below_def legal_args1_def)
  moreover have "claimed1 ?l \<subseteq> claimed1 l \<union> {brk1 \<sigma>}" by (simp add: claimed1_def)
  ultimately have "step_ok1 M \<sigma> v l (Some (\<sigma>', ?l))"
    using A(2) by (intro step_ok1I [OF A(1), where v' = v]) auto
  then show ?thesis by (simp add: \<sigma>'_def)
qed

text \<open>The node can be written at the level.\<close>

lemma tall1_write:
  assumes "heap1 \<sigma> a = Some n" "k < length (next1 n)"
  obtains \<sigma>' where "write1 \<sigma> (Some a) k q = Some \<sigma>'"
  using assms by (auto simp: write1_Some)

lemma tall1_writable:
  assumes "tall1 \<sigma> a k" obtains \<sigma>' where "write1 \<sigma> (Some a) k q = Some \<sigma>'"
  using assms by (auto simp: tall1_iff write1_Some)

lemma linking_room:
  assumes "heap_inv1 M \<sigma>" "locking1 M Inserting \<sigma> v l" "new1 l = Some a" "heap1 \<sigma> a = Some n" "topLevel1 n = top_lv l"
  shows "lv1 l < length (next1 n)"
  using assms heap_inv1D(3) [OF assms(1,4)] by (simp add: wf_node1_def locking1_def)

lemma link_new_ok:
  assumes inv: "heap_inv1 M \<sigma>" and ti: "thread_inv1 M \<sigma> v l" and pc: "pc1 l = LinkNew"
  shows "step_ok1 M \<sigma> v l (insert_step1 LinkNew \<sigma> l)"
proof -
  have k: "legal_args1 l" "locking1 M Inserting \<sigma> v l"
      "if lv1 l = 0 then private1 False \<sigma> l \<and> secured1 Inserting \<sigma> l else published1 \<sigma> l"
      "linked_below (lv1 l) \<sigma> l"
    using ti pc by (simp_all add: thread_inv1_def linking1_def)
  from locking1_at [OF k(2)] obtain c where c: "succs1 l (lv1 l) = Some c" "good_ref1 \<sigma> (lv1 l) c"
    by (auto simp: succ_at_def)
  from k(3) obtain a n where a: "new1 l = Some a" "heap1 \<sigma> a = Some n" "topLevel1 n = top_lv l" "a \<noteq> tail1 \<sigma>"
      "rg1 \<sigma> a = args1 l"
    by (auto simp: private1_def published1_def split: if_splits)
  from tall1_write [OF a(2) linking_room [OF inv k(2) a(1-3)], of "Some c"]
  obtain \<sigma>' where w: "write1 \<sigma> (Some a) (lv1 l) (Some c) = Some \<sigma>'" by blast
  note F = write1_frame [OF w] and T = write1_tall [OF w]
  let ?l = "l\<lparr>pc1 := LinkPred\<rparr>"
  have below: "linked_below (Suc (lv1 l)) \<sigma>' l"
    using k(4) a(1) T by (auto simp: linked_below_def less_Suc_eq)
  have fin: "step_ok1 M \<sigma> v l (Some (\<sigma>', ?l))"
    if K: "heap_inv1 M \<sigma>'" "evolves1 (set (tracked l)) (owned1 l) (set_option v) \<sigma> \<sigma>'"
      and P: "if lv1 l = 0 then private1 True \<sigma>' l \<and> secured1 Inserting \<sigma>' l else published1 \<sigma>' l"
  proof -
    have "linking1 M True \<sigma>' v ?l"
      using locking1_own [OF K(2) F(7) k(2)] below P by (simp add: linking1_def)
    moreover have "claimed1 ?l \<subseteq> claimed1 l \<union> {brk1 \<sigma>}" using pc by (auto simp: claimed1_def)
    ultimately show ?thesis
      using k(1) K by (intro step_ok1I [OF K(1), where v' = v]) (auto simp: thread_inv1_def)
  qed
  have "step_ok1 M \<sigma> v l (Some (\<sigma>', ?l))"
  proof (cases "lv1 l = 0")
    case True
    with k(3) a(1) have p: "private1 False \<sigma> l" "\<not> linked1 \<sigma> a" and s: "secured1 Inserting \<sigma> l"
      by (auto simp: private1_def)
    have own: "a \<in> owned1 l" using pc True a(1) by (simp add: owned1_def)
    have "half_open_before (rg1 \<sigma> a) (rg1 \<sigma> c)"
      using k(2) a(5) c(1) True by (auto simp: locking1_def room1_def half_open_before_def)
    note K = write_private [OF inv w [unfolded True] p(2) a(4) own c(2) [unfolded True] this]
    have "private1 True \<sigma>' l"
      using p a F(11) [OF a(2)] K(3) c(1) T True F(4) [of a 0]
      by (auto simp: private1_def F(2,6) same_node1_def)
    moreover have "secured1 Inserting \<sigma>' l"
    proof -
      from s k(2) obtain q where q: "preds1 l 0 = Some q" "q \<in> set (tracked l)" "\<not> mk1 \<sigma> q" "nx1 \<sigma> q = want1 Inserting l"
        "linked1 \<sigma> q" by (auto simp: secured1_def locking1_def tracked_ok_def)
      with p(2) have "q \<noteq> a" by auto
      with q show ?thesis by (simp add: secured1_def F(5,8))
    qed
    ultimately show ?thesis using K(1,2) True by (intro fin) simp_all
  next
    case False
    with k(3) a(1) have p: "published1 \<sigma> l" "linked1 \<sigma> a" by (auto simp: published1_def)
    have "tall1 \<sigma> a j" if "j < lv1 l" for j using k(4) a(1) that by (simp add: linked_below_def)
    note K = write_upper [OF inv w False p(2) a(4) this c(2)]
    show ?thesis using K(1) K(2) False published1_stable [OF K(2) p(1)] by (intro fin) simp_all
  qed
  then show ?thesis using a(1) c(1) w by simp
qed

lemma link_pred_next:
  assumes "legal_args1 l" "locking1 M Inserting \<sigma> v l" "published1 \<sigma> l" "linked_below (Suc (lv1 l)) \<sigma> l"
  shows "thread_inv1 M \<sigma> v (if lv1 l + 1 \<le> top_lv l then l\<lparr>lv1 := lv1 l + 1, pc1 := LinkNew\<rparr> else l\<lparr>pc1 := FullyLinked\<rparr>)"
  using assms by (auto simp: thread_inv1_def linking1_def locking1_def)

lemma link_pred_ok:
  assumes inv: "heap_inv1 M \<sigma>" and ti: "thread_inv1 M \<sigma> v l" and pc: "pc1 l = LinkPred"
  shows "step_ok1 M \<sigma> v l (insert_step1 LinkPred \<sigma> l)"
proof -
  have k: "legal_args1 l" "locking1 M Inserting \<sigma> v l"
      "if lv1 l = 0 then private1 True \<sigma> l \<and> secured1 Inserting \<sigma> l else published1 \<sigma> l"
      "linked_below (Suc (lv1 l)) \<sigma> l"
    using ti pc by (simp_all add: thread_inv1_def linking1_def)
  from k(4) obtain a where a: "new1 l = Some a" "tall1 \<sigma> a (lv1 l)" by (auto simp: linked_below_def)
  from locking1_at [OF k(2)] obtain p where p: "preds1 l (lv1 l) = Some p" "pred_at \<sigma> (lv1 l) (s_arg l) p" by blast
  then have q: "linked1 \<sigma> p" "p \<noteq> tail1 \<sigma>" "tall1 \<sigma> p (lv1 l)" by (simp_all add: pred_at_def)
  from tall1_writable [OF q(3), of "Some a"]
  obtain \<sigma>' where w: "write1 \<sigma> (Some p) (lv1 l) (Some a) = Some \<sigma>'" by blast
  note F = write1_frame [OF w] and T = write1_tall [OF w]
  let ?l = "if lv1 l + 1 \<le> top_lv l then l\<lparr>lv1 := lv1 l + 1, pc1 := LinkNew\<rparr> else l\<lparr>pc1 := FullyLinked\<rparr>"
  have fin: "step_ok1 M \<sigma> v l (Some (\<sigma>', ?l))"
    if K: "heap_inv1 M \<sigma>'" "evolves1 (set (tracked l)) (owned1 l) (set_option v) \<sigma> \<sigma>'" and P: "published1 \<sigma>' l"
  proof -
    note t = link_pred_next [OF k(1) locking1_own [OF K(2) F(7) k(2)] P linked_below_stable [OF K(2) k(4)]]
    have "claimed1 ?l \<subseteq> claimed1 l \<union> {brk1 \<sigma>}" using pc by (auto simp: claimed1_def)
    then show ?thesis using K by (intro step_ok1I [OF K(1) t]) auto
  qed
  have "step_ok1 M \<sigma> v l (Some (\<sigma>', ?l))"
  proof (cases "lv1 l = 0")
    case True
    with k(3) have pr: "private1 True \<sigma> l" and s: "secured1 Inserting \<sigma> l" by auto
    from pr a(1) obtain n where n: "\<not> linked1 \<sigma> a" "a \<noteq> tail1 \<sigma>" "rg1 \<sigma> a = args1 l" "heap1 \<sigma> a = Some n"
      "topLevel1 n = top_lv l" "read1 \<sigma> (Some a) 0 = Some (succs1 l 0)" by (auto simp: private1_def)
    from s p(1) True have sp: "p \<in> set (tracked l)" "\<not> mk1 \<sigma> p" "nx1 \<sigma> p = succs1 l 0"
      by (auto simp: secured1_def want1_def)
    have nx: "nx1 \<sigma> a = nx1 \<sigma> p" using n(6) sp(3) by (simp add: nx1_def)
    have own: "a \<in> owned1 l" using pc True a(1) by (simp add: owned1_def)
    have "half_open_before (rg1 \<sigma> p) (rg1 \<sigma> a)" if "p \<noteq> head1 \<sigma>"
      using p(2) that n(3) by (simp add: pred_at_def half_open_before_def)
    note K = write_insert [OF inv w [unfolded True] q(1) sp(2) q(2) sp(1) n(1) own nx a(2) [unfolded True] this]
    have "a \<noteq> head1 \<sigma>" using n(1) by auto
    then have "published1 \<sigma>' l"
      using n a(1) F(11) [OF n(4)] K(3) by (auto simp: published1_def F(1,2,6) same_node1_def)
    then show ?thesis using K(1,2) by (intro fin)
  next
    case False
    with k(3) a(1) have pb: "published1 \<sigma> l" "linked1 \<sigma> a" "a \<noteq> head1 \<sigma>" by (auto simp: published1_def)
    have "tall1 \<sigma> p j" if "j < lv1 l" for j using tall1_mono [OF inv q(3)] that by simp
    moreover have "good_ref1 \<sigma> (lv1 l) a" using pb a(2) by (simp add: good_ref1_def)
    ultimately have K: "heap_inv1 M \<sigma>'" "evolves1 U V W \<sigma> \<sigma>'" for U V W
      using write_upper [OF inv w False q(1,2)] by blast+
    show ?thesis using K published1_stable [OF K(2) pb(1)] by (intro fin)
  qed
  then show ?thesis using a(1) p(1) w by simp
qed

lemma fully_linked_ok:
  assumes inv: "heap_inv1 M \<sigma>" and ti: "thread_inv1 M \<sigma> v l" and pc: "pc1 l = FullyLinked"
  shows "step_ok1 M \<sigma> v l (insert_step1 FullyLinked \<sigma> l)"
proof -
  have k: "legal_args1 l" "tracked_ok \<sigma> l" "v = None" "published1 \<sigma> l"
    using ti pc by (simp_all add: thread_inv1_def)
  from k(4) obtain a n where a: "new1 l = Some a" "linked1 \<sigma> a" "heap1 \<sigma> a = Some n" by (auto simp: published1_def)
  let ?f = "\<lambda>n::'a node1. n\<lparr>fullyLinked1 := True\<rparr>"
  obtain \<sigma>' where s': "update1 \<sigma> (Some a) ?f = Some \<sigma>'" using a(3) by (auto simp: update1_Some)
  have q: "same_node1 n (?f n) \<and> next1 (?f n) = next1 n \<and> marked1 (?f n) = marked1 n" for n by (simp add: same_node1_def)
  have ev: "evolves1 T X U \<sigma> \<sigma>'" for T X U
    using a(2) by (intro quiet_evolves [OF s' _ q]) auto
  have "thread_inv1 M \<sigma>' v (l\<lparr>pc1 := CountUp\<rparr>)"
    using k tracked_ok_stable [OF ev [of "{}"] _ k(2)] published1_stable [OF ev k(4)] by (simp add: thread_inv1_def)
  then have "step_ok1 M \<sigma> v l (Some (\<sigma>', l\<lparr>pc1 := CountUp\<rparr>))"
    using ev quiet_heap_inv [OF inv s' q] pc by (intro step_ok1I [where v' = v]) (auto simp: claimed1_def)
  then show ?thesis using a(1) s' by simp
qed


lemma count_ok:
  assumes inv: "heap_inv1 M \<sigma>" and pc: "pc1 l = CountUp \<and> x = Unlock Inserting (Some True) \<or> pc1 l = CountDown \<and> x = Unlock Removing (Some True)"
    and ti: "thread_inv1 M \<sigma> v l"
  shows "step_ok1 M \<sigma> v l (Some (\<sigma>\<lparr>elementsCount1 := c\<rparr>, l\<lparr>pc1 := x\<rparr>))"
proof -
  let ?s = "\<sigma>\<lparr>elementsCount1 := c\<rparr>"
  have ev: "evolves1 {} {} {} \<sigma> ?s" by simp
  have k: "legal_args1 l" "tracked_ok \<sigma> l" "v = None" "pc1 l = CountUp \<longrightarrow> published1 \<sigma> l"
    using ti pc by (auto simp: thread_inv1_def)
  then have "tracked_ok ?s l" "pc1 l = CountUp \<longrightarrow> published1 ?s l"
    using tracked_ok_stable [OF ev _ k(2)] published1_stable [OF ev] by simp_all
  moreover from k(4) have "top_lv l \<le> M" if "pc1 l = CountUp"
  proof -
    from k(4) that obtain a n where "heap1 \<sigma> a = Some n" "topLevel1 n = top_lv l" by (auto simp: published1_def)
    with heap_inv1D(3) [OF inv this(1)] show ?thesis by (simp add: wf_node1_def)
  qed
  ultimately have "thread_inv1 M ?s v (l\<lparr>pc1 := x\<rparr>)" using k pc by (auto simp: thread_inv1_def)
  moreover have "claimed1 (l\<lparr>pc1 := x\<rparr>) \<subseteq> claimed1 l \<union> {brk1 \<sigma>}" using pc by (auto simp: claimed1_def)
  ultimately show ?thesis using inv by (intro step_ok1I [where v' = v]) auto
qed

subsection \<open>Unlinking\<close>

lemma unlink_read_ok:
  assumes inv: "heap_inv1 M \<sigma>" and ti: "thread_inv1 M \<sigma> v l" and pc: "pc1 l = UnlinkRead"
  shows "step_ok1 M \<sigma> v l (remove_step1 UnlinkRead \<sigma> l)"
proof -
  have k: "legal_args1 l" "locking1 M Removing \<sigma> v l" "secured1 Removing \<sigma> l"
    using ti pc by (simp_all add: thread_inv1_def)
  from secured_victim [OF inv k(2,3)] obtain c where c: "victim1 l = Some c" "own1 M \<sigma> c l" by blast
  have "lv1 l \<le> top_lv l" using k(2) by (simp add: locking1_def)
  with c(2) have "tall1 \<sigma> c (lv1 l)" "c \<noteq> tail1 \<sigma>" using tall1_mono [OF inv] by (auto simp: own1_def)
  from tall1_read [OF inv this] obtain q where q: "read1 \<sigma> (Some c) (lv1 l) = Some (Some q)" "good_ref1 \<sigma> (lv1 l) q"
    by blast
  then have "lv1 l = 0 \<longrightarrow> nx1 \<sigma> c = Some q" by (auto simp: nx1_iff)
  then have "thread_inv1 M \<sigma> v (l\<lparr>next_val := Some q, pc1 := UnlinkWrite\<rparr>)"
    using k q c by (simp add: thread_inv1_def)
  then show ?thesis using c q(1) step_ok1_local [OF inv, of v] by (simp add: claimed1_def)
qed

lemma unlink_write_ok:
  assumes inv: "heap_inv1 M \<sigma>" and ti: "thread_inv1 M \<sigma> v l" and pc: "pc1 l = UnlinkWrite"
  shows "step_ok1 M \<sigma> v l (remove_step1 UnlinkWrite \<sigma> l)"
proof -
  have k: "legal_args1 l" "locking1 M Removing \<sigma> v l" "secured1 Removing \<sigma> l"
      "lv1 l = 0 \<longrightarrow> (\<exists>c. victim1 l = Some c \<and> nx1 \<sigma> c = next_val l)"
    using ti pc by (simp_all add: thread_inv1_def)
  obtain q where q: "next_val l = Some q" "good_ref1 \<sigma> (lv1 l) q"
    using ti pc by (auto simp: thread_inv1_def)
  from locking1_at [OF k(2)] obtain p where p: "preds1 l (lv1 l) = Some p" "linked1 \<sigma> p" "p \<noteq> tail1 \<sigma>" "tall1 \<sigma> p (lv1 l)"
    by (auto simp: pred_at_def)
  from k(2) have lk: "tracked_ok \<sigma> l" "isMarked1 l" "removing1 M \<sigma> v l" "target1 \<sigma> l" "arrays1 M 0 \<sigma> l"
      "lv1 l \<le> top_lv l" "top_lv l \<le> M" by (simp_all add: locking1_def)
  from tall1_writable [OF p(4), of "Some q"]
  obtain \<sigma>' where w: "write1 \<sigma> (Some p) (lv1 l) (Some q) = Some \<sigma>'" by blast
  note F = write1_frame [OF w]
  have "step_ok1 M \<sigma> v l (Some (\<sigma>', if lv1 l = 0 then l\<lparr>pc1 := CountDown\<rparr> else l\<lparr>lv1 := lv1 l - 1, pc1 := UnlinkRead\<rparr>))"
  proof (cases "lv1 l = 0")
    case True
    from secured_victim [OF inv k(2,3)] obtain c p' where c: "v = Some c" "victim1 l = Some c" "mk1 \<sigma> c"
      "preds1 l 0 = Some p'" "p' \<in> set (tracked l)" "\<not> mk1 \<sigma> p'" "nx1 \<sigma> p' = Some c" by blast
    with p(1) True have pp: "p' = p" by simp
    have "nx1 \<sigma> c = Some q" using k(4) c(2) q(1) True by simp
    moreover have "c \<in> set_option v" using c(1) by simp
    ultimately have K: "heap_inv1 M \<sigma>'" "evolves1 (set (tracked l)) X (set_option v) \<sigma> \<sigma>'" "linked1 \<sigma>' = linked1 \<sigma>" for X
      by (rule write_cut [OF inv w [unfolded True] p(2) c(6) [unfolded pp] p(3) c(5) [unfolded pp] c(7) [unfolded pp] c(3)])+
    have ev: "evolves1 (set (tracked l)) (owned1 l) (set_option v) \<sigma> \<sigma>'" by (rule K(2))
    have "tracked_ok \<sigma>' l" using lk(1) by (simp add: tracked_ok_def K(3) F(7))
    then have "thread_inv1 M \<sigma>' None (l\<lparr>pc1 := CountDown\<rparr>)" using k(1) by (simp add: thread_inv1_def)
    moreover have "claimed1 (l\<lparr>pc1 := CountDown\<rparr>) = {}" by (simp add: claimed1_def)
    ultimately have "step_ok1 M \<sigma> v l (Some (\<sigma>', l\<lparr>pc1 := CountDown\<rparr>))"
      using K(1) ev by (intro step_ok1I [where v' = None]) auto
    then show ?thesis using True by simp
  next
    case False
    have "tall1 \<sigma> p j" if "j < lv1 l" for j using tall1_mono [OF inv p(4)] that by simp
    note K = write_upper [OF inv w False p(2,3) this q(2)]
    have ev: "evolves1 {} {} {} \<sigma> \<sigma>'" "evolves1 (set (tracked l)) (owned1 l) (set_option v) \<sigma> \<sigma>'" using K(2) by blast+
    have "tracked_ok \<sigma>' l" using lk(1) by (simp add: tracked_ok_def K(3) F(7))
    moreover have "removing1 M \<sigma>' v l" by (rule removing1_stable [OF inv ev(1) _ lk(3)]) simp
    moreover have "secured1 Removing \<sigma>' l" using k(3) False by (simp add: secured1_def F(5,8))
    ultimately have "thread_inv1 M \<sigma>' v (l\<lparr>lv1 := lv1 l - 1, pc1 := UnlinkRead\<rparr>)"
      using k(1) lk target1_stable [OF inv ev(1) lk(4)] arrays1_stable [OF ev(1) lk(5)]
      by (simp add: thread_inv1_def locking1_def)
    moreover have "claimed1 (l\<lparr>lv1 := lv1 l - 1, pc1 := UnlinkRead\<rparr>) = {}" by (simp add: claimed1_def)
    ultimately have "step_ok1 M \<sigma> v l (Some (\<sigma>', l\<lparr>lv1 := lv1 l - 1, pc1 := UnlinkRead\<rparr>))"
      using K(1) ev(2) by (intro step_ok1I [where v' = v]) auto
    then show ?thesis using False by simp
  qed
  then show ?thesis using p(1) q(1) w by simp
qed

subsection \<open>Every step\<close>

lemma idle_step1_ok: "heap_inv1 M \<sigma> \<Longrightarrow> thread_inv1 M \<sigma> v l \<Longrightarrow> step_ok1 M \<sigma> v l (Some (\<sigma>, l))"
  by (intro step_ok1_local) auto

lemmas place_step1_ok = find_level_ok find_while_ok insert_found_ok remove_found_ok search_found_ok
  search_marked_ok lock_pred_ok val_pred_ok val_succ_ok val_next_ok unlock_ok new_node_ok link_new_ok link_pred_ok
  fully_linked_ok lock_victim_ok check_victim_ok mark_victim_ok unlink_read_ok unlink_write_ok

theorem code_step1_ok:
  assumes inv: "heap_inv1 M \<sigma>" and ti: "thread_inv1 M \<sigma> v l"
  shows "step_ok1 M \<sigma> v l (code_step1 M \<sigma> l)"
proof (cases "pc1 l")
  case (FindDone op)
  then show ?thesis
    using place_step1_ok(3-5) [OF inv ti] by (cases op) (simp_all add: code_step1_def)
next
  case Crashed1
  with ti show ?thesis by (simp add: thread_inv1_def)
next
  case CountUp
  then show ?thesis using count_ok [OF inv _ ti] by (simp add: code_step1_def)
next
  case CountDown
  then show ?thesis using count_ok [OF inv _ ti] by (simp add: code_step1_def)
qed (simp_all only: code_step1_def pc1.simps place_step1_ok [OF inv ti] idle_step1_ok [OF inv ti])

end
