(* ===== verification/V1_System.thy ===== *)
theory V1_System
  imports V1_Linking RL_Abstract_Lock
begin

text \<open>
  The v1 lock with all its threads: the invariant of every reachable state, and the steps as
  actions of the abstract lock.
\<close>

subsection \<open>Reachable states\<close>

inductive reachable1 :: "nat \<Rightarrow> ('t::{linorder,order_bot,order_top}) system1 \<Rightarrow> bool"
  for M :: nat where
  start: "reachable1 M (init_system1 M)"
| event: "reachable1 M S \<Longrightarrow> legal_event1 ev \<Longrightarrow> reachable1 M (do_event1 M ev S)"

lemma reachable1_run:
  "list_all legal_event1 evs \<Longrightarrow> reachable1 M S \<Longrightarrow> reachable1 M (run_events1 M evs S)"
  by (induction evs arbitrary: S) (auto simp: run_events1_def intro: reachable1.event)

text \<open>Two threads do not share a locked node, a node being inserted or a node they have marked.\<close>

definition apart1 :: "(nat \<Rightarrow> addr1 option) \<Rightarrow> (nat \<Rightarrow> 't locals1) \<Rightarrow> nat \<Rightarrow> nat \<Rightarrow> bool" where
  "apart1 ow T t u \<longleftrightarrow> set (tracked (T t)) \<inter> set (tracked (T u)) = {} \<and>
     claimed1 (T t) \<inter> claimed1 (T u) = {} \<and> set_option (ow t) \<inter> set_option (ow u) = {}"

definition system_inv1 :: "nat \<Rightarrow> ('t::{linorder,order_bot,order_top}) system1 \<Rightarrow> bool" where
  "system_inv1 M S \<longleftrightarrow> heap_inv1 M (lock1_of S) \<and>
     (\<exists>ow. (\<forall>t. thread_inv1 M (lock1_of S) (ow t) (threads1 S t)) \<and> (\<forall>t u. t \<noteq> u \<longrightarrow> apart1 ow (threads1 S) t u))"

lemma generateRandomLevel_from_bound:
  "lv \<le> maxLevel \<Longrightarrow> generateRandomLevel_from maxLevel rnd lv \<le> maxLevel"
proof (induction maxLevel rnd lv rule: generateRandomLevel_from.induct)
  case (1 maxLevel rnd lv)
  then show ?case by (subst generateRandomLevel_from.simps) auto
qed

lemma generateRandomLevel_bound: "0 < maxLevel \<Longrightarrow> generateRandomLevel maxLevel rnd \<le> maxLevel"
  unfolding generateRandomLevel_def by (rule generateRandomLevel_from_bound) simp

lemma init_heap_inv1: "heap_inv1 M (ConcurrentRangeLock_V1 M)"
proof -
  let ?s = "ConcurrentRangeLock_V1 M :: 'a lock1"
  have hd: "head1 ?s = 0" "tail1 ?s = 1" "brk1 ?s = 2" by (simp_all add: ConcurrentRangeLock_V1_def)
  have hp: "heap1 ?s = [0 \<mapsto> (createNode_V1 bot bot M)\<lparr>next1 := map (\<lambda>_. Some 1) [0 ..< M + 1]\<rparr>, 1 \<mapsto> createNode_V1 top top M]"
    by (simp add: ConcurrentRangeLock_V1_def Let_def)
  have rd: "read1 ?s (Some a) k = (if a = 0 \<and> k \<le> M then Some (Some 1) else if a = 1 \<and> k \<le> M then Some None else None)" for a k
    by (simp add: read1_def hp createNode_V1_def nth_append del: upt_Suc replicate_Suc)
  have "nx1 ?s 0 = Some 1" by (simp add: nx1_iff rd)
  then have "on_chain1 ?s 1" unfolding on_chain1_def hd by (auto intro: reach_step)
  then have g: "good_ref1 ?s k 1" if "k \<le> M" for k
    using that by (simp add: good_ref1_def linked1_iff hd tall1_def rd)
  have "sentinels1 M ?s"
    by (auto simp: sentinels1_def hd tall1_def rd rg1_def hp createNode_V1_def)
  moreover have "wf_node1 M n" if "heap1 ?s a = Some n" for a n
    using that by (auto simp: hp wf_node1_def createNode_V1_def split: if_splits)
  moreover have "heap1 ?s a \<noteq> None \<longleftrightarrow> a < brk1 ?s" for a by (auto simp: hp hd)
  moreover have "good_ref1 ?s k p \<and> (k = 0 \<and> a \<noteq> head1 ?s \<longrightarrow> half_open_before (rg1 ?s a) (rg1 ?s p))"
    if "read1 ?s (Some a) k = Some (Some p)" for a k p
    using that g by (auto simp: rd hd split: if_splits)
  moreover have "tall1 ?s a k" if "tall1 ?s a (Suc k)" for a k
    using that by (auto simp: tall1_def rd hd split: if_splits)
  ultimately show ?thesis unfolding heap_inv1_def by blast
qed

lemma init_system_inv1: "system_inv1 M (init_system1 M)"
  unfolding system_inv1_def
  by (auto simp: init_system1_def init_heap_inv1 thread_inv1_def fresh_locals1_def apart1_def claimed1_def
      intro!: exI [of _ "\<lambda>_. None"])

lemma thread_owner_marked:
  assumes "thread_inv1 M \<sigma> (Some c) l"
  shows "mk1 \<sigma> c"
proof (cases "pc1 l")
  case (Unlock op res)
  with assms show ?thesis by (auto simp: thread_inv1_def removing1_def own1_def split: if_splits)
next
  case (TryReturned1 b)
  with assms show ?thesis by (auto simp: thread_inv1_def split: if_splits)
qed (use assms in \<open>auto simp: thread_inv1_def removing1_def own1_def locking1_def linking1_def split: if_splits\<close>)

lemma thread_tracked_locked:
  assumes "thread_inv1 M \<sigma> v l" "a \<in> set (tracked l)"
  shows "locked1 \<sigma> a"
  using assms by (cases "pc1 l") (auto simp: thread_inv1_def tracked_ok_def locking1_def linking1_def)

lemma claimed1_alloc:
  assumes "heap_inv1 M \<sigma>" "thread_inv1 M \<sigma> v l" "a \<in> claimed1 l"
  shows "a < brk1 \<sigma>"
proof -
  have "heap1 \<sigma> a \<noteq> None"
    using assms(2,3)
    by (cases "pc1 l") (auto simp: thread_inv1_def claimed1_def linking1_def private1_def published1_def split: if_splits)
  then show ?thesis using heap_inv1D(1) [OF assms(1)] by blast
qed

lemma owned1_claimed: "owned1 l \<subseteq> claimed1 l"
  by (auto simp: owned1_def claimed1_def)

lemma step1_keeps:
  assumes inv: "system_inv1 M S"
  shows "system_inv1 M (do_event1 M (Step1 t) S)"
proof -
  let ?\<sigma> = "lock1_of S" and ?l = "threads1 S t"
  from inv obtain ow where h: "heap_inv1 M ?\<sigma>" and ti: "\<And>u. thread_inv1 M ?\<sigma> (ow u) (threads1 S u)"
    and dj: "\<And>u w. u \<noteq> w \<Longrightarrow> apart1 ow (threads1 S) u w" by (auto simp: system_inv1_def)
  from code_step1_ok [OF h ti, of t] obtain \<sigma>' l' v' where s: "step1 M ?\<sigma> ?l = (\<sigma>', l')"
    and h': "heap_inv1 M \<sigma>'" and ti': "thread_inv1 M \<sigma>' v' l'"
    and ev: "evolves1 (set (tracked ?l)) (owned1 ?l) (set_option (ow t)) ?\<sigma> \<sigma>'"
    and tr: "\<forall>a\<in>set (tracked l'). a \<in> set (tracked ?l) \<or> \<not> locked1 ?\<sigma> a"
    and cl: "claimed1 l' \<subseteq> claimed1 ?l \<union> {brk1 ?\<sigma>}"
    and v': "v' = ow t \<or> v' = None \<or> (\<exists>c. v' = Some c \<and> \<not> mk1 ?\<sigma> c)"
    by (auto simp: step_ok1_def step1_def)
  let ?T = "(threads1 S)(t := l')" and ?ow = "ow(t := v')"
  have others: "thread_inv1 M \<sigma>' (ow u) (threads1 S u)" if "u \<noteq> t" for u
    using thread_inv1_stable [OF h ev _ _ _ ti] dj [of t u] that owned1_claimed [of ?l] by (auto simp: apart1_def)
  have new: "apart1 ?ow ?T t u" if "u \<noteq> t" for u
  proof -
    note d = dj [of t u, unfolded apart1_def]
    have "set (tracked l') \<inter> set (tracked (threads1 S u)) = {}"
      using tr d that thread_tracked_locked [OF ti [of u]] by blast
    moreover have "claimed1 l' \<inter> claimed1 (threads1 S u) = {}"
      using cl d that claimed1_alloc [OF h ti, of _ u] by fastforce
    moreover have "set_option v' \<inter> set_option (ow u) = {}"
      using v' d that thread_owner_marked [of M ?\<sigma> _ "threads1 S u"] ti [of u] by (cases "ow u") auto
    ultimately show ?thesis using that by (simp add: apart1_def)
  qed
  have "apart1 ?ow ?T u w" if "u \<noteq> w" for u w
  proof (cases "u = t \<or> w = t")
    case True
    with new that show ?thesis by (auto simp: apart1_def)
  next
    case False
    with dj [OF that] show ?thesis by (simp add: apart1_def)
  qed
  with h' ti' others show ?thesis
    unfolding system_inv1_def by (auto simp: s set_thread_def intro!: exI [of _ ?ow])
qed

lemma rest_thread_inv:
  assumes "thread_inv1 M \<sigma> v l" "at_rest1 l" shows "v = None" "tracked l = []"
  using assms by (auto simp: thread_inv1_def at_rest1_def split: pc1.splits)

lemma call_keeps1:
  assumes inv: "system_inv1 M S" and rest: "at_rest1 (threads1 S t)"
    and l': "\<And>v. v = None \<Longrightarrow> tracked (threads1 S t) = [] \<Longrightarrow> heap_inv1 M (lock1_of S) \<Longrightarrow> thread_inv1 M (lock1_of S) v l'"
    and cl: "tracked l' = tracked (threads1 S t)" "claimed1 l' = {}"
  shows "system_inv1 M (set_thread t l' S)"
proof -
  from inv obtain ow where h: "heap_inv1 M (lock1_of S)" and ti: "\<And>u. thread_inv1 M (lock1_of S) (ow u) (threads1 S u)"
    and dj: "\<And>u w. u \<noteq> w \<Longrightarrow> apart1 ow (threads1 S) u w" by (auto simp: system_inv1_def)
  from rest_thread_inv [OF ti rest] l' h have "thread_inv1 M (lock1_of S) (ow t) l'" by blast
  moreover have "apart1 ow ((threads1 S)(t := l')) u w" if "u \<noteq> w" for u w
    using dj [OF that] cl by (auto simp: apart1_def)
  ultimately show ?thesis using h ti unfolding system_inv1_def by (auto simp: set_thread_def intro!: exI [of _ ow])
qed

lemma event_keeps1:
  assumes "0 < M" "system_inv1 M S" "legal_event1 ev"
  shows "system_inv1 M (do_event1 M ev S)"
proof (cases ev)
  case (CallTry1 t s e rnd)
  have "thread_inv1 M (lock1_of S) v (call_tryLock1 M s e rnd (lock1_of S) (threads1 S t))"
    if "v = None" "tracked (threads1 S t) = []" "heap_inv1 M (lock1_of S)" for v
    unfolding call_tryLock1_def using that assms(3) CallTry1 generateRandomLevel_bound [OF assms(1)]
    by (intro start_find_ok) (simp_all add: legal_args1_def)
  with call_keeps1 [OF assms(2)] show ?thesis using CallTry1 assms(2) by (simp add: call_tryLock1_def)
next
  case (CallRelease1 t s e)
  have "thread_inv1 M (lock1_of S) v (call_releaseLock1 M s e (lock1_of S) (threads1 S t))"
    if "v = None" "tracked (threads1 S t) = []" "heap_inv1 M (lock1_of S)" for v
    unfolding call_releaseLock1_def using that assms(3) CallRelease1
    by (intro start_find_ok) (simp_all add: legal_args1_def removing1_def)
  with call_keeps1 [OF assms(2)] show ?thesis using CallRelease1 assms(2) by (simp add: call_releaseLock1_def)
next
  case (CallSearch1 t s e)
  have "thread_inv1 M (lock1_of S) v (call_searchLock1 M s e (lock1_of S) (threads1 S t))"
    if "v = None" "tracked (threads1 S t) = []" "heap_inv1 M (lock1_of S)" for v
    unfolding call_searchLock1_def using that assms(3) CallSearch1
    by (intro start_find_ok) (simp_all add: legal_args1_def)
  with call_keeps1 [OF assms(2)] show ?thesis using CallSearch1 assms(2) by (simp add: call_searchLock1_def)
next
  case (Step1 t)
  then show ?thesis using step1_keeps [OF assms(2)] by simp
qed

lemma reachable_system_inv1: "reachable1 M S \<Longrightarrow> 0 < M \<Longrightarrow> system_inv1 M S"
  by (induction rule: reachable1.induct) (auto intro: init_system_inv1 event_keeps1)

end
