(* ===== verification/V1_Refinement.thy ===== *)
theory V1_Refinement
  imports V1_System
begin

text \<open>
  What the v1 lock promises: the abstract lock on half-open ranges, for every number of threads and
  every interleaving, and where it falls short of it, with ranges of a single point.
\<close>

subsection \<open>Held ranges\<close>

definition held1 :: "'t lock1 \<Rightarrow> addr1 set" where
  "held1 \<sigma> = {a. linked1 \<sigma> a \<and> \<not> mk1 \<sigma> a \<and> a \<noteq> head1 \<sigma> \<and> a \<noteq> tail1 \<sigma>}"

definition held_ranges1 :: "'t lock1 \<Rightarrow> 't range set" where
  "held_ranges1 \<sigma> = rg1 \<sigma> ` held1 \<sigma>"

lemma held1_on_chain: "a \<in> held1 \<sigma> \<Longrightarrow> on_chain1 \<sigma> a \<and> a \<noteq> head1 \<sigma>"
  by (auto simp: held1_def linked1_iff)

lemma held1_disjoint:
  assumes "heap_inv1 M \<sigma>" "a \<in> held1 \<sigma>" "b \<in> held1 \<sigma>" "a \<noteq> b"
  shows "\<not> half_open_overlaps (rg1 \<sigma> a) (rg1 \<sigma> b)"
  using touching.chain_disjoint [OF chain_ordered1 [OF assms(1)]] assms(2-4) held1_on_chain
  by (auto simp: on_chain1_def)

lemma held1_rg_stable:
  "heap_inv1 M \<sigma> \<Longrightarrow> evolves1 T X U \<sigma> \<sigma>' \<Longrightarrow> a \<in> held1 \<sigma> \<Longrightarrow> rg1 \<sigma>' a = rg1 \<sigma> a"
  using rg1_linked by (auto simp: held1_def)

subsection \<open>What a step does to links and marks\<close>

lemma update1_mk:
  assumes "update1 \<sigma> p f = Some \<sigma>'" "\<And>n. marked1 (f n) = marked1 n"
  shows "mk1 \<sigma>' = mk1 \<sigma>"
  using assms by (auto simp: update1_def bind_eq_Some_conv mk1_def fun_eq_iff split: if_splits)

lemma write1_mk:
  assumes "write1 \<sigma> p k q = Some \<sigma>'" shows "mk1 \<sigma>' = mk1 \<sigma>"
  using assms by (auto simp: write1_def bind_eq_Some_conv intro: update1_mk split: if_splits)

lemma count_mk [simp]: "mk1 (\<sigma>\<lparr>elementsCount1 := c\<rparr>) = mk1 \<sigma>"
  by (simp add: mk1_def fun_eq_iff)

lemma alloc_mk:
  assumes "heap_inv1 M \<sigma>"
  shows "mk1 (\<sigma>\<lparr>heap1 := (heap1 \<sigma>)(brk1 \<sigma> \<mapsto> createNode_V1 s e lvl), brk1 := b\<rparr>) = mk1 \<sigma>"
  using heap_inv1D(1) [OF assms, of "brk1 \<sigma>"] by (auto simp: mk1_def createNode_V1_def fun_eq_iff)

lemma track_mk: "trackAndLock p k \<sigma> l = Some (\<sigma>', l') \<Longrightarrow> mk1 \<sigma>' = mk1 \<sigma>"
  by (auto simp: trackAndLock_def bind_eq_Some_conv update1_mk split: if_splits)

lemma unlock_mk: "unlockAll M op res \<sigma> l = Some (\<sigma>', l') \<Longrightarrow> mk1 \<sigma>' = mk1 \<sigma>"
  by (auto simp: unlockAll_def bind_eq_Some_conv update1_mk split: if_splits)

lemma code_step1_mk:
  assumes inv: "heap_inv1 M \<sigma>" and pc: "pc1 l \<noteq> MarkVictim" and s: "code_step1 M \<sigma> l = Some (\<sigma>', l')"
  shows "mk1 \<sigma>' = mk1 \<sigma>"
proof (cases "pc1 l")
  case (FindDone op)
  with s show ?thesis
    by (cases op) (auto simp: code_step1_def insert_found_def remove_found_def search_found_def bind_eq_Some_conv Let_def split: option.splits if_splits)
next
  case (FindWhile op)
  with s show ?thesis by (auto simp: code_step1_def find_while_def bind_eq_Some_conv Let_def split: if_splits)
qed (use s pc alloc_mk [OF inv] in \<open>auto simp: code_step1_def bind_eq_Some_conv find_level_def search_marked_def
      write1_mk update1_mk dest!: track_mk unlock_mk split: if_splits\<close>)

subsection \<open>The steps are steps of the abstract lock\<close>

abbreviation touching_spec :: "('t::linorder) range set \<Rightarrow> 't range action \<Rightarrow> 't range set \<Rightarrow> bool" where
  "touching_spec \<equiv> lock_spec closed_valid half_open_overlaps"

text \<open>The lowest link of an insertion acquires the range, the mark of a removal releases it.\<close>

definition action_of1 :: "'t locals1 \<Rightarrow> 't range action" where
  "action_of1 l = (if pc1 l = LinkPred \<and> lv1 l = 0 then Acquire (args1 l)
     else if pc1 l = MarkVictim then Release (args1 l) else Silent)"

lemma published_next:
  assumes "thread_inv1 M \<sigma>' v' l'" "code_step1 M \<sigma> l = Some (\<sigma>', l')" "pc1 l = LinkPred"
  shows "published1 \<sigma>' l'"
proof -
  from assms(2,3) have "l' = (if lv1 l + 1 \<le> top_lv l then l\<lparr>lv1 := lv1 l + 1, pc1 := LinkNew\<rparr> else l\<lparr>pc1 := FullyLinked\<rparr>)"
    by (auto simp: code_step1_def bind_eq_Some_conv)
  with assms(1) show ?thesis by (auto simp: thread_inv1_def linking1_def split: if_splits)
qed

lemma new_stays:
  "code_step1 M \<sigma> l = Some (\<sigma>', l') \<Longrightarrow> pc1 l = LinkPred \<or> pc1 l = LinkNew \<Longrightarrow> new1 l' = new1 l \<and> args1 l' = args1 l"
  by (auto simp: code_step1_def bind_eq_Some_conv split: if_splits)

lemma acquire_step1:
  assumes inv: "heap_inv1 M \<sigma>" and ti: "thread_inv1 M \<sigma> v l" and pc: "pc1 l = LinkPred" "lv1 l = 0"
    and s: "code_step1 M \<sigma> l = Some (\<sigma>', l')"
  shows "touching_spec (held_ranges1 \<sigma>) (Acquire (args1 l)) (held_ranges1 \<sigma>')"
proof -
  from ti pc obtain a where a: "new1 l = Some a" "\<not> linked1 \<sigma> a" and ok: "s_arg l \<le> e_arg l"
    by (auto simp: thread_inv1_def linking1_def private1_def legal_args1_def)
  from code_step1_ok [OF inv ti] s pc a obtain v' where h: "heap_inv1 M \<sigma>'" "thread_inv1 M \<sigma>' v' l'"
    "evolves1 (set (tracked l)) {a} (set_option v) \<sigma> \<sigma>'" by (auto simp: step_ok1_def owned1_def)
  have mk: "mk1 \<sigma>' = mk1 \<sigma>" using code_step1_mk [OF inv _ s] pc by simp
  from published_next [OF h(2) s pc(1)] new_stays [OF s] pc(1) a(1)
  have pub: "linked1 \<sigma>' a" "a \<noteq> head1 \<sigma>'" "a \<noteq> tail1 \<sigma>'" "rg1 \<sigma>' a = args1 l" by (auto simp: published1_def)
  note E = evolves1D(1,2,5,6) [OF h(3)]
  have "\<not> mk1 \<sigma> a" using a(2) by (simp add: linked1_iff)
  then have held: "held1 \<sigma>' = insert a (held1 \<sigma>)"
    using E pub by (auto simp: held1_def mk)
  have "a \<notin> held1 \<sigma>" using a(2) by (simp add: held1_def)
  then have dj: "\<not> half_open_overlaps (args1 l) (rg1 \<sigma>' b)" if "b \<in> held1 \<sigma>" for b
    using held1_disjoint [OF h(1), of a b] held that pub(4) by auto
  have rg: "rg1 \<sigma>' b = rg1 \<sigma> b" if "b \<in> held1 \<sigma>" for b using held1_rg_stable [OF inv h(3) that] .
  have "\<forall>q\<in>held_ranges1 \<sigma>. \<not> half_open_overlaps (args1 l) q" using dj rg by (auto simp: held_ranges1_def)
  moreover have "rg1 \<sigma>' ` held1 \<sigma> = held_ranges1 \<sigma>"
    unfolding held_ranges1_def by (rule image_cong [OF refl]) (rule rg)
  then have "held_ranges1 \<sigma>' = insert (args1 l) (held_ranges1 \<sigma>)" by (simp add: held_ranges1_def held pub(4))
  ultimately show ?thesis using ok by (simp add: closed_valid_def)
qed

lemma release_step1:
  assumes inv: "heap_inv1 M \<sigma>" and ti: "thread_inv1 M \<sigma> v l" and pc: "pc1 l = MarkVictim"
    and s: "code_step1 M \<sigma> l = Some (\<sigma>', l')"
  shows "touching_spec (held_ranges1 \<sigma>) (Release (args1 l)) (held_ranges1 \<sigma>')"
proof -
  from ti pc obtain c where c: "victim1 l = Some c" "linked1 \<sigma> c" "c \<noteq> head1 \<sigma>" "c \<noteq> tail1 \<sigma>"
    "rg1 \<sigma> c = args1 l" "s_arg l < e_arg l" "\<not> mk1 \<sigma> c" "c \<in> set (tracked l)"
    by (auto simp: thread_inv1_def target1_def)
  from s pc c(1) have u: "update1 \<sigma> (Some c) (\<lambda>n. n\<lparr>marked1 := True\<rparr>) = Some \<sigma>'"
    by (auto simp: code_step1_def bind_eq_Some_conv)
  note F = mark_frame [OF u] and K = mark_keeps [OF inv c(2,8) u]
  have held: "held1 \<sigma>' = held1 \<sigma> - {c}" by (auto simp: held1_def F(1,2,5) K(3))
  have mem: "c \<in> held1 \<sigma>" using c by (simp add: held1_def)
  have uniq: "b \<in> held1 \<sigma> \<Longrightarrow> rg1 \<sigma> b = args1 l \<longleftrightarrow> b = c" for b
    using chain_same_range [OF inv, of b c] held1_on_chain [of b] held1_on_chain [OF mem] c(5,6) by auto
  have "b \<in> held1 \<sigma> - {c} \<longleftrightarrow> b \<in> {b \<in> held1 \<sigma>. rg1 \<sigma> b \<noteq> args1 l}" for b using uniq [of b] by blast
  then have "held1 \<sigma> - {c} = {b \<in> held1 \<sigma>. rg1 \<sigma> b \<noteq> args1 l}" by (rule set_eqI)
  moreover have "f ` {b \<in> H. f b \<noteq> r} = f ` H - {r}" for f :: "addr1 \<Rightarrow> 'a range" and H r by blast
  ultimately have "rg1 \<sigma> ` (held1 \<sigma> - {c}) = rg1 \<sigma> ` held1 \<sigma> - {args1 l}" by simp
  then have "held_ranges1 \<sigma>' = held_ranges1 \<sigma> - {args1 l}" by (simp add: held_ranges1_def held F(6))
  moreover have "args1 l \<in> held_ranges1 \<sigma>" using mem c(5) unfolding held_ranges1_def by force
  ultimately show ?thesis by simp
qed

lemma silent_step1:
  assumes inv: "heap_inv1 M \<sigma>" and ti: "thread_inv1 M \<sigma> v l" and a: "action_of1 l = Silent"
    and s: "code_step1 M \<sigma> l = Some (\<sigma>', l')"
  shows "held1 \<sigma>' = held1 \<sigma>" "held_ranges1 \<sigma>' = held_ranges1 \<sigma>"
proof -
  from code_step1_ok [OF inv ti] s obtain v' where h: "thread_inv1 M \<sigma>' v' l'"
    "evolves1 (set (tracked l)) (owned1 l) (set_option v) \<sigma> \<sigma>'" by (auto simp: step_ok1_def)
  have mk: "mk1 \<sigma>' = mk1 \<sigma>" using code_step1_mk [OF inv _ s] a by (auto simp: action_of1_def split: if_splits)
  have "linked1 \<sigma>' b \<longleftrightarrow> linked1 \<sigma> b" for b
  proof (cases "b \<in> owned1 l")
    case True
    with a have pc: "pc1 l = LinkNew" "lv1 l = 0" and b: "new1 l = Some b"
      by (auto simp: owned1_def action_of1_def split: if_splits)
    have un: "\<not> linked1 \<sigma> b" using ti pc b by (auto simp: thread_inv1_def linking1_def private1_def)
    have "pc1 l' = LinkPred" "lv1 l' = 0" using s pc by (auto simp: code_step1_def bind_eq_Some_conv)
    with h(1) new_stays [OF s] pc b have "\<not> linked1 \<sigma>' b"
      by (auto simp: thread_inv1_def linking1_def private1_def)
    with un show ?thesis by simp
  qed (use evolves1D(5,6) [OF h(2)] in blast)
  then show held: "held1 \<sigma>' = held1 \<sigma>" using evolves1D(1,2) [OF h(2)] by (simp add: held1_def mk)
  show "held_ranges1 \<sigma>' = held_ranges1 \<sigma>"
    unfolding held_ranges1_def held by (rule image_cong [OF refl]) (rule held1_rg_stable [OF inv h(2)])
qed

lemma step1_refines:
  assumes "heap_inv1 M \<sigma>" "thread_inv1 M \<sigma> v l" "code_step1 M \<sigma> l = Some (\<sigma>', l')"
  shows "touching_spec (held_ranges1 \<sigma>) (action_of1 l) (held_ranges1 \<sigma>')"
proof (cases "action_of1 l = Silent")
  case True
  with silent_step1 [OF assms(1,2) _ assms(3)] show ?thesis by simp
next
  case False
  with acquire_step1 [OF assms(1,2) _ _ assms(3)] release_step1 [OF assms(1,2) _ assms(3)]
  show ?thesis by (auto simp: action_of1_def split: if_splits)
qed

text \<open>Runs of the code and runs of the abstract lock.\<close>

fun event_action1 :: "('t::linorder) event1 \<Rightarrow> 't system1 \<Rightarrow> 't range action" where
  "event_action1 (Step1 t) S = action_of1 (threads1 S t)"
| "event_action1 _ S = Silent"

definition run_actions1 :: "nat \<Rightarrow> ('t::linorder) event1 list \<Rightarrow> 't system1 \<Rightarrow> 't range action list" where
  "run_actions1 M = actions_of (do_event1 M) event_action1"

lemma system_inv1D:
  assumes "system_inv1 M S"
  shows "heap_inv1 M (lock1_of S)" "\<exists>v. thread_inv1 M (lock1_of S) v (threads1 S t)"
    "t \<noteq> u \<Longrightarrow> claimed1 (threads1 S t) \<inter> claimed1 (threads1 S u) = {}"
  using assms by (auto simp: system_inv1_def apart1_def)

lemma event1_refines:
  assumes inv: "system_inv1 M S"
  shows "touching_spec (held_ranges1 (lock1_of S)) (event_action1 ev S) (held_ranges1 (lock1_of (do_event1 M ev S)))"
proof (cases ev)
  case (Step1 t)
  from system_inv1D(2) [OF inv] obtain v where ti: "thread_inv1 M (lock1_of S) v (threads1 S t)" ..
  from code_step1_ok [OF system_inv1D(1) [OF inv] ti]
  obtain \<sigma>' l' where s: "code_step1 M (lock1_of S) (threads1 S t) = Some (\<sigma>', l')" by (auto simp: step_ok1_def)
  from step1_refines [OF system_inv1D(1) [OF inv] ti s] Step1 s show ?thesis
    by (simp add: step1_def set_thread_def)
qed (simp_all add: set_thread_def)

lemma init_held1: "held_ranges1 (lock1_of (init_system1 M)) = {}"
proof -
  let ?s = "ConcurrentRangeLock_V1 M :: 'a lock1"
  have hd: "head1 ?s = 0" "tail1 ?s = 1" by (simp_all add: ConcurrentRangeLock_V1_def Let_def)
  have rd: "read1 ?s (Some a) 0 = (if a = 0 then Some (Some 1) else if a = 1 then Some None else None)" for a
    by (simp add: read1_def ConcurrentRangeLock_V1_def Let_def createNode_V1_def nth_append del: upt_Suc replicate_Suc)
  have "a = 0 \<or> a = 1" if "on_chain1 ?s a" for a
    using that [unfolded on_chain1_def] by (induction rule: reach_induct) (auto simp: nx1_iff rd hd split: if_splits)
  then have "held1 ?s = {}" by (auto simp: held1_def linked1_iff hd)
  then show ?thesis by (simp add: held_ranges1_def init_system1_def)
qed

text \<open>The levels are at least 1, so \<open>maxLevel\<close> is a successor.\<close>

interpretation v1: lock_implementation closed_valid half_open_before half_open_overlaps "init_system1 (Suc k)"
    "do_event1 (Suc k)" "\<lambda>ev S. legal_event1 ev" "system_inv1 (Suc k)" "\<lambda>S. held_ranges1 (lock1_of S)" event_action1 for k
  by unfold_locales (auto simp: init_system_inv1 init_held1 event_keeps1 event1_refines)

lemma run_reachable1: "list_all legal_event1 evs \<Longrightarrow> reachable1 M (run_events1 M evs (init_system1 M))"
  by (rule reachable1_run) (auto intro: reachable1.start)

lemma granted_node1:
  assumes "system_inv1 M S" "pc1 (threads1 S t) = TryReturned1 True"
  obtains a where "new1 (threads1 S t) = Some a" "linked1 (lock1_of S) a" "a \<noteq> head1 (lock1_of S)"
    "a \<noteq> tail1 (lock1_of S)" "rg1 (lock1_of S) a = args1 (threads1 S t)"
  using system_inv1D(2) [OF assms(1), of t] assms(2) by (auto simp: thread_inv1_def published1_def)

end
