(* ===== verification/V1_Properties.thy ===== *)
theory V1_Properties
  imports V1_Refinement
begin

text \<open>
  The properties of the v1 lock its callers rely on, and where it falls short of them.
\<close>

subsection \<open>Properties\<close>

text \<open>
  C30. Mutual exclusion of the v1 lock under every interleaving of any number of threads: two threads
  whose \<open>tryLock\<close> returned true and whose nodes are not marked hold ranges that share no more than
  an end point.
\<close>
theorem v1_mutual_exclusion:
  assumes "reachable1 M S" "0 < M" "t \<noteq> u"
    and "pc1 (threads1 S t) = TryReturned1 True" "pc1 (threads1 S u) = TryReturned1 True"
    and "new1 (threads1 S t) = Some a" "\<not> mk1 (lock1_of S) a"
    and "new1 (threads1 S u) = Some b" "\<not> mk1 (lock1_of S) b"
  shows "\<not> half_open_overlaps (s_arg (threads1 S t), e_arg (threads1 S t)) (s_arg (threads1 S u), e_arg (threads1 S u))"
proof -
  note inv = reachable_system_inv1 [OF assms(1,2)]
  have "a \<in> held1 (lock1_of S)" "rg1 (lock1_of S) a = args1 (threads1 S t)"
    "b \<in> held1 (lock1_of S)" "rg1 (lock1_of S) b = args1 (threads1 S u)"
    using granted_node1 [OF inv assms(4)] granted_node1 [OF inv assms(5)] assms(6-9) by (auto simp: held1_def)
  moreover have "a \<noteq> b"
    using system_inv1D(3) [OF inv assms(3)] assms(4-6,8) by (auto simp: claimed1_def)
  ultimately show ?thesis using held1_disjoint [OF system_inv1D(1) [OF inv]] by metis
qed

theorem v1_mutual_exclusion_witness:
  "\<not> half_open_overlaps (5, 10) (10, 20 :: 16 word)"
proof -
  let ?evs = "CallTry1 0 5 (10 :: 16 word) (\<lambda>_. 1) # CallTry1 1 10 20 (\<lambda>_. 0) #
    concat (replicate 24 [Step1 0, Step1 1]) @ replicate 30 (Step1 1)"
  let ?S = "run_events1 1 ?evs (init_system1 1)"
  have "list_all legal_event1 ?evs" by code_simp
  then have r: "reachable1 1 ?S" by (rule run_reachable1)
  have p: "pc1 (threads1 ?S 0) = TryReturned1 True" "pc1 (threads1 ?S 1) = TryReturned1 True"
    "new1 (threads1 ?S 0) = Some 2" "new1 (threads1 ?S 1) = Some 3"
    "\<not> mk1 (lock1_of ?S) 2" "\<not> mk1 (lock1_of ?S) 3"
    by code_simp+
  have "s_arg (threads1 ?S 0) = 5" "e_arg (threads1 ?S 0) = 10"
    "s_arg (threads1 ?S 1) = 10" "e_arg (threads1 ?S 1) = 20"
    by code_simp+
  with v1_mutual_exclusion [OF r zero_less_one zero_neq_one p(1,2,3,5,4,6)] show ?thesis
    by (simp only: not_False_eq_True)
qed

text \<open>
  C31. The v1 lock implements the abstract lock on half-open ranges: from the constructor on, whatever
  the calls and the interleaving, the lowest links of the insertions and the marks of the removals
  are, in their order, a run of the abstract lock, which acquires only ranges that overlap no held
  range and releases only held ranges, and ends with the ranges of the unmarked inserted nodes.
\<close>
theorem v1_refines_abstract_lock:
  assumes "list_all legal_event1 evs" "0 < M"
  shows "spec_run closed_valid half_open_overlaps {} (run_actions1 M evs (init_system1 M))
    (held_ranges1 (lock1_of (run_events1 M evs (init_system1 M))))"
proof -
  from assms(2) obtain k where "M = Suc k" by (cases M) auto
  with v1.init_run_refines [OF legal_run_constI [OF assms(1)]] show ?thesis by (simp add: run_actions1_def run_events1_def)
qed

theorem v1_refines_abstract_lock_witness:
  "held_ranges1 (lock1_of (run_events1 1 (CallTry1 0 5 (10 :: 16 word) (\<lambda>_. 1) # replicate 24 (Step1 0) @
    CallTry1 1 10 12 (\<lambda>_. 1) # replicate 24 (Step1 1) @ CallRelease1 1 5 10 # replicate 19 (Step1 1))
    (init_system1 1))) = {(10, 12)}"
proof -
  let ?evs = "CallTry1 0 5 (10 :: 16 word) (\<lambda>_. 1) # replicate 24 (Step1 0) @
    CallTry1 1 10 12 (\<lambda>_. 1) # replicate 24 (Step1 1) @ CallRelease1 1 5 10 # replicate 19 (Step1 1)"
  have "list_all legal_event1 ?evs" by code_simp
  note run = v1_refines_abstract_lock [OF this zero_less_one]
  have acts: "run_actions1 1 ?evs (init_system1 1) = replicate 16 Silent @ Acquire (5, 10) # replicate 25 Silent @
      Acquire (10, 12) # replicate 15 Silent @ Release (5, 10) # replicate 11 Silent"
    by code_simp
  note spec_run_final [OF run, unfolded acts]
  also have "fold apply_action (replicate 16 Silent @ Acquire (5, 10 :: 16 word) # replicate 25 Silent @
      Acquire (10, 12) # replicate 15 Silent @ Release (5, 10) # replicate 11 Silent) {} = {(10, 12)}"
    by (simp only: fold_append fold_simps fold_silent comp_def apply_action.simps) auto
  finally show ?thesis .
qed

text \<open>
  C32. No operation of the v1 lock follows a null or an uninitialised pointer or leaves the bounds of
  its arrays, under any interleaving, when \<open>maxLevel\<close> is positive and its callers keep to ranges that
  are not reversed and do not start at the largest key.
\<close>
theorem v1_never_crashes:
  assumes "reachable1 M S" "0 < M"
  shows "pc1 (threads1 S t) \<noteq> Crashed1"
  using system_inv1D(2) [OF reachable_system_inv1 [OF assms], of t] by (auto simp: thread_inv1_def)

theorem v1_never_crashes_witness:
  "pc1 (threads1 (run_events1 1 (CallRelease1 0 5 (10 :: 16 word) # replicate 9 (Step1 0))
    (init_system1 1)) 0) \<noteq> Crashed1"
proof -
  let ?evs = "CallRelease1 0 5 (10 :: 16 word) # replicate 9 (Step1 0)"
  have "list_all legal_event1 ?evs" by code_simp
  then have "reachable1 1 (run_events1 1 ?evs (init_system1 1))" by (rule run_reachable1)
  then show ?thesis using zero_less_one by (rule v1_never_crashes)
qed

end
