(* ===== verification/V1_Points.thy ===== *)
theory V1_Points
  imports V1_Refinement
begin

text \<open>
  Ranges of one point in the v1 lock: \<open>findInsert\<close> and \<open>findExact\<close> move past every node with
  \<open>start >= curr->getEnd()\<close>, so they never stop at the node of such a range. It is not refused to a
  second thread, and it is never released.
\<close>

subsection \<open>Removals\<close>

text \<open>A thread that has found the node of a removal removes more than a point.\<close>

definition removes_more :: "('t::linorder) locals1 \<Rightarrow> bool" where
  "removes_more l \<longleftrightarrow> (case pc1 l of
       CountDown \<Rightarrow> s_arg l < e_arg l
     | Unlock op res \<Rightarrow> op = Removing \<longrightarrow> s_arg l < e_arg l
     | RelReturned1 b \<Rightarrow> s_arg l < e_arg l
     | _ \<Rightarrow> True)"

lemma removes_more_start [simp]: "removes_more (start_find M \<sigma> op l)"
  by (simp add: removes_more_def start_find_def)

lemma found_more:
  assumes "arrays1 M 0 \<sigma> l" "found1 Removing M 0 \<sigma> l" "found_lv l = Some k"
  shows "s_arg l < e_arg l"
  using assms by (fastforce simp: found1_def arrays1_def succ_at_def)

lemma target_more: "target1 \<sigma> l \<Longrightarrow> s_arg l < e_arg l"
  by (auto simp: target1_def)

lemma trackAndLock_keeps_args:
  assumes "trackAndLock p k \<sigma> l = Some (\<sigma>', l')"
  shows "s_arg l' = s_arg l \<and> e_arg l' = e_arg l \<and> (pc1 l' = pc1 l \<or> pc1 l' = k)"
  using assms by (auto simp: trackAndLock_def bind_eq_Some_conv split: if_splits)

lemma step_removes_more:
  assumes ti: "thread_inv1 M \<sigma> v l" and rm: "removes_more l" and s: "code_step1 M \<sigma> l = Some (\<sigma>', l')"
  shows "removes_more l'"
proof (cases "pc1 l")
  case (FindDone op)
  show ?thesis
  proof (cases op)
    case Removing
    with ti FindDone found_more [of M \<sigma> l] have "found_lv l \<noteq> None \<Longrightarrow> s_arg l < e_arg l" by (auto simp: thread_inv1_def)
    with FindDone Removing s show ?thesis
      by (auto simp: code_step1_def remove_found_def bind_eq_Some_conv Let_def removes_more_def split: option.splits if_splits)
  qed (use FindDone s in \<open>auto simp: code_step1_def insert_found_def search_found_def start_find_def bind_eq_Some_conv
        removes_more_def split: option.splits if_splits\<close>)
next
  case CheckVictim
  with ti target_more [of \<sigma> l] have "s_arg l < e_arg l" by (simp add: thread_inv1_def)
  with CheckVictim s show ?thesis by (auto simp: code_step1_def bind_eq_Some_conv removes_more_def)
next
  case (ValPred op)
  with ti target_more [of \<sigma> l] have "op = Removing \<Longrightarrow> s_arg l < e_arg l" by (simp add: thread_inv1_def locking1_def)
  with ValPred s show ?thesis by (auto simp: code_step1_def bind_eq_Some_conv removes_more_def)
next
  case (ValNext op)
  with ti target_more [of \<sigma> l] have "op = Removing \<Longrightarrow> s_arg l < e_arg l" by (simp add: thread_inv1_def locking1_def)
  with ValNext s show ?thesis by (auto simp: code_step1_def bind_eq_Some_conv level_valid_def removes_more_def split: if_splits)
next
  case UnlinkWrite
  with ti target_more [of \<sigma> l] have "s_arg l < e_arg l" by (simp add: thread_inv1_def locking1_def)
  with UnlinkWrite s show ?thesis by (auto simp: code_step1_def bind_eq_Some_conv removes_more_def)
next
  case (Unlock op res)
  with ti have "op \<noteq> Searching" by (simp add: thread_inv1_def)
  with Unlock rm s show ?thesis
    by (cases op) (auto simp: code_step1_def unlockAll_def start_find_def bind_eq_Some_conv removes_more_def
        split: option.splits if_splits)
next
  case (LockPred op)
  with s show ?thesis by (auto simp: code_step1_def removes_more_def dest!: trackAndLock_keeps_args split: if_splits)
next
  case LockVictim
  with s show ?thesis by (auto simp: code_step1_def bind_eq_Some_conv removes_more_def dest!: trackAndLock_keeps_args)
next
  case (FindWhile op)
  with s show ?thesis
    by (auto simp: code_step1_def find_while_def bind_eq_Some_conv Let_def removes_more_def split: if_splits)
next
  case (RelReturned1 b)
  with rm s show ?thesis by (simp add: code_step1_def)
qed (use rm s in \<open>auto simp: code_step1_def find_level_def search_marked_def bind_eq_Some_conv removes_more_def
      split: if_splits\<close>)

subsection \<open>Marks\<close>

definition points_unmarked :: "('t::linorder) lock1 \<Rightarrow> bool" where
  "points_unmarked \<sigma> \<longleftrightarrow> (\<forall>a. mk1 \<sigma> a \<longrightarrow> fst (rg1 \<sigma> a) < snd (rg1 \<sigma> a))"

lemma step_points_unmarked:
  assumes inv: "heap_inv1 M \<sigma>" and ti: "thread_inv1 M \<sigma> v l" and pu: "points_unmarked \<sigma>"
    and s: "code_step1 M \<sigma> l = Some (\<sigma>', l')"
  shows "points_unmarked \<sigma>'"
  unfolding points_unmarked_def
proof (intro allI impI)
  fix a assume a: "mk1 \<sigma>' a"
  from code_step1_ok [OF inv ti] s have ev: "evolves1 (set (tracked l)) (owned1 l) (set_option v) \<sigma> \<sigma>'"
    by (auto simp: step_ok1_def)
  have old: "fst (rg1 \<sigma> a) < snd (rg1 \<sigma> a) \<and> heap1 \<sigma> a \<noteq> None"
  proof (cases "mk1 \<sigma> a")
    case True
    with pu show ?thesis by (auto simp: points_unmarked_def mk1_def split: option.splits)
  next
    case False
    with code_step1_mk [OF inv _ s] a have "pc1 l = MarkVictim" by metis
    moreover from this s have "update1 \<sigma> (victim1 l) (\<lambda>n. n\<lparr>marked1 := True\<rparr>) = Some \<sigma>'"
      by (auto simp: code_step1_def bind_eq_Some_conv)
    then have "a = b" if "victim1 l = Some b" for b
      using that a False by (auto simp: update1_def bind_eq_Some_conv mk1_def split: if_splits)
    ultimately show ?thesis using ti linked1_alloc [OF inv] by (auto simp: thread_inv1_def target1_def)
  qed
  with rg1_stable [OF ev, of a] show "fst (rg1 \<sigma>' a) < snd (rg1 \<sigma>' a)" by simp
qed

subsection \<open>All threads\<close>

definition points_inv :: "('t::linorder) system1 \<Rightarrow> bool" where
  "points_inv S \<longleftrightarrow> points_unmarked (lock1_of S) \<and> (\<forall>t. removes_more (threads1 S t))"

lemma event_points_inv:
  assumes inv: "system_inv1 M S" and pi: "points_inv S"
  shows "points_inv (do_event1 M ev S)"
proof (cases ev)
  case (Step1 t)
  note h = system_inv1D(1) [OF inv]
  from system_inv1D(2) [OF inv] obtain v where ti: "thread_inv1 M (lock1_of S) v (threads1 S t)" by blast
  from code_step1_ok [OF h ti] obtain \<sigma>' l' where s: "code_step1 M (lock1_of S) (threads1 S t) = Some (\<sigma>', l')"
    by (auto simp: step_ok1_def)
  from pi step_points_unmarked [OF h ti _ s] step_removes_more [OF ti _ s] show ?thesis
    by (simp add: points_inv_def Step1 step1_def s set_thread_def)
qed (use pi in \<open>auto simp: points_inv_def set_thread_def call_tryLock1_def call_releaseLock1_def
      call_searchLock1_def\<close>)

lemma reachable_points_inv: "reachable1 M S \<Longrightarrow> 0 < M \<Longrightarrow> points_inv S"
proof (induction rule: reachable1.induct)
  case start
  have "\<not> mk1 (ConcurrentRangeLock_V1 M :: 'a lock1) a" for a
    by (simp add: mk1_def ConcurrentRangeLock_V1_def Let_def createNode_V1_def)
  then show ?case by (simp add: points_inv_def points_unmarked_def init_system1_def removes_more_def fresh_locals1_def)
next
  case (event S ev)
  then show ?case using event_points_inv reachable_system_inv1 by blast
qed

text \<open>
  C34. A range of one point is not locked by the v1 lock, in any state of any legal run: no other range
  of one point makes its \<open>tryLock\<close> return false (only a node of more than a point that contains it
  does), its \<open>releaseLock\<close> never returns, and a node of one point is never marked as removed.
\<close>
theorem v1_point_ranges_not_locked:
  assumes "reachable1 M S" "0 < M"
  shows "(s_arg (threads1 S t) = e_arg (threads1 S t) \<longrightarrow>
      (\<forall>b. pc1 (threads1 S t) \<noteq> RelReturned1 b) \<and>
      (pc1 (threads1 S t) = TryReturned1 False \<longrightarrow> (\<exists>a n. linked1 (lock1_of S) a \<and> heap1 (lock1_of S) a = Some n \<and>
        start1 n \<le> s_arg (threads1 S t) \<and> s_arg (threads1 S t) < end1 n))) \<and>
    (\<forall>a n. heap1 (lock1_of S) a = Some n \<and> start1 n = end1 n \<longrightarrow> \<not> marked1 n)"
proof -
  note inv = reachable_system_inv1 [OF assms] and pi = reachable_points_inv [OF assms]
  have "\<exists>a n. linked1 (lock1_of S) a \<and> heap1 (lock1_of S) a = Some n \<and> start1 n \<le> e_arg (threads1 S t) \<and> s_arg (threads1 S t) < end1 n"
    if "pc1 (threads1 S t) = TryReturned1 False"
  proof -
    from system_inv1D(2) [OF inv, of t] that obtain c where c: "linked1 (lock1_of S) c" "s_arg (threads1 S t) < snd (rg1 (lock1_of S) c)"
      "fst (rg1 (lock1_of S) c) \<le> e_arg (threads1 S t)" by (auto simp: thread_inv1_def refused1_def good_ref1_def)
    moreover from linked1_alloc [OF system_inv1D(1) [OF inv] c(1)] obtain n where "heap1 (lock1_of S) c = Some n" by auto
    ultimately show ?thesis by (auto simp: rg1_def)
  qed
  moreover have "pc1 (threads1 S t) \<noteq> RelReturned1 b" if "s_arg (threads1 S t) = e_arg (threads1 S t)" for b
    using pi that by (auto simp: points_inv_def removes_more_def split: pc1.splits)
  moreover have "\<not> marked1 n" if "heap1 (lock1_of S) a = Some n" "start1 n = end1 n" for a n
  proof -
    from pi have "mk1 (lock1_of S) a \<Longrightarrow> fst (rg1 (lock1_of S) a) < snd (rg1 (lock1_of S) a)"
      by (simp add: points_inv_def points_unmarked_def)
    with that show ?thesis by (auto simp: mk1_def rg1_def)
  qed
  ultimately show ?thesis by auto
qed

text \<open>Two threads hold the range of the point 5 at once.\<close>

theorem v1_point_ranges_not_locked_witness:
  "let S = run_events1 1 (CallTry1 0 5 (5 :: 16 word) (\<lambda>_. 1) # replicate 24 (Step1 0) @
       CallTry1 1 5 5 (\<lambda>_. 1) # replicate 24 (Step1 1)) (init_system1 1)
   in pc1 (threads1 S 0) = TryReturned1 True \<and> pc1 (threads1 S 1) = TryReturned1 True \<and>
     \<not> mk1 (lock1_of S) 2 \<and> \<not> mk1 (lock1_of S) 3"
proof -
  let ?evs = "CallTry1 0 5 (5 :: 16 word) (\<lambda>_. 1) # replicate 24 (Step1 0) @
       CallTry1 1 5 5 (\<lambda>_. 1) # replicate 24 (Step1 1)"
  let ?S = "run_events1 1 ?evs (init_system1 1)"
  have "list_all legal_event1 ?evs" by code_simp
  note v1_point_ranges_not_locked [OF run_reachable1 [OF this] zero_less_one]
  moreover have "pc1 (threads1 ?S 0) = TryReturned1 True" "pc1 (threads1 ?S 1) = TryReturned1 True"
    "map_option start1 (heap1 (lock1_of ?S) 2) = Some 5" "map_option end1 (heap1 (lock1_of ?S) 2) = Some 5"
    "map_option start1 (heap1 (lock1_of ?S) 3) = Some 5" "map_option end1 (heap1 (lock1_of ?S) 3) = Some 5" by code_simp+
  ultimately show ?thesis unfolding Let_def mk1_def by (auto split: option.splits)
qed

end
