(* ===== verification/V1_Progress.thy ===== *)
theory V1_Progress
  imports V1_Refinement "HOL-Library.Product_Lexorder"
begin

text \<open>
  The order of the nodes that keeps the v1 lock from deadlocking: the links of every level lead to
  larger end keys, or to younger nodes with the same end key, and a thread that waits for a mutex
  waits for a node before the nodes it has locked.
\<close>

subsection \<open>The order of the nodes\<close>

text \<open>
  The end of the range, and the address for the nodes of single points that end where another range
  ends: a younger node has a larger address.
\<close>

definition key1 :: "'t lock1 \<Rightarrow> addr1 \<Rightarrow> 't \<times> addr1" where
  "key1 \<sigma> a = (snd (rg1 \<sigma> a), a)"

lemma fst_key1 [simp]: "fst (key1 \<sigma> a) = snd (rg1 \<sigma> a)"
  by (simp add: key1_def)

lemma key1_less: "key1 (\<sigma> :: ('t::linorder) lock1) a < key1 \<sigma> b \<longleftrightarrow> snd (rg1 \<sigma> a) < snd (rg1 \<sigma> b) \<or> snd (rg1 \<sigma> a) = snd (rg1 \<sigma> b) \<and> a < b"
  by (auto simp: key1_def less_prod_def')

lemma key1_lessI: "snd (rg1 (\<sigma> :: ('t::linorder) lock1) a) < snd (rg1 \<sigma> b) \<Longrightarrow> key1 \<sigma> a < key1 \<sigma> b"
  by (simp add: key1_less)

definition rising :: "('t::linorder) lock1 \<Rightarrow> bool" where
  "rising \<sigma> \<longleftrightarrow> (\<forall>a k p. read1 \<sigma> (Some a) k = Some (Some p) \<longrightarrow> key1 \<sigma> a < key1 \<sigma> p)"

text \<open>A predecessor at a higher level has a smaller key or is the same node.\<close>

definition below1 :: "('t::linorder) lock1 \<Rightarrow> addr1 option \<Rightarrow> addr1 option \<Rightarrow> bool" where
  "below1 \<sigma> p q \<longleftrightarrow> (\<exists>a b. p = Some a \<and> q = Some b \<and> heap1 \<sigma> a \<noteq> None \<and> heap1 \<sigma> b \<noteq> None \<and>
     (a = b \<or> key1 \<sigma> a < key1 \<sigma> b))"

definition falling :: "nat \<Rightarrow> nat \<Rightarrow> ('t::linorder) lock1 \<Rightarrow> 't locals1 \<Rightarrow> bool" where
  "falling M j \<sigma> l \<longleftrightarrow> (\<forall>i i'. j \<le> i \<and> i \<le> i' \<and> i' \<le> M \<longrightarrow> below1 \<sigma> (preds1 l i') (preds1 l i))"

definition room_above :: "nat \<Rightarrow> nat \<Rightarrow> ('t::linorder) lock1 \<Rightarrow> 't locals1 \<Rightarrow> bool" where
  "room_above M j \<sigma> l \<longleftrightarrow> (\<forall>i. j \<le> i \<and> i \<le> M \<longrightarrow> (\<exists>c. succs1 l i = Some c \<and> heap1 \<sigma> c \<noteq> None \<and> e_arg l < snd (rg1 \<sigma> c)))"

text \<open>The nodes locked before level \<open>k\<close>.\<close>

definition locked_below :: "op1 \<Rightarrow> nat \<Rightarrow> 't locals1 \<Rightarrow> bool" where
  "locked_below op k l \<longleftrightarrow>
     (\<forall>a\<in>set (tracked l). (\<exists>i<k. preds1 l i = Some a) \<or> op = Removing \<and> victim1 l = Some a)"

definition older_preds :: "nat \<Rightarrow> 't locals1 \<Rightarrow> bool" where
  "older_preds M l \<longleftrightarrow> (\<exists>a. new1 l = Some a \<and> (\<forall>i p. i \<le> M \<and> preds1 l i = Some p \<longrightarrow> p < a))"

definition order_inv1 :: "nat \<Rightarrow> ('t::linorder) lock1 \<Rightarrow> 't locals1 \<Rightarrow> bool" where
  "order_inv1 M \<sigma> l \<longleftrightarrow> (case pc1 l of
       FindLevel op \<Rightarrow> falling M (Suc (lv1 l)) \<sigma> l \<and>
         (\<forall>i. lv1 l < i \<and> i \<le> M \<longrightarrow> below1 \<sigma> (preds1 l i) (pred1 l))
     | FindWhile op \<Rightarrow> falling M (Suc (lv1 l)) \<sigma> l \<and> below1 \<sigma> (pred1 l) (pred1 l) \<and>
         (\<forall>i. lv1 l < i \<and> i \<le> M \<longrightarrow> below1 \<sigma> (preds1 l i) (pred1 l)) \<and>
         (\<exists>p c. pred1 l = Some p \<and> curr1 l = Some c \<and> heap1 \<sigma> c \<noteq> None \<and> key1 \<sigma> p < key1 \<sigma> c)
     | FindDone op \<Rightarrow> falling M 0 \<sigma> l
     | LockVictim \<Rightarrow> falling M 0 \<sigma> l
     | CheckVictim \<Rightarrow> falling M 0 \<sigma> l \<and> locked_below Removing 0 l
     | MarkVictim \<Rightarrow> falling M 0 \<sigma> l \<and> locked_below Removing 0 l
     | LockPred op \<Rightarrow> falling M 0 \<sigma> l \<and> locked_below op (lv1 l) l \<and> (op = Inserting \<longrightarrow> room_above M 0 \<sigma> l)
     | ValPred op \<Rightarrow> falling M 0 \<sigma> l \<and> locked_below op (Suc (lv1 l)) l \<and> (op = Inserting \<longrightarrow> room_above M 0 \<sigma> l)
     | ValSucc \<Rightarrow> falling M 0 \<sigma> l \<and> locked_below Inserting (Suc (lv1 l)) l \<and> room_above M 0 \<sigma> l
     | ValNext op \<Rightarrow> falling M 0 \<sigma> l \<and> locked_below op (Suc (lv1 l)) l \<and> (op = Inserting \<longrightarrow> room_above M 0 \<sigma> l)
     | NewNode \<Rightarrow> room_above M 0 \<sigma> l
     | LinkNew \<Rightarrow> room_above M 0 \<sigma> l \<and> older_preds M l
     | LinkPred \<Rightarrow> room_above M 0 \<sigma> l \<and> older_preds M l
     | UnlinkWrite \<Rightarrow> (\<exists>c q. victim1 l = Some c \<and> next_val l = Some q \<and> heap1 \<sigma> c \<noteq> None \<and> heap1 \<sigma> q \<noteq> None \<and>
         key1 \<sigma> c < key1 \<sigma> q)
     | _ \<Rightarrow> True)"

subsection \<open>What other steps keep\<close>

lemma evolves1_heap: "evolves1 T X U \<sigma> \<sigma>' \<Longrightarrow> heap1 \<sigma> a \<noteq> None \<Longrightarrow> heap1 \<sigma>' a \<noteq> None"
  using evolves1D(4) by fastforce

lemma key1_stable: "evolves1 T X U \<sigma> \<sigma>' \<Longrightarrow> heap1 \<sigma> a \<noteq> None \<Longrightarrow> key1 \<sigma>' a = key1 \<sigma> a"
  by (simp add: key1_def rg1_stable)

lemma end1_stable: "evolves1 T X U \<sigma> \<sigma>' \<Longrightarrow> heap1 \<sigma> a \<noteq> None \<Longrightarrow> snd (rg1 \<sigma>' a) = snd (rg1 \<sigma> a)"
  by (simp add: rg1_stable)

lemma below1_stable: "evolves1 T X U \<sigma> \<sigma>' \<Longrightarrow> below1 \<sigma> p q \<Longrightarrow> below1 \<sigma>' p q"
  unfolding below1_def using evolves1_heap key1_stable by metis

lemma falling_stable: "evolves1 T X U \<sigma> \<sigma>' \<Longrightarrow> falling M j \<sigma> l \<Longrightarrow> falling M j \<sigma>' l"
  unfolding falling_def using below1_stable by blast

lemma room_above_stable: "evolves1 T X U \<sigma> \<sigma>' \<Longrightarrow> room_above M j \<sigma> l \<Longrightarrow> room_above M j \<sigma>' l"
  unfolding room_above_def using evolves1_heap end1_stable by metis

lemma order_inv1_stable:
  assumes ev: "evolves1 T X U \<sigma> \<sigma>'" and oi: "order_inv1 M \<sigma> l"
  shows "order_inv1 M \<sigma>' l"
proof (cases "pc1 l")
  case (FindWhile op)
  with oi obtain p c where "pred1 l = Some p" "curr1 l = Some c" "heap1 \<sigma> c \<noteq> None" "heap1 \<sigma> p \<noteq> None"
      "key1 \<sigma> p < key1 \<sigma> c" by (auto simp: order_inv1_def below1_def)
  with evolves1_heap [OF ev] key1_stable [OF ev]
  have "\<exists>p c. pred1 l = Some p \<and> curr1 l = Some c \<and> heap1 \<sigma>' c \<noteq> None \<and> key1 \<sigma>' p < key1 \<sigma>' c" by metis
  with FindWhile oi falling_stable [OF ev] below1_stable [OF ev] show ?thesis by (simp add: order_inv1_def)
next
  case UnlinkWrite
  with oi evolves1_heap [OF ev] key1_stable [OF ev] show ?thesis by (fastforce simp: order_inv1_def)
qed (use oi falling_stable [OF ev] room_above_stable [OF ev] below1_stable [OF ev] in \<open>auto simp: order_inv1_def\<close>)


subsection \<open>The steps of a thread\<close>

lemma order_frame [simp]:
  "falling M j \<sigma> (l\<lparr>pc1 := x\<rparr>) = falling M j \<sigma> l" "falling M j \<sigma> (l\<lparr>lv1 := k\<rparr>) = falling M j \<sigma> l"
  "falling M j \<sigma> (l\<lparr>tracked := as\<rparr>) = falling M j \<sigma> l" "falling M j \<sigma> (l\<lparr>top_lv := k\<rparr>) = falling M j \<sigma> l"
  "falling M j \<sigma> (l\<lparr>victim1 := q\<rparr>) = falling M j \<sigma> l" "falling M j \<sigma> (l\<lparr>isMarked1 := b\<rparr>) = falling M j \<sigma> l"
  "falling M j \<sigma> (l\<lparr>curr1 := q\<rparr>) = falling M j \<sigma> l" "falling M j \<sigma> (l\<lparr>pred1 := q\<rparr>) = falling M j \<sigma> l"
  "falling M j \<sigma> (l\<lparr>next_val := q\<rparr>) = falling M j \<sigma> l"
  "room_above M j \<sigma> (l\<lparr>pc1 := x\<rparr>) = room_above M j \<sigma> l" "room_above M j \<sigma> (l\<lparr>lv1 := k\<rparr>) = room_above M j \<sigma> l"
  "room_above M j \<sigma> (l\<lparr>tracked := as\<rparr>) = room_above M j \<sigma> l" "room_above M j \<sigma> (l\<lparr>new1 := q\<rparr>) = room_above M j \<sigma> l"
  "locked_below op k (l\<lparr>pc1 := x\<rparr>) = locked_below op k l" "locked_below op k (l\<lparr>lv1 := j'\<rparr>) = locked_below op k l"
  "locked_below op k (l\<lparr>isMarked1 := b\<rparr>) = locked_below op k l" "locked_below op k (l\<lparr>top_lv := j'\<rparr>) = locked_below op k l"
  "older_preds M (l\<lparr>pc1 := x\<rparr>) = older_preds M l" "older_preds M (l\<lparr>lv1 := k\<rparr>) = older_preds M l"
  by (simp_all add: falling_def room_above_def locked_below_def older_preds_def)

lemma locked_below_Suc: "locked_below op k l \<Longrightarrow> locked_below op (Suc k) l"
  unfolding locked_below_def using less_SucI by blast

lemma locked_below_Nil: "tracked l = [] \<Longrightarrow> locked_below op k l"
  by (simp add: locked_below_def)

lemma trackAndLock_result:
  assumes "trackAndLock p k \<sigma> l = Some (\<sigma>', l')"
  obtains a where "p = Some a" "l' = l" "locked1 \<sigma> a" "a \<notin> set (tracked l)" "\<sigma>' = \<sigma>"
  | a where "p = Some a" "l' = l\<lparr>pc1 := k\<rparr>" "a \<in> set (tracked l)" "\<sigma>' = \<sigma>"
  | a where "p = Some a" "l' = l\<lparr>tracked := tracked l @ [a], pc1 := k\<rparr>" "update1 \<sigma> p (\<lambda>n. n\<lparr>mutex1 := True\<rparr>) = Some \<sigma>'"
proof -
  from assms obtain a where p: "p = Some a" by (auto simp: trackAndLock_def bind_eq_Some_conv)
  show thesis
  proof (cases "a \<in> set (tracked l)")
    case True
    with assms p that(2) show thesis by (simp add: trackAndLock_def)
  next
    case new: False
    with assms p obtain n where n: "heap1 \<sigma> a = Some n" by (auto simp: trackAndLock_def bind_eq_Some_conv)
    show thesis
    proof (cases "mutex1 n")
      case True
      with assms p n new have "l' = l" "\<sigma>' = \<sigma>" by (simp_all add: trackAndLock_def)
      with that(1) p n new True show thesis by (simp add: locked1_def)
    next
      case False
      with assms p n new have "l' = l\<lparr>tracked := tracked l @ [a], pc1 := k\<rparr>"
        "update1 \<sigma> p (\<lambda>n. n\<lparr>mutex1 := True\<rparr>) = Some \<sigma>'"
        by (auto simp: trackAndLock_def bind_eq_Some_conv)
      with that(3) p show thesis by blast
    qed
  qed
qed

lemma rising_read: "rising \<sigma> \<Longrightarrow> read1 \<sigma> (Some a) k = Some (Some p) \<Longrightarrow> key1 \<sigma> a < key1 \<sigma> p"
  by (simp add: rising_def)

lemma good_ref1_heap: "good_ref1 \<sigma> k p \<Longrightarrow> heap1 \<sigma> p \<noteq> None"
  using tall1_alloc by (auto simp: good_ref1_def)

lemma find_level_order:
  assumes inv: "heap_inv1 M \<sigma>" and r: "rising \<sigma>" and ti: "thread_inv1 M \<sigma> v l" and oi: "order_inv1 M \<sigma> l"
    and pc: "pc1 l = FindLevel op" and s: "find_level op \<sigma> l = Some (\<sigma>', l')"
  shows "order_inv1 M \<sigma> l'"
proof -
  from ti pc obtain p where p: "pred1 l = Some p" "pred_at \<sigma> (lv1 l) (s_arg l) p"
    by (auto simp: thread_inv1_def searching1_def)
  then obtain q where q: "read1 \<sigma> (Some p) (lv1 l) = Some (Some q)" "good_ref1 \<sigma> (lv1 l) q"
    using tall1_read [OF inv] by (auto simp: pred_at_def)
  have "heap1 \<sigma> p \<noteq> None" using p(2) linked1_alloc [OF inv] by (simp add: pred_at_def)
  then have "below1 \<sigma> (pred1 l) (pred1 l)" by (simp add: below1_def p)
  moreover have "l' = l\<lparr>curr1 := Some q, pc1 := FindWhile op\<rparr>" using s p q by (simp add: find_level_def)
  ultimately show ?thesis
    using oi pc p q rising_read [OF r q(1)] good_ref1_heap [OF q(2)] by (simp add: order_inv1_def)
qed

lemma find_while_order:
  assumes inv: "heap_inv1 M \<sigma>" and r: "rising \<sigma>" and ti: "thread_inv1 M \<sigma> v l" and oi: "order_inv1 M \<sigma> l"
    and pc: "pc1 l = FindWhile op" and s: "find_while op \<sigma> l = Some (\<sigma>', l')"
  shows "order_inv1 M \<sigma> l'"
proof -
  from oi pc obtain p c where o: "falling M (Suc (lv1 l)) \<sigma> l" "below1 \<sigma> (pred1 l) (pred1 l)"
    "\<And>i. lv1 l < i \<Longrightarrow> i \<le> M \<Longrightarrow> below1 \<sigma> (preds1 l i) (pred1 l)"
    and c: "pred1 l = Some p" "curr1 l = Some c" "heap1 \<sigma> c \<noteq> None" "key1 \<sigma> p < key1 \<sigma> c"
    by (auto simp: order_inv1_def)
  from c(3) obtain n where n: "heap1 \<sigma> c = Some n" by auto
  show ?thesis
  proof (cases "s_arg l \<ge> end1 n")
    case True
    then obtain q where q: "read1 \<sigma> (Some c) (lv1 l) = Some q" "l' = l\<lparr>pred1 := Some c, curr1 := q\<rparr>"
      using s c n by (auto simp: find_while_def bind_eq_Some_conv)
    have "c \<noteq> tail1 \<sigma>"
    proof
      assume "c = tail1 \<sigma>"
      with n have "end1 n = top" using sentinels1D(3) [OF inv] by (simp add: rg1_def)
      with True ti pc show False by (simp add: thread_inv1_def legal_args1_def leD)
    qed
    moreover have "good_ref1 \<sigma> (lv1 l) c" using ti pc c by (auto simp: thread_inv1_def searching1_def)
    ultimately obtain q' where q': "q = Some q'" "good_ref1 \<sigma> (lv1 l) q'"
      using tall1_read [OF inv, of c "lv1 l"] q(1) by (auto simp: good_ref1_def)
    have "below1 \<sigma> (preds1 l i) (Some c)" if "lv1 l < i" "i \<le> M" for i
      using o(3) [OF that] c by (auto simp: below1_def)
    moreover have "below1 \<sigma> (Some c) (Some c)" using c(3) by (simp add: below1_def)
    ultimately show ?thesis
      using o(1) q q' rising_read [OF r q(1) [unfolded q'(1)]] good_ref1_heap [OF q'(2)] pc
      by (simp add: order_inv1_def)
  next
    case False
    let ?l = "l\<lparr>found_lv := (if found_lv l = None \<and> found_test op l n then Some (lv1 l) else found_lv l),
                      preds1 := (preds1 l)(lv1 l := pred1 l), succs1 := (succs1 l)(lv1 l := curr1 l)\<rparr>"
    have f: "falling M (lv1 l) \<sigma> ?l"
      unfolding falling_def
    proof (intro allI impI)
      fix i i' assume i: "lv1 l \<le> i \<and> i \<le> i' \<and> i' \<le> M"
      show "below1 \<sigma> (preds1 ?l i') (preds1 ?l i)"
      proof (cases "i = lv1 l")
        case True
        with i o(2) o(3) [of i'] show ?thesis by auto
      next
        case False
        with i o(1) show ?thesis by (simp add: falling_def)
      qed
    qed
    have l': "l' = (if lv1 l = 0 then ?l\<lparr>pc1 := FindDone op\<rparr> else ?l\<lparr>lv1 := lv1 l - 1, pc1 := FindLevel op\<rparr>)"
      using s c n False by (auto simp: find_while_def Let_def split: if_splits)
    show ?thesis
    proof (cases "lv1 l = 0")
      case True
      with f  show ?thesis by (simp add: l' order_inv1_def)
    next
      case False
      then obtain k where k: "lv1 l = Suc k" by (cases "lv1 l") auto
      have "below1 \<sigma> (preds1 ?l i) (pred1 l)" if "k < i" "i \<le> M" for i
        using that o(2,3) k by (cases "i = lv1 l") auto
      with f  k show ?thesis by (simp add: l' order_inv1_def)
    qed
  qed
qed

lemma start_find_order: "order_inv1 M \<sigma> (start_find M \<sigma>' op l)"
  by (auto simp: order_inv1_def start_find_def falling_def)

lemma insert_found_order:
  assumes inv: "heap_inv1 M \<sigma>" and ti: "thread_inv1 M \<sigma> v l" and oi: "order_inv1 M \<sigma> l"
    and pc: "pc1 l = FindDone Inserting" and s: "insert_found M \<sigma> l = Some (\<sigma>', l')"
  shows "order_inv1 M \<sigma> l'"
proof -
  have o: "falling M 0 \<sigma> l" using oi pc by (simp add: order_inv1_def)
  have k: "tracked l = []" "arrays1 M 0 \<sigma> l" "found1 Inserting M 0 \<sigma> l" using ti pc by (simp_all add: thread_inv1_def)
  show ?thesis
  proof (cases "found_lv l")
    case None
    have "\<exists>c. succs1 l i = Some c \<and> heap1 \<sigma> c \<noteq> None \<and> e_arg l < snd (rg1 \<sigma> c)" if i: "i \<le> M" for i
    proof -
      from k(2) i obtain c where c: "succs1 l i = Some c" "good_ref1 \<sigma> i c" by (auto simp: arrays1_def succ_at_def)
      then obtain n where n: "heap1 \<sigma> c = Some n" using good_ref1_heap by blast
      from k(3) None i c have "e_arg l < fst (rg1 \<sigma> c)" by (auto simp: found1_def)
      also have "\<dots> \<le> snd (rg1 \<sigma> c)" using heap_inv1D(3) [OF inv n] n by (simp add: rg1_def wf_node1_def)
      finally show ?thesis using c n by auto
    qed
    then have "room_above M 0 \<sigma> l" by (simp add: room_above_def)
    with o k(1) None s show ?thesis by (auto simp: insert_found_def order_inv1_def locked_below_Nil)
  next
    case (Some k)
    with s o start_find_order show ?thesis
      by (auto simp: insert_found_def bind_eq_Some_conv order_inv1_def [of _ _ "l\<lparr>pc1 := _\<rparr>"] split: if_splits)
  qed
qed

lemma remove_found_order:
  assumes ti: "thread_inv1 M \<sigma> v l" and oi: "order_inv1 M \<sigma> l"
    and pc: "pc1 l = FindDone Removing" and s: "remove_found \<sigma> l = Some (\<sigma>', l')"
  shows "order_inv1 M \<sigma> l'"
  using assms
  by (auto simp: remove_found_def bind_eq_Some_conv Let_def order_inv1_def thread_inv1_def locked_below_def
      split: option.splits if_splits)

lemma lock_pred_order:
  assumes oi: "order_inv1 M \<sigma> l" and pc: "pc1 l = LockPred op" and s: "lock_step M (LockPred op) \<sigma> l = Some (\<sigma>', l')"
  shows "order_inv1 M \<sigma> l'"
proof -
  have o: "falling M 0 \<sigma> l" "locked_below op (lv1 l) l" "op = Inserting \<longrightarrow> room_above M 0 \<sigma> l"
    using oi pc by (simp_all add: order_inv1_def)
  have "trackAndLock (preds1 l (lv1 l)) (ValPred op) \<sigma> l = Some (\<sigma>', l')" using s by (simp split: if_splits)
  then show ?thesis
  proof (cases rule: trackAndLock_result)
    case 1
    with oi show ?thesis by simp
  next
    case 2
    with o locked_below_Suc show ?thesis by (simp add: order_inv1_def)
  next
    case (3 a)
    have "locked_below op (Suc (lv1 l)) (l\<lparr>tracked := tracked l @ [a]\<rparr>)"
      using locked_below_Suc [OF o(2)] 3(1) by (auto simp: locked_below_def)
    with o 3 show ?thesis by (simp add: order_inv1_def locked_below_def)
  qed
qed

lemma lock_victim_order:
  assumes ti: "thread_inv1 M \<sigma> v l" and oi: "order_inv1 M \<sigma> l" and pc: "pc1 l = LockVictim"
    and s: "remove_step1 LockVictim \<sigma> l = Some (\<sigma>', l')"
  shows "order_inv1 M \<sigma> l'"
proof -
  have k: "tracked l = []" "falling M 0 \<sigma> l"
    using ti oi pc by (simp_all add: thread_inv1_def order_inv1_def)
  from s obtain j where "trackAndLock (victim1 l) CheckVictim \<sigma> (l\<lparr>top_lv := j\<rparr>) = Some (\<sigma>', l')"
    by (auto simp: bind_eq_Some_conv)
  then show ?thesis
    by (cases rule: trackAndLock_result) (use k pc in \<open>auto simp: order_inv1_def locked_below_def\<close>)
qed

lemma unlink_read_order:
  assumes inv: "heap_inv1 M \<sigma>" and r: "rising \<sigma>" and ti: "thread_inv1 M \<sigma> v l" and oi: "order_inv1 M \<sigma> l"
    and pc: "pc1 l = UnlinkRead" and s: "remove_step1 UnlinkRead \<sigma> l = Some (\<sigma>', l')"
  shows "order_inv1 M \<sigma> l'"
proof -
  from ti pc have "locking1 M Removing \<sigma> v l" by (simp add: thread_inv1_def)
  then obtain c where c: "victim1 l = Some c" "c \<noteq> tail1 \<sigma>" "rg1 \<sigma> c = args1 l"
    by (auto simp: locking1_def target1_def)
  from s c obtain q where q: "read1 \<sigma> (Some c) (lv1 l) = Some q" "l' = l\<lparr>next_val := q, pc1 := UnlinkWrite\<rparr>"
    by (auto simp: bind_eq_Some_conv)
  from unlink_read_ok [OF inv ti pc] s q(2) obtain q' where "q = Some q'"
    by (auto simp: step_ok1_def thread_inv1_def)
  moreover have "heap1 \<sigma> c \<noteq> None" using q(1) by (auto simp: read1_def deref1_def bind_eq_Some_conv)
  ultimately show ?thesis
    using heap_inv1D(4) [OF inv, of c "lv1 l" q'] rising_read [OF r, of c "lv1 l" q'] q c good_ref1_heap
    by (auto simp: order_inv1_def)
qed

end
