(* ===== verification/V1_Deadlock.thy ===== *)
theory V1_Deadlock
  imports V1_Progress
begin

text \<open>
  The invariant of all threads behind the absence of deadlocks: the order of the nodes, and that a
  locked mutex is held by some thread.
\<close>

lemma new_node_order:
  assumes inv: "heap_inv1 M \<sigma>" and ti: "thread_inv1 M \<sigma> v l" and oi: "order_inv1 M \<sigma> l"
    and pc: "pc1 l = NewNode" and s: "insert_step1 NewNode \<sigma> l = Some (\<sigma>', l')"
  shows "order_inv1 M \<sigma> l'"
proof -
  have l': "l' = l\<lparr>new1 := Some (brk1 \<sigma>), lv1 := 0, pc1 := LinkNew\<rparr>" using s by simp
  have "p < brk1 \<sigma>" if "i \<le> M" "preds1 l i = Some p" for i p
  proof -
    from ti pc that have "linked1 \<sigma> p" by (auto simp: thread_inv1_def locking1_def arrays1_def pred_at_def)
    from linked1_alloc [OF inv this] show ?thesis using heap_inv1D(1) [OF inv] by blast
  qed
  then have "older_preds M l'" unfolding older_preds_def l' by auto
  then show ?thesis using oi pc by (simp add: order_inv1_def l')
qed

lemma code_step1_order:
  assumes inv: "heap_inv1 M \<sigma>" and r: "rising \<sigma>" and ti: "thread_inv1 M \<sigma> v l" and oi: "order_inv1 M \<sigma> l"
    and s: "code_step1 M \<sigma> l = Some (\<sigma>', l')"
  shows "order_inv1 M \<sigma> l'"
proof (cases "pc1 l")
  case (FindLevel op)
  with find_level_order [OF inv r ti oi] s show ?thesis by (simp add: code_step1_def)
next
  case (FindWhile op)
  with find_while_order [OF inv r ti oi] s show ?thesis by (simp add: code_step1_def)
next
  case (FindDone op)
  show ?thesis
  proof (cases op)
    case Inserting
    with FindDone insert_found_order [OF inv ti oi] s show ?thesis by (simp add: code_step1_def)
  next
    case Removing
    with FindDone remove_found_order [OF ti oi] s show ?thesis by (simp add: code_step1_def)
  next
    case Searching
    with FindDone s show ?thesis
      by (auto simp: code_step1_def search_found_def bind_eq_Some_conv order_inv1_def split: option.splits)
  qed
next
  case (LockPred op)
  with lock_pred_order [OF oi] s show ?thesis by (simp add: code_step1_def)
next
  case LockVictim
  with lock_victim_order [OF ti oi] s show ?thesis by (simp add: code_step1_def)
next
  case NewNode
  with new_node_order [OF inv ti oi] s show ?thesis by (simp add: code_step1_def)
next
  case UnlinkRead
  with unlink_read_order [OF inv r ti oi] s show ?thesis by (simp add: code_step1_def)
next
  case (Unlock op res)
  with s have u: "unlockAll M op res \<sigma> l = Some (\<sigma>', l')" by (simp add: code_step1_def)
  show ?thesis
  proof (cases "tracked l = []")
    case True
    with u Unlock oi start_find_order [of M \<sigma> \<sigma> op l] show ?thesis
      by (auto simp: unlockAll_def order_inv1_def [of _ _ "l\<lparr>pc1 := _\<rparr>"] order_inv1_def [of _ _ l] split: option.splits)
  next
    case False
    with u Unlock oi show ?thesis by (auto simp: unlockAll_def bind_eq_Some_conv order_inv1_def)
  qed
next
  case (ValNext op)
  with s oi show ?thesis
    by (auto simp: code_step1_def bind_eq_Some_conv level_valid_def order_inv1_def split: if_splits)
next
  case (ValPred op)
  with s oi show ?thesis by (auto simp: code_step1_def bind_eq_Some_conv order_inv1_def)
next
  case ValSucc
  with s oi show ?thesis by (auto simp: code_step1_def bind_eq_Some_conv order_inv1_def)
qed (use s oi in \<open>auto simp: code_step1_def bind_eq_Some_conv search_marked_def order_inv1_def\<close>)

subsection \<open>The links keep rising\<close>

lemma update1_view:
  assumes "update1 \<sigma> p f = Some \<sigma>'" "\<And>n. next1 (f n) = next1 n \<and> start1 (f n) = start1 n \<and> end1 (f n) = end1 n"
  shows "read1 \<sigma>' = read1 \<sigma> \<and> rg1 \<sigma>' = rg1 \<sigma>"
proof -
  from assms(1) obtain a n where s': "heap1 \<sigma> a = Some n" "\<sigma>' = \<sigma>\<lparr>heap1 := (heap1 \<sigma>)(a \<mapsto> f n)\<rparr>"
    by (auto simp: update1_def bind_eq_Some_conv)
  have "read1 \<sigma>' q k = read1 \<sigma> q k" for q k
    using s' assms(2) [of n] by (cases q) (auto simp: read1_def deref1_def)
  moreover have "rg1 \<sigma>' b = rg1 \<sigma> b" for b using s' assms(2) [of n] by (simp add: rg1_def)
  ultimately show ?thesis by blast
qed

lemma count_view [simp]: "read1 (\<sigma>\<lparr>elementsCount1 := c\<rparr>) = read1 \<sigma>" "rg1 (\<sigma>\<lparr>elementsCount1 := c\<rparr>) = rg1 \<sigma>"
  by (simp_all add: read1_def deref1_def rg1_def fun_eq_iff)

lemma rising_view: "read1 \<sigma>' = read1 \<sigma> \<and> rg1 \<sigma>' = rg1 \<sigma> \<Longrightarrow> rising \<sigma>' = rising \<sigma>"
  by (simp add: rising_def key1_def)

lemma track_view: "trackAndLock p k \<sigma> l = Some (\<sigma>', l') \<Longrightarrow> read1 \<sigma>' = read1 \<sigma> \<and> rg1 \<sigma>' = rg1 \<sigma>"
  by (erule trackAndLock_result) (simp_all add: update1_view)

lemma unlock_view: "unlockAll M op res \<sigma> l = Some (\<sigma>', l') \<Longrightarrow> read1 \<sigma>' = read1 \<sigma> \<and> rg1 \<sigma>' = rg1 \<sigma>"
  by (auto simp: unlockAll_def bind_eq_Some_conv update1_view split: if_splits)

lemma code_step1_view:
  assumes pc: "pc1 l \<notin> {NewNode, LinkNew, LinkPred, UnlinkWrite}" and s: "code_step1 M \<sigma> l = Some (\<sigma>', l')"
  shows "read1 \<sigma>' = read1 \<sigma> \<and> rg1 \<sigma>' = rg1 \<sigma>"
proof (cases "pc1 l")
  case (FindDone op)
  with s show ?thesis
    by (cases op) (auto simp: code_step1_def insert_found_def remove_found_def search_found_def bind_eq_Some_conv Let_def
        split: option.splits if_splits)
next
  case (FindWhile op)
  with s show ?thesis by (auto simp: code_step1_def find_while_def bind_eq_Some_conv Let_def split: if_splits)
next
  case (LockPred op)
  with s show ?thesis by (auto simp: code_step1_def track_view split: if_splits)
next
  case LockVictim
  with s show ?thesis by (auto simp: code_step1_def bind_eq_Some_conv dest!: track_view)
next
  case (Unlock op res)
  with s show ?thesis by (auto simp: code_step1_def dest!: unlock_view)
next
  case MarkVictim
  with s have "update1 \<sigma> (victim1 l) (\<lambda>n. n\<lparr>marked1 := True\<rparr>) = Some \<sigma>'"
    by (auto simp: code_step1_def bind_eq_Some_conv)
  then show ?thesis by (rule update1_view) simp
next
  case FullyLinked
  with s have "update1 \<sigma> (new1 l) (\<lambda>n. n\<lparr>fullyLinked1 := True\<rparr>) = Some \<sigma>'"
    by (auto simp: code_step1_def bind_eq_Some_conv)
  then show ?thesis by (rule update1_view) simp
qed (use s pc in \<open>auto simp: code_step1_def bind_eq_Some_conv find_level_def search_marked_def split: if_splits\<close>)

lemma rising_write:
  assumes "rising \<sigma>" "write1 \<sigma> (Some a) k (Some p) = Some \<sigma>'" "key1 \<sigma> a < key1 \<sigma> p"
  shows "rising \<sigma>'"
  using assms(1,3) write1_frame(4,6) [OF assms(2)] by (auto simp: rising_def key1_def)

lemma rising_alloc:
  assumes inv: "heap_inv1 M \<sigma>" and r: "rising \<sigma>"
  shows "rising (\<sigma>\<lparr>heap1 := (heap1 \<sigma>)(brk1 \<sigma> \<mapsto> createNode_V1 s e lvl), brk1 := b\<rparr>)" (is "rising ?s")
proof -
  have none: "heap1 \<sigma> (brk1 \<sigma>) = None" using heap_inv1D(1) [OF inv] by blast
  have rg: "rg1 ?s a = rg1 \<sigma> a" if "a \<noteq> brk1 \<sigma>" for a using that by (simp add: rg1_def)
  show ?thesis unfolding rising_def
  proof (intro allI impI)
    fix a k p assume rd: "read1 ?s (Some a) k = Some (Some p)"
    have a: "a \<noteq> brk1 \<sigma>"
      using rd by (auto simp: read1_def createNode_V1_def simp del: replicate_Suc split: if_splits)
    with rd have old: "read1 \<sigma> (Some a) k = Some (Some p)" by (simp add: read1_def)
    then have "p \<noteq> brk1 \<sigma>" using good_ref1_heap heap_inv1D(4) [OF inv old] none by blast
    with a old r show "key1 ?s a < key1 ?s p" by (simp add: key1_def rg rising_def)
  qed
qed

lemma pred_key:
  assumes "heap_inv1 M \<sigma>" "pred_at \<sigma> k s p" shows "snd (rg1 \<sigma> p) \<le> s"
  using assms sentinels1D(2) [OF assms(1)] by (auto simp: pred_at_def)

lemma code_step1_rising:
  assumes inv: "heap_inv1 M \<sigma>" and r: "rising \<sigma>" and ti: "thread_inv1 M \<sigma> v l" and oi: "order_inv1 M \<sigma> l"
    and s: "code_step1 M \<sigma> l = Some (\<sigma>', l')"
  shows "rising \<sigma>'"
proof -
  consider "pc1 l \<notin> {NewNode, LinkNew, LinkPred, UnlinkWrite}" | "pc1 l = NewNode" | "pc1 l = LinkNew"
    | "pc1 l = LinkPred" | "pc1 l = UnlinkWrite" by blast
  then show ?thesis
  proof cases
    case 1
    from rising_view [OF code_step1_view [OF this s]] r show ?thesis by blast
  next
    case 2
    with s rising_alloc [OF inv r] show ?thesis by (auto simp: code_step1_def)
  next
    case 3
    with ti have k: "locking1 M Inserting \<sigma> v l" "if lv1 l = 0 then private1 False \<sigma> l else published1 \<sigma> l"
      by (auto simp: thread_inv1_def linking1_def)
    from k(2) obtain a where a: "new1 l = Some a" "snd (rg1 \<sigma> a) = e_arg l"
      by (auto simp: private1_def published1_def split: if_splits)
    from locking1_at [OF k(1)] oi 3 obtain c where "succs1 l (lv1 l) = Some c" "e_arg l < snd (rg1 \<sigma> c)"
      by (auto simp: order_inv1_def room_above_def)
    moreover from this s 3 a(1) have "write1 \<sigma> (Some a) (lv1 l) (Some c) = Some \<sigma>'"
      by (auto simp: code_step1_def bind_eq_Some_conv)
    ultimately show ?thesis using rising_write [OF r] key1_lessI a(2) by metis
  next
    case 4
    with ti have k: "locking1 M Inserting \<sigma> v l" "if lv1 l = 0 then private1 True \<sigma> l else published1 \<sigma> l"
      and arg: "s_arg l \<le> e_arg l" by (auto simp: thread_inv1_def linking1_def legal_args1_def)
    from k(2) obtain a where a: "new1 l = Some a" "snd (rg1 \<sigma> a) = e_arg l"
      by (auto simp: private1_def published1_def split: if_splits)
    from locking1_at [OF k(1)] obtain p where p: "preds1 l (lv1 l) = Some p" "snd (rg1 \<sigma> p) \<le> s_arg l"
      and lv: "lv1 l \<le> M" using pred_key [OF inv] by metis
    have "p < a" using oi 4 p(1) a(1) lv by (auto simp: order_inv1_def older_preds_def)
    with p(2) arg a(2) have "key1 \<sigma> p < key1 \<sigma> a" by (auto simp: key1_less)
    moreover from s 4 a(1) p(1) have "write1 \<sigma> (Some p) (lv1 l) (Some a) = Some \<sigma>'"
      by (auto simp: code_step1_def bind_eq_Some_conv)
    ultimately show ?thesis using rising_write [OF r] by metis
  next
    case 5
    with ti have k: "locking1 M Removing \<sigma> v l" by (simp add: thread_inv1_def)
    from locking1_at [OF k] obtain p where p: "preds1 l (lv1 l) = Some p" "snd (rg1 \<sigma> p) \<le> s_arg l"
      using pred_key [OF inv] by metis
    from oi 5 obtain c q where q: "victim1 l = Some c" "next_val l = Some q" "key1 \<sigma> c < key1 \<sigma> q"
      by (auto simp: order_inv1_def)
    from k q(1) have "s_arg l < snd (rg1 \<sigma> c)" by (auto simp: locking1_def target1_def)
    with p(2) have "key1 \<sigma> p < key1 \<sigma> c" by (auto simp: key1_less)
    then have "key1 \<sigma> p < key1 \<sigma> q" using q(3) by (rule less_trans)
    moreover from s 5 p(1) q(2) have "write1 \<sigma> (Some p) (lv1 l) (Some q) = Some \<sigma>'"
      by (auto simp: code_step1_def bind_eq_Some_conv)
    ultimately show ?thesis using rising_write [OF r] by blast
  qed
qed

subsection \<open>Locked mutexes\<close>

lemma update1_locked:
  assumes "update1 \<sigma> p f = Some \<sigma>'" "\<And>n. mutex1 (f n) = mutex1 n"
  shows "locked1 \<sigma>' = locked1 \<sigma>"
proof -
  from assms(1) obtain a n where s': "heap1 \<sigma> a = Some n" "\<sigma>' = \<sigma>\<lparr>heap1 := (heap1 \<sigma>)(a \<mapsto> f n)\<rparr>"
    by (auto simp: update1_def bind_eq_Some_conv)
  have "locked1 \<sigma>' b = locked1 \<sigma> b" for b using s' assms(2) [of n] by (simp add: locked1_def)
  then show ?thesis by blast
qed

lemma write1_locked:
  assumes "write1 \<sigma> p k q = Some \<sigma>'" shows "locked1 \<sigma>' = locked1 \<sigma>"
  using assms by (auto simp: write1_def bind_eq_Some_conv intro: update1_locked split: if_splits)

lemma update1_mutex:
  assumes "update1 \<sigma> (Some a) (\<lambda>n. n\<lparr>mutex1 := b\<rparr>) = Some \<sigma>'"
  shows "locked1 \<sigma>' = (locked1 \<sigma>)(a := b)"
  using assms by (auto simp: update1_Some locked1_def fun_eq_iff)

lemma alloc_locked:
  assumes "heap_inv1 M \<sigma>"
  shows "locked1 (\<sigma>\<lparr>heap1 := (heap1 \<sigma>)(brk1 \<sigma> \<mapsto> createNode_V1 s e lvl), brk1 := b\<rparr>) = locked1 \<sigma>"
  using heap_inv1D(1) [OF assms, of "brk1 \<sigma>"] by (auto simp: locked1_def createNode_V1_def fun_eq_iff)

lemma count_locked [simp]: "locked1 (\<sigma>\<lparr>elementsCount1 := c\<rparr>) = locked1 \<sigma>"
  by (simp add: locked1_def fun_eq_iff)

text \<open>What the thread has locked and the others have locked, behind a step.\<close>

definition holders_ok :: "'t lock1 \<Rightarrow> 't locals1 \<Rightarrow> 't lock1 \<Rightarrow> 't locals1 \<Rightarrow> bool" where
  "holders_ok \<sigma> l \<sigma>' l' \<longleftrightarrow>
     (\<forall>a. locked1 \<sigma>' a \<longrightarrow> a \<in> set (tracked l') \<or> locked1 \<sigma> a \<and> a \<notin> set (tracked l))"

lemma holders_same: "locked1 \<sigma>' = locked1 \<sigma> \<Longrightarrow> tracked l' = tracked l \<Longrightarrow> holders_ok \<sigma> l \<sigma>' l'"
  by (simp add: holders_ok_def)

lemma track_holders:
  assumes "trackAndLock p k \<sigma> l = Some (\<sigma>', l')" "tracked l0 = tracked l"
  shows "holders_ok \<sigma> l0 \<sigma>' l'"
  using assms(1)
proof (cases rule: trackAndLock_result)
  case (3 a)
  from update1_mutex [OF 3(3) [unfolded 3(1)]] show ?thesis using assms(2) 3(2) by (auto simp: holders_ok_def)
qed (use assms(2) in \<open>simp_all add: holders_ok_def\<close>)

lemma unlock_holders:
  assumes "unlockAll M op res \<sigma> l = Some (\<sigma>', l')"
  shows "holders_ok \<sigma> l \<sigma>' l'"
proof (cases "tracked l = []")
  case True
  with assms show ?thesis by (auto simp: unlockAll_def holders_ok_def)
next
  case False
  with assms have u: "update1 \<sigma> (Some (last (tracked l))) (\<lambda>n. n\<lparr>mutex1 := False\<rparr>) = Some \<sigma>'"
    and l': "l' = l\<lparr>tracked := butlast (tracked l)\<rparr>" by (auto simp: unlockAll_def bind_eq_Some_conv)
  from False have "set (tracked l) = insert (last (tracked l)) (set (butlast (tracked l)))"
    by (metis append_butlast_last_id list.simps(15) rotate1.simps(2) set_rotate1)
  then show ?thesis using update1_mutex [OF u] l' by (auto simp: holders_ok_def)
qed

lemma code_step1_holders:
  assumes inv: "heap_inv1 M \<sigma>" and s: "code_step1 M \<sigma> l = Some (\<sigma>', l')"
  shows "holders_ok \<sigma> l \<sigma>' l'"
proof (cases "pc1 l")
  case (FindDone op)
  with s show ?thesis
    by (cases op) (auto simp: code_step1_def insert_found_def remove_found_def search_found_def bind_eq_Some_conv Let_def
        intro!: holders_same split: option.splits if_splits)
next
  case (FindWhile op)
  with s show ?thesis
    by (auto simp: code_step1_def find_while_def bind_eq_Some_conv Let_def intro!: holders_same split: if_splits)
next
  case (LockPred op)
  with s show ?thesis by (auto simp: code_step1_def intro: track_holders split: if_splits)
next
  case LockVictim
  with s show ?thesis by (auto simp: code_step1_def bind_eq_Some_conv intro: track_holders)
next
  case (Unlock op res)
  with s show ?thesis by (auto simp: code_step1_def dest!: unlock_holders)
next
  case NewNode
  with s alloc_locked [OF inv] show ?thesis by (auto simp: code_step1_def intro!: holders_same)
next
  case MarkVictim
  with s have "update1 \<sigma> (victim1 l) (\<lambda>n. n\<lparr>marked1 := True\<rparr>) = Some \<sigma>'" "tracked l' = tracked l"
    by (auto simp: code_step1_def bind_eq_Some_conv)
  with update1_locked [OF this(1)] show ?thesis by (simp add: holders_same)
next
  case FullyLinked
  with s have "update1 \<sigma> (new1 l) (\<lambda>n. n\<lparr>fullyLinked1 := True\<rparr>) = Some \<sigma>'" "tracked l' = tracked l"
    by (auto simp: code_step1_def bind_eq_Some_conv)
  with update1_locked [OF this(1)] show ?thesis by (simp add: holders_same)
next
  case LinkNew
  with s write1_locked show ?thesis by (auto simp: code_step1_def bind_eq_Some_conv intro!: holders_same)
next
  case LinkPred
  with s write1_locked show ?thesis by (auto simp: code_step1_def bind_eq_Some_conv intro!: holders_same)
next
  case UnlinkWrite
  with s write1_locked show ?thesis by (auto simp: code_step1_def bind_eq_Some_conv intro!: holders_same)
qed (use s in \<open>auto simp: code_step1_def bind_eq_Some_conv find_level_def search_marked_def level_valid_def
      intro!: holders_same split: if_splits\<close>)

end
