(* ===== verification/V1_Liveness.thy ===== *)
theory V1_Liveness
  imports V1_Deadlock
begin

text \<open>
  No deadlock in the v1 lock: whenever some thread is inside an operation, some thread inside an
  operation can step.
\<close>

subsection \<open>Waiting\<close>

definition waits_for :: "'t lock1 \<Rightarrow> 't locals1 \<Rightarrow> addr1 \<Rightarrow> bool" where
  "waits_for \<sigma> l a \<longleftrightarrow> (pc1 l = LockVictim \<and> victim1 l = Some a \<or>
     (\<exists>op. pc1 l = LockPred op) \<and> preds1 l (lv1 l) = Some a) \<and> locked1 \<sigma> a \<and> a \<notin> set (tracked l)"

definition active1 :: "'t locals1 \<Rightarrow> bool" where
  "active1 l \<longleftrightarrow> \<not> at_rest1 l \<and> pc1 l \<noteq> Exited1"

lemma track_stuck:
  assumes "trackAndLock p k \<sigma> l = Some (\<sigma>', l')" "pc1 l' \<noteq> k"
  obtains a where "p = Some a" "locked1 \<sigma> a" "a \<notin> set (tracked l)"
  using assms by (cases rule: trackAndLock_result) auto

lemma find_while_moves:
  assumes oi: "order_inv1 M \<sigma> l" and pc: "pc1 l = FindWhile op" and s: "find_while op \<sigma> l = Some (\<sigma>', l')"
  shows "l' \<noteq> l"
proof -
  from oi pc obtain p c where c: "pred1 l = Some p" "curr1 l = Some c" "heap1 \<sigma> c \<noteq> None" "key1 \<sigma> p < key1 \<sigma> c"
    by (auto simp: order_inv1_def)
  then have ne: "pred1 l \<noteq> curr1 l" by auto
  from c(3) obtain n where n: "heap1 \<sigma> c = Some n" by auto
  have "pred1 l' = curr1 l \<or> pc1 l' \<noteq> pc1 l"
    using s c(2) n pc by (auto simp: find_while_def bind_eq_Some_conv Let_def split: if_splits)
  with ne show ?thesis by auto
qed

text \<open>Every step changes the place in the code, but for the search, the unlocking and the waiting.\<close>

lemma other_step_moves:
  assumes "active1 l" "\<nexists>op. pc1 l = FindWhile op" "\<nexists>op. pc1 l = LockPred op" "pc1 l \<noteq> LockVictim"
    "pc1 l \<noteq> Crashed1" and s: "code_step1 M \<sigma> l = Some (\<sigma>', l')"
  shows "l' \<noteq> l"
proof (cases "\<exists>op res. pc1 l = Unlock op res \<and> tracked l \<noteq> []")
  case True
  then obtain op res where u: "pc1 l = Unlock op res" "tracked l \<noteq> []" by blast
  with s have "tracked l' = butlast (tracked l)" by (auto simp: code_step1_def unlockAll_def bind_eq_Some_conv)
  moreover have "butlast (tracked l) \<noteq> tracked l" using u(2) by (metis append_butlast_last_id not_Cons_self2 self_append_conv)
  ultimately show ?thesis by metis
next
  case False
  have "pc1 l' \<noteq> pc1 l"
  proof (cases "pc1 l")
    case (FindDone op)
    with s show ?thesis
      by (cases op) (auto simp: code_step1_def insert_found_def remove_found_def search_found_def start_find_def
          bind_eq_Some_conv Let_def split: option.splits if_splits)
  next
    case (Unlock op res)
    with s False show ?thesis by (auto simp: code_step1_def unlockAll_def start_find_def split: option.splits if_splits)
  next
    case (ValNext op)
    with s show ?thesis
      by (auto simp: code_step1_def bind_eq_Some_conv level_valid_def split: if_splits)
  next
    case (ValPred op)
    with s show ?thesis by (auto simp: code_step1_def bind_eq_Some_conv split: if_splits)
  qed (use assms in \<open>auto simp: active1_def at_rest1_def code_step1_def find_level_def search_marked_def bind_eq_Some_conv
        split: if_splits\<close>)
  then show ?thesis by auto
qed

lemma stuck_waits:
  assumes inv: "heap_inv1 M \<sigma>" and ti: "thread_inv1 M \<sigma> v l" and oi: "order_inv1 M \<sigma> l"
    and act: "active1 l" and stuck: "step1 M \<sigma> l = (\<sigma>, l)"
  obtains a where "waits_for \<sigma> l a"
proof -
  from code_step1_ok [OF inv ti] stuck have s: "code_step1 M \<sigma> l = Some (\<sigma>, l)"
    by (auto simp: step_ok1_def step1_def)
  have "pc1 l \<noteq> Crashed1" using ti by (auto simp: thread_inv1_def)
  with other_step_moves [OF act _ _ _ _ s] consider op where "pc1 l = FindWhile op" | op where "pc1 l = LockPred op"
    | "pc1 l = LockVictim" by blast
  then show thesis
  proof cases
    case 1
    with find_while_moves [OF oi 1] s show thesis by (simp add: code_step1_def)
  next
    case 2
    with s have "trackAndLock (preds1 l (lv1 l)) (ValPred op) \<sigma> l = Some (\<sigma>, l)"
      by (simp add: code_step1_def split: if_splits)
    then show thesis using that 2 by (auto elim!: track_stuck simp: waits_for_def)
  next
    case 3
    with s obtain j where t: "trackAndLock (victim1 l) CheckVictim \<sigma> (l\<lparr>top_lv := j\<rparr>) = Some (\<sigma>, l)"
      by (auto simp: code_step1_def bind_eq_Some_conv)
    from track_stuck [OF t] 3 that show thesis by (auto simp: waits_for_def)
  qed
qed

text \<open>A thread waits for a node in front of the nodes it has locked.\<close>

lemma waits_below:
  assumes inv: "heap_inv1 M \<sigma>" and ti: "thread_inv1 M \<sigma> v l" and oi: "order_inv1 M \<sigma> l"
    and w: "waits_for \<sigma> l a" and b: "b \<in> set (tracked l)"
  shows "key1 \<sigma> a < key1 \<sigma> b"
proof -
  from w ti b obtain op where pc: "pc1 l = LockPred op" and a: "preds1 l (lv1 l) = Some a" "a \<notin> set (tracked l)"
    by (auto simp: waits_for_def thread_inv1_def)
  from oi pc have o: "falling M 0 \<sigma> l" "locked_below op (lv1 l) l" by (simp_all add: order_inv1_def)
  from ti pc have lk: "locking1 M op \<sigma> v l" and op: "op \<noteq> Searching" by (simp_all add: thread_inv1_def)
  then have lv: "lv1 l \<le> M" by (auto simp: locking1_def)
  from o(2) b consider i where "i < lv1 l" "preds1 l i = Some b" | "op = Removing" "victim1 l = Some b"
    by (auto simp: locked_below_def)
  then show ?thesis
  proof cases
    case 1
    with o(1) lv a(1) have "below1 \<sigma> (Some a) (Some b)" unfolding falling_def by (metis le_eq_less_or_eq zero_le)
    with a(2) b show ?thesis by (auto simp: below1_def)
  next
    case 2
    with lk have "s_arg l < snd (rg1 \<sigma> b)" by (auto simp: locking1_def target1_def)
    moreover from locking1_at [OF lk] a(1) have "snd (rg1 \<sigma> a) \<le> s_arg l" using pred_key [OF inv] by (metis option.inject)
    ultimately show ?thesis by (auto simp: key1_less)
  qed
qed

subsection \<open>All threads\<close>

definition live_inv1 :: "nat \<Rightarrow> ('t::{linorder,order_bot,order_top}) system1 \<Rightarrow> bool" where
  "live_inv1 M S \<longleftrightarrow> system_inv1 M S \<and> rising (lock1_of S) \<and> (\<forall>t. order_inv1 M (lock1_of S) (threads1 S t)) \<and>
     (\<forall>a. locked1 (lock1_of S) a \<longrightarrow> (\<exists>t. a \<in> set (tracked (threads1 S t))))"

lemma init_live_inv1: "live_inv1 M (init_system1 M :: ('t::{linorder,order_bot,order_top}) system1)"
proof -
  let ?s = "ConcurrentRangeLock_V1 M :: 't lock1"
  have rd: "read1 ?s (Some a) k = Some (Some p) \<Longrightarrow> a = 0 \<and> p = 1" for a k p
    by (auto simp: read1_def ConcurrentRangeLock_V1_def Let_def createNode_V1_def nth_append
        simp del: upt_Suc replicate_Suc split: if_splits)
  have "snd (rg1 ?s 0) = bot" "snd (rg1 ?s 1) = top"
    by (simp_all add: rg1_def ConcurrentRangeLock_V1_def Let_def createNode_V1_def)
  moreover have "(bot :: 't) < top \<or> (bot :: 't) = top" by (metis bot_least le_neq_trans)
  ultimately have "key1 ?s 0 < key1 ?s 1" by (auto simp: key1_less)
  then have "rising ?s" by (auto simp: rising_def dest: rd)
  moreover have "\<not> locked1 ?s a" for a
    by (simp add: locked1_def ConcurrentRangeLock_V1_def Let_def createNode_V1_def)
  ultimately show ?thesis
    using init_system_inv1 [of M] by (simp add: live_inv1_def init_system1_def order_inv1_def fresh_locals1_def)
qed

lemma step1_keeps_live:
  assumes inv: "live_inv1 M S"
  shows "live_inv1 M (do_event1 M (Step1 t) S)"
proof -
  let ?\<sigma> = "lock1_of S" and ?l = "threads1 S t"
  from inv have sys: "system_inv1 M S" and r: "rising ?\<sigma>" and oi: "\<And>u. order_inv1 M ?\<sigma> (threads1 S u)"
    and lk: "\<And>a. locked1 ?\<sigma> a \<Longrightarrow> \<exists>u. a \<in> set (tracked (threads1 S u))" by (auto simp: live_inv1_def)
  note h = system_inv1D(1) [OF sys]
  from system_inv1D(2) [OF sys] obtain v where ti: "thread_inv1 M ?\<sigma> v ?l" by blast
  from code_step1_ok [OF h ti] obtain \<sigma>' l' where s: "code_step1 M ?\<sigma> ?l = Some (\<sigma>', l')"
    and ev: "evolves1 (set (tracked ?l)) (owned1 ?l) (set_option v) ?\<sigma> \<sigma>'" by (auto simp: step_ok1_def)
  let ?S = "do_event1 M (Step1 t) S"
  have S': "lock1_of ?S = \<sigma>'" "threads1 ?S = (threads1 S)(t := l')" using s by (simp_all add: step1_def set_thread_def)
  have "system_inv1 M ?S" by (rule step1_keeps [OF sys])
  moreover have "rising \<sigma>'" by (rule code_step1_rising [OF h r ti oi s])
  moreover have "order_inv1 M \<sigma>' (threads1 ?S u)" for u
    unfolding S' using order_inv1_stable [OF ev] oi code_step1_order [OF h r ti oi s] by simp
  moreover have "\<exists>u. a \<in> set (tracked (threads1 ?S u))" if "locked1 \<sigma>' a" for a
  proof -
    from code_step1_holders [OF h s] that
    consider "a \<in> set (tracked l')" | "locked1 ?\<sigma> a" "a \<notin> set (tracked ?l)" by (auto simp: holders_ok_def)
    then show ?thesis
    proof cases
      case 1
      then show ?thesis unfolding S' by (intro exI [of _ t]) simp
    next
      case 2
      from lk [OF 2(1)] obtain u where "a \<in> set (tracked (threads1 S u))" ..
      with 2(2) show ?thesis unfolding S' by (intro exI [of _ u]) auto
    qed
  qed
  ultimately show ?thesis unfolding live_inv1_def S' by blast
qed

lemma call_keeps_live:
  assumes "live_inv1 M S" "system_inv1 M (set_thread t l' S)" "order_inv1 M (lock1_of S) l'"
    "tracked l' = tracked (threads1 S t)"
  shows "live_inv1 M (set_thread t l' S)"
proof -
  have "tracked (((threads1 S)(t := l')) u) = tracked (threads1 S u)" for u using assms(4) by simp
  with assms show ?thesis by (simp add: live_inv1_def set_thread_def)
qed

lemma event_keeps_live:
  assumes "0 < M" "live_inv1 M S" "legal_event1 ev"
  shows "live_inv1 M (do_event1 M ev S)"
proof -
  from assms(2) have "system_inv1 M S" by (simp add: live_inv1_def)
  from event_keeps1 [OF assms(1) this assms(3)] have sys: "system_inv1 M (do_event1 M ev S)" .
  show ?thesis
  proof (cases ev)
    case (Step1 t)
    with step1_keeps_live [OF assms(2)] show ?thesis by simp
  next
    case (CallTry1 t s e rnd)
    with sys assms show ?thesis
      by (auto simp: call_tryLock1_def intro!: call_keeps_live start_find_order)
  next
    case (CallRelease1 t s e)
    with sys assms show ?thesis
      by (auto simp: call_releaseLock1_def intro!: call_keeps_live start_find_order)
  next
    case (CallSearch1 t s e)
    with sys assms show ?thesis
      by (auto simp: call_searchLock1_def intro!: call_keeps_live start_find_order)
  qed
qed

lemma run_keeps_live:
  "0 < M \<Longrightarrow> list_all legal_event1 evs \<Longrightarrow> live_inv1 M S \<Longrightarrow> live_inv1 M (run_events1 M evs S)"
  by (induction evs arbitrary: S) (auto simp: run_events1_def intro: event_keeps_live)

lemma finite_min_key:
  assumes "finite A" "A \<noteq> {}"
  obtains a where "a \<in> A" "\<And>b. b \<in> A \<Longrightarrow> \<not> f b < (f a :: 'k::linorder)"
proof -
  have "Min (f ` A) \<in> f ` A" using assms by simp
  then obtain a where "a \<in> A" "f a = Min (f ` A)" by force
  with assms(1) that show thesis by (metis Min_le finite_imageI image_eqI leD)
qed

lemma live_not_stuck:
  assumes inv: "live_inv1 M S" and t: "active1 (threads1 S t)"
  shows "\<exists>u. active1 (threads1 S u) \<and> (\<nexists>a. waits_for (lock1_of S) (threads1 S u) a) \<and>
    step1 M (lock1_of S) (threads1 S u) \<noteq> (lock1_of S, threads1 S u)"
proof (rule ccontr)
  assume stuck: "\<not> ?thesis"
  let ?\<sigma> = "lock1_of S"
  from inv have sys: "system_inv1 M S" and oi: "\<And>u. order_inv1 M ?\<sigma> (threads1 S u)"
    and lk: "\<And>a. locked1 ?\<sigma> a \<Longrightarrow> \<exists>u. a \<in> set (tracked (threads1 S u))" by (auto simp: live_inv1_def)
  note h = system_inv1D(1) [OF sys]
  define W where "W = {a. \<exists>u. waits_for ?\<sigma> (threads1 S u) a}"
  have waits: "\<exists>a. waits_for ?\<sigma> (threads1 S u) a" if "active1 (threads1 S u)" for u
    using stuck_waits [OF h _ oi that] system_inv1D(2) [OF sys, of u] stuck that by metis
  have "W \<subseteq> {a. a < brk1 ?\<sigma>}"
    using heap_inv1D(1) [OF h] by (auto simp: W_def waits_for_def locked1_def split: option.splits)
  then have "finite W" by (rule finite_subset) simp
  moreover have "W \<noteq> {}" using waits [OF t] by (auto simp: W_def)
  ultimately obtain a where a: "a \<in> W" "\<And>b. b \<in> W \<Longrightarrow> \<not> key1 ?\<sigma> b < key1 ?\<sigma> a"
    using finite_min_key [of W "key1 ?\<sigma>"] by blast
  from a(1) have "locked1 ?\<sigma> a" by (auto simp: W_def waits_for_def)
  from lk [OF this] obtain u where u: "a \<in> set (tracked (threads1 S u))" ..
  from system_inv1D(2) [OF sys] obtain v where ti: "thread_inv1 M ?\<sigma> v (threads1 S u)" by blast
  have "active1 (threads1 S u)"
    using u ti rest_thread_inv [OF ti] by (auto simp: active1_def thread_inv1_def)
  from waits [OF this] obtain b where b: "waits_for ?\<sigma> (threads1 S u) b" ..
  then have "b \<in> W" by (auto simp: W_def)
  with a(2) waits_below [OF h ti oi b u] show False by blast
qed

subsection \<open>Properties\<close>

text \<open>
  C33. The v1 lock does not deadlock: in every state that the legal calls (ranges of one point included)
  and the interleavings of any number of threads lead to, for every positive \<open>maxLevel\<close>, if a thread
  is inside an operation then some thread inside an operation does not wait for a node locked by
  another, and its next step changes its state or the memory.
\<close>
theorem v1_deadlock_free:
  assumes "list_all legal_event1 evs" "0 < M"
    and "S = run_events1 M evs (init_system1 M)"
    and "\<not> at_rest1 (threads1 S t)" "pc1 (threads1 S t) \<noteq> Exited1"
  shows "\<exists>u. \<not> at_rest1 (threads1 S u) \<and> pc1 (threads1 S u) \<noteq> Exited1 \<and>
    (\<nexists>a. waits_for (lock1_of S) (threads1 S u) a) \<and>
    step1 M (lock1_of S) (threads1 S u) \<noteq> (lock1_of S, threads1 S u)"
  using live_not_stuck [OF run_keeps_live [OF assms(2,1) init_live_inv1], of t] assms(3-5)
  by (auto simp: active1_def)

theorem v1_deadlock_free_witness:
  "let S = run_events1 1 (CallTry1 0 5 5 (\<lambda>_. 0) # CallTry1 1 20 (30 :: 16 word) (\<lambda>_. 0) #
      replicate 9 (Step1 0) @ replicate 12 (Step1 1)) (init_system1 1)
   in waits_for (lock1_of S) (threads1 S 1) 0 \<and>
     (\<exists>u. \<not> at_rest1 (threads1 S u) \<and> pc1 (threads1 S u) \<noteq> Exited1 \<and>
       (\<nexists>a. waits_for (lock1_of S) (threads1 S u) a) \<and>
       step1 1 (lock1_of S) (threads1 S u) \<noteq> (lock1_of S, threads1 S u))"
proof -
  let ?evs = "CallTry1 0 5 5 (\<lambda>_. 0) # CallTry1 1 20 (30 :: 16 word) (\<lambda>_. 0) #
    replicate 9 (Step1 0) @ replicate 12 (Step1 1)"
  let ?S = "run_events1 1 ?evs (init_system1 1)"
  have e: "list_all legal_event1 ?evs" by code_simp
  have "pc1 (threads1 ?S 1) = LockPred Inserting" "preds1 (threads1 ?S 1) (lv1 (threads1 ?S 1)) = Some 0"
    "locked1 (lock1_of ?S) 0" "tracked (threads1 ?S 1) = []" by code_simp+
  moreover from this(1) have "\<not> at_rest1 (threads1 ?S 1)" "pc1 (threads1 ?S 1) \<noteq> Exited1"
    by (simp_all add: at_rest1_def)
  note v1_deadlock_free [OF e zero_less_one refl this]
  ultimately show ?thesis by (simp only: Let_def waits_for_def) simp
qed

end
