(* ===== verification/V1_Display.thy ===== *)
theory V1_Display
  imports V1_Safety
begin

text \<open>
  \<open>displayList\<close> of \<open>src/v1/range_lock.hpp\<close>, as one thread runs it while no other does: the display
  as data, for each level from the highest down a cell per element, with the range for the nodes
  that reach the level. \<open>None\<close> is an uninitialised pointer followed, or the exception of a vector of
  negative length.
\<close>

datatype 't display1 = List_Is_Empty1 | Display_Levels1 "(nat \<times> 't range option list) list"

fun display_elements1 :: "nat \<Rightarrow> addr1 option \<Rightarrow> 't lock1 \<Rightarrow> 't node1 list option" where
  "display_elements1 0 current \<sigma> = Some []"
| "display_elements1 (Suc len) current \<sigma> = do {
     n \<leftarrow> deref1 \<sigma> current;
     q \<leftarrow> read1 \<sigma> current 0;
     ns \<leftarrow> display_elements1 len q \<sigma>;
     Some (n # ns) }"

definition displayList_v1 :: "nat \<Rightarrow> 't lock1 \<Rightarrow> 't display1 option" where
  "displayList_v1 maxLevel \<sigma> = do {
     current \<leftarrow> read1 \<sigma> (Some (head1 \<sigma>)) 0;
     if current = None then Some List_Is_Empty1
     else if 0x80000000 \<le> elementsCount1 \<sigma> then None
     else do {
       ns \<leftarrow> display_elements1 (unat (elementsCount1 \<sigma>)) current \<sigma>;
       Some (Display_Levels1 (map (\<lambda>i. (i, map (\<lambda>n. if i < getTopLevel1 n + 1
         then Some (getStart1 n, getEnd1 n) else None) ns)) (rev [0 ..< maxLevel + 1]))) } }"

text \<open>
  The test for the empty list never succeeds, since the head is linked to the tail: every lock that
  satisfies the heap invariant is displayed level by level, an empty one included.
\<close>

theorem v1_display_never_empty:
  assumes "heap_inv1 M \<sigma>"
  shows "displayList_v1 M \<sigma> \<noteq> Some List_Is_Empty1"
proof -
  have "tall1 \<sigma> (head1 \<sigma>) 0" "head1 \<sigma> \<noteq> tail1 \<sigma>" using sentinels1D [OF assms] by simp_all
  then obtain q where "read1 \<sigma> (Some (head1 \<sigma>)) 0 = Some (Some q)" by (auto simp: tall1_def)
  then show ?thesis by (auto simp: displayList_v1_def bind_eq_Some_conv)
qed

lemma v1_display_example:
  "displayList_v1 1 (lock1_of (run_events1 1 (CallTry1 0 20 (30 :: 16 word) (\<lambda>_. 1) # replicate 24 (Step1 0))
     (init_system1 1))) = Some (Display_Levels1 [(1, [Some (20, 30)]), (0, [Some (20, 30)])])"
  by code_simp

lemma v1_display_empty_example:
  "displayList_v1 1 (ConcurrentRangeLock_V1 1 :: (16 word) lock1) = Some (Display_Levels1 [(1, []), (0, [])])"
  by code_simp

end
