(* ===== verification/V1_Optimistic_Mutex.thy ===== *)
theory V1_Optimistic_Mutex
  imports RL_Prelude
begin

text \<open>
  \<open>OptimisticMutex\<close> of \<open>src/v1/node.hpp\<close>: a spin lock on a version counter that is odd while the
  mutex is held. The counter is the 32 bits of the \<open>int\<close>; \<open>fetch_add\<close> wraps around, and since
  the number of versions is even the wrap-around keeps the parity.
\<close>

unbundle bit_operations_syntax

subsection \<open>The operations\<close>

type_synonym version = "32 word"

text \<open>Where a thread is: in \<open>lock\<close> before the load, or before the exchange with the loaded version.\<close>

datatype place = Outside | AtLoad | AtExchange version | Holding

definition OptimisticMutex :: version where
  "OptimisticMutex = 0"

text \<open>One access of \<open>lock\<close>; the failed exchange and the odd version go back to the load.\<close>

fun optimistic_lock_step :: "version \<Rightarrow> place \<Rightarrow> version \<times> place" where
  "optimistic_lock_step v AtLoad = (v, if v AND 1 = 0 then AtExchange v else AtLoad)"
| "optimistic_lock_step v (AtExchange e) = (if v = e then (e + 1, Holding) else (v, AtLoad))"
| "optimistic_lock_step v p = (v, p)"

definition optimistic_unlock :: "version \<Rightarrow> version" where
  "optimistic_unlock v = v + 1"

subsection \<open>All threads\<close>

record mutex_system =
  version :: version
  places :: "nat \<Rightarrow> place"

datatype mutex_event = Enter nat | Access nat | Leave nat

fun mutex_do :: "mutex_event \<Rightarrow> mutex_system \<Rightarrow> mutex_system" where
  "mutex_do (Enter t) S = (if places S t = Outside then S\<lparr>places := (places S)(t := AtLoad)\<rparr> else S)"
| "mutex_do (Access t) S = (let (v, p) = optimistic_lock_step (version S) (places S t)
     in S\<lparr>version := v, places := (places S)(t := p)\<rparr>)"
| "mutex_do (Leave t) S = (if places S t = Holding
     then S\<lparr>version := optimistic_unlock (version S), places := (places S)(t := Outside)\<rparr> else S)"

definition mutex_init :: mutex_system where
  "mutex_init = \<lparr>version = OptimisticMutex, places = (\<lambda>_. Outside)\<rparr>"

definition mutex_run :: "mutex_event list \<Rightarrow> mutex_system \<Rightarrow> mutex_system" where
  "mutex_run evs S = fold mutex_do evs S"

inductive mutex_reachable :: "mutex_system \<Rightarrow> bool" where
  start: "mutex_reachable mutex_init"
| event: "mutex_reachable S \<Longrightarrow> mutex_reachable (mutex_do ev S)"

lemma mutex_run_reachable: "mutex_reachable S \<Longrightarrow> mutex_reachable (mutex_run evs S)"
  by (induction evs arbitrary: S) (auto simp: mutex_run_def intro: mutex_reachable.event)

subsection \<open>The parity invariant\<close>

text \<open>The version is odd exactly while one thread holds the mutex, and exchanges expect an even one.\<close>

definition mutex_inv :: "mutex_system \<Rightarrow> bool" where
  "mutex_inv S \<longleftrightarrow> (\<forall>t u. places S t = Holding \<and> places S u = Holding \<longrightarrow> t = u) \<and>
     (odd (version S) \<longleftrightarrow> (\<exists>t. places S t = Holding)) \<and>
     (\<forall>t e. places S t = AtExchange e \<longrightarrow> even e)"

lemma and_one_word: "v AND 1 = 0 \<longleftrightarrow> even (v :: version)"
  by (simp add: and_one_eq even_iff_mod_2_eq_zero)

lemma even_word_succ: "even (v + 1 :: version) \<longleftrightarrow> odd v"
  by simp

lemma holding_elsewhere:
  "places S t \<noteq> Holding \<Longrightarrow> p \<noteq> Holding \<Longrightarrow>
   (\<exists>u. ((places S)(t := p)) u = Holding) \<longleftrightarrow> (\<exists>u. places S u = Holding)"
  by (metis fun_upd_apply)

lemma mutex_do_keeps: "mutex_inv S \<Longrightarrow> mutex_inv (mutex_do ev S)"
proof (cases ev)
  case (Enter t)
  assume "mutex_inv S"
  with Enter holding_elsewhere [of S t AtLoad] show ?thesis by (auto simp: mutex_inv_def)
next
  case (Leave t)
  assume "mutex_inv S"
  with Leave show ?thesis by (auto simp: mutex_inv_def optimistic_unlock_def)
next
  case (Access t)
  assume inv: "mutex_inv S"
  show ?thesis
  proof (cases "places S t")
    case AtLoad
    with inv Access holding_elsewhere [of S t] show ?thesis by (auto simp: mutex_inv_def and_one_word)
  next
    case (AtExchange e)
    with inv Access holding_elsewhere [of S t] show ?thesis by (auto simp: mutex_inv_def)
  qed (use inv Access in \<open>auto simp: fun_upd_idem\<close>)
qed

lemma mutex_reachable_inv: "mutex_reachable S \<Longrightarrow> mutex_inv S"
  by (induction rule: mutex_reachable.induct)
    (auto simp: mutex_do_keeps, simp add: mutex_inv_def mutex_init_def OptimisticMutex_def)

text \<open>With no holder, a thread in \<open>lock\<close> holds the mutex after at most three accesses of its own.\<close>

lemma mutex_access_from_load:
  assumes "even (version S)" "places S t = AtLoad"
  shows "places (mutex_do (Access t) (mutex_do (Access t) S)) t = Holding"
  using assms by (simp add: and_one_word)

lemma mutex_solo:
  assumes "even (version S)" "places S t = AtLoad \<or> places S t = AtExchange e"
  obtains n where "n \<le> 3" "places (mutex_run (replicate n (Access t)) S) t = Holding"
proof -
  consider "places S t = AtLoad" | "places S t = AtExchange e" "version S = e"
    | "places S t = AtExchange e" "version S \<noteq> e" using assms(2) by blast
  then show thesis
  proof cases
    case 1
    from that [of 2] mutex_access_from_load [OF assms(1) this] show thesis
      by (simp add: mutex_run_def numeral_2_eq_2)
  next
    case 2
    with that [of 1] show thesis by (simp add: mutex_run_def)
  next
    case 3
    let ?S = "mutex_do (Access t) S"
    have "even (version ?S)" "places ?S t = AtLoad" using 3 assms(1) by simp_all
    from mutex_access_from_load [OF this] that [of 3] show thesis
      by (simp add: mutex_run_def numeral_3_eq_3)
  qed
qed

subsection \<open>Properties\<close>

text \<open>
  C35. The optimistic mutex is a mutex that makes progress, whatever the interleaving: no two threads
  are between the return of \<open>lock\<close> and their \<open>unlock\<close>, and whenever a thread is inside \<open>lock\<close>, either
  some thread holds the mutex or this thread gets it within three accesses of its own.
\<close>
theorem optimistic_mutex_correct:
  assumes "mutex_reachable S"
  shows "(\<forall>t u. places S t = Holding \<and> places S u = Holding \<longrightarrow> t = u) \<and>
    (\<forall>t. places S t \<noteq> Outside \<longrightarrow> (\<exists>u. places S u = Holding) \<or>
      (\<exists>n\<le>3. places (mutex_run (replicate n (Access t)) S) t = Holding))"
proof -
  note inv = mutex_reachable_inv [OF assms]
  have "\<exists>n\<le>3. places (mutex_run (replicate n (Access t)) S) t = Holding"
    if "places S t \<noteq> Outside" "\<nexists>u. places S u = Holding" for t
  proof -
    from inv that(2) have "even (version S)" by (auto simp: mutex_inv_def)
    moreover from that have "\<exists>e. places S t = AtLoad \<or> places S t = AtExchange e" by (cases "places S t") auto
    ultimately show ?thesis using mutex_solo by metis
  qed
  with inv show ?thesis unfolding mutex_inv_def by blast
qed

theorem optimistic_mutex_correct_witness:
  "\<exists>n\<le>3. places (mutex_run (replicate n (Access 1)) (mutex_run [Enter 0, Enter 1, Access 0, Access 1, Access 0, Leave 0]
     mutex_init)) 1 = Holding"
proof -
  let ?S = "mutex_run [Enter 0, Enter 1, Access 0, Access 1, Access 0, Leave 0] mutex_init"
  have "mutex_reachable ?S" by (rule mutex_run_reachable) (rule mutex_reachable.start)
  note c = optimistic_mutex_correct [OF this]
  have "places ?S t = (if t = 1 then AtExchange 0 else Outside)" for t
    by (simp add: mutex_run_def mutex_init_def OptimisticMutex_def optimistic_unlock_def)
  then have "places ?S 1 \<noteq> Outside" "\<nexists>u. places ?S u = Holding" by simp_all
  with c show ?thesis by blast
qed

end
