(* ===== verification/V2_List.thy ===== *)
theory V2_List
  imports V0_Markable_Reference
begin

text \<open>
  The linked-list range lock of \<open>src/v2/range_lock.cpp\<close>. A pointer that may carry the mark in
  its lowest bit is a cell, a pair of an optional node address and the mark; the code's two
  functions on raw pointers are given on cells and on machine words. The code is translated at
  the granularity of its atomic accesses: \<open>locals2\<close> are the local variables of a thread, \<open>pc2\<close>
  its place in the code, and \<open>step2\<close> runs it up to and including its next access.
\<close>

subsection \<open>Data\<close>

record lnode =
  l_start :: "64 word"
  l_end :: "64 word"
  l_next :: cell

definition LNode :: "64 word \<Rightarrow> 64 word \<Rightarrow> lnode" where
  "LNode s e = \<lparr>l_start = s, l_end = e, l_next = (None, False)\<rparr>"

text \<open>An atomic pointer of the list is the head or the \<open>next\<close> field of a node.\<close>

datatype loc = Head | Next addr

record list_rl =
  l_head :: cell
  l_count :: "64 word"
  l_heap :: "addr \<Rightarrow> lnode option"
  l_brk :: addr

definition ListRL :: list_rl where
  "ListRL = \<lparr>l_head = (None, False), l_count = 0, l_heap = (\<lambda>_. None), l_brk = 0\<rparr>"

definition size_v2 :: "list_rl \<Rightarrow> 64 word" where
  "size_v2 \<sigma> = l_count \<sigma>"

definition isMarked :: "cell \<Rightarrow> bool" where
  "isMarked c = snd c"

definition unmark :: "cell \<Rightarrow> cell" where
  "unmark c = (fst c, False)"

text \<open>The same on machine words, and the marking of \<open>DeleteNode\<close>.\<close>

definition isMarked_word :: "uintptr \<Rightarrow> bool" where
  "isMarked_word w \<longleftrightarrow> and w 1 \<noteq> 0"

definition unmark_word :: "uintptr \<Rightarrow> uintptr" where
  "unmark_word w = and w (not 1)"

definition mark_word :: "uintptr \<Rightarrow> uintptr" where
  "mark_word w = or w 1"

text \<open>A null \<open>lock1\<close> is \<open>None\<close>.\<close>

definition compare_nodes :: "lnode option \<Rightarrow> lnode \<Rightarrow> int" where
  "compare_nodes lock1 lock2 = (case lock1 of
       None \<Rightarrow> 1
     | Some n1 \<Rightarrow>
         if l_start n1 \<ge> l_end lock2 then 1
         else if l_start lock2 \<ge> l_end n1 then -1
         else 0)"

subsection \<open>Access to shared memory\<close>

definition load :: "list_rl \<Rightarrow> loc \<Rightarrow> cell option" where
  "load \<sigma> p = (case p of Head \<Rightarrow> Some (l_head \<sigma>) | Next a \<Rightarrow> map_option l_next (l_heap \<sigma> a))"

definition store_at :: "list_rl \<Rightarrow> loc \<Rightarrow> cell \<Rightarrow> list_rl option" where
  "store_at \<sigma> p c = (case p of
       Head \<Rightarrow> Some (\<sigma>\<lparr>l_head := c\<rparr>)
     | Next a \<Rightarrow> map_option (\<lambda>n. \<sigma>\<lparr>l_heap := (l_heap \<sigma>)(a \<mapsto> n\<lparr>l_next := c\<rparr>)\<rparr>) (l_heap \<sigma> a))"

definition cas_at :: "list_rl \<Rightarrow> loc \<Rightarrow> cell \<Rightarrow> cell \<Rightarrow> (bool \<times> list_rl) option" where
  "cas_at \<sigma> p expected desired = do {
     c \<leftarrow> load \<sigma> p;
     if c = expected then do { \<sigma>' \<leftarrow> store_at \<sigma> p desired; Some (True, \<sigma>') }
     else Some (False, \<sigma>) }"

subsection \<open>The state of a thread\<close>

datatype pc2 =
    Idle2
  | AStart | ALoop | AUnmark | ASnip | ACompare | ACas | AReload | ACount
  | AcqReturned bool
  | DLoad | DStore | DCount
  | DelReturned
  | Crashed2

record locals2 =
  pc2 :: pc2
  lock_node :: addr
  prev :: loc
  cur :: cell
  next_ptr :: cell
  currentNext :: cell

definition fresh_locals2 :: locals2 where
  "fresh_locals2 = \<lparr>pc2 = Idle2, lock_node = 0, prev = Head, cur = (None, False),
     next_ptr = (None, False), currentNext = (None, False)\<rparr>"

subsection \<open>InsertNode\<close>

type_synonym result2 = "(list_rl \<times> locals2) option"

text \<open>
  \<open>lock->next.store(cur)\<close> before the exchange that publishes \<open>lock\<close>.
\<close>

definition store_cur :: "list_rl \<Rightarrow> locals2 \<Rightarrow> result2" where
  "store_cur \<sigma> l = do {
     \<sigma>' \<leftarrow> store_at \<sigma> (Next (lock_node l)) (cur l);
     Some (\<sigma>', l\<lparr>pc2 := ACas\<rparr>) }"

fun insert_step :: "pc2 \<Rightarrow> list_rl \<Rightarrow> locals2 \<Rightarrow> result2" where
  "insert_step AStart \<sigma> l = do {
     c \<leftarrow> load \<sigma> Head;
     Some (\<sigma>, l\<lparr>prev := Head, cur := c, pc2 := ALoop\<rparr>) }"
| "insert_step ALoop \<sigma> l =
     (if isMarked (cur l) then Some (\<sigma>, l\<lparr>pc2 := AStart\<rparr>)
      else case fst (cur l) of
        None \<Rightarrow> store_cur \<sigma> l
      | Some c \<Rightarrow> do {
          x \<leftarrow> load \<sigma> (Next c);
          Some (\<sigma>, l\<lparr>pc2 := if isMarked x then AUnmark else ACompare\<rparr>) })"
| "insert_step AUnmark \<sigma> l = do {
     c \<leftarrow> fst (cur l);
     x \<leftarrow> load \<sigma> (Next c);
     Some (\<sigma>, l\<lparr>next_ptr := unmark x, pc2 := ASnip\<rparr>) }"
| "insert_step ASnip \<sigma> l = do {
     (_, \<sigma>') \<leftarrow> cas_at \<sigma> (prev l) (cur l) (next_ptr l);
     Some (\<sigma>', l\<lparr>cur := next_ptr l, pc2 := ALoop\<rparr>) }"
| "insert_step ACompare \<sigma> l = do {
     c \<leftarrow> fst (cur l);
     n \<leftarrow> l_heap \<sigma> c;
     m \<leftarrow> l_heap \<sigma> (lock_node l);
     let ret = compare_nodes (Some n) m;
     if ret = -1 then do {
       x \<leftarrow> load \<sigma> (Next c);
       Some (\<sigma>, l\<lparr>prev := Next c, cur := x, pc2 := ALoop\<rparr>) }
     else if ret = 0 then Some (\<sigma>, l\<lparr>pc2 := AcqReturned False\<rparr>)
     else store_cur \<sigma> l }"
| "insert_step ACas \<sigma> l = do {
     (ok, \<sigma>') \<leftarrow> cas_at \<sigma> (prev l) (cur l) (Some (lock_node l), False);
     Some (\<sigma>', l\<lparr>pc2 := if ok then ACount else AReload\<rparr>) }"
| "insert_step AReload \<sigma> l = do {
     c \<leftarrow> load \<sigma> (prev l);
     Some (\<sigma>, l\<lparr>cur := c, pc2 := ALoop\<rparr>) }"
| "insert_step ACount \<sigma> l =
     Some (\<sigma>\<lparr>l_count := l_count \<sigma> + 1\<rparr>, l\<lparr>pc2 := AcqReturned True\<rparr>)"
| "insert_step _ \<sigma> l = None"

subsection \<open>DeleteNode\<close>

fun delete_step :: "pc2 \<Rightarrow> list_rl \<Rightarrow> locals2 \<Rightarrow> result2" where
  "delete_step DLoad \<sigma> l = do {
     c \<leftarrow> load \<sigma> (Next (lock_node l));
     Some (\<sigma>, l\<lparr>currentNext := c, pc2 := DStore\<rparr>) }"
| "delete_step DStore \<sigma> l = do {
     \<sigma>' \<leftarrow> store_at \<sigma> (Next (lock_node l)) (fst (currentNext l), True);
     Some (\<sigma>', l\<lparr>pc2 := DCount\<rparr>) }"
| "delete_step DCount \<sigma> l =
     Some (\<sigma>\<lparr>l_count := l_count \<sigma> - 1\<rparr>, l\<lparr>pc2 := DelReturned\<rparr>)"
| "delete_step _ \<sigma> l = None"

definition code_step2 :: "list_rl \<Rightarrow> locals2 \<Rightarrow> result2" where
  "code_step2 \<sigma> l =
     (if pc2 l \<in> {Idle2, AcqReturned True, AcqReturned False, DelReturned, Crashed2} then Some (\<sigma>, l)
      else if pc2 l \<in> {DLoad, DStore, DCount} then delete_step (pc2 l) \<sigma> l
      else insert_step (pc2 l) \<sigma> l)"

definition step2 :: "list_rl \<Rightarrow> locals2 \<Rightarrow> list_rl \<times> locals2" where
  "step2 \<sigma> l = (case code_step2 \<sigma> l of Some r \<Rightarrow> r | None \<Rightarrow> (\<sigma>, l\<lparr>pc2 := Crashed2\<rparr>))"

subsection \<open>MutexRangeAcquire and MutexRangeRelease\<close>

text \<open>
  \<open>MutexRangeAcquire\<close> allocates the node and enters \<open>InsertNode\<close>; its result is a \<open>RangeLock\<close>
  with the node, or null. \<open>MutexRangeRelease\<close> enters \<open>DeleteNode\<close> with the node of its argument; a
  \<open>RangeLock *\<close> is \<open>None\<close> or the address of its node, and \<open>rl->node\<close> of the null pointer is a crash.
\<close>

definition MutexRangeAcquire :: "64 word \<Rightarrow> 64 word \<Rightarrow> list_rl \<Rightarrow> locals2 \<Rightarrow> list_rl \<times> locals2" where
  "MutexRangeAcquire s e \<sigma> l =
     (\<sigma>\<lparr>l_heap := (l_heap \<sigma>)(l_brk \<sigma> \<mapsto> LNode s e), l_brk := l_brk \<sigma> + 1\<rparr>,
      l\<lparr>lock_node := l_brk \<sigma>, pc2 := AStart\<rparr>)"

definition MutexRangeRelease :: "addr option \<Rightarrow> locals2 \<Rightarrow> locals2" where
  "MutexRangeRelease rl l = (case rl of
       None \<Rightarrow> l\<lparr>pc2 := Crashed2\<rparr>
     | Some a \<Rightarrow> l\<lparr>lock_node := a, pc2 := DLoad\<rparr>)"

subsection \<open>Threads\<close>

text \<open>
  \<open>granted\<close> holds the nodes of the \<open>RangeLock\<close>s the callers got and have not passed to
  \<open>MutexRangeRelease\<close> yet. An event is a call of \<open>MutexRangeAcquire\<close>, a call of \<open>MutexRangeRelease\<close> with
  any \<open>RangeLock *\<close>, a \<open>RangeLock\<close> with a new node that a caller makes itself, or a step of a thread.
\<close>

record system2 =
  lock2 :: list_rl
  threads2 :: "nat \<Rightarrow> locals2"
  granted :: "addr set"

datatype event2 =
    CallAcquire nat "64 word" "64 word"
  | CallRel nat "addr option"
  | MakeLock "64 word" "64 word"
  | Step2 nat

definition at_rest2 :: "locals2 \<Rightarrow> bool" where
  "at_rest2 l \<longleftrightarrow> (case pc2 l of Idle2 \<Rightarrow> True | AcqReturned _ \<Rightarrow> True | DelReturned \<Rightarrow> True | _ \<Rightarrow> False)"

fun do_event2 :: "event2 \<Rightarrow> system2 \<Rightarrow> system2" where
  "do_event2 (CallAcquire t s e) S =
     (if at_rest2 (threads2 S t)
      then let (\<sigma>', l') = MutexRangeAcquire s e (lock2 S) (threads2 S t)
           in S\<lparr>lock2 := \<sigma>', threads2 := (threads2 S)(t := l')\<rparr>
      else S)"
| "do_event2 (CallRel t rl) S =
     (if at_rest2 (threads2 S t)
      then S\<lparr>threads2 := (threads2 S)(t := MutexRangeRelease rl (threads2 S t)),
             granted := granted S - set_option rl\<rparr>
      else S)"
| "do_event2 (MakeLock s e) S = S\<lparr>lock2 := fst (MutexRangeAcquire s e (lock2 S) fresh_locals2)\<rparr>"
| "do_event2 (Step2 t) S =
     (let (\<sigma>', l') = step2 (lock2 S) (threads2 S t)
      in S\<lparr>lock2 := \<sigma>', threads2 := (threads2 S)(t := l'),
           granted := granted S \<union>
             (if pc2 (threads2 S t) = ACount then {lock_node (threads2 S t)} else {})\<rparr>)"

definition init_system2 :: system2 where
  "init_system2 = \<lparr>lock2 = ListRL, threads2 = (\<lambda>_. fresh_locals2), granted = {}\<rparr>"

definition run_events2 :: "event2 list \<Rightarrow> system2 \<Rightarrow> system2" where
  "run_events2 evs S = fold do_event2 evs S"

text \<open>
  What a caller has to keep to: it asks for ranges that are not empty, and it releases a \<open>RangeLock\<close> it
  was granted, once.
\<close>

fun legal_event2 :: "event2 \<Rightarrow> bool" where
  "legal_event2 (CallAcquire t s e) \<longleftrightarrow> s < e"
| "legal_event2 (CallRel t rl) \<longleftrightarrow> True"
| "legal_event2 (MakeLock s e) \<longleftrightarrow> s < e"
| "legal_event2 (Step2 t) \<longleftrightarrow> True"

fun may_release2 :: "event2 \<Rightarrow> system2 \<Rightarrow> bool" where
  "may_release2 (CallRel t rl) S \<longleftrightarrow> (case rl of None \<Rightarrow> False | Some a \<Rightarrow> a \<in> granted S)"
| "may_release2 ev S \<longleftrightarrow> True"

text \<open>
  An event is undisturbed when it is not the store of a \<open>DeleteNode\<close> that finds another value
  than its load read: the two accesses then amount to one atomic exchange.
\<close>

fun undisturbed :: "event2 \<Rightarrow> system2 \<Rightarrow> bool" where
  "undisturbed (Step2 t) S \<longleftrightarrow>
     (let l = threads2 S t
      in pc2 l = DStore \<longrightarrow> load (lock2 S) (Next (lock_node l)) = Some (currentNext l))"
| "undisturbed ev S \<longleftrightarrow> True"

subsection \<open>printList\<close>

text \<open>
  The output as a list of tokens. \<open>cur = cur->next.load()\<close> with a marked \<open>cur\<close> reads through an
  address that is no node: the result is \<open>Bad_Access\<close> with what was printed before. \<open>None\<close> is
  a loop that does not end.
\<close>

datatype token = Deleted | Range "64 word" "64 word" | Newline

datatype print_result = Printed "token list" | Bad_Access "token list"

partial_function (option) print_from :: "list_rl \<Rightarrow> cell \<Rightarrow> token list \<Rightarrow> print_result option" where
  "print_from \<sigma> c out =
     (if c = (None, False) then Some (Printed (out @ [Newline]))
      else if isMarked c then Some (Bad_Access (out @ [Deleted]))
      else case Option.bind (fst c) (l_heap \<sigma>) of
        None \<Rightarrow> Some (Bad_Access out)
      | Some n \<Rightarrow> print_from \<sigma> (l_next n) (out @ [Range (l_start n) (l_end n)]))"

declare print_from.simps [code]

definition printList :: "list_rl \<Rightarrow> print_result option" where
  "printList \<sigma> = print_from \<sigma> (l_head \<sigma>) []"

end
