(* ===== verification/V2_Safety.thy ===== *)
theory V2_Safety
  imports V2_List
begin

text \<open>
  Safety of the linked-list lock of v2: the invariant of the list, what a thread knows at each
  place of the code, and that every step keeps both, as long as the store of a \<open>DeleteNode\<close> is
  undisturbed.
\<close>

subsection \<open>The chain\<close>

definition nx2 :: "list_rl \<Rightarrow> loc \<Rightarrow> loc option" where
  "nx2 \<sigma> p = (case load \<sigma> p of None \<Rightarrow> None | Some c \<Rightarrow> map_option Next (fst c))"

definition mk2 :: "list_rl \<Rightarrow> loc \<Rightarrow> bool" where
  "mk2 \<sigma> p \<longleftrightarrow> (case load \<sigma> p of None \<Rightarrow> False | Some c \<Rightarrow> snd c)"

definition lk2 :: "list_rl \<Rightarrow> loc \<Rightarrow> bool" where
  "lk2 \<sigma> p \<longleftrightarrow> linked_in (nx2 \<sigma>) (mk2 \<sigma>) Head p"

definition rg2 :: "list_rl \<Rightarrow> loc \<Rightarrow> 64 word range" where
  "rg2 \<sigma> p = (case p of Head \<Rightarrow> (0, 0)
     | Next a \<Rightarrow> (l_start (the (l_heap \<sigma> a)), l_end (the (l_heap \<sigma> a))))"

text \<open>A pointer that may be stored: null, or an inserted node behind the range of \<open>p\<close>.\<close>

definition node_ok :: "list_rl \<Rightarrow> addr \<Rightarrow> bool" where
  "node_ok \<sigma> b \<longleftrightarrow> lk2 \<sigma> (Next b) \<and> l_heap \<sigma> b \<noteq> None"

definition cell_ok :: "list_rl \<Rightarrow> cell \<Rightarrow> bool" where
  "cell_ok \<sigma> c \<longleftrightarrow> (\<forall>b. fst c = Some b \<longrightarrow> node_ok \<sigma> b)"

definition cell_behind :: "list_rl \<Rightarrow> loc \<Rightarrow> cell \<Rightarrow> bool" where
  "cell_behind \<sigma> p c \<longleftrightarrow> cell_ok \<sigma> c \<and>
     (\<forall>b. fst c = Some b \<longrightarrow> p \<noteq> Head \<longrightarrow> half_open_before (rg2 \<sigma> p) (rg2 \<sigma> (Next b)))"

definition list_inv :: "list_rl \<Rightarrow> bool" where
  "list_inv \<sigma> \<longleftrightarrow> (\<forall>a. l_heap \<sigma> a \<noteq> None \<longleftrightarrow> a < l_brk \<sigma>) \<and> \<not> snd (l_head \<sigma>) \<and>
     (\<forall>a n. l_heap \<sigma> a = Some n \<longrightarrow> half_open_valid (l_start n, l_end n)) \<and>
     (\<forall>p c. load \<sigma> p = Some c \<longrightarrow> cell_behind \<sigma> p c)"

text \<open>What a step may change: it inserts or writes in private at most \<open>X\<close> and marks at most \<open>Y\<close>.\<close>

definition evolves2 :: "addr set \<Rightarrow> addr set \<Rightarrow> list_rl \<Rightarrow> list_rl \<Rightarrow> bool" where
  "evolves2 X Y \<sigma> \<sigma>' \<longleftrightarrow> l_brk \<sigma> \<le> l_brk \<sigma>' \<and>
     (\<forall>a n. l_heap \<sigma> a = Some n \<longrightarrow>
        (\<exists>n'. l_heap \<sigma>' a = Some n' \<and> l_start n' = l_start n \<and> l_end n' = l_end n)) \<and>
     (\<forall>p. lk2 \<sigma> p \<longrightarrow> lk2 \<sigma>' p) \<and> (\<forall>p. lk2 \<sigma>' p \<longrightarrow> lk2 \<sigma> p \<or> p \<in> Next ` X) \<and>
     (\<forall>p q. load \<sigma> p = Some (q, True) \<longrightarrow> load \<sigma>' p = Some (q, True)) \<and>
     (\<forall>p. mk2 \<sigma>' p \<longrightarrow> mk2 \<sigma> p \<or> p \<in> Next ` Y) \<and>
     (\<forall>a. l_heap \<sigma> a \<noteq> None \<and> \<not> lk2 \<sigma> (Next a) \<and> a \<notin> X \<longrightarrow> l_heap \<sigma>' a = l_heap \<sigma> a)"

lemma evolves2_refl [simp]: "evolves2 X Y \<sigma> \<sigma>"
  by (simp add: evolves2_def)

lemma evolves2D:
  assumes "evolves2 X Y \<sigma> \<sigma>'"
  shows "lk2 \<sigma> p \<Longrightarrow> lk2 \<sigma>' p"
    and "lk2 \<sigma>' p \<Longrightarrow> lk2 \<sigma> p \<or> p \<in> Next ` X"
    and "load \<sigma> p = Some (q, True) \<Longrightarrow> load \<sigma>' p = Some (q, True)"
    and "mk2 \<sigma>' p \<Longrightarrow> mk2 \<sigma> p \<or> p \<in> Next ` Y"
    and "l_heap \<sigma> a = Some n \<Longrightarrow>
      \<exists>n'. l_heap \<sigma>' a = Some n' \<and> l_start n' = l_start n \<and> l_end n' = l_end n"
    and "l_heap \<sigma> a = Some n \<Longrightarrow> \<not> lk2 \<sigma> (Next a) \<Longrightarrow> a \<notin> X \<Longrightarrow> l_heap \<sigma>' a = Some n"
  using assms by (auto simp add: evolves2_def)

lemma list_invD:
  assumes "list_inv \<sigma>"
  shows "l_heap \<sigma> a = Some n \<Longrightarrow> a < l_brk \<sigma>" "l_heap \<sigma> (l_brk \<sigma>) = None" "\<not> snd (l_head \<sigma>)"
    and "l_heap \<sigma> a = Some n \<Longrightarrow> half_open_valid (l_start n, l_end n)"
    and "load \<sigma> p = Some c \<Longrightarrow> cell_behind \<sigma> p c"
  using assms by (auto simp: list_inv_def simp del: split_paired_All)

subsection \<open>Writes\<close>

lemma load_Next: "load \<sigma> (Next a) = map_option l_next (l_heap \<sigma> a)"
  by (simp add: load_def)

lemma load_Head [simp]: "load \<sigma> Head = Some (l_head \<sigma>)"
  by (simp add: load_def)

lemma load_Some_heap: "load \<sigma> (Next a) = Some c \<Longrightarrow> \<exists>n. l_heap \<sigma> a = Some n \<and> l_next n = c"
  by (auto simp: load_def)

lemma store_at_frame:
  assumes "store_at \<sigma> p c = Some \<sigma>'"
  shows "load \<sigma>' q = (if q = p then Some c else load \<sigma> q)" "l_brk \<sigma>' = l_brk \<sigma>"
    and "l_heap \<sigma> a = Some n \<Longrightarrow>
      \<exists>n'. l_heap \<sigma>' a = Some n' \<and> l_start n' = l_start n \<and> l_end n' = l_end n"
    and "l_heap \<sigma>' a = None \<longleftrightarrow> l_heap \<sigma> a = None" "rg2 \<sigma>' q = rg2 \<sigma> q"
    and "Next a \<noteq> p \<Longrightarrow> l_heap \<sigma>' a = l_heap \<sigma> a"
    and "l_head \<sigma>' = (if p = Head then c else l_head \<sigma>)"
proof -
  consider "p = Head" "\<sigma>' = \<sigma>\<lparr>l_head := c\<rparr>"
    | b m where "p = Next b" "l_heap \<sigma> b = Some m"
        "\<sigma>' = \<sigma>\<lparr>l_heap := (l_heap \<sigma>)(b \<mapsto> m\<lparr>l_next := c\<rparr>)\<rparr>"
    using assms by (cases p) (auto simp: store_at_def)
  then show "load \<sigma>' q = (if q = p then Some c else load \<sigma> q)"
    by cases (cases q; simp add: load_def)+
  show "rg2 \<sigma>' q = rg2 \<sigma> q"
    using \<open>store_at \<sigma> p c = Some \<sigma>'\<close>
    by (cases p; cases q) (auto simp: store_at_def rg2_def)
  show "l_brk \<sigma>' = l_brk \<sigma>"
    using assms by (cases p) (auto simp: store_at_def)
  show "l_heap \<sigma>' a = None \<longleftrightarrow> l_heap \<sigma> a = None"
    using assms by (cases p) (auto simp: store_at_def split: if_splits)
  show "l_heap \<sigma>' a = l_heap \<sigma> a" if "Next a \<noteq> p"
    using assms that by (cases p) (auto simp: store_at_def)
  show "l_head \<sigma>' = (if p = Head then c else l_head \<sigma>)"
    using assms by (cases p) (auto simp: store_at_def)
  show "\<exists>n'. l_heap \<sigma>' a = Some n' \<and> l_start n' = l_start n \<and> l_end n' = l_end n"
    if "l_heap \<sigma> a = Some n"
    using assms that by (cases p) (auto simp: store_at_def)
qed

lemma store_at_defined: "load \<sigma> p = Some c \<Longrightarrow> \<exists>\<sigma>'. store_at \<sigma> p d = Some \<sigma>'"
  by (cases p) (auto simp: load_def store_at_def)

lemma nx2_mk2_frame:
  assumes "store_at \<sigma> p c = Some \<sigma>'"
  shows "nx2 \<sigma>' = (nx2 \<sigma>)(p := map_option Next (fst c))" "mk2 \<sigma>' = (mk2 \<sigma>)(p := snd c)"
  using store_at_frame(1) [OF assms] by (auto simp: nx2_def mk2_def fun_eq_iff)

text \<open>One write to an unmarked location.\<close>

lemma write_keeps_list_inv:
  assumes inv: "list_inv \<sigma>" and w: "store_at \<sigma> p c = Some \<sigma>'" and old: "load \<sigma> p = Some (r, False)"
    and mono: "\<And>q. lk2 \<sigma> q \<Longrightarrow> lk2 \<sigma>' q" and only: "\<And>q. lk2 \<sigma>' q \<Longrightarrow> lk2 \<sigma> q \<or> q \<in> Next ` X"
    and where_: "lk2 \<sigma> p \<or> p \<in> Next ` X" and mark: "snd c \<Longrightarrow> p \<in> Next ` Y"
    and good: "cell_behind \<sigma>' p c"
  shows "list_inv \<sigma>' \<and> evolves2 X Y \<sigma> \<sigma>'"
proof -
  note fr = store_at_frame [OF w]
  have "cell_behind \<sigma>' q d" if "cell_behind \<sigma> q d" for q d
    using that mono fr(4,5) by (auto simp: cell_behind_def cell_ok_def node_ok_def)
  then have "cell_behind \<sigma>' q d" if "load \<sigma>' q = Some d" for q d
    using that fr(1) [of q] good list_invD(5) [OF inv] by (auto split: if_splits)
  moreover have "half_open_valid (l_start n, l_end n)" if n: "l_heap \<sigma>' a = Some n" for a n
  proof -
    from n fr(4) [of a] obtain m where "l_heap \<sigma> a = Some m" by auto
    with list_invD(4) [OF inv this] n fr(3) [of a m] show ?thesis by auto
  qed
  moreover have "\<not> snd (l_head \<sigma>')"
    using fr(7) mark list_invD(3) [OF inv] by auto
  ultimately have "list_inv \<sigma>'" using inv fr(2,4) by (simp add: list_inv_def)
  moreover have "evolves2 X Y \<sigma> \<sigma>'"
    unfolding evolves2_def
  proof (intro conjI allI impI)
    show "lk2 \<sigma> q \<Longrightarrow> lk2 \<sigma>' q" "lk2 \<sigma>' q \<Longrightarrow> lk2 \<sigma> q \<or> q \<in> Next ` X" for q
      using mono only by auto
    show "load \<sigma> q = Some (x, True) \<Longrightarrow> load \<sigma>' q = Some (x, True)" for q x
      using old fr(1) by auto
    show "mk2 \<sigma>' q \<Longrightarrow> mk2 \<sigma> q \<or> q \<in> Next ` Y" for q
      using mark nx2_mk2_frame(2) [OF w] by (auto split: if_splits)
    show "l_heap \<sigma>' a = l_heap \<sigma> a"
      if "l_heap \<sigma> a \<noteq> None \<and> \<not> lk2 \<sigma> (Next a) \<and> a \<notin> X" for a
      using that where_ fr(6) [of a] by auto
  qed (use fr in auto)
  ultimately show ?thesis by blast
qed

lemma insert_write2:
  assumes inv: "list_inv \<sigma>" and w: "store_at \<sigma> p (Some n, False) = Some \<sigma>'"
    and old: "load \<sigma> p = Some (r, False)" and p: "lk2 \<sigma> p"
    and n: "load \<sigma> (Next n) = Some (r, False)" "\<not> lk2 \<sigma> (Next n)"
    and ord: "p \<noteq> Head \<longrightarrow> half_open_before (rg2 \<sigma> p) (rg2 \<sigma> (Next n))"
  shows "list_inv \<sigma>' \<and> evolves2 {n} {} \<sigma> \<sigma>' \<and> lk2 \<sigma>' (Next n)"
proof -
  have "nx2 \<sigma>' = (nx2 \<sigma>)(p := Some (Next n))" "mk2 \<sigma>' = mk2 \<sigma>"
    using nx2_mk2_frame [OF w] old by (auto simp: mk2_def fun_eq_iff)
  moreover have "\<not> mk2 \<sigma> p" "nx2 \<sigma> (Next n) = nx2 \<sigma> p" "Next n \<noteq> p"
    using old n p by (auto simp: mk2_def nx2_def)
  ultimately have iff: "lk2 \<sigma>' q \<longleftrightarrow> lk2 \<sigma> q \<or> q = Next n" for q
    using p linked_insert [of "nx2 \<sigma>" "mk2 \<sigma>" Head p "Next n" q] by (simp add: lk2_def)
  have "cell_behind \<sigma>' p (Some n, False)"
    using iff ord n(1) store_at_frame [OF w]
    by (auto simp: cell_behind_def cell_ok_def node_ok_def load_def)
  then show ?thesis
    using write_keeps_list_inv [OF inv w old, of "{n}" "{}"] p by (auto simp: iff)
qed

lemma snip_write2:
  assumes inv: "list_inv \<sigma>" and w: "store_at \<sigma> p (q, False) = Some \<sigma>'"
    and old: "load \<sigma> p = Some (Some c, False)" and p: "lk2 \<sigma> p"
    and c: "load \<sigma> (Next c) = Some (q, True)"
  shows "list_inv \<sigma>' \<and> evolves2 X Y \<sigma> \<sigma>'"
proof -
  have nxc: "nx2 \<sigma> (Next c) = map_option Next q" using c by (simp add: nx2_def)
  have "nx2 \<sigma>' = (nx2 \<sigma>)(p := nx2 \<sigma> (Next c))" "mk2 \<sigma>' = mk2 \<sigma>"
    using nx2_mk2_frame [OF w] old by (auto simp: mk2_def nxc fun_eq_iff)
  moreover have "\<not> mk2 \<sigma> p" "nx2 \<sigma> p = Some (Next c)" "mk2 \<sigma> (Next c)"
    using old c by (auto simp: mk2_def nx2_def)
  ultimately have iff: "lk2 \<sigma>' x \<longleftrightarrow> lk2 \<sigma> x" for x
    using p linked_cut [of "nx2 \<sigma>" "mk2 \<sigma>" Head p "Next c" x] by (simp add: lk2_def)
  obtain n where n: "l_heap \<sigma> c = Some n" using load_Some_heap [OF c] by blast
  have valid: "half_open_valid (rg2 \<sigma> (Next c))"
    using list_invD(4) [OF inv n] n by (simp add: rg2_def)
  have "cell_behind \<sigma> p (Some c, False)" "cell_behind \<sigma> (Next c) (q, True)"
    using list_invD(5) [OF inv] old c by blast+
  then have "cell_behind \<sigma>' p (q, False)"
    using valid half_open.before_trans [of "rg2 \<sigma> p" "rg2 \<sigma> (Next c)"] store_at_frame(4,5) [OF w]
    by (auto simp: cell_behind_def cell_ok_def node_ok_def iff)
  then show ?thesis
    using write_keeps_list_inv [OF inv w old, of X Y] p by (auto simp: iff)
qed

lemma mark_write2:
  assumes inv: "list_inv \<sigma>" and w: "store_at \<sigma> (Next a) (q, True) = Some \<sigma>'"
    and old: "load \<sigma> (Next a) = Some (q, False)" and a: "lk2 \<sigma> (Next a)"
  shows "list_inv \<sigma>' \<and> evolves2 X {a} \<sigma> \<sigma>'"
proof -
  have "nx2 \<sigma>' = nx2 \<sigma>" "mk2 \<sigma>' = (mk2 \<sigma>)(Next a := True)"
    using nx2_mk2_frame [OF w] old by (auto simp: nx2_def fun_eq_iff)
  then have iff: "lk2 \<sigma>' x \<longleftrightarrow> lk2 \<sigma> x" for x
    using linked_mark a by (simp add: lk2_def)
  have "cell_behind \<sigma> (Next a) (q, False)" using list_invD(5) [OF inv] old by blast
  then have "cell_behind \<sigma>' (Next a) (q, True)"
    using store_at_frame(4,5) [OF w] by (auto simp: cell_behind_def cell_ok_def node_ok_def iff)
  then show ?thesis
    using write_keeps_list_inv [OF inv w old, of X "{a}"] a by (auto simp: iff)
qed

text \<open>The write to the \<open>next\<close> field of a node that is not inserted yet.\<close>

lemma private_write2:
  assumes inv: "list_inv \<sigma>" and w: "store_at \<sigma> (Next n) (q, False) = Some \<sigma>'"
    and n: "\<not> lk2 \<sigma> (Next n)" and good: "cell_behind \<sigma> (Next n) (q, False)"
  shows "list_inv \<sigma>' \<and> evolves2 {n} {} \<sigma> \<sigma>' \<and> \<not> lk2 \<sigma>' (Next n)"
proof -
  have "\<not> mk2 \<sigma> (Next n)" using n by (auto simp: lk2_def linked_in_def)
  moreover have "load \<sigma> (Next n) \<noteq> None"
    using w by (auto simp: store_at_def load_def)
  ultimately obtain r where old: "load \<sigma> (Next n) = Some (r, False)"
    by (auto simp: mk2_def)
  have "nx2 \<sigma>' = (nx2 \<sigma>)(Next n := map_option Next q)" "mk2 \<sigma>' = mk2 \<sigma>"
    using nx2_mk2_frame [OF w] old by (auto simp: mk2_def fun_eq_iff)
  then have iff: "lk2 \<sigma>' x \<longleftrightarrow> lk2 \<sigma> x" for x
    using linked_extend n by (simp add: lk2_def)
  have "cell_behind \<sigma>' (Next n) (q, False)"
    using good store_at_frame(4,5) [OF w] by (auto simp: cell_behind_def cell_ok_def node_ok_def iff)
  then show ?thesis
    using write_keeps_list_inv [OF inv w old, of "{n}" "{}"] n by (auto simp: iff)
qed

lemma alloc_keeps_list_inv:
  assumes inv: "list_inv \<sigma>" and "s < e"
    and \<sigma>': "\<sigma>' = \<sigma>\<lparr>l_heap := (l_heap \<sigma>)(l_brk \<sigma> \<mapsto> LNode s e), l_brk := l_brk \<sigma> + 1\<rparr>"
  shows "list_inv \<sigma>' \<and> evolves2 {} {} \<sigma> \<sigma>' \<and> \<not> lk2 \<sigma>' (Next (l_brk \<sigma>))"
proof -
  let ?b = "l_brk \<sigma>"
  note free = list_invD(2) [OF inv]
  have ld: "load \<sigma>' q = (if q = Next ?b then Some (None, False) else load \<sigma> q)" for q
    by (auto simp: load_def \<sigma>' LNode_def split: loc.split)
  have nx: "nx2 \<sigma>' = nx2 \<sigma>" and mk: "mk2 \<sigma>' = mk2 \<sigma>"
    using free by (auto simp: nx2_def mk2_def ld fun_eq_iff) (auto simp: load_def)
  then have iff: "lk2 \<sigma>' q \<longleftrightarrow> lk2 \<sigma> q" for q by (simp add: lk2_def)
  have out: "\<not> lk2 \<sigma> (Next ?b)"
  proof
    assume "lk2 \<sigma> (Next ?b)"
    then have "reach (nx2 \<sigma>) Head (Next ?b)"
      using free by (auto simp: lk2_def linked_in_def mk2_def load_def)
    then have "\<exists>p. nx2 \<sigma> p = Some (Next ?b)"
      unfolding reach_def by (auto elim: rtranclp.cases)
    then obtain p c where "load \<sigma> p = Some c" "fst c = Some ?b"
      by (auto simp: nx2_def split: option.splits)
    with list_invD(5) [OF inv this(1)] free show False
      by (auto simp: cell_behind_def cell_ok_def node_ok_def)
  qed
  have rg: "rg2 \<sigma>' q = rg2 \<sigma> q" if "q \<noteq> Next ?b" for q
    using that by (simp add: rg2_def \<sigma>' split: loc.split)
  have "cell_behind \<sigma>' q c" if "load \<sigma>' q = Some c" for q c
  proof (cases "q = Next ?b")
    case True
    with that show ?thesis by (auto simp: ld cell_behind_def cell_ok_def)
  next
    case False
    with that have "cell_behind \<sigma> q c" using list_invD(5) [OF inv] by (simp add: ld)
    moreover have "node_ok \<sigma>' x \<and> rg2 \<sigma>' (Next x) = rg2 \<sigma> (Next x)" if "node_ok \<sigma> x" for x
      using that out rg [of "Next x"] by (cases "x = ?b") (auto simp: node_ok_def iff, simp add: \<sigma>')
    ultimately show ?thesis using False by (simp add: cell_behind_def cell_ok_def rg)
  qed
  moreover have "half_open_valid (l_start n, l_end n)" if "l_heap \<sigma>' a = Some n" for a n
    using that list_invD(4) [OF inv, of a n] assms(2)
    by (auto simp: \<sigma>' LNode_def half_open_valid_def split: if_splits)
  moreover have "l_heap \<sigma>' a \<noteq> None \<longleftrightarrow> a < l_brk \<sigma>'" for a
    using inv by (auto simp: list_inv_def \<sigma>' less_Suc_eq)
  ultimately have "list_inv \<sigma>'" using list_invD(3) [OF inv] by (simp add: list_inv_def \<sigma>')
  moreover have "evolves2 {} {} \<sigma> \<sigma>'"
    using free by (auto simp: evolves2_def iff mk ld) (auto simp: \<sigma>' load_def)
  ultimately show ?thesis using out iff by blast
qed

end
