(* ===== verification/V2_Threads.thy ===== *)
theory V2_Threads
  imports V2_Safety
begin

text \<open>
  The threads of the v2 list: their knowledge at each place of the code, that a step keeps it
  when the store of \<open>DeleteNode\<close> is undisturbed, and the invariant of the system.
\<close>

subsection \<open>Knowledge of a thread\<close>

definition private_lock :: "list_rl \<Rightarrow> addr \<Rightarrow> bool" where
  "private_lock \<sigma> n \<longleftrightarrow> \<not> lk2 \<sigma> (Next n) \<and> l_heap \<sigma> n \<noteq> None"

definition prev_ok :: "list_rl \<Rightarrow> addr \<Rightarrow> loc \<Rightarrow> bool" where
  "prev_ok \<sigma> n p \<longleftrightarrow> lk2 \<sigma> p \<and> (\<forall>a. p = Next a \<longrightarrow>
     l_heap \<sigma> a \<noteq> None \<and> half_open_before (rg2 \<sigma> (Next a)) (rg2 \<sigma> (Next n)))"

definition cur_node :: "list_rl \<Rightarrow> cell \<Rightarrow> (addr \<Rightarrow> bool) \<Rightarrow> bool" where
  "cur_node \<sigma> x P \<longleftrightarrow> (\<exists>c. x = (Some c, False) \<and> node_ok \<sigma> c \<and> P c)"

definition refused2 :: "list_rl \<Rightarrow> addr \<Rightarrow> bool" where
  "refused2 \<sigma> n \<longleftrightarrow> l_heap \<sigma> n \<noteq> None \<and>
     (\<exists>c. node_ok \<sigma> c \<and> half_open_overlaps (rg2 \<sigma> (Next n)) (rg2 \<sigma> (Next c)))"

definition live_lock :: "list_rl \<Rightarrow> addr \<Rightarrow> bool" where
  "live_lock \<sigma> a \<longleftrightarrow> node_ok \<sigma> a \<and> \<not> mk2 \<sigma> (Next a)"

definition thread_inv2 :: "list_rl \<Rightarrow> locals2 \<Rightarrow> bool" where
  "thread_inv2 \<sigma> l \<longleftrightarrow> (case pc2 l of
       AStart \<Rightarrow> private_lock \<sigma> (lock_node l)
     | ALoop \<Rightarrow> private_lock \<sigma> (lock_node l) \<and> prev_ok \<sigma> (lock_node l) (prev l) \<and> cell_ok \<sigma> (cur l)
     | AUnmark \<Rightarrow> private_lock \<sigma> (lock_node l) \<and> prev_ok \<sigma> (lock_node l) (prev l) \<and> cur_node \<sigma> (cur l) (\<lambda>c. mk2 \<sigma> (Next c))
     | ASnip \<Rightarrow> private_lock \<sigma> (lock_node l) \<and> prev_ok \<sigma> (lock_node l) (prev l) \<and>
         cur_node \<sigma> (cur l) (\<lambda>c. load \<sigma> (Next c) = Some (fst (next_ptr l), True)) \<and> \<not> snd (next_ptr l)
     | ACompare \<Rightarrow> private_lock \<sigma> (lock_node l) \<and> prev_ok \<sigma> (lock_node l) (prev l) \<and> cur_node \<sigma> (cur l) (\<lambda>_. True)
     | ACas \<Rightarrow> private_lock \<sigma> (lock_node l) \<and> prev_ok \<sigma> (lock_node l) (prev l) \<and> \<not> snd (cur l) \<and>
         load \<sigma> (Next (lock_node l)) = Some (cur l)
     | AReload \<Rightarrow> private_lock \<sigma> (lock_node l) \<and> prev_ok \<sigma> (lock_node l) (prev l)
     | ACount \<Rightarrow> live_lock \<sigma> (lock_node l)
     | AcqReturned b \<Rightarrow> b \<or> refused2 \<sigma> (lock_node l)
     | DLoad \<Rightarrow> live_lock \<sigma> (lock_node l)
     | DStore \<Rightarrow> live_lock \<sigma> (lock_node l)
     | Crashed2 \<Rightarrow> False
     | _ \<Rightarrow> True)"

definition inserting :: "pc2 set" where
  "inserting = {AStart, ALoop, AUnmark, ASnip, ACompare, ACas, AReload}"

definition claimed2 :: "locals2 \<Rightarrow> addr set" where
  "claimed2 l = (if pc2 l \<in> inserting \<union> {ACount, DLoad, DStore} then {lock_node l} else {})"

text \<open>The nodes a thread may insert or write in private, and those it may mark.\<close>

definition writes2 :: "locals2 \<Rightarrow> addr set" where
  "writes2 l = (if pc2 l \<in> inserting then {lock_node l} else {})"

definition marks2 :: "locals2 \<Rightarrow> addr set" where
  "marks2 l = (if pc2 l = DStore then {lock_node l} else {})"

lemmas claim2_defs = claimed2_def writes2_def marks2_def inserting_def

subsection \<open>Other threads do not spoil it\<close>

lemma rg2_stable: "evolves2 X Y \<sigma> \<sigma>' \<Longrightarrow> l_heap \<sigma> a \<noteq> None \<Longrightarrow> rg2 \<sigma>' (Next a) = rg2 \<sigma> (Next a)"
  by (auto simp: rg2_def dest!: evolves2D(5))

lemma node_ok_stable [stable]: "evolves2 X Y \<sigma> \<sigma>' \<Longrightarrow> node_ok \<sigma> a \<Longrightarrow> node_ok \<sigma>' a"
  by (auto simp: node_ok_def evolves2D(1) dest!: evolves2D(5))

lemma cell_ok_stable [stable]: "evolves2 X Y \<sigma> \<sigma>' \<Longrightarrow> cell_ok \<sigma> c \<Longrightarrow> cell_ok \<sigma>' c"
  by (auto simp: cell_ok_def node_ok_stable)

lemma private_lock_stable:
  "evolves2 X Y \<sigma> \<sigma>' \<Longrightarrow> private_lock \<sigma> n \<Longrightarrow> n \<notin> X \<Longrightarrow>
   private_lock \<sigma>' n \<and> l_heap \<sigma>' n = l_heap \<sigma> n"
  by (auto simp: private_lock_def dest: evolves2D(2) evolves2D(6))

lemma prev_ok_stable:
  assumes ev: "evolves2 X Y \<sigma> \<sigma>'" and "private_lock \<sigma> n" "prev_ok \<sigma> n p"
  shows "prev_ok \<sigma>' n p"
proof -
  have rg: "rg2 \<sigma>' (Next n) = rg2 \<sigma> (Next n)"
    using rg2_stable [OF ev] assms(2) by (simp add: private_lock_def)
  show ?thesis
    unfolding prev_ok_def rg
  proof (intro conjI allI impI)
    show "lk2 \<sigma>' p" using evolves2D(1) [OF ev] assms(3) by (simp add: prev_ok_def)
    fix a assume "p = Next a"
    with assms(3) have a: "l_heap \<sigma> a \<noteq> None"
        "half_open_before (rg2 \<sigma> (Next a)) (rg2 \<sigma> (Next n))"
      by (auto simp: prev_ok_def)
    then show "l_heap \<sigma>' a \<noteq> None" by (auto dest: evolves2D(5) [OF ev])
    show "half_open_before (rg2 \<sigma>' (Next a)) (rg2 \<sigma> (Next n))"
      using a rg2_stable [OF ev a(1)] by simp
  qed
qed

lemma cur_node_stable:
  "evolves2 X Y \<sigma> \<sigma>' \<Longrightarrow> cur_node \<sigma> x P \<Longrightarrow> (\<And>c. P c \<Longrightarrow> Q c) \<Longrightarrow> cur_node \<sigma>' x Q"
  by (auto simp: cur_node_def node_ok_stable)

lemma mk2_stable: "evolves2 X Y \<sigma> \<sigma>' \<Longrightarrow> mk2 \<sigma> p \<Longrightarrow> mk2 \<sigma>' p"
  by (fastforce simp: mk2_def dest: evolves2D(3) split: option.splits)

lemma refused2_stable [stable]:
  assumes "evolves2 X Y \<sigma> \<sigma>'" "refused2 \<sigma> n"
  shows "refused2 \<sigma>' n"
proof -
  from assms(2) obtain c where c: "node_ok \<sigma> c" "l_heap \<sigma> n \<noteq> None"
    "half_open_overlaps (rg2 \<sigma> (Next n)) (rg2 \<sigma> (Next c))"
    by (auto simp: refused2_def)
  then have "rg2 \<sigma>' (Next c) = rg2 \<sigma> (Next c)" "rg2 \<sigma>' (Next n) = rg2 \<sigma> (Next n)"
    using rg2_stable [OF assms(1)] by (simp_all add: node_ok_def)
  with c node_ok_stable [OF assms(1) c(1)] evolves2D(5) [OF assms(1)] show ?thesis
    by (fastforce simp: refused2_def)
qed

lemma live_lock_stable:
  "evolves2 X Y \<sigma> \<sigma>' \<Longrightarrow> live_lock \<sigma> a \<Longrightarrow> a \<notin> Y \<Longrightarrow> live_lock \<sigma>' a"
  by (auto simp: live_lock_def node_ok_stable dest: evolves2D(4))

lemma thread_inv2_stable:
  assumes ev: "evolves2 X Y \<sigma> \<sigma>'" and ti: "thread_inv2 \<sigma> l"
    and out: "claimed2 l \<inter> X = {}" "claimed2 l \<inter> Y = {}"
  shows "thread_inv2 \<sigma>' l"
proof (cases "pc2 l \<in> inserting")
  case True
  with ti have pr: "private_lock \<sigma> (lock_node l)" by (auto simp: thread_inv2_def inserting_def)
  have "lock_node l \<notin> X" using True out(1) by (auto simp: claimed2_def)
  note s = private_lock_stable [OF ev pr this] prev_ok_stable [OF ev pr]
  have "load \<sigma>' (Next (lock_node l)) = load \<sigma> (Next (lock_node l))"
    using s(1) by (simp add: load_Next)
  with True ti s show ?thesis
    by (auto simp: thread_inv2_def inserting_def mk2_stable [OF ev] evolves2D(3) [OF ev]
        intro: cell_ok_stable [OF ev] elim!: cur_node_stable [OF ev])
next
  case False
  with ti out show ?thesis
    by (cases "pc2 l")
      (auto simp: thread_inv2_def claim2_defs refused2_stable [OF ev] live_lock_stable [OF ev])
qed

subsection \<open>The steps\<close>

lemma compare_nodes_cases:
  assumes "half_open_valid (l_start n, l_end n)" "half_open_valid (l_start m, l_end m)"
  shows "compare_nodes (Some n) m = 1 \<Longrightarrow>
      half_open_before (l_start m, l_end m) (l_start n, l_end n)"
    and "compare_nodes (Some n) m = -1 \<Longrightarrow>
      half_open_before (l_start n, l_end n) (l_start m, l_end m)"
    and "compare_nodes (Some n) m = 0 \<longleftrightarrow>
      half_open_overlaps (l_start m, l_end m) (l_start n, l_end n)"
    and "compare_nodes (Some n) m \<in> {-1, 0, 1}"
  using assms by (auto simp: compare_nodes_def half_open_defs not_le split: if_splits)

text \<open>What one step of a thread has to deliver.\<close>

definition step_ok2 :: "list_rl \<Rightarrow> locals2 \<Rightarrow> result2 \<Rightarrow> bool" where
  "step_ok2 \<sigma> l r \<longleftrightarrow> (\<exists>\<sigma>' l'. r = Some (\<sigma>', l') \<and> list_inv \<sigma>' \<and>
     evolves2 (writes2 l) (marks2 l) \<sigma> \<sigma>' \<and> thread_inv2 \<sigma>' l' \<and> claimed2 l' \<subseteq> claimed2 l \<and>
     (pc2 l' = AcqReturned True \<longrightarrow> pc2 l \<in> {ACount, AcqReturned True}) \<and> lock_node l' = lock_node l)"

lemma evolves2_mono: "evolves2 X Y \<sigma> \<sigma>' \<Longrightarrow> X \<subseteq> X' \<Longrightarrow> Y \<subseteq> Y' \<Longrightarrow> evolves2 X' Y' \<sigma> \<sigma>'"
  unfolding evolves2_def by blast

lemma count_frame2:
  "list_inv (\<sigma>\<lparr>l_count := x\<rparr>) = list_inv \<sigma>" "evolves2 X Y \<sigma> (\<sigma>\<lparr>l_count := x\<rparr>)"
  "live_lock (\<sigma>\<lparr>l_count := x\<rparr>) a = live_lock \<sigma> a"
proof -
  let ?s = "\<sigma>\<lparr>l_count := x\<rparr>"
  have ld: "load ?s p = load \<sigma> p" for p by (simp add: load_def split: loc.split)
  then have "nx2 ?s = nx2 \<sigma>" and mk: "mk2 ?s = mk2 \<sigma>" by (simp_all add: nx2_def mk2_def fun_eq_iff)
  then have lk: "lk2 ?s p = lk2 \<sigma> p" for p by (simp add: lk2_def)
  have rg: "rg2 ?s p = rg2 \<sigma> p" for p by (simp add: rg2_def split: loc.split)
  show "list_inv ?s = list_inv \<sigma>"
    by (simp add: list_inv_def cell_behind_def cell_ok_def node_ok_def ld lk rg)
  show "evolves2 X Y \<sigma> ?s" by (simp add: evolves2_def ld lk mk)
  show "live_lock ?s a = live_lock \<sigma> a" by (simp add: live_lock_def node_ok_def lk mk)
qed

text \<open>A step that leaves the list alone.\<close>

lemma step_ok2_local:
  assumes "list_inv \<sigma>" "thread_inv2 \<sigma> l'" "claimed2 l' \<subseteq> claimed2 l" "lock_node l' = lock_node l"
    and "pc2 l' = AcqReturned True \<Longrightarrow> pc2 l = AcqReturned True"
  shows "step_ok2 \<sigma> l (Some (\<sigma>, l'))"
  using assms by (auto simp: step_ok2_def)

lemma load_linked:
  assumes "list_inv \<sigma>" "load \<sigma> p = Some c"
  shows "cell_ok \<sigma> c"
  using list_invD(5) [OF assms] by (simp add: cell_behind_def)

lemma node_ok_load: "node_ok \<sigma> c \<Longrightarrow> \<exists>x. load \<sigma> (Next c) = Some x"
  by (cases "l_heap \<sigma> c") (simp_all add: node_ok_def load_Next)

lemma prev_ok_load: "prev_ok \<sigma> (lock_node l) (prev l) \<Longrightarrow> \<exists>c. load \<sigma> (prev l) = Some c"
  by (cases "prev l") (auto simp: prev_ok_def load_Next)

lemma store_cur_ok:
  assumes inv: "list_inv \<sigma>" and pc: "pc2 l \<in> inserting"
    and l: "private_lock \<sigma> (lock_node l)" "prev_ok \<sigma> (lock_node l) (prev l)" "\<not> snd (cur l)"
    and good: "cell_behind \<sigma> (Next (lock_node l)) (cur l)"
  shows "step_ok2 \<sigma> l (store_cur \<sigma> l)"
proof -
  from l(1) obtain \<sigma>' where w: "store_at \<sigma> (Next (lock_node l)) (cur l) = Some \<sigma>'"
    by (auto simp: private_lock_def store_at_def)
  obtain q where c: "cur l = (q, False)" using l(3) by (cases "cur l") auto
  have h: "list_inv \<sigma>'" "evolves2 {lock_node l} {} \<sigma> \<sigma>'" "\<not> lk2 \<sigma>' (Next (lock_node l))"
    using private_write2 [OF inv w [unfolded c]] l(1) good c by (auto simp: private_lock_def)
  let ?l = "l\<lparr>pc2 := ACas\<rparr>"
  have "private_lock \<sigma>' (lock_node l)"
    using h(3) l(1) store_at_frame(4) [OF w] by (simp add: private_lock_def)
  moreover have "prev_ok \<sigma>' (lock_node l) (prev ?l)"
    using prev_ok_stable [OF h(2) l(1,2)] by (simp add: prev_ok_def)
  ultimately have "thread_inv2 \<sigma>' ?l"
    using l(3) store_at_frame(1) [OF w] by (simp add: thread_inv2_def)
  with h w pc show ?thesis
    by (auto simp: step_ok2_def store_cur_def claim2_defs intro: evolves2_mono)
qed

lemma ALoop_ok:
  assumes inv: "list_inv \<sigma>" and pc: "pc2 l = ALoop" and ti: "thread_inv2 \<sigma> l"
  shows "step_ok2 \<sigma> l (insert_step ALoop \<sigma> l)"
proof -
  from pc ti have l: "private_lock \<sigma> (lock_node l)" "prev_ok \<sigma> (lock_node l) (prev l)" "cell_ok \<sigma> (cur l)"
    by (auto simp: thread_inv2_def)
  show ?thesis
  proof (cases "snd (cur l)")
    case True
    have "step_ok2 \<sigma> l (Some (\<sigma>, l\<lparr>pc2 := AStart\<rparr>))"
      by (rule step_ok2_local [OF inv]) (simp_all add: l thread_inv2_def claim2_defs pc)
    with True show ?thesis by (simp add: isMarked_def)
  next
    case unmarked: False
    show ?thesis
    proof (cases "fst (cur l)")
      case None
      then have "cell_behind \<sigma> (Next (lock_node l)) (cur l)" using l(3) by (simp add: cell_behind_def)
      from store_cur_ok [OF inv _ l(1,2) unmarked this] None unmarked pc show ?thesis
        by (simp add: isMarked_def inserting_def)
    next
      case (Some c)
      with l(3) have c: "node_ok \<sigma> c" "cur l = (Some c, False)"
        using unmarked by (auto simp: cell_ok_def prod_eq_iff)
      obtain x where x: "load \<sigma> (Next c) = Some x" using node_ok_load [OF c(1)] by blast
      let ?l = "l\<lparr>pc2 := if isMarked x then AUnmark else ACompare\<rparr>"
      have "thread_inv2 \<sigma> ?l"
        using l c x
        by (simp add: thread_inv2_def isMarked_def private_lock_def prev_ok_def cur_node_def mk2_def)
      then have "step_ok2 \<sigma> l (Some (\<sigma>, ?l))"
        by (rule step_ok2_local [OF inv]) (simp_all add: claim2_defs pc split: if_splits)
      then show ?thesis using Some unmarked x by (simp add: isMarked_def)
    qed
  qed
qed

lemma ASnip_ok:
  assumes inv: "list_inv \<sigma>" and pc: "pc2 l = ASnip" and ti: "thread_inv2 \<sigma> l"
  shows "step_ok2 \<sigma> l (insert_step ASnip \<sigma> l)"
proof -
  from pc ti obtain c where l: "private_lock \<sigma> (lock_node l)" "prev_ok \<sigma> (lock_node l) (prev l)" "\<not> snd (next_ptr l)"
    and c: "cur l = (Some c, False)" "node_ok \<sigma> c" "load \<sigma> (Next c) = Some (fst (next_ptr l), True)"
    by (auto simp: thread_inv2_def cur_node_def)
  obtain q where nx: "next_ptr l = (q, False)" using l(3) by (cases "next_ptr l") auto
  obtain x where x: "load \<sigma> (prev l) = Some x" using prev_ok_load [OF l(2)] by blast
  let ?l = "l\<lparr>cur := next_ptr l, pc2 := ALoop\<rparr>"
  have "cell_ok \<sigma> (fst (next_ptr l), True)" using load_linked [OF inv c(3)] .
  then have cell: "cell_ok \<sigma> (next_ptr l)" by (simp add: cell_ok_def)
  have keep: "thread_inv2 \<sigma>' ?l" if ev: "evolves2 {} {} \<sigma> \<sigma>'" for \<sigma>'
    using private_lock_stable [OF ev l(1)] prev_ok_stable [OF ev l(1,2)] cell_ok_stable [OF ev cell]
    by (simp add: thread_inv2_def)
  show ?thesis
  proof (cases "x = cur l")
    case True
    obtain \<sigma>' where w: "store_at \<sigma> (prev l) (next_ptr l) = Some \<sigma>'"
      using store_at_defined [OF x] by blast
    have h: "list_inv \<sigma>' \<and> evolves2 {} {} \<sigma> \<sigma>'"
      using snip_write2 [OF inv w [unfolded nx]] x True c l(2) nx by (simp add: prev_ok_def)
    then have ev: "evolves2 (writes2 l) (marks2 l) \<sigma> \<sigma>'" by (auto intro: evolves2_mono)
    show ?thesis
      using h keep ev x True w pc by (simp add: step_ok2_def cas_at_def claim2_defs)
  next
    case False
    have "step_ok2 \<sigma> l (Some (\<sigma>, ?l))"
      using keep [OF evolves2_refl] by (rule step_ok2_local [OF inv]) (simp_all add: claim2_defs pc)
    then show ?thesis using x False by (simp add: cas_at_def)
  qed
qed

lemma ACompare_ok:
  assumes inv: "list_inv \<sigma>" and pc: "pc2 l = ACompare" and ti: "thread_inv2 \<sigma> l"
  shows "step_ok2 \<sigma> l (insert_step ACompare \<sigma> l)"
proof -
  from pc ti obtain c where l: "private_lock \<sigma> (lock_node l)" "prev_ok \<sigma> (lock_node l) (prev l)"
    and c: "cur l = (Some c, False)" "node_ok \<sigma> c"
    by (auto simp: thread_inv2_def cur_node_def)
  from l(1) c(2) obtain n m where n: "l_heap \<sigma> c = Some n" and m: "l_heap \<sigma> (lock_node l) = Some m"
    by (auto simp: private_lock_def node_ok_def)
  note cmp = compare_nodes_cases [OF list_invD(4) [OF inv n] list_invD(4) [OF inv m]]
  have rg: "rg2 \<sigma> (Next c) = (l_start n, l_end n)" "rg2 \<sigma> (Next (lock_node l)) = (l_start m, l_end m)"
    using n m by (simp_all add: rg2_def)
  have x: "load \<sigma> (Next c) = Some (l_next n)" using n by (simp add: load_Next)
  consider "compare_nodes (Some n) m = -1" | "compare_nodes (Some n) m = 0"
    | "compare_nodes (Some n) m = 1"
    using cmp(4) by blast
  then show ?thesis
  proof cases
    case 1
    let ?l = "l\<lparr>prev := Next c, cur := l_next n, pc2 := ALoop\<rparr>"
    have "thread_inv2 \<sigma> ?l"
      using l c n cmp(2) [OF 1] load_linked [OF inv x]
      by (simp add: thread_inv2_def private_lock_def prev_ok_def node_ok_def rg)
    then have "step_ok2 \<sigma> l (Some (\<sigma>, ?l))"
      by (rule step_ok2_local [OF inv]) (simp_all add: claim2_defs pc)
    then show ?thesis using c n m 1 x by simp
  next
    case 2
    let ?l = "l\<lparr>pc2 := AcqReturned False\<rparr>"
    have "refused2 \<sigma> (lock_node l)" using 2 cmp(3) c m rg by (auto simp: refused2_def)
    then have "step_ok2 \<sigma> l (Some (\<sigma>, ?l))"
      by (intro step_ok2_local [OF inv]) (simp_all add: claim2_defs pc thread_inv2_def)
    then show ?thesis using c n m 2 by simp
  next
    case 3
    have "cell_behind \<sigma> (Next (lock_node l)) (cur l)"
      using c cmp(1) [OF 3] by (simp add: cell_behind_def cell_ok_def rg)
    from store_cur_ok [OF inv _ l _ this] c n m 3 pc show ?thesis by (simp add: inserting_def)
  qed
qed

lemma ACas_ok:
  assumes inv: "list_inv \<sigma>" and pc: "pc2 l = ACas" and ti: "thread_inv2 \<sigma> l"
  shows "step_ok2 \<sigma> l (insert_step ACas \<sigma> l)"
proof -
  from pc ti have l: "private_lock \<sigma> (lock_node l)" "prev_ok \<sigma> (lock_node l) (prev l)" "\<not> snd (cur l)"
      "load \<sigma> (Next (lock_node l)) = Some (cur l)"
    by (auto simp: thread_inv2_def)
  obtain q where cur: "cur l = (q, False)" using l(3) by (cases "cur l") auto
  obtain x where x: "load \<sigma> (prev l) = Some x" using prev_ok_load [OF l(2)] by blast
  show ?thesis
  proof (cases "x = cur l")
    case True
    let ?l = "l\<lparr>pc2 := ACount\<rparr>"
    obtain \<sigma>' where w: "store_at \<sigma> (prev l) (Some (lock_node l), False) = Some \<sigma>'"
      using store_at_defined [OF x] by blast
    have "prev l \<noteq> Head \<longrightarrow> half_open_before (rg2 \<sigma> (prev l)) (rg2 \<sigma> (Next (lock_node l)))"
      using l(2) by (cases "prev l") (auto simp: prev_ok_def)
    then have h: "list_inv \<sigma>'" "evolves2 {lock_node l} {} \<sigma> \<sigma>'" "lk2 \<sigma>' (Next (lock_node l))"
      using insert_write2 [OF inv w _ _ _ _] x True l cur
      by (auto simp: prev_ok_def private_lock_def)
    have "\<not> mk2 \<sigma>' (Next (lock_node l))"
      using evolves2D(4) [OF h(2), of "Next (lock_node l)"] l(3,4) by (auto simp: mk2_def)
    then have "thread_inv2 \<sigma>' ?l"
      using h(3) l(1) store_at_frame(4) [OF w]
      by (simp add: thread_inv2_def live_lock_def node_ok_def private_lock_def)
    with h x True w pc show ?thesis by (simp add: step_ok2_def cas_at_def claim2_defs)
  next
    case False
    let ?l = "l\<lparr>pc2 := AReload\<rparr>"
    have "thread_inv2 \<sigma> ?l" using l by (simp add: thread_inv2_def private_lock_def prev_ok_def)
    then have "step_ok2 \<sigma> l (Some (\<sigma>, ?l))"
      by (rule step_ok2_local [OF inv]) (simp_all add: claim2_defs pc)
    then show ?thesis using x False by (simp add: cas_at_def)
  qed
qed

lemma insert_step_ok:
  assumes inv: "list_inv \<sigma>" and pc: "pc2 l \<in> inserting \<union> {ACount}" and ti: "thread_inv2 \<sigma> l"
  shows "step_ok2 \<sigma> l (insert_step (pc2 l) \<sigma> l)"
proof -
  have start: "step_ok2 \<sigma> l (insert_step AStart \<sigma> l)" if p: "pc2 l = AStart"
  proof -
    have "step_ok2 \<sigma> l (Some (\<sigma>, l\<lparr>prev := Head, cur := l_head \<sigma>, pc2 := ALoop\<rparr>))"
      using p ti load_linked [OF inv load_Head]
      by (intro step_ok2_local [OF inv]) (simp_all add: thread_inv2_def claim2_defs prev_ok_def lk2_def)
    then show ?thesis by simp
  qed
  have unmark: "step_ok2 \<sigma> l (insert_step AUnmark \<sigma> l)" if p: "pc2 l = AUnmark"
  proof -
    from p ti obtain c where c: "cur l = (Some c, False)" "node_ok \<sigma> c" "mk2 \<sigma> (Next c)"
      and l: "private_lock \<sigma> (lock_node l)" "prev_ok \<sigma> (lock_node l) (prev l)"
      by (auto simp: thread_inv2_def cur_node_def)
    from c(3) obtain q where q: "load \<sigma> (Next c) = Some (q, True)"
      by (auto simp: mk2_def split: option.splits)
    have "step_ok2 \<sigma> l (Some (\<sigma>, l\<lparr>next_ptr := unmark (q, True), pc2 := ASnip\<rparr>))"
      using p c q l
      by (intro step_ok2_local [OF inv])
        (simp_all add: thread_inv2_def claim2_defs cur_node_def unmark_def)
    with c q show ?thesis by simp
  qed
  have reload: "step_ok2 \<sigma> l (insert_step AReload \<sigma> l)" if p: "pc2 l = AReload"
  proof -
    from p ti have l: "private_lock \<sigma> (lock_node l)" "prev_ok \<sigma> (lock_node l) (prev l)"
      by (auto simp: thread_inv2_def)
    obtain x where x: "load \<sigma> (prev l) = Some x" using prev_ok_load [OF l(2)] by blast
    have "step_ok2 \<sigma> l (Some (\<sigma>, l\<lparr>cur := x, pc2 := ALoop\<rparr>))"
      using p l load_linked [OF inv x]
      by (intro step_ok2_local [OF inv]) (simp_all add: thread_inv2_def claim2_defs)
    with x show ?thesis by simp
  qed
  have count: "step_ok2 \<sigma> l (insert_step ACount \<sigma> l)" if p: "pc2 l = ACount"
    using p ti inv count_frame2 by (simp add: step_ok2_def thread_inv2_def claim2_defs)
  show ?thesis
    using pc ti start unmark reload count ALoop_ok [OF inv _ ti] ASnip_ok [OF inv _ ti]
      ACompare_ok [OF inv _ ti] ACas_ok [OF inv _ ti]
    by (auto simp: inserting_def)
qed

lemma delete_step_ok:
  assumes inv: "list_inv \<sigma>" and pc: "pc2 l \<in> {DLoad, DStore, DCount}" and ti: "thread_inv2 \<sigma> l"
    and quiet: "pc2 l = DStore \<longrightarrow> load \<sigma> (Next (lock_node l)) = Some (currentNext l)"
  shows "step_ok2 \<sigma> l (delete_step (pc2 l) \<sigma> l)"
proof -
  consider "pc2 l = DLoad" | "pc2 l = DStore" | "pc2 l = DCount" using pc by auto
  then show ?thesis
  proof cases
    case 1
    with ti have l: "live_lock \<sigma> (lock_node l)" by (simp add: thread_inv2_def)
    then obtain x where x: "load \<sigma> (Next (lock_node l)) = Some x"
      using node_ok_load unfolding live_lock_def by blast
    have "step_ok2 \<sigma> l (Some (\<sigma>, l\<lparr>currentNext := x, pc2 := DStore\<rparr>))"
      using 1 l by (intro step_ok2_local [OF inv]) (simp_all add: thread_inv2_def claim2_defs)
    with x 1 show ?thesis by simp
  next
    case 2
    with ti quiet have l: "live_lock \<sigma> (lock_node l)"
      and x: "load \<sigma> (Next (lock_node l)) = Some (currentNext l)"
      by (simp_all add: thread_inv2_def)
    obtain \<sigma>' where w: "store_at \<sigma> (Next (lock_node l)) (fst (currentNext l), True) = Some \<sigma>'"
      using store_at_defined [OF x] by blast
    have "currentNext l = (fst (currentNext l), False)"
      using l x by (auto simp: live_lock_def mk2_def prod_eq_iff)
    with x have "load \<sigma> (Next (lock_node l)) = Some (fst (currentNext l), False)" by simp
    from mark_write2 [OF inv w this, of "{}"] l
    have "list_inv \<sigma>' \<and> evolves2 {} {lock_node l} \<sigma> \<sigma>'" by (simp add: live_lock_def node_ok_def)
    with w 2 show ?thesis by (simp add: step_ok2_def claim2_defs thread_inv2_def)
  next
    case 3
    with ti inv count_frame2 show ?thesis
      by (simp add: step_ok2_def thread_inv2_def claim2_defs)
  qed
qed

lemma code_step2_ok:
  assumes inv: "list_inv \<sigma>" and ti: "thread_inv2 \<sigma> l"
    and quiet: "pc2 l = DStore \<longrightarrow> load \<sigma> (Next (lock_node l)) = Some (currentNext l)"
  shows "step_ok2 \<sigma> l (code_step2 \<sigma> l)"
proof -
  consider "pc2 l \<in> {DLoad, DStore, DCount}" | "pc2 l \<in> inserting \<union> {ACount}"
    | "pc2 l \<in> {Idle2, AcqReturned True, AcqReturned False, DelReturned, Crashed2}"
    by (cases "pc2 l") (auto simp: inserting_def)
  then show ?thesis
  proof cases
    case 1
    then show ?thesis using delete_step_ok [OF inv 1 ti quiet] by (auto simp: code_step2_def)
  next
    case 2
    then show ?thesis using insert_step_ok [OF inv 2 ti]
      by (auto simp: code_step2_def inserting_def)
  next
    case 3
    have "step_ok2 \<sigma> l (Some (\<sigma>, l))" using ti by (intro step_ok2_local [OF inv]) simp_all
    with 3 show ?thesis by (simp add: code_step2_def)
  qed
qed

subsection \<open>The system\<close>

text \<open>Runs in which no store of a \<open>DeleteNode\<close> is disturbed.\<close>

inductive reachable2 :: "system2 \<Rightarrow> bool" where
  start: "reachable2 init_system2"
| event: "reachable2 S \<Longrightarrow> legal_event2 ev \<Longrightarrow> may_release2 ev S \<Longrightarrow> undisturbed ev S \<Longrightarrow>
    reachable2 (do_event2 ev S)"

definition system_inv2 :: "system2 \<Rightarrow> bool" where
  "system_inv2 S \<longleftrightarrow> list_inv (lock2 S) \<and> (\<forall>t. thread_inv2 (lock2 S) (threads2 S t)) \<and>
     (\<forall>t u. t \<noteq> u \<longrightarrow> claimed2 (threads2 S t) \<inter> claimed2 (threads2 S u) = {}) \<and>
     (\<forall>t. claimed2 (threads2 S t) \<inter> granted S = {}) \<and> (\<forall>a\<in>granted S. live_lock (lock2 S) a)"

lemma system_inv2D:
  assumes "system_inv2 S"
  shows "list_inv (lock2 S)" "thread_inv2 (lock2 S) (threads2 S t)"
    and "t \<noteq> u \<Longrightarrow> claimed2 (threads2 S t) \<inter> claimed2 (threads2 S u) = {}"
    and "claimed2 (threads2 S t) \<inter> granted S = {}" "a \<in> granted S \<Longrightarrow> live_lock (lock2 S) a"
  using assms by (simp_all add: system_inv2_def)

lemma system_inv2I:
  assumes "list_inv \<sigma>" "\<And>t. thread_inv2 \<sigma> (T t)"
    and "\<And>t u. t \<noteq> u \<Longrightarrow> claimed2 (T t) \<inter> claimed2 (T u) = {}"
    and "\<And>t. claimed2 (T t) \<inter> G = {}" "\<And>a. a \<in> G \<Longrightarrow> live_lock \<sigma> a"
  shows "system_inv2 \<lparr>lock2 = \<sigma>, threads2 = T, granted = G\<rparr>"
  using assms by (simp add: system_inv2_def)

lemma claimed2_allocated:
  "thread_inv2 \<sigma> l \<Longrightarrow> a \<in> claimed2 l \<Longrightarrow> l_heap \<sigma> a \<noteq> None"
  by (auto simp: claim2_defs thread_inv2_def private_lock_def live_lock_def node_ok_def
      split: if_splits)

lemma init_system_inv2: "system_inv2 init_system2"
proof -
  have "load ListRL p = Some c \<Longrightarrow> cell_behind ListRL p c" for p c
    by (cases p) (auto simp: load_def ListRL_def cell_behind_def cell_ok_def)
  then have "list_inv ListRL" by (simp add: list_inv_def ListRL_def)
  then show ?thesis
    by (simp add: system_inv2_def init_system2_def fresh_locals2_def thread_inv2_def claim2_defs)
qed

lemma step_keeps_system_inv2:
  assumes inv: "system_inv2 S" and quiet: "undisturbed (Step2 t) S"
  shows "system_inv2 (do_event2 (Step2 t) S)"
proof -
  let ?\<sigma> = "lock2 S" and ?l = "threads2 S t"
  note iD = system_inv2D [OF inv]
  from code_step2_ok [OF iD(1,2), of t] quiet obtain \<sigma>' l' where s: "step2 ?\<sigma> ?l = (\<sigma>', l')"
    and h: "list_inv \<sigma>'" and ev: "evolves2 (writes2 ?l) (marks2 ?l) ?\<sigma> \<sigma>'"
    and ti': "thread_inv2 \<sigma>' l'" and cl: "claimed2 l' \<subseteq> claimed2 ?l"
    and code: "code_step2 ?\<sigma> ?l = Some (\<sigma>', l')"
    by (auto simp: step_ok2_def step2_def Let_def)
  have sub: "writes2 ?l \<subseteq> claimed2 ?l" "marks2 ?l \<subseteq> claimed2 ?l" by (auto simp: claim2_defs)
  have ti: "thread_inv2 \<sigma>' (threads2 S u)" if "u \<noteq> t" for u
    using thread_inv2_stable [OF ev iD(2)] iD(3) [OF that] sub by blast
  have old: "live_lock \<sigma>' a" if "a \<in> granted S" for a
    using live_lock_stable [OF ev iD(5) [OF that]] sub iD(4) [of t] that by blast
  let ?new = "if pc2 ?l = ACount then {lock_node ?l} else {}"
  have new: "live_lock \<sigma>' a \<and> claimed2 l' = {} \<and> a \<in> claimed2 ?l" if "a \<in> ?new" for a
  proof -
    from that have p: "pc2 ?l = ACount" "a = lock_node ?l" by (auto split: if_splits)
    with code have l': "l' = ?l\<lparr>pc2 := AcqReturned True\<rparr>" by (simp add: code_step2_def)
    have "live_lock ?\<sigma> a" using iD(2) [of t] p by (simp add: thread_inv2_def)
    then have "live_lock \<sigma>' a" using live_lock_stable [OF ev] p by (simp add: claim2_defs)
    with p l' show ?thesis by (simp add: claim2_defs)
  qed
  have "do_event2 (Step2 t) S =
      \<lparr>lock2 = \<sigma>', threads2 = (threads2 S)(t := l'), granted = granted S \<union> ?new\<rparr>"
    by (rule system2.equality) (simp_all add: s)
  moreover have "system_inv2 \<dots>"
  proof (rule system_inv2I)
    show "list_inv \<sigma>'" by (rule h)
    show "thread_inv2 \<sigma>' (((threads2 S)(t := l')) u)" for u using ti ti' by simp
    show "claimed2 (((threads2 S)(t := l')) u) \<inter> claimed2 (((threads2 S)(t := l')) v) = {}"
      if "u \<noteq> v" for u v
      using cl iD(3) [OF that] iD(3) [of t u] iD(3) [of t v] that by auto
    show "claimed2 (((threads2 S)(t := l')) u) \<inter> (granted S \<union> ?new) = {}" for u
      using cl iD(4) [of u] iD(4) [of t] iD(3) [of t u] new by (cases "u = t") fastforce+
    show "live_lock \<sigma>' a" if "a \<in> granted S \<union> ?new" for a using that old new by blast
  qed
  ultimately show ?thesis by simp
qed

lemma acquire_keeps_system_inv2:
  assumes inv: "system_inv2 S" and "s < e"
  shows "system_inv2 (do_event2 (CallAcquire t s e) S)"
proof (cases "at_rest2 (threads2 S t)")
  case True
  let ?\<sigma> = "lock2 S"
  let ?s = "?\<sigma>\<lparr>l_heap := (l_heap ?\<sigma>)(l_brk ?\<sigma> \<mapsto> LNode s e), l_brk := l_brk ?\<sigma> + 1\<rparr>"
  let ?l = "(threads2 S t)\<lparr>lock_node := l_brk ?\<sigma>, pc2 := AStart\<rparr>"
  note iD = system_inv2D [OF inv]
  have h: "list_inv ?s" "evolves2 {} {} ?\<sigma> ?s" "\<not> lk2 ?s (Next (l_brk ?\<sigma>))"
    using alloc_keeps_list_inv [OF iD(1) assms(2) refl] by simp_all
  have free: "l_heap ?\<sigma> (l_brk ?\<sigma>) = None" using list_invD(2) [OF iD(1)] .
  have fresh: "l_brk ?\<sigma> \<notin> claimed2 (threads2 S u)" "l_brk ?\<sigma> \<notin> granted S" for u
    using claimed2_allocated [OF iD(2), of _ u] iD(5) free
    unfolding live_lock_def node_ok_def by blast+
  have "do_event2 (CallAcquire t s e) S =
      \<lparr>lock2 = ?s, threads2 = (threads2 S)(t := ?l), granted = granted S\<rparr>"
    by (rule system2.equality) (simp_all add: True MutexRangeAcquire_def)
  moreover have "system_inv2 \<dots>"
  proof (rule system_inv2I)
    show "list_inv ?s" by (rule h)
    show "thread_inv2 ?s (((threads2 S)(t := ?l)) u)" for u
      using thread_inv2_stable [OF h(2) iD(2)] h(3) by (simp add: thread_inv2_def private_lock_def)
    have cl: "claimed2 ?l = {l_brk ?\<sigma>}" by (simp add: claim2_defs)
    show "claimed2 (((threads2 S)(t := ?l)) u) \<inter> claimed2 (((threads2 S)(t := ?l)) v) = {}"
      if "u \<noteq> v" for u v
      using iD(3) [OF that] fresh cl that by auto
    show "claimed2 (((threads2 S)(t := ?l)) u) \<inter> granted S = {}" for u
      using iD(4) [of u] fresh cl by auto
    show "live_lock ?s a" if "a \<in> granted S" for a
      using live_lock_stable [OF h(2) iD(5) [OF that]] by simp
  qed
  ultimately show ?thesis by simp
qed (use inv in simp)

lemma make_keeps_system_inv2:
  assumes inv: "system_inv2 S" and "s < e"
  shows "system_inv2 (do_event2 (MakeLock s e) S)"
proof -
  let ?\<sigma> = "lock2 S"
  let ?s = "?\<sigma>\<lparr>l_heap := (l_heap ?\<sigma>)(l_brk ?\<sigma> \<mapsto> LNode s e), l_brk := l_brk ?\<sigma> + 1\<rparr>"
  note iD = system_inv2D [OF inv]
  have h: "list_inv ?s" "evolves2 {} {} ?\<sigma> ?s" using alloc_keeps_list_inv [OF iD(1) assms(2) refl] by simp_all
  have "do_event2 (MakeLock s e) S = \<lparr>lock2 = ?s, threads2 = threads2 S, granted = granted S\<rparr>"
    by (rule system2.equality) (simp_all add: MutexRangeAcquire_def)
  moreover have "system_inv2 \<dots>"
    by (rule system_inv2I)
      (use h(1) thread_inv2_stable [OF h(2) iD(2)] live_lock_stable [OF h(2) iD(5)] iD(3,4) in auto)
  ultimately show ?thesis by simp
qed

lemma release_keeps_system_inv2:
  assumes inv: "system_inv2 S" and a: "a \<in> granted S"
  shows "system_inv2 (do_event2 (CallRel t (Some a)) S)"
proof (cases "at_rest2 (threads2 S t)")
  case True
  let ?l = "(threads2 S t)\<lparr>lock_node := a, pc2 := DLoad\<rparr>"
  note iD = system_inv2D [OF inv]
  have "do_event2 (CallRel t (Some a)) S =
      \<lparr>lock2 = lock2 S, threads2 = (threads2 S)(t := ?l), granted = granted S - {a}\<rparr>"
    by (rule system2.equality) (simp_all add: True MutexRangeRelease_def)
  moreover have "system_inv2 \<dots>"
  proof (rule system_inv2I)
    show "list_inv (lock2 S)" by (rule iD)
    show "thread_inv2 (lock2 S) (((threads2 S)(t := ?l)) u)" for u
      using iD(2,5) a by (simp add: thread_inv2_def)
    have cl: "claimed2 ?l = {a}" by (simp add: claim2_defs)
    show "claimed2 (((threads2 S)(t := ?l)) u) \<inter> claimed2 (((threads2 S)(t := ?l)) v) = {}"
      if "u \<noteq> v" for u v
      using iD(3) [OF that] iD(4) a cl that by auto
    show "claimed2 (((threads2 S)(t := ?l)) u) \<inter> (granted S - {a}) = {}" for u
      using iD(4) [of u] cl by auto
    show "live_lock (lock2 S) b" if "b \<in> granted S - {a}" for b using iD(5) that by simp
  qed
  ultimately show ?thesis by simp
qed (use inv in auto)

lemma event_keeps_system_inv2:
  assumes "system_inv2 S" "legal_event2 ev" "may_release2 ev S" "undisturbed ev S"
  shows "system_inv2 (do_event2 ev S)"
proof (cases ev)
  case (CallAcquire t s e)
  then show ?thesis using acquire_keeps_system_inv2 [OF assms(1)] assms(2) by simp
next
  case (CallRel t rl)
  with assms(3) obtain a where "rl = Some a" "a \<in> granted S" by (auto split: option.splits)
  with CallRel show ?thesis using release_keeps_system_inv2 [OF assms(1)] by (simp only:)
next
  case (MakeLock s e)
  then show ?thesis using make_keeps_system_inv2 [OF assms(1)] assms(2) by simp
next
  case (Step2 t)
  then show ?thesis using step_keeps_system_inv2 [OF assms(1)] assms(4) by simp
qed

lemma reachable_system_inv2: "reachable2 S \<Longrightarrow> system_inv2 S"
  by (induction rule: reachable2.induct) (auto intro: init_system_inv2 event_keeps_system_inv2)

end
