(* ===== verification/V2_Properties.thy ===== *)
theory V2_Properties
  imports V2_Threads
begin

text \<open>
  What the v2 list promises, and the run that breaks it: mutual exclusion as long as no store of
  a \<open>DeleteNode\<close> is disturbed, the absence of null dereferences without any such condition, and
  the behaviour of the comparison, the pointer marks and \<open>printList\<close>.
\<close>

subsection \<open>Granted nodes\<close>

lemma list_chain_ordered:
  assumes inv: "list_inv \<sigma>"
  shows "ordered_links half_open_valid half_open_before (nx2 \<sigma>) (rg2 \<sigma>) Head"
  unfolding ordered_links_def
proof (intro allI impI)
  fix p q assume "nx2 \<sigma> p = Some q"
  then obtain c b where c: "load \<sigma> p = Some c" "fst c = Some b" "q = Next b"
    by (auto simp: nx2_def split: option.splits)
  from list_invD(5) [OF inv c(1)] c(2) have b: "node_ok \<sigma> b"
    "p \<noteq> Head \<longrightarrow> half_open_before (rg2 \<sigma> p) (rg2 \<sigma> (Next b))"
    by (auto simp: cell_behind_def cell_ok_def)
  then obtain n where n: "l_heap \<sigma> b = Some n" by (auto simp: node_ok_def)
  with list_invD(4) [OF inv n] b c(3)
  show "q \<noteq> Head \<and> half_open_valid (rg2 \<sigma> q) \<and>
      (p \<noteq> Head \<longrightarrow> half_open_before (rg2 \<sigma> p) (rg2 \<sigma> q))"
    by (simp add: rg2_def)
qed

lemma live_on_chain: "live_lock \<sigma> a \<Longrightarrow> reach (nx2 \<sigma>) Head (Next a)"
  by (auto simp: live_lock_def node_ok_def lk2_def linked_in_def)

text \<open>Undisturbed runs as a function on the run, for evaluation.\<close>

fun undisturbed_run :: "event2 list \<Rightarrow> system2 \<Rightarrow> bool" where
  "undisturbed_run [] S \<longleftrightarrow> True"
| "undisturbed_run (ev # evs) S \<longleftrightarrow>
     legal_event2 ev \<and> may_release2 ev S \<and> undisturbed ev S \<and> undisturbed_run evs (do_event2 ev S)"

lemma undisturbed_run_reachable2:
  "reachable2 S \<Longrightarrow> undisturbed_run evs S \<Longrightarrow> reachable2 (run_events2 evs S)"
  by (induction evs arbitrary: S) (auto simp: run_events2_def intro: reachable2.event)

subsection \<open>Every pointer in use leads to a node\<close>

definition ptr_ok :: "list_rl \<Rightarrow> cell \<Rightarrow> bool" where
  "ptr_ok \<sigma> c \<longleftrightarrow> (\<forall>b. fst c = Some b \<longrightarrow> l_heap \<sigma> b \<noteq> None)"

definition memory_inv :: "list_rl \<Rightarrow> bool" where
  "memory_inv \<sigma> \<longleftrightarrow> (\<forall>p c. load \<sigma> p = Some c \<longrightarrow> ptr_ok \<sigma> c)"

definition grows :: "list_rl \<Rightarrow> list_rl \<Rightarrow> bool" where
  "grows \<sigma> \<sigma>' \<longleftrightarrow> (\<forall>a. l_heap \<sigma> a \<noteq> None \<longrightarrow> l_heap \<sigma>' a \<noteq> None)"

definition locals_inv :: "list_rl \<Rightarrow> locals2 \<Rightarrow> bool" where
  "locals_inv \<sigma> l \<longleftrightarrow> pc2 l \<noteq> Crashed2 \<and>
     (at_rest2 l \<or> l_heap \<sigma> (lock_node l) \<noteq> None) \<and>
     load \<sigma> (prev l) \<noteq> None \<and> ptr_ok \<sigma> (cur l) \<and> ptr_ok \<sigma> (next_ptr l) \<and>
     ptr_ok \<sigma> (currentNext l) \<and> (pc2 l \<in> {AUnmark, ASnip, ACompare} \<longrightarrow> fst (cur l) \<noteq> None)"

definition memory_safe :: "system2 \<Rightarrow> bool" where
  "memory_safe S \<longleftrightarrow> memory_inv (lock2 S) \<and>
     (\<forall>t. pc2 (threads2 S t) \<noteq> Crashed2 \<longrightarrow> locals_inv (lock2 S) (threads2 S t))"

text \<open>Every \<open>RangeLock *\<close> passed to \<open>MutexRangeRelease\<close> is null or one that exists.\<close>

fun known_lock :: "event2 \<Rightarrow> system2 \<Rightarrow> bool" where
  "known_lock (CallRel t rl) S \<longleftrightarrow> (case rl of None \<Rightarrow> True | Some a \<Rightarrow> l_heap (lock2 S) a \<noteq> None)"
| "known_lock ev S \<longleftrightarrow> True"

fun known_locks :: "event2 list \<Rightarrow> system2 \<Rightarrow> bool" where
  "known_locks [] S \<longleftrightarrow> True"
| "known_locks (ev # evs) S \<longleftrightarrow> known_lock ev S \<and> known_locks evs (do_event2 ev S)"

definition releases_null :: "event2 \<Rightarrow> nat \<Rightarrow> system2 \<Rightarrow> bool" where
  "releases_null ev t S \<longleftrightarrow> ev = CallRel t None \<and> at_rest2 (threads2 S t)"

lemma grows_refl [simp]: "grows \<sigma> \<sigma>"
  by (simp add: grows_def)

lemma load_grows: "grows \<sigma> \<sigma>' \<Longrightarrow> load \<sigma> p \<noteq> None \<Longrightarrow> load \<sigma>' p \<noteq> None"
  by (cases p) (auto simp: load_def grows_def)

lemma ptr_ok_grows: "grows \<sigma> \<sigma>' \<Longrightarrow> ptr_ok \<sigma> c \<Longrightarrow> ptr_ok \<sigma>' c"
  by (auto simp: ptr_ok_def grows_def)

lemma locals_inv_grows: "grows \<sigma> \<sigma>' \<Longrightarrow> locals_inv \<sigma> l \<Longrightarrow> locals_inv \<sigma>' l"
  using load_grows ptr_ok_grows unfolding locals_inv_def grows_def by blast

lemma store_at_memory:
  assumes "memory_inv \<sigma>" "store_at \<sigma> p c = Some \<sigma>'" "ptr_ok \<sigma> c"
  shows "memory_inv \<sigma>' \<and> grows \<sigma> \<sigma>'"
proof -
  note fr = store_at_frame [OF assms(2)]
  have g: "grows \<sigma> \<sigma>'" using fr(4) by (simp add: grows_def)
  have "ptr_ok \<sigma>' d" if "load \<sigma>' q = Some d" for q d
  proof (cases "q = p")
    case True
    with that fr(1) have "d = c" by simp
    with ptr_ok_grows [OF g assms(3)] show ?thesis by simp
  next
    case False
    with that fr(1) have "load \<sigma> q = Some d" by simp
    with assms(1) have "ptr_ok \<sigma> d" unfolding memory_inv_def by blast
    then show ?thesis by (rule ptr_ok_grows [OF g])
  qed
  with g show ?thesis by (simp add: memory_inv_def)
qed

lemma cas_at_memory:
  assumes "memory_inv \<sigma>" "cas_at \<sigma> p e d = Some (ok, \<sigma>')" "ptr_ok \<sigma> d"
  shows "memory_inv \<sigma>' \<and> grows \<sigma> \<sigma>'"
proof -
  from assms(2) have "\<sigma>' = \<sigma> \<or> store_at \<sigma> p d = Some \<sigma>'"
    by (auto simp: cas_at_def bind_eq_Some_conv split: if_splits)
  then show ?thesis using assms(1) store_at_memory [OF assms(1) _ assms(3)] by auto
qed

lemma cas_at_defined:
  assumes "load \<sigma> p \<noteq> None"
  shows "\<exists>ok \<sigma>'. cas_at \<sigma> p e d = Some (ok, \<sigma>')"
proof -
  from assms obtain c where c: "load \<sigma> p = Some c" by blast
  with store_at_defined [OF c, of d] show ?thesis by (auto simp: cas_at_def)
qed

text \<open>What a step has to deliver for memory safety alone.\<close>

definition safe_step :: "list_rl \<Rightarrow> result2 \<Rightarrow> bool" where
  "safe_step \<sigma> r \<longleftrightarrow> (\<exists>\<sigma>' l'. r = Some (\<sigma>', l') \<and> memory_inv \<sigma>' \<and> grows \<sigma> \<sigma>' \<and> locals_inv \<sigma>' l')"

lemma ptr_ok_loaded: "memory_inv \<sigma> \<Longrightarrow> load \<sigma> p = Some c \<Longrightarrow> ptr_ok \<sigma> c"
  unfolding memory_inv_def by blast

lemma ptr_ok_load: "ptr_ok \<sigma> c \<Longrightarrow> fst c = Some b \<Longrightarrow> \<exists>n. l_heap \<sigma> b = Some n"
  by (auto simp: ptr_ok_def)

lemma store_cur_safe:
  assumes "memory_inv \<sigma>" "locals_inv \<sigma> l" "\<not> at_rest2 l"
  shows "safe_step \<sigma> (store_cur \<sigma> l)"
proof -
  from assms(2,3) obtain n where n: "l_heap \<sigma> (lock_node l) = Some n" and c: "ptr_ok \<sigma> (cur l)"
    by (auto simp: locals_inv_def)
  then obtain \<sigma>' where w: "store_at \<sigma> (Next (lock_node l)) (cur l) = Some \<sigma>'"
    by (auto simp: store_at_def)
  from store_at_memory [OF assms(1) w c] have h: "memory_inv \<sigma>'" "grows \<sigma> \<sigma>'" by simp_all
  have "locals_inv \<sigma>' (l\<lparr>pc2 := ACas\<rparr>)"
    using locals_inv_grows [OF h(2) assms(2)] assms(3) by (auto simp: locals_inv_def at_rest2_def)
  with h w show ?thesis by (simp add: safe_step_def store_cur_def)
qed

lemma safe_step_local:
  "memory_inv \<sigma> \<Longrightarrow> locals_inv \<sigma> l' \<Longrightarrow> safe_step \<sigma> (Some (\<sigma>, l'))"
  by (simp add: safe_step_def)

lemma cas_step_safe:
  assumes "memory_inv \<sigma>" "load \<sigma> p \<noteq> None" "ptr_ok \<sigma> d"
    and "\<And>ok \<sigma>'. grows \<sigma> \<sigma>' \<Longrightarrow> locals_inv \<sigma>' (k ok)"
  shows "safe_step \<sigma> (do { (ok, \<sigma>') \<leftarrow> cas_at \<sigma> p e d; Some (\<sigma>', k ok) })"
proof -
  obtain ok \<sigma>' where c: "cas_at \<sigma> p e d = Some (ok, \<sigma>')" using cas_at_defined [OF assms(2)] by blast
  from cas_at_memory [OF assms(1) c assms(3)] assms(4) c show ?thesis by (simp add: safe_step_def)
qed

lemma insert_step_safe:
  assumes inv: "memory_inv \<sigma>" and li: "locals_inv \<sigma> l" and pc: "pc2 l \<in> inserting \<union> {ACount}"
  shows "safe_step \<sigma> (insert_step (pc2 l) \<sigma> l)"
proof -
  have work: "\<not> at_rest2 l" using pc by (auto simp: inserting_def at_rest2_def)
  with li obtain m where m: "l_heap \<sigma> (lock_node l) = Some m" by (auto simp: locals_inv_def)
  from li have l: "load \<sigma> (prev l) \<noteq> None" "ptr_ok \<sigma> (cur l)" "ptr_ok \<sigma> (next_ptr l)"
    "ptr_ok \<sigma> (currentNext l)" by (simp_all add: locals_inv_def)
  have keep: "locals_inv \<sigma>' l'" if "grows \<sigma> \<sigma>'" "lock_node l' = lock_node l" "pc2 l' \<noteq> Crashed2"
      "load \<sigma> (prev l') \<noteq> None" "ptr_ok \<sigma> (cur l')" "ptr_ok \<sigma> (next_ptr l')"
      "currentNext l' = currentNext l" "pc2 l' \<in> {AUnmark, ASnip, ACompare} \<longrightarrow> fst (cur l') \<noteq> None"
    for \<sigma>' l'
    using that l(4) m load_grows [OF that(1)] ptr_ok_grows [OF that(1)]
    unfolding locals_inv_def grows_def by auto
  have node: "\<exists>n. l_heap \<sigma> c = Some n" if "fst (cur l) = Some c" for c
    using ptr_ok_load [OF l(2) that] .
  have ld: "load \<sigma> (Next c) = Some (l_next n)" if "l_heap \<sigma> c = Some n" for c n
    using that by (simp add: load_Next)
  have ne: "fst (cur l) \<noteq> None" if "pc2 l \<in> {AUnmark, ASnip, ACompare}"
    using li that unfolding locals_inv_def by blast
  obtain x where x: "load \<sigma> (prev l) = Some x" using l(1) by auto
  note loaded = ptr_ok_loaded [OF inv]
  consider "pc2 l = AStart" | "pc2 l = ALoop" | "pc2 l = AUnmark" | "pc2 l = ASnip"
    | "pc2 l = ACompare" | "pc2 l = ACas" | "pc2 l = AReload" | "pc2 l = ACount"
    using pc by (auto simp: inserting_def)
  then show ?thesis
  proof cases
    case 1
    then show ?thesis using l loaded [OF load_Head]
      by (auto intro!: safe_step_local [OF inv] keep)
  next
    case 2
    then show ?thesis
      using l node store_cur_safe [OF inv li work]
      by (auto simp: isMarked_def load_Next split: option.split intro!: safe_step_local [OF inv] keep)
  next
    case 3
    from ne 3 obtain c where c: "fst (cur l) = Some c" by auto
    with node obtain n where n: "l_heap \<sigma> c = Some n" by blast
    have "ptr_ok \<sigma> (unmark (l_next n))"
      using loaded [OF ld [OF n]] by (simp add: ptr_ok_def unmark_def)
    with 3 c ld [OF n] l show ?thesis by (auto intro!: safe_step_local [OF inv] keep)
  next
    case 4
    then show ?thesis
      using l cas_step_safe [OF inv l(1,3), of "\<lambda>_. l\<lparr>cur := next_ptr l, pc2 := ALoop\<rparr>" "cur l"] keep
      by simp
  next
    case 5
    from ne 5 obtain c where c: "fst (cur l) = Some c" by auto
    with node obtain n where n: "l_heap \<sigma> c = Some n" by blast
    have "safe_step \<sigma> (Some (\<sigma>, l\<lparr>prev := Next c, cur := l_next n, pc2 := ALoop\<rparr>))"
      "safe_step \<sigma> (Some (\<sigma>, l\<lparr>pc2 := AcqReturned False\<rparr>))"
      using l loaded [OF ld [OF n]] ld [OF n] by (auto intro!: safe_step_local [OF inv] keep)
    with 5 c n m ld [OF n] store_cur_safe [OF inv li work] show ?thesis by (simp add: Let_def)
  next
    case 6
    have "ptr_ok \<sigma> (Some (lock_node l), False)" using m by (simp add: ptr_ok_def)
    from 6 l cas_step_safe [OF inv l(1) this, of "\<lambda>ok. l\<lparr>pc2 := if ok then ACount else AReload\<rparr>" "cur l"]
      keep show ?thesis by simp
  next
    case 7
    then show ?thesis using x l loaded [OF x] by (auto intro!: safe_step_local [OF inv] keep)
  next
    case 8
    have "load (\<sigma>\<lparr>l_count := y\<rparr>) p = load \<sigma> p" for y p by (simp add: load_def split: loc.split)
    with inv have "memory_inv (\<sigma>\<lparr>l_count := l_count \<sigma> + 1\<rparr>)" "grows \<sigma> (\<sigma>\<lparr>l_count := l_count \<sigma> + 1\<rparr>)"
      by (simp_all add: memory_inv_def ptr_ok_def grows_def)
    with 8 l keep show ?thesis by (simp add: safe_step_def)
  qed
qed

lemma locals_inv_working:
  assumes "locals_inv \<sigma> l" "grows \<sigma> \<sigma>'" "l_heap \<sigma> (lock_node l) \<noteq> None"
    and "prev l' = prev l" "cur l' = cur l" "next_ptr l' = next_ptr l" "lock_node l' = lock_node l"
    and "ptr_ok \<sigma> (currentNext l')" "pc2 l' \<notin> {Crashed2, AUnmark, ASnip, ACompare}"
  shows "locals_inv \<sigma>' l'"
  using assms load_grows [OF assms(2)] ptr_ok_grows [OF assms(2)]
  unfolding locals_inv_def grows_def by auto

lemma delete_step_safe:
  assumes inv: "memory_inv \<sigma>" and li: "locals_inv \<sigma> l" and pc: "pc2 l \<in> {DLoad, DStore, DCount}"
  shows "safe_step \<sigma> (delete_step (pc2 l) \<sigma> l)"
proof -
  from pc have "\<not> at_rest2 l" by (auto simp: at_rest2_def)
  with li obtain m where m: "l_heap \<sigma> (lock_node l) = Some m" and cn: "ptr_ok \<sigma> (currentNext l)"
    by (auto simp: locals_inv_def)
  then have ld: "load \<sigma> (Next (lock_node l)) = Some (l_next m)" by (simp add: load_Next)
  note keep = locals_inv_working [OF li]
  consider "pc2 l = DLoad" | "pc2 l = DStore" | "pc2 l = DCount" using pc by auto
  then show ?thesis
  proof cases
    case 1
    then show ?thesis
      using ld m ptr_ok_loaded [OF inv ld] by (auto intro!: safe_step_local [OF inv] keep)
  next
    case 2
    obtain \<sigma>' where w: "store_at \<sigma> (Next (lock_node l)) (fst (currentNext l), True) = Some \<sigma>'"
      using store_at_defined [OF ld] by blast
    have "ptr_ok \<sigma> (fst (currentNext l), True)" using cn by (simp add: ptr_ok_def)
    from store_at_memory [OF inv w this] have h: "memory_inv \<sigma>'" "grows \<sigma> \<sigma>'" by simp_all
    have "locals_inv \<sigma>' (l\<lparr>pc2 := DCount\<rparr>)" using m cn by (intro keep [OF h(2)]) simp_all
    with 2 w h show ?thesis by (simp add: safe_step_def)
  next
    case 3
    have "load (\<sigma>\<lparr>l_count := y\<rparr>) p = load \<sigma> p" for y p by (simp add: load_def split: loc.split)
    with inv have h: "memory_inv (\<sigma>\<lparr>l_count := l_count \<sigma> - 1\<rparr>)"
        "grows \<sigma> (\<sigma>\<lparr>l_count := l_count \<sigma> - 1\<rparr>)"
      by (simp_all add: memory_inv_def ptr_ok_def grows_def)
    have "locals_inv (\<sigma>\<lparr>l_count := l_count \<sigma> - 1\<rparr>) (l\<lparr>pc2 := DelReturned\<rparr>)"
      using m cn by (intro keep [OF h(2)]) simp_all
    with 3 h show ?thesis by (simp add: safe_step_def)
  qed
qed

lemma code_step2_safe:
  assumes inv: "memory_inv \<sigma>" and li: "locals_inv \<sigma> l"
  shows "safe_step \<sigma> (code_step2 \<sigma> l)"
proof -
  consider "pc2 l \<in> {DLoad, DStore, DCount}" | "pc2 l \<in> inserting \<union> {ACount}"
    | "pc2 l \<in> {Idle2, AcqReturned True, AcqReturned False, DelReturned, Crashed2}"
    by (cases "pc2 l") (auto simp: inserting_def)
  then show ?thesis
  proof cases
    case 1
    then show ?thesis using delete_step_safe [OF inv li 1] by (auto simp: code_step2_def)
  next
    case 2
    then show ?thesis using insert_step_safe [OF inv li 2] by (auto simp: code_step2_def inserting_def)
  next
    case 3
    then show ?thesis using safe_step_local [OF inv li] by (simp add: code_step2_def)
  qed
qed

lemma init_memory_safe: "memory_safe init_system2"
proof -
  have "load ListRL p = Some c \<Longrightarrow> ptr_ok ListRL c" for p c
    by (cases p) (auto simp: load_def ListRL_def ptr_ok_def)
  then show ?thesis
    by (simp add: memory_safe_def memory_inv_def init_system2_def fresh_locals2_def locals_inv_def
        at_rest2_def ptr_ok_def)
qed

lemma alloc_memory:
  assumes "memory_inv \<sigma>"
  shows "memory_inv (fst (MutexRangeAcquire s e \<sigma> l)) \<and> grows \<sigma> (fst (MutexRangeAcquire s e \<sigma> l))"
proof -
  let ?s = "fst (MutexRangeAcquire s e \<sigma> l)"
  have g: "grows \<sigma> ?s" by (simp add: grows_def MutexRangeAcquire_def)
  have "load ?s q = (if q = Next (l_brk \<sigma>) then Some (None, False) else load \<sigma> q)" for q
    by (auto simp: load_def LNode_def MutexRangeAcquire_def split: loc.split)
  moreover have "ptr_ok ?s (None, False)" by (simp add: ptr_ok_def)
  ultimately have "memory_inv ?s" using assms ptr_ok_grows [OF g] unfolding memory_inv_def by (metis option.inject)
  with g show ?thesis by simp
qed

lemma event_memory_safe:
  assumes "memory_safe S" "known_lock ev S"
  shows "memory_safe (do_event2 ev S)"
    and "pc2 (threads2 (do_event2 ev S) t) = Crashed2 \<longleftrightarrow> pc2 (threads2 S t) = Crashed2 \<or> releases_null ev t S"
proof -
  let ?\<sigma> = "lock2 S"
  from assms(1) have inv: "memory_inv ?\<sigma>" and li: "\<And>t. pc2 (threads2 S t) \<noteq> Crashed2 \<Longrightarrow> locals_inv ?\<sigma> (threads2 S t)"
    by (simp_all add: memory_safe_def)
  have rest: "pc2 (threads2 S u) \<noteq> Crashed2" if "at_rest2 (threads2 S u)" for u
    using that by (auto simp: at_rest2_def)
  have "memory_safe (do_event2 ev S) \<and>
    (pc2 (threads2 (do_event2 ev S) t) = Crashed2 \<longleftrightarrow> pc2 (threads2 S t) = Crashed2 \<or> releases_null ev t S)"
  proof (cases ev)
    case (CallAcquire u s e)
    note g = alloc_memory [OF inv, of s e "threads2 S u"]
    have "locals_inv (fst (MutexRangeAcquire s e ?\<sigma> (threads2 S u))) (snd (MutexRangeAcquire s e ?\<sigma> (threads2 S u)))"
      if "at_rest2 (threads2 S u)"
      using locals_inv_grows [OF conjunct2 [OF g] li [OF rest [OF that]]] by (auto simp: locals_inv_def MutexRangeAcquire_def)
    moreover have "pc2 (snd (MutexRangeAcquire s e ?\<sigma> (threads2 S u))) \<noteq> Crashed2" by (simp add: MutexRangeAcquire_def)
    ultimately show ?thesis
      using CallAcquire g locals_inv_grows [OF conjunct2 [OF g] li] assms(1) rest
      by (auto simp: memory_safe_def releases_null_def split_def Let_def)
  next
    case (CallRel u rl)
    have "locals_inv ?\<sigma> (MutexRangeRelease (Some a) (threads2 S u))" "pc2 (MutexRangeRelease (Some a) (threads2 S u)) \<noteq> Crashed2"
      if "rl = Some a" "at_rest2 (threads2 S u)" for a
      using li [OF rest [OF that(2)]] assms(2) CallRel that(1) by (simp_all add: locals_inv_def MutexRangeRelease_def)
    moreover have "pc2 (MutexRangeRelease None (threads2 S u)) = Crashed2" by (simp add: MutexRangeRelease_def)
    ultimately show ?thesis
      using CallRel inv li assms(1) rest by (cases rl) (auto simp: memory_safe_def releases_null_def)
  next
    case (MakeLock s e)
    with alloc_memory [OF inv, of s e fresh_locals2] locals_inv_grows li show ?thesis
      by (auto simp: memory_safe_def releases_null_def)
  next
    case (Step2 u)
    show ?thesis
    proof (cases "pc2 (threads2 S u) = Crashed2")
      case True
      then have "do_event2 (Step2 u) S = S" by (simp add: step2_def code_step2_def)
      with Step2 assms(1) show ?thesis by (simp add: releases_null_def)
    next
      case False
      from code_step2_safe [OF inv li [OF False]] obtain \<sigma>' l' where s: "code_step2 ?\<sigma> (threads2 S u) = Some (\<sigma>', l')"
        and h: "memory_inv \<sigma>'" "grows ?\<sigma> \<sigma>'" "locals_inv \<sigma>' l'"
        by (auto simp: safe_step_def)
      from h(3) have "pc2 l' \<noteq> Crashed2" by (simp add: locals_inv_def)
      with h s Step2 locals_inv_grows [OF h(2) li] False show ?thesis
        by (auto simp: memory_safe_def step2_def releases_null_def)
    qed
  qed
  then show "memory_safe (do_event2 ev S)"
    and "pc2 (threads2 (do_event2 ev S) t) = Crashed2 \<longleftrightarrow> pc2 (threads2 S t) = Crashed2 \<or> releases_null ev t S"
    by blast+
qed

lemma split_Cons: "(\<exists>xs b ys. a # as = xs @ b # ys \<and> P xs b) \<longleftrightarrow> P [] a \<or> (\<exists>xs b ys. as = xs @ b # ys \<and> P (a # xs) b)"
  by (auto simp: Cons_eq_append_conv)

lemma crash_cause:
  assumes "memory_safe S" "known_locks evs S"
  shows "pc2 (threads2 (run_events2 evs S) t) = Crashed2 \<longleftrightarrow> pc2 (threads2 S t) = Crashed2 \<or>
    (\<exists>before ev rest. evs = before @ ev # rest \<and> releases_null ev t (run_events2 before S))"
  using assms
proof (induction evs arbitrary: S)
  case (Cons ev evs)
  have run: "run_events2 (ev # evs') S = run_events2 evs' (do_event2 ev S)" for evs' by (simp add: run_events2_def)
  have "run_events2 [] S = S" by (simp add: run_events2_def)
  then have "(\<exists>before ev' rest. ev # evs = before @ ev' # rest \<and> releases_null ev' t (run_events2 before S)) \<longleftrightarrow>
      releases_null ev t S \<or>
      (\<exists>before ev' rest. evs = before @ ev' # rest \<and> releases_null ev' t (run_events2 before (do_event2 ev S)))"
    unfolding split_Cons [where P = "\<lambda>xs b. releases_null b t (run_events2 xs S)"] run by simp
  moreover from Cons.prems have k: "known_lock ev S" "known_locks evs (do_event2 ev S)" by simp_all
  ultimately show ?case
    using Cons.IH [OF event_memory_safe(1) [OF Cons.prems(1) k(1)] k(2)] event_memory_safe(2) [OF Cons.prems(1) k(1), of t]
    unfolding run by blast
qed (simp add: run_events2_def)


subsection \<open>Properties\<close>

text \<open>
  C14. Mutual exclusion of the v2 list: in every state reached by runs in which no store of a
  \<open>DeleteNode\<close> finds another value than its load read and callers release only \<open>RangeLock\<close>s that are
  held, two different \<open>RangeLock\<close>s the callers hold have ranges that do not overlap.
\<close>
theorem v2_mutual_exclusion:
  assumes "reachable2 S" "a \<in> granted S" "b \<in> granted S" "a \<noteq> b"
  shows "\<not> half_open_overlaps (rg2 (lock2 S) (Next a)) (rg2 (lock2 S) (Next b))"
proof -
  note iD = system_inv2D [OF reachable_system_inv2 [OF assms(1)]]
  show ?thesis
    using half_open.chain_disjoint [OF list_chain_ordered [OF iD(1)]] assms(4)
      live_on_chain [OF iD(5) [OF assms(2)]] live_on_chain [OF iD(5) [OF assms(3)]]
    by simp
qed

theorem v2_mutual_exclusion_witness:
  "\<not> half_open_overlaps (10, 20 :: 64 word) (20, 30)"
proof -
  let ?evs = "CallAcquire 0 10 20 # CallAcquire 1 20 30 # concat (replicate 9 [Step2 0, Step2 1])"
  let ?S = "run_events2 ?evs init_system2"
  have "undisturbed_run ?evs init_system2" by code_simp
  then have r: "reachable2 ?S" by (rule undisturbed_run_reachable2 [OF reachable2.start])
  have g: "0 \<in> granted ?S" "1 \<in> granted ?S" by code_simp+
  have "rg2 (lock2 ?S) (Next 0) = (10, 20)" "rg2 (lock2 ?S) (Next 1) = (20, 30)" by code_simp+
  with v2_mutual_exclusion [OF r g zero_neq_one] show ?thesis by (simp only: not_False_eq_True)
qed



text \<open>
  C36. The only null pointer a thread on the v2 list ever follows is the one a caller passes to
  \<open>MutexRangeRelease\<close>, the result of a refused \<open>MutexRangeAcquire\<close> for instance: whatever the calls, the
  ranges and the interleaving, disturbed stores, repeated releases and \<open>RangeLock\<close>s the callers make
  themselves included, a thread crashes if and only if it has called \<open>MutexRangeRelease\<close> with null.
  Every pointer passed to \<open>MutexRangeRelease\<close> is null or points to a \<open>RangeLock\<close> that exists.
\<close>
theorem v2_crashes_only_on_null:
  assumes "known_locks evs init_system2"
  shows "pc2 (threads2 (run_events2 evs init_system2) t) = Crashed2 \<longleftrightarrow>
    (\<exists>before rest. evs = before @ CallRel t None # rest \<and> at_rest2 (threads2 (run_events2 before init_system2) t))"
proof -
  have "pc2 (threads2 init_system2 t) \<noteq> Crashed2" by (simp add: init_system2_def fresh_locals2_def)
  with crash_cause [OF init_memory_safe assms, of t] show ?thesis by (simp add: releases_null_def)
qed

text \<open>Thread 1 is refused the range of thread 0 and releases the null pointer it got.\<close>

theorem v2_crashes_only_on_null_witness:
  "let S = run_events2 ([CallAcquire 0 10 20] @ replicate 5 (Step2 0) @ [CallAcquire 1 15 25] @ replicate 5 (Step2 1) @
     [CallRel 1 None]) init_system2
   in pc2 (threads2 S 1) = Crashed2 \<and> pc2 (threads2 S 0) \<noteq> Crashed2"
proof -
  let ?b = "[CallAcquire 0 10 20] @ replicate 5 (Step2 0) @ [CallAcquire 1 15 25] @ replicate 5 (Step2 1)"
  have k: "known_locks (?b @ [CallRel 1 None]) init_system2" by code_simp
  have "at_rest2 (threads2 (run_events2 ?b init_system2) 1)" by code_simp
  with v2_crashes_only_on_null [OF k, of 1] have "pc2 (threads2 (run_events2 (?b @ [CallRel 1 None]) init_system2) 1) = Crashed2"
    by blast
  moreover have "CallRel 0 None \<notin> set (?b @ [CallRel 1 None])" by simp
  with v2_crashes_only_on_null [OF k, of 0] have "pc2 (threads2 (run_events2 (?b @ [CallRel 1 None]) init_system2) 0) \<noteq> Crashed2"
    by (metis in_set_conv_decomp)
  ultimately show ?thesis unfolding Let_def by simp
qed

text \<open>
  A held range is on the list: its node is reached from the head by following the \<open>next\<close>
  pointers, and its own pointer is unmarked, so that every later search meets it.
\<close>
theorem v2_granted_on_list:
  assumes "reachable2 S" "a \<in> granted S"
  shows "reach (nx2 (lock2 S)) Head (Next a) \<and> \<not> mk2 (lock2 S) (Next a)"
  using system_inv2D(5) [OF reachable_system_inv2 [OF assms(1)] assms(2)]
  by (simp add: live_on_chain) (simp add: live_lock_def)

theorem v2_granted_on_list_witness:
  "reach (nx2 (lock2 (run_events2 (CallAcquire 0 10 20 # replicate 5 (Step2 0)) init_system2)))
    Head (Next 0)"
proof -
  let ?evs = "CallAcquire 0 10 20 # replicate 5 (Step2 0)"
  have "undisturbed_run ?evs init_system2" by code_simp
  then have r: "reachable2 (run_events2 ?evs init_system2)"
    by (rule undisturbed_run_reachable2 [OF reachable2.start])
  have "0 \<in> granted (run_events2 ?evs init_system2)" by code_simp
  from v2_granted_on_list [OF r this] show ?thesis by blast
qed

text \<open>
  A refusal has a cause: when \<open>MutexRangeAcquire\<close> returns null, its range overlaps the range
  of a node that was inserted (and may be deleted by now).
\<close>
theorem v2_refusal_has_cause:
  assumes "reachable2 S" "pc2 (threads2 S t) = AcqReturned False"
  shows "\<exists>c. lk2 (lock2 S) (Next c) \<and>
    half_open_overlaps (rg2 (lock2 S) (Next (lock_node (threads2 S t)))) (rg2 (lock2 S) (Next c))"
  using system_inv2D(2) [OF reachable_system_inv2 [OF assms(1)], of t] assms(2)
  by (auto simp: thread_inv2_def refused2_def node_ok_def)

theorem v2_refusal_has_cause_witness:
  "\<exists>c. half_open_overlaps (15, 25) (rg2 (lock2 (run_events2 (CallAcquire 0 10 20 #
    replicate 5 (Step2 0) @ CallAcquire 1 15 25 # replicate 5 (Step2 1)) init_system2)) (Next c))"
proof -
  let ?evs = "CallAcquire 0 10 20 # replicate 5 (Step2 0) @ CallAcquire 1 15 25 # replicate 5 (Step2 1)"
  let ?S = "run_events2 ?evs init_system2"
  have "undisturbed_run ?evs init_system2" by code_simp
  then have r: "reachable2 ?S" by (rule undisturbed_run_reachable2 [OF reachable2.start])
  have p: "pc2 (threads2 ?S 1) = AcqReturned False" by code_simp
  have "rg2 (lock2 ?S) (Next (lock_node (threads2 ?S 1))) = (15, 25)" by code_simp
  with v2_refusal_has_cause [OF r p] show ?thesis by (metis (no_types))
qed

text \<open>
  \<open>compare\<close> on non-empty ranges is 0 exactly when the ranges overlap, 1 when the list node
  comes after the new one, -1 when it comes before, and 1 for the end of the list.
\<close>
theorem compare_nodes_correct:
  assumes "l_start m < l_end m"
  shows "compare_nodes None m = 1 \<and>
    (l_start n < l_end n \<longrightarrow>
      (compare_nodes (Some n) m = 0 \<longleftrightarrow> half_open_overlaps (l_start n, l_end n) (l_start m, l_end m)) \<and>
      (compare_nodes (Some n) m = 1 \<longleftrightarrow> half_open_before (l_start m, l_end m) (l_start n, l_end n)) \<and>
      (compare_nodes (Some n) m = -1 \<longleftrightarrow> half_open_before (l_start n, l_end n) (l_start m, l_end m)))"
  using assms by (auto simp: compare_nodes_def half_open_defs not_le split: if_splits)

theorem compare_nodes_correct_witness:
  "compare_nodes (Some (LNode 5 9)) (LNode 9 12) = -1"
  using compare_nodes_correct [of "LNode 9 12" "LNode 5 9"]
  by (simp add: LNode_def half_open_before_def)

text \<open>
  On machine words the mark of a pointer is its lowest bit: for a node address (an even word)
  marking, testing and unmarking the word are what the model does on the pair.
\<close>
theorem word_marks_refine_cells:
  assumes "\<And>x. aligned (f x)"
  shows "isMarked_word (pack (f (fst c)) (snd c)) = isMarked c \<and>
    unmark_word (pack (f (fst c)) (snd c)) = pack (f (fst (unmark c))) (snd (unmark c)) \<and>
    mark_word (pack (f (fst c)) (snd c)) = pack (f (fst c)) True"
proof (intro conjI)
  have w: "unpack (pack (f (fst c)) (snd c)) = (f (fst c), snd c)" by (rule unpack_pack [OF assms])
  show "isMarked_word (pack (f (fst c)) (snd c)) = isMarked c"
    using unpack_mark [of "pack (f (fst c)) (snd c)"] w
    by (simp add: isMarked_word_def isMarked_def unpack_def Let_def MARK_MASK_def)
  show "unmark_word (pack (f (fst c)) (snd c)) = pack (f (fst (unmark c))) (snd (unmark c))"
    using w by (simp add: unmark_word_def unmark_def unpack_def Let_def MARK_MASK_def pack_def)
  show "mark_word (pack (f (fst c)) (snd c)) = pack (f (fst c)) True"
    by (intro bit_word_eqI) (auto simp: mark_word_def bit_or_iff bit_pack bit_one_iff)
qed

theorem word_marks_refine_cells_witness:
  "isMarked_word (pack 0x40 True) \<and> unmark_word (pack 0x40 True) = pack 0x40 False"
  using word_marks_refine_cells [of "\<lambda>_. 0x40" "(Some 0, True)"]
  by (simp add: aligned_def MARK_MASK_def isMarked_def unmark_def)

text \<open>
  \<open>segment \<sigma> c ns d\<close>: from the unmarked pointer \<open>c\<close> the nodes \<open>ns\<close> follow one another through
  unmarked pointers up to the pointer \<open>d\<close>.
\<close>

primrec segment :: "list_rl \<Rightarrow> cell \<Rightarrow> addr list \<Rightarrow> cell \<Rightarrow> bool" where
  "segment \<sigma> c [] d \<longleftrightarrow> c = d"
| "segment \<sigma> c (a # ns) d \<longleftrightarrow> c = (Some a, False) \<and>
     (case l_heap \<sigma> a of None \<Rightarrow> False | Some n \<Rightarrow> segment \<sigma> (l_next n) ns d)"

definition range_token :: "list_rl \<Rightarrow> addr \<Rightarrow> token" where
  "range_token \<sigma> a = Range (l_start (the (l_heap \<sigma> a))) (l_end (the (l_heap \<sigma> a)))"

lemma print_from_segment:
  "segment \<sigma> c ns d \<Longrightarrow> print_from \<sigma> c out = print_from \<sigma> d (out @ map (range_token \<sigma>) ns)"
proof (induction ns arbitrary: c out)
  case (Cons a ns)
  then obtain n where "c = (Some a, False)" "l_heap \<sigma> a = Some n" "segment \<sigma> (l_next n) ns d"
    by (auto split: option.splits)
  with Cons.IH show ?case by (simp add: print_from.simps [of \<sigma> "(Some a, False)"] isMarked_def range_token_def)
qed simp

text \<open>
  \<open>printList\<close> prints the ranges of the list in order and ends when no pointer is marked; but
  when a deleted node is still on the list it meets that node's marked pointer, prints the mark
  in place of the next range and reads through an address that is no node.
\<close>
theorem printList_correct:
  assumes "segment \<sigma> (l_head \<sigma>) ns d"
  shows "(d = (None, False) \<longrightarrow> printList \<sigma> = Some (Printed (map (range_token \<sigma>) ns @ [Newline]))) \<and>
    (isMarked d \<longrightarrow> printList \<sigma> = Some (Bad_Access (map (range_token \<sigma>) ns @ [Deleted])))"
  unfolding printList_def print_from_segment [OF assms] by (auto simp: print_from.simps [of \<sigma> "(None, False)"] print_from.simps [of \<sigma> d] isMarked_def)

theorem printList_correct_witness:
  "printList (lock2 (run_events2 ([CallAcquire 0 10 20] @ replicate 5 (Step2 0) @
      [CallAcquire 1 30 40] @ replicate 9 (Step2 1) @ [CallRel 0 (Some 0)] @ replicate 3 (Step2 0))
      init_system2)) = Some (Bad_Access [Range 10 20, Deleted])"
proof -
  let ?\<sigma> = "lock2 (run_events2 ([CallAcquire 0 10 20] @ replicate 5 (Step2 0) @
      [CallAcquire 1 30 40] @ replicate 9 (Step2 1) @ [CallRel 0 (Some 0)] @ replicate 3 (Step2 0))
      init_system2)"
  have s: "segment ?\<sigma> (l_head ?\<sigma>) [0] (Some 1, True)" by code_simp
  have t: "range_token ?\<sigma> 0 = Range 10 20" by code_simp
  from printList_correct [OF s] show ?thesis
    unfolding list.map t by (simp only: isMarked_def snd_conv append.simps simp_thms)
qed

end
