(* ===== verification/V3_Song.thy ===== *)
theory V3_Song
  imports V0_Markable_Reference RL_Random_Level RL_Abstract_Lock
begin

text \<open>
  The skip-list range lock of \<open>src/v3/range_lock.hpp\<close> and \<open>range_lock.cpp\<close>. Every operation holds
  \<open>spinlock_\<close> from its first to its last access, so an operation is one transition of the state.
  \<open>None\<close> is a null pointer followed, an index out of bounds or a loop that does not end.
\<close>

subsection \<open>Data\<close>

record skip_node =
  sn_start :: "64 word"
  sn_end :: "64 word"
  sn_level :: nat
  sn_forward :: "addr option list"

definition SkipListNode :: "64 word \<Rightarrow> 64 word \<Rightarrow> nat \<Rightarrow> skip_node" where
  "SkipListNode s e level =
     \<lparr>sn_start = s, sn_end = e, sn_level = level, sn_forward = replicate (level + 1) None\<rparr>"

record song =
  s_heap :: "addr \<Rightarrow> skip_node option"
  s_brk :: addr
  s_head :: addr
  s_tail :: addr
  s_count :: "64 word"

definition MAX_LEVEL :: nat where
  "MAX_LEVEL = 3"

definition MAX_VALUE :: "64 word" where
  "MAX_VALUE = not 0"

definition AllocNode :: "64 word \<Rightarrow> 64 word \<Rightarrow> nat \<Rightarrow> song \<Rightarrow> addr \<times> song" where
  "AllocNode s e level \<sigma> =
     (s_brk \<sigma>, \<sigma>\<lparr>s_heap := (s_heap \<sigma>)(s_brk \<sigma> \<mapsto> SkipListNode s e level), s_brk := s_brk \<sigma> + 1\<rparr>)"

definition forward :: "song \<Rightarrow> addr \<Rightarrow> nat \<Rightarrow> addr option option" where
  "forward \<sigma> a k = do {
     n \<leftarrow> s_heap \<sigma> a;
     if k < length (sn_forward n) then Some (sn_forward n ! k) else None }"

definition set_forward :: "song \<Rightarrow> addr \<Rightarrow> nat \<Rightarrow> addr option \<Rightarrow> song option" where
  "set_forward \<sigma> a k v = do {
     n \<leftarrow> s_heap \<sigma> a;
     if k < length (sn_forward n)
     then Some (\<sigma>\<lparr>s_heap := (s_heap \<sigma>)(a \<mapsto> n\<lparr>sn_forward := (sn_forward n)[k := v]\<rparr>)\<rparr>) else None }"

text \<open>The constructor: the loop of \<open>for (auto i = 0; i <= MAX_LEVEL; ++i)\<close> from \<open>i\<close> on.\<close>

fun link_head :: "nat \<Rightarrow> song \<Rightarrow> song option" where
  "link_head 0 \<sigma> = Some \<sigma>"
| "link_head (Suc todo) \<sigma> = do {
     \<sigma>' \<leftarrow> set_forward \<sigma> (s_head \<sigma>) (MAX_LEVEL - todo) (Some (s_tail \<sigma>));
     link_head todo \<sigma>' }"

definition SongRangeLock :: "song option" where
  "SongRangeLock =
     (let \<sigma>0 = \<lparr>s_heap = (\<lambda>_. None), s_brk = 0, s_head = 0, s_tail = 0, s_count = 0\<rparr>;
          (h, \<sigma>1) = AllocNode 0 0 MAX_LEVEL \<sigma>0;
          (t, \<sigma>2) = AllocNode MAX_VALUE MAX_VALUE MAX_LEVEL \<sigma>1
      in link_head (MAX_LEVEL + 1) (\<sigma>2\<lparr>s_head := h, s_tail := t\<rparr>))"

definition size_v3 :: "song \<Rightarrow> 64 word" where
  "size_v3 \<sigma> = s_count \<sigma>"

definition randomLevel_v3 :: "(nat \<Rightarrow> nat) \<Rightarrow> nat" where
  "randomLevel_v3 rnd = randomLevel MAX_LEVEL rnd"

subsection \<open>FindNodes\<close>

text \<open>
  The inner loop \<open>while (curr = pred->forward[k], curr->end < start) pred = curr\<close>; it yields the
  last values of \<open>pred\<close> and \<open>curr\<close>.
\<close>

partial_function (option) find_walk ::
  "song \<Rightarrow> nat \<Rightarrow> 64 word \<Rightarrow> addr \<Rightarrow> (addr \<times> addr) option" where
  "find_walk \<sigma> k s pred = do {
     c \<leftarrow> forward \<sigma> pred k;
     curr \<leftarrow> c;
     n \<leftarrow> s_heap \<sigma> curr;
     if sn_end n < s then find_walk \<sigma> k s curr else Some (pred, curr) }"

declare find_walk.simps [code]

fun find_levels ::
  "song \<Rightarrow> 64 word \<Rightarrow> nat \<Rightarrow> addr \<Rightarrow> (nat \<Rightarrow> addr) \<Rightarrow> (addr \<times> addr \<times> (nat \<Rightarrow> addr)) option" where
  "find_levels \<sigma> s k pred out_nodes = do {
     (pred', curr) \<leftarrow> find_walk \<sigma> k s pred;
     let out' = out_nodes(k := pred');
     case k of 0 \<Rightarrow> Some (pred', curr, out')
     | Suc j \<Rightarrow> find_levels \<sigma> s j pred' out' }"

definition FindNodes :: "song \<Rightarrow> 64 word \<Rightarrow> 64 word \<Rightarrow> (bool \<times> (nat \<Rightarrow> addr)) option" where
  "FindNodes \<sigma> s e = do {
     (pred, curr, out_nodes) \<leftarrow> find_levels \<sigma> s MAX_LEVEL (s_head \<sigma>) (\<lambda>_. s_head \<sigma>);
     p \<leftarrow> s_heap \<sigma> pred;
     c \<leftarrow> s_heap \<sigma> curr;
     Some (if pred = s_head \<sigma> then \<not> (s \<ge> sn_end p \<and> e < sn_start c)
           else \<not> (s > sn_end p \<and> e < sn_start c), out_nodes) }"

subsection \<open>InsertRange and tryLock\<close>

text \<open>The loop over the levels \<open>0 .. lv\<close>; \<open>todo\<close> levels are left.\<close>

fun link_levels :: "nat \<Rightarrow> nat \<Rightarrow> (nat \<Rightarrow> addr) \<Rightarrow> addr \<Rightarrow> song \<Rightarrow> song option" where
  "link_levels 0 lv nodes q \<sigma> = Some \<sigma>"
| "link_levels (Suc todo) lv nodes q \<sigma> = (let k = lv - todo in do {
     x \<leftarrow> forward \<sigma> (nodes k) k;
     \<sigma>1 \<leftarrow> set_forward \<sigma> q k x;
     \<sigma>2 \<leftarrow> set_forward \<sigma>1 (nodes k) k (Some q);
     link_levels todo lv nodes q \<sigma>2 })"

definition InsertRange ::
  "(nat \<Rightarrow> addr) \<Rightarrow> 64 word \<Rightarrow> 64 word \<Rightarrow> (nat \<Rightarrow> nat) \<Rightarrow> song \<Rightarrow> song option" where
  "InsertRange nodes s e rnd \<sigma> =
     (let lv = randomLevel_v3 rnd;
          (q, \<sigma>1) = AllocNode s e lv \<sigma>
      in link_levels (lv + 1) lv nodes q \<sigma>1)"

definition tryLock_v3 :: "64 word \<Rightarrow> 64 word \<Rightarrow> (nat \<Rightarrow> nat) \<Rightarrow> song \<Rightarrow> (bool \<times> song) option" where
  "tryLock_v3 s e rnd \<sigma> = do {
     (found, nodes) \<leftarrow> FindNodes \<sigma> s e;
     if found then Some (False, \<sigma>)
     else do {
       \<sigma>' \<leftarrow> InsertRange nodes s e rnd \<sigma>;
       Some (True, \<sigma>'\<lparr>s_count := s_count \<sigma>' + 1\<rparr>) } }"

subsection \<open>releaseLock\<close>

text \<open>The inner loop \<open>while ((succ = pred->forward[level]) && succ->start < start) pred = succ\<close>.\<close>

partial_function (option) release_walk :: "song \<Rightarrow> nat \<Rightarrow> 64 word \<Rightarrow> addr \<Rightarrow> addr option" where
  "release_walk \<sigma> k s pred = do {
     succ \<leftarrow> forward \<sigma> pred k;
     case succ of None \<Rightarrow> Some pred
     | Some a \<Rightarrow> do {
         n \<leftarrow> s_heap \<sigma> a;
         if sn_start n < s then release_walk \<sigma> k s a else Some pred } }"

declare release_walk.simps [code]

fun release_levels ::
  "song \<Rightarrow> 64 word \<Rightarrow> nat \<Rightarrow> addr \<Rightarrow> (nat \<Rightarrow> addr) \<Rightarrow> (nat \<Rightarrow> addr) option" where
  "release_levels \<sigma> s k pred preds = do {
     pred' \<leftarrow> release_walk \<sigma> k s pred;
     let preds' = preds(k := pred');
     case k of 0 \<Rightarrow> Some preds'
     | Suc j \<Rightarrow> release_levels \<sigma> s j pred' preds' }"

text \<open>
  The loop \<open>for (level = 0; level <= MAX_LEVEL && preds[level]->forward[level] == curr; level++)\<close>;
  \<open>todo\<close> levels are left.
\<close>

fun unlink_levels :: "nat \<Rightarrow> (nat \<Rightarrow> addr) \<Rightarrow> addr option \<Rightarrow> song \<Rightarrow> song option" where
  "unlink_levels 0 preds curr_node \<sigma> = Some \<sigma>"
| "unlink_levels (Suc todo) preds curr_node \<sigma> = (let level = MAX_LEVEL - todo in do {
     x \<leftarrow> forward \<sigma> (preds level) level;
     if x = curr_node then do {
       c \<leftarrow> curr_node;
       y \<leftarrow> forward \<sigma> c level;
       \<sigma>' \<leftarrow> set_forward \<sigma> (preds level) level y;
       unlink_levels todo preds curr_node \<sigma>' }
     else Some \<sigma> })"

definition releaseLock_v3 :: "64 word \<Rightarrow> song \<Rightarrow> song option" where
  "releaseLock_v3 s \<sigma> = do {
     preds \<leftarrow> release_levels \<sigma> s MAX_LEVEL (s_head \<sigma>) (\<lambda>_. s_head \<sigma>);
     curr \<leftarrow> forward \<sigma> (preds 0) 0;
     \<sigma>' \<leftarrow> unlink_levels (MAX_LEVEL + 1) preds curr \<sigma>;
     Some (\<sigma>'\<lparr>s_count := s_count \<sigma>' - 1\<rparr>) }"

subsection \<open>displayList and the destructor\<close>

text \<open>
  The display as data: for each level, from the highest down, a cell per element, the range of
  the element or the dashes of an element that is not on the level.
\<close>

datatype display = List_Is_Empty | Display_Levels "(nat \<times> (64 word \<times> 64 word) option list) list"

fun display_elements :: "nat \<Rightarrow> addr option \<Rightarrow> song \<Rightarrow> skip_node list option" where
  "display_elements 0 current \<sigma> = Some []"
| "display_elements (Suc len) current \<sigma> = do {
     a \<leftarrow> current;
     n \<leftarrow> s_heap \<sigma> a;
     next \<leftarrow> forward \<sigma> a 0;
     ns \<leftarrow> display_elements len next \<sigma>;
     Some (n # ns) }"

definition displayList_v3 :: "song \<Rightarrow> display option" where
  "displayList_v3 \<sigma> =
     (if s_count \<sigma> = 0 then Some List_Is_Empty
      else do {
        current \<leftarrow> forward \<sigma> (s_head \<sigma>) 0;
        ns \<leftarrow> display_elements (unat (s_count \<sigma>)) current \<sigma>;
        Some (Display_Levels (map (\<lambda>i. (i, map (\<lambda>n. if i \<le> sn_level n
          then Some (sn_start n, sn_end n) else None) ns)) (rev [0 ..< MAX_LEVEL + 1]))) })"

text \<open>The nodes the destructor frees, in their order.\<close>

partial_function (option) free_walk :: "song \<Rightarrow> addr \<Rightarrow> addr list option" where
  "free_walk \<sigma> p = do {
     q \<leftarrow> forward \<sigma> p 0;
     case q of None \<Rightarrow> Some [p]
     | Some a \<Rightarrow> do { freed \<leftarrow> free_walk \<sigma> a; Some (p # freed) } }"

declare free_walk.simps [code]

definition destroy_SongRangeLock :: "song \<Rightarrow> addr list option" where
  "destroy_SongRangeLock \<sigma> = free_walk \<sigma> (s_head \<sigma>)"

end
