(* ===== verification/V3_Layout.thy ===== *)
theory V3_Layout
  imports V3_Song
begin

text \<open>
  The shape of the v3 skip list: the nodes of the list in their order, of which the chain of
  each level is the part that is high enough. The searches, the insertion and the removal are
  described by what they do to this list of nodes.
\<close>

subsection \<open>Chains\<close>

definition s_rg :: "song \<Rightarrow> addr \<Rightarrow> 64 word range" where
  "s_rg \<sigma> a = (sn_start (the (s_heap \<sigma> a)), sn_end (the (s_heap \<sigma> a)))"

definition s_lev :: "song \<Rightarrow> addr \<Rightarrow> nat" where
  "s_lev \<sigma> a = sn_level (the (s_heap \<sigma> a))"

fun chain :: "song \<Rightarrow> nat \<Rightarrow> addr list \<Rightarrow> bool" where
  "chain \<sigma> k (a # b # xs) \<longleftrightarrow> forward \<sigma> a k = Some (Some b) \<and> chain \<sigma> k (b # xs)"
| "chain \<sigma> k xs \<longleftrightarrow> True"

lemma chain_split: "chain \<sigma> k (xs @ y # ys) \<longleftrightarrow> chain \<sigma> k (xs @ [y]) \<and> chain \<sigma> k (y # ys)"
proof (induction xs)
  case (Cons a xs)
  then show ?case by (cases xs) auto
qed simp

lemma chain_link: "chain \<sigma> k (xs @ a # b # ys) \<Longrightarrow> forward \<sigma> a k = Some (Some b)"
  by (simp add: chain_split [of \<sigma> k xs a "b # ys"])

lemma chain_cong:
  assumes "chain \<sigma> k xs" "\<And>a. a \<in> set (butlast xs) \<Longrightarrow> forward \<sigma>' a k = forward \<sigma> a k"
  shows "chain \<sigma>' k xs"
  using assms by (induction \<sigma> k xs rule: chain.induct) auto

text \<open>Putting \<open>q\<close> behind \<open>p\<close>, and cutting \<open>c\<close> out behind \<open>p\<close>.\<close>

lemma chain_put:
  assumes "chain \<sigma> k (xs @ p # c # ys)" "distinct (xs @ p # c # ys)" "q \<notin> set (xs @ p # c # ys)"
    and "\<And>a. a \<noteq> p \<Longrightarrow> a \<noteq> q \<Longrightarrow> forward \<sigma>' a k = forward \<sigma> a k"
    and "forward \<sigma>' p k = Some (Some q)" "forward \<sigma>' q k = Some (Some c)"
  shows "chain \<sigma>' k (xs @ p # q # c # ys)"
proof -
  have "chain \<sigma> k (xs @ [p])" "chain \<sigma> k (c # ys)"
    using assms(1) chain_split [of \<sigma> k xs p "c # ys"] by simp_all
  note old = this
  have "chain \<sigma>' k (xs @ [p])"
  proof (rule chain_cong [OF old(1)])
    fix a assume "a \<in> set (butlast (xs @ [p]))"
    then have "a \<noteq> p" "a \<noteq> q" using assms(2,3) by auto
    then show "forward \<sigma>' a k = forward \<sigma> a k" by (rule assms(4))
  qed
  moreover have "chain \<sigma>' k (c # ys)"
  proof (rule chain_cong [OF old(2)])
    fix a assume "a \<in> set (butlast (c # ys))"
    then have "a \<noteq> p" "a \<noteq> q" using assms(2,3) by (auto dest!: in_set_butlastD split: if_splits)
    then show "forward \<sigma>' a k = forward \<sigma> a k" by (rule assms(4))
  qed
  ultimately show ?thesis using assms(5,6) chain_split [of \<sigma>' k xs p "q # c # ys"] by simp
qed

lemma chain_cut:
  assumes "chain \<sigma> k (xs @ p # c # d # ys)" "distinct (xs @ p # c # d # ys)"
    and "\<And>a. a \<noteq> p \<Longrightarrow> forward \<sigma>' a k = forward \<sigma> a k" "forward \<sigma>' p k = Some (Some d)"
  shows "chain \<sigma>' k (xs @ p # d # ys)"
proof -
  have "chain \<sigma> k (xs @ [p])" "chain \<sigma> k (d # ys)"
    using assms(1) chain_split [of \<sigma> k xs p "c # d # ys"] by simp_all
  note old = this
  have "chain \<sigma>' k (xs @ [p])"
  proof (rule chain_cong [OF old(1)])
    fix a assume "a \<in> set (butlast (xs @ [p]))"
    then have "a \<noteq> p" using assms(2,3) by auto
    then show "forward \<sigma>' a k = forward \<sigma> a k" by (rule assms(3))
  qed
  moreover have "chain \<sigma>' k (d # ys)"
  proof (rule chain_cong [OF old(2)])
    fix a assume "a \<in> set (butlast (d # ys))"
    then have "a \<noteq> p" using assms(2,3) by (auto dest!: in_set_butlastD split: if_splits)
    then show "forward \<sigma>' a k = forward \<sigma> a k" by (rule assms(3))
  qed
  ultimately show ?thesis using assms(4) chain_split [of \<sigma>' k xs p "d # ys"] by simp
qed

subsection \<open>The searches along a chain\<close>

lemma find_walk_chain:
  assumes "chain \<sigma> k (p # xs @ c # ys)" "\<forall>x\<in>set xs. s_heap \<sigma> x \<noteq> None \<and> snd (s_rg \<sigma> x) < s"
    and "s_heap \<sigma> c \<noteq> None" "\<not> snd (s_rg \<sigma> c) < s"
  shows "find_walk \<sigma> k s p = Some (last (p # xs), c)"
  using assms(1,2)
proof (induction xs arbitrary: p)
  case Nil
  then show ?case using assms(3,4) by (subst find_walk.simps) (auto simp: s_rg_def)
next
  case (Cons x xs)
  from Cons.prems have "forward \<sigma> p k = Some (Some x)" "find_walk \<sigma> k s x = Some (last (x # xs), c)"
    using Cons.IH [of x] by auto
  with Cons.prems(2) show ?case by (subst find_walk.simps) (auto simp: s_rg_def)
qed

lemma release_walk_chain:
  assumes "chain \<sigma> k (p # xs @ c # ys)" "\<forall>x\<in>set xs. s_heap \<sigma> x \<noteq> None \<and> fst (s_rg \<sigma> x) < s"
    and "s_heap \<sigma> c \<noteq> None" "\<not> fst (s_rg \<sigma> c) < s"
  shows "release_walk \<sigma> k s p = Some (last (p # xs))"
  using assms(1,2)
proof (induction xs arbitrary: p)
  case Nil
  then show ?case using assms(3,4) by (subst release_walk.simps) (auto simp: s_rg_def)
next
  case (Cons x xs)
  from Cons.prems have "forward \<sigma> p k = Some (Some x)" "release_walk \<sigma> k s x = Some (last (x # xs))"
    using Cons.IH [of x] by auto
  with Cons.prems(2) show ?case by (subst release_walk.simps) (auto simp: s_rg_def)
qed

subsection \<open>The layout\<close>

definition tower :: "song \<Rightarrow> nat \<Rightarrow> addr list \<Rightarrow> addr list" where
  "tower \<sigma> k ns = filter (\<lambda>a. k \<le> s_lev \<sigma> a) ns"

definition full_chain :: "song \<Rightarrow> nat \<Rightarrow> addr list \<Rightarrow> addr list" where
  "full_chain \<sigma> k ns = s_head \<sigma> # tower \<sigma> k ns @ [s_tail \<sigma>]"

definition well_formed_skip_node :: "skip_node \<Rightarrow> bool" where
  "well_formed_skip_node n \<longleftrightarrow> length (sn_forward n) = sn_level n + 1 \<and> sn_level n \<le> MAX_LEVEL"

definition layout :: "song \<Rightarrow> addr list \<Rightarrow> bool" where
  "layout \<sigma> ns \<longleftrightarrow> distinct (s_head \<sigma> # ns @ [s_tail \<sigma>]) \<and>
     (\<forall>a\<in>set (s_head \<sigma> # ns @ [s_tail \<sigma>]). \<exists>n. s_heap \<sigma> a = Some n \<and> well_formed_skip_node n) \<and>
     s_rg \<sigma> (s_head \<sigma>) = (0, 0) \<and> s_rg \<sigma> (s_tail \<sigma>) = (MAX_VALUE, MAX_VALUE) \<and>
     s_lev \<sigma> (s_head \<sigma>) = MAX_LEVEL \<and> s_lev \<sigma> (s_tail \<sigma>) = MAX_LEVEL \<and>
     (\<forall>a\<in>set ns. closed_valid (s_rg \<sigma> a) \<and> snd (s_rg \<sigma> a) < MAX_VALUE) \<and>
     sorted_wrt closed_before (map (s_rg \<sigma>) ns) \<and>
     (\<forall>k\<le>MAX_LEVEL. chain \<sigma> k (full_chain \<sigma> k ns) \<and> forward \<sigma> (s_tail \<sigma>) k = Some None) \<and>
     (\<forall>a. s_heap \<sigma> a \<noteq> None \<longrightarrow> a < s_brk \<sigma>)"

lemma layoutD:
  assumes "layout \<sigma> ns"
  shows "distinct (s_head \<sigma> # ns @ [s_tail \<sigma>])"
    and "a \<in> set (s_head \<sigma> # ns @ [s_tail \<sigma>]) \<Longrightarrow> \<exists>n. s_heap \<sigma> a = Some n \<and> well_formed_skip_node n"
    and "s_rg \<sigma> (s_head \<sigma>) = (0, 0)" "s_rg \<sigma> (s_tail \<sigma>) = (MAX_VALUE, MAX_VALUE)"
    and "a \<in> set ns \<Longrightarrow> closed_valid (s_rg \<sigma> a)" "a \<in> set ns \<Longrightarrow> snd (s_rg \<sigma> a) < MAX_VALUE"
    and "sorted_wrt closed_before (map (s_rg \<sigma>) ns)"
    and "k \<le> MAX_LEVEL \<Longrightarrow> chain \<sigma> k (full_chain \<sigma> k ns)"
    and "k \<le> MAX_LEVEL \<Longrightarrow> forward \<sigma> (s_tail \<sigma>) k = Some None"
    and "s_heap \<sigma> a \<noteq> None \<Longrightarrow> a < s_brk \<sigma>"
    and "s_lev \<sigma> (s_head \<sigma>) = MAX_LEVEL" "s_lev \<sigma> (s_tail \<sigma>) = MAX_LEVEL"
  using assms unfolding layout_def by blast+

lemma tower_append [simp]: "tower \<sigma> k (xs @ ys) = tower \<sigma> k xs @ tower \<sigma> k ys"
  by (simp add: tower_def)

lemma tower_0 [simp]: "tower \<sigma> 0 xs = xs"
  by (simp add: tower_def)

lemma set_tower: "set (tower \<sigma> k xs) \<subseteq> set xs"
  by (auto simp: tower_def)

lemma tower_mono: "j \<le> k \<Longrightarrow> set (tower \<sigma> k xs) \<subseteq> set (tower \<sigma> j xs)"
  by (auto simp: tower_def)

text \<open>
  A search with the test \<open>T\<close> cuts the list in two: the nodes before, where the test holds, and
  the rest. It leaves level \<open>k\<close> at the last high enough node of the first part.
\<close>

definition cuts :: "song \<Rightarrow> (addr \<Rightarrow> bool) \<Rightarrow> addr list \<Rightarrow> addr list \<Rightarrow> bool" where
  "cuts \<sigma> T ps qs \<longleftrightarrow> (\<forall>a\<in>set ps. T a) \<and> (\<forall>a\<in>set (qs @ [s_tail \<sigma>]). \<not> T a)"

definition pred_at :: "song \<Rightarrow> addr list \<Rightarrow> nat \<Rightarrow> addr" where
  "pred_at \<sigma> ps k = last (s_head \<sigma> # tower \<sigma> k ps)"

definition next_at :: "song \<Rightarrow> addr list \<Rightarrow> nat \<Rightarrow> addr" where
  "next_at \<sigma> qs k = hd (tower \<sigma> k qs @ [s_tail \<sigma>])"

lemma pred_at_mem: "pred_at \<sigma> ps k \<in> set (s_head \<sigma> # tower \<sigma> k ps)"
  unfolding pred_at_def by (rule last_in_set) simp

lemma full_chain_cut:
  "full_chain \<sigma> k (ps @ qs) = butlast (s_head \<sigma> # tower \<sigma> k ps) @ pred_at \<sigma> ps k # next_at \<sigma> qs k #
     tl (tower \<sigma> k qs @ [s_tail \<sigma>])"
proof -
  have "s_head \<sigma> # tower \<sigma> k ps = butlast (s_head \<sigma> # tower \<sigma> k ps) @ [pred_at \<sigma> ps k]"
    unfolding pred_at_def by (rule append_butlast_last_id [symmetric]) simp
  moreover have "tower \<sigma> k qs @ [s_tail \<sigma>] = next_at \<sigma> qs k # tl (tower \<sigma> k qs @ [s_tail \<sigma>])"
    unfolding next_at_def by (rule list.collapse [symmetric]) simp
  ultimately show ?thesis
    unfolding full_chain_def tower_append by (metis append_Cons append_assoc append_Nil)
qed

text \<open>From a node of the first part the way leads to \<open>pred_at\<close>.\<close>

lemma chain_from:
  assumes lay: "layout \<sigma> (ps @ qs)" and "k \<le> MAX_LEVEL" and p: "p \<in> set (s_head \<sigma> # tower \<sigma> k ps)"
  obtains xs where "chain \<sigma> k (p # xs @ next_at \<sigma> qs k # tl (tower \<sigma> k qs @ [s_tail \<sigma>]))"
    "last (p # xs) = pred_at \<sigma> ps k" "set xs \<subseteq> set ps"
proof -
  from split_list [OF p] obtain us xs where eq: "s_head \<sigma> # tower \<sigma> k ps = us @ p # xs" by blast
  let ?r = "tower \<sigma> k qs @ [s_tail \<sigma>]"
  have r: "?r = next_at \<sigma> qs k # tl ?r"
    unfolding next_at_def by (rule list.collapse [symmetric]) simp
  have "full_chain \<sigma> k (ps @ qs) = us @ p # xs @ ?r"
    using arg_cong [OF eq, of "\<lambda>l. l @ ?r"] by (simp add: full_chain_def)
  then have "chain \<sigma> k (p # xs @ ?r)"
    using layoutD(8) [OF lay assms(2)] chain_split [of \<sigma> k us p "xs @ ?r"] by simp
  moreover have "last (p # xs) = pred_at \<sigma> ps k"
    unfolding pred_at_def eq by simp
  moreover have "set xs \<subseteq> set (tower \<sigma> k ps)"
    using eq by (cases us) auto
  then have "set xs \<subseteq> set ps" using set_tower by blast
  ultimately show ?thesis using that r by metis
qed

lemma next_at_mem: "next_at \<sigma> qs k \<in> set (qs @ [s_tail \<sigma>])"
  using set_tower [of \<sigma> k qs] by (cases "tower \<sigma> k qs") (auto simp: next_at_def)

lemma layout_heap: "layout \<sigma> ns \<Longrightarrow> a \<in> set (s_head \<sigma> # ns @ [s_tail \<sigma>]) \<Longrightarrow> s_heap \<sigma> a \<noteq> None"
  using layoutD(2) by blast

lemma find_levels_layout:
  assumes lay: "layout \<sigma> (ps @ qs)" and c: "cuts \<sigma> (\<lambda>a. snd (s_rg \<sigma> a) < s) ps qs"
    and "k \<le> MAX_LEVEL" "p \<in> set (s_head \<sigma> # tower \<sigma> k ps)"
  shows "find_levels \<sigma> s k p out =
    Some (pred_at \<sigma> ps 0, next_at \<sigma> qs 0, \<lambda>j. if j \<le> k then pred_at \<sigma> ps j else out j)"
  using assms(3,4)
proof (induction k arbitrary: p out)
  case (0 p out)
  from chain_from [OF lay 0] obtain xs where xs:
    "chain \<sigma> 0 (p # xs @ next_at \<sigma> qs 0 # tl (tower \<sigma> 0 qs @ [s_tail \<sigma>]))"
    "last (p # xs) = pred_at \<sigma> ps 0" "set xs \<subseteq> set ps"
    by blast
  have "find_walk \<sigma> 0 s p = Some (last (p # xs), next_at \<sigma> qs 0)"
    using xs(3) c next_at_mem [of \<sigma> qs 0] layout_heap [OF lay]
    by (intro find_walk_chain [OF xs(1)]) (auto simp: cuts_def)
  with xs(2) show ?case by (auto simp: fun_eq_iff)
next
  case (Suc k p out)
  from chain_from [OF lay Suc.prems] obtain xs where xs:
    "chain \<sigma> (Suc k) (p # xs @ next_at \<sigma> qs (Suc k) # tl (tower \<sigma> (Suc k) qs @ [s_tail \<sigma>]))"
    "last (p # xs) = pred_at \<sigma> ps (Suc k)" "set xs \<subseteq> set ps"
    by blast
  have w: "find_walk \<sigma> (Suc k) s p = Some (pred_at \<sigma> ps (Suc k), next_at \<sigma> qs (Suc k))"
    unfolding xs(2) [symmetric]
    using xs(3) c next_at_mem [of \<sigma> qs "Suc k"] layout_heap [OF lay]
    by (intro find_walk_chain [OF xs(1)]) (auto simp: cuts_def)
  have "pred_at \<sigma> ps (Suc k) \<in> set (s_head \<sigma> # tower \<sigma> k ps)"
    using pred_at_mem [of \<sigma> ps "Suc k"] tower_mono [of k "Suc k" \<sigma> ps] by auto
  with Suc.IH [OF _ this] Suc.prems(1) w show ?case by (auto simp: fun_eq_iff le_Suc_eq)
qed

lemma release_levels_layout:
  assumes lay: "layout \<sigma> (ps @ qs)" and c: "cuts \<sigma> (\<lambda>a. fst (s_rg \<sigma> a) < s) ps qs"
    and "k \<le> MAX_LEVEL" "p \<in> set (s_head \<sigma> # tower \<sigma> k ps)"
  shows "release_levels \<sigma> s k p out = Some (\<lambda>j. if j \<le> k then pred_at \<sigma> ps j else out j)"
  using assms(3,4)
proof (induction k arbitrary: p out)
  case (0 p out)
  from chain_from [OF lay 0] obtain xs where xs:
    "chain \<sigma> 0 (p # xs @ next_at \<sigma> qs 0 # tl (tower \<sigma> 0 qs @ [s_tail \<sigma>]))"
    "last (p # xs) = pred_at \<sigma> ps 0" "set xs \<subseteq> set ps"
    by blast
  have "release_walk \<sigma> 0 s p = Some (last (p # xs))"
    using xs(3) c next_at_mem [of \<sigma> qs 0] layout_heap [OF lay]
    by (intro release_walk_chain [OF xs(1)]) (auto simp: cuts_def)
  with xs(2) show ?case by (auto simp: fun_eq_iff)
next
  case (Suc k p out)
  from chain_from [OF lay Suc.prems] obtain xs where xs:
    "chain \<sigma> (Suc k) (p # xs @ next_at \<sigma> qs (Suc k) # tl (tower \<sigma> (Suc k) qs @ [s_tail \<sigma>]))"
    "last (p # xs) = pred_at \<sigma> ps (Suc k)" "set xs \<subseteq> set ps"
    by blast
  have w: "release_walk \<sigma> (Suc k) s p = Some (pred_at \<sigma> ps (Suc k))"
    unfolding xs(2) [symmetric]
    using xs(3) c next_at_mem [of \<sigma> qs "Suc k"] layout_heap [OF lay]
    by (intro release_walk_chain [OF xs(1)]) (auto simp: cuts_def)
  have "pred_at \<sigma> ps (Suc k) \<in> set (s_head \<sigma> # tower \<sigma> k ps)"
    using pred_at_mem [of \<sigma> ps "Suc k"] tower_mono [of k "Suc k" \<sigma> ps] by auto
  with Suc.IH [OF _ this] Suc.prems(1) w show ?case by (auto simp: fun_eq_iff le_Suc_eq)
qed

end
