(* ===== verification/V3_Proofs.thy ===== *)
theory V3_Proofs
  imports V3_Layout
begin

text \<open>
  The operations of the v3 lock on a well-formed list: they return, and what they do to the
  list of nodes.
\<close>

subsection \<open>Writes\<close>

definition same_shape :: "song \<Rightarrow> song \<Rightarrow> bool" where
  "same_shape \<sigma> \<sigma>' \<longleftrightarrow> s_head \<sigma>' = s_head \<sigma> \<and> s_tail \<sigma>' = s_tail \<sigma> \<and> s_brk \<sigma>' = s_brk \<sigma> \<and>
     s_count \<sigma>' = s_count \<sigma> \<and> (\<forall>a. s_heap \<sigma>' a = None \<longleftrightarrow> s_heap \<sigma> a = None) \<and>
     (\<forall>a n. s_heap \<sigma> a = Some n \<longrightarrow> (\<exists>n'. s_heap \<sigma>' a = Some n' \<and> sn_start n' = sn_start n \<and>
        sn_end n' = sn_end n \<and> sn_level n' = sn_level n \<and>
        length (sn_forward n') = length (sn_forward n)))"

lemma same_shape_refl [simp]: "same_shape \<sigma> \<sigma>"
  by (simp add: same_shape_def)

lemma same_shapeD:
  assumes "same_shape \<sigma> \<sigma>'"
  shows "s_head \<sigma>' = s_head \<sigma>" "s_tail \<sigma>' = s_tail \<sigma>" "s_brk \<sigma>' = s_brk \<sigma>" "s_count \<sigma>' = s_count \<sigma>"
    and "s_heap \<sigma>' a = None \<longleftrightarrow> s_heap \<sigma> a = None"
    and "s_heap \<sigma> a = Some n \<Longrightarrow> \<exists>n'. s_heap \<sigma>' a = Some n' \<and> sn_start n' = sn_start n \<and>
        sn_end n' = sn_end n \<and> sn_level n' = sn_level n \<and>
        length (sn_forward n') = length (sn_forward n)"
  using assms unfolding same_shape_def by blast+

lemma same_shape_trans:
  assumes "same_shape \<sigma> \<sigma>1" "same_shape \<sigma>1 \<sigma>2"
  shows "same_shape \<sigma> \<sigma>2"
proof -
  have "\<exists>n'. s_heap \<sigma>2 a = Some n' \<and> sn_start n' = sn_start n \<and> sn_end n' = sn_end n \<and>
      sn_level n' = sn_level n \<and> length (sn_forward n') = length (sn_forward n)"
    if "s_heap \<sigma> a = Some n" for a n
    using same_shapeD(6) [OF assms(1) that] same_shapeD(6) [OF assms(2), of a] by fastforce
  with same_shapeD(1-5) [OF assms(1)] same_shapeD(1-5) [OF assms(2)] show ?thesis
    by (simp add: same_shape_def)
qed

lemma same_shape_fields:
  assumes "same_shape \<sigma> \<sigma>'" "s_heap \<sigma> a \<noteq> None"
  shows "s_rg \<sigma>' a = s_rg \<sigma> a" "s_lev \<sigma>' a = s_lev \<sigma> a"
  using assms(2) same_shapeD(6) [OF assms(1), of a] by (auto simp: s_rg_def s_lev_def)

lemma set_forward_ok:
  assumes "s_heap \<sigma> a = Some n" "k < length (sn_forward n)"
  shows "\<exists>\<sigma>'. set_forward \<sigma> a k v = Some \<sigma>' \<and> same_shape \<sigma> \<sigma>' \<and>
    (\<forall>b j. forward \<sigma>' b j = (if b = a \<and> j = k then Some v else forward \<sigma> b j))"
  using assms
  by (auto simp: set_forward_def same_shape_def forward_def nth_list_update)

lemma forward_Some: "forward \<sigma> a k = Some v \<Longrightarrow> \<exists>n. s_heap \<sigma> a = Some n \<and> k < length (sn_forward n)"
  by (auto simp: forward_def bind_eq_Some_conv split: if_splits)

lemma chain_other_level:
  "chain \<sigma> j xs \<Longrightarrow> (\<And>a. forward \<sigma>' a j = forward \<sigma> a j) \<Longrightarrow> chain \<sigma>' j xs"
  by (rule chain_cong)

subsection \<open>The loops over the levels\<close>

lemma link_levels_ok:
  assumes "lv \<le> MAX_LEVEL" "todo \<le> lv + 1"
    and shape: "\<And>k. k \<le> lv \<Longrightarrow> old k = us k @ nodes k # cs k # ys k \<and>
      new k = us k @ nodes k # q # cs k # ys k \<and> distinct (old k) \<and> q \<notin> set (old k)"
    and q: "s_heap \<sigma> q = Some n" "length (sn_forward n) = lv + 1"
    and ch: "\<And>k. k \<le> MAX_LEVEL \<Longrightarrow> chain \<sigma> k (if k < lv + 1 - todo then new k else old k)"
  shows "\<exists>\<sigma>'. link_levels todo lv nodes q \<sigma> = Some \<sigma>' \<and> same_shape \<sigma> \<sigma>' \<and>
    (\<forall>k\<le>MAX_LEVEL. chain \<sigma>' k (if k \<le> lv then new k else old k)) \<and>
    (\<forall>a k. a \<noteq> q \<longrightarrow> a \<notin> nodes ` {..lv} \<longrightarrow> forward \<sigma>' a k = forward \<sigma> a k)"
  using assms(2) q ch
proof (induction todo arbitrary: \<sigma> n)
  case 0
  then show ?case using assms(1) by (auto simp: less_Suc_eq_le)
next
  case (Suc todo \<sigma>)
  let ?k = "lv - todo"
  have k: "?k \<le> lv" "?k \<le> MAX_LEVEL" "lv + 1 - Suc todo = ?k" "lv + 1 - todo = Suc ?k"
    using assms(1) Suc.prems(1) by auto
  note sh = shape [OF k(1)]
  have old: "chain \<sigma> ?k (old ?k)" using Suc.prems(4) [OF k(2)] k(3) by simp
  then have x: "forward \<sigma> (nodes ?k) ?k = Some (Some (cs ?k))" using sh chain_link by metis
  have "?k < length (sn_forward n)" using Suc.prems(3) k(1) by simp
  from set_forward_ok [OF Suc.prems(2) this, of "Some (cs ?k)"] obtain \<sigma>1 where
    s1: "set_forward \<sigma> q ?k (Some (cs ?k)) = Some \<sigma>1" "same_shape \<sigma> \<sigma>1"
      "\<And>b j. forward \<sigma>1 b j = (if b = q \<and> j = ?k then Some (Some (cs ?k)) else forward \<sigma> b j)"
    by blast
  have ne: "nodes ?k \<noteq> q" using sh by auto
  then have "forward \<sigma>1 (nodes ?k) ?k = Some (Some (cs ?k))" using x s1(3) by simp
  then obtain m where "s_heap \<sigma>1 (nodes ?k) = Some m" "?k < length (sn_forward m)"
    using forward_Some by blast
  from set_forward_ok [OF this, of "Some q"] obtain \<sigma>2 where
    s2: "set_forward \<sigma>1 (nodes ?k) ?k (Some q) = Some \<sigma>2" "same_shape \<sigma>1 \<sigma>2"
      "\<And>b j. forward \<sigma>2 b j = (if b = nodes ?k \<and> j = ?k then Some (Some q) else forward \<sigma>1 b j)"
    by blast
  have f2: "forward \<sigma>2 b j = (if b = nodes ?k \<and> j = ?k then Some (Some q)
      else if b = q \<and> j = ?k then Some (Some (cs ?k)) else forward \<sigma> b j)" for b j
    by (simp add: s2(3) s1(3))
  have shp: "same_shape \<sigma> \<sigma>2" using s1(2) s2(2) by (rule same_shape_trans)
  obtain n2 where n2: "s_heap \<sigma>2 q = Some n2" "length (sn_forward n2) = lv + 1"
    using same_shapeD(6) [OF shp Suc.prems(2)] Suc.prems(3) by auto
  have dist: "distinct (us ?k @ nodes ?k # cs ?k # ys ?k)" "q \<notin> set (us ?k @ nodes ?k # cs ?k # ys ?k)"
    using sh by metis+
  have "chain \<sigma>2 ?k (new ?k)"
    unfolding sh [THEN conjunct2, THEN conjunct1]
    by (rule chain_put [OF old [unfolded sh [THEN conjunct1]] dist]) (use ne in \<open>simp_all add: f2\<close>)
  moreover have "chain \<sigma>2 j (if j < ?k then new j else old j)" if "j \<le> MAX_LEVEL" "j \<noteq> ?k" for j
    by (rule chain_other_level [OF Suc.prems(4) [OF that(1), unfolded k(3)]]) (simp add: f2 that(2))
  ultimately have "chain \<sigma>2 j (if j < lv + 1 - todo then new j else old j)" if "j \<le> MAX_LEVEL" for j
    using that unfolding k(4) by (cases "j = ?k") (auto simp: less_Suc_eq)
  from Suc.IH [OF _ n2 this] Suc.prems(1) obtain \<sigma>' where \<sigma>': "link_levels todo lv nodes q \<sigma>2 = Some \<sigma>'"
    "same_shape \<sigma>2 \<sigma>'" "\<forall>k\<le>MAX_LEVEL. chain \<sigma>' k (if k \<le> lv then new k else old k)"
    "\<forall>a k. a \<noteq> q \<longrightarrow> a \<notin> nodes ` {..lv} \<longrightarrow> forward \<sigma>' a k = forward \<sigma>2 a k"
    by auto
  have "link_levels (Suc todo) lv nodes q \<sigma> = Some \<sigma>'"
    using x s1(1) s2(1) \<sigma>'(1) by (simp add: Let_def)
  moreover have "forward \<sigma>2 a j = forward \<sigma> a j" if "a \<noteq> q" "a \<notin> nodes ` {..lv}" for a j
    using that f2 k(1) by auto
  ultimately show ?case using \<sigma>' same_shape_trans [OF shp \<sigma>'(2)] by simp
qed

lemma unlink_levels_ok:
  assumes "lc \<le> MAX_LEVEL" "todo \<le> MAX_LEVEL + 1"
    and shape: "\<And>k. k \<le> lc \<Longrightarrow> old k = us k @ preds k # c # ds k # ys k \<and>
      new k = us k @ preds k # ds k # ys k \<and> distinct (old k)"
    and stop: "\<And>k. lc < k \<Longrightarrow> k \<le> MAX_LEVEL \<Longrightarrow> \<exists>x. forward \<sigma> (preds k) k = Some x \<and> x \<noteq> Some c"
    and ch: "\<And>k. k \<le> MAX_LEVEL \<Longrightarrow>
      chain \<sigma> k (if k \<le> lc \<and> k < MAX_LEVEL + 1 - todo then new k else old k)"
  shows "\<exists>\<sigma>'. unlink_levels todo preds (Some c) \<sigma> = Some \<sigma>' \<and> same_shape \<sigma> \<sigma>' \<and>
    (\<forall>k\<le>MAX_LEVEL. chain \<sigma>' k (if k \<le> lc then new k else old k)) \<and>
    (\<forall>a k. a \<notin> preds ` {..lc} \<longrightarrow> forward \<sigma>' a k = forward \<sigma> a k)"
  using assms(2) stop ch
proof (induction todo arbitrary: \<sigma>)
  case 0
  then show ?case by (auto simp: less_Suc_eq_le)
next
  case (Suc todo \<sigma>)
  let ?k = "MAX_LEVEL - todo"
  have k: "?k \<le> MAX_LEVEL" "MAX_LEVEL + 1 - Suc todo = ?k" "MAX_LEVEL + 1 - todo = Suc ?k"
    using Suc.prems(1) by auto
  show ?case
  proof (cases "?k \<le> lc")
    case False
    with Suc.prems(2) [of ?k] k(1) obtain x where "forward \<sigma> (preds ?k) ?k = Some x" "x \<noteq> Some c"
      by auto
    then have "unlink_levels (Suc todo) preds (Some c) \<sigma> = Some \<sigma>" by (simp add: Let_def)
    moreover have "chain \<sigma> j (if j \<le> lc then new j else old j)" if "j \<le> MAX_LEVEL" for j
    proof (cases "j \<le> lc")
      case True
      then have "j < MAX_LEVEL + 1 - Suc todo" using False k(2) by simp
      with Suc.prems(3) [OF that] True show ?thesis by simp
    next
      case no: False
      with Suc.prems(3) [OF that] show ?thesis by simp
    qed
    ultimately show ?thesis by simp
  next
    case True
    note sh = shape [OF True]
    have "chain \<sigma> ?k (old ?k)" using Suc.prems(3) [OF k(1)] k(2) by simp
    note old = this [unfolded sh [THEN conjunct1]]
    have x: "forward \<sigma> (preds ?k) ?k = Some (Some c)"
      using chain_link [of \<sigma> ?k "us ?k" "preds ?k" c] old by simp
    have y: "forward \<sigma> c ?k = Some (Some (ds ?k))"
      using chain_link [of \<sigma> ?k "us ?k @ [preds ?k]" c "ds ?k" "ys ?k"] old by simp
    obtain m where "s_heap \<sigma> (preds ?k) = Some m" "?k < length (sn_forward m)"
      using forward_Some [OF x] by blast
    from set_forward_ok [OF this, of "Some (ds ?k)"] obtain \<sigma>2 where
      s2: "set_forward \<sigma> (preds ?k) ?k (Some (ds ?k)) = Some \<sigma>2" "same_shape \<sigma> \<sigma>2"
        "\<And>b j. forward \<sigma>2 b j = (if b = preds ?k \<and> j = ?k then Some (Some (ds ?k)) else forward \<sigma> b j)"
      by blast
    have dist: "distinct (us ?k @ preds ?k # c # ds ?k # ys ?k)" using sh by metis
    have "chain \<sigma>2 ?k (new ?k)"
      unfolding sh [THEN conjunct2, THEN conjunct1] by (rule chain_cut [OF old dist]) (simp_all add: s2(3))
    moreover have "chain \<sigma>2 j (if j \<le> lc \<and> j < ?k then new j else old j)"
      if "j \<le> MAX_LEVEL" "j \<noteq> ?k" for j
      by (rule chain_other_level [OF Suc.prems(3) [OF that(1), unfolded k(2)]]) (simp add: s2(3) that(2))
    ultimately have ch2: "chain \<sigma>2 j (if j \<le> lc \<and> j < MAX_LEVEL + 1 - todo then new j else old j)"
      if "j \<le> MAX_LEVEL" for j
      using that True unfolding k(3) by (cases "j = ?k") (auto simp: less_Suc_eq)
    have stop2: "\<exists>x. forward \<sigma>2 (preds j) j = Some x \<and> x \<noteq> Some c" if "lc < j" "j \<le> MAX_LEVEL" for j
    proof -
      have "j \<noteq> ?k" using that(1) True by simp
      then show ?thesis using Suc.prems(2) [OF that] by (simp add: s2(3))
    qed
    from Suc.IH [OF _ stop2 ch2] Suc.prems(1) obtain \<sigma>' where
      \<sigma>': "unlink_levels todo preds (Some c) \<sigma>2 = Some \<sigma>'" "same_shape \<sigma>2 \<sigma>'"
      "\<forall>k\<le>MAX_LEVEL. chain \<sigma>' k (if k \<le> lc then new k else old k)"
      "\<forall>a k. a \<notin> preds ` {..lc} \<longrightarrow> forward \<sigma>' a k = forward \<sigma>2 a k"
      by auto
    have "unlink_levels (Suc todo) preds (Some c) \<sigma> = Some \<sigma>'"
      using x y s2(1) \<sigma>'(1) by (simp add: Let_def)
    moreover have "forward \<sigma>2 a j = forward \<sigma> a j" if "a \<notin> preds ` {..lc}" for a j
      using that True by (auto simp: s2(3))
    ultimately show ?thesis using \<sigma>' same_shape_trans [OF s2(2) \<sigma>'(2)] by simp
  qed
qed

subsection \<open>Where a search cuts the list\<close>

lemma sorted_dropWhile:
  assumes "sorted_wrt closed_before rs" "\<forall>r\<in>set rs. closed_valid r"
    and "T = (\<lambda>r. snd r < s) \<or> T = (\<lambda>r. fst r < (s :: 64 word))"
  shows "\<forall>r\<in>set (dropWhile T rs). \<not> T r"
  using assms(1,2)
proof (induction rs)
  case (Cons r rs)
  show ?case
  proof (cases "T r")
    case True
    with Cons show ?thesis by simp
  next
    case False
    have "\<not> T q" if "q \<in> set rs" for q
    proof -
      from Cons.prems that have "snd r < fst q" "fst r \<le> snd r" "fst q \<le> snd q"
        by (auto simp: closed_defs)
      with False assms(3) show ?thesis by auto
    qed
    with False show ?thesis by simp
  qed
qed simp

lemma layout_cuts:
  assumes lay: "layout \<sigma> ns" and T: "T = (\<lambda>r. snd r < s) \<or> T = (\<lambda>r. fst r < s)"
  shows "cuts \<sigma> (\<lambda>a. T (s_rg \<sigma> a)) (takeWhile (\<lambda>a. T (s_rg \<sigma> a)) ns)
    (dropWhile (\<lambda>a. T (s_rg \<sigma> a)) ns)"
proof -
  let ?T = "\<lambda>a. T (s_rg \<sigma> a)"
  have map: "map (s_rg \<sigma>) (dropWhile ?T ns) = dropWhile T (map (s_rg \<sigma>) ns)"
    by (simp add: dropWhile_map comp_def)
  have "\<forall>r\<in>set (dropWhile T (map (s_rg \<sigma>) ns)). \<not> T r"
    by (rule sorted_dropWhile [OF layoutD(7) [OF lay] _ T]) (use layoutD(5) [OF lay] in auto)
  then have "\<forall>a\<in>set (dropWhile ?T ns). \<not> ?T a"
    unfolding map [symmetric] set_map by blast
  moreover have "\<not> ?T (s_tail \<sigma>)"
    using T layoutD(4) [OF lay] by (auto simp: MAX_VALUE_def)
  moreover have "\<forall>a\<in>set (takeWhile ?T ns). ?T a"
  proof
    fix a assume "a \<in> set (takeWhile ?T ns)"
    from set_takeWhileD [OF this] show "?T a" by (rule conjunct2)
  qed
  ultimately show ?thesis unfolding cuts_def set_append list.set by blast
qed

lemma pred_at_0: "pred_at \<sigma> ps 0 = last (s_head \<sigma> # ps)"
  by (simp add: pred_at_def)

lemma next_at_0: "next_at \<sigma> qs 0 = hd (qs @ [s_tail \<sigma>])"
  by (simp add: next_at_def)

lemma FindNodes_ok:
  assumes lay: "layout \<sigma> (ps @ qs)" and c: "cuts \<sigma> (\<lambda>a. snd (s_rg \<sigma> a) < s) ps qs" and "s \<le> e"
  shows "\<exists>nodes. FindNodes \<sigma> s e =
      Some ((\<exists>a\<in>set (ps @ qs). closed_overlaps (s, e) (s_rg \<sigma> a)) \<or> e = MAX_VALUE, nodes) \<and>
    (\<forall>k\<le>MAX_LEVEL. nodes k = pred_at \<sigma> ps k)"
proof -
  let ?p = "pred_at \<sigma> ps 0" and ?c = "next_at \<sigma> qs 0"
  have fl: "find_levels \<sigma> s MAX_LEVEL (s_head \<sigma>) (\<lambda>_. s_head \<sigma>) = Some (?p, ?c,
      \<lambda>j. if j \<le> MAX_LEVEL then pred_at \<sigma> ps j else s_head \<sigma>)"
    by (rule find_levels_layout [OF lay c]) simp_all
  have pm: "?p = s_head \<sigma> \<or> ?p \<in> set ps" by (auto simp: pred_at_0)
  then obtain n where n: "s_heap \<sigma> ?p = Some n" using layoutD(2) [OF lay, of ?p] by auto
  have cm: "?c \<in> set (qs @ [s_tail \<sigma>])" by (rule next_at_mem)
  then obtain m where m: "s_heap \<sigma> ?c = Some m" using layoutD(2) [OF lay, of ?c] by auto
  have before: "snd (s_rg \<sigma> ?p) < s" if "?p \<noteq> s_head \<sigma>"
    using pm that c by (auto simp: cuts_def)
  have zero: "sn_end n = 0" if "?p = s_head \<sigma>"
    using layoutD(3) [OF lay] n that by (simp add: s_rg_def)
  have fn: "FindNodes \<sigma> s e = Some (\<not> e < sn_start m,
      \<lambda>j. if j \<le> MAX_LEVEL then pred_at \<sigma> ps j else s_head \<sigma>)"
    using before zero n m by (auto simp: FindNodes_def fl s_rg_def simp del: find_levels.simps)
  have "(\<exists>a\<in>set (ps @ qs). closed_overlaps (s, e) (s_rg \<sigma> a)) \<or> e = MAX_VALUE \<longleftrightarrow> \<not> e < sn_start m"
  proof (cases qs)
    case Nil
    then have "sn_start m = MAX_VALUE"
      using m layoutD(4) [OF lay] by (simp add: next_at_0 s_rg_def)
    moreover have "x \<le> MAX_VALUE" for x by (simp add: MAX_VALUE_def)
    moreover have "\<not> closed_overlaps (s, e) (s_rg \<sigma> a)" if "a \<in> set ps" for a
      using c that by (auto simp: cuts_def closed_overlaps_def)
    ultimately show ?thesis using Nil by (auto simp: not_less antisym)
  next
    case (Cons q rest)
    then have q: "?c = q" "sn_start m = fst (s_rg \<sigma> q)" using m by (simp_all add: next_at_0 s_rg_def)
    have end_q: "s \<le> snd (s_rg \<sigma> q)" using c Cons by (simp add: cuts_def not_less)
    have none: "\<not> closed_overlaps (s, e) (s_rg \<sigma> a)" if "a \<in> set ps" for a
      using c that by (auto simp: cuts_def closed_overlaps_def)
    have later: "fst (s_rg \<sigma> q) \<le> fst (s_rg \<sigma> a)" if "a \<in> set rest" for a
    proof -
      have "snd (s_rg \<sigma> q) < fst (s_rg \<sigma> a)" "fst (s_rg \<sigma> q) \<le> snd (s_rg \<sigma> q)"
        using layoutD(7) [OF lay] layoutD(5) [OF lay, of q] that Cons
        by (auto simp: sorted_wrt_append closed_defs)
      then show ?thesis by simp
    qed
    have "snd (s_rg \<sigma> q) < MAX_VALUE" using layoutD(6) [OF lay, of q] Cons by simp
    moreover have "fst (s_rg \<sigma> q) \<le> snd (s_rg \<sigma> q)"
      using layoutD(5) [OF lay, of q] Cons by (simp add: closed_valid_def)
    ultimately have max: "e = MAX_VALUE \<Longrightarrow> fst (s_rg \<sigma> q) \<le> e" by simp
    have "fst (s_rg \<sigma> q) \<le> e" if "a \<in> set qs" "closed_overlaps (s, e) (s_rg \<sigma> a)" for a
      using that later [of a] Cons by (auto simp: closed_overlaps_def)
    moreover have "closed_overlaps (s, e) (s_rg \<sigma> q)" if "fst (s_rg \<sigma> q) \<le> e"
      using that end_q by (simp add: closed_overlaps_def)
    ultimately show ?thesis using none max Cons q(2) by (auto simp: not_less)
  qed
  with fn show ?thesis by auto
qed

subsection \<open>Insertion\<close>

lemma tower_cong: "(\<And>a. a \<in> set ns \<Longrightarrow> s_lev \<sigma>' a = s_lev \<sigma> a) \<Longrightarrow> tower \<sigma>' k ns = tower \<sigma> k ns"
  unfolding tower_def by (rule filter_cong) auto

lemma tower_Cons: "tower \<sigma> k (a # ns) = (if k \<le> s_lev \<sigma> a then a # tower \<sigma> k ns else tower \<sigma> k ns)"
  by (simp add: tower_def)

lemma distinct_full_chain: "layout \<sigma> ns \<Longrightarrow> distinct (full_chain \<sigma> k ns)"
  using layoutD(1) [of \<sigma> ns] set_tower [of \<sigma> k ns]
  by (auto simp: full_chain_def tower_def)

lemma full_chain_put:
  "full_chain \<sigma> k (ps @ q # qs) =
     (if k \<le> s_lev \<sigma> q
      then butlast (s_head \<sigma> # tower \<sigma> k ps) @ pred_at \<sigma> ps k # q # next_at \<sigma> qs k #
        tl (tower \<sigma> k qs @ [s_tail \<sigma>])
      else full_chain \<sigma> k (ps @ qs))"
proof -
  have "s_head \<sigma> # tower \<sigma> k ps = butlast (s_head \<sigma> # tower \<sigma> k ps) @ [pred_at \<sigma> ps k]"
    unfolding pred_at_def by (rule append_butlast_last_id [symmetric]) simp
  note p = arg_cong [OF this, of "\<lambda>l. l @ q # tower \<sigma> k qs @ [s_tail \<sigma>]"]
  have "tower \<sigma> k qs @ [s_tail \<sigma>] = next_at \<sigma> qs k # tl (tower \<sigma> k qs @ [s_tail \<sigma>])"
    unfolding next_at_def by (rule list.collapse [symmetric]) simp
  with p show ?thesis by (simp add: full_chain_def tower_Cons)
qed

lemma alloc_frame:
  assumes free: "s_heap \<sigma> (s_brk \<sigma>) = None" and al: "AllocNode s e lv \<sigma> = (q, \<sigma>1)"
  shows "q = s_brk \<sigma>" "s_head \<sigma>1 = s_head \<sigma>" "s_tail \<sigma>1 = s_tail \<sigma>" "s_brk \<sigma>1 = s_brk \<sigma> + 1"
    "s_count \<sigma>1 = s_count \<sigma>" "s_heap \<sigma>1 q = Some (SkipListNode s e lv)"
    "a \<noteq> q \<Longrightarrow> s_heap \<sigma>1 a = s_heap \<sigma> a" "a \<noteq> q \<Longrightarrow> forward \<sigma>1 a k = forward \<sigma> a k"
  using al by (auto simp: AllocNode_def forward_def)

lemma InsertRange_ok:
  assumes lay: "layout \<sigma> (ps @ qs)" and nodes: "\<forall>k\<le>MAX_LEVEL. nodes k = pred_at \<sigma> ps k"
    and valid: "s \<le> e" "e < MAX_VALUE"
    and pos: "\<forall>a\<in>set ps. closed_before (s_rg \<sigma> a) (s, e)" "\<forall>a\<in>set qs. closed_before (s, e) (s_rg \<sigma> a)"
  shows "\<exists>\<sigma>' q. InsertRange nodes s e rnd \<sigma> = Some \<sigma>' \<and> layout \<sigma>' (ps @ q # qs) \<and>
    s_rg \<sigma>' q = (s, e) \<and> (\<forall>a\<in>set (ps @ qs). s_rg \<sigma>' a = s_rg \<sigma> a) \<and> s_count \<sigma>' = s_count \<sigma>"
proof -
  let ?lv = "randomLevel_v3 rnd"
  have lv: "?lv \<le> MAX_LEVEL" by (simp add: randomLevel_v3_def randomLevel_bound)
  obtain q \<sigma>1 where al: "AllocNode s e ?lv \<sigma> = (q, \<sigma>1)" by fastforce
  have free: "s_heap \<sigma> (s_brk \<sigma>) = None" using layoutD(10) [OF lay] by blast
  note fr = alloc_frame [OF free al]
  have fresh: "q \<notin> set (s_head \<sigma> # (ps @ qs) @ [s_tail \<sigma>])"
    using layoutD(2) [OF lay, of q] free fr(1) by auto
  let ?old = "\<lambda>k. full_chain \<sigma> k (ps @ qs)"
  let ?us = "\<lambda>k. butlast (s_head \<sigma> # tower \<sigma> k ps)" and ?ys = "\<lambda>k. tl (tower \<sigma> k qs @ [s_tail \<sigma>])"
  let ?new = "\<lambda>k. ?us k @ nodes k # q # next_at \<sigma> qs k # ?ys k"
  have fq: "q \<notin> set (?old k)" for k
    using fresh set_tower [of \<sigma> k "ps @ qs"] by (auto simp: full_chain_def)
  have shape: "?old k = ?us k @ nodes k # next_at \<sigma> qs k # ?ys k \<and> ?new k = ?new k \<and>
      distinct (?old k) \<and> q \<notin> set (?old k)" if "k \<le> ?lv" for k
  proof (intro conjI refl)
    have "nodes k = pred_at \<sigma> ps k" using nodes lv that by simp
    then show "?old k = ?us k @ nodes k # next_at \<sigma> qs k # ?ys k" by (simp only: full_chain_cut)
    show "distinct (?old k)" by (rule distinct_full_chain [OF lay])
    show "q \<notin> set (?old k)" by (rule fq)
  qed
  have ch: "chain \<sigma>1 k (if k < ?lv + 1 - (?lv + 1) then ?new k else ?old k)" if "k \<le> MAX_LEVEL" for k
  proof -
    have "chain \<sigma>1 k (?old k)"
    proof (rule chain_cong [OF layoutD(8) [OF lay that]])
      fix a assume "a \<in> set (butlast (?old k))"
      then have "a \<noteq> q" using fq [of k] by (auto dest: in_set_butlastD)
      then show "forward \<sigma>1 a k = forward \<sigma> a k" by (rule fr(8))
    qed
    then show ?thesis by simp
  qed
  have "length (sn_forward (SkipListNode s e ?lv)) = ?lv + 1" by (simp add: SkipListNode_def)
  from link_levels_ok [OF lv order_refl shape fr(6) this ch] obtain \<sigma>' where
    \<sigma>': "link_levels (?lv + 1) ?lv nodes q \<sigma>1 = Some \<sigma>'" "same_shape \<sigma>1 \<sigma>'"
      "\<forall>k\<le>MAX_LEVEL. chain \<sigma>' k (if k \<le> ?lv then ?new k else ?old k)"
      "\<forall>a k. a \<noteq> q \<longrightarrow> a \<notin> nodes ` {..?lv} \<longrightarrow> forward \<sigma>' a k = forward \<sigma>1 a k"
    by blast
  note sD = same_shapeD [OF \<sigma>'(2)]
  have hd: "s_head \<sigma>' = s_head \<sigma>" "s_tail \<sigma>' = s_tail \<sigma>" "s_brk \<sigma>' = s_brk \<sigma> + 1"
    using sD(1-3) fr(2-4) by simp_all
  have rgq: "s_rg \<sigma>' q = (s, e)" "s_lev \<sigma>' q = ?lv"
    using sD(6) [OF fr(6)] by (auto simp: s_rg_def s_lev_def SkipListNode_def)
  have keep: "s_rg \<sigma>' a = s_rg \<sigma> a" "s_lev \<sigma>' a = s_lev \<sigma> a"
    if "a \<in> set (s_head \<sigma> # (ps @ qs) @ [s_tail \<sigma>])" for a
  proof -
    have "a \<noteq> q" using that fresh by blast
    then have "s_heap \<sigma>1 a = s_heap \<sigma> a" by (rule fr(7))
    then show "s_rg \<sigma>' a = s_rg \<sigma> a" "s_lev \<sigma>' a = s_lev \<sigma> a"
      using same_shape_fields [OF \<sigma>'(2), of a] layout_heap [OF lay that]
      by (simp_all add: s_rg_def s_lev_def)
  qed
  have tw: "tower \<sigma>' k ps = tower \<sigma> k ps" "tower \<sigma>' k qs = tower \<sigma> k qs" for k
    using keep(2) by (auto intro!: tower_cong)
  have new: "full_chain \<sigma>' k (ps @ q # qs) = (if k \<le> ?lv then ?new k else ?old k)"
    if "k \<le> MAX_LEVEL" for k
    using nodes that unfolding full_chain_put rgq(2)
    by (simp add: hd tw pred_at_def next_at_def full_chain_def)
  have wf: "\<exists>n. s_heap \<sigma>' a = Some n \<and> well_formed_skip_node n"
    if "a \<in> set (s_head \<sigma>' # (ps @ q # qs) @ [s_tail \<sigma>'])" for a
  proof (cases "a = q")
    case True
    then show ?thesis
      using sD(6) [OF fr(6)] lv by (auto simp: SkipListNode_def well_formed_skip_node_def)
  next
    case False
    with that have "a \<in> set (s_head \<sigma> # (ps @ qs) @ [s_tail \<sigma>])" by (auto simp: hd)
    from layoutD(2) [OF lay this] fr(7) [OF False] obtain n where
      "s_heap \<sigma>1 a = Some n" "well_formed_skip_node n" by auto
    then show ?thesis using sD(6) [of a n] by (auto simp: well_formed_skip_node_def)
  qed
  have pred_ne: "nodes k \<noteq> s_tail \<sigma>" if "k \<le> MAX_LEVEL" for k
    using nodes that pred_at_mem [of \<sigma> ps k] set_tower [of \<sigma> k ps] layoutD(1) [OF lay] by auto
  have tl: "forward \<sigma>' (s_tail \<sigma>) k = Some None" if "k \<le> MAX_LEVEL" for k
  proof -
    have ne: "s_tail \<sigma> \<noteq> q" using fresh by auto
    moreover have "s_tail \<sigma> \<notin> nodes ` {..?lv}" using pred_ne lv by (metis atMost_iff imageE le_trans)
    ultimately show ?thesis using \<sigma>'(4) fr(8) [OF ne] layoutD(9) [OF lay that] by simp
  qed
  have "layout \<sigma>' (ps @ q # qs)"
    unfolding layout_def
  proof (intro conjI allI impI ballI)
    show "distinct (s_head \<sigma>' # (ps @ q # qs) @ [s_tail \<sigma>'])"
      using layoutD(1) [OF lay] fresh by (auto simp: hd)
    show "\<exists>n. s_heap \<sigma>' a = Some n \<and> well_formed_skip_node n"
      if "a \<in> set (s_head \<sigma>' # (ps @ q # qs) @ [s_tail \<sigma>'])" for a
      using wf [OF that] .
    show "s_rg \<sigma>' (s_head \<sigma>') = (0, 0)" "s_rg \<sigma>' (s_tail \<sigma>') = (MAX_VALUE, MAX_VALUE)"
      "s_lev \<sigma>' (s_head \<sigma>') = MAX_LEVEL" "s_lev \<sigma>' (s_tail \<sigma>') = MAX_LEVEL"
      using keep layoutD(3,4,11,12) [OF lay] by (simp_all add: hd)
    show "closed_valid (s_rg \<sigma>' a)" "snd (s_rg \<sigma>' a) < MAX_VALUE" if "a \<in> set (ps @ q # qs)" for a
      using that keep(1) [of a] layoutD(5,6) [OF lay, of a] rgq valid by (auto simp: closed_valid_def)
    have m: "map (s_rg \<sigma>') ps = map (s_rg \<sigma>) ps" "map (s_rg \<sigma>') qs = map (s_rg \<sigma>) qs"
      using keep(1) by auto
    show "sorted_wrt closed_before (map (s_rg \<sigma>') (ps @ q # qs))"
      unfolding map_append list.map m using layoutD(7) [OF lay] pos rgq(1) by (simp add: sorted_wrt_append)
    show "chain \<sigma>' k (full_chain \<sigma>' k (ps @ q # qs))" if "k \<le> MAX_LEVEL" for k
      using \<sigma>'(3) that by (simp add: new)
    show "forward \<sigma>' (s_tail \<sigma>') k = Some None" if "k \<le> MAX_LEVEL" for k
      using tl [OF that] by (simp add: hd)
    show "a < s_brk \<sigma>'" if "s_heap \<sigma>' a \<noteq> None" for a
      using that sD(5) [of a] fr(1) fr(7) [of a] layoutD(10) [OF lay, of a]
      by (cases "a = q") (auto simp: hd)
  qed
  moreover have "InsertRange nodes s e rnd \<sigma> = Some \<sigma>'"
    using al \<sigma>'(1) by (simp add: InsertRange_def Let_def)
  moreover have "s_count \<sigma>' = s_count \<sigma>" using sD(4) fr(5) by simp
  ultimately show ?thesis using rgq keep(1) by auto
qed

subsection \<open>Removal\<close>

lemma unlink_ok:
  assumes lay: "layout \<sigma> (ps @ c # qs)" and preds: "\<forall>k\<le>MAX_LEVEL. preds k = pred_at \<sigma> ps k"
  shows "\<exists>\<sigma>'. unlink_levels (MAX_LEVEL + 1) preds (Some c) \<sigma> = Some \<sigma>' \<and> layout \<sigma>' (ps @ qs) \<and>
    (\<forall>a\<in>set (ps @ qs). s_rg \<sigma>' a = s_rg \<sigma> a) \<and> s_count \<sigma>' = s_count \<sigma>"
proof -
  let ?lc = "s_lev \<sigma> c"
  obtain n where n: "s_heap \<sigma> c = Some n" "well_formed_skip_node n" using layoutD(2) [OF lay, of c] by auto
  then have lc: "?lc \<le> MAX_LEVEL" by (simp add: s_lev_def well_formed_skip_node_def)
  let ?old = "\<lambda>k. full_chain \<sigma> k (ps @ c # qs)" and ?new = "\<lambda>k. full_chain \<sigma> k (ps @ qs)"
  let ?us = "\<lambda>k. butlast (s_head \<sigma> # tower \<sigma> k ps)" and ?ys = "\<lambda>k. tl (tower \<sigma> k qs @ [s_tail \<sigma>])"
  have dist: "distinct (s_head \<sigma> # (ps @ c # qs) @ [s_tail \<sigma>])" by (rule layoutD(1) [OF lay])
  have shape: "?old k = ?us k @ preds k # c # next_at \<sigma> qs k # ?ys k \<and>
      ?new k = ?us k @ preds k # next_at \<sigma> qs k # ?ys k \<and> distinct (?old k)" if "k \<le> ?lc" for k
  proof -
    have p: "preds k = pred_at \<sigma> ps k" using preds lc that by simp
    show ?thesis
      unfolding p full_chain_put [of \<sigma> k ps c qs] if_P [OF that]
      using full_chain_cut distinct_full_chain [OF lay, of k]
      by (metis full_chain_put that)
  qed
  have stop: "\<exists>x. forward \<sigma> (preds k) k = Some x \<and> x \<noteq> Some c" if "?lc < k" "k \<le> MAX_LEVEL" for k
  proof -
    have "?old k = ?us k @ pred_at \<sigma> ps k # next_at \<sigma> qs k # ?ys k"
      unfolding full_chain_put using that(1) full_chain_cut by simp
    with layoutD(8) [OF lay that(2)] have "forward \<sigma> (preds k) k = Some (Some (next_at \<sigma> qs k))"
      using chain_link preds that(2) by metis
    moreover have "next_at \<sigma> qs k \<noteq> c" using next_at_mem [of \<sigma> qs k] dist by auto
    ultimately show ?thesis by simp
  qed
  have ch: "chain \<sigma> k (if k \<le> ?lc \<and> k < MAX_LEVEL + 1 - (MAX_LEVEL + 1) then ?new k else ?old k)"
    if "k \<le> MAX_LEVEL" for k
    using layoutD(8) [OF lay that] by simp
  from unlink_levels_ok [OF lc order_refl shape stop ch] obtain \<sigma>' where
    \<sigma>': "unlink_levels (MAX_LEVEL + 1) preds (Some c) \<sigma> = Some \<sigma>'" "same_shape \<sigma> \<sigma>'"
      "\<forall>k\<le>MAX_LEVEL. chain \<sigma>' k (if k \<le> ?lc then ?new k else ?old k)"
      "\<forall>a k. a \<notin> preds ` {..?lc} \<longrightarrow> forward \<sigma>' a k = forward \<sigma> a k"
    by blast
  note sD = same_shapeD [OF \<sigma>'(2)]
  have keep: "s_rg \<sigma>' a = s_rg \<sigma> a" "s_lev \<sigma>' a = s_lev \<sigma> a"
    if "a \<in> set (s_head \<sigma> # (ps @ c # qs) @ [s_tail \<sigma>])" for a
    using same_shape_fields [OF \<sigma>'(2) layout_heap [OF lay that]] .
  have "tower \<sigma>' k (ps @ qs) = tower \<sigma> k (ps @ qs)" for k
    using keep(2) by (intro tower_cong) auto
  then have new: "full_chain \<sigma>' k (ps @ qs) = (if k \<le> ?lc then ?new k else ?old k)" for k
    using sD(1,2) by (simp add: full_chain_def tower_Cons)
  have "s_tail \<sigma> \<notin> preds ` {..?lc}"
  proof
    assume "s_tail \<sigma> \<in> preds ` {..?lc}"
    then obtain k where "k \<le> ?lc" "s_tail \<sigma> = preds k" by auto
    then have "s_tail \<sigma> = pred_at \<sigma> ps k" using preds lc by simp
    then show False using pred_at_mem [of \<sigma> ps k] set_tower [of \<sigma> k ps] dist by auto
  qed
  then have tl: "forward \<sigma>' (s_tail \<sigma>) k = Some None" if "k \<le> MAX_LEVEL" for k
    using \<sigma>'(4) layoutD(9) [OF lay that] by simp
  have "layout \<sigma>' (ps @ qs)"
    unfolding layout_def
  proof (intro conjI allI impI ballI)
    show "distinct (s_head \<sigma>' # (ps @ qs) @ [s_tail \<sigma>'])" using dist by (auto simp: sD(1,2))
    show "\<exists>n. s_heap \<sigma>' a = Some n \<and> well_formed_skip_node n"
      if "a \<in> set (s_head \<sigma>' # (ps @ qs) @ [s_tail \<sigma>'])" for a
    proof -
      have "a \<in> set (s_head \<sigma> # (ps @ c # qs) @ [s_tail \<sigma>])" using that by (auto simp: sD(1,2))
      from layoutD(2) [OF lay this] obtain m where "s_heap \<sigma> a = Some m" "well_formed_skip_node m"
        by blast
      then show ?thesis using sD(6) [of a m] by (auto simp: well_formed_skip_node_def)
    qed
    show "s_rg \<sigma>' (s_head \<sigma>') = (0, 0)" "s_rg \<sigma>' (s_tail \<sigma>') = (MAX_VALUE, MAX_VALUE)"
      "s_lev \<sigma>' (s_head \<sigma>') = MAX_LEVEL" "s_lev \<sigma>' (s_tail \<sigma>') = MAX_LEVEL"
      using keep layoutD(3,4,11,12) [OF lay] by (simp_all add: sD(1,2))
    show "closed_valid (s_rg \<sigma>' a)" "snd (s_rg \<sigma>' a) < MAX_VALUE" if "a \<in> set (ps @ qs)" for a
      using that keep(1) [of a] layoutD(5,6) [OF lay, of a] by auto
    have m: "map (s_rg \<sigma>') ps = map (s_rg \<sigma>) ps" "map (s_rg \<sigma>') qs = map (s_rg \<sigma>) qs"
      using keep(1) by auto
    show "sorted_wrt closed_before (map (s_rg \<sigma>') (ps @ qs))"
      unfolding map_append m using layoutD(7) [OF lay] by (simp add: sorted_wrt_append)
    show "chain \<sigma>' k (full_chain \<sigma>' k (ps @ qs))" if "k \<le> MAX_LEVEL" for k
      using \<sigma>'(3) that by (simp add: new)
    show "forward \<sigma>' (s_tail \<sigma>') k = Some None" if "k \<le> MAX_LEVEL" for k
      using tl [OF that] by (simp add: sD(2))
    show "a < s_brk \<sigma>'" if "s_heap \<sigma>' a \<noteq> None" for a
      using that sD(5) [of a] layoutD(10) [OF lay, of a] by (simp add: sD(3))
  qed
  with \<sigma>'(1) keep(1) sD(4) show ?thesis by auto
qed

end
