(* ===== verification/V3_Properties.thy ===== *)
theory V3_Properties
  imports V3_Proofs
begin

text \<open>
  What the v3 lock promises, its operations as functions on the sorted list of held ranges, and
  what happens when \<open>releaseLock\<close> is given a start no held range has.
\<close>

subsection \<open>States and the constructor\<close>

text \<open>The state holds the ranges \<open>rs\<close>, in their order.\<close>

definition song_state :: "song \<Rightarrow> 64 word range list \<Rightarrow> bool" where
  "song_state \<sigma> rs \<longleftrightarrow> (\<exists>ns. layout \<sigma> ns \<and> rs = map (s_rg \<sigma>) ns \<and> s_count \<sigma> = of_nat (length ns))"

lemma s_rg_count [simp]: "s_rg (\<sigma>\<lparr>s_count := x\<rparr>) = s_rg \<sigma>" "s_lev (\<sigma>\<lparr>s_count := x\<rparr>) = s_lev \<sigma>"
  by (simp_all add: s_rg_def s_lev_def fun_eq_iff)

lemma layout_count: "layout (\<sigma>\<lparr>s_count := x\<rparr>) ns = layout \<sigma> ns"
proof -
  let ?s = "\<sigma>\<lparr>s_count := x\<rparr>"
  have fw: "forward ?s a k = forward \<sigma> a k" for a k by (simp add: forward_def)
  have "chain ?s k xs = chain \<sigma> k xs" for k xs
    by (induction xs rule: induct_list012) (simp_all add: fw)
  then show ?thesis
    by (simp add: layout_def full_chain_def tower_def fw)
qed

lemma song_stateI:
  "layout \<sigma> ns \<Longrightarrow> rs = map (s_rg \<sigma>) ns \<Longrightarrow> x = of_nat (length ns) \<Longrightarrow>
   song_state (\<sigma>\<lparr>s_count := x\<rparr>) rs"
  unfolding song_state_def by (intro exI [of _ ns]) (simp add: layout_count)

lemma SongRangeLock_ok: "\<exists>\<sigma>. SongRangeLock = Some \<sigma> \<and> song_state \<sigma> []"
proof -
  define h where "h = \<lparr>sn_start = 0, sn_end = 0, sn_level = 3, sn_forward = replicate 4 (Some 1)\<rparr>"
  define t where "t = SkipListNode MAX_VALUE MAX_VALUE 3"
  define \<sigma> :: song where
    "\<sigma> = \<lparr>s_heap = [0 \<mapsto> h, 1 \<mapsto> t], s_brk = 2, s_head = 0, s_tail = 1, s_count = 0\<rparr>"
  have "SongRangeLock = Some \<sigma>"
    by (simp add: SongRangeLock_def AllocNode_def MAX_LEVEL_def SkipListNode_def set_forward_def
        numeral_eq_Suc fun_upd_twist h_def t_def \<sigma>_def)
  moreover have hp: "s_heap \<sigma> a = (if a = 0 then Some h else if a = 1 then Some t else None)"
    and hd: "s_head \<sigma> = 0" "s_tail \<sigma> = 1" "s_brk \<sigma> = 2" "s_count \<sigma> = 0" for a
    by (simp_all add: \<sigma>_def)
  have fd: "sn_start h = 0" "sn_end h = 0" "sn_level h = 3" "sn_forward h = replicate 4 (Some 1)"
    "sn_start t = MAX_VALUE" "sn_end t = MAX_VALUE" "sn_level t = 3" "sn_forward t = replicate 4 None"
    by (simp_all add: h_def t_def SkipListNode_def)
  have fw: "forward \<sigma> a k = (if a = 0 \<and> k \<le> 3 then Some (Some 1)
      else if a = 1 \<and> k \<le> 3 then Some None else None)" for a k
    by (auto simp: forward_def hp fd nth_replicate)
  have "layout \<sigma> []"
    by (simp add: layout_def full_chain_def tower_def fw hp hd fd s_rg_def s_lev_def MAX_LEVEL_def
        well_formed_skip_node_def)
  ultimately show ?thesis by (auto simp: song_state_def hd)
qed

subsection \<open>The operations on held ranges\<close>

lemma song_state_sorted:
  assumes "song_state \<sigma> rs"
  shows "sorted_wrt closed_before rs" "\<forall>r\<in>set rs. closed_valid r \<and> snd r < MAX_VALUE"
proof -
  from assms obtain ns where lay: "layout \<sigma> ns" and rs: "rs = map (s_rg \<sigma>) ns"
    by (auto simp: song_state_def)
  show "sorted_wrt closed_before rs" unfolding rs by (rule layoutD(7) [OF lay])
  show "\<forall>r\<in>set rs. closed_valid r \<and> snd r < MAX_VALUE"
    unfolding rs using layoutD(5,6) [OF lay] by simp
qed

lemma tryLock_v3_ok:
  assumes st: "song_state \<sigma> rs" and "s \<le> e"
  shows "\<exists>b \<sigma>'. tryLock_v3 s e rnd \<sigma> = Some (b, \<sigma>') \<and>
    (b \<longleftrightarrow> (\<forall>r\<in>set rs. \<not> closed_overlaps (s, e) r) \<and> e \<noteq> MAX_VALUE) \<and>
    (\<not> b \<longrightarrow> \<sigma>' = \<sigma>) \<and>
    (b \<longrightarrow> song_state \<sigma>' (takeWhile (\<lambda>r. snd r < s) rs @ (s, e) # dropWhile (\<lambda>r. snd r < s) rs))"
proof -
  from st obtain ns where lay: "layout \<sigma> ns" and rs: "rs = map (s_rg \<sigma>) ns"
    and cnt: "s_count \<sigma> = of_nat (length ns)"
    by (auto simp: song_state_def)
  let ?T = "\<lambda>a. snd (s_rg \<sigma> a) < s"
  define ps qs where "ps = takeWhile ?T ns" and "qs = dropWhile ?T ns"
  have ns: "ns = ps @ qs" by (simp add: ps_def qs_def)
  have cut: "cuts \<sigma> ?T ps qs"
    unfolding ps_def qs_def by (rule layout_cuts [OF lay, where T = "\<lambda>r. snd r < s" and s = s]) simp
  have parts: "takeWhile (\<lambda>r. snd r < s) rs = map (s_rg \<sigma>) ps"
    "dropWhile (\<lambda>r. snd r < s) rs = map (s_rg \<sigma>) qs"
    by (simp_all add: rs ps_def qs_def takeWhile_map dropWhile_map comp_def)
  let ?found = "(\<exists>a\<in>set (ps @ qs). closed_overlaps (s, e) (s_rg \<sigma> a)) \<or> e = MAX_VALUE"
  from FindNodes_ok [OF lay [unfolded ns] cut assms(2)] obtain nodes where
    f: "FindNodes \<sigma> s e = Some (?found, nodes)" and nd: "\<forall>k\<le>MAX_LEVEL. nodes k = pred_at \<sigma> ps k"
    by blast
  have iff: "?found \<longleftrightarrow> \<not> ((\<forall>r\<in>set rs. \<not> closed_overlaps (s, e) r) \<and> e \<noteq> MAX_VALUE)"
    by (auto simp: rs ns)
  show ?thesis
  proof (cases ?found)
    case True
    then have "tryLock_v3 s e rnd \<sigma> = Some (False, \<sigma>)" using f by (simp add: tryLock_v3_def)
    with True iff show ?thesis by blast
  next
    case False
    have "x \<le> MAX_VALUE" for x by (simp add: MAX_VALUE_def)
    with False have "e < MAX_VALUE" by (simp add: order.not_eq_order_implies_strict)
    moreover have "\<forall>a\<in>set ps. closed_before (s_rg \<sigma> a) (s, e)"
      using cut by (simp add: cuts_def closed_before_def)
    moreover have "\<forall>a\<in>set qs. closed_before (s, e) (s_rg \<sigma> a)"
    proof
      fix a assume a: "a \<in> set qs"
      with False have "\<not> closed_overlaps (s, e) (s_rg \<sigma> a)" by auto
      moreover have "s \<le> snd (s_rg \<sigma> a)" using cut a by (auto simp: cuts_def not_less)
      ultimately show "closed_before (s, e) (s_rg \<sigma> a)"
        by (auto simp: closed_before_def closed_overlaps_def not_le)
    qed
    ultimately obtain \<sigma>' q where ins: "InsertRange nodes s e rnd \<sigma> = Some \<sigma>'" "layout \<sigma>' (ps @ q # qs)"
        "s_rg \<sigma>' q = (s, e)" "\<forall>a\<in>set (ps @ qs). s_rg \<sigma>' a = s_rg \<sigma> a" "s_count \<sigma>' = s_count \<sigma>"
      using InsertRange_ok [OF lay [unfolded ns] nd assms(2)] by blast
    have "song_state (\<sigma>'\<lparr>s_count := s_count \<sigma>' + 1\<rparr>) (map (s_rg \<sigma>) ps @ (s, e) # map (s_rg \<sigma>) qs)"
      by (rule song_stateI [OF ins(2)]) (use ins cnt ns in auto)
    moreover have "tryLock_v3 s e rnd \<sigma> = Some (True, \<sigma>'\<lparr>s_count := s_count \<sigma>' + 1\<rparr>)"
      using f False ins(1) by (simp add: tryLock_v3_def)
    ultimately show ?thesis using False iff parts
      by (intro exI [of _ True] exI [of _ "\<sigma>'\<lparr>s_count := s_count \<sigma>' + 1\<rparr>"]) simp
  qed
qed

lemma releaseLock_v3_ok:
  assumes st: "song_state \<sigma> rs" and first: "dropWhile (\<lambda>r. fst r < s) rs = r # later"
  shows "\<exists>\<sigma>'. releaseLock_v3 s \<sigma> = Some \<sigma>' \<and>
    song_state \<sigma>' (takeWhile (\<lambda>r. fst r < s) rs @ later)"
proof -
  from st obtain ns where lay: "layout \<sigma> ns" and rs: "rs = map (s_rg \<sigma>) ns"
    and cnt: "s_count \<sigma> = of_nat (length ns)"
    by (auto simp: song_state_def)
  let ?T = "\<lambda>a. fst (s_rg \<sigma> a) < s"
  have "map (s_rg \<sigma>) (dropWhile ?T ns) = r # later"
    using first by (simp add: rs dropWhile_map comp_def)
  then obtain c qs where cq: "dropWhile ?T ns = c # qs" "later = map (s_rg \<sigma>) qs" by blast
  define ps where "ps = takeWhile ?T ns"
  have ns: "ns = ps @ c # qs" using cq(1) by (metis ps_def takeWhile_dropWhile_id)
  have cut: "cuts \<sigma> ?T ps (c # qs)"
    unfolding ps_def cq(1) [symmetric]
    by (rule layout_cuts [OF lay, where T = "\<lambda>r. fst r < s" and s = s]) simp
  have part: "takeWhile (\<lambda>r. fst r < s) rs = map (s_rg \<sigma>) ps"
    by (simp add: rs ps_def takeWhile_map comp_def)
  let ?preds = "\<lambda>j. if j \<le> MAX_LEVEL then pred_at \<sigma> ps j else s_head \<sigma>"
  have rl: "release_levels \<sigma> s MAX_LEVEL (s_head \<sigma>) (\<lambda>_. s_head \<sigma>) = Some ?preds"
    by (rule release_levels_layout [OF lay [unfolded ns] cut]) simp_all
  have "forward \<sigma> (pred_at \<sigma> ps 0) 0 = Some (Some (next_at \<sigma> (c # qs) 0))"
    using layoutD(8) [OF lay [unfolded ns], of 0] chain_link unfolding full_chain_cut by blast
  then have fw: "forward \<sigma> (?preds 0) 0 = Some (Some c)" by (simp add: next_at_0)
  from unlink_ok [OF lay [unfolded ns], of ?preds] obtain \<sigma>' where
    ul: "unlink_levels (MAX_LEVEL + 1) ?preds (Some c) \<sigma> = Some \<sigma>'" "layout \<sigma>' (ps @ qs)"
      "\<forall>a\<in>set (ps @ qs). s_rg \<sigma>' a = s_rg \<sigma> a" "s_count \<sigma>' = s_count \<sigma>"
    by auto
  have "song_state (\<sigma>'\<lparr>s_count := s_count \<sigma>' - 1\<rparr>) (map (s_rg \<sigma>) ps @ map (s_rg \<sigma>) qs)"
    by (rule song_stateI [OF ul(2)]) (use ul cnt ns in auto)
  moreover have "releaseLock_v3 s \<sigma> = Some (\<sigma>'\<lparr>s_count := s_count \<sigma>' - 1\<rparr>)"
    using rl fw ul(1) by (simp add: releaseLock_v3_def del: release_levels.simps unlink_levels.simps)
  ultimately show ?thesis using part cq(2) by simp
qed

text \<open>The first range that starts at \<open>s\<close> or later, when one starts at \<open>s\<close>.\<close>

lemma dropWhile_start:
  assumes "sorted_wrt closed_before rs" "\<forall>r\<in>set rs. closed_valid r" "(s, e) \<in> set rs"
  shows "\<exists>later. dropWhile (\<lambda>r. fst r < s) rs = (s, e) # later \<and>
    takeWhile (\<lambda>r. fst r < s) rs @ later = remove1 (s, e) rs \<and> distinct rs"
  using assms
proof (induction rs)
  case (Cons r rs)
  have dist: "distinct (r # rs)"
    using Cons.prems(1,2)
  proof (induction "r # rs" arbitrary: r rs)
    case (Cons r rs)
    have "r \<notin> set rs" using Cons.prems by (force simp: closed_defs)
    moreover have "distinct rs" using Cons.hyps(1) Cons.prems by (cases rs) auto
    ultimately show ?case by simp
  qed
  show ?case
  proof (cases "r = (s, e)")
    case True
    then show ?thesis using dist by simp
  next
    case False
    with Cons.prems have "(s, e) \<in> set rs" "closed_before r (s, e)" "closed_valid r" by auto
    with Cons False dist show ?thesis by (auto simp: closed_defs)
  qed
qed simp

subsection \<open>The walks over the lowest level\<close>

lemma free_walk_chain:
  "chain \<sigma> 0 (p # xs) \<Longrightarrow> forward \<sigma> (last (p # xs)) 0 = Some None \<Longrightarrow> free_walk \<sigma> p = Some (p # xs)"
proof (induction xs arbitrary: p)
  case Nil
  then show ?case by (subst free_walk.simps) simp
next
  case (Cons x xs)
  then show ?case by (subst free_walk.simps) simp
qed

lemma display_elements_chain:
  "chain \<sigma> 0 (xs @ [t]) \<Longrightarrow> forward \<sigma> t 0 \<noteq> None \<Longrightarrow> \<forall>a\<in>set xs. s_heap \<sigma> a \<noteq> None \<Longrightarrow>
   display_elements (length xs) (Some (hd (xs @ [t]))) \<sigma> = Some (map (\<lambda>a. the (s_heap \<sigma> a)) xs)"
proof (induction xs)
  case (Cons x xs)
  then have "forward \<sigma> x 0 = Some (Some (hd (xs @ [t])))" "chain \<sigma> 0 (xs @ [t])"
    by (cases xs; simp)+
  with Cons show ?case by auto
qed simp

subsection \<open>Runs\<close>

text \<open>
  The histories of the lock: the mutex makes every operation one transition. A caller locks
  ranges that are not reversed and releases by the start of a range that is held.
\<close>

inductive history3 :: "64 word range action list \<Rightarrow> song \<Rightarrow> bool" where
  created: "SongRangeLock = Some \<sigma> \<Longrightarrow> history3 [] \<sigma>"
| granted: "history3 as \<sigma> \<Longrightarrow> s \<le> e \<Longrightarrow> tryLock_v3 s e rnd \<sigma> = Some (True, \<sigma>') \<Longrightarrow>
    history3 (as @ [Acquire (s, e)]) \<sigma>'"
| refused: "history3 as \<sigma> \<Longrightarrow> s \<le> e \<Longrightarrow> tryLock_v3 s e rnd \<sigma> = Some (False, \<sigma>') \<Longrightarrow>
    history3 (as @ [Silent]) \<sigma>'"
| released: "history3 as \<sigma> \<Longrightarrow> (s, e) \<in> fold apply_action as {} \<Longrightarrow>
    releaseLock_v3 s \<sigma> = Some \<sigma>' \<Longrightarrow> history3 (as @ [Release (s, e)]) \<sigma>'"

lemma spec_run_snoc:
  "spec_run valid overlaps R as R' \<Longrightarrow> lock_spec valid overlaps R' a R'' \<Longrightarrow>
   spec_run valid overlaps R (as @ [a]) R''"
  by (induction rule: spec_run.induct) (auto intro: spec_run.intros)

lemma release_held:
  assumes st: "song_state \<sigma> rs" and "(s, e) \<in> set rs"
  shows "\<exists>\<sigma>'. releaseLock_v3 s \<sigma> = Some \<sigma>' \<and> song_state \<sigma>' (remove1 (s, e) rs) \<and>
    set (remove1 (s, e) rs) = set rs - {(s, e)}"
proof -
  from dropWhile_start [OF song_state_sorted(1) [OF st] _ assms(2)] song_state_sorted(2) [OF st]
  obtain later where l: "dropWhile (\<lambda>r. fst r < s) rs = (s, e) # later"
    "takeWhile (\<lambda>r. fst r < s) rs @ later = remove1 (s, e) rs" "distinct rs"
    by blast
  from releaseLock_v3_ok [OF st l(1)] l(2,3) show ?thesis by (simp add: set_remove1_eq)
qed

lemma history3_state:
  "history3 as \<sigma> \<Longrightarrow> closed_run {} as (fold apply_action as {}) \<and>
   (\<exists>rs. song_state \<sigma> rs \<and> set rs = fold apply_action as {})"
proof (induction rule: history3.induct)
  case (created \<sigma>)
  obtain \<sigma>0 where "SongRangeLock = Some \<sigma>0" "song_state \<sigma>0 []" using SongRangeLock_ok by blast
  with created have "song_state \<sigma> []" by (metis option.inject)
  then show ?case by (auto intro: spec_run.nil)
next
  case (granted as \<sigma> s e rnd \<sigma>')
  then obtain rs where rs: "song_state \<sigma> rs" "set rs = fold apply_action as {}" by blast
  from tryLock_v3_ok [OF rs(1) granted(2), of rnd] granted(3)
  have ok: "\<forall>r\<in>set rs. \<not> closed_overlaps (s, e) r"
    "song_state \<sigma>' (takeWhile (\<lambda>r. snd r < s) rs @ (s, e) # dropWhile (\<lambda>r. snd r < s) rs)"
    by auto
  have "set (takeWhile (\<lambda>r. snd r < s) rs @ (s, e) # dropWhile (\<lambda>r. snd r < s) rs) =
      insert (s, e) (set rs)"
    by (metis Un_insert_right list.simps(15) set_append takeWhile_dropWhile_id)
  with ok granted(2,4) rs(2) show ?case
    by (auto intro!: spec_run_snoc simp: closed_valid_def)
next
  case (refused as \<sigma> s e rnd \<sigma>')
  then obtain rs where rs: "song_state \<sigma> rs" "set rs = fold apply_action as {}" by blast
  from tryLock_v3_ok [OF rs(1) refused(2), of rnd] refused(3) have "\<sigma>' = \<sigma>" by auto
  with rs refused(4) show ?case by (auto intro!: spec_run_snoc)
next
  case (released as \<sigma> s e \<sigma>')
  then obtain rs where rs: "song_state \<sigma> rs" "set rs = fold apply_action as {}" by blast
  with release_held [OF rs(1), of s e] released show ?case
    by (auto intro!: spec_run_snoc)
qed

subsection \<open>Properties\<close>

text \<open>
  C16. The v3 lock implements the abstract lock: in every history of calls by which callers keep
  to their contract, the granted and released ranges form a run of the abstract lock, the list
  holds exactly its ranges, no two of which overlap, and \<open>size\<close> is their number.
\<close>
theorem v3_refines_abstract_lock:
  assumes "history3 as \<sigma>"
  shows "closed_run {} as (fold apply_action as {}) \<and>
    pairwise_disjoint closed_overlaps (fold apply_action as {}) \<and>
    (\<exists>rs. song_state \<sigma> rs \<and> set rs = fold apply_action as {} \<and> size_v3 \<sigma> = of_nat (length rs))"
proof -
  note h = history3_state [OF assms]
  have "pairwise_disjoint closed_overlaps (fold apply_action as {})"
    using closed.run_keeps_disjoint [OF h [THEN conjunct1]] by (simp add: pairwise_disjoint_def)
  with h show ?thesis by (auto simp: song_state_def size_v3_def)
qed

theorem v3_refines_abstract_lock_witness:
  "\<exists>\<sigma> rs. song_state \<sigma> rs \<and> set rs = {(5 :: 64 word, 9)}"
proof -
  obtain \<sigma> where c: "SongRangeLock = Some \<sigma>" using SongRangeLock_ok by blast
  have "(case SongRangeLock of None \<Rightarrow> False | Some \<sigma> \<Rightarrow>
      case tryLock_v3 5 9 (\<lambda>_. 1) \<sigma> of None \<Rightarrow> False | Some r \<Rightarrow> fst r)"
    by code_simp
  then obtain \<sigma>' where "tryLock_v3 5 9 (\<lambda>_. 1) \<sigma> = Some (True, \<sigma>')"
    unfolding c by (auto split: option.splits)
  from history3.granted [OF history3.created [OF c] _ this] have "history3 [Acquire (5, 9)] \<sigma>'" by simp
  from v3_refines_abstract_lock [OF this] show ?thesis by auto
qed

text \<open>
  C17. \<open>tryLock\<close> returns, and grants a range exactly when it overlaps no held range and does not
  end at the greatest key; a grant puts the range at its place in the order, a refusal changes
  nothing.
\<close>
theorem v3_tryLock_correct:
  assumes "song_state \<sigma> rs" "s \<le> e"
  shows "\<exists>b \<sigma>'. tryLock_v3 s e rnd \<sigma> = Some (b, \<sigma>') \<and>
    (b = ((\<forall>r\<in>set rs. \<not> closed_overlaps (s, e) r) \<and> e \<noteq> MAX_VALUE)) \<and>
    song_state \<sigma>' (if b then takeWhile (\<lambda>r. snd r < s) rs @ (s, e) # dropWhile (\<lambda>r. snd r < s) rs else rs)"
  using tryLock_v3_ok [OF assms, of rnd] assms(1) by auto

theorem v3_tryLock_correct_witness:
  "\<exists>\<sigma> \<sigma>'. tryLock_v3 0 4 (\<lambda>_. 0) \<sigma> = Some (True, \<sigma>') \<and> song_state \<sigma>' [(0, 4)]"
proof -
  obtain \<sigma> where "song_state \<sigma> []" using SongRangeLock_ok by blast
  from v3_tryLock_correct [OF this, of 0 4 "\<lambda>_. 0"] obtain \<sigma>' where
    "tryLock_v3 0 4 (\<lambda>_. 0) \<sigma> = Some (True, \<sigma>')" "song_state \<sigma>' [(0, 4)]"
    by (auto simp: MAX_VALUE_def)
  then show ?thesis by blast
qed

text \<open>
  C18. \<open>releaseLock\<close> with the start of a held range returns and removes exactly this range.
\<close>
theorem v3_releaseLock_correct:
  assumes "song_state \<sigma> rs" "(s, e) \<in> set rs"
  shows "\<exists>\<sigma>'. releaseLock_v3 s \<sigma> = Some \<sigma>' \<and> song_state \<sigma>' (remove1 (s, e) rs)"
  using release_held [OF assms] by blast

theorem v3_releaseLock_correct_witness:
  "\<exists>\<sigma> \<sigma>'. releaseLock_v3 0 \<sigma> = Some \<sigma>' \<and> song_state \<sigma>' []"
proof -
  obtain \<sigma> where "song_state \<sigma> []" using SongRangeLock_ok by blast
  from tryLock_v3_ok [OF this, of 0 4 "\<lambda>_. 0"] obtain \<sigma>1 where "song_state \<sigma>1 [(0, 4)]"
    by (auto simp: MAX_VALUE_def)
  from v3_releaseLock_correct [OF this, of 0 4] show ?thesis by auto
qed

text \<open>
  C37. \<open>releaseLock\<close> does not look whether the range it unlinks has the start it was given: when no
  held range starts at \<open>s\<close> but one starts later, it removes the first of these, which another
  caller holds.
\<close>
theorem v3_release_takes_next_range:
  assumes "song_state \<sigma> (rs @ r # later)" "\<forall>q\<in>set rs. fst q < s" "s < fst r"
  shows "\<exists>\<sigma>'. releaseLock_v3 s \<sigma> = Some \<sigma>' \<and> song_state \<sigma>' (rs @ later)"
proof -
  have "dropWhile (\<lambda>r. fst r < s) (rs @ r # later) = r # later"
    "takeWhile (\<lambda>r. fst r < s) (rs @ r # later) = rs"
    using assms(2,3) by (simp_all add: dropWhile_append1 takeWhile_append1)
  with releaseLock_v3_ok [OF assms(1), of s r later] show ?thesis by simp
qed

theorem v3_release_takes_next_range_witness:
  "\<exists>\<sigma> \<sigma>'. song_state \<sigma> [(5, 9)] \<and> releaseLock_v3 3 \<sigma> = Some \<sigma>' \<and> song_state \<sigma>' []"
proof -
  obtain \<sigma> where "song_state \<sigma> []" using SongRangeLock_ok by blast
  from tryLock_v3_ok [OF this, of 5 9 "\<lambda>_. 0"] obtain \<sigma>1 where "song_state \<sigma>1 ([] @ (5, 9) # [])"
    by (auto simp: MAX_VALUE_def)
  from v3_release_takes_next_range [OF this, of 3] this show ?thesis by auto
qed

text \<open>
  When every held range starts before \<open>s\<close>, \<open>releaseLock(s)\<close> unlinks the tail sentinel and the
  next \<open>tryLock\<close> follows a null pointer: on a new lock, \<open>releaseLock(5)\<close> returns and
  \<open>tryLock(10, 20)\<close> then crashes.
\<close>
theorem v3_release_unlinks_tail:
  "do { \<sigma> \<leftarrow> SongRangeLock; \<sigma>' \<leftarrow> releaseLock_v3 5 \<sigma>; Some (size_v3 \<sigma>') } = Some MAX_VALUE \<and>
   do { \<sigma> \<leftarrow> SongRangeLock; \<sigma>' \<leftarrow> releaseLock_v3 5 \<sigma>; tryLock_v3 10 20 (\<lambda>_. 0) \<sigma>' } = None"
  by code_simp

text \<open>
  \<open>displayList\<close> of a lock that holds ranges returns a row for each level, the highest first,
  and the row of the lowest level shows the held ranges in their order.
\<close>
theorem v3_displayList_correct:
  assumes "song_state \<sigma> rs" "rs \<noteq> []" "length rs < 2 ^ 64"
  shows "\<exists>rows. displayList_v3 \<sigma> = Some (Display_Levels rows) \<and> map fst rows = [3, 2, 1, 0] \<and>
    snd (last rows) = map Some rs"
proof -
  from assms(1) obtain ns where lay: "layout \<sigma> ns" and rs: "rs = map (s_rg \<sigma>) ns"
    and cnt: "s_count \<sigma> = of_nat (length ns)"
    by (auto simp: song_state_def)
  have n: "unat (s_count \<sigma>) = length ns" "s_count \<sigma> \<noteq> 0"
    using assms(2,3) rs by (auto simp: cnt unat_of_nat word_of_nat_eq_0_iff dest: nat_dvd_not_less)
  have ch: "chain \<sigma> 0 (s_head \<sigma> # ns @ [s_tail \<sigma>])" "forward \<sigma> (s_tail \<sigma>) 0 = Some None"
    using layoutD(8,9) [OF lay, of 0] by (simp_all add: full_chain_def)
  then have "forward \<sigma> (s_head \<sigma>) 0 = Some (Some (hd (ns @ [s_tail \<sigma>])))" "chain \<sigma> 0 (ns @ [s_tail \<sigma>])"
    by (cases ns; simp)+
  moreover from this(2) have "display_elements (length ns) (Some (hd (ns @ [s_tail \<sigma>]))) \<sigma> =
      Some (map (\<lambda>a. the (s_heap \<sigma> a)) ns)"
    using ch(2) layout_heap [OF lay] by (intro display_elements_chain) auto
  ultimately have "displayList_v3 \<sigma> = Some (Display_Levels (map (\<lambda>i. (i, map (\<lambda>n.
      if i \<le> sn_level n then Some (sn_start n, sn_end n) else None) (map (\<lambda>a. the (s_heap \<sigma> a)) ns)))
      [3, 2, 1, 0]))"
    using n by (simp add: displayList_v3_def MAX_LEVEL_def upt_rec)
  then show ?thesis by (simp add: rs s_rg_def comp_def)
qed

theorem v3_displayList_correct_witness:
  "\<exists>\<sigma> rows. displayList_v3 \<sigma> = Some (Display_Levels rows) \<and> snd (last rows) = [Some (5, 9)]"
proof -
  obtain \<sigma> where "song_state \<sigma> []" using SongRangeLock_ok by blast
  from tryLock_v3_ok [OF this, of 5 9 "\<lambda>_. 0"] obtain \<sigma>1 where "song_state \<sigma>1 [(5, 9)]"
    by (auto simp: MAX_VALUE_def)
  from v3_displayList_correct [OF this] show ?thesis by auto
qed

text \<open>
  The destructor walks the lowest level and frees every node of the list once: the head, the
  nodes of the held ranges in their order, and the tail.
\<close>
theorem v3_destructor_frees_all:
  assumes "song_state \<sigma> rs"
  shows "\<exists>ns. destroy_SongRangeLock \<sigma> = Some (s_head \<sigma> # ns @ [s_tail \<sigma>]) \<and>
    distinct (s_head \<sigma> # ns @ [s_tail \<sigma>]) \<and> map (s_rg \<sigma>) ns = rs"
proof -
  from assms obtain ns where lay: "layout \<sigma> ns" and rs: "rs = map (s_rg \<sigma>) ns"
    by (auto simp: song_state_def)
  have "chain \<sigma> 0 (s_head \<sigma> # ns @ [s_tail \<sigma>])" "forward \<sigma> (s_tail \<sigma>) 0 = Some None"
    using layoutD(8,9) [OF lay, of 0] by (simp_all add: full_chain_def)
  then have "destroy_SongRangeLock \<sigma> = Some (s_head \<sigma> # ns @ [s_tail \<sigma>])"
    unfolding destroy_SongRangeLock_def by (intro free_walk_chain) simp_all
  with layoutD(1) [OF lay] rs show ?thesis by blast
qed

theorem v3_destructor_frees_all_witness:
  "\<exists>\<sigma> ns. destroy_SongRangeLock \<sigma> = Some (s_head \<sigma> # ns @ [s_tail \<sigma>]) \<and> map (s_rg \<sigma>) ns = [(5, 9)]"
proof -
  obtain \<sigma> where "song_state \<sigma> []" using SongRangeLock_ok by blast
  from tryLock_v3_ok [OF this, of 5 9 "\<lambda>_. 0"] obtain \<sigma>1 where "song_state \<sigma>1 [(5, 9)]"
    by (auto simp: MAX_VALUE_def)
  from v3_destructor_frees_all [OF this] obtain ns where
    "destroy_SongRangeLock \<sigma>1 = Some (s_head \<sigma>1 # ns @ [s_tail \<sigma>1])" "map (s_rg \<sigma>1) ns = [(5, 9)]"
    by (elim exE conjE) (rule that)
  then show ?thesis by (intro exI [where x = ns] exI [where x = \<sigma>1] conjI)
qed

end
