(* ===== verification/V4_Keyrange.thy ===== *)
theory V4_Keyrange
  imports RL_Prelude
begin

text \<open>
  The key ranges of \<open>src/v4/keyrange.h\<close> and \<open>keyrange.cc\<close>.
\<close>

record keyrange =
  m_left_key :: "64 word"
  m_right_key :: "64 word"

datatype comparison = EQUALS | LESS_THAN | GREATER_THAN | OVERLAPS

definition create_keyrange :: "64 word \<Rightarrow> 64 word \<Rightarrow> keyrange" where
  "create_keyrange left right = \<lparr>m_left_key = left, m_right_key = right\<rparr>"

text \<open>
  \<open>this->compare(range)\<close>. The test \<open>m_right_key == m_right_key\<close> compares the field with itself.
\<close>

definition compare :: "keyrange \<Rightarrow> keyrange \<Rightarrow> comparison" where
  "compare this rng =
     (if m_right_key this < m_left_key rng then LESS_THAN
      else if m_left_key this > m_right_key rng then GREATER_THAN
      else if m_right_key this = m_right_key this \<and> m_left_key this = m_left_key rng then EQUALS
      else OVERLAPS)"

definition overlaps :: "keyrange \<Rightarrow> keyrange \<Rightarrow> bool" where
  "overlaps this rng = (let c = compare this rng in c = EQUALS \<or> c = OVERLAPS)"

definition get_infinite_range :: keyrange where
  "get_infinite_range = create_keyrange (not 0) (not 0)"

definition create_copy :: "keyrange \<Rightarrow> keyrange \<Rightarrow> keyrange" where
  "create_copy rng this = this\<lparr>m_left_key := m_left_key rng, m_right_key := m_right_key rng\<rparr>"

text \<open>A key range as a pair of its ends.\<close>

definition kr :: "keyrange \<Rightarrow> 64 word range" where
  "kr r = (m_left_key r, m_right_key r)"

lemma kr_inject [simp]: "kr r = kr q \<longleftrightarrow> r = q"
  by (auto simp: kr_def)

lemma kr_create [simp]: "kr (create_keyrange l r) = (l, r)"
  by (simp add: kr_def create_keyrange_def)

lemma create_copy_eq [simp]: "create_copy rng this = rng"
  by (simp add: create_copy_def)

lemma compare_less: "compare r q = LESS_THAN \<longleftrightarrow> closed_before (kr r) (kr q)"
  by (auto simp: compare_def kr_def closed_before_def)

lemma compare_greater:
  "closed_valid (kr r) \<Longrightarrow> closed_valid (kr q) \<Longrightarrow>
   compare r q = GREATER_THAN \<longleftrightarrow> closed_before (kr q) (kr r)"
  by (auto simp: compare_def kr_def closed_defs)

lemma compare_equals:
  "closed_valid (kr r) \<Longrightarrow> closed_valid (kr q) \<Longrightarrow>
   compare r q = EQUALS \<longleftrightarrow> m_left_key r = m_left_key q"
  by (auto simp: compare_def kr_def closed_defs)

lemma overlaps_closed: "overlaps r q \<longleftrightarrow> closed_overlaps (kr r) (kr q)"
  by (auto simp: overlaps_def compare_def kr_def closed_overlaps_def not_less)

lemma compare_order:
  assumes "closed_valid (kr r)" "closed_valid (kr q)" "\<not> closed_overlaps (kr r) (kr q)"
  shows "compare r q = LESS_THAN \<and> closed_before (kr r) (kr q) \<or>
    compare r q = GREATER_THAN \<and> closed_before (kr q) (kr r)"
  using closed.disjoint_cases [OF assms] compare_less compare_greater [OF assms(1,2)] by blast

subsection \<open>Properties\<close>

text \<open>
  \<open>compare\<close> on valid ranges: \<open>LESS_THAN\<close> when this range lies to the left of the given one,
  \<open>GREATER_THAN\<close> when it lies to the right, \<open>EQUALS\<close> as soon as the left ends agree, whatever the
  right ends are, and \<open>OVERLAPS\<close> otherwise; \<open>overlaps\<close> says that the ranges share a key.
\<close>
theorem keyrange_compare_correct:
  assumes "m_left_key r \<le> m_right_key r" "m_left_key q \<le> m_right_key q"
  shows "compare r q =
      (if closed_before (kr r) (kr q) then LESS_THAN
       else if closed_before (kr q) (kr r) then GREATER_THAN
       else if m_left_key r = m_left_key q then EQUALS else OVERLAPS) \<and>
    (overlaps r q = (\<exists>k. m_left_key r \<le> k \<and> k \<le> m_right_key r \<and> m_left_key q \<le> k \<and> k \<le> m_right_key q))"
proof
  show "compare r q =
      (if closed_before (kr r) (kr q) then LESS_THAN
       else if closed_before (kr q) (kr r) then GREATER_THAN
       else if m_left_key r = m_left_key q then EQUALS else OVERLAPS)"
    by (simp add: compare_def kr_def closed_before_def)
  show "overlaps r q = (\<exists>k. m_left_key r \<le> k \<and> k \<le> m_right_key r \<and>
      m_left_key q \<le> k \<and> k \<le> m_right_key q)"
    using closed_overlaps_shares_point [of "kr r" "kr q"] assms
    by (simp add: overlaps_closed kr_def closed_valid_def)
qed

theorem keyrange_compare_correct_witness:
  "compare (create_keyrange 1 9) (create_keyrange 1 5) = EQUALS"
  using keyrange_compare_correct [of "create_keyrange 1 9" "create_keyrange 1 5"]
  by (simp add: create_keyrange_def kr_def closed_before_def)

end
