(* ===== verification/V4_Treenode.thy ===== *)
theory V4_Treenode
  imports V4_Keyrange
begin

text \<open>
  The nodes of the range tree of \<open>src/v4/treenode.h\<close> and \<open>treenode.cc\<close>, in an explicit memory.
  An operation takes the memory and returns the memory behind it; \<open>None\<close> is a null pointer
  followed, a mutex locked twice or unlocked while it is free, an abort, or a call that does not
  return. The two children are told apart by \<open>side\<close>, so that a function the code has twice, for
  the left and for the right, is one definition.
\<close>

subsection \<open>Data\<close>

type_synonym addr4 = nat

record child_ptr =
  ptr :: "addr4 option"
  depth_est :: "32 word"

record treenode =
  m_mutex :: bool
  m_range :: keyrange
  m_left_child :: child_ptr
  m_right_child :: child_ptr
  m_is_root :: bool
  m_is_empty :: bool

record memory4 =
  t_heap :: "addr4 \<Rightarrow> treenode option"
  t_brk :: addr4

datatype side = Left_Side | Right_Side

definition other :: "side \<Rightarrow> side" where
  "other d = (case d of Left_Side \<Rightarrow> Right_Side | Right_Side \<Rightarrow> Left_Side)"

definition child :: "side \<Rightarrow> treenode \<Rightarrow> child_ptr" where
  "child d n = (case d of Left_Side \<Rightarrow> m_left_child n | Right_Side \<Rightarrow> m_right_child n)"

definition update_child :: "side \<Rightarrow> child_ptr \<Rightarrow> treenode \<Rightarrow> treenode" where
  "update_child d c n = (case d of Left_Side \<Rightarrow> n\<lparr>m_left_child := c\<rparr> | Right_Side \<Rightarrow> n\<lparr>m_right_child := c\<rparr>)"

definition IMBALANCE_THRESHOLD :: "32 word" where
  "IMBALANCE_THRESHOLD = 2"

definition update_node :: "addr4 \<Rightarrow> (treenode \<Rightarrow> treenode) \<Rightarrow> memory4 \<Rightarrow> memory4 option" where
  "update_node a f \<sigma> = do {
     n \<leftarrow> t_heap \<sigma> a;
     Some (\<sigma>\<lparr>t_heap := (t_heap \<sigma>)(a \<mapsto> f n)\<rparr>) }"

subsection \<open>Mutexes and fields\<close>

definition mutex_lock :: "addr4 \<Rightarrow> memory4 \<Rightarrow> memory4 option" where
  "mutex_lock a \<sigma> = do {
     n \<leftarrow> t_heap \<sigma> a;
     if m_mutex n then None else update_node a (\<lambda>n. n\<lparr>m_mutex := True\<rparr>) \<sigma> }"

definition mutex_unlock :: "addr4 \<Rightarrow> memory4 \<Rightarrow> memory4 option" where
  "mutex_unlock a \<sigma> = do {
     n \<leftarrow> t_heap \<sigma> a;
     if m_mutex n then update_node a (\<lambda>n. n\<lparr>m_mutex := False\<rparr>) \<sigma> else None }"

definition null_child :: child_ptr where
  "null_child = \<lparr>ptr = None, depth_est = 0\<rparr>"

text \<open>\<open>init\<close> leaves the range as it is.\<close>

definition init_node :: "treenode \<Rightarrow> treenode" where
  "init_node n = n\<lparr>m_is_root := False, m_is_empty := True, m_left_child := null_child,
     m_right_child := null_child\<rparr>"

definition create_root :: "treenode \<Rightarrow> treenode" where
  "create_root n = (init_node n)\<lparr>m_is_root := True\<rparr>"

definition set_range_and_txnid :: "keyrange \<Rightarrow> treenode \<Rightarrow> treenode" where
  "set_range_and_txnid rng n = n\<lparr>m_range := create_copy rng (m_range n), m_is_empty := False\<rparr>"

definition range_overlaps :: "keyrange \<Rightarrow> treenode \<Rightarrow> bool" where
  "range_overlaps rng n = overlaps (m_range n) rng"

text \<open>A new node, whose range is not initialised (\<open>garbage\<close>).\<close>

definition new_treenode :: "keyrange \<Rightarrow> treenode" where
  "new_treenode garbage = \<lparr>m_mutex = False, m_range = garbage, m_left_child = null_child,
     m_right_child = null_child, m_is_root = False, m_is_empty = True\<rparr>"

definition alloc :: "keyrange \<Rightarrow> memory4 \<Rightarrow> addr4 \<times> memory4" where
  "alloc rng \<sigma> =
     (t_brk \<sigma>, \<sigma>\<lparr>t_heap := (t_heap \<sigma>)(t_brk \<sigma> \<mapsto>
        set_range_and_txnid rng (init_node (new_treenode get_infinite_range))),
        t_brk := t_brk \<sigma> + 1\<rparr>)"

definition free_node :: "addr4 \<Rightarrow> memory4 \<Rightarrow> memory4 option" where
  "free_node a \<sigma> = do {
     n \<leftarrow> t_heap \<sigma> a;
     if m_is_root n then update_node a (\<lambda>n. n\<lparr>m_is_empty := True\<rparr>) \<sigma> else Some \<sigma> }"

definition get_depth_estimate :: "treenode \<Rightarrow> 32 word" where
  "get_depth_estimate n =
     (let left_est = depth_est (m_left_child n); right_est = depth_est (m_right_child n)
      in (if left_est > right_est then left_est else right_est) + 1)"

subsection \<open>Child pointers\<close>

text \<open>\<open>child_ptr::set\<close> on the child \<open>d\<close> of \<open>a\<close>.\<close>

definition set_child :: "side \<Rightarrow> addr4 \<Rightarrow> addr4 option \<Rightarrow> memory4 \<Rightarrow> memory4 option" where
  "set_child d a node \<sigma> = (case node of
       None \<Rightarrow> update_node a (update_child d null_child) \<sigma>
     | Some c \<Rightarrow> do {
         n \<leftarrow> t_heap \<sigma> c;
         update_node a (update_child d \<lparr>ptr = Some c, depth_est = get_depth_estimate n\<rparr>) \<sigma> })"

text \<open>The assignment \<open>a->d = b->e\<close> of child pointers.\<close>

definition copy_child :: "side \<Rightarrow> addr4 \<Rightarrow> side \<Rightarrow> addr4 \<Rightarrow> memory4 \<Rightarrow> memory4 option" where
  "copy_child d a e b \<sigma> = do {
     n \<leftarrow> t_heap \<sigma> b;
     update_node a (update_child d (child e n)) \<sigma> }"

text \<open>\<open>child_ptr::get_locked\<close> on the child \<open>d\<close> of \<open>a\<close>.\<close>

definition get_locked :: "side \<Rightarrow> addr4 \<Rightarrow> memory4 \<Rightarrow> (addr4 option \<times> memory4) option" where
  "get_locked d a \<sigma> = do {
     n \<leftarrow> t_heap \<sigma> a;
     case ptr (child d n) of
       None \<Rightarrow> Some (None, \<sigma>)
     | Some c \<Rightarrow> do {
         \<sigma>1 \<leftarrow> mutex_lock c \<sigma>;
         m \<leftarrow> t_heap \<sigma>1 c;
         \<sigma>2 \<leftarrow> update_node a (\<lambda>n. update_child d ((child d n)\<lparr>depth_est := get_depth_estimate m\<rparr>) n) \<sigma>1;
         Some (Some c, \<sigma>2) } }"

subsection \<open>Rebalancing\<close>

text \<open>\<open>left_imbalanced\<close> and \<open>right_imbalanced\<close>; the threshold is converted to \<open>uint32_t\<close>.\<close>

definition imbalanced :: "side \<Rightarrow> 32 word \<Rightarrow> treenode \<Rightarrow> bool" where
  "imbalanced d threshold n \<longleftrightarrow> ptr (child d n) \<noteq> None \<and>
     depth_est (child d n) > threshold + depth_est (child (other d) n)"

text \<open>
  The assignments of the branch of \<open>maybe_rebalance\<close> for the side \<open>d\<close>: the single rotation, and
  the double one, which makes the grandchild \<open>g\<close> the new root.
\<close>

definition rotate_single :: "side \<Rightarrow> addr4 \<Rightarrow> addr4 \<Rightarrow> memory4 \<Rightarrow> memory4 option" where
  "rotate_single d this c \<sigma> = do {
     \<sigma> \<leftarrow> copy_child d this (other d) c \<sigma>;
     set_child (other d) c (Some this) \<sigma> }"

definition rotate_double :: "side \<Rightarrow> addr4 \<Rightarrow> addr4 \<Rightarrow> addr4 \<Rightarrow> memory4 \<Rightarrow> memory4 option" where
  "rotate_double d this c g \<sigma> = do {
     \<sigma> \<leftarrow> copy_child (other d) c d g \<sigma>;
     \<sigma> \<leftarrow> set_child d g (Some c) \<sigma>;
     \<sigma> \<leftarrow> copy_child d this (other d) g \<sigma>;
     set_child (other d) g (Some this) \<sigma> }"

text \<open>The whole branch: it yields \<open>child\<close> and \<open>new_root\<close>.\<close>

definition rotate :: "side \<Rightarrow> addr4 \<Rightarrow> memory4 \<Rightarrow> (addr4 \<times> addr4 \<times> memory4) option" where
  "rotate d this \<sigma> = do {
     (cp, \<sigma>) \<leftarrow> get_locked d this \<sigma>;
     c \<leftarrow> cp;
     n \<leftarrow> t_heap \<sigma> c;
     if imbalanced (other d) 0 n
     then do {
       (gp, \<sigma>) \<leftarrow> get_locked (other d) c \<sigma>;
       g \<leftarrow> gp;
       \<sigma> \<leftarrow> rotate_double d this c g \<sigma>;
       Some (c, g, \<sigma>) }
     else do {
       \<sigma> \<leftarrow> rotate_single d this c \<sigma>;
       Some (c, c, \<sigma>) } }"

text \<open>Of the locked nodes, all but the new root are unlocked.\<close>

definition unlock_old_roots :: "addr4 option \<Rightarrow> addr4 \<Rightarrow> addr4 \<Rightarrow> memory4 \<Rightarrow> memory4 option" where
  "unlock_old_roots cp this new_root \<sigma> = do {
     \<sigma> \<leftarrow> (case cp of None \<Rightarrow> Some \<sigma>
          | Some c \<Rightarrow> if c \<noteq> new_root then mutex_unlock c \<sigma> else Some \<sigma>);
     if this \<noteq> new_root then mutex_unlock this \<sigma> else Some \<sigma> }"

definition maybe_rebalance :: "addr4 \<Rightarrow> memory4 \<Rightarrow> (addr4 \<times> memory4) option" where
  "maybe_rebalance this \<sigma> = do {
     n \<leftarrow> t_heap \<sigma> this;
     (cp, new_root, \<sigma>) \<leftarrow>
       (if imbalanced Left_Side IMBALANCE_THRESHOLD n
        then do { (c, g, \<sigma>) \<leftarrow> rotate Left_Side this \<sigma>; Some (Some c, g, \<sigma>) }
        else if imbalanced Right_Side IMBALANCE_THRESHOLD n
        then do { (c, g, \<sigma>) \<leftarrow> rotate Right_Side this \<sigma>; Some (Some c, g, \<sigma>) }
        else Some (None, this, \<sigma>));
     \<sigma> \<leftarrow> unlock_old_roots cp this new_root \<sigma>;
     Some (new_root, \<sigma>) }"

definition lock_and_rebalance :: "side \<Rightarrow> addr4 \<Rightarrow> memory4 \<Rightarrow> (addr4 option \<times> memory4) option" where
  "lock_and_rebalance d this \<sigma> = do {
     (cp, \<sigma>) \<leftarrow> get_locked d this \<sigma>;
     case cp of None \<Rightarrow> Some (None, \<sigma>)
     | Some c \<Rightarrow> do {
         (new_root, \<sigma>) \<leftarrow> maybe_rebalance c \<sigma>;
         \<sigma> \<leftarrow> set_child d this (Some new_root) \<sigma>;
         Some (Some new_root, \<sigma>) } }"

subsection \<open>Search\<close>

partial_function (option) find_node_with_overlapping_child ::
  "keyrange \<Rightarrow> comparison option \<Rightarrow> addr4 \<Rightarrow> memory4 \<Rightarrow> (addr4 \<times> memory4) option" where
  "find_node_with_overlapping_child rng cmp_hint this \<sigma> = do {
     n \<leftarrow> t_heap \<sigma> this;
     let c = (case cmp_hint of Some h \<Rightarrow> h | None \<Rightarrow> compare rng (m_range n));
     (cp, \<sigma>) \<leftarrow> lock_and_rebalance (if c = LESS_THAN then Left_Side else Right_Side) this \<sigma>;
     case cp of None \<Rightarrow> Some (this, \<sigma>)
     | Some b \<Rightarrow> do {
         m \<leftarrow> t_heap \<sigma> b;
         let c = compare rng (m_range m);
         if c = EQUALS \<or> c = OVERLAPS
         then do { \<sigma> \<leftarrow> mutex_unlock b \<sigma>; Some (this, \<sigma>) }
         else do {
           \<sigma> \<leftarrow> mutex_unlock this \<sigma>;
           find_node_with_overlapping_child rng (Some c) b \<sigma> } } }"

declare find_node_with_overlapping_child.simps [code]

subsection \<open>Insertion\<close>

partial_function (option) insert_node ::
  "keyrange \<Rightarrow> addr4 \<Rightarrow> memory4 \<Rightarrow> memory4 option" where
  "insert_node rng this \<sigma> = do {
     n \<leftarrow> t_heap \<sigma> this;
     let d = (if compare rng (m_range n) = LESS_THAN then Left_Side else Right_Side);
     (cp, \<sigma>) \<leftarrow> lock_and_rebalance d this \<sigma>;
     case cp of
       None \<Rightarrow> do {
         let (b, \<sigma>) = alloc rng \<sigma>;
         set_child d this (Some b) \<sigma> }
     | Some b \<Rightarrow> do {
         \<sigma> \<leftarrow> insert_node rng b \<sigma>;
         mutex_unlock b \<sigma> } }"

declare insert_node.simps [code]

subsection \<open>Removal\<close>

text \<open>
  \<open>find_child_at_extreme\<close>: the child at the extreme and, when the call recurred, its parent;
  \<open>parent\<close> is \<open>*parent\<close> on entry.
\<close>

partial_function (option) find_child_at_extreme ::
  "side \<Rightarrow> addr4 \<Rightarrow> addr4 \<Rightarrow> memory4 \<Rightarrow> (addr4 \<times> addr4 \<times> memory4) option" where
  "find_child_at_extreme direction parent this \<sigma> = do {
     (cp, \<sigma>) \<leftarrow> get_locked direction this \<sigma>;
     case cp of
       Some c \<Rightarrow> do {
         (extreme, parent', \<sigma>) \<leftarrow> find_child_at_extreme direction this c \<sigma>;
         \<sigma> \<leftarrow> mutex_unlock c \<sigma>;
         Some (extreme, parent', \<sigma>) }
     | None \<Rightarrow> Some (this, parent, \<sigma>) }"

declare find_child_at_extreme.simps [code]

definition swap_in_place :: "addr4 \<Rightarrow> addr4 \<Rightarrow> memory4 \<Rightarrow> memory4 option" where
  "swap_in_place node1 node2 \<sigma> = do {
     n1 \<leftarrow> t_heap \<sigma> node1;
     n2 \<leftarrow> t_heap \<sigma> node2;
     \<sigma> \<leftarrow> update_node node1 (\<lambda>n. n\<lparr>m_range := m_range n2\<rparr>) \<sigma>;
     update_node node2 (\<lambda>n. n\<lparr>m_range := m_range n1\<rparr>) \<sigma> }"

text \<open>
  The branch of \<open>remove_root_of_subtree\<close> that takes the replacement from the side \<open>d\<close>: what it does
  once the replacement is found, and the whole branch.
\<close>

definition splice_replacement :: "side \<Rightarrow> addr4 \<Rightarrow> addr4 \<Rightarrow> addr4 \<Rightarrow> addr4 \<Rightarrow> memory4 \<Rightarrow> memory4 option" where
  "splice_replacement d this c replacement replacement_parent \<sigma> = do {
     \<sigma> \<leftarrow> (if replacement_parent = this
          then copy_child d this d replacement \<sigma>
          else copy_child (other d) replacement_parent d replacement \<sigma>);
     \<sigma> \<leftarrow> mutex_unlock c \<sigma>;
     \<sigma> \<leftarrow> swap_in_place replacement this \<sigma>;
     free_node replacement \<sigma> }"

definition take_replacement :: "side \<Rightarrow> addr4 \<Rightarrow> memory4 \<Rightarrow> memory4 option" where
  "take_replacement d this \<sigma> = do {
     (cp, \<sigma>) \<leftarrow> get_locked d this \<sigma>;
     c \<leftarrow> cp;
     (replacement, replacement_parent, \<sigma>) \<leftarrow> find_child_at_extreme (other d) this c \<sigma>;
     splice_replacement d this c replacement replacement_parent \<sigma> }"

definition remove_leaf :: "addr4 \<Rightarrow> memory4 \<Rightarrow> memory4 option" where
  "remove_leaf this \<sigma> = do {
     n \<leftarrow> t_heap \<sigma> this;
     \<sigma> \<leftarrow> (if \<not> m_is_root n then mutex_unlock this \<sigma> else Some \<sigma>);
     free_node this \<sigma> }"

definition remove_root_of_subtree :: "addr4 \<Rightarrow> memory4 \<Rightarrow> (addr4 option \<times> memory4) option" where
  "remove_root_of_subtree this \<sigma> = do {
     n \<leftarrow> t_heap \<sigma> this;
     if ptr (m_left_child n) = None \<and> ptr (m_right_child n) = None
     then do { \<sigma> \<leftarrow> remove_leaf this \<sigma>; Some (None, \<sigma>) }
     else do {
       \<sigma> \<leftarrow> take_replacement (if ptr (m_left_child n) \<noteq> None then Left_Side else Right_Side) this \<sigma>;
       Some (Some this, \<sigma>) } }"

text \<open>\<open>remove\<close>; its two searching branches differ in the side only. An overlap that is not an equality aborts.\<close>

partial_function (option) remove_node ::
  "keyrange \<Rightarrow> addr4 \<Rightarrow> memory4 \<Rightarrow> (addr4 option \<times> memory4) option" where
  "remove_node rng this \<sigma> = do {
     n \<leftarrow> t_heap \<sigma> this;
     let c = compare rng (m_range n);
     if c = EQUALS then remove_root_of_subtree this \<sigma>
     else if c = OVERLAPS then None
     else do {
       let d = (if c = LESS_THAN then Left_Side else Right_Side);
       (cp, \<sigma>) \<leftarrow> get_locked d this \<sigma>;
       b \<leftarrow> cp;
       (res, \<sigma>) \<leftarrow> remove_node rng b \<sigma>;
       \<sigma> \<leftarrow> (case res of None \<Rightarrow> Some \<sigma> | Some b' \<Rightarrow> mutex_unlock b' \<sigma>);
       \<sigma> \<leftarrow> set_child d this res \<sigma>;
       Some (Some this, \<sigma>) } }"

declare remove_node.simps [code]

subsection \<open>The tree and its locked key ranges\<close>

text \<open>
  \<open>concurrent_tree\<close> holds its root node; \<open>m_root\<close> is the address of it. \<open>garbage\<close> is what the
  range of the root is before it is set.
\<close>

record concurrent_tree =
  mem :: memory4
  m_root :: addr4

definition create_tree :: "keyrange \<Rightarrow> concurrent_tree" where
  "create_tree garbage =
     \<lparr>mem = \<lparr>t_heap = [0 \<mapsto> create_root (new_treenode garbage)], t_brk = 1\<rparr>, m_root = 0\<rparr>"

definition tree_is_empty :: "concurrent_tree \<Rightarrow> bool option" where
  "tree_is_empty T = map_option m_is_empty (t_heap (mem T) (m_root T))"

record locked_keyrange =
  m_lk_range :: keyrange
  m_subtree :: addr4

definition prepare :: "concurrent_tree \<Rightarrow> (locked_keyrange \<times> concurrent_tree) option" where
  "prepare T = do {
     \<sigma> \<leftarrow> mutex_lock (m_root T) (mem T);
     Some (\<lparr>m_lk_range = get_infinite_range, m_subtree = m_root T\<rparr>, T\<lparr>mem := \<sigma>\<rparr>) }"

definition acquire ::
  "64 word \<Rightarrow> 64 word \<Rightarrow> locked_keyrange \<times> concurrent_tree \<Rightarrow> (locked_keyrange \<times> concurrent_tree) option" where
  "acquire left right s = (let (lk, T) = s; rng = create_keyrange left right in do {
     n \<leftarrow> t_heap (mem T) (m_root T);
     (subtree, \<sigma>) \<leftarrow> (if m_is_empty n \<or> range_overlaps rng n then Some (m_root T, mem T)
       else find_node_with_overlapping_child rng None (m_root T) (mem T));
     Some (lk\<lparr>m_lk_range := rng, m_subtree := subtree\<rparr>, T\<lparr>mem := \<sigma>\<rparr>) })"

definition release :: "locked_keyrange \<times> concurrent_tree \<Rightarrow> concurrent_tree option" where
  "release s = (let (lk, T) = s in do {
     \<sigma> \<leftarrow> mutex_unlock (m_subtree lk) (mem T);
     Some (T\<lparr>mem := \<sigma>\<rparr>) })"

definition lk_insert ::
  "keyrange \<Rightarrow> locked_keyrange \<times> concurrent_tree \<Rightarrow> (locked_keyrange \<times> concurrent_tree) option" where
  "lk_insert rng s = (let (lk, T) = s in do {
     n \<leftarrow> t_heap (mem T) (m_subtree lk);
     \<sigma> \<leftarrow> (if m_is_empty n then update_node (m_subtree lk) (set_range_and_txnid rng) (mem T)
          else insert_node rng (m_subtree lk) (mem T));
     Some (lk, T\<lparr>mem := \<sigma>\<rparr>) })"

definition lk_remove ::
  "keyrange \<Rightarrow> locked_keyrange \<times> concurrent_tree \<Rightarrow> (locked_keyrange \<times> concurrent_tree) option" where
  "lk_remove rng s = (let (lk, T) = s in do {
     (new_subtree, \<sigma>) \<leftarrow> remove_node rng (m_subtree lk) (mem T);
     Some (lk, T\<lparr>mem := \<sigma>\<rparr>) })"

end
