(* ===== verification/V4_Layout.thy ===== *)
theory V4_Layout
  imports V4_Treenode RL_Abstract_Lock "HOL-Library.Tree"
begin

text \<open>
  The memory of the range tree seen without its depth estimates, which steer the rotations and
  nothing else: the \<open>view\<close> of every node, the set of the nodes whose mutex is held and the next
  free address. Each operation on nodes is described by what it does to these three; \<open>shape\<close>
  says which tree hangs below an address.
\<close>

subsection \<open>Runs that return\<close>

text \<open>\<open>gives m P\<close>: the run \<open>m\<close> returns, with a result that satisfies \<open>P\<close>.\<close>

definition gives :: "'a option \<Rightarrow> ('a \<Rightarrow> bool) \<Rightarrow> bool" where
  "gives m P \<longleftrightarrow> (\<exists>r. m = Some r \<and> P r)"

lemma gives_simps [simp]:
  "gives (Some r) P \<longleftrightarrow> P r" "\<not> gives None P"
  "gives (Option.bind m f) Q \<longleftrightarrow> gives m (\<lambda>r. gives (f r) Q)"
  by (auto simp: gives_def bind_eq_Some_conv)

lemma gives_mono: "gives m P \<Longrightarrow> (\<And>r. P r \<Longrightarrow> Q r) \<Longrightarrow> gives m Q"
  by (auto simp: gives_def)

lemma givesD: "gives m P \<Longrightarrow> \<exists>r. m = Some r \<and> P r"
  by (simp add: gives_def)

subsection \<open>The view of the memory\<close>

record vnode =
  v_range :: keyrange
  v_child :: "side \<Rightarrow> addr4 option"
  v_root :: bool
  v_empty :: bool

definition vnode_of :: "treenode \<Rightarrow> vnode" where
  "vnode_of n = \<lparr>v_range = m_range n, v_child = (\<lambda>d. ptr (child d n)), v_root = m_is_root n,
     v_empty = m_is_empty n\<rparr>"

type_synonym view4 = "addr4 \<Rightarrow> vnode option"

definition view :: "memory4 \<Rightarrow> view4" where
  "view \<sigma> a = map_option vnode_of (t_heap \<sigma> a)"

definition locks :: "memory4 \<Rightarrow> addr4 set" where
  "locks \<sigma> = {a. \<exists>n. t_heap \<sigma> a = Some n \<and> m_mutex n}"

definition abs4 :: "memory4 \<Rightarrow> view4 \<times> addr4 set \<times> addr4" where
  "abs4 \<sigma> = (view \<sigma>, locks \<sigma>, t_brk \<sigma>)"

definition vset :: "side \<Rightarrow> addr4 option \<Rightarrow> vnode \<Rightarrow> vnode" where
  "vset d p n = n\<lparr>v_child := (v_child n)(d := p)\<rparr>"

lemma vset_simps [simp]:
  "v_range (vset d p n) = v_range n" "v_child (vset d p n) = (v_child n)(d := p)"
  "v_root (vset d p n) = v_root n" "v_empty (vset d p n) = v_empty n"
  by (simp_all add: vset_def)

lemma other_simps [simp]:
  "other Left_Side = Right_Side" "other Right_Side = Left_Side" "other d \<noteq> d" "d \<noteq> other d"
  "other (other d) = d"
  by (cases d; simp add: other_def)+

lemma vnode_of_simps [simp]:
  "v_range (vnode_of n) = m_range n" "v_child (vnode_of n) d = ptr (child d n)"
  "v_root (vnode_of n) = m_is_root n" "v_empty (vnode_of n) = m_is_empty n"
  by (simp_all add: vnode_of_def)

lemma child_simps [simp]:
  "child d (n\<lparr>m_mutex := b\<rparr>) = child d n" "child d (n\<lparr>m_range := r\<rparr>) = child d n"
  "child d (n\<lparr>m_is_empty := b\<rparr>) = child d n" "child d (n\<lparr>m_is_root := b\<rparr>) = child d n"
  "child d (update_child e c n) = (if d = e then c else child d n)"
  by (cases d; cases e; simp add: child_def update_child_def)+

lemma update_child_simps [simp]:
  "m_mutex (update_child d c n) = m_mutex n" "m_range (update_child d c n) = m_range n"
  "m_is_root (update_child d c n) = m_is_root n" "m_is_empty (update_child d c n) = m_is_empty n"
  by (cases d; simp add: update_child_def)+

lemma abs4_eq: "abs4 \<sigma> = (V, L, k) \<longleftrightarrow> view \<sigma> = V \<and> locks \<sigma> = L \<and> t_brk \<sigma> = k"
  by (simp add: abs4_def)

lemma abs4_node:
  assumes "abs4 \<sigma> = (V, L, k)" "V a = Some v"
  obtains n where "t_heap \<sigma> a = Some n" "v = vnode_of n" "m_mutex n \<longleftrightarrow> a \<in> L"
  using assms by (auto simp: abs4_def view_def locks_def)

text \<open>The effect of one write, and of a read.\<close>

lemma update_node_rule:
  assumes "abs4 \<sigma> = (V, L, k)" "V a = Some v"
    and "\<And>n. v = vnode_of n \<Longrightarrow> (m_mutex n \<longleftrightarrow> a \<in> L) \<Longrightarrow> vnode_of (f n) = v' \<and> (m_mutex (f n) \<longleftrightarrow> b)"
    and "\<And>\<sigma>'. abs4 \<sigma>' = (V(a \<mapsto> v'), if b then insert a L else L - {a}, k) \<Longrightarrow> P \<sigma>'"
  shows "gives (update_node a f \<sigma>) P"
proof -
  from assms(1,2) obtain n where n: "t_heap \<sigma> a = Some n" "v = vnode_of n" "m_mutex n \<longleftrightarrow> a \<in> L"
    by (rule abs4_node)
  from assms(3) [OF n(2,3)] have "vnode_of (f n) = v'" "m_mutex (f n) \<longleftrightarrow> b" by simp_all
  then have "abs4 (\<sigma>\<lparr>t_heap := (t_heap \<sigma>)(a \<mapsto> f n)\<rparr>)
      = (V(a \<mapsto> v'), if b then insert a L else L - {a}, k)"
    using assms(1) n by (auto simp: abs4_def view_def locks_def fun_eq_iff)
  then show ?thesis using assms(4) n(1) by (simp add: update_node_def)
qed

lemma read_rule:
  assumes "abs4 \<sigma> = (V, L, k)" "V a = Some v"
    and "\<And>n. t_heap \<sigma> a = Some n \<Longrightarrow> v = vnode_of n \<Longrightarrow> (m_mutex n \<longleftrightarrow> a \<in> L) \<Longrightarrow> P n"
  shows "gives (t_heap \<sigma> a) P"
proof -
  from assms(1,2) obtain n where "t_heap \<sigma> a = Some n" "v = vnode_of n" "m_mutex n \<longleftrightarrow> a \<in> L"
    by (rule abs4_node)
  then show ?thesis using assms(3) by (simp add: gives_def)
qed

text \<open>The operations on single nodes.\<close>

lemma mutex_lock_rule:
  assumes "abs4 \<sigma> = (V, L, k)" "V a = Some v" "a \<notin> L"
    and "\<And>\<sigma>'. abs4 \<sigma>' = (V, insert a L, k) \<Longrightarrow> P \<sigma>'"
  shows "gives (mutex_lock a \<sigma>) P"
  unfolding mutex_lock_def gives_simps
proof (rule read_rule [OF assms(1,2)])
  fix n assume "m_mutex n \<longleftrightarrow> a \<in> L"
  moreover have "gives (update_node a (\<lambda>n. n\<lparr>m_mutex := True\<rparr>) \<sigma>) P"
    by (rule update_node_rule [OF assms(1,2), where v' = v and b = True])
      (use assms in \<open>auto simp: vnode_of_def map_upd_triv\<close>)
  ultimately show "gives (if m_mutex n then None else update_node a (\<lambda>n. n\<lparr>m_mutex := True\<rparr>) \<sigma>) P"
    using assms(3) by simp
qed

lemma mutex_unlock_rule:
  assumes "abs4 \<sigma> = (V, L, k)" "V a = Some v" "a \<in> L"
    and "\<And>\<sigma>'. abs4 \<sigma>' = (V, L - {a}, k) \<Longrightarrow> P \<sigma>'"
  shows "gives (mutex_unlock a \<sigma>) P"
  unfolding mutex_unlock_def gives_simps
proof (rule read_rule [OF assms(1,2)])
  fix n assume "m_mutex n \<longleftrightarrow> a \<in> L"
  moreover have "gives (update_node a (\<lambda>n. n\<lparr>m_mutex := False\<rparr>) \<sigma>) P"
    by (rule update_node_rule [OF assms(1,2), where v' = v and b = False])
      (use assms in \<open>auto simp: vnode_of_def map_upd_triv\<close>)
  ultimately show "gives (if m_mutex n then update_node a (\<lambda>n. n\<lparr>m_mutex := False\<rparr>) \<sigma> else None) P"
    using assms(3) by simp
qed

text \<open>A write that keeps the mutex.\<close>

lemma update_keep_rule:
  assumes "abs4 \<sigma> = (V, L, k)" "V a = Some v"
    and "\<And>n. vnode_of n = v \<Longrightarrow> vnode_of (f n) = v' \<and> m_mutex (f n) = m_mutex n"
    and "\<And>\<sigma>'. abs4 \<sigma>' = (V(a \<mapsto> v'), L, k) \<Longrightarrow> P \<sigma>'"
  shows "gives (update_node a f \<sigma>) P"
proof (rule update_node_rule [OF assms(1,2), where v' = v' and b = "a \<in> L"])
  fix n assume "v = vnode_of n" "m_mutex n \<longleftrightarrow> a \<in> L"
  then show "vnode_of (f n) = v' \<and> (m_mutex (f n) \<longleftrightarrow> a \<in> L)" using assms(3) by simp
next
  fix \<sigma>' assume "abs4 \<sigma>' = (V(a \<mapsto> v'), if a \<in> L then insert a L else L - {a}, k)"
  then show "P \<sigma>'" using assms(4) by (auto simp: insert_absorb split: if_splits)
qed

lemma vnode_update_child:
  "vnode_of (update_child d c n) = vset d (ptr c) (vnode_of n)"
  by (auto simp: vnode_of_def vset_def)

lemma set_child_rule:
  assumes "abs4 \<sigma> = (V, L, k)" "V a = Some v" "p = None \<or> (\<exists>c w. p = Some c \<and> V c = Some w)"
    and "\<And>\<sigma>'. abs4 \<sigma>' = (V(a \<mapsto> vset d p v), L, k) \<Longrightarrow> P \<sigma>'"
  shows "gives (set_child d a p \<sigma>) P"
proof -
  have upd: "gives (update_node a (update_child d c) \<sigma>) P" if "ptr c = p" for c
    by (rule update_keep_rule [OF assms(1,2) _ assms(4)]) (auto simp: vnode_update_child that)
  show ?thesis
  proof (cases p)
    case None
    then show ?thesis using upd [of null_child] by (simp add: set_child_def null_child_def)
  next
    case (Some c)
    with assms(3) obtain w where w: "V c = Some w" by auto
    have "gives (t_heap \<sigma> c)
        (\<lambda>m. gives (update_node a (update_child d \<lparr>ptr = Some c, depth_est = get_depth_estimate m\<rparr>) \<sigma>) P)"
      by (rule read_rule [OF assms(1) w]) (rule upd, simp add: Some)
    then show ?thesis by (simp add: set_child_def Some)
  qed
qed

lemma copy_child_rule:
  assumes "abs4 \<sigma> = (V, L, k)" "V a = Some v" "V b = Some w"
    and "\<And>\<sigma>'. abs4 \<sigma>' = (V(a \<mapsto> vset d (v_child w e) v), L, k) \<Longrightarrow> P \<sigma>'"
  shows "gives (copy_child d a e b \<sigma>) P"
  unfolding copy_child_def gives_simps
proof (rule read_rule [OF assms(1,3)])
  fix n assume "w = vnode_of n"
  then show "gives (update_node a (update_child d (child e n)) \<sigma>) P"
    by (intro update_keep_rule [OF assms(1,2) _ assms(4)]) (auto simp: vnode_update_child)
qed

lemma get_locked_None_rule:
  assumes "abs4 \<sigma> = (V, L, k)" "V a = Some v" "v_child v d = None" "P (None, \<sigma>)"
  shows "gives (get_locked d a \<sigma>) P"
  unfolding get_locked_def gives_simps
  by (rule read_rule [OF assms(1,2)]) (use assms in auto)

lemma get_locked_Some_rule:
  assumes "abs4 \<sigma> = (V, L, k)" "V a = Some v" "v_child v d = Some c" "V c = Some w" "c \<notin> L"
    and "\<And>\<sigma>'. abs4 \<sigma>' = (V, insert c L, k) \<Longrightarrow> P (Some c, \<sigma>')"
  shows "gives (get_locked d a \<sigma>) P"
  unfolding get_locked_def gives_simps
proof (rule read_rule [OF assms(1,2)])
  fix n assume n: "v = vnode_of n"
  have "gives (mutex_lock c \<sigma>) (\<lambda>\<sigma>1. gives (t_heap \<sigma>1 c) (\<lambda>m.
      gives (update_node a (\<lambda>n. update_child d ((child d n)\<lparr>depth_est := get_depth_estimate m\<rparr>) n) \<sigma>1)
        (\<lambda>\<sigma>2. P (Some c, \<sigma>2))))"
  proof (rule mutex_lock_rule [OF assms(1,4,5)], rule read_rule, assumption, rule assms(4))
    fix \<sigma>1 m assume s1: "abs4 \<sigma>1 = (V, insert c L, k)"
    show "gives (update_node a (\<lambda>n. update_child d ((child d n)\<lparr>depth_est := get_depth_estimate m\<rparr>) n) \<sigma>1)
        (\<lambda>\<sigma>2. P (Some c, \<sigma>2))"
    proof (rule update_keep_rule [OF s1 assms(2), where v' = v])
      fix n assume "vnode_of n = v"
      then show "vnode_of (update_child d ((child d n)\<lparr>depth_est := get_depth_estimate m\<rparr>) n) = v \<and>
          m_mutex (update_child d ((child d n)\<lparr>depth_est := get_depth_estimate m\<rparr>) n) = m_mutex n"
        by (auto simp: vnode_update_child vset_def vnode_of_def fun_upd_idem_iff)
    next
      fix \<sigma>2 assume "abs4 \<sigma>2 = (V(a \<mapsto> v), insert c L, k)"
      then show "P (Some c, \<sigma>2)" using assms(2,6) by (simp add: map_upd_triv)
    qed
  qed
  with n assms(3) show "gives (case ptr (child d n) of None \<Rightarrow> Some (None, \<sigma>)
      | Some c \<Rightarrow> mutex_lock c \<sigma> \<bind> (\<lambda>\<sigma>1. t_heap \<sigma>1 c \<bind> (\<lambda>m. update_node a
          (\<lambda>n. update_child d ((child d n)\<lparr>depth_est := get_depth_estimate m\<rparr>) n) \<sigma>1 \<bind>
          (\<lambda>\<sigma>2. Some (Some c, \<sigma>2))))) P"
    by simp
qed

lemmas node_rules = mutex_lock_rule mutex_unlock_rule set_child_rule copy_child_rule

end
