(* ===== verification/V4_Rebalance.thy ===== *)
theory V4_Rebalance
  imports V4_Layout
begin

text \<open>
  The tree below an address and the rotations, which keep its order: \<open>shape V p t\<close> says that the
  pointer \<open>p\<close> leads to the tree \<open>t\<close> of addresses.
\<close>

subsection \<open>Trees of addresses\<close>

fun shape :: "view4 \<Rightarrow> addr4 option \<Rightarrow> addr4 tree \<Rightarrow> bool" where
  "shape V p Leaf \<longleftrightarrow> p = None"
| "shape V p (Node l a r) \<longleftrightarrow> p = Some a \<and> (\<exists>n. V a = Some n \<and> \<not> v_empty n \<and>
     shape V (v_child n Left_Side) l \<and> shape V (v_child n Right_Side) r)"

text \<open>A node with its child on the side \<open>d\<close> named first, and its inorder read from that side.\<close>

definition mk :: "side \<Rightarrow> 'a tree \<Rightarrow> 'a \<Rightarrow> 'a tree \<Rightarrow> 'a tree" where
  "mk d s a s' = (case d of Left_Side \<Rightarrow> Node s a s' | Right_Side \<Rightarrow> Node s' a s)"

definition dir :: "side \<Rightarrow> 'a list \<Rightarrow> 'a list" where
  "dir d xs = (case d of Left_Side \<Rightarrow> xs | Right_Side \<Rightarrow> rev xs)"

lemma dir_dir [simp]: "dir d (dir d xs) = xs"
  by (cases d) (simp_all add: dir_def)

lemma dir_eq_iff: "dir d xs = ys \<longleftrightarrow> xs = dir d ys"
  by (cases d) (auto simp: dir_def)

lemma dir_inject [simp]: "dir d xs = dir d ys \<longleftrightarrow> xs = ys"
  by (cases d) (simp_all add: dir_def)

lemma set_dir [simp]: "set (dir d xs) = set xs"
  by (cases d) (simp_all add: dir_def)

lemma map_dir: "map f (dir d xs) = dir d (map f xs)"
  by (cases d) (simp_all add: dir_def rev_map)

lemma dir_nil [simp]: "dir d [] = []"
  by (cases d) (simp_all add: dir_def)

lemma inorder_mk: "dir d (inorder (mk d s a s')) = dir d (inorder s) @ a # dir d (inorder s')"
  by (cases d) (simp_all add: dir_def mk_def)

lemma set_mk [simp]: "set_tree (mk d s a s') = insert a (set_tree s \<union> set_tree s')"
  by (cases d) (auto simp: mk_def)

lemma size_mk [simp]: "size (mk d s a s') = Suc (size s + size s')"
  by (cases d) (simp_all add: mk_def)

lemma mk_not_Leaf [simp]: "mk d s a s' \<noteq> Leaf" "Leaf \<noteq> mk d s a s'"
  by (cases d; simp add: mk_def)+

lemma mk_inject [simp]: "mk d s a s' = mk d u b u' \<longleftrightarrow> s = u \<and> a = b \<and> s' = u'"
  by (cases d) (auto simp: mk_def)

lemma mk_other: "mk (other d) s a s' = mk d s' a s"
  by (cases d) (simp_all add: mk_def)

lemma distinct_mk [simp]:
  "distinct (inorder (mk d s a s')) \<longleftrightarrow> distinct (inorder s) \<and> distinct (inorder s') \<and>
     a \<notin> set_tree s \<and> a \<notin> set_tree s' \<and> set_tree s \<inter> set_tree s' = {}"
  by (cases d) (auto simp: mk_def)

lemma mk_exhaust:
  obtains "t = Leaf" | s a s' where "t = mk d s a s'"
  by (cases t; cases d) (auto simp: mk_def)

lemma shape_mk [simp]:
  "shape V p (mk d s a s') \<longleftrightarrow> p = Some a \<and> (\<exists>n. V a = Some n \<and> \<not> v_empty n \<and>
     shape V (v_child n d) s \<and> shape V (v_child n (other d)) s')"
  by (cases d) (auto simp: mk_def)

lemma shape_None [simp]: "shape V None t \<longleftrightarrow> t = Leaf"
  by (cases t) auto

lemma shape_Some:
  assumes "shape V (Some x) t"
  obtains s s' v where "t = mk d s x s'" "V x = Some v" "\<not> v_empty v" "shape V (v_child v d) s"
    "shape V (v_child v (other d)) s'"
  using assms by (cases t rule: mk_exhaust [where d = d]) auto

lemma shape_cong:
  "shape V p t \<Longrightarrow> (\<And>a. a \<in> set_tree t \<Longrightarrow> V' a = V a) \<Longrightarrow> shape V' p t"
  by (induction V p t rule: shape.induct) auto

lemma shape_upd [simp]: "a \<notin> set_tree t \<Longrightarrow> shape (V(a := w)) p t \<longleftrightarrow> shape V p t"
  by (auto elim!: shape_cong)

lemma shape_dom: "shape V p t \<Longrightarrow> set_tree t \<subseteq> dom V"
  by (induction V p t rule: shape.induct) (simp, fastforce)

lemma shape_unique: "shape V p t \<Longrightarrow> shape V p u \<Longrightarrow> t = u"
proof (induction V p t arbitrary: u rule: shape.induct)
  case (2 V p l a r)
  then show ?case by (cases u) auto
qed simp

subsection \<open>Contexts\<close>

type_synonym 'a ctx = "(side \<times> 'a \<times> 'a tree) list"

fun plug :: "'a ctx \<Rightarrow> 'a tree \<Rightarrow> 'a tree" where
  "plug [] s = s"
| "plug ((d, a, u) # c) s = mk d (plug c s) a u"

fun ctx_left :: "'a ctx \<Rightarrow> 'a list" where
  "ctx_left [] = []"
| "ctx_left ((d, a, u) # c) = (case d of Left_Side \<Rightarrow> ctx_left c | Right_Side \<Rightarrow> inorder u @ a # ctx_left c)"

fun ctx_right :: "'a ctx \<Rightarrow> 'a list" where
  "ctx_right [] = []"
| "ctx_right ((d, a, u) # c) = (case d of Left_Side \<Rightarrow> ctx_right c @ a # inorder u | Right_Side \<Rightarrow> ctx_right c)"

lemma inorder_plug: "inorder (plug c s) = ctx_left c @ inorder s @ ctx_right c"
  by (induction c) (auto simp: mk_def split: side.split)

lemma set_plug: "set_tree (plug c s) = set_tree s \<union> set (ctx_left c @ ctx_right c)"
  by (metis inorder_plug set_inorder set_append sup.assoc sup.commute)

text \<open>One more node on top of a context.\<close>

lemma ctx_Cons:
  "ctx_left ((d, a, u) # c) = ctx_left [(d, a, u)] @ ctx_left c"
  "ctx_right ((d, a, u) # c) = ctx_right c @ ctx_right [(d, a, u)]"
  by (cases d; simp)+

lemma inorder_ctx: "inorder (mk d s a u) = ctx_left [(d, a, u)] @ inorder s @ ctx_right [(d, a, u)]"
  using inorder_plug [of "[(d, a, u)]" s] by simp

subsection \<open>Data that rotations keep\<close>

definition vdata :: "view4 \<Rightarrow> view4" where
  "vdata V a = map_option (\<lambda>n. n\<lparr>v_child := \<lambda>_. None\<rparr>) (V a)"

definition rg4 :: "view4 \<Rightarrow> addr4 \<Rightarrow> keyrange" where
  "rg4 V a = v_range (the (V a))"

lemma vdata_vset: "V a = Some v \<Longrightarrow> vdata (V(a \<mapsto> vset d p v)) = vdata V"
  by (auto simp: vdata_def vset_def fun_eq_iff)

lemma vdata_dom: "vdata V' = vdata V \<Longrightarrow> dom V' = dom V"
  by (auto simp: vdata_def fun_eq_iff dom_def) (metis option.map_disc_iff not_None_eq)+

lemma vdata_Some:
  assumes "vdata V' = vdata V" "V a = Some v"
  obtains v' where "V' a = Some v'" "v_range v' = v_range v" "v_root v' = v_root v"
    "v_empty v' = v_empty v"
proof -
  have "vdata V' a = Some (v\<lparr>v_child := \<lambda>_. None\<rparr>)" using assms by (simp add: vdata_def)
  then obtain v' where "V' a = Some v'" "v'\<lparr>v_child := \<lambda>_. None\<rparr> = v\<lparr>v_child := \<lambda>_. None\<rparr>"
    by (auto simp: vdata_def)
  then show thesis using that by (metis vnode.select_convs(1,3,4) vnode.surjective vnode.update_convs(2))
qed

lemma vdata_rg: assumes "vdata V' = vdata V" shows "rg4 V' a = rg4 V a"
proof (cases "V a")
  case None
  with vdata_dom [OF assms] have "V' a = None" by (metis domIff)
  with None show ?thesis by (simp add: rg4_def)
next
  case (Some v)
  then show ?thesis by (rule vdata_Some [OF assms]) (simp add: rg4_def Some)
qed

text \<open>\<open>same_tree\<close>: from \<open>V\<close> to \<open>V'\<close> the tree \<open>t\<close> below \<open>p\<close> became \<open>t'\<close> below \<open>p'\<close> by rotations.\<close>

definition same_tree :: "view4 \<Rightarrow> addr4 tree \<Rightarrow> view4 \<Rightarrow> addr4 option \<Rightarrow> addr4 tree \<Rightarrow> bool" where
  "same_tree V t V' p' t' \<longleftrightarrow> shape V' p' t' \<and> inorder t' = inorder t \<and> vdata V' = vdata V \<and>
     (\<forall>a. a \<notin> set_tree t \<longrightarrow> V' a = V a)"

lemma same_tree_refl: "shape V p t \<Longrightarrow> same_tree V t V p t"
  by (simp add: same_tree_def)

lemma same_tree_set: "same_tree V t V' p' t' \<Longrightarrow> set_tree t' = set_tree t"
  by (metis same_tree_def set_inorder)

lemma same_tree_size: "same_tree V t V' p' t' \<Longrightarrow> size t' = size t"
  by (metis same_tree_def length_inorder)

subsection \<open>Rotations\<close>

lemma mk_not_empty:
  assumes "t \<noteq> Leaf"
  obtains s a s' where "t = mk d s a s'"
  using assms by (cases t rule: mk_exhaust [where d = d]) auto

lemma inorder_rotations:
  "inorder (mk d A c (mk d B x C)) = inorder (mk d (mk d A c B) x C)"
  "inorder (mk d (mk d A c B1) g (mk d B2 x C)) = inorder (mk d (mk d A c (mk d B1 g B2)) x C)"
  by (cases d; simp add: mk_def)+

lemma rotate_single_rule:
  assumes abs: "abs4 \<sigma> = (V, L, k)" and shp: "shape V p (mk d (mk d A c B) x s')"
    and dis: "distinct (inorder (mk d (mk d A c B) x s'))"
    and P: "\<And>\<sigma>' V'. abs4 \<sigma>' = (V', L, k) \<Longrightarrow> (\<And>a. a \<notin> {x, c} \<Longrightarrow> V' a = V a) \<Longrightarrow>
      same_tree V (mk d (mk d A c B) x s') V' (Some c) (mk d A c (mk d B x s')) \<Longrightarrow> P \<sigma>'"
  shows "gives (rotate_single d x c \<sigma>) P"
proof -
  from shp obtain v w where v: "V x = Some v" "\<not> v_empty v" "v_child v d = Some c"
      "shape V (v_child v (other d)) s'"
    and w: "V c = Some w" "\<not> v_empty w" "shape V (v_child w d) A" "shape V (v_child w (other d)) B"
    by auto
  from dis have neq: "x \<noteq> c" "c \<noteq> x" by auto
  show ?thesis
    unfolding rotate_single_def gives_simps
    apply (rule copy_child_rule [OF abs v(1) w(1)])
    apply (rule set_child_rule, assumption, simp add: neq w, simp)
    apply (rule P, assumption, simp)
    using dis v w neq apply (auto simp: same_tree_def inorder_rotations(1) vdata_def vset_def fun_eq_iff)
    done
qed

lemma rotate_double_rule:
  assumes abs: "abs4 \<sigma> = (V, L, k)" and shp: "shape V p (mk d (mk d A c (mk d B1 g B2)) x s')"
    and dis: "distinct (inorder (mk d (mk d A c (mk d B1 g B2)) x s'))"
    and P: "\<And>\<sigma>' V'. abs4 \<sigma>' = (V', L, k) \<Longrightarrow> (\<And>a. a \<notin> {x, c, g} \<Longrightarrow> V' a = V a) \<Longrightarrow>
      same_tree V (mk d (mk d A c (mk d B1 g B2)) x s') V' (Some g)
        (mk d (mk d A c B1) g (mk d B2 x s')) \<Longrightarrow> P \<sigma>'"
  shows "gives (rotate_double d x c g \<sigma>) P"
proof -
  from shp obtain v w u where v: "V x = Some v" "\<not> v_empty v" "v_child v d = Some c"
      "shape V (v_child v (other d)) s'"
    and w: "V c = Some w" "\<not> v_empty w" "shape V (v_child w d) A" "v_child w (other d) = Some g"
    and u: "V g = Some u" "\<not> v_empty u" "shape V (v_child u d) B1" "shape V (v_child u (other d)) B2"
    by auto
  from dis have neq: "x \<noteq> c" "c \<noteq> x" "g \<noteq> x" "g \<noteq> c" by auto
  note ne = neq neq(3,4) [symmetric]
  show ?thesis
    unfolding rotate_double_def gives_simps
    apply (rule copy_child_rule [OF abs w(1) u(1)])
    apply (rule set_child_rule, assumption, simp add: ne u, simp add: ne u)
    apply (rule copy_child_rule, assumption, simp add: ne v, simp add: ne u)
    apply (rule set_child_rule, assumption, simp add: ne u, simp add: ne v)
    apply (rule P, assumption, simp)
    using dis v w u ne apply (auto simp: same_tree_def inorder_rotations(2) vdata_def vset_def fun_eq_iff)
    done
qed

lemma rotate_rule:
  assumes abs: "abs4 \<sigma> = (V, L, k)" and shp: "shape V p (mk d s x s')" and "s \<noteq> Leaf"
    and dis: "distinct (inorder (mk d s x s'))" and unl: "set_tree s \<inter> L = {}"
    and P: "\<And>c g \<sigma>' V' t'. abs4 \<sigma>' = (V', insert g (insert c L), k) \<Longrightarrow> c \<in> set_tree s \<Longrightarrow> g \<in> set_tree s \<Longrightarrow>
      same_tree V (mk d s x s') V' (Some g) t' \<Longrightarrow> P (c, g, \<sigma>')"
  shows "gives (rotate d x \<sigma>) P"
proof -
  obtain A c B where s: "s = mk d A c B" using \<open>s \<noteq> Leaf\<close> by (rule mk_not_empty [where d = d])
  from shp obtain v w where v: "V x = Some v" "v_child v d = Some c"
    and w: "V c = Some w" "shape V (v_child w (other d)) B" by (auto simp: s)
  from dis unl have neq: "c \<notin> L" by (auto simp: s)
  show ?thesis
    unfolding rotate_def gives_simps
    apply (rule get_locked_Some_rule [OF abs v w(1) neq])
    apply (simp split del: if_split)
    apply (rule read_rule, assumption, rule w(1))
    subgoal premises sub for \<sigma>1 n
    proof (cases "imbalanced (other d) 0 n")
      case True
      with w(2) sub(3) have "B \<noteq> Leaf" by (auto simp: imbalanced_def)
      then obtain B1 g B2 where B: "B = mk d B1 g B2" by (rule mk_not_empty [where d = d])
      with w(2) obtain u where u: "V g = Some u" "v_child w (other d) = Some g" by auto
      from dis unl have "g \<notin> insert c L" by (auto simp: s B)
      show ?thesis
        apply (simp add: True)
        apply (rule get_locked_Some_rule [OF sub(1) w(1) u(2,1) \<open>g \<notin> insert c L\<close>], simp)
        apply (rule rotate_double_rule [OF _ shp [unfolded s B] dis [unfolded s B]], assumption)
        by (rule P) (auto simp: s B)
    next
      case False
      show ?thesis
        apply (simp add: False)
        apply (rule rotate_single_rule [OF sub(1) shp [unfolded s] dis [unfolded s]])
        by (rule P) (auto simp: s)
    qed
    done
qed

lemma maybe_rebalance_rule:
  assumes abs: "abs4 \<sigma> = (V, L, k)" and shp: "shape V (Some x) t"
    and dis: "distinct (inorder t)" and lck: "set_tree t \<inter> L = {x}"
    and P: "\<And>y \<sigma>' V' t'. abs4 \<sigma>' = (V', insert y (L - {x}), k) \<Longrightarrow> y \<in> set_tree t \<Longrightarrow>
      same_tree V t V' (Some y) t' \<Longrightarrow> P (y, \<sigma>')"
  shows "gives (maybe_rebalance x \<sigma>) P"
proof -
  define finish where
    "finish = (\<lambda>(cp, new_root, \<sigma>). unlock_old_roots cp x new_root \<sigma> \<bind> (\<lambda>\<sigma>. Some (new_root, \<sigma>)))"
  from shp obtain v where v: "V x = Some v" by (rule shape_Some [where d = Left_Side])
  have none: "gives (finish (None, x, \<sigma>)) P"
    using P [of \<sigma> V x t] abs shp lck by (auto simp: finish_def unlock_old_roots_def same_tree_refl insert_absorb)
  have side: "gives (rotate d x \<sigma>) (\<lambda>(c, g, \<sigma>). gives (finish (Some c, g, \<sigma>)) P)"
    if "ptr (child d n) \<noteq> None" "v = vnode_of n" for d n
  proof -
    from shp obtain s s' where t: "t = mk d s x s'" and s: "shape V (v_child v d) s"
      using v by (rule_tac shape_Some [where d = d]) auto
    have "s \<noteq> Leaf" using s that by (cases s) auto
    have unl: "x \<notin> set_tree s" "set_tree s \<inter> L = {}" "x \<in> L" using dis lck by (auto simp: t)
    show ?thesis
    proof (rule rotate_rule [OF abs shp [unfolded t] \<open>s \<noteq> Leaf\<close> dis [unfolded t] unl(2)], unfold prod.case)
      fix c g \<sigma>1 V1 t1
      assume r: "abs4 \<sigma>1 = (V1, insert g (insert c L), k)" "c \<in> set_tree s" "g \<in> set_tree s"
        "same_tree V (mk d s x s') V1 (Some g) t1"
      have "set_tree t1 = set_tree t" using same_tree_set r(4) t by simp
      with r have "c \<in> dom V1" "x \<in> dom V1" using shape_dom [of V1 "Some g" t1]
        by (auto simp: same_tree_def t)
      then obtain w1 v1 where w1: "V1 c = Some w1" "V1 x = Some v1" by auto
      have ne: "x \<noteq> g" "x \<noteq> c" "c \<notin> L" using r unl by auto
      have fin: "gives (mutex_unlock x \<sigma>2 \<bind> (\<lambda>\<sigma>. Some (g, \<sigma>))) P"
        if a: "abs4 \<sigma>2 = (V1, insert g L, k)" for \<sigma>2
        unfolding gives_simps
        by (rule mutex_unlock_rule [OF a w1(2)])
          (use unl ne r P [of _ V1 g t1] t in \<open>auto simp: insert_Diff_if\<close>)
      show "gives (finish (Some c, g, \<sigma>1)) P"
      proof (cases "c = g")
        case True
        then show ?thesis using fin [of \<sigma>1] r(1) ne by (simp add: finish_def unlock_old_roots_def)
      next
        case False
        have "gives (mutex_unlock c \<sigma>1) (\<lambda>\<sigma>2. gives (mutex_unlock x \<sigma>2 \<bind> (\<lambda>\<sigma>. Some (g, \<sigma>))) P)"
          by (rule mutex_unlock_rule [OF r(1) w1(1)])
            (use False ne fin in \<open>auto simp: insert_Diff_if\<close>)
        then show ?thesis using False ne by (simp add: finish_def unlock_old_roots_def)
      qed
    qed
  qed
  show ?thesis
    unfolding maybe_rebalance_def gives_simps finish_def [symmetric]
  proof (rule read_rule [OF abs v])
    fix n assume n: "v = vnode_of n"
    show "gives (if imbalanced Left_Side IMBALANCE_THRESHOLD n
       then rotate Left_Side x \<sigma> \<bind> (\<lambda>(c, g, \<sigma>). Some (Some c, g, \<sigma>))
       else if imbalanced Right_Side IMBALANCE_THRESHOLD n
       then rotate Right_Side x \<sigma> \<bind> (\<lambda>(c, g, \<sigma>). Some (Some c, g, \<sigma>))
       else Some (None, x, \<sigma>)) (\<lambda>r. gives (finish r) P)"
      using none side [OF _ n, of Left_Side] side [OF _ n, of Right_Side]
      by (auto simp: imbalanced_def split_def)
  qed
qed

text \<open>
  \<open>lock_and_rebalance\<close> returns the locked root of the child's subtree, after rotations in it, or
  null when the child is empty.
\<close>

lemma lock_and_rebalance_Leaf:
  assumes abs: "abs4 \<sigma> = (V, L, k)" and shp: "shape V p (mk d Leaf x s')" and P: "P (None, \<sigma>)"
  shows "gives (lock_and_rebalance d x \<sigma>) P"
proof -
  from shp obtain v where "V x = Some v" "v_child v d = None" by auto
  then show ?thesis
    unfolding lock_and_rebalance_def gives_simps
    by (rule get_locked_None_rule [OF abs]) (simp add: P)
qed

lemma lock_and_rebalance_rule:
  assumes abs: "abs4 \<sigma> = (V, L, k)" and shp: "shape V p (mk d s x s')" and "s \<noteq> Leaf"
    and dis: "distinct (inorder (mk d s x s'))" and unl: "set_tree s \<inter> L = {}"
    and P: "\<And>y \<sigma>' V' s2. abs4 \<sigma>' = (V', insert y L, k) \<Longrightarrow> y \<in> set_tree s \<Longrightarrow> shape V' (Some y) s2 \<Longrightarrow>
      inorder s2 = inorder s \<Longrightarrow> same_tree V (mk d s x s') V' p (mk d s2 x s') \<Longrightarrow> P (Some y, \<sigma>')"
  shows "gives (lock_and_rebalance d x \<sigma>) P"
proof -
  obtain A c B where s: "s = mk d A c B" using \<open>s \<noteq> Leaf\<close> by (rule mk_not_empty [where d = d])
  from shp obtain v w where v: "V x = Some v" "\<not> v_empty v" "v_child v d = Some c" "p = Some x"
      "shape V (v_child v (other d)) s'" and w: "V c = Some w" and sc: "shape V (Some c) s"
    by (auto simp: s)
  from dis unl have neq: "x \<notin> set_tree s" "x \<notin> set_tree s'" "set_tree s \<inter> set_tree s' = {}" "c \<notin> L"
    "set_tree s \<inter> insert c L = {c}" "distinct (inorder s)" by (auto simp: s)
  show ?thesis
    unfolding lock_and_rebalance_def gives_simps
    apply (rule get_locked_Some_rule [OF abs v(1,3) w neq(4)])
    apply simp
    apply (rule maybe_rebalance_rule, assumption, rule sc, rule neq(6), rule neq(5))
    subgoal premises sub for \<sigma>1 y \<sigma>2 V2 s2
    proof -
      from sub(4) have s2: "shape V2 (Some y) s2" "inorder s2 = inorder s" "vdata V2 = vdata V"
        "\<And>a. a \<notin> set_tree s \<Longrightarrow> V2 a = V a" by (auto simp: same_tree_def)
      note set2 = same_tree_set [OF sub(4)]
      from s2(4) neq(1) v(1) have x: "V2 x = Some v" by simp
      from shape_dom [OF s2(1)] set2 sub(3) obtain u where u: "V2 y = Some u" by blast
      have eq: "insert y (insert c L - {c}) = insert y L" using neq(4) by simp
      have s': "shape V2 (v_child v (other d)) s'"
        using v(5) by (rule shape_cong) (use neq(3) s2(4) in blast)
      have y: "y \<noteq> x" using neq(1) sub(3) by blast
      show ?thesis
      proof (simp, rule set_child_rule [OF sub(2) x])
        fix \<sigma>3 assume a: "abs4 \<sigma>3 = (V2(x \<mapsto> vset d (Some y) v), insert y (insert c L - {c}), k)"
        let ?V = "V2(x \<mapsto> vset d (Some y) v)"
        have "shape ?V (Some y) s2" "shape ?V (v_child v (other d)) s'"
          using s2(1) s' neq set2 by simp_all
        moreover have "inorder (mk d s2 x s') = inorder (mk d s x s')"
          using s2(2) by (cases d) (simp_all add: mk_def)
        moreover have "vdata ?V = vdata V" using vdata_vset [of V2 x v, OF x] s2(3) by simp
        moreover have "\<forall>a. a \<notin> set_tree (mk d s x s') \<longrightarrow> ?V a = V a" using s2(4) by auto
        ultimately have "same_tree V (mk d s x s') ?V p (mk d s2 x s')"
          using v by (simp add: same_tree_def)
        with P [OF _ sub(3) _ s2(2)] a eq \<open>shape ?V (Some y) s2\<close> show "P (Some y, \<sigma>3)" by simp
      qed (use u in blast)
    qed
    done
qed

end
