(* ===== verification/V4_Insert.thy ===== *)
theory V4_Insert
  imports V4_Rebalance
begin

text \<open>
  The order of the ranges in a tree, and the two descents that keep it: the insertion below a
  locked node and the search for the node to hold.
\<close>

subsection \<open>Ordered lists of ranges\<close>

definition ordered :: "('t::linorder) range list \<Rightarrow> bool" where
  "ordered rs \<longleftrightarrow> (\<forall>r\<in>set rs. closed_valid r) \<and> sorted_wrt closed_before rs"

text \<open>The range \<open>r\<close> lies between the ranges \<open>ps\<close> and the ranges \<open>qs\<close>.\<close>

definition between :: "('t::linorder) range list \<Rightarrow> 't range \<Rightarrow> 't range list \<Rightarrow> bool" where
  "between ps r qs \<longleftrightarrow> (\<forall>p\<in>set ps. closed_before p r) \<and> (\<forall>q\<in>set qs. closed_before r q)"

lemma ordered_simps [simp]:
  "ordered []"
  "ordered (r # rs) \<longleftrightarrow> closed_valid r \<and> (\<forall>q\<in>set rs. closed_before r q) \<and> ordered rs"
  "ordered (rs @ qs) \<longleftrightarrow> ordered rs \<and> ordered qs \<and> (\<forall>r\<in>set rs. \<forall>q\<in>set qs. closed_before r q)"
  by (auto simp: ordered_def sorted_wrt_append)

lemma ordered_insert:
  "ordered (ps @ qs) \<Longrightarrow> between ps r qs \<Longrightarrow> closed_valid r \<Longrightarrow> ordered (ps @ r # qs)"
  by (auto simp: between_def)

lemma ordered_distinct: "ordered rs \<Longrightarrow> distinct rs"
  by (induction rs) (auto simp: closed_defs)

lemma ordered_disjoint: "ordered rs \<Longrightarrow> pairwise_disjoint closed_overlaps (set rs)"
  unfolding pairwise_disjoint_def by (induction rs) (auto simp: closed_defs)

lemma between_ordered: "ordered (ps @ r # qs) \<Longrightarrow> between ps r qs"
  by (auto simp: between_def)

text \<open>What lies before or behind a range away from the order also lies so to its neighbours.\<close>

lemma before_trans_list:
  "closed_before r q \<Longrightarrow> closed_valid q \<Longrightarrow> \<forall>z\<in>set qs. closed_before q z \<Longrightarrow> \<forall>z\<in>set qs. closed_before r z"
  "closed_before q r \<Longrightarrow> closed_valid q \<Longrightarrow> \<forall>z\<in>set qs. closed_before z q \<Longrightarrow> \<forall>z\<in>set qs. closed_before z r"
  by (auto intro: closed.before_trans)

abbreviation rgs :: "view4 \<Rightarrow> addr4 list \<Rightarrow> 64 word range list" where
  "rgs V as \<equiv> map (\<lambda>a. kr (rg4 V a)) as"

text \<open>The side to which the code turns at the node \<open>x\<close>.\<close>

abbreviation turn :: "keyrange \<Rightarrow> keyrange \<Rightarrow> side" where
  "turn rng r \<equiv> if compare rng r = LESS_THAN then Left_Side else Right_Side"

lemma turn_keeps_between:
  assumes ord: "ordered (rgs V (inorder (mk d s x s')))" and rng: "closed_valid (kr rng)"
    and x: "\<not> closed_overlaps (kr rng) (kr (rg4 V x))" and d: "d = turn rng (rg4 V x)"
  shows "between (rgs V (ctx_left [(d, x, s')])) (kr rng) (rgs V (ctx_right [(d, x, s')]))"
proof (cases "compare rng (rg4 V x) = LESS_THAN")
  case True
  then have "closed_before (kr rng) (kr (rg4 V x))" by (simp add: compare_less)
  with ord d True show ?thesis
    using before_trans_list(1) [of "kr rng" "kr (rg4 V x)" "rgs V (inorder s')"]
    by (auto simp: mk_def between_def)
next
  case False
  from ord d False have "closed_valid (kr (rg4 V x))" by (simp add: mk_def)
  with x False rng have "closed_before (kr (rg4 V x)) (kr rng)"
    using compare_order [of rng "rg4 V x"] by auto
  with ord d False show ?thesis
    using before_trans_list(2) [of "kr (rg4 V x)" "kr rng" "rgs V (inorder s')"]
    by (auto simp: mk_def between_def)
qed

lemma between_extend:
  "between ps r qs \<Longrightarrow> between as r bs \<Longrightarrow> between (as @ ps) r (qs @ bs)"
  by (auto simp: between_def)

lemma rgs_cong: "vdata V' = vdata V \<Longrightarrow> rgs V' as = rgs V as"
  by (simp add: vdata_rg [of V' V])

subsection \<open>Insertion\<close>

definition fresh_vnode :: "keyrange \<Rightarrow> vnode" where
  "fresh_vnode rng = \<lparr>v_range = rng, v_child = (\<lambda>_. None), v_root = False, v_empty = False\<rparr>"

lemma abs4_locks: "abs4 \<sigma> = (V, L, k) \<Longrightarrow> L \<subseteq> dom V"
  by (auto simp: abs4_def view_def locks_def)

lemma alloc_abs:
  assumes "abs4 \<sigma> = (V, L, k)" "V k = None"
  obtains \<sigma>' where "alloc rng \<sigma> = (k, \<sigma>')" "abs4 \<sigma>' = (V(k \<mapsto> fresh_vnode rng), L, Suc k)"
proof
  show "alloc rng \<sigma> = (k, snd (alloc rng \<sigma>))" using assms(1) by (simp add: alloc_def abs4_def)
  have "t_heap \<sigma> k = None" using assms by (auto simp: abs4_def view_def)
  then show "abs4 (snd (alloc rng \<sigma>)) = (V(k \<mapsto> fresh_vnode rng), L, Suc k)"
    using assms(1)
    by (auto simp: alloc_def abs4_def view_def locks_def fun_eq_iff vnode_of_def fresh_vnode_def
        set_range_and_txnid_def init_node_def new_treenode_def null_child_def child_def split: side.split)
qed

text \<open>
  Replacing the tree at the side \<open>d\<close> of \<open>x\<close>: \<open>s2\<close> hangs there before, \<open>s3\<close> with the same root behind.
\<close>

lemma shape_replace:
  assumes "shape V p (mk d s2 x s')" "shape V (Some y) s2" "shape V' (Some y) s3" "V' x = V x"
    and "\<And>a. a \<in> set_tree s' \<Longrightarrow> V' a = V a"
  shows "shape V' p (mk d s3 x s')"
proof -
  from assms(2) have "s2 \<noteq> Leaf" by auto
  then have root: "shape V q s2 \<Longrightarrow> q = Some y" for q using assms(2) by (cases s2) auto
  from assms(1) obtain n where n: "p = Some x" "V x = Some n" "\<not> v_empty n" "v_child n d = Some y"
      "shape V (v_child n (other d)) s'"
    using root by auto
  then have "shape V' (v_child n (other d)) s'" using assms(5) by (auto elim: shape_cong)
  with n assms(3,4) show ?thesis by simp
qed

text \<open>The tree \<open>t\<close> below \<open>p\<close> with the new node \<open>k\<close> in its place by the order of the ranges.\<close>

definition inserted ::
  "keyrange \<Rightarrow> view4 \<Rightarrow> addr4 option \<Rightarrow> addr4 tree \<Rightarrow> addr4 \<Rightarrow> view4 \<Rightarrow> addr4 tree \<Rightarrow> bool" where
  "inserted rng V p t k V' t' \<longleftrightarrow> shape V' p t' \<and> (\<exists>as bs. inorder t = as @ bs \<and>
     inorder t' = as @ k # bs \<and> between (rgs V as) (kr rng) (rgs V bs)) \<and>
     vdata V' = (vdata V)(k \<mapsto> fresh_vnode rng) \<and> (\<forall>a. a \<notin> set_tree t \<and> a \<noteq> k \<longrightarrow> V' a = V a)"

lemma inserted_below:
  assumes same: "same_tree V (mk d s x s') V1 p (mk d s2 x s')" and s2: "shape V1 (Some y) s2"
    and ins: "inserted rng V1 (Some y) s2 k V2 s3"
    and dis: "distinct (inorder (mk d s x s'))" and k: "k \<notin> set_tree (mk d s x s')"
    and ab: "between (rgs V as) (kr rng) (rgs V bs)" "\<And>s. inorder (mk d s x s') = as @ inorder s @ bs"
  shows "inserted rng V p (mk d s x s') k V2 (mk d s3 x s')"
proof -
  from same have V1: "shape V1 p (mk d s2 x s')" "inorder (mk d s2 x s') = inorder (mk d s x s')"
    "vdata V1 = vdata V" "\<And>a. a \<notin> set_tree (mk d s x s') \<Longrightarrow> V1 a = V a" by (auto simp: same_tree_def)
  from V1(2) ab(2) have io: "inorder s2 = inorder s" by simp
  then have set2: "set_tree s2 = set_tree s" by (metis set_inorder)
  from ins obtain cs ds where i: "shape V2 (Some y) s3" "inorder s2 = cs @ ds" "inorder s3 = cs @ k # ds"
    "between (rgs V1 cs) (kr rng) (rgs V1 ds)" "vdata V2 = (vdata V1)(k \<mapsto> fresh_vnode rng)"
    "\<And>a. a \<notin> set_tree s2 \<Longrightarrow> a \<noteq> k \<Longrightarrow> V2 a = V1 a" by (auto simp: inserted_def)
  have "shape V2 p (mk d s3 x s')"
    by (rule shape_replace [OF V1(1) s2 i(1)]) (use i(6) set2 dis k in auto)
  moreover have "between (rgs V (as @ cs)) (kr rng) (rgs V (ds @ bs))"
    using between_extend [OF i(4) ab(1)] rgs_cong [OF V1(3)] by simp
  moreover have "inorder (mk d s x s') = (as @ cs) @ ds @ bs" "inorder (mk d s3 x s') = (as @ cs) @ k # ds @ bs"
    using ab(2) [of s] ab(2) [of s3] i(2,3) io by simp_all
  moreover have "V2 a = V a" if "a \<notin> set_tree (mk d s x s')" "a \<noteq> k" for a
    using i(6) [of a] V1(4) [of a] that set2 by simp
  ultimately show ?thesis
    unfolding inserted_def using i(5) V1(3)
    by (intro conjI exI [where x = "as @ cs"] exI [where x = "ds @ bs"]) simp_all
qed

lemma inserted_here:
  assumes "shape V p (mk d Leaf x s')" "V x = Some v" "x \<noteq> k" "k \<notin> set_tree s'" "x \<notin> set_tree s'"
    and ab: "between (rgs V as) (kr rng) (rgs V bs)" "\<And>s. inorder (mk d s x s') = as @ inorder s @ bs"
  shows "inserted rng V p (mk d Leaf x s') k
    ((V(k \<mapsto> fresh_vnode rng))(x \<mapsto> vset d (Some k) v)) (mk d (Node Leaf k Leaf) x s')"
proof -
  have "vdata ((V(k \<mapsto> fresh_vnode rng))(x \<mapsto> vset d (Some k) v)) = (vdata V)(k \<mapsto> fresh_vnode rng)"
    using assms(2,3) by (auto simp: vdata_def vset_def fresh_vnode_def fun_eq_iff)
  moreover have "shape ((V(k \<mapsto> fresh_vnode rng))(x \<mapsto> vset d (Some k) v)) p (mk d (Node Leaf k Leaf) x s')"
    using assms(1-5) by (auto simp: fresh_vnode_def)
  moreover have "inorder (mk d Leaf x s') = as @ bs" "inorder (mk d (Node Leaf k Leaf) x s') = as @ k # bs"
    using ab(2) [of Leaf] ab(2) [of "Node Leaf k Leaf"] by simp_all
  ultimately show ?thesis using ab(1) by (auto simp: inserted_def)
qed

lemma insert_node_rule:
  assumes "abs4 \<sigma> = (V, L, k)" "shape V (Some x) t" "distinct (inorder t)" "set_tree t \<inter> L = {x}"
    and "V k = None" "ordered (rgs V (inorder t))" "closed_valid (kr rng)"
    and "\<forall>q\<in>set (rgs V (inorder t)). \<not> closed_overlaps (kr rng) q"
    and "\<And>\<sigma>' V' t'. abs4 \<sigma>' = (V', L, Suc k) \<Longrightarrow> inserted rng V (Some x) t k V' t' \<Longrightarrow> P \<sigma>'"
  shows "gives (insert_node rng x \<sigma>) P"
  using assms
proof (induction "size t" arbitrary: \<sigma> V L x t P rule: less_induct)
  case less
  note abs = less.prems(1) and shp = less.prems(2) and k = less.prems(5) and P = less.prems(9)
  define d where "d = turn rng (rg4 V x)"
  from shp obtain s s' v where t: "t = mk d s x s'" and v: "V x = Some v" by (rule shape_Some)
  from shape_dom [OF shp] k have new: "k \<notin> set_tree t" "x \<noteq> k" using v by auto
  from less.prems(4) less.prems(3) have unl: "set_tree s \<inter> L = {}" "x \<in> L" "x \<notin> set_tree s" "x \<notin> set_tree s'"
    by (auto simp: t)
  have io: "set (inorder t) = insert x (set_tree s \<union> set_tree s')" by (simp add: t)
  have "\<not> closed_overlaps (kr rng) (kr (rg4 V x))" using less.prems(8) io by simp
  from turn_keeps_between [OF less.prems(6) [unfolded t] less.prems(7) this d_def]
  obtain as bs where ab: "between (rgs V as) (kr rng) (rgs V bs)"
      "\<And>s. inorder (mk d s x s') = as @ inorder s @ bs"
    by (rule that) (rule inorder_ctx)
  have body: "gives (lock_and_rebalance d x \<sigma>) (\<lambda>r. gives (case r of
      (None, \<sigma>) \<Rightarrow> let (b, \<sigma>) = alloc rng \<sigma> in set_child d x (Some b) \<sigma>
    | (Some b, \<sigma>) \<Rightarrow> insert_node rng b \<sigma> \<bind> mutex_unlock b) P)"
  proof (cases "s = Leaf")
    case True
    obtain \<sigma>1 where a: "alloc rng \<sigma> = (k, \<sigma>1)" "abs4 \<sigma>1 = (V(k \<mapsto> fresh_vnode rng), L, Suc k)"
      using alloc_abs [OF abs k] .
    have "inserted rng V (Some x) t k ((V(k \<mapsto> fresh_vnode rng))(x \<mapsto> vset d (Some k) v))
        (mk d (Node Leaf k Leaf) x s')"
      using inserted_here [of V "Some x" d x s' v k as rng bs] shp v new unl ab by (simp add: t True)
    then have "gives (set_child d x (Some k) \<sigma>1) P"
      using new v P by (intro set_child_rule [OF a(2), where v = v]) auto
    then show ?thesis
      using lock_and_rebalance_Leaf [OF abs, of "Some x" d x s'] shp a(1) by (simp add: t True)
  next
    case False
    show ?thesis
    proof (rule lock_and_rebalance_rule [OF abs shp [unfolded t] False less.prems(3) [unfolded t] unl(1)])
      fix y \<sigma>1 V1 s2
      assume r: "abs4 \<sigma>1 = (V1, insert y L, k)" "y \<in> set_tree s" "shape V1 (Some y) s2"
        "inorder s2 = inorder s" "same_tree V (mk d s x s') V1 (Some x) (mk d s2 x s')"
      from r(4) have set2: "set_tree s2 = set_tree s" and "size s2 < size t"
        by (metis set_inorder, metis t length_inorder size_mk less_Suc_eq_le le_add1)
      from r(5) have dat: "vdata V1 = vdata V" by (simp add: same_tree_def)
      have y: "y \<notin> L" "set_tree s2 \<inter> insert y L = {y}" "distinct (inorder s2)"
        using r(2,4) unl(1) set2 less.prems(3) by (auto simp: t)
      have k1: "V1 k = None" using k vdata_dom [OF dat] by (metis domIff)
      have "inorder t = as @ inorder s2 @ bs" using ab(2) [of s] r(4) by (simp add: t)
      with less.prems(6,8) have ord: "ordered (rgs V1 (inorder s2))"
          "\<forall>q\<in>set (rgs V1 (inorder s2)). \<not> closed_overlaps (kr rng) q"
        by (simp_all add: rgs_cong [OF dat])
      have "gives (insert_node rng y \<sigma>1) (\<lambda>\<sigma>. gives (mutex_unlock y \<sigma>) P)"
      proof (rule less.hyps [OF \<open>size s2 < size t\<close> r(1,3) y(3,2) k1 ord(1) less.prems(7) ord(2)])
        fix \<sigma>2 V2 s3
        assume q: "abs4 \<sigma>2 = (V2, insert y L, Suc k)" "inserted rng V1 (Some y) s2 k V2 s3"
        then have "shape V2 (Some y) s3" by (simp add: inserted_def)
        then obtain w where "V2 y = Some w" by (rule shape_Some [where d = d])
        moreover have "inserted rng V (Some x) t k V2 (mk d s3 x s')"
          using inserted_below [OF r(5,3) q(2) less.prems(3) [unfolded t] new(1) [unfolded t] ab] by (simp add: t)
        ultimately show "gives (mutex_unlock y \<sigma>2) P"
          using y(1) P by (intro mutex_unlock_rule [OF q(1)]) (auto simp: insert_Diff_if)
      qed
      then show "gives (case (Some y, \<sigma>1) of
          (None, \<sigma>) \<Rightarrow> let (b, \<sigma>) = alloc rng \<sigma> in set_child d x (Some b) \<sigma>
        | (Some b, \<sigma>) \<Rightarrow> insert_node rng b \<sigma> \<bind> mutex_unlock b) P"
        by simp
    qed
  qed
  show ?case
  proof (subst insert_node.simps, unfold gives_simps, rule read_rule [OF abs v])
    fix n assume "v = vnode_of n"
    then have turn: "turn rng (m_range n) = d" using v by (simp add: d_def rg4_def)
    show "gives (let d = turn rng (m_range n) in lock_and_rebalance d x \<sigma> \<bind> (\<lambda>(cp, \<sigma>). case cp of
        None \<Rightarrow> let (b, \<sigma>) = alloc rng \<sigma> in set_child d x (Some b) \<sigma>
      | Some b \<Rightarrow> insert_node rng b \<sigma> \<bind> (\<lambda>\<sigma>. mutex_unlock b \<sigma>))) P"
      unfolding Let_def turn gives_simps
      using body unfolding Let_def by (rule gives_mono) (auto split: option.splits)
  qed
qed

end
