(* ===== verification/V4_Search.thy ===== *)
theory V4_Search
  imports V4_Insert
begin

text \<open>
  The descent of \<open>find_node_with_overlapping_child\<close>, which holds one node at a time. Where it
  stops, the tree is the subtree of the node it holds in a context of nodes that all lie before
  or behind the searched range.
\<close>

subsection \<open>Trees in contexts\<close>

lemma shape_root:
  assumes "shape V p s" "shape V' (Some b) s" shows "p = Some b"
  using assms by (cases s) auto

text \<open>The context does not notice what happens to the subtree, as long as the root stays.\<close>

lemma shape_plug:
  assumes "shape V p (plug c s)" "shape V (Some b) s" "shape V' (Some b) s'"
    and "\<And>a. a \<in> set (ctx_left c @ ctx_right c) \<Longrightarrow> V' a = V a"
  shows "shape V' p (plug c s')"
  using assms
proof (induction c arbitrary: p)
  case Nil
  then show ?case using shape_root [of V p s V b] by simp
next
  case (Cons e c)
  obtain d a u where e: "e = (d, a, u)" by (cases e)
  have keep: "V' z = V z" if "z \<in> insert a (set_tree u) \<or> z \<in> set (ctx_left c @ ctx_right c)" for z
    using Cons.prems(4) [of z] that by (cases d) (auto simp: e)
  from Cons.prems(1) obtain n where n: "p = Some a" "V a = Some n" "\<not> v_empty n"
      "shape V (v_child n d) (plug c s)" "shape V (v_child n (other d)) u"
    by (auto simp: e)
  have "shape V' (v_child n d) (plug c s')"
    using Cons.IH [OF n(4) Cons.prems(2,3)] keep by blast
  moreover have "shape V' (v_child n (other d)) u"
    using n(5) by (rule shape_cong) (use keep in blast)
  ultimately show ?case using n keep by (simp add: e)
qed

lemma shape_plug_sub:
  assumes "shape V p (plug c s)" "s \<noteq> Leaf"
  obtains b where "shape V (Some b) s"
  using assms
proof (induction c arbitrary: p)
  case Nil
  then show ?case by (cases s) auto
next
  case (Cons e c)
  obtain d a u where "e = (d, a, u)" by (cases e)
  with Cons show ?case by auto
qed

subsection \<open>The search\<close>

text \<open>
  \<open>found\<close>: from \<open>V\<close> to \<open>V'\<close> the tree \<open>t\<close> below \<open>p\<close> is rotated, and the node \<open>b\<close> the search holds
  is the root of a subtree with all nodes that could overlap \<open>rng\<close>, without being one of them.
\<close>

definition found ::
  "keyrange \<Rightarrow> view4 \<Rightarrow> addr4 option \<Rightarrow> addr4 tree \<Rightarrow> addr4 \<Rightarrow> view4 \<Rightarrow> addr4 ctx \<Rightarrow> addr4 tree \<Rightarrow> bool" where
  "found rng V p t b V' c s \<longleftrightarrow> same_tree V t V' p (plug c s) \<and> shape V' (Some b) s \<and>
     between (rgs V (ctx_left c)) (kr rng) (rgs V (ctx_right c)) \<and>
     \<not> closed_overlaps (kr rng) (kr (rg4 V b))"

lemma same_tree_trans_sub:
  assumes same: "same_tree V (mk d s x s') V1 p (mk d s2 x s')" and s2: "shape V1 (Some y) s2"
    and sub: "same_tree V1 s2 V2 (Some y) s3" and dis: "distinct (inorder (mk d s2 x s'))"
    and io: "inorder s2 = inorder s"
  shows "same_tree V (mk d s x s') V2 p (mk d s3 x s')"
proof -
  from io have set2: "set_tree s2 = set_tree s" by (metis set_inorder)
  from sub have V2: "shape V2 (Some y) s3" "inorder s3 = inorder s2" "vdata V2 = vdata V1"
    "\<And>a. a \<notin> set_tree s2 \<Longrightarrow> V2 a = V1 a" by (auto simp: same_tree_def)
  from same have V1: "shape V1 p (mk d s2 x s')" "inorder (mk d s2 x s') = inorder (mk d s x s')"
    "vdata V1 = vdata V" "\<And>a. a \<notin> set_tree (mk d s x s') \<Longrightarrow> V1 a = V a" by (auto simp: same_tree_def)
  have "shape V2 p (mk d s3 x s')"
    by (rule shape_replace [OF V1(1) s2 V2(1)]) (use V2(4) dis in auto)
  moreover have "inorder (mk d s3 x s') = inorder (mk d s x s')"
    using V1(2) V2(2) by (cases d) (simp_all add: mk_def)
  ultimately show ?thesis using V1(3,4) V2(3,4) set2 by (auto simp: same_tree_def)
qed

lemma found_below:
  assumes same: "same_tree V (mk d s x s') V1 p (mk d s2 x s')" and s2: "shape V1 (Some y) s2"
    and sub: "found rng V1 (Some y) s2 b V2 c u" and dis: "distinct (inorder (mk d s x s'))"
    and io: "inorder s2 = inorder s"
    and ab: "between (rgs V (ctx_left [(d, x, s')])) (kr rng) (rgs V (ctx_right [(d, x, s')]))"
  shows "found rng V p (mk d s x s') b V2 ((d, x, s') # c) u"
proof -
  have dat: "vdata V1 = vdata V" using same by (simp add: same_tree_def)
  have "distinct (inorder (mk d s2 x s'))" using dis same by (simp add: same_tree_def)
  then have "same_tree V (mk d s x s') V2 p (mk d (plug c u) x s')"
    using same_tree_trans_sub [OF same s2 _ _ io] sub by (auto simp: found_def)
  moreover have "between (rgs V (ctx_left c)) (kr rng) (rgs V (ctx_right c))" "rg4 V1 b = rg4 V b"
    using sub vdata_rg [OF dat] by (simp_all add: found_def)
  then have "between (rgs V (ctx_left ((d, x, s') # c))) (kr rng) (rgs V (ctx_right ((d, x, s') # c)))"
    unfolding ctx_Cons [of _ _ _ c] using between_extend [OF _ ab] by simp
  ultimately show ?thesis using sub vdata_rg [OF dat] by (simp add: found_def)
qed

text \<open>The search returns, holding the node it found in place of the one it started from.\<close>

lemma find_rule:
  assumes "abs4 \<sigma> = (V, L, k)" "shape V (Some x) t" "distinct (inorder t)" "set_tree t \<inter> L = {x}"
    and "ordered (rgs V (inorder t))" "closed_valid (kr rng)" "\<not> closed_overlaps (kr rng) (kr (rg4 V x))"
    and "hint = None \<or> hint = Some (compare rng (rg4 V x))"
    and "\<And>b \<sigma>' V' c s. abs4 \<sigma>' = (V', insert b (L - {x}), k) \<Longrightarrow>
      found rng V (Some x) t b V' c s \<Longrightarrow> P (b, \<sigma>')"
  shows "gives (find_node_with_overlapping_child rng hint x \<sigma>) P"
  using assms
proof (induction "size t" arbitrary: \<sigma> V L x t hint P rule: less_induct)
  case less
  note abs = less.prems(1) and shp = less.prems(2) and P = less.prems(9)
  define d where "d = turn rng (rg4 V x)"
  from shp obtain s s' v where t: "t = mk d s x s'" and v: "V x = Some v" by (rule shape_Some)
  from less.prems(4) less.prems(3) have unl: "set_tree s \<inter> L = {}" "x \<in> L" "x \<notin> set_tree s" "x \<notin> set_tree s'"
    by (auto simp: t)
  note ab = turn_keeps_between [OF less.prems(5) [unfolded t] less.prems(6,7) d_def]
  have here: "found rng V (Some x) t x V' [] t'" if "same_tree V t V' (Some x) t'" for V' t'
    using that less.prems(7) by (simp add: found_def between_def same_tree_def)
  have body: "gives (lock_and_rebalance d x \<sigma>) (\<lambda>r. gives (case r of
      (None, \<sigma>) \<Rightarrow> Some (x, \<sigma>)
    | (Some b, \<sigma>) \<Rightarrow> t_heap \<sigma> b \<bind> (\<lambda>m. let c = compare rng (m_range m) in
        if c = EQUALS \<or> c = OVERLAPS then mutex_unlock b \<sigma> \<bind> (\<lambda>\<sigma>. Some (x, \<sigma>))
        else mutex_unlock x \<sigma> \<bind> (\<lambda>\<sigma>. find_node_with_overlapping_child rng (Some c) b \<sigma>))) P)"
  proof (cases "s = Leaf")
    case True
    have "P (x, \<sigma>)" using P [of \<sigma> V x "[]" t] here [of V t] abs shp unl by (simp add: same_tree_refl insert_absorb)
    then show ?thesis using lock_and_rebalance_Leaf [OF abs, of "Some x" d x s'] shp by (simp add: t True)
  next
    case False
    show ?thesis
    proof (rule lock_and_rebalance_rule [OF abs shp [unfolded t] False less.prems(3) [unfolded t] unl(1)])
      fix y \<sigma>1 V1 s2
      assume r: "abs4 \<sigma>1 = (V1, insert y L, k)" "y \<in> set_tree s" "shape V1 (Some y) s2"
        "inorder s2 = inorder s" "same_tree V (mk d s x s') V1 (Some x) (mk d s2 x s')"
      from r(3) obtain w where w: "V1 y = Some w" by (rule shape_Some [where d = d])
      from shape_dom [of V1 "Some x" "mk d s2 x s'"] r(5) obtain u where u: "V1 x = Some u"
        by (auto simp: same_tree_def)
      have dat: "vdata V1 = vdata V" using r(5) by (simp add: same_tree_def)
      have y: "y \<notin> L" "y \<noteq> x" using r(2) unl by auto
      have stop: "gives (mutex_unlock y \<sigma>1) (\<lambda>\<sigma>. P (x, \<sigma>))"
      proof (rule mutex_unlock_rule [OF r(1) w])
        fix \<sigma>2 assume "abs4 \<sigma>2 = (V1, insert y L - {y}, k)"
        then show "P (x, \<sigma>2)"
          using P [of \<sigma>2 V1 x "[]" "mk d s2 x s'"] here r(5) y unl(2) by (simp add: t insert_absorb)
      qed simp
      have go: "gives (mutex_unlock x \<sigma>1)
          (\<lambda>\<sigma>. gives (find_node_with_overlapping_child rng (Some (compare rng (rg4 V1 y))) y \<sigma>) P)"
        if "\<not> overlaps rng (rg4 V1 y)"
      proof (rule mutex_unlock_rule [OF r(1) u])
        fix \<sigma>2 assume a: "abs4 \<sigma>2 = (V1, insert y L - {x}, k)"
        from r(4) have set2: "set_tree s2 = set_tree s" and "size s2 < size t"
          by (metis set_inorder, metis t length_inorder size_mk less_Suc_eq_le le_add1)
        have held: "set_tree s2 \<inter> (insert y L - {x}) = {y}" "distinct (inorder s2)"
          "insert y L - {x} - {y} = L - {x}"
          using r(2,4) unl set2 y less.prems(3) by (auto simp: t)
        have "ordered (rgs V1 (inorder s2))"
          using less.prems(5) r(4) inorder_ctx [of d s x s'] by (simp add: t rgs_cong [OF dat])
        moreover have "\<not> closed_overlaps (kr rng) (kr (rg4 V1 y))" using that by (simp add: overlaps_closed)
        ultimately show "gives (find_node_with_overlapping_child rng (Some (compare rng (rg4 V1 y))) y \<sigma>2) P"
        proof (rule less.hyps [OF \<open>size s2 < size t\<close> a r(3) held(2,1) _ less.prems(6)])
          fix b \<sigma>3 V2 c u
          assume q: "abs4 \<sigma>3 = (V2, insert b (insert y L - {x} - {y}), k)" "found rng V1 (Some y) s2 b V2 c u"
          from found_below [OF r(5,3) q(2) less.prems(3) [unfolded t] r(4) ab]
          show "P (b, \<sigma>3)" using P q(1) held(3) by (simp add: t)
        qed simp
      qed (use unl in simp)
      show "gives (case (Some y, \<sigma>1) of
          (None, \<sigma>) \<Rightarrow> Some (x, \<sigma>)
        | (Some b, \<sigma>) \<Rightarrow> t_heap \<sigma> b \<bind> (\<lambda>m. let c = compare rng (m_range m) in
            if c = EQUALS \<or> c = OVERLAPS then mutex_unlock b \<sigma> \<bind> (\<lambda>\<sigma>. Some (x, \<sigma>))
            else mutex_unlock x \<sigma> \<bind> (\<lambda>\<sigma>. find_node_with_overlapping_child rng (Some c) b \<sigma>))) P"
        unfolding prod.case option.case gives_simps
      proof (rule read_rule [OF r(1) w])
        fix m assume "w = vnode_of m"
        then have "m_range m = rg4 V1 y" using w by (simp add: rg4_def)
        then show "gives (let c = compare rng (m_range m) in
            if c = EQUALS \<or> c = OVERLAPS then mutex_unlock y \<sigma>1 \<bind> (\<lambda>\<sigma>. Some (x, \<sigma>))
            else mutex_unlock x \<sigma>1 \<bind> (\<lambda>\<sigma>. find_node_with_overlapping_child rng (Some c) y \<sigma>)) P"
          using stop go by (simp add: Let_def overlaps_def)
      qed
    qed
  qed
  show ?case
  proof (subst find_node_with_overlapping_child.simps, unfold gives_simps, rule read_rule [OF abs v])
    fix n assume "v = vnode_of n"
    then have hc: "(case hint of Some h \<Rightarrow> h | None \<Rightarrow> compare rng (m_range n)) = compare rng (rg4 V x)"
      using v less.prems(8) by (auto simp: rg4_def)
    show "gives (let c = case hint of Some h \<Rightarrow> h | None \<Rightarrow> compare rng (m_range n)
        in lock_and_rebalance (if c = LESS_THAN then Left_Side else Right_Side) x \<sigma> \<bind> (\<lambda>(cp, \<sigma>). case cp of
          None \<Rightarrow> Some (x, \<sigma>)
        | Some b \<Rightarrow> t_heap \<sigma> b \<bind> (\<lambda>m. let c = compare rng (m_range m) in
            if c = EQUALS \<or> c = OVERLAPS then mutex_unlock b \<sigma> \<bind> (\<lambda>\<sigma>. Some (x, \<sigma>))
            else mutex_unlock x \<sigma> \<bind> (\<lambda>\<sigma>. find_node_with_overlapping_child rng (Some c) b \<sigma>)))) P"
      unfolding Let_def hc gives_simps d_def [symmetric]
      using body unfolding Let_def by (rule gives_mono) (auto split: option.splits)
  qed
qed

end
