(* ===== verification/V4_Remove.thy ===== *)
theory V4_Remove
  imports V4_Search
begin

text \<open>
  The removal of a range: the descent to the node that holds it, and the replacement of that
  node by its neighbour in the order.
\<close>

subsection \<open>What the steps do to the view\<close>

lemma swap_in_place_rule:
  assumes "abs4 \<sigma> = (V, L, k)" "V a = Some v" "V b = Some w" "a \<noteq> b"
    and "\<And>\<sigma>'. abs4 \<sigma>' = (V(a \<mapsto> v\<lparr>v_range := v_range w\<rparr>, b \<mapsto> w\<lparr>v_range := v_range v\<rparr>), L, k) \<Longrightarrow> P \<sigma>'"
  shows "gives (swap_in_place a b \<sigma>) P"
  unfolding swap_in_place_def gives_simps
proof (rule read_rule [OF assms(1,2)], rule read_rule [OF assms(1,3)])
  fix n1 n2 assume n: "v = vnode_of n1" "w = vnode_of n2"
  show "gives (update_node a (\<lambda>n. n\<lparr>m_range := m_range n2\<rparr>) \<sigma>)
      (\<lambda>\<sigma>. gives (update_node b (\<lambda>n. n\<lparr>m_range := m_range n1\<rparr>) \<sigma>) P)"
  proof (rule update_keep_rule [OF assms(1,2), where v' = "v\<lparr>v_range := v_range w\<rparr>"])
    fix \<sigma>1 assume a: "abs4 \<sigma>1 = (V(a \<mapsto> v\<lparr>v_range := v_range w\<rparr>), L, k)"
    show "gives (update_node b (\<lambda>n. n\<lparr>m_range := m_range n1\<rparr>) \<sigma>1) P"
      by (rule update_keep_rule [OF a, where v = w and v' = "w\<lparr>v_range := v_range v\<rparr>"])
        (use assms n in \<open>auto simp: vnode_of_def\<close>)
  qed (use n in \<open>auto simp: vnode_of_def\<close>)
qed

lemma free_node_rule:
  assumes "abs4 \<sigma> = (V, L, k)" "V a = Some v" "\<not> v_root v" "P \<sigma>"
  shows "gives (free_node a \<sigma>) P"
  unfolding free_node_def gives_simps by (rule read_rule [OF assms(1,2)]) (use assms in auto)

lemma free_root_rule:
  assumes "abs4 \<sigma> = (V, L, k)" "V a = Some v" "v_root v"
    and "\<And>\<sigma>'. abs4 \<sigma>' = (V(a \<mapsto> v\<lparr>v_empty := True\<rparr>), L, k) \<Longrightarrow> P \<sigma>'"
  shows "gives (free_node a \<sigma>) P"
  unfolding free_node_def gives_simps
proof (rule read_rule [OF assms(1,2)])
  fix n assume "v = vnode_of n"
  moreover have "gives (update_node a (\<lambda>n. n\<lparr>m_is_empty := True\<rparr>) \<sigma>) P"
    by (rule update_keep_rule [OF assms(1,2) _ assms(4)]) (auto simp: vnode_of_def)
  ultimately show "gives (if m_is_root n then update_node a (\<lambda>n. n\<lparr>m_is_empty := True\<rparr>) \<sigma> else Some \<sigma>) P"
    using assms(3) by simp
qed

subsection \<open>The extreme node\<close>

text \<open>The tree without its first node seen from the side \<open>d\<close>, in whose place comes its other child.\<close>

fun cut :: "side \<Rightarrow> 'a tree \<Rightarrow> 'a tree" where
  "cut d Leaf = Leaf"
| "cut d (Node l a r) = (case d of
       Left_Side \<Rightarrow> if l = Leaf then r else Node (cut d l) a r
     | Right_Side \<Rightarrow> if r = Leaf then l else Node l a (cut d r))"

lemma cut_mk [simp]: "cut d (mk d s a s') = (if s = Leaf then s' else mk d (cut d s) a s')"
  by (cases d) (simp_all add: mk_def)

text \<open>
  The node \<open>e\<close> is the first of the tree \<open>t\<close> below \<open>x\<close>, seen from the side \<open>d\<close>, and \<open>p\<close> is its
  parent, or \<open>par\<close> when it is \<open>x\<close> itself. Hanging its other child in its place cuts it out.
\<close>

definition extreme ::
  "view4 \<Rightarrow> side \<Rightarrow> addr4 \<Rightarrow> addr4 \<Rightarrow> addr4 tree \<Rightarrow> addr4 \<Rightarrow> addr4 \<Rightarrow> bool" where
  "extreme V d par x t e p \<longleftrightarrow>
     e = x \<and> p = par \<and> (\<exists>s'. t = mk d Leaf x s') \<or>
     e \<noteq> x \<and> e \<in> set_tree t \<and> p \<in> set_tree t \<and> (\<exists>v w. V e = Some v \<and> V p = Some w \<and>
       shape (V(p \<mapsto> vset d (v_child v (other d)) w)) (Some x) (cut d t) \<and>
       dir d (inorder t) = e # dir d (inorder (cut d t)))"

lemma extreme_below:
  assumes shp: "shape V (Some x) (mk d s x s')" and dis: "distinct (inorder (mk d s x s'))"
    and sub: "shape V (Some c) s" and e: "extreme V d x c s e p"
  shows "extreme V d par x (mk d s x s') e p"
proof -
  from shp sub obtain v where v: "V x = Some v" "\<not> v_empty v" "v_child v d = Some c"
      "shape V (v_child v (other d)) s'"
    using shape_root by auto
  from e consider s1 where "e = c" "p = x" "s = mk d Leaf c s1"
    | w u where "e \<in> set_tree s" "p \<in> set_tree s" "V e = Some w" "V p = Some u"
      "shape (V(p \<mapsto> vset d (v_child w (other d)) u)) (Some c) (cut d s)"
      "dir d (inorder s) = e # dir d (inorder (cut d s))"
    by (auto simp: extreme_def)
  then show ?thesis
  proof cases
    case 1
    with sub obtain w where "V c = Some w" "shape V (v_child w (other d)) s1" by auto
    then have "shape (V(x \<mapsto> vset d (v_child w (other d)) v)) (Some x) (mk d s1 x s')"
      using v dis 1 by simp
    moreover have "dir d (inorder (mk d s x s')) = c # dir d (inorder (mk d s1 x s'))"
      using 1 by (simp add: inorder_mk)
    ultimately show ?thesis using 1 v dis \<open>V c = Some w\<close>
      unfolding extreme_def by auto
  next
    case 2
    have ne: "p \<noteq> x" "e \<noteq> x" "p \<notin> set_tree s'" using 2 dis by auto
    then have "shape (V(p \<mapsto> vset d (v_child w (other d)) u)) (Some x) (mk d (cut d s) x s')"
      using v 2 by simp
    moreover have "dir d (inorder (mk d s x s')) = e # dir d (inorder (mk d (cut d s) x s'))" "s \<noteq> Leaf"
      using 2 by (auto simp: inorder_mk)
    ultimately show ?thesis using 2 ne
      unfolding extreme_def by auto
  qed
qed

lemma find_child_at_extreme_rule:
  assumes "abs4 \<sigma> = (V, L, k)" "shape V (Some x) t" "distinct (inorder t)" "set_tree t \<inter> L = {x}"
    and "\<And>\<sigma>' e p. abs4 \<sigma>' = (V, L, k) \<Longrightarrow> extreme V d par x t e p \<Longrightarrow> P (e, p, \<sigma>')"
  shows "gives (find_child_at_extreme d par x \<sigma>) P"
  using assms
proof (induction "size t" arbitrary: \<sigma> L x t par P rule: less_induct)
  case less
  note abs = less.prems(1) and P = less.prems(5)
  from less.prems(2) obtain s s' v where t: "t = mk d s x s'" and v: "V x = Some v" "shape V (v_child v d) s"
    by (rule shape_Some [where d = d])
  show ?case
  proof (subst find_child_at_extreme.simps, unfold gives_simps, cases s)
    case Leaf
    with v(2) have "v_child v d = None" by simp
    moreover have "extreme V d par x t x par" by (simp add: extreme_def t Leaf)
    ultimately show "gives (get_locked d x \<sigma>) (\<lambda>r. gives (case r of (None, \<sigma>) \<Rightarrow> Some (x, par, \<sigma>)
        | (Some c, \<sigma>) \<Rightarrow> find_child_at_extreme d x c \<sigma> \<bind> (\<lambda>(e, p, \<sigma>). mutex_unlock c \<sigma> \<bind> (\<lambda>\<sigma>. Some (e, p, \<sigma>)))) P)"
      using abs P by (intro get_locked_None_rule [OF abs v(1)]) auto
  next
    case (Node l c r)
    with v(2) obtain w where c: "v_child v d = Some c" "V c = Some w" "shape V (Some c) s" by auto
    from less.prems(3,4) have ne: "c \<notin> L" "set_tree s \<inter> insert c L = {c}" "size s < size t" "distinct (inorder s)"
      by (auto simp: t Node)
    show "gives (get_locked d x \<sigma>) (\<lambda>r. gives (case r of (None, \<sigma>) \<Rightarrow> Some (x, par, \<sigma>)
        | (Some c, \<sigma>) \<Rightarrow> find_child_at_extreme d x c \<sigma> \<bind> (\<lambda>(e, p, \<sigma>). mutex_unlock c \<sigma> \<bind> (\<lambda>\<sigma>. Some (e, p, \<sigma>)))) P)"
    proof (rule get_locked_Some_rule [OF abs v(1) c(1,2) ne(1)], unfold prod.case option.case gives_simps)
      fix \<sigma>1 assume a: "abs4 \<sigma>1 = (V, insert c L, k)"
      show "gives (find_child_at_extreme d x c \<sigma>1)
          (\<lambda>r. gives (case r of (e, p, \<sigma>) \<Rightarrow> mutex_unlock c \<sigma> \<bind> (\<lambda>\<sigma>. Some (e, p, \<sigma>))) P)"
      proof (rule less.hyps [OF ne(3) a c(3) ne(4,2)], unfold prod.case gives_simps)
        fix \<sigma>2 e p assume q: "abs4 \<sigma>2 = (V, insert c L, k)" "extreme V d x c s e p"
        have "extreme V d par x t e p"
          using extreme_below [OF _ _ c(3) q(2)] less.prems(2,3) by (simp add: t)
        then show "gives (mutex_unlock c \<sigma>2) (\<lambda>\<sigma>. P (e, p, \<sigma>))"
          using ne(1) P by (intro mutex_unlock_rule [OF q(1) c(2)]) auto
      qed
    qed
  qed
qed

subsection \<open>Taking a range out of a tree\<close>

definition vflags :: "view4 \<Rightarrow> addr4 \<Rightarrow> (bool \<times> bool) option" where
  "vflags V a = map_option (\<lambda>n. (v_root n, v_empty n)) (V a)"

text \<open>\<open>removed\<close>: the tree \<open>t\<close> below \<open>p\<close> became \<open>t'\<close>, which lost the range that \<open>z\<close> had.\<close>

definition removed :: "view4 \<Rightarrow> addr4 option \<Rightarrow> addr4 tree \<Rightarrow> addr4 \<Rightarrow> view4 \<Rightarrow> addr4 tree \<Rightarrow> bool" where
  "removed V p t z V' t' \<longleftrightarrow> shape V' p t' \<and> set_tree t' \<subseteq> set_tree t \<and> distinct (inorder t') \<and>
     vflags V' = vflags V \<and> (\<forall>a. a \<notin> set_tree t \<longrightarrow> V' a = V a) \<and>
     (\<exists>as bs. inorder t = as @ z # bs \<and> rgs V' (inorder t') = rgs V as @ rgs V bs)"

lemma vflags_dom: assumes "vflags V' = vflags V" shows "dom V' = dom V"
proof (rule set_eqI)
  fix a
  from assms have "vflags V' a = vflags V a" by simp
  then show "a \<in> dom V' \<longleftrightarrow> a \<in> dom V" by (cases "V a"; cases "V' a") (auto simp: vflags_def)
qed

lemma vdata_vflags: assumes "vdata V' = vdata V" shows "vflags V' = vflags V"
proof
  fix a
  show "vflags V' a = vflags V a"
  proof (cases "V a")
    case None
    then have "V' a = None" using vdata_dom [OF assms] by (metis domIff)
    with None show ?thesis by (simp add: vflags_def)
  next
    case (Some v)
    then show ?thesis by (rule vdata_Some [OF assms]) (simp add: vflags_def Some)
  qed
qed

lemma removed_below:
  assumes shp: "shape V p (mk d s x s')" and dis: "distinct (inorder (mk d s x s'))"
    and sub: "shape V (Some c) s" and r: "removed V (Some c) s z V' s3"
  shows "removed V p (mk d s x s') z V' (mk d s3 x s')"
proof -
  from r obtain as bs where R: "shape V' (Some c) s3" "set_tree s3 \<subseteq> set_tree s" "distinct (inorder s3)"
      "vflags V' = vflags V" "\<And>a. a \<notin> set_tree s \<Longrightarrow> V' a = V a" "inorder s = as @ z # bs"
      "rgs V' (inorder s3) = rgs V as @ rgs V bs" by (auto simp: removed_def)
  have "shape V' p (mk d s3 x s')"
    by (rule shape_replace [OF shp sub R(1)]) (use R(5) dis in auto)
  moreover have "rg4 V' a = rg4 V a" if "a = x \<or> a \<in> set_tree s'" for a
  proof -
    have "a \<notin> set_tree s" using that dis by auto
    then show ?thesis by (simp add: rg4_def R(5))
  qed
  then have "rgs V' (ctx_left [(d, x, s')]) = rgs V (ctx_left [(d, x, s')])"
    "rgs V' (ctx_right [(d, x, s')]) = rgs V (ctx_right [(d, x, s')])"
    by (cases d; simp)+
  then have io: "inorder (mk d s x s') = (ctx_left [(d, x, s')] @ as) @ z # (bs @ ctx_right [(d, x, s')])"
    "rgs V' (inorder (mk d s3 x s')) = rgs V (ctx_left [(d, x, s')] @ as) @ rgs V (bs @ ctx_right [(d, x, s')])"
    using R(6,7) inorder_ctx [of d s x s'] inorder_ctx [of d s3 x s'] by simp_all
  moreover have "set_tree (mk d s3 x s') \<subseteq> set_tree (mk d s x s')" "distinct (inorder (mk d s3 x s'))"
    "\<forall>a. a \<notin> set_tree (mk d s x s') \<longrightarrow> V' a = V a"
    using R(2,3,5) dis by auto
  ultimately show ?thesis
    using R(4) io unfolding removed_def by blast
qed

text \<open>
  \<open>x\<close> takes the range of its neighbour \<open>e\<close> on the side \<open>d\<close>, which is out of the tree by then.
\<close>

lemma removed_by_neighbour:
  assumes shp: "shape V1 (Some x) (mk d s3 x s')" and dis: "distinct (inorder (mk d s x s'))"
    and io: "dir (other d) (inorder s) = e # dir (other d) (inorder s3)" and dat: "vdata V1 = vdata V"
    and fr: "\<And>a. a \<notin> set_tree (mk d s x s') \<Longrightarrow> V1 a = V a" and v: "V1 x = Some v" "V1 e = Some w"
  shows "removed V (Some x) (mk d s x s') x
    (V1(e \<mapsto> w\<lparr>v_range := v_range v\<rparr>, x \<mapsto> v\<lparr>v_range := v_range w\<rparr>)) (mk d s3 x s')"
    (is "removed _ _ _ _ ?V _")
proof -
  from arg_cong [OF io, of set] have set3: "set_tree s = insert e (set_tree s3)" by simp
  from arg_cong [OF io, of distinct] dis have e: "e \<notin> set_tree s3" "distinct (inorder s3)"
    by (cases d; simp add: dir_def)+
  from set3 dis have ne: "e \<noteq> x" "x \<notin> set_tree s3" "e \<notin> set_tree s'" by auto
  have "shape ?V (Some x) (mk d s3 x s')" using shp v ne e dis by auto
  moreover have "rg4 ?V a = rg4 V a" if "a \<in> set_tree s3 \<or> a \<in> set_tree s'" for a
    using that ne e dis vdata_rg [OF dat, of a] by (auto simp: rg4_def)
  then have "rgs ?V (inorder s3) = rgs V (inorder s3)" "rgs ?V (inorder s') = rgs V (inorder s')" by simp_all
  moreover have "rg4 ?V x = rg4 V e" using vdata_rg [OF dat, of e] v by (simp add: rg4_def)
  moreover have "vflags ?V = vflags V1" using v ne by (auto simp: vflags_def fun_eq_iff)
  then have "vflags ?V = vflags V" using vdata_vflags [OF dat] by simp
  moreover have "\<exists>as bs. inorder (mk d s x s') = as @ x # bs \<and>
      rgs ?V (inorder (mk d s3 x s')) = rgs V as @ rgs V bs"
  proof (cases d)
    case Left_Side
    with io have "inorder s = inorder s3 @ [e]" by (simp add: dir_def rev_eq_Cons_iff)
    with calculation show ?thesis
      by (intro exI [where x = "inorder s"] exI [where x = "inorder s'"]) (simp add: Left_Side mk_def)
  next
    case Right_Side
    with io have "inorder s = e # inorder s3" by (simp add: dir_def)
    with calculation show ?thesis
      by (intro exI [where x = "inorder s'"] exI [where x = "inorder s"]) (simp add: Right_Side mk_def)
  qed
  ultimately show ?thesis
    using fr set3 e ne dis unfolding removed_def by auto
qed

text \<open>Cutting the extreme node out of the child's subtree.\<close>

lemma cut_extreme:
  assumes shp: "shape V (Some x) (mk d s x s')" and dis: "distinct (inorder (mk d s x s'))"
    and sub: "shape V (Some c) s" and e: "extreme V (other d) x c s e p"
  obtains v w where "V e = Some w" "V p = Some v" "e \<in> set_tree s" "p = x \<or> p \<in> set_tree s"
    "shape (V(p \<mapsto> vset (if p = x then d else other d) (v_child w d) v)) (Some x) (mk d (cut (other d) s) x s')"
    "dir (other d) (inorder s) = e # dir (other d) (inorder (cut (other d) s))"
proof -
  from shp sub obtain vx where vx: "V x = Some vx" "\<not> v_empty vx" "v_child vx d = Some c"
      "shape V (v_child vx (other d)) s'"
    using shape_root by auto
  from e consider s1 where "e = c" "p = x" "s = mk (other d) Leaf c s1"
    | w u where "e \<in> set_tree s" "p \<in> set_tree s" "V e = Some w" "V p = Some u"
      "shape (V(p \<mapsto> vset (other d) (v_child w d) u)) (Some c) (cut (other d) s)"
      "dir (other d) (inorder s) = e # dir (other d) (inorder (cut (other d) s))"
    by (auto simp: extreme_def)
  then show thesis
  proof cases
    case 1
    with sub obtain w where "V c = Some w" "shape V (v_child w d) s1" by auto
    with vx dis 1 show thesis by (intro that [of w vx]) (auto simp: inorder_mk)
  next
    case 2
    then have "p \<noteq> x" "p \<notin> set_tree s'" using dis by auto
    with 2 vx show thesis by (intro that [of w u]) auto
  qed
qed

lemma splice_replacement_rule:
  assumes abs: "abs4 \<sigma> = (V, L, k)" and "c \<in> L" and shp: "shape V (Some x) (mk d s x s')"
    and dis: "distinct (inorder (mk d s x s'))" and sub: "shape V (Some c) s"
    and ext: "extreme V (other d) x c s e p" and nr: "\<And>v. V e = Some v \<Longrightarrow> \<not> v_root v"
    and P: "\<And>\<sigma>' V'. abs4 \<sigma>' = (V', L - {c}, k) \<Longrightarrow> (\<And>a. a \<notin> {x, e, p} \<Longrightarrow> V' a = V a) \<Longrightarrow>
      (\<And>a. a \<notin> {x, e} \<Longrightarrow> rg4 V' a = rg4 V a) \<Longrightarrow> rg4 V' x = rg4 V e \<Longrightarrow>
      removed V (Some x) (mk d s x s') x V' (mk d (cut (other d) s) x s') \<Longrightarrow> P \<sigma>'"
  shows "gives (splice_replacement d x c e p \<sigma>) P"
proof -
  let ?s3 = "cut (other d) s"
  obtain vp ve where q: "V e = Some ve" "V p = Some vp" "e \<in> set_tree s" "p = x \<or> p \<in> set_tree s"
    "shape (V(p \<mapsto> vset (if p = x then d else other d) (v_child ve d) vp)) (Some x) (mk d ?s3 x s')"
    "dir (other d) (inorder s) = e # dir (other d) (inorder ?s3)"
    using cut_extreme [OF shp dis sub ext] .
  define V1 where "V1 = V(p \<mapsto> vset (if p = x then d else other d) (v_child ve d) vp)"
  have dat: "vdata V1 = vdata V" using vdata_vset [of V p vp, OF q(2)] by (simp add: V1_def)
  have fr: "V1 a = V a" if "a \<notin> set_tree (mk d s x s')" for a using that q(4) by (auto simp: V1_def)
  from shp obtain v where v: "V x = Some v" by auto
  obtain v1 where v1: "V1 x = Some v1" using v by (auto intro: vdata_Some [OF dat])
  obtain w1 where w1: "V1 e = Some w1" "\<not> v_root w1" using q(1) nr by (auto intro: vdata_Some [OF dat])
  from shape_dom [OF sub] sub obtain c0 where "V c = Some c0" by (auto elim: shape_Some [where d = d])
  then obtain c1 where c1: "V1 c = Some c1" by (auto intro: vdata_Some [OF dat])
  have "e \<noteq> x" using q(3) dis by auto
  let ?V = "V1(e \<mapsto> w1\<lparr>v_range := v_range v1\<rparr>, x \<mapsto> v1\<lparr>v_range := v_range w1\<rparr>)"
  have rem: "removed V (Some x) (mk d s x s') x ?V (mk d ?s3 x s')"
    by (rule removed_by_neighbour [OF q(5) [folded V1_def] dis q(6) dat fr v1 w1(1)])
  have keep: "?V a = V a" if "a \<notin> {x, e, p}" for a using that by (simp add: V1_def)
  have rg: "rg4 ?V a = rg4 V a" if "a \<notin> {x, e}" for a
    using that vdata_rg [OF dat, of a] by (simp add: rg4_def)
  have rgx: "rg4 ?V x = rg4 V e" using \<open>e \<noteq> x\<close> vdata_rg [OF dat, of e] w1(1) by (simp add: rg4_def)
  have rest: "gives (mutex_unlock c \<sigma>2) (\<lambda>\<sigma>. gives (swap_in_place e x \<sigma>) (\<lambda>\<sigma>. gives (free_node e \<sigma>) P))"
    if b: "abs4 \<sigma>2 = (V1, L, k)" for \<sigma>2
  proof (rule mutex_unlock_rule [OF b c1 \<open>c \<in> L\<close>], rule swap_in_place_rule, assumption,
      rule w1(1), rule v1, rule \<open>e \<noteq> x\<close>)
    fix \<sigma>3 assume d: "abs4 \<sigma>3 = (?V, L - {c}, k)"
    show "gives (free_node e \<sigma>3) P"
      by (rule free_node_rule [OF d, where v = "w1\<lparr>v_range := v_range v1\<rparr>"])
        (use \<open>e \<noteq> x\<close> w1(2) P [OF d keep rg rgx rem] in simp_all)
  qed
  show ?thesis
    unfolding splice_replacement_def gives_simps
  proof (cases "p = x")
    case True
    then show "gives (if p = x then copy_child d x d e \<sigma> else copy_child (other d) p d e \<sigma>)
        (\<lambda>\<sigma>. gives (mutex_unlock c \<sigma>) (\<lambda>\<sigma>. gives (swap_in_place e x \<sigma>) (\<lambda>\<sigma>. gives (free_node e \<sigma>) P)))"
      using rest v q by (auto simp: V1_def intro!: copy_child_rule [OF abs])
  next
    case False
    then show "gives (if p = x then copy_child d x d e \<sigma> else copy_child (other d) p d e \<sigma>)
        (\<lambda>\<sigma>. gives (mutex_unlock c \<sigma>) (\<lambda>\<sigma>. gives (swap_in_place e x \<sigma>) (\<lambda>\<sigma>. gives (free_node e \<sigma>) P)))"
      using rest q by (auto simp: V1_def intro!: copy_child_rule [OF abs])
  qed
qed

lemma take_replacement_rule:
  assumes abs: "abs4 \<sigma> = (V, L, k)" and shp: "shape V (Some x) (mk d s x s')" and "s \<noteq> Leaf"
    and dis: "distinct (inorder (mk d s x s'))" and unl: "set_tree s \<inter> L = {}"
    and nr: "\<And>a v. a \<in> set_tree s \<Longrightarrow> V a = Some v \<Longrightarrow> \<not> v_root v"
    and P: "\<And>\<sigma>' V' t'. abs4 \<sigma>' = (V', L, k) \<Longrightarrow> removed V (Some x) (mk d s x s') x V' t' \<Longrightarrow> P \<sigma>'"
  shows "gives (take_replacement d x \<sigma>) P"
proof -
  obtain A c B where s: "s = mk d A c B" using \<open>s \<noteq> Leaf\<close> by (rule mk_not_empty [where d = d])
  from shp obtain v w where v: "V x = Some v" "v_child v d = Some c" and w: "V c = Some w"
    and sub: "shape V (Some c) s" by (auto simp: s)
  from dis unl have neq: "c \<notin> L" "set_tree s \<inter> insert c L = {c}" "distinct (inorder s)" by (auto simp: s)
  show ?thesis
    unfolding take_replacement_def gives_simps
  proof (rule get_locked_Some_rule [OF abs v w neq(1)], unfold prod.case gives_simps bind.simps,
      rule find_child_at_extreme_rule, assumption, rule sub, rule neq(3), rule neq(2), unfold prod.case gives_simps)
    fix \<sigma>1 e p assume a: "abs4 \<sigma>1 = (V, insert c L, k)" and ext: "extreme V (other d) x c s e p"
    have "e \<in> set_tree s" using cut_extreme [OF shp dis sub ext] by metis
    then show "gives (splice_replacement d x c e p \<sigma>1) P"
      by (intro splice_replacement_rule [OF a insertI1 shp dis sub ext])
        (use nr P neq(1) in auto)
  qed
qed

lemma remove_leaf_rule:
  assumes abs: "abs4 \<sigma> = (V, L, k)" and v: "V x = Some v" and "x \<in> L"
    and P: "\<And>\<sigma>'. abs4 \<sigma>' = (if v_root v then (V(x \<mapsto> v\<lparr>v_empty := True\<rparr>), L, k) else (V, L - {x}, k)) \<Longrightarrow> P \<sigma>'"
  shows "gives (remove_leaf x \<sigma>) P"
  unfolding remove_leaf_def gives_simps
proof (rule read_rule [OF abs v])
  fix n assume n: "v = vnode_of n"
  show "gives (if \<not> m_is_root n then mutex_unlock x \<sigma> else Some \<sigma>) (\<lambda>\<sigma>. gives (free_node x \<sigma>) P)"
  proof (cases "v_root v")
    case True
    with n P show ?thesis by (auto intro!: free_root_rule [OF abs v])
  next
    case False
    then have "gives (mutex_unlock x \<sigma>) (\<lambda>\<sigma>. gives (free_node x \<sigma>) P)"
      using \<open>x \<in> L\<close> P by (auto intro!: mutex_unlock_rule [OF abs v] free_node_rule [where v = v] simp: v)
    with False n show ?thesis by simp
  qed
qed

lemma remove_root_leaf_rule:
  assumes abs: "abs4 \<sigma> = (V, L, k)" and shp: "shape V (Some x) (Node Leaf x Leaf)" and v: "V x = Some v" and "x \<in> L"
    and P: "\<And>\<sigma>'. abs4 \<sigma>' = (if v_root v then (V(x \<mapsto> v\<lparr>v_empty := True\<rparr>), L, k) else (V, L - {x}, k)) \<Longrightarrow> P (None, \<sigma>')"
  shows "gives (remove_root_of_subtree x \<sigma>) P"
  unfolding remove_root_of_subtree_def gives_simps
proof (rule read_rule [OF abs v])
  fix n assume n: "v = vnode_of n"
  with shp v have "ptr (child Left_Side n) = None" "ptr (child Right_Side n) = None" by auto
  moreover have "gives (remove_leaf x \<sigma>) (\<lambda>\<sigma>. P (None, \<sigma>))"
    by (rule remove_leaf_rule [OF abs v \<open>x \<in> L\<close>]) (rule P)
  ultimately show "gives (if ptr (m_left_child n) = None \<and> ptr (m_right_child n) = None
     then remove_leaf x \<sigma> \<bind> (\<lambda>\<sigma>. Some (None, \<sigma>))
     else take_replacement (if ptr (m_left_child n) \<noteq> None then Left_Side else Right_Side) x \<sigma> \<bind>
       (\<lambda>\<sigma>. Some (Some x, \<sigma>))) P"
    by (simp add: child_def)
qed

lemma remove_inner_rule:
  assumes abs: "abs4 \<sigma> = (V, L, k)" and shp: "shape V (Some x) t" and "t \<noteq> Node Leaf x Leaf"
    and dis: "distinct (inorder t)" and lck: "set_tree t \<inter> L = {x}"
    and nr: "\<And>a v. a \<in> set_tree t \<Longrightarrow> a \<noteq> x \<Longrightarrow> V a = Some v \<Longrightarrow> \<not> v_root v"
    and P: "\<And>\<sigma>' V' t'. abs4 \<sigma>' = (V', L, k) \<Longrightarrow> removed V (Some x) t x V' t' \<Longrightarrow> P (Some x, \<sigma>')"
  shows "gives (remove_root_of_subtree x \<sigma>) P"
proof -
  have side: "gives (take_replacement d x \<sigma>) (\<lambda>\<sigma>. P (Some x, \<sigma>))"
    if "t = mk d s x s'" "s \<noteq> Leaf" for d s s'
  proof (rule take_replacement_rule [OF abs shp [unfolded that(1)] that(2) dis [unfolded that(1)]])
    show "set_tree s \<inter> L = {}" using lck dis by (auto simp: that(1))
    show "\<not> v_root v" if "a \<in> set_tree s" "V a = Some v" for a v
      using nr [of a v] that dis \<open>t = mk d s x s'\<close> by auto
  qed (use P that in simp)
  from shp obtain l r v where t: "t = mk Left_Side l x r" and v: "V x = Some v"
    "shape V (v_child v Left_Side) l" "shape V (v_child v Right_Side) r"
    by (auto elim: shape_Some [where d = Left_Side])
  have null: "v_child v Left_Side = None \<longleftrightarrow> l = Leaf" "v_child v Right_Side = None \<longleftrightarrow> r = Leaf"
    using v(2,3) by (cases l; cases r; auto)+
  have some: "l \<noteq> Leaf \<or> r \<noteq> Leaf" using \<open>t \<noteq> Node Leaf x Leaf\<close> by (auto simp: t mk_def)
  have "gives (take_replacement (if l \<noteq> Leaf then Left_Side else Right_Side) x \<sigma>) (\<lambda>\<sigma>. P (Some x, \<sigma>))"
    using side [OF t] side [of Right_Side r l] some by (auto simp: t mk_def)
  then show ?thesis
    unfolding remove_root_of_subtree_def gives_simps
    by (intro read_rule [OF abs v(1)]) (use null some in \<open>auto simp: child_def vnode_of_def\<close>)
qed

text \<open>The node whose range has the left end of the given one is on the side to which the code turns.\<close>

lemma turn_to_target:
  assumes ord: "ordered (rgs V (inorder (mk d s x s')))" and dis: "distinct (inorder (mk d s x s'))"
    and z: "inorder (mk d s x s') = as @ z # bs" "x \<noteq> z" "between (rgs V as) (kr rng) (rgs V bs)"
    and rng: "closed_valid (kr rng)" and d: "d = turn rng (rg4 V x)"
  obtains cs ds where "inorder s = cs @ z # ds" "between (rgs V cs) (kr rng) (rgs V ds)"
    "\<not> overlaps rng (rg4 V x)"
proof -
  from d have rev: "d = Left_Side \<longleftrightarrow> closed_before (kr rng) (kr (rg4 V x))" by (simp add: compare_less)
  have vx: "closed_valid (kr (rg4 V x))" using ord by (cases d) (simp_all add: mk_def)
  have fresh: "x \<notin> set (inorder s)" "x \<notin> set (inorder s')" using dis by simp_all
  have "x \<in> set (as @ z # bs)" unfolding z(1) [symmetric] by simp
  then consider us vs where "as = us @ x # vs" | us vs where "bs = us @ x # vs"
    using z(2) by (auto dest: split_list)
  then show thesis
  proof cases
    case 1
    then have "closed_before (kr (rg4 V x)) (kr rng)" using z(3) by (simp add: between_def)
    then have R: "d = Right_Side" "\<not> overlaps rng (rg4 V x)"
      using rev rng vx by (cases d; auto simp: overlaps_closed closed_defs)+
    with z(1) 1 dis have "inorder s = vs @ z # bs"
      using append_Cons_eq_iff [of x "inorder s'" "inorder s" us "vs @ z # bs"] fresh by (simp add: mk_def)
    with R z(3) 1 show thesis by (intro that) (auto simp: between_def)
  next
    case 2
    then have "closed_before (kr rng) (kr (rg4 V x))" using z(3) by (simp add: between_def)
    then have R: "d = Left_Side" "\<not> overlaps rng (rg4 V x)"
      using rev rng vx by (auto simp: overlaps_closed closed_defs)
    with z(1) 2 dis have "inorder s = as @ z # us"
      using append_Cons_eq_iff [of x "inorder s" "inorder s'" "as @ z # us" vs] fresh by (simp add: mk_def)
    with R z(3) 2 show thesis by (intro that) (auto simp: between_def)
  qed
qed

text \<open>The node of the range was a leaf, and the pointer to it is set to null.\<close>

lemma removed_leaf:
  assumes shp: "shape V (Some x) (mk d (Node Leaf c Leaf) x s')"
    and dis: "distinct (inorder (mk d (Node Leaf c Leaf) x s'))" and v: "V x = Some v"
  shows "removed V (Some x) (mk d (Node Leaf c Leaf) x s') c (V(x \<mapsto> vset d None v)) (mk d Leaf x s')"
proof -
  let ?V = "V(x \<mapsto> vset d None v)"
  have "shape ?V (Some x) (mk d Leaf x s')" using shp dis v by auto
  moreover have "vflags ?V = vflags V" using vdata_vflags [OF vdata_vset [of V x v d None, OF v]] .
  moreover have "rgs ?V as = rgs V as" for as using rgs_cong [OF vdata_vset [of V x v d None, OF v]] .
  then have "\<exists>as bs. inorder (mk d (Node Leaf c Leaf) x s') = as @ c # bs \<and>
      rgs ?V (inorder (mk d Leaf x s')) = rgs V as @ rgs V bs"
    using inorder_ctx [of d "Node Leaf c Leaf" x s'] inorder_ctx [of d Leaf x s']
    by (metis append_Nil append_Cons inorder.simps map_append)
  ultimately show ?thesis using dis unfolding removed_def by auto
qed

lemma remove_node_rule:
  assumes "abs4 \<sigma> = (V, L, k)" "shape V (Some x) t" "distinct (inorder t)" "set_tree t \<inter> L = {x}"
    and "\<And>a v. a \<in> set_tree t \<Longrightarrow> a \<noteq> x \<Longrightarrow> V a = Some v \<Longrightarrow> \<not> v_root v"
    and "ordered (rgs V (inorder t))" "closed_valid (kr rng)"
    and "inorder t = as @ z # bs" "between (rgs V as) (kr rng) (rgs V bs)"
      "m_left_key (rg4 V z) = m_left_key rng"
    and "\<And>\<sigma>' V' t'. abs4 \<sigma>' = (V', L, k) \<Longrightarrow> removed V (Some x) t z V' t' \<Longrightarrow> P (Some x, \<sigma>')"
    and "\<And>\<sigma>' v. t = Node Leaf x Leaf \<Longrightarrow> V x = Some v \<Longrightarrow> abs4 \<sigma>' =
      (if v_root v then (V(x \<mapsto> v\<lparr>v_empty := True\<rparr>), L, k) else (V, L - {x}, k)) \<Longrightarrow> P (None, \<sigma>')"
  shows "gives (remove_node rng x \<sigma>) P"
  using assms
proof (induction "size t" arbitrary: \<sigma> L x t as bs P rule: less_induct)
  case less
  note abs = less.prems(1) and shp = less.prems(2) and Some = less.prems(11) and None = less.prems(12)
  define d where "d = turn rng (rg4 V x)"
  from shp obtain s s' v where t: "t = mk d s x s'" and v: "V x = Some v" "shape V (v_child v d) s"
    by (rule shape_Some [where d = d])
  have vx: "closed_valid (kr (rg4 V x))" "closed_valid (kr (rg4 V z))"
    using less.prems(6,8) by (cases d; simp add: t mk_def)+
  have below: "gives (get_locked d x \<sigma> \<bind> (\<lambda>(cp, \<sigma>). cp \<bind> (\<lambda>b. remove_node rng b \<sigma> \<bind> (\<lambda>(res, \<sigma>).
      (case res of None \<Rightarrow> Some \<sigma> | Some b' \<Rightarrow> mutex_unlock b' \<sigma>) \<bind> (\<lambda>\<sigma>. set_child d x res \<sigma> \<bind>
      (\<lambda>\<sigma>. Some (Some x, \<sigma>))))))) P"
    if cs: "inorder s = cs @ z # ds" "between (rgs V cs) (kr rng) (rgs V ds)" for cs ds
  proof -
    from cs have "s \<noteq> Leaf" by auto
    with v obtain c w where c: "v_child v d = Some c" "V c = Some w" "shape V (Some c) s" "c \<in> set_tree s"
      by (cases s) auto
    from less.prems(3,4) c have ne: "c \<notin> L" "set_tree s \<inter> insert c L = {c}" "size s < size t"
        "distinct (inorder s)" "x \<notin> set_tree s" "c \<noteq> x"
      by (auto simp: t)
    have ord: "ordered (rgs V (inorder s))" using less.prems(6) inorder_ctx [of d s x s'] by (simp add: t)
    have nr: "\<not> v_root u" if "a \<in> set_tree s" "V a = Some u" for a u
      using less.prems(5) [of a u] that ne(5) by (auto simp: t)
    show ?thesis
      unfolding gives_simps
    proof (rule get_locked_Some_rule [OF abs v(1) c(1,2) ne(1)], unfold prod.case gives_simps bind.simps)
      fix \<sigma>1 assume a: "abs4 \<sigma>1 = (V, insert c L, k)"
      show "gives (remove_node rng c \<sigma>1) (\<lambda>r. gives (case r of (res, \<sigma>) \<Rightarrow>
          (case res of None \<Rightarrow> Some \<sigma> | Some b' \<Rightarrow> mutex_unlock b' \<sigma>) \<bind> (\<lambda>\<sigma>. set_child d x res \<sigma> \<bind>
          (\<lambda>\<sigma>. Some (Some x, \<sigma>)))) P)"
      proof (rule less.hyps [OF ne(3) a c(3) ne(4,2) nr ord less.prems(7) cs less.prems(10)],
          assumption, assumption, unfold prod.case option.case gives_simps)
        fix \<sigma>2 V2 s3 assume q: "abs4 \<sigma>2 = (V2, insert c L, k)" "removed V (Some c) s z V2 s3"
        have rem: "removed V (Some x) t z V2 (mk d s3 x s')"
          using removed_below [OF _ _ c(3) q(2)] shp less.prems(3) by (simp add: t)
        from q(2) have "V2 x = Some v" "shape V2 (Some c) s3"
          using ne(5) v(1) by (simp_all add: removed_def)
        moreover from this obtain u where "V2 c = Some u" by (auto elim: shape_Some [where d = d])
        moreover have "vset d (Some c) v = v" using c(1) by (simp add: vset_def fun_upd_idem)
        ultimately show "gives (mutex_unlock c \<sigma>2) (\<lambda>\<sigma>. gives (set_child d x (Some c) \<sigma>) (\<lambda>\<sigma>. P (Some x, \<sigma>)))"
          using ne(1) less.prems(11) [OF _ rem]
          by (auto intro!: mutex_unlock_rule [OF q(1)] set_child_rule simp: map_upd_triv)
      next
        fix \<sigma>2 u
        assume q: "s = Node Leaf c Leaf" "V c = Some u" "abs4 \<sigma>2 = (if v_root u
          then (V(c \<mapsto> u\<lparr>v_empty := True\<rparr>), insert c L, k) else (V, insert c L - {c}, k))"
        with nr [OF c(4)] ne(1) have a2: "abs4 \<sigma>2 = (V, L, k)" by simp
        from cs q(1) have "z = c" by (cases cs) auto
        have "removed V (Some x) t z (V(x \<mapsto> vset d None v)) (mk d Leaf x s')"
          using removed_leaf [of V x d c s' v] shp less.prems(3) v(1) by (simp add: t q(1) \<open>z = c\<close>)
        then show "gives (set_child d x None \<sigma>2) (\<lambda>\<sigma>. P (Some x, \<sigma>))"
          using less.prems(11) by (auto intro!: set_child_rule [OF a2 v(1)])
      qed
    qed
  qed
  show ?case
  proof (subst remove_node.simps, unfold gives_simps, rule read_rule [OF abs v(1)])
    fix n assume "v = vnode_of n"
    then have n: "m_range n = rg4 V x" using v(1) by (simp add: rg4_def)
    show "gives (let c = compare rng (m_range n) in
       if c = EQUALS then remove_root_of_subtree x \<sigma>
       else if c = OVERLAPS then None
       else let d = if c = LESS_THAN then Left_Side else Right_Side in
         get_locked d x \<sigma> \<bind> (\<lambda>(cp, \<sigma>). cp \<bind> (\<lambda>b. remove_node rng b \<sigma> \<bind> (\<lambda>(res, \<sigma>).
         (case res of None \<Rightarrow> Some \<sigma> | Some b' \<Rightarrow> mutex_unlock b' \<sigma>) \<bind> (\<lambda>\<sigma>. set_child d x res \<sigma> \<bind>
         (\<lambda>\<sigma>. Some (Some x, \<sigma>))))))) P"
    proof (cases "x = z")
      case True
      then have "compare rng (m_range n) = EQUALS"
        using compare_equals [of rng "rg4 V z"] vx less.prems(7,10) n by simp
      moreover have "gives (remove_root_of_subtree x \<sigma>) P"
      proof (cases "t = Node Leaf x Leaf")
        case True
        then show ?thesis
          using less.prems(12) [OF True v(1)] less.prems(2,4) remove_root_leaf_rule [OF abs _ v(1)] by auto
      next
        case False
        then show ?thesis
        proof (rule remove_inner_rule [OF abs shp _ less.prems(3,4)])
          fix \<sigma>' V' t' assume "abs4 \<sigma>' = (V', L, k)" "removed V (Some x) t x V' t'"
          then show "P (Some x, \<sigma>')" using less.prems(11) \<open>x = z\<close> by simp
        qed (rule less.prems(5))
      qed
      ultimately show ?thesis by simp
    next
      case False
      obtain cs ds where cs: "inorder s = cs @ z # ds" "between (rgs V cs) (kr rng) (rgs V ds)"
          and no: "\<not> overlaps rng (rg4 V x)"
        using turn_to_target [OF less.prems(6) [unfolded t] less.prems(3) [unfolded t]
          less.prems(8) [unfolded t] False less.prems(9,7) d_def] .
      from no have "compare rng (rg4 V x) \<noteq> EQUALS" "compare rng (rg4 V x) \<noteq> OVERLAPS"
        by (auto simp: overlaps_def)
      then show ?thesis
        unfolding n Let_def using below [OF cs] by (simp only: if_False d_def)
    qed
  qed
qed

end
