(* ===== verification/V4_System.thy ===== *)
theory V4_System
  imports V4_Remove
begin

text \<open>
  The whole tree: its invariant between transactions, what it contains, and the transactions that
  put a range into it and take one out, from \<open>prepare\<close> to \<open>release\<close>.
\<close>

subsection \<open>Contents\<close>

text \<open>The ranges below a pointer, from left to right, and those of the tree.\<close>

partial_function (option) tree_ranges :: "addr4 option \<Rightarrow> memory4 \<Rightarrow> keyrange list option" where
  "tree_ranges p \<sigma> = (case p of None \<Rightarrow> Some []
     | Some a \<Rightarrow> do {
         n \<leftarrow> t_heap \<sigma> a;
         ls \<leftarrow> tree_ranges (ptr (m_left_child n)) \<sigma>;
         rs \<leftarrow> tree_ranges (ptr (m_right_child n)) \<sigma>;
         Some (ls @ m_range n # rs) })"

declare tree_ranges.simps [code]

definition contents :: "concurrent_tree \<Rightarrow> keyrange list option" where
  "contents T = do {
     n \<leftarrow> t_heap (mem T) (m_root T);
     if m_is_empty n then Some [] else tree_ranges (Some (m_root T)) (mem T) }"

text \<open>Sequences of key ranges as sequences of pairs.\<close>

abbreviation krs :: "keyrange list \<Rightarrow> 64 word range list" where
  "krs rs \<equiv> map kr rs"

lemma tree_ranges_shape:
  "shape (view \<sigma>) p t \<Longrightarrow> tree_ranges p \<sigma> = Some (map (rg4 (view \<sigma>)) (inorder t))"
proof (induction t arbitrary: p)
  case Leaf
  then show ?case by (simp add: tree_ranges.simps)
next
  case (Node l a r)
  from Node.prems obtain v where v: "p = Some a" "view \<sigma> a = Some v" "shape (view \<sigma>) (v_child v Left_Side) l"
    "shape (view \<sigma>) (v_child v Right_Side) r" by auto
  then obtain n where "t_heap \<sigma> a = Some n" "v = vnode_of n" by (auto simp: view_def)
  with v Node.IH show ?case by (simp add: tree_ranges.simps [of "Some a"] child_def rg4_def)
qed

subsection \<open>The invariant\<close>

definition tree_inv :: "addr4 \<Rightarrow> view4 \<Rightarrow> addr4 \<Rightarrow> addr4 tree \<Rightarrow> bool" where
  "tree_inv root V k t \<longleftrightarrow> dom V = {..<k} \<and> distinct (inorder t) \<and> ordered (rgs V (inorder t)) \<and>
     (\<forall>a v. V a = Some v \<and> v_root v \<longrightarrow> a = root) \<and>
     (\<exists>v. V root = Some v \<and> v_root v \<and>
       (if v_empty v then t = Leaf \<and> v_child v = (\<lambda>_. None) else shape V (Some root) t))"

text \<open>\<open>tree_at T L t\<close>: the tree \<open>T\<close> is \<open>t\<close>, and exactly the mutexes of \<open>L\<close> are held.\<close>

definition tree_at :: "concurrent_tree \<Rightarrow> addr4 set \<Rightarrow> addr4 tree \<Rightarrow> bool" where
  "tree_at T L t \<longleftrightarrow> locks (mem T) = L \<and> tree_inv (m_root T) (view (mem T)) (t_brk (mem T)) t"

definition tree_ok :: "concurrent_tree \<Rightarrow> bool" where
  "tree_ok T \<longleftrightarrow> (\<exists>t. tree_at T {} t)"

lemma tree_inv_cases:
  assumes "tree_inv root V k t" and v: "V root = Some v"
  obtains "v_empty v" "t = Leaf" "v_child v = (\<lambda>_. None)" | "\<not> v_empty v" "shape V (Some root) t"
  using assms by (auto simp: tree_inv_def split: if_splits)

lemma tree_at_contents:
  assumes "tree_at T L t"
  shows "contents T = Some (map (rg4 (view (mem T))) (inorder t))"
proof -
  from assms obtain v where v: "view (mem T) (m_root T) = Some v"
      "if v_empty v then t = Leaf \<and> v_child v = (\<lambda>_. None) else shape (view (mem T)) (Some (m_root T)) t"
    by (auto simp: tree_at_def tree_inv_def)
  from v(1) obtain n where "t_heap (mem T) (m_root T) = Some n" "v = vnode_of n" by (auto simp: view_def)
  with v show ?thesis by (auto simp: contents_def dest: tree_ranges_shape)
qed

lemma contents_krs: "tree_at T L t \<Longrightarrow> contents T = Some rs \<Longrightarrow> krs rs = rgs (view (mem T)) (inorder t)"
  using tree_at_contents [of T L t] by (auto simp: comp_def)

lemma tree_at_ordered: "tree_at T L t \<Longrightarrow> contents T = Some rs \<Longrightarrow> ordered (krs rs)"
  using tree_at_contents [of T L t] by (auto simp: tree_at_def tree_inv_def comp_def)

lemma tree_ok_ordered: "tree_ok T \<Longrightarrow> contents T = Some rs \<Longrightarrow> ordered (krs rs)"
  by (auto simp only: tree_ok_def intro: tree_at_ordered)

lemma create_tree_at: "tree_at (create_tree g) {} Leaf"
  by (auto simp: tree_at_def tree_inv_def create_tree_def locks_def view_def create_root_def init_node_def
      new_treenode_def null_child_def vnode_of_def child_def fun_eq_iff split: side.split if_splits)

subsection \<open>Transactions\<close>

definition insert_transaction :: "64 word \<Rightarrow> 64 word \<Rightarrow> concurrent_tree \<Rightarrow> concurrent_tree option" where
  "insert_transaction l r T = do {
     s \<leftarrow> prepare T; s \<leftarrow> acquire l r s; s \<leftarrow> lk_insert (create_keyrange l r) s; release s }"

definition remove_transaction :: "64 word \<Rightarrow> 64 word \<Rightarrow> concurrent_tree \<Rightarrow> concurrent_tree option" where
  "remove_transaction l r T = do {
     s \<leftarrow> prepare T; s \<leftarrow> acquire l r s; s \<leftarrow> lk_remove (create_keyrange l r) s; release s }"

text \<open>
  What \<open>acquire\<close> leaves: the node \<open>b\<close> is locked and nothing else, the tree is the subtree \<open>s\<close> of
  \<open>b\<close> in the context \<open>c\<close>, and what is in the context does not overlap the range. Either \<open>b\<close> is
  the root of the whole tree, or its own range does not overlap either.
\<close>

definition acquired :: "keyrange \<Rightarrow> addr4 \<Rightarrow> addr4 \<Rightarrow> concurrent_tree \<Rightarrow> addr4 ctx \<Rightarrow> addr4 tree \<Rightarrow> bool" where
  "acquired rng root b T c s \<longleftrightarrow> m_root T = root \<and> tree_at T {b} (plug c s) \<and>
     between (rgs (view (mem T)) (ctx_left c)) (kr rng) (rgs (view (mem T)) (ctx_right c)) \<and>
     (b = root \<and> c = [] \<or>
      shape (view (mem T)) (Some b) s \<and> \<not> closed_overlaps (kr rng) (kr (rg4 (view (mem T)) b)))"

lemma shape_root_in: "shape V (Some x) t \<Longrightarrow> x \<in> set_tree t"
  by (cases t) auto

lemma same_tree_inv:
  assumes "same_tree V t V' (Some root) t'" "tree_inv root V k t" "V root = Some v" "\<not> v_empty v"
  shows "tree_inv root V' k t'" "rgs V' (inorder t') = rgs V (inorder t)"
proof -
  from assms(1) have F: "shape V' (Some root) t'" "inorder t' = inorder t" "vdata V' = vdata V"
    by (auto simp: same_tree_def)
  obtain v' where v': "V' root = Some v'" "v_root v' = v_root v" "v_empty v' = v_empty v"
    using vdata_Some [OF F(3) assms(3)] by metis
  have only: "a = root" if a: "V' a = Some u" "v_root u" for a u
  proof -
    from vdata_Some [OF F(3) [symmetric] a(1)] obtain u' where "V a = Some u'" "v_root u'" using a(2) by metis
    then show ?thesis using assms(2) by (auto simp: tree_inv_def)
  qed
  have old: "dom V' = {..<k}" "distinct (inorder t)" "ordered (rgs V (inorder t))" "v_root v"
    using assms(2,3) vdata_dom [OF F(3)] by (auto simp: tree_inv_def)
  show "tree_inv root V' k t'"
    unfolding tree_inv_def
  proof (intro conjI)
    show "\<forall>a v. V' a = Some v \<and> v_root v \<longrightarrow> a = root" using only by blast
    show "\<exists>v. V' root = Some v \<and> v_root v \<and> (if v_empty v
      then t' = Leaf \<and> v_child v = (\<lambda>_. None) else shape V' (Some root) t')"
      using v' old(4) assms(4) F(1) by (intro exI [where x = v']) simp
  qed (use old F(2) vdata_rg [OF F(3)] in simp_all)
  show "rgs V' (inorder t') = rgs V (inorder t)" using F(2) vdata_rg [OF F(3)] by simp
qed

lemma found_inv:
  assumes "found rng V (Some root) t b V' c s" "tree_inv root V k t" "V root = Some v" "\<not> v_empty v"
  shows "tree_inv root V' k (plug c s)" "between (rgs V' (ctx_left c)) (kr rng) (rgs V' (ctx_right c))"
    "rgs V' (inorder (plug c s)) = rgs V (inorder t)" "rg4 V' b = rg4 V b"
proof -
  from assms(1) have F: "same_tree V t V' (Some root) (plug c s)"
    "between (rgs V (ctx_left c)) (kr rng) (rgs V (ctx_right c))" by (simp_all add: found_def)
  then have dat: "vdata V' = vdata V" by (simp add: same_tree_def)
  show "tree_inv root V' k (plug c s)" "rgs V' (inorder (plug c s)) = rgs V (inorder t)"
    by (rule same_tree_inv [OF F(1) assms(2-4)])+
  show "between (rgs V' (ctx_left c)) (kr rng) (rgs V' (ctx_right c))" "rg4 V' b = rg4 V b"
    using F(2) vdata_rg [OF dat] by simp_all
qed

lemma acquire_rule:
  assumes at: "tree_at T {} t" and rng: "closed_valid (l, r)"
    and P: "\<And>lk T' c s. acquired (create_keyrange l r) (m_root T) (m_subtree lk) T' c s \<Longrightarrow>
      m_lk_range lk = create_keyrange l r \<Longrightarrow>
      rgs (view (mem T')) (inorder (plug c s)) = rgs (view (mem T)) (inorder t) \<Longrightarrow> P (lk, T')"
  shows "gives (prepare T) (\<lambda>s. gives (acquire l r s) P)"
proof -
  let ?rng = "create_keyrange l r" and ?V = "view (mem T)" and ?root = "m_root T" and ?k = "t_brk (mem T)"
  from at have abs: "abs4 (mem T) = (?V, {}, ?k)" and inv: "tree_inv ?root ?V ?k t"
    by (auto simp: tree_at_def abs4_def)
  from inv obtain v where v: "?V ?root = Some v" by (auto simp: tree_inv_def)
  have whole: "P (\<lparr>m_lk_range = ?rng, m_subtree = ?root\<rparr>, T\<lparr>mem := \<sigma>\<rparr>)" if "abs4 \<sigma> = (?V, {?root}, ?k)" for \<sigma>
    using that inv by (intro P [of _ _ "[]" t]) (auto simp: acquired_def tree_at_def abs4_def between_def)
  show ?thesis
    unfolding prepare_def gives_simps
  proof (rule mutex_lock_rule [OF abs v])
    fix \<sigma>1 assume a: "abs4 \<sigma>1 = (?V, {?root}, ?k)"
    then obtain n where n: "t_heap \<sigma>1 ?root = Some n" "v = vnode_of n" using v by (rule abs4_node)
    show "gives (acquire l r (\<lparr>m_lk_range = get_infinite_range, m_subtree = ?root\<rparr>, T\<lparr>mem := \<sigma>1\<rparr>)) P"
    proof (cases "m_is_empty n \<or> range_overlaps ?rng n")
      case True
      then show ?thesis using whole [OF a] n by (simp add: acquire_def)
    next
      case False
      with n have ne: "\<not> v_empty v" and no: "\<not> closed_overlaps (kr ?rng) (kr (rg4 ?V ?root))"
        using v closed.overlaps_sym [of "kr ?rng" "kr (m_range n)"]
        by (auto simp: range_overlaps_def overlaps_closed rg4_def)
      from inv v ne have shp: "shape ?V (Some ?root) t" by (auto elim: tree_inv_cases)
      have "gives (find_node_with_overlapping_child ?rng None ?root \<sigma>1)
          (\<lambda>(b, \<sigma>). P (\<lparr>m_lk_range = ?rng, m_subtree = b\<rparr>, T\<lparr>mem := \<sigma>\<rparr>))"
      proof (rule find_rule [OF a shp], unfold prod.case)
        fix b \<sigma>2 V' c s
        assume q: "abs4 \<sigma>2 = (V', insert b ({?root} - {?root}), ?k)" "found ?rng ?V (Some ?root) t b V' c s"
        note F = found_inv [OF q(2) inv v ne]
        show "P (\<lparr>m_lk_range = ?rng, m_subtree = b\<rparr>, T\<lparr>mem := \<sigma>2\<rparr>)"
          using q F by (intro P [of _ _ c s]) (auto simp: acquired_def tree_at_def abs4_def found_def)
      qed (use inv rng no shape_root_in [OF shp] in \<open>simp_all add: tree_inv_def\<close>)
      then show ?thesis using False n by (simp add: acquire_def split_def Let_def)
    qed
  qed simp
qed

text \<open>The node \<open>acquire\<close> chose is the empty root, or the root of the subtree \<open>s\<close> of a nonempty tree.\<close>

lemma acquired_cases:
  assumes "acquired rng root b T c s"
  obtains v where "view (mem T) b = Some v" "v_empty v" "b = root" "c = []" "s = Leaf"
      "v_child v = (\<lambda>_. None)" "v_root v"
    | v u where "view (mem T) b = Some v" "\<not> v_empty v" "shape (view (mem T)) (Some b) s"
      "shape (view (mem T)) (Some root) (plug c s)" "view (mem T) root = Some u" "\<not> v_empty u" "v_root u"
proof -
  from assms have inv: "tree_inv root (view (mem T)) (t_brk (mem T)) (plug c s)"
    by (auto simp: acquired_def tree_at_def)
  then obtain u where u: "view (mem T) root = Some u" "v_root u" by (auto simp: tree_inv_def)
  from inv u(1) show thesis
  proof (cases rule: tree_inv_cases)
    case 1
    then have "c = []" by (cases "(c, s)" rule: plug.cases) auto
    with 1 have "s = Leaf" by simp
    with assms \<open>c = []\<close> have "b = root" by (auto simp: acquired_def)
    with \<open>c = []\<close> 1 u \<open>s = Leaf\<close> show thesis by (intro that(1)) auto
  next
    case 2
    with assms have shp: "shape (view (mem T)) (Some b) s" by (auto simp: acquired_def)
    then obtain v where "view (mem T) b = Some v" "\<not> v_empty v" by (rule shape_Some)
    with shp 2 u show thesis by (intro that(2) [of v u]) auto
  qed
qed

lemma release_rule:
  assumes "tree_at T {b} t" "m_subtree lk = b"
    and "\<And>T'. tree_at T' {} t \<Longrightarrow> m_root T' = m_root T \<Longrightarrow> view (mem T') = view (mem T) \<Longrightarrow> P T'"
  shows "gives (release (lk, T)) P"
proof -
  let ?V = "view (mem T)"
  from assms(1) have abs: "abs4 (mem T) = (?V, {b}, t_brk (mem T))" by (auto simp: tree_at_def abs4_def)
  from abs4_locks [OF abs] obtain v where v: "?V b = Some v" by auto
  have "gives (mutex_unlock b (mem T)) (\<lambda>\<sigma>. P (T\<lparr>mem := \<sigma>\<rparr>))"
    by (rule mutex_unlock_rule [OF abs v])
      (use assms in \<open>auto simp: tree_at_def abs4_def intro!: assms(3)\<close>)
  then show ?thesis using assms(2) by (simp add: release_def)
qed

text \<open>The view with one more node.\<close>

lemma vdata_new:
  assumes "vdata V' = (vdata V)(k \<mapsto> fresh_vnode rng)" "V k = None"
  shows "vdata (V'(k := None)) = vdata V" "\<exists>w. V' k = Some w \<and> v_range w = rng \<and> \<not> v_root w \<and> \<not> v_empty w"
proof -
  have at: "vdata V' a = ((vdata V)(k \<mapsto> fresh_vnode rng)) a" for a using assms(1) by simp
  show "vdata (V'(k := None)) = vdata V"
  proof
    fix a
    show "vdata (V'(k := None)) a = vdata V a"
      using at [of a] assms(2) by (cases "a = k") (simp_all add: vdata_def)
  qed
  from at [of k] obtain w where w: "V' k = Some w" "w\<lparr>v_child := \<lambda>_. None\<rparr> = fresh_vnode rng"
    by (auto simp: vdata_def)
  from w(2) have "v_range w = rng" "\<not> v_root w" "\<not> v_empty w"
    by (metis fresh_vnode_def vnode.select_convs vnode.surjective vnode.update_convs(2))+
  with w(1) show "\<exists>w. V' k = Some w \<and> v_range w = rng \<and> \<not> v_root w \<and> \<not> v_empty w" by blast
qed

lemma insert_inv:
  assumes inv: "tree_inv root V k (plug c s)" and shp: "shape V (Some root) (plug c s)" "shape V (Some b) s"
    and ne: "V root = Some u" "\<not> v_empty u" and ins: "inserted rng V (Some b) s k V' s'"
    and bet: "between (rgs V (ctx_left c)) (kr rng) (rgs V (ctx_right c))" and rng: "closed_valid (kr rng)"
  shows "tree_inv root V' (Suc k) (plug c s')"
    "\<exists>ps qs. rgs V (inorder (plug c s)) = ps @ qs \<and> rgs V' (inorder (plug c s')) = ps @ kr rng # qs"
proof -
  from ins obtain as bs where I: "shape V' (Some b) s'" "inorder s = as @ bs" "inorder s' = as @ k # bs"
    "between (rgs V as) (kr rng) (rgs V bs)" "vdata V' = (vdata V)(k \<mapsto> fresh_vnode rng)"
    "\<And>a. a \<notin> set_tree s \<Longrightarrow> a \<noteq> k \<Longrightarrow> V' a = V a" by (auto simp: inserted_def)
  from inv have old: "dom V = {..<k}" "distinct (inorder (plug c s))" "ordered (rgs V (inorder (plug c s)))"
    "\<And>a v. V a = Some v \<Longrightarrow> v_root v \<Longrightarrow> a = root" "v_root u" using ne(1) by (auto simp: tree_inv_def)
  have Vk: "V k = None" using old(1) by (metis domIff lessThan_iff less_irrefl)
  from shape_dom [OF shp(1)] old(1) have fresh: "k \<notin> set_tree (plug c s)" by auto
  obtain w where new: "vdata (V'(k := None)) = vdata V" "V' k = Some w" "v_range w = rng" "\<not> v_root w"
    using vdata_new [OF I(5) Vk] by blast
  have dis: "a \<noteq> k \<and> a \<notin> set_tree s" if "a \<in> set (ctx_left c @ ctx_right c)" for a
    using that old(2) fresh by (auto simp: inorder_plug set_plug)
  have "shape V' (Some root) (plug c s')"
    by (rule shape_plug [OF shp(1,2) I(1)]) (use dis I(6) in blast)
  have rg: "rg4 V' a = rg4 V a" if "a \<noteq> k" for a using vdata_rg [OF new(1), of a] that by (simp add: rg4_def)
  have rgs: "rgs V' xs = rgs V xs" if "k \<notin> set xs" for xs
  proof (rule map_cong [OF refl])
    fix a assume "a \<in> set xs"
    with that have "a \<noteq> k" by auto
    then show "kr (rg4 V' a) = kr (rg4 V a)" by (simp add: rg)
  qed
  have io: "inorder (plug c s) = (ctx_left c @ as) @ bs @ ctx_right c"
    "inorder (plug c s') = (ctx_left c @ as) @ k # bs @ ctx_right c"
    using I(2,3) by (simp_all add: inorder_plug)
  have kn: "k \<notin> set (ctx_left c @ as)" "k \<notin> set (bs @ ctx_right c)"
    using fresh io(1) set_inorder [of "plug c s"] by auto
  have cont: "rgs V' (inorder (plug c s')) = rgs V (ctx_left c @ as) @ kr rng # rgs V (bs @ ctx_right c)"
    unfolding io(2) using rgs [OF kn(1)] rgs [OF kn(2)] new(2,3) by (simp add: rg4_def)
  then show "\<exists>ps qs. rgs V (inorder (plug c s)) = ps @ qs \<and> rgs V' (inorder (plug c s')) = ps @ kr rng # qs"
    unfolding io(1) by (metis map_append)
  have "between (rgs V (ctx_left c @ as)) (kr rng) (rgs V (bs @ ctx_right c))"
    using between_extend [OF I(4) bet] by simp
  with old(3) rng have ord: "ordered (rgs V' (inorder (plug c s')))"
    unfolding cont io(1) map_append by (intro ordered_insert) simp_all
  have dom': "dom V' = {..<Suc k}"
    using vdata_dom [OF new(1)] old(1) new(2) by (auto simp: dom_def lessThan_Suc split: if_splits)
  have only: "a = root" if v: "V' a = Some v" "v_root v" for a v
  proof -
    have "a \<noteq> k" using v new(2,4) by auto
    with v have "(V'(k := None)) a = Some v" by simp
    from vdata_Some [OF new(1) [symmetric] this] obtain v' where "V a = Some v'" "v_root v'" using v(2) by metis
    then show ?thesis using old(4) by blast
  qed
  have "root \<noteq> k" using ne(1) Vk by auto
  with vdata_Some [OF new(1) ne(1)] obtain u' where u': "V' root = Some u'" "v_root u'" "\<not> v_empty u'"
    using old(5) ne(2) by (metis fun_upd_other)
  show "tree_inv root V' (Suc k) (plug c s')"
    unfolding tree_inv_def
  proof (intro conjI)
    show "\<exists>v. V' root = Some v \<and> v_root v \<and> (if v_empty v
      then plug c s' = Leaf \<and> v_child v = (\<lambda>_. None) else shape V' (Some root) (plug c s'))"
      using u' \<open>shape V' (Some root) (plug c s')\<close> by (intro exI [where x = u']) simp
    show "distinct (inorder (plug c s'))" using old(2) kn unfolding io by auto
  qed (use dom' ord only in blast)+
qed

lemma set_root_rule:
  assumes "abs4 \<sigma> = (V, L, k)" "V a = Some v"
    and "\<And>\<sigma>'. abs4 \<sigma>' = (V(a \<mapsto> v\<lparr>v_range := rng, v_empty := False\<rparr>), L, k) \<Longrightarrow> P \<sigma>'"
  shows "gives (update_node a (set_range_and_txnid rng) \<sigma>) P"
  by (rule update_keep_rule [OF assms(1,2) _ assms(3)]) (auto simp: vnode_of_def set_range_and_txnid_def)

lemma lk_insert_rule:
  assumes acq: "acquired rng (m_root T) (m_subtree lk) T c s" and rng: "closed_valid (kr rng)"
    and no: "\<forall>q\<in>set (rgs (view (mem T)) (inorder (plug c s))). \<not> closed_overlaps (kr rng) q"
    and P: "\<And>T' t' ps qs. tree_at T' {m_subtree lk} t' \<Longrightarrow> m_root T' = m_root T \<Longrightarrow>
      rgs (view (mem T)) (inorder (plug c s)) = ps @ qs \<Longrightarrow>
      rgs (view (mem T')) (inorder t') = ps @ kr rng # qs \<Longrightarrow> P (lk, T')"
  shows "gives (lk_insert rng (lk, T)) P"
proof -
  let ?V = "view (mem T)" and ?k = "t_brk (mem T)" and ?b = "m_subtree lk"
  from acq have abs: "abs4 (mem T) = (?V, {?b}, ?k)" and inv: "tree_inv (m_root T) ?V ?k (plug c s)"
    and bet: "between (rgs ?V (ctx_left c)) (kr rng) (rgs ?V (ctx_right c))"
    by (auto simp: acquired_def tree_at_def abs4_def)
  from acq show ?thesis
  proof (cases rule: acquired_cases)
    case (1 v)
    have "gives (update_node ?b (set_range_and_txnid rng) (mem T)) (\<lambda>\<sigma>. P (lk, T\<lparr>mem := \<sigma>\<rparr>))"
    proof (rule set_root_rule [OF abs 1(1)])
      fix \<sigma> assume a: "abs4 \<sigma> = (?V(?b \<mapsto> v\<lparr>v_range := rng, v_empty := False\<rparr>), {?b}, ?k)"
      have "tree_inv (m_root T) (?V(?b \<mapsto> v\<lparr>v_range := rng, v_empty := False\<rparr>)) ?k (Node Leaf ?b Leaf)"
        using inv 1 rng by (auto simp: tree_inv_def rg4_def)
      with a show "P (lk, T\<lparr>mem := \<sigma>\<rparr>)"
        using 1 by (intro P [of _ "Node Leaf ?b Leaf" "[]" "[]"]) (auto simp: tree_at_def abs4_def rg4_def)
    qed
    moreover from abs 1(1) obtain n where "t_heap (mem T) ?b = Some n" "v = vnode_of n" by (rule abs4_node)
    ultimately show ?thesis using 1(2) by (simp add: lk_insert_def)
  next
    case (2 v u)
    have Vk: "?V ?k = None" using inv unfolding tree_inv_def by (metis domIff lessThan_iff less_irrefl)
    have sub: "distinct (inorder s)" "ordered (rgs ?V (inorder s))"
      "\<forall>q\<in>set (rgs ?V (inorder s)). \<not> closed_overlaps (kr rng) q"
      using inv no by (simp_all add: tree_inv_def inorder_plug)
    have "gives (insert_node rng ?b (mem T)) (\<lambda>\<sigma>. P (lk, T\<lparr>mem := \<sigma>\<rparr>))"
    proof (rule insert_node_rule [OF abs 2(3) sub(1) _ Vk sub(2) rng sub(3)])
      fix \<sigma> V' s' assume a: "abs4 \<sigma> = (V', {?b}, Suc ?k)" and ins: "inserted rng ?V (Some ?b) s ?k V' s'"
      note I = insert_inv [OF inv 2(4,3,5,6) ins bet rng]
      from I(2) obtain ps qs where "rgs ?V (inorder (plug c s)) = ps @ qs"
        "rgs V' (inorder (plug c s')) = ps @ kr rng # qs" by blast
      with a I(1) show "P (lk, T\<lparr>mem := \<sigma>\<rparr>)"
        by (intro P [of _ "plug c s'" ps qs]) (auto simp: tree_at_def abs4_def)
    qed (use shape_root_in [OF 2(3)] in auto)
    moreover from abs 2(1) obtain n where "t_heap (mem T) ?b = Some n" "v = vnode_of n" by (rule abs4_node)
    ultimately show ?thesis using 2(2) by (simp add: lk_insert_def)
  qed
qed

text \<open>The insertion of a range that overlaps none of the tree.\<close>

lemma insert_transaction_rule:
  assumes ok: "tree_ok T" and rs: "contents T = Some rs" and lr: "l \<le> r"
    and no: "\<forall>q\<in>set rs. \<not> closed_overlaps (l, r) (kr q)"
  obtains T' ps qs where "insert_transaction l r T = Some T'" "tree_ok T'" "rs = ps @ qs"
    "contents T' = Some (ps @ create_keyrange l r # qs)"
proof -
  let ?rng = "create_keyrange l r"
  from ok obtain t where t: "tree_at T {} t" by (auto simp: tree_ok_def)
  note cont = contents_krs [OF t rs]
  have "gives (insert_transaction l r T) (\<lambda>T'. tree_ok T' \<and> (\<exists>ps qs. krs rs = ps @ qs \<and>
      (\<exists>rs'. contents T' = Some rs' \<and> krs rs' = ps @ kr ?rng # qs)))" (is "gives _ ?P")
    unfolding insert_transaction_def gives_simps
  proof (rule acquire_rule [OF t])
    fix lk :: locked_keyrange and T1 c s
    assume a: "acquired ?rng (m_root T) (m_subtree lk) T1 c s" "m_lk_range lk = ?rng"
      "rgs (view (mem T1)) (inorder (plug c s)) = rgs (view (mem T)) (inorder t)"
    then have root: "m_root T1 = m_root T" by (simp add: acquired_def)
    from cont a(3) have c1: "krs rs = rgs (view (mem T1)) (inorder (plug c s))" by simp
    have no1: "\<forall>q\<in>set (rgs (view (mem T1)) (inorder (plug c s))). \<not> closed_overlaps (kr ?rng) q"
      unfolding c1 [symmetric] using no by simp
    show "gives (lk_insert ?rng (lk, T1)) (\<lambda>s. gives (release s) ?P)"
    proof (rule lk_insert_rule [OF a(1) [folded root] _ no1])
      show "closed_valid (kr ?rng)" using lr by (simp add: closed_valid_def)
      fix T2 t2 ps qs
      assume q: "tree_at T2 {m_subtree lk} t2" "rgs (view (mem T1)) (inorder (plug c s)) = ps @ qs"
        "rgs (view (mem T2)) (inorder t2) = ps @ kr ?rng # qs"
      show "gives (release (lk, T2)) ?P"
      proof (rule release_rule [OF q(1) refl])
        fix T3 assume "tree_at T3 {} t2" "view (mem T3) = view (mem T2)"
        then show "?P T3" using c1 q(2,3) tree_at_contents [of T3 "{}" t2] by (auto simp: tree_ok_def comp_def)
      qed
    qed
  qed (use lr in \<open>simp add: closed_valid_def\<close>)
  then obtain T' ps qs rs' where R: "insert_transaction l r T = Some T'" "tree_ok T'" "krs rs = ps @ qs"
      "contents T' = Some rs'" "krs rs' = ps @ kr ?rng # qs" by (auto simp: gives_def)
  from R(3,5) obtain as bs where "rs = as @ bs" "ps = krs as" "qs = krs bs" by (auto simp: map_eq_append_conv)
  moreover from this R(5) have "krs rs' = krs (as @ ?rng # bs)" by simp
  then have "rs' = as @ ?rng # bs" by (rule map_injective) (simp add: inj_def)
  ultimately show thesis using R that by blast
qed

subsection \<open>Removal\<close>

lemma between_disjoint: "between ps r qs \<Longrightarrow> q \<in> set ps \<union> set qs \<Longrightarrow> \<not> closed_overlaps r q"
  by (auto simp: between_def closed_defs)

lemma vflags_Some:
  assumes "vflags V' = vflags V" "V a = Some v"
  obtains v' where "V' a = Some v'" "v_root v' = v_root v" "v_empty v' = v_empty v"
proof -
  have "vflags V' a = vflags V a" using assms(1) by simp
  with assms(2) that show thesis by (auto simp: vflags_def)
qed

lemma remove_inv:
  assumes inv: "tree_inv root V k (plug c s)" and shp: "shape V (Some root) (plug c s)" "shape V (Some b) s"
    and ne: "V root = Some u" "\<not> v_empty u" and rem: "removed V (Some b) s z V' s'"
    and z: "inorder (plug c s) = as @ z # bs" "z \<in> set_tree s"
  shows "tree_inv root V' k (plug c s')" "rgs V' (inorder (plug c s')) = rgs V as @ rgs V bs"
proof -
  from rem obtain us vs where R: "shape V' (Some b) s'" "set_tree s' \<subseteq> set_tree s" "distinct (inorder s')"
    "vflags V' = vflags V" "\<And>a. a \<notin> set_tree s \<Longrightarrow> V' a = V a" "inorder s = us @ z # vs"
    "rgs V' (inorder s') = rgs V us @ rgs V vs" by (auto simp: removed_def)
  from inv have old: "dom V = {..<k}" "distinct (inorder (plug c s))" "ordered (rgs V (inorder (plug c s)))"
    "\<And>a v. V a = Some v \<Longrightarrow> v_root v \<Longrightarrow> a = root" "v_root u" using ne(1) by (auto simp: tree_inv_def)
  have dis: "a \<notin> set_tree s" if "a \<in> set (ctx_left c @ ctx_right c)" for a
    using that old(2) by (auto simp: inorder_plug)
  have shp': "shape V' (Some root) (plug c s')"
    by (rule shape_plug [OF shp(1,2) R(1)]) (use dis R(5) in blast)
  have keep: "rgs V' (ctx_left c) = rgs V (ctx_left c)" "rgs V' (ctx_right c) = rgs V (ctx_right c)"
    using dis R(5) by (simp_all add: rg4_def)
  have "z \<notin> set (ctx_left c @ us)" "z \<notin> set (vs @ ctx_right c)"
    using old(2) unfolding inorder_plug R(6) by auto
  then have "as = ctx_left c @ us \<and> bs = vs @ ctx_right c"
    using z(1) append_Cons_eq_iff [of z "ctx_left c @ us" "vs @ ctx_right c" as bs]
    unfolding inorder_plug R(6) by simp
  then show cont: "rgs V' (inorder (plug c s')) = rgs V as @ rgs V bs"
    unfolding inorder_plug using keep R(7) by simp
  have only: "a = root" if v: "V' a = Some v" "v_root v" for a v
    using vflags_Some [OF R(4) [symmetric] v(1)] v(2) old(4) by metis
  obtain u' where u': "V' root = Some u'" "v_root u'" "\<not> v_empty u'"
    using vflags_Some [OF R(4) ne(1)] old(5) ne(2) by metis
  show "tree_inv root V' k (plug c s')"
    unfolding tree_inv_def
  proof (intro conjI)
    show "\<exists>v. V' root = Some v \<and> v_root v \<and> (if v_empty v
      then plug c s' = Leaf \<and> v_child v = (\<lambda>_. None) else shape V' (Some root) (plug c s'))"
      using u' shp' by (intro exI [where x = u']) simp
    show "distinct (inorder (plug c s'))"
      using old(2) R(2,3) set_inorder [of s'] set_inorder [of s] unfolding inorder_plug by auto
    show "ordered (rgs V' (inorder (plug c s')))" using old(3) unfolding cont z(1) by simp
  qed (use old(1) vflags_dom [OF R(4)] only in blast)+
qed

lemma empty_inv:
  assumes inv: "tree_inv root V k (Node Leaf root Leaf)" and shp: "shape V (Some root) (Node Leaf root Leaf)"
    and v: "V root = Some v"
  shows "tree_inv root (V(root \<mapsto> v\<lparr>v_empty := True\<rparr>)) k Leaf"
proof -
  have "v_child v d = None" for d using shp v by (cases d) auto
  then have "v_child v = (\<lambda>_. None)" by blast
  with inv v show ?thesis by (auto simp: tree_inv_def)
qed

lemma lk_remove_rule:
  assumes acq: "acquired rng (m_root T) (m_subtree lk) T c s" and rng: "closed_valid (kr rng)"
    and q: "rgs (view (mem T)) (inorder (plug c s)) = ps @ q # qs" "fst q = m_left_key rng"
      "between ps (kr rng) qs"
    and P: "\<And>T' t'. tree_at T' {m_subtree lk} t' \<Longrightarrow> m_root T' = m_root T \<Longrightarrow>
      rgs (view (mem T')) (inorder t') = ps @ qs \<Longrightarrow> P (lk, T')"
  shows "gives (lk_remove rng (lk, T)) P"
proof -
  let ?V = "view (mem T)" and ?k = "t_brk (mem T)" and ?b = "m_subtree lk" and ?root = "m_root T"
  from acq have abs: "abs4 (mem T) = (?V, {?b}, ?k)" and inv: "tree_inv ?root ?V ?k (plug c s)"
    and bet: "between (rgs ?V (ctx_left c)) (kr rng) (rgs ?V (ctx_right c))"
    by (auto simp: acquired_def tree_at_def abs4_def)
  from inv have ord: "ordered (rgs ?V (inorder (plug c s)))" "distinct (inorder (plug c s))"
    "\<And>a v. ?V a = Some v \<Longrightarrow> v_root v \<Longrightarrow> a = ?root" by (auto simp: tree_inv_def)
  from q(1) obtain as z bs where z: "inorder (plug c s) = as @ z # bs" "rgs ?V as = ps" "kr (rg4 ?V z) = q"
      "rgs ?V bs = qs" by (auto simp: map_eq_append_conv map_eq_Cons_conv)
  have "closed_valid q" using ord(1) unfolding q(1) by simp
  then have over: "closed_overlaps (kr rng) (kr (rg4 ?V z))" using q(2) rng z(3) by (simp add: closed_defs kr_def)
  then have "z \<notin> set (ctx_left c @ ctx_right c)"
    using between_disjoint [OF bet, of "kr (rg4 ?V z)"] by auto
  moreover have "z \<in> set (inorder (plug c s))" unfolding z(1) by simp
  ultimately have zs: "z \<in> set_tree s" by (simp add: set_plug)
  then have "s \<noteq> Leaf" by auto
  then obtain u v where shp: "?V ?b = Some v" "shape ?V (Some ?b) s" "shape ?V (Some ?root) (plug c s)"
      "?V ?root = Some u" "\<not> v_empty u" "v_root u"
    using acq by (auto elim: acquired_cases)
  from zs obtain us vs where s: "inorder s = us @ z # vs" by (metis set_inorder split_list)
  have "z \<notin> set (ctx_left c @ us)" "z \<notin> set (vs @ ctx_right c)"
    using ord(2) unfolding inorder_plug s by auto
  then have "as = ctx_left c @ us \<and> bs = vs @ ctx_right c"
    using append_Cons_eq_iff [of z "ctx_left c @ us" "vs @ ctx_right c" as bs] z(1)
    unfolding inorder_plug s by simp
  then have near: "between (rgs ?V us) (kr rng) (rgs ?V vs)" using q(3) z(2,4) by (auto simp: between_def)
  have "gives (remove_node rng ?b (mem T)) (\<lambda>(n, \<sigma>). P (lk, T\<lparr>mem := \<sigma>\<rparr>))"
  proof (rule remove_node_rule [OF abs shp(2) _ _ _ _ rng s near], unfold prod.case)
    show "m_left_key (rg4 ?V z) = m_left_key rng" using z(3) q(2) by (auto simp: kr_def)
    show "\<not> v_root w" if "a \<in> set_tree s" "a \<noteq> ?b" "?V a = Some w" for a w
    proof
      assume "v_root w"
      with ord(3) that(3) have "a = ?root" by blast
      moreover have "c \<noteq> []" using acq that(2) \<open>a = ?root\<close> shape_root [OF shp(3), of ?V ?b]
        shp(2) by (cases c) (auto simp: acquired_def)
      then have "?root \<in> set (ctx_left c @ ctx_right c)"
        using shp(3) by (cases "(c, s)" rule: plug.cases) (auto split: side.splits)
      ultimately show False using that(1) ord(2) by (auto simp: inorder_plug)
    qed
  next
    fix \<sigma> V' s' assume "abs4 \<sigma> = (V', {?b}, ?k)" "removed ?V (Some ?b) s z V' s'"
    with remove_inv [OF inv shp(3,2,4,5) _ z(1) zs] z(2,4) show "P (lk, T\<lparr>mem := \<sigma>\<rparr>)"
      by (intro P [of _ "plug c s'"]) (auto simp: tree_at_def abs4_def)
  next
    fix \<sigma> w assume w: "s = Node Leaf ?b Leaf" "?V ?b = Some w" "abs4 \<sigma> =
      (if v_root w then (?V(?b \<mapsto> w\<lparr>v_empty := True\<rparr>), {?b}, ?k) else (?V, {?b} - {?b}, ?k))"
    with zs over acq have r: "?b = ?root" "c = []" by (auto simp: acquired_def)
    with w shp have "v_root w" by simp
    moreover have "tree_inv ?root (?V(?root \<mapsto> w\<lparr>v_empty := True\<rparr>)) ?k Leaf"
      using empty_inv [of ?root ?V ?k w] inv shp w(1,2) r by simp
    moreover have "ps = []" "qs = []" using z w(1) zs r by (auto simp: Cons_eq_append_conv)
    ultimately show "P (lk, T\<lparr>mem := \<sigma>\<rparr>)"
      using w(3) r by (intro P [of _ Leaf]) (auto simp: tree_at_def abs4_def)
  qed (use ord shape_root_in [OF shp(2)] in \<open>auto simp: inorder_plug\<close>)
  then show ?thesis by (simp add: lk_remove_def split_def)
qed

text \<open>The removal takes out the range with the given left end, whatever its right end is.\<close>

lemma remove_transaction_rule:
  assumes ok: "tree_ok T" and rs: "contents T = Some (ps @ q # qs)" and lr: "l \<le> r" "m_left_key q = l"
    and bet: "between (krs ps) (l, r) (krs qs)"
  obtains T' where "remove_transaction l r T = Some T'" "tree_ok T'" "contents T' = Some (ps @ qs)"
proof -
  let ?rng = "create_keyrange l r"
  from ok obtain t where t: "tree_at T {} t" by (auto simp: tree_ok_def)
  note cont = contents_krs [OF t rs]
  have valid: "closed_valid (l, r)" using lr by (simp add: closed_valid_def)
  have "gives (remove_transaction l r T) (\<lambda>T'. tree_ok T' \<and>
      (\<exists>rs'. contents T' = Some rs' \<and> krs rs' = krs (ps @ qs)))" (is "gives _ ?P")
    unfolding remove_transaction_def gives_simps
  proof (rule acquire_rule [OF t valid])
    fix lk :: locked_keyrange and T1 c s
    assume a: "acquired ?rng (m_root T) (m_subtree lk) T1 c s" "m_lk_range lk = ?rng"
      "rgs (view (mem T1)) (inorder (plug c s)) = rgs (view (mem T)) (inorder t)"
    then have root: "m_root T1 = m_root T" by (simp add: acquired_def)
    from cont a(3) have c1: "rgs (view (mem T1)) (inorder (plug c s)) = krs ps @ kr q # krs qs" by simp
    show "gives (lk_remove ?rng (lk, T1)) (\<lambda>s. gives (release s) ?P)"
    proof (rule lk_remove_rule [OF a(1) [folded root] _ c1])
      fix T2 t2
      assume r: "tree_at T2 {m_subtree lk} t2" "rgs (view (mem T2)) (inorder t2) = krs ps @ krs qs"
      show "gives (release (lk, T2)) ?P"
      proof (rule release_rule [OF r(1) refl])
        fix T3 assume "tree_at T3 {} t2" "view (mem T3) = view (mem T2)"
        then show "?P T3" using r(2) tree_at_contents [of T3 "{}" t2] by (auto simp: tree_ok_def comp_def)
      qed
    qed (use valid lr bet in \<open>simp_all add: kr_def create_keyrange_def\<close>)
  qed
  then obtain T' rs' where R: "remove_transaction l r T = Some T'" "tree_ok T'"
      "contents T' = Some rs'" "krs rs' = krs (ps @ qs)" by (auto simp: gives_def)
  from R(4) have "rs' = ps @ qs" by (rule map_injective) (simp add: inj_def)
  with R that show thesis by blast
qed

end
