(* ===== verification/V4_Properties.thy ===== *)
theory V4_Properties
  imports V4_System
begin

text \<open>
  What the range tree of \<open>src/v4\<close> guarantees between its transactions. A tree is only ever locked
  node by node, so the properties say which node a transaction holds, and what it makes of the
  ranges of the tree; the last ones compare whole runs with the abstract lock.
\<close>

subsection \<open>Acquiring\<close>

text \<open>What an acquired node says about the contents of the tree.\<close>

lemma acquired_contents:
  assumes a: "acquired rng root sub T' c s"
  defines "m \<equiv> map (rg4 (view (mem T')))"
  shows "contents T' = Some (m (ctx_left c) @ m (inorder s) @ m (ctx_right c))"
    and "\<forall>q\<in>set (m (ctx_left c) @ m (ctx_right c)). \<not> overlaps rng q"
    and "m (inorder s) \<noteq> [] \<Longrightarrow> tree_ranges (Some sub) (mem T') = Some (m (inorder s))"
    and "sub \<noteq> root \<Longrightarrow> \<exists>n. t_heap (mem T') sub = Some n \<and> \<not> overlaps rng (m_range n)"
    and "locks (mem T') = {sub}"
proof -
  let ?V = "view (mem T')"
  from a have at: "tree_at T' {sub} (plug c s)" and bet: "between (rgs ?V (ctx_left c)) (kr rng) (rgs ?V (ctx_right c))"
    and node: "sub = root \<or> shape ?V (Some sub) s \<and> \<not> closed_overlaps (kr rng) (kr (rg4 ?V sub))"
    by (auto simp: acquired_def)
  show "contents T' = Some (m (ctx_left c) @ m (inorder s) @ m (ctx_right c))"
    using tree_at_contents [OF at] by (simp add: inorder_plug m_def)
  show "\<forall>q\<in>set (m (ctx_left c) @ m (ctx_right c)). \<not> overlaps rng q"
  proof
    fix q assume "q \<in> set (m (ctx_left c) @ m (ctx_right c))"
    then have "kr q \<in> set (rgs ?V (ctx_left c)) \<union> set (rgs ?V (ctx_right c))" by (auto simp: m_def)
    then show "\<not> overlaps rng q" using between_disjoint [OF bet] by (simp add: overlaps_closed)
  qed
  show "tree_ranges (Some sub) (mem T') = Some (m (inorder s))" if "m (inorder s) \<noteq> []"
  proof -
    from that have "s \<noteq> Leaf" by (auto simp: m_def)
    with a have "shape ?V (Some sub) s" by (auto elim: acquired_cases)
    then show ?thesis unfolding m_def by (rule tree_ranges_shape)
  qed
  show "\<exists>n. t_heap (mem T') sub = Some n \<and> \<not> overlaps rng (m_range n)" if "sub \<noteq> root"
  proof -
    from that node have shp: "shape ?V (Some sub) s" and no: "\<not> closed_overlaps (kr rng) (kr (rg4 ?V sub))" by blast+
    from shp obtain w where "?V sub = Some w" by (rule shape_Some)
    with no show ?thesis by (auto simp: view_def rg4_def overlaps_closed)
  qed
  show "locks (mem T') = {sub}" using at by (simp add: tree_at_def)
qed

text \<open>
  C27. \<open>prepare\<close> and \<open>acquire\<close> on a well-formed tree return: they keep what the tree contains, leave
  exactly the node of the locked range locked, and all ranges of the tree that overlap the
  acquired one lie below that node. The node itself does not overlap unless it is the root.
\<close>
theorem v4_acquire_locks_subtree:
  assumes "tree_ok T" "l \<le> r"
  shows "\<exists>lk T' ps sub qs. prepare T \<bind> acquire l r = Some (lk, T') \<and>
    m_lk_range lk = create_keyrange l r \<and> locks (mem T') = {m_subtree lk} \<and>
    contents T' = contents T \<and> contents T' = Some (ps @ sub @ qs) \<and>
    (\<forall>q\<in>set (ps @ qs). \<not> overlaps (create_keyrange l r) q) \<and>
    (sub \<noteq> [] \<longrightarrow> tree_ranges (Some (m_subtree lk)) (mem T') = Some sub) \<and>
    (m_subtree lk \<noteq> m_root T \<longrightarrow>
      (\<exists>n. t_heap (mem T') (m_subtree lk) = Some n \<and> \<not> overlaps (create_keyrange l r) (m_range n)))"
proof -
  let ?rng = "create_keyrange l r"
  from assms obtain t where t: "tree_at T {} t" and v: "closed_valid (l, r)"
    by (auto simp: tree_ok_def closed_valid_def)
  let ?P = "\<lambda>(lk, T'). \<exists>c s. acquired ?rng (m_root T) (m_subtree lk) T' c s \<and> m_lk_range lk = ?rng \<and>
    rgs (view (mem T')) (inorder (plug c s)) = rgs (view (mem T)) (inorder t)"
  have "gives (prepare T \<bind> acquire l r) ?P"
    unfolding gives_simps by (rule acquire_rule [OF t v]) blast
  from givesD [OF this] obtain p where p: "prepare T \<bind> acquire l r = Some p" "?P p" by (elim exE conjE)
  obtain lk T' where "p = (lk, T')" by (cases p)
  with p obtain c s where run: "prepare T \<bind> acquire l r = Some (lk, T')" "m_lk_range lk = ?rng"
    and a: "acquired ?rng (m_root T) (m_subtree lk) T' c s"
    and same: "rgs (view (mem T')) (inorder (plug c s)) = rgs (view (mem T)) (inorder t)" by auto
  from a have at: "tree_at T' {m_subtree lk} (plug c s)" by (simp add: acquired_def)
  let ?m = "map (rg4 (view (mem T')))"
  have "krs (?m (inorder (plug c s))) = krs (map (rg4 (view (mem T))) (inorder t))"
    using same by (simp add: comp_def)
  then have "?m (inorder (plug c s)) = map (rg4 (view (mem T))) (inorder t)"
    by (rule map_injective) (simp add: inj_def)
  then have "contents T' = contents T" using tree_at_contents [OF at] tree_at_contents [OF t] by simp
  with run acquired_contents [OF a] show ?thesis
    by (intro exI [where x = lk] exI [where x = T'] exI [where x = "?m (ctx_left c)"]
      exI [where x = "?m (inorder s)"] exI [where x = "?m (ctx_right c)"]) auto
qed

lemma create_tree_ok: "tree_ok (create_tree g)"
  using create_tree_at by (auto simp: tree_ok_def)

theorem v4_acquire_locks_subtree_witness:
  "\<exists>lk T'. prepare (create_tree (create_keyrange 0 0)) \<bind> acquire 3 8 = Some (lk, T') \<and>
    locks (mem T') = {m_subtree lk}"
  using v4_acquire_locks_subtree [OF create_tree_ok, of 3 8 "create_keyrange 0 0"] by auto

subsection \<open>Transactions\<close>

text \<open>
  C28. A transaction that inserts a valid range which overlaps none of a well-formed tree returns,
  and the range is in the tree, at its place in the order, with all others as they were.
\<close>
theorem v4_insert_correct:
  assumes "tree_ok T" "contents T = Some rs" "l \<le> r"
    and "\<forall>q\<in>set rs. \<not> overlaps (create_keyrange l r) q"
  shows "\<exists>T' ps qs. insert_transaction l r T = Some T' \<and> tree_ok T' \<and> rs = ps @ qs \<and>
    contents T' = Some (ps @ create_keyrange l r # qs) \<and>
    sorted_wrt closed_before (krs (ps @ create_keyrange l r # qs))"
proof -
  from assms(4) have "\<forall>q\<in>set rs. \<not> closed_overlaps (l, r) (kr q)" by (simp add: overlaps_closed)
  with assms(1-3) obtain T' ps qs where R: "insert_transaction l r T = Some T'" "tree_ok T'" "rs = ps @ qs"
      "contents T' = Some (ps @ create_keyrange l r # qs)"
    by (rule insert_transaction_rule)
  from R(2,4) have "ordered (krs (ps @ create_keyrange l r # qs))"
    by (rule tree_ok_ordered)
  with R show ?thesis unfolding ordered_def by blast
qed

theorem v4_insert_correct_witness:
  "\<exists>T'. insert_transaction 3 8 (create_tree (create_keyrange 0 0)) = Some T' \<and>
    contents T' = Some [create_keyrange 3 8]"
  using v4_insert_correct [OF create_tree_ok tree_at_contents [OF create_tree_at], of 3 8 "create_keyrange 0 0"]
  by auto

text \<open>
  C29. A transaction that removes a range of a well-formed tree returns, and exactly this range
  is gone.
\<close>
theorem v4_remove_correct:
  assumes "tree_ok T" "contents T = Some rs" "create_keyrange l r \<in> set rs"
  shows "\<exists>T' ps qs. remove_transaction l r T = Some T' \<and> tree_ok T' \<and>
    rs = ps @ create_keyrange l r # qs \<and> contents T' = Some (ps @ qs) \<and>
    create_keyrange l r \<notin> set (ps @ qs)"
proof -
  from assms(3) obtain ps qs where rs: "rs = ps @ create_keyrange l r # qs" by (auto dest: split_list)
  from assms(1,2) have ord: "ordered (krs rs)" by (rule tree_ok_ordered)
  then have lr: "l \<le> r" and bet: "between (krs ps) (l, r) (krs qs)"
    using between_ordered [of "krs ps" "(l, r)" "krs qs"] by (simp_all add: rs closed_valid_def)
  obtain T' where "remove_transaction l r T = Some T'" "tree_ok T'" "contents T' = Some (ps @ qs)"
    by (rule remove_transaction_rule [OF assms(1) assms(2) [unfolded rs] lr _ bet]) (simp add: create_keyrange_def)
  moreover have "distinct rs" using ordered_distinct [OF ord] by (simp add: distinct_map)
  then have "create_keyrange l r \<notin> set (ps @ qs)" by (simp add: rs)
  ultimately show ?thesis using rs by blast
qed

theorem v4_remove_correct_witness:
  "\<exists>T T'. insert_transaction 3 8 (create_tree (create_keyrange 0 0)) = Some T \<and>
    remove_transaction 3 8 T = Some T' \<and> contents T' = Some []"
proof -
  obtain T ps qs where T: "insert_transaction 3 8 (create_tree (create_keyrange 0 0)) = Some T" "tree_ok T"
      "[] = ps @ qs" "contents T = Some (ps @ create_keyrange 3 8 # qs)"
    using insert_transaction_rule [OF create_tree_ok tree_at_contents [OF create_tree_at], of 3 8 "create_keyrange 0 0"]
    by auto
  then show ?thesis using v4_remove_correct [OF T(2,4), of 3 8] by (auto simp: append_eq_Cons_conv Cons_eq_append_conv)
qed

text \<open>
  The right end of a removed range is not looked at: a removal of \<open>[l, r]\<close> takes out the
  range that starts at \<open>l\<close>, wherever that one ends, when \<open>[l, r]\<close> touches no other range.
\<close>
theorem v4_remove_ignores_right_end:
  assumes "tree_ok T" "contents T = Some (ps @ create_keyrange l r' # qs)" "l \<le> r"
    and "\<forall>q\<in>set (ps @ qs). \<not> overlaps (create_keyrange l r) q"
  shows "\<exists>T'. remove_transaction l r T = Some T' \<and> tree_ok T' \<and> contents T' = Some (ps @ qs)"
proof -
  from assms(1,2) have ord: "ordered (krs (ps @ create_keyrange l r' # qs))"
    by (rule tree_ok_ordered)
  then have near: "\<forall>p\<in>set (krs ps). closed_before p (l, r')" "\<forall>q\<in>set (krs qs). closed_before (l, r') q" "l \<le> r'"
    by (auto simp: closed_valid_def)
  have "between (krs ps) (l, r) (krs qs)"
    unfolding between_def
  proof (intro conjI ballI)
    fix q assume q: "q \<in> set (krs qs)"
    then have "closed_before (l, r') q" "closed_valid q" using near(2) ord by (auto simp: ordered_def)
    moreover have "\<not> closed_overlaps (l, r) q" using q assms(4) by (auto simp: overlaps_closed)
    ultimately show "closed_before (l, r) q" using near(3) assms(3) by (auto simp: closed_defs)
  qed (use near(1) in \<open>auto simp: closed_before_def\<close>)
  then show ?thesis
    using remove_transaction_rule [OF assms(1,2,3)] by (metis create_keyrange_def keyrange.select_convs(1))
qed

theorem v4_remove_ignores_right_end_witness:
  "\<exists>T T'. insert_transaction 3 8 (create_tree (create_keyrange 0 0)) = Some T \<and>
    remove_transaction 3 5 T = Some T' \<and> contents T' = Some []"
proof -
  obtain T ps qs where T: "insert_transaction 3 8 (create_tree (create_keyrange 0 0)) = Some T" "tree_ok T"
      "[] = ps @ qs" "contents T = Some (ps @ create_keyrange 3 8 # qs)"
    using insert_transaction_rule [OF create_tree_ok tree_at_contents [OF create_tree_at], of 3 8 "create_keyrange 0 0"]
    by auto
  then show ?thesis using v4_remove_ignores_right_end [OF T(2,4), of 5] by auto
qed

subsection \<open>Refinement\<close>

text \<open>A sequence of actions of the lock, each as a transaction on the tree.\<close>

fun transact :: "64 word range action \<Rightarrow> concurrent_tree \<Rightarrow> concurrent_tree option" where
  "transact (Acquire (l, r)) T = insert_transaction l r T"
| "transact (Release (l, r)) T = remove_transaction l r T"
| "transact Silent T = Some T"

primrec transact_all :: "64 word range action list \<Rightarrow> concurrent_tree \<Rightarrow> concurrent_tree option" where
  "transact_all [] T = Some T"
| "transact_all (a # as) T = transact a T \<bind> transact_all as"

text \<open>The tree stands for a set of held ranges.\<close>

definition stands_for :: "concurrent_tree \<Rightarrow> 64 word range set \<Rightarrow> bool" where
  "stands_for T R \<longleftrightarrow> tree_ok T \<and> (\<exists>rs. contents T = Some rs \<and> set (krs rs) = R)"

lemma kr_of_pair: "kr q = (l, r) \<longleftrightarrow> q = create_keyrange l r"
  by (auto simp: kr_def create_keyrange_def)

lemma transact_simulates:
  assumes "closed_spec R a R'" "stands_for T R"
  shows "\<exists>T'. transact a T = Some T' \<and> stands_for T' R'"
proof -
  from assms(2) obtain rs where rs: "tree_ok T" "contents T = Some rs" "set (krs rs) = R"
    by (auto simp: stands_for_def)
  show ?thesis
  proof (cases a)
    case (Acquire rg)
    obtain l r where lr: "rg = (l, r)" by (cases rg)
    from assms(1) have s: "l \<le> r" "\<forall>q\<in>set rs. \<not> closed_overlaps (l, r) (kr q)" "R' = insert (l, r) R"
      using rs(3) by (auto simp: Acquire lr closed_valid_def)
    obtain T' ps qs where "insert_transaction l r T = Some T'" "tree_ok T'" "rs = ps @ qs"
        "contents T' = Some (ps @ create_keyrange l r # qs)"
      using insert_transaction_rule [OF rs(1,2) s(1,2)] .
    then show ?thesis using rs(3) s(3) by (auto simp: Acquire lr stands_for_def)
  next
    case (Release rg)
    obtain l r where lr: "rg = (l, r)" by (cases rg)
    from assms(1) have s: "(l, r) \<in> R" "R' = R - {(l, r)}" by (auto simp: Release lr)
    then have "create_keyrange l r \<in> set rs" using rs(3) kr_of_pair by auto
    then obtain ps qs where rs': "rs = ps @ create_keyrange l r # qs" by (auto dest: split_list)
    have ord: "ordered (krs rs)" using rs(1,2) by (rule tree_ok_ordered)
    then have v: "l \<le> r" and bet: "between (krs ps) (l, r) (krs qs)"
      using between_ordered [of "krs ps" "(l, r)" "krs qs"] by (simp_all add: rs' closed_valid_def)
    obtain T' where "remove_transaction l r T = Some T'" "tree_ok T'" "contents T' = Some (ps @ qs)"
      by (rule remove_transaction_rule [OF rs(1) rs(2) [unfolded rs'] v _ bet]) (simp add: create_keyrange_def)
    moreover have "set (krs (ps @ qs)) = R'"
      using ordered_distinct [OF ord] rs(3) s(2) by (auto simp: rs')
    ultimately show ?thesis by (auto simp: Release lr stands_for_def)
  next
    case Silent
    with assms show ?thesis by auto
  qed
qed

lemma transact_all_simulates:
  assumes "closed_run R as R'" "stands_for T R"
  shows "\<exists>T'. transact_all as T = Some T' \<and> stands_for T' R'"
  using assms
proof (induction arbitrary: T rule: spec_run.induct)
  case nil
  then show ?case by simp
next
  case (cons R a R1 as R2)
  from transact_simulates [OF cons.hyps(1) cons.prems] obtain T1 where
    "transact a T = Some T1" "stands_for T1 R1" by blast
  with cons.IH [of T1] show ?case by auto
qed

text \<open>
  C26. Every run of the abstract lock over closed ranges, started with no range held, is a run of
  transactions on the new tree that returns, with the tree standing for the held ranges at the end.
\<close>
theorem v4_refines_lock:
  assumes "closed_run {} as R"
  shows "\<exists>T. transact_all as (create_tree g) = Some T \<and> stands_for T R"
proof (rule transact_all_simulates [OF assms])
  show "stands_for (create_tree g) {}"
    using create_tree_ok tree_at_contents [OF create_tree_at] by (simp add: stands_for_def)
qed

theorem v4_refines_lock_witness:
  "\<exists>T. transact_all [Acquire (3, 8), Acquire (10, 12), Release (3, 8)] (create_tree (create_keyrange 0 0)) = Some T \<and>
    stands_for T {(10, 12)}"
proof -
  have "closed_run ({} :: 64 word range set) [Acquire (3, 8), Acquire (10, 12), Release (3, 8)] {(10, 12)}"
    by (rule spec_run.cons [where R' = "{(3, 8)}"], simp add: closed_valid_def,
      rule spec_run.cons [where R' = "{(10, 12), (3, 8)}"], simp add: closed_defs,
      rule spec_run.cons [where R' = "{(10, 12)}"], auto intro: spec_run.nil)
  then show ?thesis by (rule v4_refines_lock)
qed

subsection \<open>Rotations and round trips\<close>

text \<open>
  \<open>maybe_rebalance\<close> on a locked node over a subtree of unlocked nodes returns, whatever the
  depth estimates are: it hands back the root of a subtree with the same ranges in the same order,
  and of the subtree this root is the one node that is locked.
\<close>
theorem v4_rebalance_keeps_order:
  assumes "shape (view \<sigma>) (Some x) t" "distinct (inorder t)" "set_tree t \<inter> locks \<sigma> = {x}"
  shows "\<exists>y \<sigma>'. maybe_rebalance x \<sigma> = Some (y, \<sigma>') \<and> y \<in> set_tree t \<and>
    tree_ranges (Some y) \<sigma>' = tree_ranges (Some x) \<sigma> \<and> locks \<sigma>' = insert y (locks \<sigma> - {x}) \<and>
    (\<forall>a. a \<notin> set_tree t \<longrightarrow> view \<sigma>' a = view \<sigma> a)"
proof -
  let ?P = "\<lambda>(y, \<sigma>'). y \<in> set_tree t \<and> tree_ranges (Some y) \<sigma>' = tree_ranges (Some x) \<sigma> \<and>
    locks \<sigma>' = insert y (locks \<sigma> - {x}) \<and> (\<forall>a. a \<notin> set_tree t \<longrightarrow> view \<sigma>' a = view \<sigma> a)"
  have abs: "abs4 \<sigma> = (view \<sigma>, locks \<sigma>, t_brk \<sigma>)" by (simp add: abs4_def)
  have "gives (maybe_rebalance x \<sigma>) ?P"
  proof (rule maybe_rebalance_rule [OF abs assms], unfold prod.case)
    fix y \<sigma>' V' t'
    assume a: "abs4 \<sigma>' = (V', insert y (locks \<sigma> - {x}), t_brk \<sigma>)" "y \<in> set_tree t"
      "same_tree (view \<sigma>) t V' (Some y) t'"
    then have V': "V' = view \<sigma>'" "locks \<sigma>' = insert y (locks \<sigma> - {x})" by (auto simp: abs4_def)
    from a(3) have same: "shape (view \<sigma>') (Some y) t'" "inorder t' = inorder t" "vdata (view \<sigma>') = vdata (view \<sigma>)"
      "\<forall>b. b \<notin> set_tree t \<longrightarrow> view \<sigma>' b = view \<sigma> b" by (auto simp: same_tree_def V')
    have "tree_ranges (Some y) \<sigma>' = tree_ranges (Some x) \<sigma>"
      using tree_ranges_shape [OF same(1)] tree_ranges_shape [OF assms(1)] same(2) vdata_rg [OF same(3)] by simp
    with a(2) V'(2) same(4) show "y \<in> set_tree t \<and> tree_ranges (Some y) \<sigma>' = tree_ranges (Some x) \<sigma> \<and>
      locks \<sigma>' = insert y (locks \<sigma> - {x}) \<and> (\<forall>a. a \<notin> set_tree t \<longrightarrow> view \<sigma>' a = view \<sigma> a)" by simp
  qed
  from givesD [OF this] show ?thesis by (elim exE conjE) (auto split: prod.splits)
qed

text \<open>A left chain of three nodes, the middle one and the last unlocked.\<close>

definition chain_node :: "keyrange \<Rightarrow> bool \<Rightarrow> addr4 option \<Rightarrow> 32 word \<Rightarrow> treenode" where
  "chain_node rng locked p est = \<lparr>m_mutex = locked, m_range = rng,
     m_left_child = \<lparr>ptr = p, depth_est = est\<rparr>, m_right_child = null_child, m_is_root = False, m_is_empty = False\<rparr>"

definition left_chain :: memory4 where
  "left_chain = \<lparr>t_heap = [0 \<mapsto> chain_node (create_keyrange 7 9) True (Some 1) 3,
     1 \<mapsto> chain_node (create_keyrange 4 5) False (Some 2) 1, 2 \<mapsto> chain_node (create_keyrange 1 2) False None 0],
     t_brk = 3\<rparr>"

theorem v4_rebalance_keeps_order_witness:
  "\<exists>y \<sigma>'. maybe_rebalance 0 left_chain = Some (y, \<sigma>') \<and>
    tree_ranges (Some y) \<sigma>' = tree_ranges (Some 0) left_chain"
proof -
  have shp: "shape (view left_chain) (Some 0) (Node (Node (Node Leaf 2 Leaf) 1 Leaf) 0 Leaf)"
    by (simp add: left_chain_def view_def chain_node_def vnode_of_def child_def null_child_def)
  have "locks left_chain = {0}"
    by (auto simp: left_chain_def locks_def chain_node_def split: if_splits)
  then show ?thesis using v4_rebalance_keeps_order [OF shp] by auto
qed

text \<open>
  Inserting a range and removing it again gives back what the tree contained.
\<close>
theorem v4_insert_remove:
  assumes "tree_ok T" "contents T = Some rs" "l \<le> r"
    and "\<forall>q\<in>set rs. \<not> overlaps (create_keyrange l r) q"
  shows "\<exists>T'. insert_transaction l r T \<bind> remove_transaction l r = Some T' \<and> tree_ok T' \<and>
    contents T' = Some rs"
proof -
  from assms(4) have "\<forall>q\<in>set rs. \<not> closed_overlaps (l, r) (kr q)" by (simp add: overlaps_closed)
  with assms(1-3) obtain T1 ps qs where R: "insert_transaction l r T = Some T1" "tree_ok T1" "rs = ps @ qs"
      "contents T1 = Some (ps @ create_keyrange l r # qs)"
    by (rule insert_transaction_rule)
  from R(2,4) have "ordered (krs (ps @ create_keyrange l r # qs))" by (rule tree_ok_ordered)
  then have "between (krs ps) (l, r) (krs qs)" using between_ordered [of "krs ps" "(l, r)" "krs qs"] by simp
  then obtain T2 where "remove_transaction l r T1 = Some T2" "tree_ok T2" "contents T2 = Some (ps @ qs)"
    by (rule_tac remove_transaction_rule [OF R(2,4) assms(3)]) (simp_all add: create_keyrange_def)
  with R show ?thesis by simp
qed

theorem v4_insert_remove_witness:
  "\<exists>T'. insert_transaction 3 8 (create_tree (create_keyrange 0 0)) \<bind> remove_transaction 3 8 = Some T' \<and>
    contents T' = Some []"
  using v4_insert_remove [OF create_tree_ok tree_at_contents [OF create_tree_at], of 3 8 "create_keyrange 0 0"]
  by auto

text \<open>
  \<open>is_empty\<close> says whether the tree contains a range, also after the last one was removed from
  the root, which stays in the tree marked as empty.
\<close>
theorem v4_is_empty_correct:
  assumes "tree_ok T"
  shows "tree_is_empty T = Some (contents T = Some [])"
proof -
  from assms obtain t where t: "tree_at T {} t" by (auto simp: tree_ok_def)
  then obtain v where v: "view (mem T) (m_root T) = Some v"
      "if v_empty v then t = Leaf \<and> v_child v = (\<lambda>_. None) else shape (view (mem T)) (Some (m_root T)) t"
    by (auto simp: tree_at_def tree_inv_def)
  then have "v_empty v \<longleftrightarrow> inorder t = []" by (cases t) (auto split: if_splits)
  moreover obtain n where "t_heap (mem T) (m_root T) = Some n" "v = vnode_of n"
    using v(1) by (auto simp: view_def)
  ultimately show ?thesis using tree_at_contents [OF t] by (simp add: tree_is_empty_def)
qed

theorem v4_is_empty_correct_witness: "tree_is_empty (create_tree (create_keyrange 0 0)) = Some True"
  using v4_is_empty_correct [OF create_tree_ok, of "create_keyrange 0 0"] tree_at_contents [OF create_tree_at]
  by simp

end
