(* ===== verification/V4_Threads.thy ===== *)
theory V4_Threads
  imports V4_System
begin

text \<open>
  Several threads on one range tree: the operations of \<open>treenode.cc\<close> and \<open>concurrent_tree.cc\<close> step by
  step, from one acquisition of a mutex to the next. A step that finds the mutex it wants locked
  leaves the state as it is. Behind an acquisition a step runs on to the next lock request; the
  unlocking on the way back out of a recursion is a step of its own for each node. The nodes a
  rotation frees are unlocked in the step that sets the pointer to the new root, since no other
  thread can reach them before: their parent is locked.
\<close>

subsection \<open>Data\<close>

text \<open>Who asked for a rebalanced child: \<open>find_node_with_overlapping_child\<close> or \<open>insert\<close>.\<close>

datatype job4 = Finding | Adding

datatype pc4 =
    Idle4
  | Preparing
  | Prepared
  | Acquiring
  | Find "comparison option"
  | Balance job4 side addr4
  | Balance_Grandchild job4 side addr4 side addr4
  | Balanced job4 side addr4
  | Acquired
  | Insert_Start
  | Insert_Below
  | Insert_Return
  | Remove_At
  | Extreme side nat
  | Extreme_Return side nat nat
  | Remove_Return
  | Releasing
  | Crashed4

text \<open>
  \<open>frames\<close> are the nodes of the calls a thread is in, the innermost first, each with the side of
  its parent it hangs on; \<open>op_range\<close> is the range of the operation and \<open>after4\<close> the place behind it.
\<close>

record locals4 =
  pc4 :: pc4
  lk :: locked_keyrange
  op_range :: keyrange
  frames :: "(side \<times> addr4) list"
  after4 :: pc4

type_synonym result4 = "(memory4 \<times> locals4) option"

definition this4 :: "locals4 \<Rightarrow> addr4" where
  "this4 l = snd (hd (frames l))"

definition fresh_locals4 :: locals4 where
  "fresh_locals4 = \<lparr>pc4 = Idle4, lk = \<lparr>m_lk_range = get_infinite_range, m_subtree = 0\<rparr>,
     op_range = get_infinite_range, frames = [], after4 = Prepared\<rparr>"

subsection \<open>Locking\<close>

definition is_locked :: "addr4 option \<Rightarrow> memory4 \<Rightarrow> bool" where
  "is_locked p \<sigma> = (case p of None \<Rightarrow> False
     | Some a \<Rightarrow> (case t_heap \<sigma> a of None \<Rightarrow> False | Some n \<Rightarrow> m_mutex n))"

text \<open>\<open>get_locked\<close> on the child \<open>d\<close> of \<open>a\<close>, going on with \<open>k\<close>; it waits while the child is locked.\<close>

definition lock_child ::
  "side \<Rightarrow> addr4 \<Rightarrow> memory4 \<Rightarrow> locals4 \<Rightarrow> (addr4 option \<Rightarrow> memory4 \<Rightarrow> result4) \<Rightarrow> result4" where
  "lock_child d a \<sigma> l k = do {
     n \<leftarrow> t_heap \<sigma> a;
     if is_locked (ptr (child d n)) \<sigma> then Some (\<sigma>, l)
     else do {
       (cp, \<sigma>) \<leftarrow> get_locked d a \<sigma>;
       k cp \<sigma> } }"

definition prepare_step :: "addr4 \<Rightarrow> memory4 \<Rightarrow> locals4 \<Rightarrow> result4" where
  "prepare_step root \<sigma> l =
     (if is_locked (Some root) \<sigma> then Some (\<sigma>, l)
      else do {
        \<sigma> \<leftarrow> mutex_lock root \<sigma>;
        Some (\<sigma>, l\<lparr>lk := \<lparr>m_lk_range = get_infinite_range, m_subtree = root\<rparr>, pc4 := Prepared\<rparr>) })"

definition release_step4 :: "memory4 \<Rightarrow> locals4 \<Rightarrow> result4" where
  "release_step4 \<sigma> l = do {
     \<sigma> \<leftarrow> mutex_unlock (m_subtree (lk l)) \<sigma>;
     Some (\<sigma>, l\<lparr>pc4 := Idle4\<rparr>) }"

subsection \<open>Search\<close>

definition end_acquire :: "addr4 \<Rightarrow> locals4 \<Rightarrow> locals4" where
  "end_acquire subtree l =
     l\<lparr>lk := \<lparr>m_lk_range = op_range l, m_subtree = subtree\<rparr>, frames := [], pc4 := Acquired\<rparr>"

definition acquire_step4 :: "addr4 \<Rightarrow> memory4 \<Rightarrow> locals4 \<Rightarrow> result4" where
  "acquire_step4 root \<sigma> l = do {
     n \<leftarrow> t_heap \<sigma> root;
     Some (\<sigma>, if m_is_empty n \<or> range_overlaps (op_range l) n then end_acquire root l
              else l\<lparr>frames := [(Left_Side, root)], pc4 := Find None\<rparr>) }"

definition find_step4 :: "comparison option \<Rightarrow> memory4 \<Rightarrow> locals4 \<Rightarrow> result4" where
  "find_step4 cmp_hint \<sigma> l = do {
     n \<leftarrow> t_heap \<sigma> (this4 l);
     let c = (case cmp_hint of Some h \<Rightarrow> h | None \<Rightarrow> compare (op_range l) (m_range n));
     let d = (if c = LESS_THAN then Left_Side else Right_Side);
     lock_child d (this4 l) \<sigma> l (\<lambda>cp \<sigma>. case cp of
         None \<Rightarrow> Some (\<sigma>, end_acquire (this4 l) l)
       | Some b \<Rightarrow> Some (\<sigma>, l\<lparr>pc4 := Balance Finding d b\<rparr>)) }"

subsection \<open>Rebalancing\<close>

definition heavy_side :: "treenode \<Rightarrow> side option" where
  "heavy_side n =
     (if imbalanced Left_Side IMBALANCE_THRESHOLD n then Some Left_Side
      else if imbalanced Right_Side IMBALANCE_THRESHOLD n then Some Right_Side else None)"

text \<open>The end of \<open>maybe_rebalance\<close> on \<open>b\<close> and of \<open>lock_and_rebalance\<close> on its parent.\<close>

definition end_rotation ::
  "job4 \<Rightarrow> side \<Rightarrow> addr4 \<Rightarrow> addr4 option \<Rightarrow> addr4 \<Rightarrow> memory4 \<Rightarrow> locals4 \<Rightarrow> result4" where
  "end_rotation w d b cp new_root \<sigma> l = do {
     \<sigma> \<leftarrow> unlock_old_roots cp b new_root \<sigma>;
     \<sigma> \<leftarrow> set_child d (this4 l) (Some new_root) \<sigma>;
     Some (\<sigma>, l\<lparr>pc4 := Balanced w d new_root\<rparr>) }"

definition balance_step :: "job4 \<Rightarrow> side \<Rightarrow> addr4 \<Rightarrow> memory4 \<Rightarrow> locals4 \<Rightarrow> result4" where
  "balance_step w d b \<sigma> l = do {
     n \<leftarrow> t_heap \<sigma> b;
     case heavy_side n of
       None \<Rightarrow> end_rotation w d b None b \<sigma> l
     | Some e \<Rightarrow> lock_child e b \<sigma> l (\<lambda>cp \<sigma>. do {
         c \<leftarrow> cp;
         m \<leftarrow> t_heap \<sigma> c;
         if imbalanced (other e) 0 m
         then Some (\<sigma>, l\<lparr>pc4 := Balance_Grandchild w d b e c\<rparr>)
         else do {
           \<sigma> \<leftarrow> rotate_single e b c \<sigma>;
           end_rotation w d b (Some c) c \<sigma> l } }) }"

definition balance_grandchild_step ::
  "job4 \<Rightarrow> side \<Rightarrow> addr4 \<Rightarrow> side \<Rightarrow> addr4 \<Rightarrow> memory4 \<Rightarrow> locals4 \<Rightarrow> result4" where
  "balance_grandchild_step w d b e c \<sigma> l =
     lock_child (other e) c \<sigma> l (\<lambda>gp \<sigma>. do {
       g \<leftarrow> gp;
       \<sigma> \<leftarrow> rotate_double e b c g \<sigma>;
       end_rotation w d b (Some c) g \<sigma> l })"

definition balanced_step :: "job4 \<Rightarrow> side \<Rightarrow> addr4 \<Rightarrow> memory4 \<Rightarrow> locals4 \<Rightarrow> result4" where
  "balanced_step w d b \<sigma> l = (case w of
       Adding \<Rightarrow> Some (\<sigma>, l\<lparr>frames := (d, b) # frames l, pc4 := Insert_Below\<rparr>)
     | Finding \<Rightarrow> do {
         n \<leftarrow> t_heap \<sigma> b;
         let c = compare (op_range l) (m_range n);
         if c = EQUALS \<or> c = OVERLAPS
         then do {
           \<sigma> \<leftarrow> mutex_unlock b \<sigma>;
           Some (\<sigma>, end_acquire (this4 l) l) }
         else do {
           \<sigma> \<leftarrow> mutex_unlock (this4 l) \<sigma>;
           Some (\<sigma>, l\<lparr>frames := [(d, b)], pc4 := Find (Some c)\<rparr>) } })"

subsection \<open>Insertion\<close>

definition insert_start_step :: "memory4 \<Rightarrow> locals4 \<Rightarrow> result4" where
  "insert_start_step \<sigma> l = do {
     n \<leftarrow> t_heap \<sigma> (m_subtree (lk l));
     if m_is_empty n
     then do {
       \<sigma> \<leftarrow> update_node (m_subtree (lk l)) (set_range_and_txnid (op_range l)) \<sigma>;
       Some (\<sigma>, l\<lparr>pc4 := after4 l\<rparr>) }
     else Some (\<sigma>, l\<lparr>frames := [(Left_Side, m_subtree (lk l))], pc4 := Insert_Below\<rparr>) }"

definition insert_below_step :: "memory4 \<Rightarrow> locals4 \<Rightarrow> result4" where
  "insert_below_step \<sigma> l = do {
     n \<leftarrow> t_heap \<sigma> (this4 l);
     let d = (if compare (op_range l) (m_range n) = LESS_THAN then Left_Side else Right_Side);
     lock_child d (this4 l) \<sigma> l (\<lambda>cp \<sigma>. case cp of
         None \<Rightarrow> do {
           let (b, \<sigma>) = alloc (op_range l) \<sigma>;
           \<sigma> \<leftarrow> set_child d (this4 l) (Some b) \<sigma>;
           Some (\<sigma>, l\<lparr>pc4 := Insert_Return\<rparr>) }
       | Some b \<Rightarrow> Some (\<sigma>, l\<lparr>pc4 := Balance Adding d b\<rparr>)) }"

text \<open>On the way back every node but the first is unlocked.\<close>

definition insert_return_step :: "memory4 \<Rightarrow> locals4 \<Rightarrow> result4" where
  "insert_return_step \<sigma> l =
     (if length (frames l) \<le> 1 then Some (\<sigma>, l\<lparr>frames := [], pc4 := after4 l\<rparr>)
      else do {
        \<sigma> \<leftarrow> mutex_unlock (this4 l) \<sigma>;
        Some (\<sigma>, l\<lparr>frames := tl (frames l)\<rparr>) })"

subsection \<open>Removal\<close>

text \<open>\<open>remove_root_of_subtree\<close> on a leaf, and the caller setting its pointer to null.\<close>

definition remove_leaf_step :: "memory4 \<Rightarrow> locals4 \<Rightarrow> result4" where
  "remove_leaf_step \<sigma> l = do {
     \<sigma> \<leftarrow> remove_leaf (this4 l) \<sigma>;
     case tl (frames l) of
       [] \<Rightarrow> Some (\<sigma>, l\<lparr>frames := [], pc4 := after4 l\<rparr>)
     | (d, p) # fs \<Rightarrow> do {
         \<sigma> \<leftarrow> set_child (fst (hd (frames l))) p None \<sigma>;
         Some (\<sigma>, l\<lparr>frames := (d, p) # fs, pc4 := Remove_Return\<rparr>) } }"

definition remove_at_step :: "memory4 \<Rightarrow> locals4 \<Rightarrow> result4" where
  "remove_at_step \<sigma> l = do {
     n \<leftarrow> t_heap \<sigma> (this4 l);
     let c = compare (op_range l) (m_range n);
     if c = EQUALS
     then if ptr (m_left_child n) = None \<and> ptr (m_right_child n) = None
          then remove_leaf_step \<sigma> l
          else (let d = (if ptr (m_left_child n) \<noteq> None then Left_Side else Right_Side)
                in lock_child d (this4 l) \<sigma> l (\<lambda>cp \<sigma>. do {
                     b \<leftarrow> cp;
                     Some (\<sigma>, l\<lparr>frames := (d, b) # frames l, pc4 := Extreme (other d) 0\<rparr>) }))
     else if c = OVERLAPS then None
     else (let d = (if c = LESS_THAN then Left_Side else Right_Side)
           in lock_child d (this4 l) \<sigma> l (\<lambda>cp \<sigma>. do {
                b \<leftarrow> cp;
                Some (\<sigma>, l\<lparr>frames := (d, b) # frames l\<rparr>) })) }"

text \<open>\<open>find_child_at_extreme\<close>, in its \<open>n\<close>-th recursive call.\<close>

definition extreme_step :: "side \<Rightarrow> nat \<Rightarrow> memory4 \<Rightarrow> locals4 \<Rightarrow> result4" where
  "extreme_step direction n \<sigma> l =
     lock_child direction (this4 l) \<sigma> l (\<lambda>cp \<sigma>. case cp of
         Some c \<Rightarrow> Some (\<sigma>, l\<lparr>frames := (direction, c) # frames l, pc4 := Extreme direction (n + 1)\<rparr>)
       | None \<Rightarrow> Some (\<sigma>, l\<lparr>pc4 := Extreme_Return direction n 0\<rparr>))"

text \<open>
  The returns of \<open>find_child_at_extreme\<close>, of which \<open>k\<close> have unlocked their child, and the code behind
  the outermost one. The replacement and its parent are the first two frames.
\<close>

definition extreme_return_step :: "side \<Rightarrow> nat \<Rightarrow> nat \<Rightarrow> memory4 \<Rightarrow> locals4 \<Rightarrow> result4" where
  "extreme_return_step direction n k \<sigma> l =
     (if k < n
      then do {
        \<sigma> \<leftarrow> mutex_unlock (snd (frames l ! k)) \<sigma>;
        Some (\<sigma>, l\<lparr>pc4 := Extreme_Return direction n (k + 1)\<rparr>) }
      else do {
        \<sigma> \<leftarrow> splice_replacement (other direction) (snd (frames l ! (n + 1))) (snd (frames l ! n))
              (this4 l) (snd (frames l ! 1)) \<sigma>;
        Some (\<sigma>, l\<lparr>frames := drop (n + 1) (frames l), pc4 := Remove_Return\<rparr>) })"

text \<open>The way back through \<open>remove\<close>: the child is unlocked and its pointer set again.\<close>

definition remove_return_step :: "memory4 \<Rightarrow> locals4 \<Rightarrow> result4" where
  "remove_return_step \<sigma> l = (case frames l of
       (d, a) # (d', p) # fs \<Rightarrow> do {
         \<sigma> \<leftarrow> mutex_unlock a \<sigma>;
         \<sigma> \<leftarrow> set_child d p (Some a) \<sigma>;
         Some (\<sigma>, l\<lparr>frames := (d', p) # fs\<rparr>) }
     | _ \<Rightarrow> Some (\<sigma>, l\<lparr>frames := [], pc4 := after4 l\<rparr>))"

subsection \<open>Steps and calls\<close>

fun code_step4 :: "addr4 \<Rightarrow> memory4 \<Rightarrow> locals4 \<Rightarrow> pc4 \<Rightarrow> result4" where
  "code_step4 root \<sigma> l Preparing = prepare_step root \<sigma> l"
| "code_step4 root \<sigma> l Acquiring = acquire_step4 root \<sigma> l"
| "code_step4 root \<sigma> l (Find hint) = find_step4 hint \<sigma> l"
| "code_step4 root \<sigma> l (Balance w d b) = balance_step w d b \<sigma> l"
| "code_step4 root \<sigma> l (Balance_Grandchild w d b e c) = balance_grandchild_step w d b e c \<sigma> l"
| "code_step4 root \<sigma> l (Balanced w d b) = balanced_step w d b \<sigma> l"
| "code_step4 root \<sigma> l Insert_Start = insert_start_step \<sigma> l"
| "code_step4 root \<sigma> l Insert_Below = insert_below_step \<sigma> l"
| "code_step4 root \<sigma> l Insert_Return = insert_return_step \<sigma> l"
| "code_step4 root \<sigma> l Remove_At = remove_at_step \<sigma> l"
| "code_step4 root \<sigma> l (Extreme d n) = extreme_step d n \<sigma> l"
| "code_step4 root \<sigma> l (Extreme_Return d n k) = extreme_return_step d n k \<sigma> l"
| "code_step4 root \<sigma> l Remove_Return = remove_return_step \<sigma> l"
| "code_step4 root \<sigma> l Releasing = release_step4 \<sigma> l"
| "code_step4 root \<sigma> l _ = Some (\<sigma>, l)"

definition step4 :: "addr4 \<Rightarrow> memory4 \<Rightarrow> locals4 \<Rightarrow> memory4 \<times> locals4" where
  "step4 root \<sigma> l = (case code_step4 root \<sigma> l (pc4 l) of
     Some r \<Rightarrow> r | None \<Rightarrow> (\<sigma>, l\<lparr>pc4 := Crashed4\<rparr>))"

record system4 =
  tree4 :: concurrent_tree
  threads4 :: "nat \<Rightarrow> locals4"

datatype event4 =
    Call_Prepare nat
  | Call_Acquire nat "64 word" "64 word"
  | Call_Insert nat keyrange
  | Call_Remove nat keyrange
  | Call_Release nat
  | Step4 nat

text \<open>\<open>ready4\<close>: a thread holds a locked key range and is in none of its operations.\<close>

definition ready4 :: "locals4 \<Rightarrow> bool" where
  "ready4 l \<longleftrightarrow> pc4 l = Prepared \<or> pc4 l = Acquired"

definition set_thread4 :: "nat \<Rightarrow> locals4 \<Rightarrow> system4 \<Rightarrow> system4" where
  "set_thread4 t l S = S\<lparr>threads4 := (threads4 S)(t := l)\<rparr>"

fun do_event4 :: "event4 \<Rightarrow> system4 \<Rightarrow> system4" where
  "do_event4 (Call_Prepare t) S =
     (if pc4 (threads4 S t) = Idle4 then set_thread4 t ((threads4 S t)\<lparr>pc4 := Preparing\<rparr>) S else S)"
| "do_event4 (Call_Acquire t lo hi) S =
     (if pc4 (threads4 S t) = Prepared
      then set_thread4 t ((threads4 S t)\<lparr>op_range := create_keyrange lo hi, pc4 := Acquiring\<rparr>) S else S)"
| "do_event4 (Call_Insert t rng) S = (let l = threads4 S t in
     if ready4 l then set_thread4 t (l\<lparr>op_range := rng, after4 := pc4 l, pc4 := Insert_Start\<rparr>) S else S)"
| "do_event4 (Call_Remove t rng) S = (let l = threads4 S t in
     if ready4 l
     then set_thread4 t (l\<lparr>op_range := rng, after4 := pc4 l, frames := [(Left_Side, m_subtree (lk l))],
       pc4 := Remove_At\<rparr>) S else S)"
| "do_event4 (Call_Release t) S =
     (if ready4 (threads4 S t) then set_thread4 t ((threads4 S t)\<lparr>pc4 := Releasing\<rparr>) S else S)"
| "do_event4 (Step4 t) S = (let (\<sigma>, l) = step4 (m_root (tree4 S)) (mem (tree4 S)) (threads4 S t)
     in set_thread4 t l (S\<lparr>tree4 := (tree4 S)\<lparr>mem := \<sigma>\<rparr>\<rparr>))"

definition init_system4 :: "keyrange \<Rightarrow> system4" where
  "init_system4 garbage = \<lparr>tree4 = create_tree garbage, threads4 = \<lambda>_. fresh_locals4\<rparr>"

definition run_events4 :: "event4 list \<Rightarrow> system4 \<Rightarrow> system4" where
  "run_events4 evs S = fold do_event4 evs S"

end
