(* ===== verification/V4_Subtrees.thy ===== *)
theory V4_Subtrees
  imports V4_System
begin

text \<open>
  Where a node stands in a tree: the set \<open>desc t x\<close> of the nodes of its subtree, and what it means
  that a range belongs below it (\<open>placed\<close>). Rotations, insertions and removals elsewhere in the tree
  keep both.
\<close>

subsection \<open>The nodes below a node\<close>

fun desc :: "'a tree \<Rightarrow> 'a \<Rightarrow> 'a set" where
  "desc Leaf x = {}"
| "desc (Node l a r) x = (if x = a then set_tree (Node l a r) else desc l x \<union> desc r x)"

lemma desc_mk:
  "desc (mk d s a s') x = (if x = a then insert a (set_tree s \<union> set_tree s') else desc s x \<union> desc s' x)"
  by (cases d) (auto simp: mk_def)

lemma desc_subset: "desc t x \<subseteq> set_tree t"
  by (induction t) auto

lemma desc_self: "x \<in> set_tree t \<Longrightarrow> x \<in> desc t x"
  by (induction t) auto

lemma desc_empty [simp]: "x \<notin> set_tree t \<Longrightarrow> desc t x = {}"
  by (induction t) auto

lemma desc_in: "a \<in> desc t x \<Longrightarrow> x \<in> set_tree t"
  by (induction t) (auto split: if_splits)

lemma desc_trans: "distinct (inorder t) \<Longrightarrow> b \<in> desc t x \<Longrightarrow> a \<in> desc t b \<Longrightarrow> a \<in> desc t x"
proof (induction t)
  case (Node l c r)
  then show ?case using desc_subset [of l b] desc_subset [of r b] desc_in [of a l b] desc_in [of a r b]
      desc_subset [of l x] desc_subset [of r x] by (auto split: if_splits)
qed simp

text \<open>A context contributes its own nodes, and the plugged tree to the nodes on the way to it.\<close>

fun ctx_desc :: "'a ctx \<Rightarrow> 'a \<Rightarrow> 'a set" where
  "ctx_desc [] x = {}"
| "ctx_desc ((d, a, u) # c) x =
     (if x = a then insert a (set_tree u \<union> set (ctx_left c @ ctx_right c)) else ctx_desc c x \<union> desc u x)"

lemma ctx_desc_subset: "ctx_desc c x \<subseteq> set (ctx_left c @ ctx_right c)"
proof (induction c)
  case (Cons f c)
  obtain d a u where f: "f = (d, a, u)" by (cases f)
  show ?case using Cons desc_subset [of u x] by (cases d) (auto simp: f split: if_splits)
qed simp

definition spine_of :: "'a ctx \<Rightarrow> 'a set" where
  "spine_of c = (\<lambda>(d, a, u). a) ` set c"

lemma spine_of_simps [simp]: "spine_of [] = {}" "spine_of ((d, a, u) # c) = insert a (spine_of c)"
  by (simp_all add: spine_of_def)

lemma spine_of_ctx: "spine_of c \<subseteq> set (ctx_left c @ ctx_right c)"
  by (induction c) (auto split: side.splits)

lemma desc_plug:
  "desc (plug c s) x = ctx_desc c x \<union> desc s x \<union> (if x \<in> spine_of c then set_tree s else {})"
proof (induction c)
  case (Cons f c)
  obtain d a u where "f = (d, a, u)" by (cases f)
  with Cons show ?case using desc_subset [of s x] by (auto simp: desc_mk set_plug)
qed simp

lemma desc_plug_in:
  assumes "distinct (inorder (plug c s))" "x \<in> set_tree s"
  shows "desc (plug c s) x = desc s x"
proof -
  have out: "x \<notin> set (ctx_left c @ ctx_right c)" using assms by (auto simp: inorder_plug)
  then have "ctx_desc c x = {}"
  proof (induction c)
    case (Cons f c)
    obtain d a u where "f = (d, a, u)" by (cases f)
    with Cons show ?case by (cases d) auto
  qed simp
  moreover have "x \<notin> spine_of c" using out spine_of_ctx [of c] by blast
  ultimately show ?thesis by (simp add: desc_plug)
qed

text \<open>The tree seen from one of its nodes.\<close>

lemma focus_node:
  assumes "x \<in> set_tree t"
  obtains c s s' where "t = plug c (mk d s x s')"
  using assms
proof (induction t arbitrary: thesis)
  case (Node l a r)
  then consider "x = a" | "x \<in> set_tree l" | "x \<in> set_tree r" by auto
  then show ?case
  proof cases
    case 1
    show ?thesis
    proof (cases d)
      case Left_Side
      with 1 show ?thesis by (intro Node.prems(1) [of "[]" l r]) (simp add: mk_def)
    next
      case Right_Side
      with 1 show ?thesis by (intro Node.prems(1) [of "[]" r l]) (simp add: mk_def)
    qed
  next
    case 2
    then obtain c s s' where "l = plug c (mk d s x s')" using Node.IH(1) by metis
    then show ?thesis by (intro Node.prems(1) [of "(Left_Side, a, r) # c" s s']) (simp add: mk_def)
  next
    case 3
    then obtain c s s' where "r = plug c (mk d s x s')" using Node.IH(2) by metis
    then show ?thesis by (intro Node.prems(1) [of "(Right_Side, a, l) # c" s s']) (simp add: mk_def)
  qed
qed simp

lemma desc_focus:
  assumes "distinct (inorder (plug c (mk d s x s')))"
  shows "desc (plug c (mk d s x s')) x = insert x (set_tree s \<union> set_tree s')"
  using desc_plug_in [OF assms, of x] by (simp add: desc_mk)

lemma shape_focus:
  assumes "shape V p (plug c s)" "s \<noteq> Leaf"
  obtains y where "shape V (Some y) s" "y \<in> set_tree s"
  using shape_plug_sub [OF assms] shape_root_in by metis

subsection \<open>The order around a subtree\<close>

lemma outside_side:
  assumes dis: "distinct (inorder t)" and ord: "ordered (rgs V (inorder t))" and a: "a \<in> set_tree t" "a \<notin> desc t x"
  shows "(\<forall>z\<in>desc t x. closed_before (kr (rg4 V a)) (kr (rg4 V z))) \<or>
    (\<forall>z\<in>desc t x. closed_before (kr (rg4 V z)) (kr (rg4 V a)))"
proof (cases "x \<in> set_tree t")
  case True
  then obtain c s s' where t: "t = plug c (mk Left_Side s x s')" by (rule focus_node)
  let ?u = "mk Left_Side s x s'"
  have d: "desc t x = set_tree ?u" using desc_focus [of c Left_Side s x s'] dis by (simp add: t)
  with a have "a \<in> set (ctx_left c) \<or> a \<in> set (ctx_right c)" by (auto simp: t set_plug)
  moreover from ord have "ordered (rgs V (ctx_left c) @ rgs V (inorder ?u) @ rgs V (ctx_right c))"
    by (simp add: t inorder_plug)
  ultimately show ?thesis unfolding d set_inorder [symmetric] by auto
qed simp

subsection \<open>Placed ranges\<close>

text \<open>The range \<open>q\<close> lies to the other ranges of the tree outside of the subtree of \<open>x\<close> as \<open>x\<close> does.\<close>

definition same_side :: "64 word range \<Rightarrow> 64 word range \<Rightarrow> 64 word range \<Rightarrow> bool" where
  "same_side r q p \<longleftrightarrow> closed_before r q \<and> closed_before r p \<or> closed_before q r \<and> closed_before p r"

definition placed :: "view4 \<Rightarrow> addr4 tree \<Rightarrow> keyrange \<Rightarrow> addr4 \<Rightarrow> bool" where
  "placed V t q x \<longleftrightarrow>
     (\<forall>a\<in>set_tree t. a \<notin> desc t x \<longrightarrow> same_side (kr (rg4 V a)) (kr (rg4 V x)) (kr q))"

lemma placed_root: "desc t x = set_tree t \<Longrightarrow> placed V t q x"
  by (simp add: placed_def)

lemma placed_sub:
  assumes "placed V t q x" "m_left_key q \<le> m_left_key r" "m_right_key r \<le> m_right_key q"
  shows "placed V t r x"
  using assms by (fastforce simp: placed_def same_side_def closed_before_def kr_def)

text \<open>The overlapping ranges of the tree are below.\<close>

lemma placed_overlap:
  assumes "placed V t q x" "a \<in> set_tree t" "closed_overlaps (kr (rg4 V a)) (kr q)" "closed_valid (kr q)"
    "closed_valid (kr (rg4 V a))"
  shows "a \<in> desc t x"
  using assms by (auto simp: placed_def same_side_def closed_defs)

text \<open>Another node of the same subtree, and the next node on the way down.\<close>

lemma placed_move:
  assumes dis: "distinct (inorder t)" and ord: "ordered (rgs V (inorder t))"
    and p: "placed V t q x" and y: "desc t y = desc t x" "y \<in> set_tree t" "x \<in> set_tree t"
  shows "placed V t q y"
  unfolding placed_def
proof (intro ballI impI)
  fix a assume a: "a \<in> set_tree t" "a \<notin> desc t y"
  then have s: "same_side (kr (rg4 V a)) (kr (rg4 V x)) (kr q)" using p y by (simp add: placed_def)
  have "x \<in> desc t y" "y \<in> desc t y" using y desc_self by metis+
  moreover from this have "closed_valid (kr (rg4 V x))" "closed_valid (kr (rg4 V y))" "closed_valid (kr (rg4 V a))"
    using ord desc_subset [of t y] a(1) set_inorder [of t] by (auto simp: ordered_def)
  ultimately show "same_side (kr (rg4 V a)) (kr (rg4 V y)) (kr q)"
    using outside_side [OF dis ord a] s by (auto simp: same_side_def closed_defs)
qed

text \<open>The tree below a child.\<close>

lemma child_focus:
  assumes shp: "shape V (Some root) t" and dis: "distinct (inorder t)"
    and x: "x \<in> set_tree t" "V x = Some v" "v_child v d = Some b"
  obtains c s s' where "t = plug c (mk d s x s')" "shape V (Some x) (mk d s x s')" "shape V (Some b) s"
    "b \<in> set_tree s" "desc t b = set_tree s" "desc t x = insert x (set_tree s \<union> set_tree s')"
proof -
  from x(1) obtain c s s' where t: "t = plug c (mk d s x s')" by (rule focus_node)
  from shp obtain y where y: "shape V (Some y) (mk d s x s')" unfolding t by (rule shape_plug_sub) simp
  with x(2,3) have s: "shape V (Some b) s" "shape V (Some x) (mk d s x s')" by auto
  then have b: "b \<in> set_tree s" by (simp add: shape_root_in)
  moreover from this dis have "b \<notin> set_tree s'" "b \<noteq> x" by (auto simp: t inorder_plug)
  ultimately have "desc t b = desc s b"
    using desc_plug_in [of c "mk d s x s'" b] dis by (simp add: t desc_mk)
  moreover have "desc s b = set_tree s" using s(1) by (cases s) auto
  ultimately show thesis using that [OF t s(2,1) b] desc_focus [of c d s x s'] dis by (simp add: t)
qed

lemma placed_down:
  assumes shp: "shape V (Some root) t" and dis: "distinct (inorder t)" and ord: "ordered (rgs V (inorder t))"
    and p: "placed V t q x" and x: "x \<in> set_tree t" "V x = Some v" "v_child v (turn q (rg4 V x)) = Some b"
    and q: "closed_valid (kr q)" "\<not> closed_overlaps (kr q) (kr (rg4 V x))"
  shows "placed V t q b"
  unfolding placed_def
proof (intro ballI impI)
  fix a assume a: "a \<in> set_tree t" "a \<notin> desc t b"
  let ?d = "turn q (rg4 V x)"
  obtain c s s' where f: "t = plug c (mk ?d s x s')" "shape V (Some b) s" "b \<in> set_tree s"
    "desc t b = set_tree s" "desc t x = insert x (set_tree s \<union> set_tree s')"
    using child_focus [OF shp dis x] by metis
  have val: "closed_valid (kr (rg4 V z))" if "z \<in> set_tree t" for z
    using ord that set_inorder [of t] by (auto simp: ordered_def)
  show "same_side (kr (rg4 V a)) (kr (rg4 V b)) (kr q)"
  proof (cases "a \<in> desc t x")
    case False
    then have "same_side (kr (rg4 V a)) (kr (rg4 V x)) (kr q)" using p a by (simp add: placed_def)
    then show ?thesis
      using outside_side [OF dis ord a(1) False] f(3,5) val [OF x(1)] val [OF a(1)]
      by (auto simp: same_side_def closed_defs)
  next
    case True
    obtain d where d: "?d = d" by simp
    have o: "ordered (rgs V (inorder (mk d s x s')))" using ord d by (simp add: f(1) inorder_plug)
    have a': "a = x \<or> a \<in> set (inorder s')" "b \<in> set (inorder s)" using True a(2) f(3-5) by auto
    have "closed_before (kr q) (kr (rg4 V x)) \<or> closed_before (kr (rg4 V x)) (kr q)"
      using compare_order [OF q(1) val [OF x(1)] q(2)] by auto
    moreover have "d = Left_Side \<longleftrightarrow> closed_before (kr q) (kr (rg4 V x))"
      using d by (auto simp: compare_less split: if_splits)
    ultimately show ?thesis
      using o a' val [OF x(1)] q(1) unfolding same_side_def
      by (cases d) (auto simp: mk_def intro: closed.before_trans)
  qed
qed

subsection \<open>Changes of the tree\<close>

text \<open>Outside of \<open>X\<close> the nodes stay in the tree, and what is placed below them stays so.\<close>

definition kept :: "addr4 set \<Rightarrow> view4 \<Rightarrow> addr4 tree \<Rightarrow> view4 \<Rightarrow> addr4 tree \<Rightarrow> bool" where
  "kept X V t V' t' \<longleftrightarrow> (\<forall>x\<in>set_tree t. x \<notin> X \<longrightarrow> x \<in> set_tree t' \<and>
     (\<forall>q. closed_valid (kr q) \<longrightarrow> placed V t q x \<longrightarrow> placed V' t' q x))"

lemma kept_mono: "kept X V t V' t' \<Longrightarrow> X \<subseteq> Y \<Longrightarrow> kept Y V t V' t'"
  by (auto simp: kept_def)

lemma kept_rotation:
  assumes "set_tree s' = set_tree s" "\<And>z. z \<notin> X \<Longrightarrow> desc s' z = desc s z" "vdata V' = vdata V"
  shows "kept X V (plug c s) V' (plug c s')"
proof -
  have d: "desc (plug c s') z = desc (plug c s) z" if "z \<notin> X" for z
    unfolding desc_plug assms(1) assms(2) [OF that] ..
  have "set_tree (plug c s') = set_tree (plug c s)" unfolding set_plug assms(1) ..
  moreover have "placed V' (plug c s') q x \<longleftrightarrow> placed V (plug c s) q x" if "x \<notin> X" for q x
    unfolding placed_def d [OF that] vdata_rg [OF assms(3)] calculation ..
  ultimately show ?thesis unfolding kept_def by blast
qed

text \<open>Between two subtrees neither of which contains the other there is a node of neither.\<close>

lemma branch_node:
  assumes "distinct (inorder t)" "ordered (rgs V (inorder t))" "x \<in> set_tree t" "z \<in> set_tree t"
    "x \<notin> desc t z" "z \<notin> desc t x"
  obtains a where "a \<in> set_tree t" "a \<notin> desc t x" "a \<notin> desc t z"
    "closed_before (kr (rg4 V x)) (kr (rg4 V a)) \<and> closed_before (kr (rg4 V a)) (kr (rg4 V z)) \<or>
     closed_before (kr (rg4 V z)) (kr (rg4 V a)) \<and> closed_before (kr (rg4 V a)) (kr (rg4 V x))"
  using assms
proof (induction t arbitrary: thesis)
  case (Node l a r)
  from Node.prems(4-7) have ne: "x \<noteq> a" "z \<noteq> a" by auto
  have sub: "desc l y \<subseteq> set_tree l" "desc r y \<subseteq> set_tree r" for y by (rule desc_subset)+
  have dis: "a \<notin> set_tree l" "a \<notin> set_tree r" "set_tree l \<inter> set_tree r = {}" using Node.prems(2) by auto
  then have e: "y \<in> set_tree l \<Longrightarrow> desc r y = {}" "y \<in> set_tree r \<Longrightarrow> desc l y = {}" for y
    by (auto intro!: desc_empty)
  have na: "a \<notin> desc l y" "a \<notin> desc r y" for y using sub dis(1,2) by blast+
  consider "x \<in> set_tree l" "z \<in> set_tree l" | "x \<in> set_tree r" "z \<in> set_tree r"
    | "x \<in> set_tree l" "z \<in> set_tree r" | "x \<in> set_tree r" "z \<in> set_tree l"
    using Node.prems(4,5) ne by auto
  then show ?case
  proof cases
    case 1
    show ?thesis
    proof (rule Node.IH(1))
      fix b assume "b \<in> set_tree l" "b \<notin> desc l x" "b \<notin> desc l z"
        "closed_before (kr (rg4 V x)) (kr (rg4 V b)) \<and> closed_before (kr (rg4 V b)) (kr (rg4 V z)) \<or>
         closed_before (kr (rg4 V z)) (kr (rg4 V b)) \<and> closed_before (kr (rg4 V b)) (kr (rg4 V x))"
      then show thesis using 1 dis e ne by (intro Node.prems(1) [of b]) auto
    qed (use Node.prems 1 ne in auto)
  next
    case 2
    show ?thesis
    proof (rule Node.IH(2))
      fix b assume "b \<in> set_tree r" "b \<notin> desc r x" "b \<notin> desc r z"
        "closed_before (kr (rg4 V x)) (kr (rg4 V b)) \<and> closed_before (kr (rg4 V b)) (kr (rg4 V z)) \<or>
         closed_before (kr (rg4 V z)) (kr (rg4 V b)) \<and> closed_before (kr (rg4 V b)) (kr (rg4 V x))"
      then show thesis using 2 dis e ne by (intro Node.prems(1) [of b]) auto
    qed (use Node.prems 2 ne in auto)
  next
    case 3
    then show ?thesis using Node.prems(3) na ne by (intro Node.prems(1) [of a]) auto
  next
    case 4
    then show ?thesis using Node.prems(3) na ne by (intro Node.prems(1) [of a]) auto
  qed
qed simp

lemma desc_inserted:
  assumes "k \<notin> set_tree (plug c (mk d Leaf x s'))" "z \<noteq> k"
  shows "desc (plug c (mk d (Node Leaf k Leaf) x s')) z =
    desc (plug c (mk d Leaf x s')) z \<union> (if z = x \<or> z \<in> spine_of c then {k} else {})"
  using assms by (auto simp: desc_plug desc_mk)

lemma desc_spine:
  assumes "distinct (inorder (plug c s))" "x \<in> set_tree s" "z \<notin> set_tree s"
  shows "x \<in> desc (plug c s) z \<longleftrightarrow> z \<in> spine_of c"
proof -
  have out: "x \<notin> set (ctx_left c @ ctx_right c)" using assms by (auto simp: inorder_plug)
  then have "x \<notin> ctx_desc c z" using ctx_desc_subset [of c z] by blast
  then show ?thesis using assms(2,3) by (simp add: desc_plug)
qed

lemma kept_insert:
  assumes dis: "distinct (inorder t)" and ord: "ordered (rgs V (inorder t))" and t: "t = plug c (mk d Leaf x s')"
    and k: "k \<notin> set_tree t" and rg: "rg4 V' k = rng" "\<And>a. a \<noteq> k \<Longrightarrow> rg4 V' a = rg4 V a"
    and p: "placed V t rng x" and rng: "closed_valid (kr rng)" "\<not> closed_overlaps (kr rng) (kr (rg4 V x))"
    and d: "d = turn rng (rg4 V x)"
  shows "kept {} V t V' (plug c (mk d (Node Leaf k Leaf) x s'))" (is "kept _ _ _ _ ?t")
  unfolding kept_def
proof (intro ballI impI conjI allI)
  fix z assume z: "z \<in> set_tree t"
  then show "z \<in> set_tree ?t" by (auto simp: t set_plug)
  fix q assume q: "closed_valid (kr q)" "placed V t q z"
  have val: "closed_valid (kr (rg4 V a))" if "a \<in> set_tree t" for a
    using ord that set_inorder [of t] by (auto simp: ordered_def)
  have xt: "x \<in> set_tree t" by (simp add: t set_plug)
  have zk: "z \<noteq> k" using z k by blast
  have dsc: "desc ?t z = desc t z \<union> (if x \<in> desc t z then {k} else {})"
  proof -
    have "x \<in> desc t z \<longleftrightarrow> z = x \<or> z \<in> spine_of c"
    proof (cases "z \<in> set_tree (mk d Leaf x s')")
      case True
      then have "desc t z = desc (mk d Leaf x s') z" using dis by (simp add: t desc_plug_in)
      moreover have "x \<notin> set_tree s'" "z \<notin> spine_of c"
        using dis True spine_of_ctx [of c] by (auto simp: t inorder_plug)
      ultimately show ?thesis using True desc_subset [of s' z] by (auto simp: desc_mk)
    next
      case False
      then show ?thesis using desc_spine [of c "mk d Leaf x s'" x z] dis by (auto simp: t)
    qed
    then show ?thesis using desc_inserted [of k c d x s' z] k zk by (simp add: t)
  qed
  have new: "same_side (kr rng) (kr (rg4 V z)) (kr q)" if x: "x \<notin> desc t z"
  proof -
    have xz: "same_side (kr (rg4 V x)) (kr (rg4 V z)) (kr q)" using q(2) xt x by (simp add: placed_def)
    have turned: "if d = Left_Side then closed_before (kr rng) (kr (rg4 V x)) else closed_before (kr (rg4 V x)) (kr rng)"
      using compare_order [OF rng(1) val [OF xt] rng(2)] compare_less [of rng "rg4 V x"] by (auto simp: d)
    show ?thesis
    proof (cases "z \<in> desc t x")
      case True
      then have "z \<in> set_tree s'" using dis x desc_self [of z t] z by (auto simp: t desc_focus)
      moreover have "ordered (rgs V (inorder (mk d Leaf x s')))" using ord by (simp add: t inorder_plug)
      ultimately have "if d = Left_Side then closed_before (kr (rg4 V x)) (kr (rg4 V z))
          else closed_before (kr (rg4 V z)) (kr (rg4 V x))"
        using set_inorder [of s'] by (cases d) (auto simp: mk_def)
      then show ?thesis
        using turned xz val [OF xt] val [OF z] q(1) unfolding same_side_def
        by (auto split: if_splits simp: closed_defs)
    next
      case False
      then have "same_side (kr (rg4 V z)) (kr (rg4 V x)) (kr rng)" using p z by (simp add: placed_def)
      moreover obtain a where a: "a \<in> set_tree t" "a \<notin> desc t x" "a \<notin> desc t z"
        "closed_before (kr (rg4 V x)) (kr (rg4 V a)) \<and> closed_before (kr (rg4 V a)) (kr (rg4 V z)) \<or>
         closed_before (kr (rg4 V z)) (kr (rg4 V a)) \<and> closed_before (kr (rg4 V a)) (kr (rg4 V x))"
        using branch_node [OF dis ord xt z x False] by metis
      moreover from a have "same_side (kr (rg4 V a)) (kr (rg4 V x)) (kr rng)"
        "same_side (kr (rg4 V a)) (kr (rg4 V z)) (kr q)" using p q(2) by (simp_all add: placed_def)
      ultimately show ?thesis
        using val [OF xt] val [OF z] val [OF a(1)] q(1) rng(1) unfolding same_side_def
        by (auto simp: closed_defs)
    qed
  qed
  show "placed V' ?t q z"
    unfolding placed_def
  proof (intro ballI impI)
    fix a assume a: "a \<in> set_tree ?t" "a \<notin> desc ?t z"
    show "same_side (kr (rg4 V' a)) (kr (rg4 V' z)) (kr q)"
    proof (cases "a = k")
      case True
      then show ?thesis using new a(2) dsc rg zk by (auto split: if_splits)
    next
      case False
      then have "a \<in> set_tree t" "a \<notin> desc t z" using a dsc by (auto simp: t set_plug)
      then show ?thesis using q(2) False zk rg by (simp add: placed_def)
    qed
  qed
qed

text \<open>Two shapes of rotation do not change the subtrees of other nodes.\<close>

lemma desc_rotations:
  "z \<notin> {b, c} \<Longrightarrow> desc (mk e A c (mk e B b C)) z = desc (mk e (mk e A c B) b C) z"
  "z \<notin> {b, c, g} \<Longrightarrow> desc (mk e (mk e A c B) g (mk e C b D)) z = desc (mk e (mk e A c (mk e B g C)) b D) z"
  by (auto simp: desc_mk)

lemma plug_append: "plug (c @ c') s = plug c (plug c' s)"
  by (induction c) auto

text \<open>Removals.\<close>

lemma kept_leaf:
  assumes dis: "distinct (inorder (plug c (Node Leaf z Leaf)))" and rg: "\<And>a. a \<noteq> z \<Longrightarrow> rg4 V' a = rg4 V a"
  shows "kept {z} V (plug c (Node Leaf z Leaf)) V' (plug c Leaf)"
proof -
  let ?t = "plug c (Node Leaf z Leaf)" and ?t' = "plug c Leaf"
  have out: "z \<notin> set (ctx_left c @ ctx_right c)" using dis by (auto simp: inorder_plug)
  have d: "desc ?t' w = desc ?t w - {z}" if "w \<noteq> z" for w
  proof -
    have "z \<notin> ctx_desc c w" using out ctx_desc_subset [of c w] by blast
    then show ?thesis using that by (auto simp: desc_plug)
  qed
  have sets: "set_tree ?t = insert z (set_tree ?t')" by (simp add: set_plug)
  have "placed V' ?t' q x" if "x \<noteq> z" "placed V ?t q x" for q x
    unfolding placed_def
  proof (intro ballI impI)
    fix a assume a: "a \<in> set_tree ?t'" "a \<notin> desc ?t' x"
    with out have "a \<noteq> z" by (auto simp: set_plug)
    with a that show "same_side (kr (rg4 V' a)) (kr (rg4 V' x)) (kr q)"
      using d [OF that(1)] sets rg by (simp add: placed_def)
  qed
  then show ?thesis by (simp add: kept_def sets)
qed

lemma cut_set:
  assumes "dir d (inorder s) = e # dir d (inorder (cut d s))" "distinct (inorder s)"
  shows "set_tree s = insert e (set_tree (cut d s))" "e \<notin> set_tree (cut d s)"
proof -
  have "set (dir d (inorder s)) = insert e (set (dir d (inorder (cut d s))))" unfolding assms(1) by simp
  then show "set_tree s = insert e (set_tree (cut d s))" by simp
  have "distinct (dir d (inorder s))" using assms(2) by (cases d) (simp_all add: dir_def)
  then have "e \<notin> set (dir d (inorder (cut d s)))" unfolding assms(1) by simp
  then show "e \<notin> set_tree (cut d s)" by simp
qed

lemma desc_cut:
  assumes "dir d (inorder s) = e # dir d (inorder (cut d s))" "distinct (inorder s)" "w \<noteq> e"
  shows "desc (cut d s) w = desc s w - {e}"
  using assms
proof (induction s rule: tree.induct)
  case (Node l a r)
  obtain u v where s: "Node l a r = mk d u a v" by (cases d) (auto simp: mk_def)
  show ?case
  proof (cases "u = Leaf")
    case True
    with Node.prems(1) have "e = a" by (simp add: s inorder_mk)
    with Node.prems(2,3) True show ?thesis using desc_subset [of v w] by (auto simp: s desc_mk)
  next
    case False
    then have io: "dir d (inorder u) = e # dir d (inorder (cut d u))"
      using Node.prems(1) by (cases "dir d (inorder u)") (auto simp: s inorder_mk dir_eq_iff)
    have u: "u = l \<or> u = r" using s by (cases d) (auto simp: mk_def)
    have dis: "distinct (inorder u)" "a \<notin> set_tree u" "set_tree u \<inter> set_tree v = {}" "a \<notin> set_tree v"
      using Node.prems(2) by (simp_all add: s)
    from u Node.IH io dis(1) Node.prems(3) have "desc (cut d u) w = desc u w - {e}" by metis
    with cut_set [OF io dis(1)] dis False show ?thesis
      using desc_subset [of v w] by (auto simp: s desc_mk)
  qed
qed simp

lemma kept_splice:
  assumes dis: "distinct (inorder (plug c (mk d s y s')))" and ord: "ordered (rgs V (inorder (plug c (mk d s y s'))))"
    and io: "dir (other d) (inorder s) = e # dir (other d) (inorder (cut (other d) s))"
    and rg: "\<And>a. a \<notin> {y, e} \<Longrightarrow> rg4 V' a = rg4 V a" "rg4 V' y = rg4 V e"
  shows "kept {w. e \<in> desc s w} V (plug c (mk d s y s')) V' (plug c (mk d (cut (other d) s) y s'))"
    (is "kept ?X V ?t V' ?t'")
proof -
  let ?s = "cut (other d) s"
  from dis have ds: "distinct (inorder s)" "y \<notin> set_tree s" "y \<notin> set_tree s'" "set_tree s \<inter> set_tree s' = {}"
    and out: "set_tree (mk d s y s') \<inter> set (ctx_left c @ ctx_right c) = {}" by (auto simp: inorder_plug)
  note cs = cut_set [OF io ds(1)]
  have ey: "e \<noteq> y" "e \<notin> set_tree s'" using cs(1) ds by auto
  have sets: "set_tree ?t = insert e (set_tree ?t')" "e \<notin> set_tree ?t'"
    using cs out ey by (auto simp: set_plug)
  have spine: "w = y \<or> w \<in> spine_of c" if "w \<notin> ?X" "e \<in> desc ?t w" for w
  proof (cases "w \<in> set_tree (mk d s y s')")
    case True
    then have "desc ?t w = desc (mk d s y s') w" using dis by (simp add: desc_plug_in)
    then show ?thesis using that desc_subset [of s' w] ey by (auto simp: desc_mk split: if_splits)
  next
    case False
    then show ?thesis using desc_spine [OF dis, of e w] that(2) cs(1) by simp
  qed
  have yw: "y \<in> desc ?t w" if "w \<notin> ?X" "e \<in> desc ?t w" for w
  proof (cases "w = y")
    case True
    then show ?thesis by (auto intro!: desc_self simp: set_plug)
  next
    case False
    with spine [OF that] show ?thesis by (simp add: desc_plug)
  qed
  have dsc: "desc ?t' w = desc ?t w - {e}" if "w \<notin> ?X" for w
  proof -
    have "w \<noteq> e" using that desc_self [of e s] cs(1) by auto
    then have "desc ?s w = desc s w - {e}" by (rule desc_cut [OF io ds(1)])
    moreover have "e \<notin> ctx_desc c w" "e \<notin> desc s' w"
      using out cs(1) ey(2) desc_subset [of s' w]
      by (auto dest: subsetD [OF ctx_desc_subset])
    ultimately show ?thesis using cs ey by (auto simp: desc_plug desc_mk)
  qed
  have val: "closed_valid (kr (rg4 V a))" if "a \<in> set_tree ?t" for a
    using ord that set_inorder [of ?t] by (auto simp: ordered_def)
  have "placed V' ?t' q w" if w: "w \<in> set_tree ?t" "w \<notin> ?X" and q: "closed_valid (kr q)" "placed V ?t q w" for q w
    unfolding placed_def
  proof (intro ballI impI)
    fix a assume a: "a \<in> set_tree ?t'" "a \<notin> desc ?t' w"
    then have a1: "a \<in> set_tree ?t" "a \<noteq> e" "a \<notin> desc ?t w" using sets dsc [OF w(2)] by auto
    have we: "w \<noteq> e" using w(2) desc_self [of e s] cs(1) by auto
    show "same_side (kr (rg4 V' a)) (kr (rg4 V' w)) (kr q)"
    proof (cases "a = y")
      case True
      then have "e \<notin> desc ?t w" "w \<noteq> y" using yw w(2) a1(3) desc_self [OF w(1)] by blast+
      then show ?thesis using q(2) True rg we sets(1) by (simp add: placed_def)
    next
      case False
      have old: "same_side (kr (rg4 V a)) (kr (rg4 V w)) (kr q)" using q(2) a1 by (simp add: placed_def)
      show ?thesis
      proof (cases "w = y")
        case True
        have "e \<in> desc ?t y" "y \<in> desc ?t y" using dis cs(1) by (simp_all add: desc_focus)
        then show ?thesis
          using outside_side [OF dis ord a1(1,3)] old True rg a1(2) False val [OF a1(1)] val [OF w(1)] val [of e]
            sets(1) q(1)
          unfolding same_side_def by (auto simp: closed_defs)
      next
        case False
        then show ?thesis using old rg a1 \<open>a \<noteq> y\<close> we by simp
      qed
    qed
  qed
  moreover have "w \<in> set_tree ?t'" if "w \<in> set_tree ?t" "w \<notin> ?X" for w
    using that sets desc_self [of e s] cs(1) by auto
  ultimately show ?thesis by (simp add: kept_def)
qed

end
