(* ===== verification/V4_Sharing.thy ===== *)
theory V4_Sharing
  imports V4_Threads V4_Subtrees
begin

text \<open>
  What a thread on the tree knows at each place of the code, and that the steps of the other
  threads do not disturb it: the nodes on its stack are locked, they hang below one another, and
  its range belongs below the innermost of them.
\<close>

subsection \<open>The stack of a thread\<close>

definition stack4 :: "locals4 \<Rightarrow> (side \<times> addr4) list" where
  "stack4 l = (case pc4 l of
       Balance w d b \<Rightarrow> (d, b) # frames l
     | Balance_Grandchild w d b e c \<Rightarrow> (e, c) # (d, b) # frames l
     | Balanced w d b \<Rightarrow> (d, b) # frames l
     | Idle4 \<Rightarrow> [] | Preparing \<Rightarrow> [] | Crashed4 \<Rightarrow> []
     | Prepared \<Rightarrow> [(Left_Side, m_subtree (lk l))] | Acquiring \<Rightarrow> [(Left_Side, m_subtree (lk l))]
     | Acquired \<Rightarrow> [(Left_Side, m_subtree (lk l))] | Insert_Start \<Rightarrow> [(Left_Side, m_subtree (lk l))]
     | Releasing \<Rightarrow> [(Left_Side, m_subtree (lk l))]
     | _ \<Rightarrow> frames l)"

text \<open>The nodes no other thread may hold; those of them a return has unlocked are not held.\<close>

definition claimed4 :: "locals4 \<Rightarrow> addr4 set" where
  "claimed4 l = snd ` set (stack4 l)"

definition unlocked4 :: "locals4 \<Rightarrow> nat" where
  "unlocked4 l = (case pc4 l of Extreme_Return d n k \<Rightarrow> k | _ \<Rightarrow> 0)"

definition held4 :: "locals4 \<Rightarrow> addr4 set" where
  "held4 l = snd ` set (drop (unlocked4 l) (stack4 l))"

fun linked4 :: "view4 \<Rightarrow> (side \<times> addr4) list \<Rightarrow> bool" where
  "linked4 V ((d, a) # (e, p) # fs) \<longleftrightarrow> (\<exists>v. V p = Some v \<and> v_child v d = Some a) \<and> linked4 V ((e, p) # fs)"
| "linked4 V fs \<longleftrightarrow> True"

lemma linked4_tl: "linked4 V fs \<Longrightarrow> linked4 V (tl fs)"
  by (induction V fs rule: linked4.induct) auto

lemma linked4_drop: "linked4 V fs \<Longrightarrow> linked4 V (drop n fs)"
proof (induction n arbitrary: fs)
  case (Suc n)
  then show ?case using linked4_tl [of V fs] by (simp add: drop_Suc)
qed simp

lemma linked4_cong: "linked4 V fs \<Longrightarrow> (\<And>a. a \<in> snd ` set fs \<Longrightarrow> V' a = V a) \<Longrightarrow> linked4 V' fs"
  by (induction V fs rule: linked4.induct) auto

lemma held4_claimed: "held4 l \<subseteq> claimed4 l"
  by (auto simp: held4_def claimed4_def dest: in_set_dropD)

subsection \<open>The invariant of a thread\<close>

definition ranges4 :: "view4 \<Rightarrow> addr4 tree \<Rightarrow> 64 word range set" where
  "ranges4 V T = (\<lambda>a. kr (rg4 V a)) ` set_tree T"

definition within :: "keyrange \<Rightarrow> keyrange \<Rightarrow> bool" where
  "within r q \<longleftrightarrow> m_left_key q \<le> m_left_key r \<and> m_right_key r \<le> m_right_key q"

text \<open>A thread that has acquired a range, and one in an operation on it.\<close>

definition homed :: "addr4 \<Rightarrow> view4 \<Rightarrow> addr4 tree \<Rightarrow> locals4 \<Rightarrow> bool" where
  "homed root V T l \<longleftrightarrow> m_subtree (lk l) = root \<or>
     closed_valid (kr (m_lk_range (lk l))) \<and> m_subtree (lk l) \<in> set_tree T \<and>
     placed V T (m_lk_range (lk l)) (m_subtree (lk l)) \<and>
     \<not> closed_overlaps (kr (m_lk_range (lk l))) (kr (rg4 V (m_subtree (lk l))))"

definition comes_back :: "addr4 \<Rightarrow> locals4 \<Rightarrow> bool" where
  "comes_back root l \<longleftrightarrow> after4 l = Acquired \<or> after4 l = Prepared \<and> m_subtree (lk l) = root"

definition working :: "addr4 \<Rightarrow> view4 \<Rightarrow> addr4 tree \<Rightarrow> locals4 \<Rightarrow> bool" where
  "working root V T l \<longleftrightarrow> homed root V T l \<and> comes_back root l \<and> frames l \<noteq> [] \<and>
     snd (last (frames l)) = m_subtree (lk l)"

definition fits :: "view4 \<Rightarrow> addr4 tree \<Rightarrow> keyrange \<Rightarrow> bool" where
  "fits V T r \<longleftrightarrow> closed_valid (kr r) \<and> (\<forall>q\<in>ranges4 V T. \<not> closed_overlaps (kr r) q)"

definition allowed :: "addr4 \<Rightarrow> locals4 \<Rightarrow> bool" where
  "allowed root l \<longleftrightarrow> m_subtree (lk l) = root \<or> within (op_range l) (m_lk_range (lk l))"

definition searching :: "view4 \<Rightarrow> addr4 tree \<Rightarrow> locals4 \<Rightarrow> bool" where
  "searching V T l \<longleftrightarrow> (\<exists>d. frames l = [(d, this4 l)]) \<and> this4 l \<in> set_tree T \<and> closed_valid (kr (op_range l)) \<and>
     placed V T (op_range l) (this4 l) \<and> \<not> closed_overlaps (kr (op_range l)) (kr (rg4 V (this4 l)))"

definition inserting4 :: "addr4 \<Rightarrow> view4 \<Rightarrow> addr4 tree \<Rightarrow> locals4 \<Rightarrow> bool" where
  "inserting4 root V T l \<longleftrightarrow> working root V T l \<and> fits V T (op_range l) \<and> this4 l \<in> set_tree T \<and>
     placed V T (op_range l) (this4 l)"

definition going :: "addr4 \<Rightarrow> view4 \<Rightarrow> addr4 tree \<Rightarrow> locals4 \<Rightarrow> job4 \<Rightarrow> side \<Rightarrow> bool" where
  "going root V T l w d \<longleftrightarrow> (if w = Finding then searching V T l else inserting4 root V T l) \<and>
     d = turn (op_range l) (rg4 V (this4 l))"

definition cutting :: "addr4 \<Rightarrow> view4 \<Rightarrow> addr4 tree \<Rightarrow> locals4 \<Rightarrow> side \<Rightarrow> nat \<Rightarrow> bool" where
  "cutting root V T l d n \<longleftrightarrow> working root V T l \<and> n + 2 \<le> length (frames l) \<and>
     (\<forall>i<n. fst (frames l ! i) = d) \<and> fst (frames l ! n) = other d \<and>
     (snd (frames l ! (n + 1)) = m_subtree (lk l) \<longrightarrow> m_subtree (lk l) = root) \<and>
     kr (op_range l) = kr (rg4 V (snd (frames l ! (n + 1)))) \<and> this4 l \<in> set_tree T"

fun place_inv :: "addr4 \<Rightarrow> view4 \<Rightarrow> addr4 tree \<Rightarrow> locals4 \<Rightarrow> pc4 \<Rightarrow> bool" where
  "place_inv root V T l Idle4 \<longleftrightarrow> True"
| "place_inv root V T l Preparing \<longleftrightarrow> True"
| "place_inv root V T l Prepared \<longleftrightarrow> m_subtree (lk l) = root"
| "place_inv root V T l Acquiring \<longleftrightarrow> m_subtree (lk l) = root \<and> closed_valid (kr (op_range l))"
| "place_inv root V T l (Find hint) \<longleftrightarrow> searching V T l \<and>
     (hint = None \<or> hint = Some (compare (op_range l) (rg4 V (this4 l))))"
| "place_inv root V T l (Balance w d b) \<longleftrightarrow> going root V T l w d"
| "place_inv root V T l (Balance_Grandchild w d b e c) \<longleftrightarrow> going root V T l w d \<and>
     (\<exists>v. V c = Some v \<and> v_child v (other e) \<noteq> None)"
| "place_inv root V T l (Balanced w d b) \<longleftrightarrow> going root V T l w d"
| "place_inv root V T l Acquired \<longleftrightarrow> homed root V T l"
| "place_inv root V T l Insert_Start \<longleftrightarrow> homed root V T l \<and> comes_back root l \<and> allowed root l \<and> fits V T (op_range l)"
| "place_inv root V T l Insert_Below \<longleftrightarrow> inserting4 root V T l"
| "place_inv root V T l Insert_Return \<longleftrightarrow> working root V T l"
| "place_inv root V T l Remove_At \<longleftrightarrow> working root V T l \<and> allowed root l \<and> closed_valid (kr (op_range l)) \<and>
     kr (op_range l) \<in> ranges4 V T \<and> placed V T (op_range l) (this4 l)"
| "place_inv root V T l (Extreme d n) \<longleftrightarrow> cutting root V T l d n"
| "place_inv root V T l (Extreme_Return d n k) \<longleftrightarrow> cutting root V T l d n \<and> k \<le> n \<and>
     (\<exists>v. V (this4 l) = Some v \<and> v_child v d = None)"
| "place_inv root V T l Remove_Return \<longleftrightarrow> working root V T l"
| "place_inv root V T l Releasing \<longleftrightarrow> True"
| "place_inv root V T l Crashed4 \<longleftrightarrow> False"

definition stack_inv :: "addr4 \<Rightarrow> view4 \<Rightarrow> addr4 tree \<Rightarrow> (side \<times> addr4) list \<Rightarrow> bool" where
  "stack_inv root V T fs \<longleftrightarrow> linked4 V fs \<and> distinct (map snd fs) \<and> snd ` set fs \<subseteq> insert root (set_tree T)"

definition thread_inv4 :: "addr4 \<Rightarrow> view4 \<Rightarrow> addr4 tree \<Rightarrow> locals4 \<Rightarrow> bool" where
  "thread_inv4 root V T l \<longleftrightarrow> stack_inv root V T (stack4 l) \<and> place_inv root V T l (pc4 l)"

subsection \<open>Steps of other threads\<close>

text \<open>The ranges a thread is about to insert or to remove.\<close>

definition adding :: "locals4 \<Rightarrow> bool" where
  "adding l \<longleftrightarrow> (case pc4 l of Insert_Start \<Rightarrow> True | Insert_Below \<Rightarrow> True | Balance w d b \<Rightarrow> w = Adding
     | Balance_Grandchild w d b e c \<Rightarrow> w = Adding | Balanced w d b \<Rightarrow> w = Adding | _ \<Rightarrow> False)"

definition removing4 :: "locals4 \<Rightarrow> bool" where
  "removing4 l \<longleftrightarrow> (case pc4 l of Remove_At \<Rightarrow> True | Extreme d n \<Rightarrow> True | Extreme_Return d n k \<Rightarrow> True | _ \<Rightarrow> False)"

lemma this4_claimed: "frames l \<noteq> [] \<Longrightarrow> snd ` set (frames l) \<subseteq> C \<Longrightarrow> this4 l \<in> C"
  by (cases "frames l") (auto simp: this4_def)

lemma working_claim:
  assumes "working root V T l" "snd ` set (frames l) \<subseteq> C"
  shows "m_subtree (lk l) \<in> C" "this4 l \<in> C"
proof -
  from assms have "frames l \<noteq> []" "m_subtree (lk l) = snd (last (frames l))" by (auto simp: working_def)
  with assms(2) last_in_set [of "frames l"] show "m_subtree (lk l) \<in> C" by (metis image_eqI subsetD)
  show "this4 l \<in> C" using \<open>frames l \<noteq> []\<close> assms(2) by (rule this4_claimed)
qed

lemma placed_in:
  assumes "placed V T q x" "kr q \<in> ranges4 V T" "closed_valid (kr q)"
  shows "x \<in> set_tree T"
proof -
  from assms(2) obtain a where a: "a \<in> set_tree T" "kr (rg4 V a) = kr q" by (auto simp: ranges4_def)
  then have "\<not> same_side (kr (rg4 V a)) r (kr q)" for r using assms(3) by (auto simp: same_side_def closed_defs)
  with assms(1) a(1) have "a \<in> desc T x" unfolding placed_def by blast
  then show ?thesis by (rule desc_in)
qed

text \<open>
  \<open>stays C V T V' T'\<close>: the nodes \<open>C\<close> keep their ranges and their places when \<open>T\<close> becomes \<open>T'\<close>.
\<close>

definition stays :: "addr4 set \<Rightarrow> view4 \<Rightarrow> addr4 tree \<Rightarrow> view4 \<Rightarrow> addr4 tree \<Rightarrow> bool" where
  "stays C V T V' T' \<longleftrightarrow> (\<forall>a\<in>C. rg4 V' a = rg4 V a) \<and> (\<exists>X. kept X V T V' T' \<and> X \<inter> C = {})"

lemma stays_placed:
  assumes "stays C V T V' T'" "x \<in> C" "x \<in> set_tree T"
  shows "x \<in> set_tree T'" "placed V T q x \<Longrightarrow> closed_valid (kr q) \<Longrightarrow> placed V' T' q x" "rg4 V' x = rg4 V x"
  using assms by (auto simp: stays_def kept_def)

lemma stays_in: "stays C V T V' T' \<Longrightarrow> A \<subseteq> C \<Longrightarrow> A \<subseteq> insert root (set_tree T) \<Longrightarrow> A \<subseteq> insert root (set_tree T')"
  by (auto dest!: stays_placed(1))

lemma stays_mono: "stays C V T V' T' \<Longrightarrow> D \<subseteq> C \<Longrightarrow> stays D V T V' T'"
  by (auto simp: stays_def)

lemma homed_stable:
  assumes "homed root V T l" "stays C V T V' T'" "m_subtree (lk l) \<in> C"
  shows "homed root V' T' l"
  using assms stays_placed [OF assms(2,3)] by (auto simp: homed_def)

lemma working_stable:
  assumes "working root V T l" "stays C V T V' T'" "snd ` set (frames l) \<subseteq> C"
  shows "working root V' T' l"
  using assms homed_stable [OF _ assms(2) working_claim(1) [OF assms(1,3)]] by (auto simp: working_def)

lemma searching_stable:
  assumes "searching V T l" "stays C V T V' T'" "snd ` set (frames l) \<subseteq> C"
  shows "searching V' T' l"
proof -
  from assms(1,3) have "this4 l \<in> C" by (intro this4_claimed) (auto simp: searching_def)
  with assms stays_placed [OF assms(2) this] show ?thesis by (auto simp: searching_def)
qed

lemma inserting4_stable:
  assumes "inserting4 root V T l" "stays C V T V' T'" "snd ` set (frames l) \<subseteq> C" "fits V' T' (op_range l)"
  shows "inserting4 root V' T' l"
proof -
  from assms(1) have w: "working root V T l" by (simp add: inserting4_def)
  from working_claim(2) [OF this assms(3)] assms working_stable [OF w assms(2,3)]
    stays_placed [OF assms(2)]
  show ?thesis by (auto simp: inserting4_def fits_def)
qed

lemma going_stable:
  assumes "going root V T l w d" "stays C V T V' T'" "snd ` set (frames l) \<subseteq> C"
    "w = Adding \<Longrightarrow> fits V' T' (op_range l)"
  shows "going root V' T' l w d"
proof -
  from assms(1) have "frames l \<noteq> []" by (auto simp: going_def searching_def inserting4_def working_def split: if_splits)
  then have "this4 l \<in> C" using assms(3) by (rule this4_claimed)
  moreover have "this4 l \<in> set_tree T" using assms(1) by (auto simp: going_def searching_def inserting4_def split: if_splits)
  ultimately show ?thesis
    using assms stays_placed(3) [OF assms(2)] searching_stable [OF _ assms(2,3)] inserting4_stable [OF _ assms(2,3)]
    by (cases w) (auto simp: going_def)
qed

lemma cutting_stable:
  assumes "cutting root V T l d n" "stays C V T V' T'" "snd ` set (frames l) \<subseteq> C"
  shows "cutting root V' T' l d n"
proof -
  from assms(1) have w: "working root V T l" and t: "this4 l \<in> set_tree T" by (simp_all add: cutting_def)
  from assms(1) have "frames l ! (n + 1) \<in> set (frames l)" by (auto simp: cutting_def)
  with assms(2,3) have "rg4 V' (snd (frames l ! (n + 1))) = rg4 V (snd (frames l ! (n + 1)))"
    by (auto simp: stays_def)
  with assms(1) working_stable [OF w assms(2,3)] stays_placed(1) [OF assms(2) working_claim(2) [OF w assms(3)] t]
  show ?thesis by (auto simp: cutting_def)
qed

lemma thread_inv4_stable:
  assumes ti: "thread_inv4 root V T l" and keep: "\<And>a. a \<in> claimed4 l \<Longrightarrow> V' a = V a"
    and k: "kept X V T V' T'" and X: "X \<inter> claimed4 l = {}"
    and add: "\<And>r. adding l \<Longrightarrow> r \<in> ranges4 V' T' \<Longrightarrow> r \<in> ranges4 V T \<or> \<not> closed_overlaps (kr (op_range l)) r"
    and rem: "pc4 l = Remove_At \<Longrightarrow> kr (op_range l) \<in> ranges4 V T \<Longrightarrow> kr (op_range l) \<in> ranges4 V' T'"
  shows "thread_inv4 root V' T' l"
proof -
  let ?C = "claimed4 l"
  from ti have t: "linked4 V (stack4 l)" "distinct (map snd (stack4 l))" "?C \<subseteq> insert root (set_tree T)"
    and p: "place_inv root V T l (pc4 l)" by (auto simp: thread_inv4_def stack_inv_def claimed4_def)
  have st: "stays ?C V T V' T'" using keep k X by (auto simp: stays_def rg4_def)
  have "linked4 V' (stack4 l)" using t(1) keep by (auto simp: claimed4_def intro: linked4_cong)
  moreover have "?C \<subseteq> insert root (set_tree T')" using stays_in [OF st _ t(3)] by simp
  ultimately have stk: "stack_inv root V' T' (stack4 l)" using t(2) by (simp add: stack_inv_def claimed4_def)
  have ft: "fits V' T' (op_range l)" if "fits V T (op_range l)" "adding l"
    using that add by (auto simp: fits_def)
  note stable = homed_stable [OF _ st] working_stable [OF _ st] searching_stable [OF _ st] cutting_stable [OF _ st]
  have go: "going root V' T' l w d" if "going root V T l w d" "snd ` set (frames l) \<subseteq> ?C" "w = Adding \<Longrightarrow> adding l" for w d
    using going_stable [OF that(1) st that(2)] ft that by (auto simp: going_def inserting4_def split: if_splits)
  have "place_inv root V' T' l (pc4 l)"
  proof (cases "pc4 l")
    case (Find hint)
    then have c: "snd ` set (frames l) \<subseteq> ?C" by (simp add: claimed4_def stack4_def)
    with p Find have s: "searching V T l" by simp
    then have "this4 l \<in> ?C" using c by (intro this4_claimed) (auto simp: searching_def)
    moreover have "this4 l \<in> set_tree T" using s by (simp add: searching_def)
    ultimately show ?thesis using p Find stable(3) [OF s c] stays_placed(3) [OF st] by auto
  next
    case (Balance w d b)
    with p go show ?thesis by (auto simp: claimed4_def stack4_def adding_def)
  next
    case (Balance_Grandchild w d b e f)
    then have "f \<in> ?C" by (simp add: claimed4_def stack4_def)
    from keep [OF this] p Balance_Grandchild go show ?thesis by (auto simp: claimed4_def stack4_def adding_def)
  next
    case (Balanced w d b)
    with p go show ?thesis by (auto simp: claimed4_def stack4_def adding_def)
  next
    case Acquired
    with p stable(1) show ?thesis by (simp add: claimed4_def stack4_def)
  next
    case Insert_Start
    with p stable(1) ft show ?thesis by (simp add: claimed4_def stack4_def adding_def)
  next
    case Insert_Below
    then have "fits V' T' (op_range l)" "snd ` set (frames l) \<subseteq> ?C"
      using p ft by (simp_all add: claimed4_def stack4_def adding_def inserting4_def)
    with p inserting4_stable [OF _ st] Insert_Below show ?thesis by simp
  next
    case Remove_At
    with p have w: "working root V T l" "placed V T (op_range l) (this4 l)" "kr (op_range l) \<in> ranges4 V T"
      "closed_valid (kr (op_range l))" by auto
    have c: "snd ` set (frames l) \<subseteq> ?C" using Remove_At by (simp add: claimed4_def stack4_def)
    have "placed V' T' (op_range l) (this4 l)"
      using stays_placed(2) [OF st working_claim(2) [OF w(1) c] placed_in [OF w(2,3,4)] w(2,4)] .
    with p stable(2) c Remove_At rem show ?thesis by simp
  next
    case (Extreme_Return d n i)
    then have c: "snd ` set (frames l) \<subseteq> ?C" by (simp add: claimed4_def stack4_def)
    with p Extreme_Return have "this4 l \<in> ?C" by (intro working_claim(2)) (auto simp: cutting_def)
    with p stable(4) c Extreme_Return keep show ?thesis by auto
  qed (use p stable in \<open>auto simp: claimed4_def stack4_def\<close>)
  with stk show ?thesis by (simp add: thread_inv4_def)
qed

end
