(* ===== verification/V4_Steps.thy ===== *)
theory V4_Steps
  imports V4_Sharing
begin

text \<open>
  Every step of a thread on the tree does what \<open>step_post4\<close> says: the tree stays ordered, the thread
  knows what it has to at its next place, the others are not disturbed, and the ranges in the tree
  change by an action of the abstract lock.
\<close>

subsection \<open>What a step does\<close>

definition fresh_lock :: "addr4 \<Rightarrow> view4 \<Rightarrow> addr4 set \<Rightarrow> locals4 \<Rightarrow> addr4 \<Rightarrow> bool" where
  "fresh_lock root V L l a \<longleftrightarrow> a \<in> dom V \<and> a \<notin> L \<and>
     (a = root \<or> (\<exists>x\<in>claimed4 l. \<exists>v d. V x = Some v \<and> v_child v d = Some a))"

text \<open>The action of a step: a range is in the tree when its insertion is over, and out when its removal is.\<close>

definition action4 :: "locals4 \<Rightarrow> locals4 \<Rightarrow> 64 word range action" where
  "action4 l l' = (if adding l \<and> \<not> adding l' then Acquire (kr (op_range l))
     else if removing4 l \<and> \<not> removing4 l' then Release (kr (op_range l)) else Silent)"

definition step_post4 ::
  "addr4 \<Rightarrow> view4 \<Rightarrow> addr4 tree \<Rightarrow> addr4 set \<Rightarrow> locals4 \<Rightarrow> memory4 \<times> locals4 \<Rightarrow> bool" where
  "step_post4 root V T L l r \<longleftrightarrow> (case r of (\<sigma>', l') \<Rightarrow> \<exists>V' L' k' T' X.
     abs4 \<sigma>' = (V', L', k') \<and> tree_inv root V' k' T' \<and> thread_inv4 root V' T' l' \<and>
     L' = (L - held4 l) \<union> held4 l' \<and> (\<forall>a\<in>claimed4 l'. a \<in> claimed4 l \<or> fresh_lock root V L l a) \<and>
     X \<subseteq> claimed4 l \<union> claimed4 l' \<and> kept X V T V' T' \<and>
     (\<forall>a\<in>dom V. a \<notin> claimed4 l \<union> claimed4 l' \<longrightarrow> V' a = V a) \<and>
     ranges4 V' T' = apply_action (action4 l l') (ranges4 V T) \<and>
     op_range l' = op_range l \<and> (adding l' \<longrightarrow> adding l) \<and> (removing4 l' \<longrightarrow> removing4 l))"

text \<open>What every step starts from.\<close>

definition step_pre4 ::
  "addr4 \<Rightarrow> view4 \<Rightarrow> addr4 tree \<Rightarrow> addr4 set \<Rightarrow> nat \<Rightarrow> memory4 \<Rightarrow> locals4 \<Rightarrow> bool" where
  "step_pre4 root V T L k \<sigma> l \<longleftrightarrow> abs4 \<sigma> = (V, L, k) \<and> tree_inv root V k T \<and> thread_inv4 root V T l \<and>
     held4 l \<subseteq> L"

lemma step_preD:
  assumes "step_pre4 root V T L k \<sigma> l"
  shows "abs4 \<sigma> = (V, L, k)" "tree_inv root V k T" "stack_inv root V T (stack4 l)"
    "place_inv root V T l (pc4 l)" "held4 l \<subseteq> L"
  using assms by (auto simp: step_pre4_def thread_inv4_def)

subsection \<open>The tree at a node\<close>

lemma tree_invD:
  assumes "tree_inv root V k T"
  shows "dom V = {..<k}" "distinct (inorder T)" "ordered (rgs V (inorder T))" "root \<in> dom V"
    "V a = Some v \<Longrightarrow> v_root v \<Longrightarrow> a = root"
  using assms by (auto simp: tree_inv_def)

lemma tree_shape:
  assumes "tree_inv root V k T" "x \<in> set_tree T"
  shows "shape V (Some root) T" "root \<in> set_tree T"
proof -
  from assms show "shape V (Some root) T" by (cases T) (auto simp: tree_inv_def split: if_splits)
  then show "root \<in> set_tree T" by (rule shape_root_in)
qed

lemma shape_child:
  assumes "shape V p t" "distinct (inorder t)" "x \<in> set_tree t" "V x = Some v" "v_child v d = Some b"
  shows "b \<in> set_tree t \<and> p \<noteq> Some b"
  using assms
proof (induction t arbitrary: p)
  case (Node l a r)
  then obtain w where w: "p = Some a" "V a = Some w" "shape V (v_child w Left_Side) l"
    "shape V (v_child w Right_Side) r" by auto
  from Node.prems(2) have dis: "distinct (inorder l)" "distinct (inorder r)" "a \<notin> set_tree l" "a \<notin> set_tree r" by auto
  from Node.prems(3) consider "x = a" | "x \<in> set_tree l" | "x \<in> set_tree r" by auto
  then show ?case
  proof cases
    case 1
    with w Node.prems(4,5) have "b \<in> set_tree l \<or> b \<in> set_tree r" by (cases d) (auto dest: shape_root_in)
    with w(1) dis show ?thesis by auto
  next
    case 2
    with Node.IH(1) [OF w(3) dis(1)] Node.prems(4,5) w(1) dis(3) show ?thesis by auto
  next
    case 3
    with Node.IH(2) [OF w(4) dis(2)] Node.prems(4,5) w(1) dis(4) show ?thesis by auto
  qed
qed simp

lemma shape_parent:
  assumes "shape V p t" "distinct (inorder t)" "x \<in> set_tree t" "V x = Some v" "v_child v d = Some b"
    "y \<in> set_tree t" "V y = Some w" "v_child w e = Some b"
  shows "x = y"
  using assms
proof (induction t arbitrary: p)
  case (Node l a r)
  then obtain u where u: "p = Some a" "V a = Some u" "shape V (v_child u Left_Side) l"
    "shape V (v_child u Right_Side) r" by auto
  from Node.prems(2) have dis: "distinct (inorder l)" "distinct (inorder r)" "set_tree l \<inter> set_tree r = {}" by auto
  have top: "v_child u f \<noteq> Some b" if z: "z \<in> set_tree l \<union> set_tree r" "V z = Some q" "v_child q g = Some b" for z q f g
  proof
    assume f: "v_child u f = Some b"
    from z(1) show False
    proof
      assume zl: "z \<in> set_tree l"
      from shape_child [OF u(3) dis(1) zl z(2,3)] f have "b \<in> set_tree l" "f = Right_Side" by (cases f; auto)+
      then show False using f u(4) dis(3) by (auto dest: shape_root_in)
    next
      assume zr: "z \<in> set_tree r"
      from shape_child [OF u(4) dis(2) zr z(2,3)] f have "b \<in> set_tree r" "f = Left_Side" by (cases f; auto)+
      then show False using f u(3) dis(3) by (auto dest: shape_root_in)
    qed
  qed
  show ?case
  proof (cases "x = a \<or> y = a")
    case True
    then show ?thesis using top [of x v] top [of y w] u(2) Node.prems by auto
  next
    case False
    then consider "x \<in> set_tree l" "y \<in> set_tree l" | "x \<in> set_tree r" "y \<in> set_tree r"
      | "x \<in> set_tree l" "y \<in> set_tree r" | "x \<in> set_tree r" "y \<in> set_tree l"
      using Node.prems(3,6) by auto
    then show ?thesis
      using Node.IH(1) [OF u(3) dis(1)] Node.IH(2) [OF u(4) dis(2)] Node.prems(4,5,7,8) dis(3)
        shape_child [OF u(3) dis(1)] shape_child [OF u(4) dis(2)]
      by cases blast+
  qed
qed simp

lemma shape_node: "shape V p t \<Longrightarrow> x \<in> set_tree t \<Longrightarrow> \<exists>v. V x = Some v \<and> \<not> v_empty v"
  by (induction V p t rule: shape.induct) auto

lemma tree_node:
  assumes "tree_inv root V k T" "x \<in> set_tree T"
  obtains v where "V x = Some v" "\<not> v_empty v"
  using shape_node [OF tree_shape(1) [OF assms] assms(2)] by blast

lemma tree_child:
  assumes "tree_inv root V k T" "x \<in> set_tree T" "V x = Some v" "v_child v d = Some b"
  shows "b \<in> set_tree T" "b \<noteq> root"
  using shape_child [OF tree_shape(1) [OF assms(1,2)] tree_invD(2) [OF assms(1)] assms(2-)] by auto

lemma parent_unique:
  assumes "tree_inv root V k T" "x \<in> set_tree T" "V x = Some v" "v_child v d = Some b"
    "y \<in> set_tree T" "V y = Some w" "v_child w e = Some b"
  shows "x = y"
  using shape_parent [OF tree_shape(1) [OF assms(1,2)] tree_invD(2) [OF assms(1)] assms(2-)] .

lemma tree_valid: "tree_inv root V k T \<Longrightarrow> x \<in> set_tree T \<Longrightarrow> closed_valid (kr (rg4 V x))"
  using tree_invD(3) [of root V k T] set_inorder [of T] by (auto simp: ordered_def)

lemma tree_in_dom: "tree_inv root V k T \<Longrightarrow> x \<in> insert root (set_tree T) \<Longrightarrow> x \<in> dom V"
  using tree_invD(4) [of root V k T] by (auto elim: tree_node)

lemma child_of_in:
  assumes inv: "tree_inv root V k T" and x: "x \<in> set_tree T" "V x = Some v" "v_child v d = Some b"
  shows "desc T b \<subset> desc T x"
proof -
  from child_focus [OF tree_shape(1) [OF inv x(1)] tree_invD(2) [OF inv] x] obtain c s s' where
    "T = plug c (mk d s x s')" "desc T b = set_tree s" "desc T x = insert x (set_tree s \<union> set_tree s')" by metis
  with tree_invD(2) [OF inv] show ?thesis by (auto simp: inorder_plug)
qed

subsection \<open>Steps that leave the tree as it is\<close>

lemma lock_child_rule:
  assumes abs: "abs4 \<sigma> = (V, L, k)" and v: "V a = Some v" and dm: "\<And>b. v_child v d = Some b \<Longrightarrow> b \<in> dom V"
    and none: "v_child v d = None \<Longrightarrow> gives (K None \<sigma>) P"
    and wait: "\<And>b. v_child v d = Some b \<Longrightarrow> b \<in> L \<Longrightarrow> P (\<sigma>, l)"
    and go: "\<And>b \<sigma>'. v_child v d = Some b \<Longrightarrow> b \<notin> L \<Longrightarrow> abs4 \<sigma>' = (V, insert b L, k) \<Longrightarrow> gives (K (Some b) \<sigma>') P"
  shows "gives (lock_child d a \<sigma> l K) P"
  unfolding lock_child_def gives_simps
proof (rule read_rule [OF abs v])
  fix n assume n: "v = vnode_of n"
  show "gives (if is_locked (ptr (child d n)) \<sigma> then Some (\<sigma>, l)
      else get_locked d a \<sigma> \<bind> (\<lambda>(cp, \<sigma>). K cp \<sigma>)) P"
  proof (cases "v_child v d")
    case None
    moreover have "gives (get_locked d a \<sigma>) (\<lambda>r. gives (case r of (cp, \<sigma>) \<Rightarrow> K cp \<sigma>) P)"
      by (rule get_locked_None_rule [OF abs v None]) (simp add: none [OF None])
    ultimately show ?thesis using n by (simp add: is_locked_def)
  next
    case (Some b)
    with dm obtain w where w: "V b = Some w" by blast
    then obtain m where m: "t_heap \<sigma> b = Some m" "m_mutex m \<longleftrightarrow> b \<in> L" using abs by (auto elim: abs4_node)
    show ?thesis
    proof (cases "b \<in> L")
      case True
      then show ?thesis using Some n m wait by (simp add: is_locked_def)
    next
      case False
      have "gives (get_locked d a \<sigma>) (\<lambda>r. gives (case r of (cp, \<sigma>) \<Rightarrow> K cp \<sigma>) P)"
        by (rule get_locked_Some_rule [OF abs v Some w False]) (simp add: go [OF Some False])
      then show ?thesis using Some n m False by (simp add: is_locked_def)
    qed
  qed
qed

lemma kept_refl: "kept X V T V T"
  by (simp add: kept_def)

lemma quietI:
  assumes "step_pre4 root V T L k \<sigma> l" "abs4 \<sigma>' = (V, L', k)" "stack_inv root V T (stack4 l')"
    "place_inv root V T l' (pc4 l')" "L' = (L - held4 l) \<union> held4 l'"
    "\<And>a. a \<in> claimed4 l' \<Longrightarrow> a \<in> claimed4 l \<or> fresh_lock root V L l a"
    "op_range l' = op_range l" "adding l' = adding l" "removing4 l' = removing4 l"
  shows "step_post4 root V T L l (\<sigma>', l')"
  unfolding step_post4_def prod.case
  using assms kept_refl [of "{}" V T]
  by (intro exI [of _ V] exI [of _ L'] exI [of _ k] exI [of _ T] exI [of _ "{}"])
    (auto simp: step_pre4_def thread_inv4_def action4_def)

lemma quiet_wait:
  assumes "step_pre4 root V T L k \<sigma> l"
  shows "step_post4 root V T L l (\<sigma>, l)"
  using step_preD [OF assms] by (intro quietI [OF assms]) auto

lemma stack_plain: "unlocked4 l = 0 \<Longrightarrow> held4 l = claimed4 l"
  by (simp add: held4_def claimed4_def)

lemma quiet_push:
  assumes pre: "step_pre4 root V T L k \<sigma> l" and abs: "abs4 \<sigma>' = (V, insert b L, k)"
    and st: "stack4 l = (e, x) # fs" "unlocked4 l = 0" "stack4 l' = (d, b) # stack4 l" "unlocked4 l' = 0"
    and x: "x \<in> set_tree T" "V x = Some v" "v_child v d = Some b" "b \<notin> L"
    and l': "place_inv root V T l' (pc4 l')" "op_range l' = op_range l" "adding l' = adding l" "removing4 l' = removing4 l"
  shows "step_post4 root V T L l (\<sigma>', l')"
proof (rule quietI [OF pre abs _ l'(1) _ _ l'(2-4)])
  note p = step_preD [OF pre]
  from p(2) x have b: "b \<in> set_tree T" by (auto dest: tree_child)
  have held: "held4 l = claimed4 l" "held4 l' = claimed4 l'" using st by (simp_all add: stack_plain)
  then have new: "claimed4 l' = insert b (claimed4 l)" "b \<notin> claimed4 l"
    using st(3) p(5) x(4) by (auto simp: claimed4_def)
  then show "stack_inv root V T (stack4 l')"
    using p(3) x b unfolding st(3) by (auto simp: stack_inv_def st(1) claimed4_def)
  show "insert b L = L - held4 l \<union> held4 l'" using held new p(5) by auto
  fix a assume "a \<in> claimed4 l'"
  moreover have "fresh_lock root V L l b"
    using x tree_in_dom [OF p(2)] b st(1) unfolding fresh_lock_def claimed4_def by auto
  ultimately show "a \<in> claimed4 l \<or> fresh_lock root V L l a" using new by auto
qed

lemma quiet_pop:
  assumes pre: "step_pre4 root V T L k \<sigma> l" and abs: "abs4 \<sigma>' = (V, L - {snd f}, k)"
    and st: "stack4 l = f # fs" "unlocked4 l = 0" "map snd (stack4 l') = map snd fs" "linked4 V (stack4 l')"
      "unlocked4 l' = 0"
    and l': "place_inv root V T l' (pc4 l')" "op_range l' = op_range l" "adding l' = adding l" "removing4 l' = removing4 l"
  shows "step_post4 root V T L l (\<sigma>', l')"
proof (rule quietI [OF pre abs _ l'(1) _ _ l'(2-4)])
  note p = step_preD [OF pre]
  have set: "snd ` set (stack4 l') = snd ` set fs" using st(3) by (metis set_map)
  then show "stack_inv root V T (stack4 l')" using p(3) st(1,3,4) by (simp add: stack_inv_def)
  have "claimed4 l = insert (snd f) (claimed4 l')" "snd f \<notin> claimed4 l'"
    using p(3) st(1) set by (auto simp: claimed4_def stack_inv_def)
  moreover have "held4 l = claimed4 l" "held4 l' = claimed4 l'" using st by (simp_all add: stack_plain)
  ultimately show "L - {snd f} = L - held4 l \<union> held4 l'" "\<And>a. a \<in> claimed4 l' \<Longrightarrow> a \<in> claimed4 l \<or> fresh_lock root V L l a"
    using p(5) by auto
qed

lemma quiet_same:
  assumes pre: "step_pre4 root V T L k \<sigma> l" and abs: "abs4 \<sigma>' = (V, L, k)"
    and st: "map snd (stack4 l') = map snd (stack4 l)" "linked4 V (stack4 l')" "unlocked4 l = 0" "unlocked4 l' = 0"
    and l': "place_inv root V T l' (pc4 l')" "op_range l' = op_range l" "adding l' = adding l" "removing4 l' = removing4 l"
  shows "step_post4 root V T L l (\<sigma>', l')"
proof (rule quietI [OF pre abs _ l'(1) _ _ l'(2-4)])
  note p = step_preD [OF pre]
  have set: "snd ` set (stack4 l') = snd ` set (stack4 l)" using st(1) by (metis set_map)
  then show "stack_inv root V T (stack4 l')" using p(3) st(1,2) by (simp add: stack_inv_def)
  have "claimed4 l' = claimed4 l" using set by (simp add: claimed4_def)
  moreover have "held4 l = claimed4 l" "held4 l' = claimed4 l'" using st by (simp_all add: stack_plain)
  ultimately show "L = L - held4 l \<union> held4 l'" "\<And>a. a \<in> claimed4 l' \<Longrightarrow> a \<in> claimed4 l \<or> fresh_lock root V L l a"
    using p(5) by auto
qed

lemmas place_defs = stack4_def unlocked4_def adding_def removing4_def

subsection \<open>Entering, searching and leaving\<close>

lemma prepare_step_ok:
  assumes pre: "step_pre4 root V T L k \<sigma> l" and pc: "pc4 l = Preparing"
  shows "gives (prepare_step root \<sigma> l) (step_post4 root V T L l)"
proof -
  note p = step_preD [OF pre]
  from tree_invD(4) [OF p(2)] obtain v where v: "V root = Some v" by blast
  from abs4_node [OF p(1) v] obtain n where "t_heap \<sigma> root = Some n" "m_mutex n \<longleftrightarrow> root \<in> L" by metis
  then have lk: "is_locked (Some root) \<sigma> \<longleftrightarrow> root \<in> L" by (simp add: is_locked_def)
  show ?thesis
  proof (cases "root \<in> L")
    case True
    then show ?thesis using lk quiet_wait [OF pre] by (simp add: prepare_step_def)
  next
    case False
    have "gives (mutex_lock root \<sigma>) (\<lambda>\<sigma>. step_post4 root V T L l
        (\<sigma>, l\<lparr>lk := \<lparr>m_lk_range = get_infinite_range, m_subtree = root\<rparr>, pc4 := Prepared\<rparr>))"
    proof (rule mutex_lock_rule [OF p(1) v False])
      fix \<sigma>' assume a: "abs4 \<sigma>' = (V, insert root L, k)"
      show "step_post4 root V T L l
          (\<sigma>', l\<lparr>lk := \<lparr>m_lk_range = get_infinite_range, m_subtree = root\<rparr>, pc4 := Prepared\<rparr>)"
        by (rule quietI [OF pre a])
          (use pc v False in \<open>auto simp: place_defs held4_def claimed4_def stack_inv_def fresh_lock_def\<close>)
    qed
    then show ?thesis using False lk by (simp add: prepare_step_def)
  qed
qed

lemma release_step4_ok:
  assumes pre: "step_pre4 root V T L k \<sigma> l" and pc: "pc4 l = Releasing"
  shows "gives (release_step4 \<sigma> l) (step_post4 root V T L l)"
proof -
  note p = step_preD [OF pre]
  from p(3) pc have "m_subtree (lk l) \<in> insert root (set_tree T)" by (auto simp: stack_inv_def place_defs)
  with tree_in_dom [OF p(2)] obtain v where v: "V (m_subtree (lk l)) = Some v" by blast
  have "m_subtree (lk l) \<in> L" using p(5) pc by (simp add: held4_def place_defs)
  then show ?thesis
    unfolding release_step4_def gives_simps
    by (rule mutex_unlock_rule [OF p(1) v])
      (rule quiet_pop [OF pre, of _ "(Left_Side, m_subtree (lk l))" "[]"]; use pc in \<open>simp add: place_defs\<close>)
qed

lemma placed_at_root:
  assumes "tree_inv root V k T" "root \<in> set_tree T"
  shows "placed V T q root"
  using tree_shape(1) [OF assms] by (intro placed_root) (cases T; auto)

lemma acquire_step4_ok:
  assumes pre: "step_pre4 root V T L k \<sigma> l" and pc: "pc4 l = Acquiring"
  shows "gives (acquire_step4 root \<sigma> l) (step_post4 root V T L l)"
proof -
  note p = step_preD [OF pre]
  from p(4) pc have sub: "m_subtree (lk l) = root" and q: "closed_valid (kr (op_range l))" by auto
  from tree_invD(4) [OF p(2)] obtain v where v: "V root = Some v" by blast
  show ?thesis
    unfolding acquire_step4_def gives_simps
  proof (rule read_rule [OF p(1) v])
    fix n assume n: "v = vnode_of n"
    show "step_post4 root V T L l (\<sigma>, if m_is_empty n \<or> range_overlaps (op_range l) n then end_acquire root l
        else l\<lparr>frames := [(Left_Side, root)], pc4 := Find None\<rparr>)"
    proof (cases "m_is_empty n \<or> range_overlaps (op_range l) n")
      case True
      have "step_post4 root V T L l (\<sigma>, end_acquire root l)"
        by (rule quiet_same [OF pre p(1)]) (use pc sub in \<open>simp_all add: end_acquire_def place_defs homed_def\<close>)
      with True show ?thesis by simp
    next
      case False
      with n have "\<not> v_empty v" and no: "\<not> closed_overlaps (kr (op_range l)) (kr (rg4 V root))"
        using v closed.overlaps_sym [of "kr (op_range l)" "kr (m_range n)"]
        by (auto simp: range_overlaps_def overlaps_closed rg4_def)
      then have "root \<in> set_tree T" using p(2) v by (auto elim!: tree_inv_cases dest: shape_root_in)
      then have "searching V T (l\<lparr>frames := [(Left_Side, root)], pc4 := Find None\<rparr>)"
        using q no placed_at_root [OF p(2)] by (simp add: searching_def this4_def)
      then have "step_post4 root V T L l (\<sigma>, l\<lparr>frames := [(Left_Side, root)], pc4 := Find None\<rparr>)"
        by (intro quiet_same [OF pre p(1)]) (use pc sub in \<open>simp_all add: place_defs\<close>)
      with False show ?thesis by simp
    qed
  qed
qed

end
