(* ===== verification/V4_Walk.thy ===== *)
theory V4_Walk
  imports V4_Steps
begin

text \<open>
  The steps of a thread that walk through the tree and leave its ranges as they are: the search, the
  ways down to a node and the ways back.
\<close>

lemma searching_ends:
  assumes "searching V T l"
  shows "homed root V T (end_acquire (this4 l) l)"
  using assms by (auto simp: searching_def homed_def end_acquire_def)

lemma this4_Cons [simp]: "this4 (l\<lparr>frames := f # fs, pc4 := p\<rparr>) = snd f" "this4 (l\<lparr>frames := f # fs\<rparr>) = snd f"
  "this4 (l\<lparr>pc4 := p\<rparr>) = this4 l"
  by (simp_all add: this4_def)

lemma predicates_pc [simp]:
  "searching V T (l\<lparr>pc4 := p\<rparr>) = searching V T l" "working root V T (l\<lparr>pc4 := p\<rparr>) = working root V T l"
  "inserting4 root V T (l\<lparr>pc4 := p\<rparr>) = inserting4 root V T l" "going root V T (l\<lparr>pc4 := p\<rparr>) w d = going root V T l w d"
  "homed root V T (l\<lparr>pc4 := p\<rparr>) = homed root V T l" "cutting root V T (l\<lparr>pc4 := p\<rparr>) d n = cutting root V T l d n"
  "homed root V T (l\<lparr>frames := fs, pc4 := p\<rparr>) = homed root V T l" "homed root V T (l\<lparr>frames := fs\<rparr>) = homed root V T l"
  "comes_back root (l\<lparr>frames := fs, pc4 := p\<rparr>) = comes_back root l" "comes_back root (l\<lparr>frames := fs\<rparr>) = comes_back root l"
  by (simp_all add: searching_def working_def inserting4_def going_def homed_def cutting_def comes_back_def this4_def)

lemma rg4_node: "V a = Some v \<Longrightarrow> v = vnode_of n \<Longrightarrow> m_range n = rg4 V a"
  by (simp add: rg4_def)

lemma find_step4_ok:
  assumes pre: "step_pre4 root V T L k \<sigma> l" and pc: "pc4 l = Find hint"
  shows "gives (find_step4 hint \<sigma> l) (step_post4 root V T L l)"
proof -
  note p = step_preD [OF pre]
  let ?x = "this4 l" and ?q = "op_range l"
  from p(4) pc have s: "searching V T l" and h: "hint = None \<or> hint = Some (compare ?q (rg4 V ?x))" by auto
  from s obtain e where fr: "frames l = [(e, ?x)]" and x: "?x \<in> set_tree T" by (auto simp: searching_def)
  obtain v where v: "V ?x = Some v" using tree_node [OF p(2) x] .
  let ?d = "turn ?q (rg4 V ?x)"
  have "gives (lock_child ?d ?x \<sigma> l (\<lambda>cp \<sigma>. case cp of None \<Rightarrow> Some (\<sigma>, end_acquire ?x l)
      | Some b \<Rightarrow> Some (\<sigma>, l\<lparr>pc4 := Balance Finding ?d b\<rparr>))) (step_post4 root V T L l)"
  proof (rule lock_child_rule [OF p(1) v])
    show "gives (case None of None \<Rightarrow> Some (\<sigma>, end_acquire ?x l)
        | Some b \<Rightarrow> Some (\<sigma>, l\<lparr>pc4 := Balance Finding ?d b\<rparr>)) (step_post4 root V T L l)"
      using pc fr searching_ends [OF s, of root]
      by (auto intro!: quiet_same [OF pre p(1)] simp: end_acquire_def place_defs)
  next
    fix b \<sigma>' assume b: "v_child v ?d = Some b" "b \<notin> L" "abs4 \<sigma>' = (V, insert b L, k)"
    show "gives (case Some b of None \<Rightarrow> Some (\<sigma>', end_acquire ?x l)
        | Some b \<Rightarrow> Some (\<sigma>', l\<lparr>pc4 := Balance Finding ?d b\<rparr>)) (step_post4 root V T L l)"
      unfolding option.case gives_simps
      by (rule quiet_push [OF pre b(3) _ _ _ _ x v b(1,2), where e = e and fs = "[]"])
        (use pc fr s in \<open>simp_all add: place_defs going_def\<close>)
  qed (use quiet_wait [OF pre] tree_child(1) [OF p(2) x v] tree_in_dom [OF p(2)] in auto)
  moreover have "(case hint of Some c \<Rightarrow> c | None \<Rightarrow> compare ?q (rg4 V ?x)) = compare ?q (rg4 V ?x)"
    using h by auto
  ultimately show ?thesis
    unfolding find_step4_def gives_simps
    apply (intro read_rule [OF p(1) v])
    subgoal premises n for n
      using n(1,2) unfolding Let_def rg4_node [of V "this4 l", OF v n(4)] by (simp only:)
    done
qed

text \<open>The range of an operation belongs below the next node on its way.\<close>

lemma next_placed:
  assumes inv: "tree_inv root V k T" and x: "x \<in> set_tree T" "V x = Some v" "v_child v (turn q (rg4 V x)) = Some b"
    and q: "placed V T q x" "closed_valid (kr q)" "\<not> closed_overlaps (kr q) (kr (rg4 V x))"
  shows "placed V T q b" "b \<in> set_tree T"
  using placed_down [OF tree_shape(1) [OF inv x(1)] tree_invD(2,3) [OF inv] q(1) x q(2,3)]
    tree_child(1) [OF inv x] by simp_all

lemma fits_node: "fits V T q \<Longrightarrow> x \<in> set_tree T \<Longrightarrow> \<not> closed_overlaps (kr q) (kr (rg4 V x))"
  by (auto simp: fits_def ranges4_def)

lemma balanced_find_ok:
  assumes pre: "step_pre4 root V T L k \<sigma> l" and pc: "pc4 l = Balanced Finding d b"
  shows "gives (balanced_step Finding d b \<sigma> l) (step_post4 root V T L l)"
proof -
  note p = step_preD [OF pre]
  let ?x = "this4 l" and ?q = "op_range l"
  from p(4) pc have s: "searching V T l" and d: "d = turn ?q (rg4 V ?x)" by (auto simp: going_def)
  from s obtain e where fr: "frames l = [(e, ?x)]" and x: "?x \<in> set_tree T" and q: "closed_valid (kr ?q)"
    "placed V T ?q ?x" "\<not> closed_overlaps (kr ?q) (kr (rg4 V ?x))" by (auto simp: searching_def)
  have st: "stack4 l = [(d, b), (e, ?x)]" using pc fr by (simp add: stack4_def)
  with p(3) obtain v where v: "V ?x = Some v" "v_child v d = Some b" by (auto simp: stack_inv_def)
  note b = next_placed [OF p(2) x v(1) v(2) [unfolded d] q(2,1,3)]
  from b(2) obtain w where w: "V b = Some w" using tree_node [OF p(2)] by metis
  have L: "b \<in> L" "?x \<in> L" using p(5) pc by (auto simp: held4_def st unlocked4_def)
  have ne: "b \<noteq> ?x" using p(3) by (auto simp: stack_inv_def st)
  have stop: "gives (mutex_unlock b \<sigma>) (\<lambda>\<sigma>. step_post4 root V T L l (\<sigma>, end_acquire ?x l))"
    by (rule mutex_unlock_rule [OF p(1) w L(1)], rule quiet_pop [OF pre, of _ "(d, b)" "[(e, ?x)]"])
      (use pc st searching_ends [OF s, of root] in \<open>simp_all add: end_acquire_def place_defs\<close>)
  have "gives (mutex_unlock ?x \<sigma>) (\<lambda>\<sigma>. step_post4 root V T L l
      (\<sigma>, l\<lparr>frames := [(d, b)], pc4 := Find (Some (compare ?q (rg4 V b)))\<rparr>))"
    if "\<not> overlaps ?q (rg4 V b)"
  proof (rule mutex_unlock_rule [OF p(1) v(1) L(2)])
    fix \<sigma>' assume a: "abs4 \<sigma>' = (V, L - {?x}, k)"
    have "searching V T (l\<lparr>frames := [(d, b)], pc4 := Find (Some (compare ?q (rg4 V b)))\<rparr>)"
      using that b q(1) by (simp add: searching_def overlaps_closed)
    then show "step_post4 root V T L l (\<sigma>', l\<lparr>frames := [(d, b)], pc4 := Find (Some (compare ?q (rg4 V b)))\<rparr>)"
      by (intro quietI [OF pre a])
        (use pc st b L ne in \<open>auto simp: place_defs held4_def claimed4_def stack_inv_def fr\<close>)
  qed
  with stop show ?thesis
    unfolding balanced_step_def job4.case gives_simps
    by (intro read_rule [OF p(1) w]) (auto simp: Let_def rg4_def w overlaps_def)
qed

lemma balanced_add_ok:
  assumes pre: "step_pre4 root V T L k \<sigma> l" and pc: "pc4 l = Balanced Adding d b"
  shows "gives (balanced_step Adding d b \<sigma> l) (step_post4 root V T L l)"
proof -
  note p = step_preD [OF pre]
  let ?x = "this4 l" and ?q = "op_range l"
  from p(4) pc have s: "inserting4 root V T l" and d: "d = turn ?q (rg4 V ?x)" by (auto simp: going_def)
  then obtain e fs where fr: "frames l = (e, ?x) # fs" and x: "?x \<in> set_tree T" and q: "placed V T ?q ?x"
    by (cases "frames l") (auto simp: inserting4_def working_def this4_def)
  have st: "stack4 l = (d, b) # frames l" using pc by (simp add: stack4_def)
  with p(3) obtain v where v: "V ?x = Some v" "v_child v d = Some b" by (auto simp: stack_inv_def fr)
  from s x have "closed_valid (kr ?q)" "\<not> closed_overlaps (kr ?q) (kr (rg4 V ?x))"
    using fits_node [of V T ?q ?x] by (auto simp: inserting4_def fits_def)
  note b = next_placed [OF p(2) x v(1) v(2) [unfolded d] q this]
  have "inserting4 root V T (l\<lparr>frames := (d, b) # frames l, pc4 := Insert_Below\<rparr>)"
    using s b by (auto simp: inserting4_def working_def)
  then have "step_post4 root V T L l (\<sigma>, l\<lparr>frames := (d, b) # frames l, pc4 := Insert_Below\<rparr>)"
    by (intro quiet_same [OF pre p(1)]) (use pc st p(3) in \<open>simp_all add: place_defs stack_inv_def\<close>)
  then show ?thesis by (simp add: balanced_step_def)
qed

subsection \<open>The way back\<close>

lemma comes_back_ok:
  assumes "comes_back root l" "homed root V T l" "p = after4 l"
  shows "place_inv root V T (l\<lparr>frames := [], pc4 := p\<rparr>) p" "stack4 (l\<lparr>frames := [], pc4 := p\<rparr>) = [(Left_Side, m_subtree (lk l))]"
    "unlocked4 (l\<lparr>frames := [], pc4 := p\<rparr>) = 0" "\<not> adding (l\<lparr>frames := [], pc4 := p\<rparr>)" "\<not> removing4 (l\<lparr>frames := [], pc4 := p\<rparr>)"
  using assms by (auto simp: comes_back_def place_defs)

lemma return_ok:
  assumes pre: "step_pre4 root V T L k \<sigma> l" and w: "working root V T l" and fr: "length (frames l) \<le> 1"
    and st: "stack4 l = frames l" "unlocked4 l = 0" "\<not> adding l" "\<not> removing4 l"
  shows "step_post4 root V T L l (\<sigma>, l\<lparr>frames := [], pc4 := after4 l\<rparr>)"
proof -
  from w fr obtain d where "frames l = [(d, m_subtree (lk l))]"
    by (cases "frames l") (auto simp: working_def)
  with st w show ?thesis
    using comes_back_ok [of root l V T "after4 l"] step_preD(1) [OF pre]
    by (intro quiet_same [OF pre]) (auto simp: working_def)
qed

lemma working_tl: "working root V T l \<Longrightarrow> frames l = f # g # fs \<Longrightarrow> working root V T (l\<lparr>frames := g # fs\<rparr>)"
  by (auto simp: working_def)

text \<open>Unlocking the innermost node of the stack.\<close>

lemma unlock_top:
  assumes pre: "step_pre4 root V T L k \<sigma> l" and st: "stack4 l = (d, a) # fs" "unlocked4 l = 0"
    and P: "\<And>\<sigma>'. abs4 \<sigma>' = (V, L - {a}, k) \<Longrightarrow> P \<sigma>'"
  shows "gives (mutex_unlock a \<sigma>) P"
proof -
  note p = step_preD [OF pre]
  from p(3) st have "a \<in> insert root (set_tree T)" by (simp add: stack_inv_def)
  with tree_in_dom [OF p(2)] obtain v where "V a = Some v" by blast
  moreover have "a \<in> L" using p(5) st by (simp add: held4_def)
  ultimately show ?thesis using P by (rule mutex_unlock_rule [OF p(1)])
qed

lemma insert_return_ok:
  assumes pre: "step_pre4 root V T L k \<sigma> l" and pc: "pc4 l = Insert_Return"
  shows "gives (insert_return_step \<sigma> l) (step_post4 root V T L l)"
proof (cases "length (frames l) \<le> 1")
  case True
  then show ?thesis
    using return_ok [OF pre _ True] step_preD(4) [OF pre] pc by (simp add: insert_return_step_def place_defs)
next
  case False
  then obtain d a g fs where fr: "frames l = (d, a) # g # fs" by (cases "frames l" rule: remdups_adj.cases) auto
  have w: "working root V T l" using step_preD(4) [OF pre] pc by simp
  have "gives (mutex_unlock a \<sigma>) (\<lambda>\<sigma>. step_post4 root V T L l (\<sigma>, l\<lparr>frames := g # fs\<rparr>))"
    by (rule unlock_top [OF pre, of d], (use pc fr in \<open>simp_all add: place_defs\<close>)[2],
        rule quiet_pop [OF pre, of _ "(d, a)" "g # fs"])
      (use pc fr working_tl [OF w fr] step_preD(3) [OF pre] linked4_tl [of V "frames l"]
        in \<open>simp_all add: place_defs stack_inv_def\<close>)
  then show ?thesis using False fr by (simp add: insert_return_step_def this4_def)
qed

lemma remove_return_ok:
  assumes pre: "step_pre4 root V T L k \<sigma> l" and pc: "pc4 l = Remove_Return"
  shows "gives (remove_return_step \<sigma> l) (step_post4 root V T L l)"
proof (cases "length (frames l) \<le> 1")
  case True
  then have "remove_return_step \<sigma> l = Some (\<sigma>, l\<lparr>frames := [], pc4 := after4 l\<rparr>)"
    by (auto simp: remove_return_step_def split: list.splits)
  then show ?thesis
    using return_ok [OF pre _ True] step_preD(4) [OF pre] pc by (simp add: place_defs)
next
  case False
  then obtain d a d' q fs where fr: "frames l = (d, a) # (d', q) # fs"
    by (cases "frames l" rule: remdups_adj.cases) auto
  note p = step_preD [OF pre]
  have w: "working root V T l" using p(4) pc by simp
  have st: "stack4 l = frames l" using pc by (simp add: stack4_def)
  from p(3) fr st obtain v where v: "V q = Some v" "v_child v d = Some a" by (auto simp: stack_inv_def)
  from p(3) fr st have "a \<in> insert root (set_tree T)" by (simp add: stack_inv_def)
  with tree_in_dom [OF p(2)] obtain u where u: "V a = Some u" by blast
  have same: "vset d (Some a) v = v" using v(2) by (simp add: vset_def fun_upd_idem)
  have post: "step_post4 root V T L l (\<sigma>', l\<lparr>frames := (d', q) # fs\<rparr>)" if "abs4 \<sigma>' = (V, L - {a}, k)" for \<sigma>'
    by (rule quiet_pop [OF pre, of _ "(d, a)" "(d', q) # fs"])
      (use pc fr that working_tl [OF w fr] p(3) linked4_tl [of V "frames l"]
        in \<open>simp_all add: place_defs stack_inv_def\<close>)
  have "gives (mutex_unlock a \<sigma>) (\<lambda>\<sigma>. gives (set_child d q (Some a) \<sigma>)
      (\<lambda>\<sigma>. step_post4 root V T L l (\<sigma>, l\<lparr>frames := (d', q) # fs\<rparr>)))"
  proof (rule unlock_top [OF pre])
    fix \<sigma>1 assume a: "abs4 \<sigma>1 = (V, L - {a}, k)"
    show "gives (set_child d q (Some a) \<sigma>1) (\<lambda>\<sigma>. step_post4 root V T L l (\<sigma>, l\<lparr>frames := (d', q) # fs\<rparr>))"
      by (rule set_child_rule [OF a v(1)]) (use u same v(1) post in \<open>simp_all add: map_upd_triv\<close>)
  qed (use fr st pc in \<open>simp_all add: unlocked4_def\<close>)
  then show ?thesis using fr by (simp add: remove_return_step_def)
qed

subsection \<open>The way down of a removal\<close>

lemma target_same:
  assumes inv: "tree_inv root V k T" and x: "x \<in> set_tree T" and q: "kr q \<in> ranges4 V T"
    and o: "closed_overlaps (kr q) (kr (rg4 V x))"
  shows "rg4 V x = q"
proof -
  from x have "kr (rg4 V x) \<in> set (rgs V (inorder T))" "kr q \<in> set (rgs V (inorder T))"
    using q by (auto simp: ranges4_def)
  then have "kr q = kr (rg4 V x)" using ordered_disjoint [OF tree_invD(3) [OF inv]] o
    unfolding pairwise_disjoint_def by blast
  then show ?thesis by simp
qed

lemma target_compare:
  assumes "tree_inv root V k T" "x \<in> set_tree T" "kr q \<in> ranges4 V T" "closed_valid (kr q)"
  shows "compare q (rg4 V x) = EQUALS \<longleftrightarrow> rg4 V x = q" "compare q (rg4 V x) \<noteq> OVERLAPS"
    "compare q (rg4 V x) \<noteq> EQUALS \<Longrightarrow> \<not> closed_overlaps (kr q) (kr (rg4 V x))"
proof -
  have o: "overlaps q (rg4 V x) \<Longrightarrow> rg4 V x = q" using target_same [OF assms(1-3)] by (simp add: overlaps_closed)
  have e: "compare q q = EQUALS" using assms(4) by (auto simp: compare_def kr_def closed_valid_def)
  show "compare q (rg4 V x) = EQUALS \<longleftrightarrow> rg4 V x = q" "compare q (rg4 V x) \<noteq> OVERLAPS"
    using o e by (auto simp: overlaps_def)
  then show "compare q (rg4 V x) \<noteq> EQUALS \<Longrightarrow> \<not> closed_overlaps (kr q) (kr (rg4 V x))"
    unfolding overlaps_closed [symmetric] by (auto simp: overlaps_def)
qed

lemma target_child:
  assumes inv: "tree_inv root V k T" and x: "x \<in> set_tree T" "V x = Some v"
    and q: "kr q \<in> ranges4 V T" "closed_valid (kr q)" "placed V T q x" "rg4 V x \<noteq> q"
  obtains b where "v_child v (turn q (rg4 V x)) = Some b"
proof -
  let ?d = "turn q (rg4 V x)"
  have no: "\<not> closed_overlaps (kr q) (kr (rg4 V x))" using target_same [OF inv x(1) q(1)] q(4) by blast
  have "v_child v ?d \<noteq> None"
  proof
    assume none: "v_child v ?d = None"
    obtain d where d: "?d = d" by simp
    from x(1) obtain c s s' where t: "T = plug c (mk d s x s')" by (rule focus_node)
    from tree_shape(1) [OF inv x(1)] obtain y where "shape V (Some y) (mk d s x s')" unfolding t
      by (rule shape_plug_sub) simp
    with x(2) none d have s: "s = Leaf" by auto
    from q(1) obtain z where z: "z \<in> set_tree T" "kr (rg4 V z) = kr q" by (auto simp: ranges4_def)
    have "z \<in> desc T x"
      by (rule placed_overlap [OF q(3) z(1)]) (use z(2) q(2) tree_valid [OF inv z(1)] in \<open>auto simp: closed_defs\<close>)
    then have "z \<in> set_tree s'"
      using desc_focus [of c d s x s'] tree_invD(2) [OF inv] z(2) q(4) by (auto simp: t s)
    moreover have "ordered (rgs V (inorder (mk d s x s')))" using tree_invD(3) [OF inv] by (simp add: t inorder_plug)
    ultimately have "if d = Left_Side then closed_before (kr (rg4 V x)) (kr q) else closed_before (kr q) (kr (rg4 V x))"
      using z(2) set_inorder [of s'] by (cases d) (auto simp: mk_def s)
    moreover have "d = Left_Side \<longleftrightarrow> closed_before (kr q) (kr (rg4 V x))"
      using d by (auto simp: compare_less split: if_splits)
    ultimately show False using q(2) tree_valid [OF inv x(1)] no by (auto simp: closed_defs split: if_splits)
  qed
  with that show thesis by blast
qed

lemma frames_head: "working root V T l \<Longrightarrow> \<exists>d fs. frames l = (d, this4 l) # fs"
  by (cases "frames l") (auto simp: working_def this4_def)

lemma working_push: "working root V T l \<Longrightarrow> working root V T (l\<lparr>frames := f # frames l\<rparr>)"
  by (auto simp: working_def)

text \<open>Only the root of the whole tree is taken out of its own subtree.\<close>

lemma home_is_root:
  assumes "working root V T l" "allowed root l" "rg4 V (m_subtree (lk l)) = op_range l" "closed_valid (kr (op_range l))"
  shows "m_subtree (lk l) = root"
  using assms by (auto simp: working_def homed_def allowed_def within_def closed_defs kr_def)

lemma remove_down_ok:
  assumes pre: "step_pre4 root V T L k \<sigma> l" and pc: "pc4 l = Remove_At"
    and v: "V (this4 l) = Some v" and b: "v_child v d = Some b0"
    and goes: "rg4 V (this4 l) = op_range l \<and> g = (\<lambda>b. l\<lparr>frames := (d, b) # frames l, pc4 := Extreme (other d) 0\<rparr>) \<or>
      rg4 V (this4 l) \<noteq> op_range l \<and> d = turn (op_range l) (rg4 V (this4 l)) \<and> g = (\<lambda>b. l\<lparr>frames := (d, b) # frames l\<rparr>)"
  shows "gives (lock_child d (this4 l) \<sigma> l (\<lambda>cp \<sigma>. cp \<bind> (\<lambda>b. Some (\<sigma>, g b)))) (step_post4 root V T L l)"
proof -
  note p = step_preD [OF pre]
  let ?x = "this4 l" and ?q = "op_range l"
  from p(4) pc have w: "working root V T l" "allowed root l" and q: "closed_valid (kr ?q)" "kr ?q \<in> ranges4 V T"
    "placed V T ?q ?x" by auto
  note x = placed_in [OF q(3,2,1)]
  from frames_head [OF w(1)] obtain e fs where fr: "frames l = (e, ?x) # fs" by blast
  show ?thesis
  proof (rule lock_child_rule [OF p(1) v])
    fix b \<sigma>' assume c: "v_child v d = Some b" "b \<notin> L" "abs4 \<sigma>' = (V, insert b L, k)"
    have place: "place_inv root V T (g b) (pc4 (g b))"
      using goes
    proof
      assume g: "rg4 V ?x = ?q \<and> g = (\<lambda>b. l\<lparr>frames := (d, b) # frames l, pc4 := Extreme (other d) 0\<rparr>)"
      then have "?x = m_subtree (lk l) \<longrightarrow> m_subtree (lk l) = root" using home_is_root [OF w _ q(1)] by metis
      with g w(1) fr tree_child(1) [OF p(2) x v c(1)] show ?thesis
        by (auto simp: cutting_def working_def)
    next
      assume g: "rg4 V ?x \<noteq> ?q \<and> d = turn ?q (rg4 V ?x) \<and> g = (\<lambda>b. l\<lparr>frames := (d, b) # frames l\<rparr>)"
      then have "\<not> closed_overlaps (kr ?q) (kr (rg4 V ?x))" using target_same [OF p(2) x q(2)] by blast
      from next_placed [OF p(2) x v _ q(3,1) this, of b] c(1) g have "placed V T ?q b" by simp
      with g w q pc show ?thesis by (auto simp: working_def allowed_def)
    qed
    have "step_post4 root V T L l (\<sigma>', g b)"
      by (rule quiet_push [OF pre c(3) _ _ _ _ x v c(1,2) place, where e = e and fs = fs])
        (use goes pc fr in \<open>auto simp: place_defs\<close>)
    then show "gives (Some b \<bind> (\<lambda>b. Some (\<sigma>', g b))) (step_post4 root V T L l)" by simp
  qed (use quiet_wait [OF pre] b tree_child(1) [OF p(2) x v] tree_in_dom [OF p(2)] in auto)
qed

lemma extreme_step_ok:
  assumes pre: "step_pre4 root V T L k \<sigma> l" and pc: "pc4 l = Extreme d n"
  shows "gives (extreme_step d n \<sigma> l) (step_post4 root V T L l)"
proof -
  note p = step_preD [OF pre]
  let ?x = "this4 l"
  from p(4) pc have c: "cutting root V T l d n" by simp
  then have w: "working root V T l" and x: "?x \<in> set_tree T" by (simp_all add: cutting_def)
  from frames_head [OF w] obtain e fs where fr: "frames l = (e, ?x) # fs" by blast
  obtain v where v: "V ?x = Some v" using tree_node [OF p(2) x] .
  show ?thesis
    unfolding extreme_step_def
  proof (rule lock_child_rule [OF p(1) v])
    assume "v_child v d = None"
    then show "gives (case None of None \<Rightarrow> Some (\<sigma>, l\<lparr>pc4 := Extreme_Return d n 0\<rparr>)
        | Some c \<Rightarrow> Some (\<sigma>, l\<lparr>frames := (d, c) # frames l, pc4 := Extreme d (n + 1)\<rparr>)) (step_post4 root V T L l)"
      using pc c v p(3) by (auto intro!: quiet_same [OF pre p(1)] simp: place_defs stack_inv_def)
  next
    fix b \<sigma>' assume b: "v_child v d = Some b" "b \<notin> L" "abs4 \<sigma>' = (V, insert b L, k)"
    let ?l = "l\<lparr>frames := (d, b) # frames l, pc4 := Extreme d (n + 1)\<rparr>"
    have "fst (frames ?l ! i) = d" if "i < n + 1" for i
      using that c by (cases i) (auto simp: cutting_def)
    then have "cutting root V T ?l d (n + 1)"
      using c working_push [OF w] tree_child(1) [OF p(2) x v b(1)] by (auto simp: cutting_def working_def)
    then have "step_post4 root V T L l (\<sigma>', ?l)"
      by (intro quiet_push [OF pre b(3) _ _ _ _ x v b(1,2), where e = e and fs = fs])
        (use pc fr in \<open>simp_all add: place_defs\<close>)
    then show "gives (case Some b of None \<Rightarrow> Some (\<sigma>', l\<lparr>pc4 := Extreme_Return d n 0\<rparr>)
        | Some c \<Rightarrow> Some (\<sigma>', l\<lparr>frames := (d, c) # frames l, pc4 := Extreme d (n + 1)\<rparr>)) (step_post4 root V T L l)"
      by simp
  qed (use quiet_wait [OF pre] tree_child(1) [OF p(2) x v] tree_in_dom [OF p(2)] in auto)
qed

lemma extreme_unlock_ok:
  assumes pre: "step_pre4 root V T L k \<sigma> l" and pc: "pc4 l = Extreme_Return d n i" and i: "i < n"
  shows "gives (extreme_return_step d n i \<sigma> l) (step_post4 root V T L l)"
proof -
  note p = step_preD [OF pre]
  let ?a = "snd (frames l ! i)" and ?l = "l\<lparr>pc4 := Extreme_Return d n (i + 1)\<rparr>"
  from p(4) pc have c: "cutting root V T l d n" by simp
  then have len: "i < length (frames l)" using i by (simp add: cutting_def)
  have st: "stack4 l = frames l" "unlocked4 l = i" using pc by (simp_all add: place_defs)
  have dr: "drop i (frames l) = (frames l ! i) # drop (i + 1) (frames l)" using len by (simp add: Cons_nth_drop_Suc)
  have "distinct (map snd (drop i (frames l)))"
    using p(3) st by (metis drop_map distinct_drop stack_inv_def)
  then have new: "held4 l = insert ?a (held4 ?l)" "?a \<notin> held4 ?l"
    unfolding dr held4_def using st dr by (auto simp: place_defs)
  from p(3) st(1) have "snd ` set (frames l) \<subseteq> insert root (set_tree T)" by (simp add: stack_inv_def)
  moreover have "?a \<in> snd ` set (frames l)" using len by simp
  ultimately have "?a \<in> insert root (set_tree T)" by (rule subsetD)
  with tree_in_dom [OF p(2)] obtain v where v: "V ?a = Some v" by blast
  have "gives (mutex_unlock ?a \<sigma>) (\<lambda>\<sigma>. step_post4 root V T L l (\<sigma>, ?l))"
  proof (rule mutex_unlock_rule [OF p(1) v])
    show "?a \<in> L" using p(5) new by auto
    fix \<sigma>' assume a: "abs4 \<sigma>' = (V, L - {?a}, k)"
    show "step_post4 root V T L l (\<sigma>', ?l)"
      by (rule quietI [OF pre a]) (use pc p(3-5) c i new in \<open>auto simp: place_defs claimed4_def\<close>)
  qed
  then show ?thesis using i by (simp add: extreme_return_step_def)
qed

end
