(* ===== verification/V4_Rotating.thy ===== *)
theory V4_Rotating
  imports V4_Walk
begin

text \<open>
  The steps of \<open>maybe_rebalance\<close>: rotations below the node a thread is at, while others work in the
  subtrees that are moved.
\<close>

lemma linked4_head:
  assumes "linked4 V ((e, x) # fs)" "\<And>a. a \<in> snd ` set fs \<Longrightarrow> V' a = V a"
  shows "linked4 V' ((e, x) # fs)"
proof (cases fs)
  case (Cons g gs)
  obtain d p where "g = (d, p)" by (cases g)
  with Cons assms linked4_cong [of V fs V'] show ?thesis by auto
qed simp

text \<open>A rotation of the tree at the side \<open>d\<close> of \<open>x\<close>, which brings the node \<open>y\<close> to its top.\<close>

lemma rotated_tree:
  assumes inv: "tree_inv root V k T" and x: "x \<in> set_tree T" "V x = Some v" "v_child v d = Some b"
    and same: "same_tree V s V2 (Some y) s2" and s: "shape V (Some b) s"
    and X: "\<And>z. z \<notin> X \<Longrightarrow> desc s2 z = desc s z"
  obtains T' where "tree_inv root (V2(x \<mapsto> vset d (Some y) v)) k T'"
    "kept X V T (V2(x \<mapsto> vset d (Some y) v)) T'" "set_tree T' = set_tree T" "V2 x = V x"
    "ranges4 (V2(x \<mapsto> vset d (Some y) v)) T' = ranges4 V T" "y \<in> set_tree T"
    "\<And>a. rg4 (V2(x \<mapsto> vset d (Some y) v)) a = rg4 V a"
proof -
  let ?V = "V2(x \<mapsto> vset d (Some y) v)"
  note shp = tree_shape(1) [OF inv x(1)] and dis = tree_invD(2) [OF inv]
  obtain c u s' where f: "T = plug c (mk d u x s')" "shape V (Some x) (mk d u x s')" "shape V (Some b) u"
    using child_focus [OF shp dis x] by metis
  have "u = s" using shape_unique [OF f(3) s] .
  note f = f(1,2) [unfolded this]
  from dis have ds: "x \<notin> set_tree s" "x \<notin> set_tree s'" "set_tree s \<inter> set_tree s' = {}"
    "set_tree (mk d s x s') \<inter> set (ctx_left c @ ctx_right c) = {}" by (auto simp: f(1) inorder_plug)
  from same have S: "shape V2 (Some y) s2" "inorder s2 = inorder s" "vdata V2 = vdata V"
    "\<And>a. a \<notin> set_tree s \<Longrightarrow> V2 a = V a" by (auto simp: same_tree_def)
  have set2: "set_tree s2 = set_tree s" using S(2) by (metis set_inorder)
  have x2: "V2 x = V x" using S(4) ds(1) by simp
  have dat: "vdata ?V = vdata V" using vdata_vset [of V2 x v d "Some y"] x2 x(2) S(3) by simp
  have s'2: "shape ?V (v_child v (other d)) s'"
    using f(2) x(2) ds S(4) by (auto elim!: shape_cong)
  have "shape ?V (Some y) s2" using S(1) set2 ds(1) by simp
  then have sub: "shape ?V (Some x) (mk d s2 x s')" using f(2) x(2) s'2 by auto
  have "shape ?V (Some root) (plug c (mk d s2 x s'))"
    by (rule shape_plug [OF shp [unfolded f(1)] f(2) sub]) (use ds S(4) in auto)
  moreover have io: "inorder (mk d s2 x s') = inorder (mk d s x s')" using S(2) by (cases d) (simp_all add: mk_def)
  then have "inorder (plug c (mk d s2 x s')) = inorder T" by (simp add: f(1) inorder_plug)
  moreover have "\<forall>a. a \<notin> set_tree T \<longrightarrow> ?V a = V a" using S(4) x(1) by (auto simp: f(1) set_plug)
  ultimately have st: "same_tree V T ?V (Some root) (plug c (mk d s2 x s'))" using dat by (simp add: same_tree_def)
  obtain w where w: "V root = Some w" "\<not> v_empty w" using tree_node [OF inv tree_shape(2) [OF inv x(1)]] .
  have set: "set_tree (plug c (mk d s2 x s')) = set_tree T" by (rule same_tree_set [OF st])
  have "kept X V (plug (c @ [(d, x, s')]) s) ?V (plug (c @ [(d, x, s')]) s2)"
    by (rule kept_rotation [OF set2 X dat])
  then have "kept X V T ?V (plug c (mk d s2 x s'))" by (simp add: f(1) plug_append)
  moreover have "ranges4 ?V (plug c (mk d s2 x s')) = ranges4 V T"
    unfolding ranges4_def set vdata_rg [OF dat] ..
  moreover have "y \<in> set_tree T" using shape_root_in [OF S(1)] set2 by (simp add: f(1) set_plug)
  ultimately show thesis using that same_tree_inv(1) [OF st inv w] set x2 vdata_rg [OF dat] by blast
qed

text \<open>The step that ends a rotation.\<close>

lemma rotation_post:
  assumes pre: "step_pre4 root V T L k \<sigma> l" and go: "going root V T l w d"
    and st: "stack4 l = es @ frames l" "unlocked4 l = 0" "adding l \<longleftrightarrow> w = Adding" "\<not> removing4 l"
    and v: "V (this4 l) = Some v" "v_child v d = Some b"
    and same: "same_tree V s V2 (Some y) s2" "shape V (Some b) s" "\<And>z. z \<notin> X \<Longrightarrow> desc s2 z = desc s z"
    and fr: "\<And>a. a \<notin> X \<Longrightarrow> V2 a = V a" and X: "X \<inter> snd ` set (frames l) = {}" "X \<subseteq> insert y (snd ` set es)"
    and y: "y \<notin> L \<and> (\<exists>p\<in>claimed4 l. \<exists>u e. V p = Some u \<and> v_child u e = Some y) \<or> y \<in> snd ` set es" "y \<in> X"
    and abs: "abs4 \<sigma>' = (V2(this4 l \<mapsto> vset d (Some y) v), insert y (L - snd ` set es), k)"
  shows "step_post4 root V T L l (\<sigma>', l\<lparr>pc4 := Balanced w d y\<rparr>)"
proof -
  note p = step_preD [OF pre]
  let ?x = "this4 l" and ?V = "V2(this4 l \<mapsto> vset d (Some y) v)" and ?l = "l\<lparr>pc4 := Balanced w d y\<rparr>"
  from go obtain e fs where f: "frames l = (e, ?x) # fs"
    by (cases "frames l") (auto simp: going_def searching_def inserting4_def working_def this4_def split: if_splits)
  have x: "?x \<in> set_tree T" using go by (auto simp: going_def searching_def inserting4_def split: if_splits)
  obtain T' where t: "tree_inv root ?V k T'" "kept X V T ?V T'" "set_tree T' = set_tree T" "V2 ?x = V ?x"
    "ranges4 ?V T' = ranges4 V T" "y \<in> set_tree T" "\<And>a. rg4 ?V a = rg4 V a"
    using rotated_tree [OF p(2) x v same] by metis
  have dis: "distinct (map snd (es @ frames l))" using p(3) st(1) by (simp add: stack_inv_def)
  have stay: "stays (snd ` set (frames l)) V T ?V T'" using t(2,7) X(1) by (auto simp: stays_def)
  have "fits ?V T' (op_range l)" if "w = Adding"
    using go that t(5) by (simp add: going_def inserting4_def fits_def)
  then have go': "going root ?V T' ?l w d" using going_stable [OF go stay] by simp
  have fr': "?V a = V a" if "a \<notin> X" "a \<noteq> ?x" for a using fr that by simp
  have "linked4 V (frames l)" using linked4_drop [of V "stack4 l" "length es"] p(3) st(1) by (simp add: stack_inv_def)
  moreover have "a \<notin> X" "a \<noteq> ?x" if "a \<in> snd ` set fs" for a
  proof -
    from that X(1) f show "a \<notin> X" by auto
    have "?x \<notin> snd ` set fs" using dis f by simp
    with that show "a \<noteq> ?x" by metis
  qed
  ultimately have "linked4 ?V (frames l)" using linked4_head [of V e ?x fs ?V] fr' f by metis
  then have stk: "stack_inv root ?V T' ((d, y) # frames l)"
    using p(3) st(1) f t(3,6) X(1) y(2) v by (auto simp: stack_inv_def)
  have held: "held4 l = snd ` set es \<union> snd ` set (frames l)" "held4 ?l = insert y (snd ` set (frames l))"
    "claimed4 l = snd ` set es \<union> snd ` set (frames l)" "claimed4 ?l = insert y (snd ` set (frames l))"
    using st by (auto simp: held4_def claimed4_def stack4_def unlocked4_def)
  have "insert y (L - snd ` set es) = L - held4 l \<union> held4 ?l" using held p(5) dis by auto
  moreover have "y \<in> claimed4 l \<or> fresh_lock root V L l y"
    using y(1)
  proof
    assume "y \<notin> L \<and> (\<exists>p\<in>claimed4 l. \<exists>u e. V p = Some u \<and> v_child u e = Some y)"
    then have "fresh_lock root V L l y" using tree_in_dom [OF p(2), of y] t(6) unfolding fresh_lock_def by blast
    then show ?thesis ..
  qed (simp add: held)
  then have "\<forall>a\<in>claimed4 ?l. a \<in> claimed4 l \<or> fresh_lock root V L l a"
    unfolding held(4) using held(3) by simp
  moreover have "action4 l ?l = Silent" using st by (auto simp: action4_def adding_def removing4_def)
  moreover have "X \<subseteq> claimed4 l \<union> claimed4 ?l" using X(2) held by auto
  moreover have "\<forall>a\<in>dom V. a \<notin> claimed4 l \<union> claimed4 ?l \<longrightarrow> ?V a = V a"
    using fr' X(2) held f by auto
  ultimately show ?thesis
    unfolding step_post4_def prod.case
    using abs t(1,2,5) go' stk st
    by (intro exI [of _ ?V] exI [of _ "insert y (L - snd ` set es)"] exI [of _ k] exI [of _ T'] exI [of _ X])
      (auto simp: thread_inv4_def stack4_def adding_def removing4_def)
qed

subsection \<open>The steps\<close>

lemma unlock_old_rule:
  assumes "abs4 \<sigma> = (V, L, k)" "cp = Some c" "V c = Some w" "V b = Some u" "c \<in> L" "b \<in> L" "b \<noteq> y" "b \<noteq> c"
    and "\<And>\<sigma>'. abs4 \<sigma>' = (V, L - ({b, c} - {y}), k) \<Longrightarrow> P \<sigma>'"
  shows "gives (unlock_old_roots cp b y \<sigma>) P"
proof -
  have last: "gives (mutex_unlock b \<sigma>1) P" if "abs4 \<sigma>1 = (V, L1, k)" "b \<in> L1" "L1 - {b} = L - ({b, c} - {y})" for \<sigma>1 L1
    by (rule mutex_unlock_rule [OF that(1) assms(4) that(2)]) (use assms(9) that(3) in simp)
  show ?thesis
  proof (cases "c = y")
    case True
    with assms(1,2,6,7) last [of \<sigma> L] show ?thesis by (simp add: unlock_old_roots_def insert_Diff_if)
  next
    case False
    have "gives (mutex_unlock c \<sigma>) (\<lambda>\<sigma>. gives (mutex_unlock b \<sigma>) P)"
    proof (rule mutex_unlock_rule [OF assms(1,3,5)])
      fix \<sigma>1 assume "abs4 \<sigma>1 = (V, L - {c}, k)"
      then show "gives (mutex_unlock b \<sigma>1) P" by (rule last) (use assms(6-8) False in auto)
    qed
    with False assms(2,7) show ?thesis by (simp add: unlock_old_roots_def)
  qed
qed

lemma going_facts:
  assumes "step_pre4 root V T L k \<sigma> l" "going root V T l w d" "stack4 l = es @ (d, b) # frames l"
  obtains v s where "V (this4 l) = Some v" "v_child v d = Some b" "this4 l \<in> set_tree T" "b \<in> set_tree T"
    "shape V (Some b) s" "distinct (inorder s)" "set_tree s \<subseteq> set_tree T" "this4 l \<notin> set_tree s"
proof -
  note p = step_preD [OF assms(1)]
  from assms(2) obtain e fs where f: "frames l = (e, this4 l) # fs"
    by (cases "frames l") (auto simp: going_def searching_def inserting4_def working_def this4_def split: if_splits)
  have x: "this4 l \<in> set_tree T" using assms(2) by (auto simp: going_def searching_def inserting4_def split: if_splits)
  have "linked4 V ((d, b) # (e, this4 l) # fs)"
    using linked4_drop [of V "stack4 l" "length es"] p(3) assms(3) f by (simp add: stack_inv_def)
  then obtain v where v: "V (this4 l) = Some v" "v_child v d = Some b" by auto
  obtain c s s' where "T = plug c (mk d s (this4 l) s')" "shape V (Some b) s" "b \<in> set_tree s"
    using child_focus [OF tree_shape(1) [OF p(2) x] tree_invD(2) [OF p(2)] x v] by metis
  with tree_invD(2) [OF p(2)] v x show thesis by (intro that) (auto simp: inorder_plug set_plug)
qed

lemma balance_step_ok:
  assumes pre: "step_pre4 root V T L k \<sigma> l" and pc: "pc4 l = Balance w d b"
  shows "gives (balance_step w d b \<sigma> l) (step_post4 root V T L l)"
proof -
  note p = step_preD [OF pre]
  let ?x = "this4 l"
  have st: "stack4 l = [] @ (d, b) # frames l" using pc by (simp add: stack4_def)
  from p(4) pc have go: "going root V T l w d" by simp
  obtain v s where v: "V ?x = Some v" "v_child v d = Some b" "?x \<in> set_tree T" "b \<in> set_tree T"
    and s: "shape V (Some b) s" "distinct (inorder s)" "set_tree s \<subseteq> set_tree T" "?x \<notin> set_tree s"
    using going_facts [OF pre go st] .
  obtain bv where bv: "V b = Some bv" using tree_node [OF p(2) v(4)] .
  from p(3) st have db: "b \<notin> snd ` set (frames l)" "b \<noteq> ?x" using s(1,4) by (auto simp: stack_inv_def dest: shape_root_in)
  have bL: "b \<in> L" using p(5) pc by (simp add: held4_def stack4_def unlocked4_def)
  show ?thesis
    unfolding balance_step_def gives_simps
  proof (rule read_rule [OF p(1) bv])
    fix n assume n: "bv = vnode_of n"
    show "gives (case heavy_side n of None \<Rightarrow> end_rotation w d b None b \<sigma> l
      | Some e \<Rightarrow> lock_child e b \<sigma> l (\<lambda>cp \<sigma>. cp \<bind> (\<lambda>c. t_heap \<sigma> c \<bind> (\<lambda>m. if imbalanced (other e) 0 m
          then Some (\<sigma>, l\<lparr>pc4 := Balance_Grandchild w d b e c\<rparr>)
          else rotate_single e b c \<sigma> \<bind> (\<lambda>\<sigma>. end_rotation w d b (Some c) c \<sigma> l))))) (step_post4 root V T L l)"
    proof (cases "heavy_side n")
      case None
      have same: "vset d (Some b) v = v" using v(2) by (simp add: vset_def fun_upd_idem)
      have "gives (set_child d ?x (Some b) \<sigma>) (\<lambda>\<sigma>. step_post4 root V T L l (\<sigma>, l\<lparr>pc4 := Balanced w d b\<rparr>))"
        by (rule set_child_rule [OF p(1) v(1)])
          (use bv same v(1) go pc st p(3) in \<open>auto simp: map_upd_triv place_defs stack_inv_def intro!: quiet_same [OF pre]\<close>)
      with None show ?thesis by (simp add: end_rotation_def unlock_old_roots_def)
    next
      case (Some e)
      with n have ce: "v_child bv e \<noteq> None"
        by (auto simp: heavy_side_def imbalanced_def split: if_splits)
      obtain A B where s': "s = mk e A b B" "shape V (v_child bv e) A" using s(1) bv
        by (cases s rule: mk_exhaust [where d = e]) auto
      obtain A1 A2 where A: "A = mk e A1 c A2" if "v_child bv e = Some c" for c
        using ce s'(2) by (cases A rule: mk_exhaust [where d = e]) auto
      show ?thesis
        unfolding Some option.case
      proof (rule lock_child_rule [OF p(1) bv])
        fix c \<sigma>1 assume c: "v_child bv e = Some c" "c \<notin> L" "abs4 \<sigma>1 = (V, insert c L, k)"
        note sc = s'(1) [unfolded A [OF c(1)]]
        from tree_child(1) [OF p(2) v(4) bv c(1)] obtain cv where cv: "V c = Some cv" "c \<in> set_tree T"
          using tree_node [OF p(2)] by metis
        have held: "claimed4 l \<subseteq> L" using p(5) st pc by (simp add: held4_def claimed4_def unlocked4_def)
        have dc: "c \<noteq> b" "c \<noteq> ?x" "c \<notin> snd ` set (frames l)"
          using s(2,4) sc c(2) held st by (auto simp: claimed4_def)
        show "gives (Some c \<bind> (\<lambda>c. t_heap \<sigma>1 c \<bind> (\<lambda>m. if imbalanced (other e) 0 m
            then Some (\<sigma>1, l\<lparr>pc4 := Balance_Grandchild w d b e c\<rparr>)
            else rotate_single e b c \<sigma>1 \<bind> (\<lambda>\<sigma>. end_rotation w d b (Some c) c \<sigma> l)))) (step_post4 root V T L l)"
          unfolding gives_simps bind.simps
        proof (rule read_rule [OF c(3) cv(1)])
          fix m assume m: "cv = vnode_of m"
          show "gives (if imbalanced (other e) 0 m then Some (\<sigma>1, l\<lparr>pc4 := Balance_Grandchild w d b e c\<rparr>)
            else rotate_single e b c \<sigma>1 \<bind> (\<lambda>\<sigma>. end_rotation w d b (Some c) c \<sigma> l)) (step_post4 root V T L l)"
          proof (cases "imbalanced (other e) 0 m")
            case True
            then have "v_child cv (other e) \<noteq> None" using m by (auto simp: imbalanced_def)
            then have "step_post4 root V T L l (\<sigma>1, l\<lparr>pc4 := Balance_Grandchild w d b e c\<rparr>)"
              by (intro quiet_push [OF pre c(3) _ _ _ _ v(4) bv c(1,2), where fs = "frames l" and e = d])
                (use pc go st cv in \<open>auto simp: place_defs\<close>)
            with True show ?thesis by simp
          next
            case False
            have "gives (rotate_single e b c \<sigma>1) (\<lambda>\<sigma>. gives (end_rotation w d b (Some c) c \<sigma> l) (step_post4 root V T L l))"
            proof (rule rotate_single_rule [OF c(3) s(1) [unfolded sc] s(2) [unfolded sc]])
              fix \<sigma>2 V2
              assume r: "abs4 \<sigma>2 = (V2, insert c L, k)" "\<And>a. a \<notin> {b, c} \<Longrightarrow> V2 a = V a"
                "same_tree V (mk e (mk e A1 c A2) b B) V2 (Some c) (mk e A1 c (mk e A2 b B))"
              have dat: "vdata V2 = vdata V" using r(3) by (simp add: same_tree_def)
              obtain b2 c2 where 2: "V2 b = Some b2" "V2 c = Some c2"
                using vdata_Some [OF dat bv] vdata_Some [OF dat cv(1)] by metis
              have x2: "V2 ?x = Some v" using r(2) [of ?x] v(1) db(2) dc(2) by auto
              show "gives (end_rotation w d b (Some c) c \<sigma>2 l) (step_post4 root V T L l)"
                unfolding end_rotation_def gives_simps
              proof (rule unlock_old_rule [OF r(1) refl 2(2,1)])
                fix \<sigma>3 assume a: "abs4 \<sigma>3 = (V2, insert c L - ({b, c} - {c}), k)"
                show "gives (set_child d ?x (Some c) \<sigma>3) (\<lambda>\<sigma>. step_post4 root V T L l (\<sigma>, l\<lparr>pc4 := Balanced w d c\<rparr>))"
                proof (rule set_child_rule [OF a x2])
                  fix \<sigma>4 assume "abs4 \<sigma>4 = (V2(?x \<mapsto> vset d (Some c) v), insert c L - ({b, c} - {c}), k)"
                  moreover have "insert c L - ({b, c} - {c}) = insert c (L - snd ` set [(d, b)])" using dc(1) by auto
                  ultimately have a4: "abs4 \<sigma>4 = (V2(?x \<mapsto> vset d (Some c) v), insert c (L - snd ` set [(d, b)]), k)"
                    by simp
                  have "b \<in> claimed4 l" using st by (simp add: claimed4_def)
                  then have y: "c \<notin> L \<and> (\<exists>p\<in>claimed4 l. \<exists>u e. V p = Some u \<and> v_child u e = Some c)"
                    using c(1,2) bv by blast
                  show "step_post4 root V T L l (\<sigma>4, l\<lparr>pc4 := Balanced w d c\<rparr>)"
                    by (rule rotation_post [where X = "{b, c}", OF pre go _ _ _ _ v(1,2) r(3) s(1) [unfolded sc] desc_rotations(1) r(2) _ _
                        disjI1 [OF y] _ a4])
                      (use st pc db dc in \<open>simp_all add: place_defs\<close>)
                qed (use 2 in auto)
              qed (use bL dc db in auto)
            qed
            with False show ?thesis by simp
          qed
        qed
      qed (use quiet_wait [OF pre] ce tree_child(1) [OF p(2) v(4) bv] tree_in_dom [OF p(2)] in auto)
    qed
  qed
qed

lemma shape_child_tree:
  assumes "shape V (Some a) t" "V a = Some v" "v_child v d = Some c"
  obtains s A' where "t = mk d s a A'" "shape V (Some c) s"
  using assms by (cases t rule: mk_exhaust [where d = d]) auto

lemma balance_grandchild_step_ok:
  assumes pre: "step_pre4 root V T L k \<sigma> l" and pc: "pc4 l = Balance_Grandchild w d b e c"
  shows "gives (balance_grandchild_step w d b e c \<sigma> l) (step_post4 root V T L l)"
proof -
  note p = step_preD [OF pre]
  let ?x = "this4 l"
  have st: "stack4 l = [(e, c)] @ (d, b) # frames l" using pc by (simp add: stack4_def)
  from p(4) pc obtain cv where go: "going root V T l w d" and cv: "V c = Some cv" "v_child cv (other e) \<noteq> None" by auto
  obtain v s where v: "V ?x = Some v" "v_child v d = Some b" "?x \<in> set_tree T" "b \<in> set_tree T"
    and s: "shape V (Some b) s" "distinct (inorder s)" "set_tree s \<subseteq> set_tree T" "?x \<notin> set_tree s"
    using going_facts [OF pre go st] .
  from p(3) st obtain bv where bv: "V b = Some bv" "v_child bv e = Some c" by (auto simp: stack_inv_def)
  obtain A C where sb: "s = mk e A b C" "shape V (Some c) A" using shape_child_tree [OF s(1) bv] .
  obtain A1 A2 where sc: "A = mk e A1 c A2" "shape V (v_child cv (other e)) A2"
    using sb(2) cv(1) by (cases A rule: mk_exhaust [where d = e]) auto
  have dis: "distinct (map snd (stack4 l))" using p(3) by (simp add: stack_inv_def)
  have claimed: "claimed4 l \<subseteq> L" using p(5) pc by (simp add: held4_def claimed4_def unlocked4_def)
  have L: "b \<in> L" "c \<in> L" using claimed st by (auto simp: claimed4_def)
  have cT: "c \<in> set_tree T" using tree_child(1) [OF p(2) v(4) bv] .
  show ?thesis
    unfolding balance_grandchild_step_def
  proof (rule lock_child_rule [OF p(1) cv(1)])
    fix g \<sigma>1 assume g: "v_child cv (other e) = Some g" "g \<notin> L" "abs4 \<sigma>1 = (V, insert g L, k)"
    obtain B1 B2 where sg: "A2 = mk e B1 g B2" using sc(2) g(1) by (cases A2 rule: mk_exhaust [where d = e]) auto
    note sh = sb(1) [unfolded sc(1) sg]
    from tree_child(1) [OF p(2) cT cv(1) g(1)] obtain gv where gv: "V g = Some gv" using tree_node [OF p(2)] by metis
    have ne: "b \<noteq> c" "g \<noteq> b" "g \<noteq> c" "g \<noteq> ?x" "c \<noteq> ?x" "b \<noteq> ?x" using s(2,4) by (auto simp: sh)
    have nf: "b \<notin> snd ` set (frames l)" "c \<notin> snd ` set (frames l)" "g \<notin> snd ` set (frames l)"
      using dis st g(2) claimed by (auto simp: claimed4_def)
    have "c \<in> claimed4 l" using st by (simp add: claimed4_def)
    then have y: "g \<notin> L \<and> (\<exists>p\<in>claimed4 l. \<exists>u e. V p = Some u \<and> v_child u e = Some g)" using g(1,2) cv(1) by blast
    have "gives (rotate_double e b c g \<sigma>1) (\<lambda>\<sigma>. gives (end_rotation w d b (Some c) g \<sigma> l) (step_post4 root V T L l))"
    proof (rule rotate_double_rule [OF g(3) s(1) [unfolded sh] s(2) [unfolded sh]])
      fix \<sigma>2 V2
      assume r: "abs4 \<sigma>2 = (V2, insert g L, k)" "\<And>a. a \<notin> {b, c, g} \<Longrightarrow> V2 a = V a"
        "same_tree V (mk e (mk e A1 c (mk e B1 g B2)) b C) V2 (Some g) (mk e (mk e A1 c B1) g (mk e B2 b C))"
      have dat: "vdata V2 = vdata V" using r(3) by (simp add: same_tree_def)
      obtain b2 c2 g2 where 2: "V2 b = Some b2" "V2 c = Some c2" "V2 g = Some g2"
        using vdata_Some [OF dat bv(1)] vdata_Some [OF dat cv(1)] vdata_Some [OF dat gv] by metis
      have x2: "V2 ?x = Some v" using r(2) [of ?x] v(1) ne by auto
      show "gives (end_rotation w d b (Some c) g \<sigma>2 l) (step_post4 root V T L l)"
        unfolding end_rotation_def gives_simps
      proof (rule unlock_old_rule [OF r(1) refl 2(2,1)])
        fix \<sigma>3 assume a: "abs4 \<sigma>3 = (V2, insert g L - ({b, c} - {g}), k)"
        show "gives (set_child d ?x (Some g) \<sigma>3) (\<lambda>\<sigma>. step_post4 root V T L l (\<sigma>, l\<lparr>pc4 := Balanced w d g\<rparr>))"
        proof (rule set_child_rule [OF a x2])
          fix \<sigma>4 assume "abs4 \<sigma>4 = (V2(?x \<mapsto> vset d (Some g) v), insert g L - ({b, c} - {g}), k)"
          moreover have "insert g L - ({b, c} - {g}) = insert g (L - snd ` set [(e, c), (d, b)])" using ne by auto
          ultimately have a4: "abs4 \<sigma>4 = (V2(?x \<mapsto> vset d (Some g) v), insert g (L - snd ` set [(e, c), (d, b)]), k)"
            by simp
          show "step_post4 root V T L l (\<sigma>4, l\<lparr>pc4 := Balanced w d g\<rparr>)"
            by (rule rotation_post [where X = "{b, c, g}", OF pre go _ _ _ _ v(1,2) r(3) s(1) [unfolded sh]
                desc_rotations(2) r(2) _ _ disjI1 [OF y] _ a4])
              (use st pc nf in \<open>simp_all add: place_defs\<close>)
        qed (use 2 in auto)
      qed (use L ne in auto)
    qed
    then show "gives (Some g \<bind> (\<lambda>g. rotate_double e b c g \<sigma>1 \<bind> (\<lambda>\<sigma>. end_rotation w d b (Some c) g \<sigma> l)))
        (step_post4 root V T L l)" by simp
  qed (use quiet_wait [OF pre] cv(2) tree_child(1) [OF p(2) cT cv(1)] tree_in_dom [OF p(2)] in auto)
qed

end
