(* ===== verification/V4_Updates.thy ===== *)
theory V4_Updates
  imports V4_Rotating
begin

text \<open>
  The steps that put a range into the tree and take one out, while other threads are at work in it.
\<close>

subsection \<open>Insertion\<close>

lemma placed_between:
  assumes inv: "tree_inv root V k T" and T: "T = plug c (mk d s x s')" and q: "placed V T q x"
  shows "between (rgs V (ctx_left c)) (kr q) (rgs V (ctx_right c))"
proof -
  let ?u = "mk d s x s'"
  have ord: "ordered (rgs V (ctx_left c) @ rgs V (inorder ?u) @ rgs V (ctx_right c))"
    using tree_invD(3) [OF inv] by (simp add: T inorder_plug)
  have dis: "distinct (inorder (plug c ?u))" using tree_invD(2) [OF inv] by (simp add: T)
  have x: "x \<in> set (inorder ?u)" by simp
  have val: "closed_valid (kr (rg4 V x))" using tree_valid [OF inv, of x] by (simp add: T set_plug)
  have out: "a \<in> set_tree T \<and> a \<notin> desc T x" if "a \<in> set (ctx_left c @ ctx_right c)" for a
    using that dis by (auto simp: T set_plug desc_focus inorder_plug)
  have l: "closed_before (kr (rg4 V a)) (kr q)" if "a \<in> set (ctx_left c)" for a
  proof -
    have "closed_before (kr (rg4 V a)) (kr (rg4 V x))" using ord that x by auto
    moreover have "same_side (kr (rg4 V a)) (kr (rg4 V x)) (kr q)" using q out [of a] that by (simp add: placed_def)
    ultimately show ?thesis using val tree_valid [OF inv, of a] out [of a] that by (auto simp: same_side_def closed_defs)
  qed
  have r: "closed_before (kr q) (kr (rg4 V a))" if "a \<in> set (ctx_right c)" for a
  proof -
    have "closed_before (kr (rg4 V x)) (kr (rg4 V a))" using ord that x by auto
    moreover have "same_side (kr (rg4 V a)) (kr (rg4 V x)) (kr q)" using q out [of a] that by (simp add: placed_def)
    ultimately show ?thesis using val tree_valid [OF inv, of a] out [of a] that by (auto simp: same_side_def closed_defs)
  qed
  from l r show ?thesis by (auto simp: between_def)
qed

text \<open>A new leaf at the side \<open>d\<close> of \<open>x\<close>, where the search for the range ends.\<close>

lemma grown_tree:
  assumes inv: "tree_inv root V k T" and x: "x \<in> set_tree T" "V x = Some v" "v_child v d = None"
    and q: "placed V T q x" "fits V T q" and d: "d = turn q (rg4 V x)"
    and V': "V' = (V(k \<mapsto> fresh_vnode q))(x \<mapsto> vset d (Some k) v)"
  obtains T' where "tree_inv root V' (Suc k) T'" "kept {} V T V' T'" "ranges4 V' T' = insert (kr q) (ranges4 V T)"
    "\<And>a. a \<noteq> k \<Longrightarrow> rg4 V' a = rg4 V a"
proof -
  note shp = tree_shape(1) [OF inv x(1)] and dis = tree_invD(2) [OF inv] and ord = tree_invD(3) [OF inv]
  from x(1) obtain c s s' where t: "T = plug c (mk d s x s')" by (rule focus_node)
  from shp obtain y where y: "shape V (Some y) (mk d s x s')" unfolding t by (rule shape_plug_sub) simp
  with x(2,3) have s: "s = Leaf" "y = x" by auto
  note t = t [unfolded s] and sub = y [unfolded s]
  have k: "V k = None" "k \<notin> set_tree T" "x \<noteq> k"
    using tree_invD(1) [OF inv] tree_in_dom [OF inv] x(2) by (auto simp: domIff)
  have q': "closed_valid (kr q)" "\<not> closed_overlaps (kr q) (kr (rg4 V x))"
    using q(2) fits_node [OF q(2) x(1)] by (simp_all add: fits_def)
  have rgk: "rg4 V' k = q" "\<And>a. a \<noteq> k \<Longrightarrow> rg4 V' a = rg4 V a"
    using k x(2) by (auto simp: V' rg4_def fresh_vnode_def)
  let ?t = "mk d (Node Leaf k Leaf) x s'"
  have os: "ordered (rgs V (inorder (mk d Leaf x s')))" using ord by (simp add: t inorder_plug)
  from turn_keeps_between [OF os q' d]
  have bt: "between (rgs V (ctx_left [(d, x, s')])) (kr q) (rgs V (ctx_right [(d, x, s')]))" .
  have ins: "inserted q V (Some x) (mk d Leaf x s') k V' ?t"
    unfolding V'
  proof (rule inserted_here [OF sub x(2) k(3) _ _ bt inorder_ctx])
    show "k \<notin> set_tree s'" using k(2) by (simp add: t set_plug)
    have "distinct (inorder (mk d Leaf x s'))" using dis unfolding t inorder_plug distinct_append by blast
    then show "x \<notin> set_tree s'" by simp
  qed
  obtain w where w: "V root = Some w" "\<not> v_empty w" using tree_node [OF inv tree_shape(2) [OF inv x(1)]] .
  note I = insert_inv [OF inv [unfolded t] shp [unfolded t] sub w ins placed_between [OF inv t q(1)] q'(1)]
  from I(2) obtain ps qs where "rgs V (inorder T) = ps @ qs" "rgs V' (inorder (plug c ?t)) = ps @ kr q # qs"
    unfolding t by blast
  from arg_cong [OF this(1), of set] arg_cong [OF this(2), of set]
  have "ranges4 V' (plug c ?t) = insert (kr q) (ranges4 V T)" by (simp add: ranges4_def)
  moreover have "kept {} V T V' (plug c ?t)" by (rule kept_insert [OF dis ord t k(2) rgk q(1) q' d])
  ultimately show thesis using that I(1) rgk(2) by blast
qed

lemma insert_below_ok:
  assumes pre: "step_pre4 root V T L k \<sigma> l" and pc: "pc4 l = Insert_Below"
  shows "gives (insert_below_step \<sigma> l) (step_post4 root V T L l)"
proof -
  note p = step_preD [OF pre]
  let ?x = "this4 l" and ?q = "op_range l"
  from p(4) pc have s: "inserting4 root V T l" by simp
  then have w: "working root V T l" and x: "?x \<in> set_tree T" and q: "placed V T ?q ?x" "fits V T ?q"
    by (simp_all add: inserting4_def)
  from frames_head [OF w] obtain e fs where fr: "frames l = (e, ?x) # fs" by blast
  obtain v where v: "V ?x = Some v" using tree_node [OF p(2) x] .
  let ?d = "turn ?q (rg4 V ?x)"
  let ?K = "\<lambda>cp \<sigma>. case cp of
      None \<Rightarrow> (let (b, \<sigma>) = alloc ?q \<sigma> in set_child ?d ?x (Some b) \<sigma> \<bind> (\<lambda>\<sigma>. Some (\<sigma>, l\<lparr>pc4 := Insert_Return\<rparr>)))
    | Some b \<Rightarrow> Some (\<sigma>, l\<lparr>pc4 := Balance Adding ?d b\<rparr>)"
  have "gives (lock_child ?d ?x \<sigma> l ?K) (step_post4 root V T L l)"
  proof (rule lock_child_rule [OF p(1) v])
    fix b \<sigma>' assume b: "v_child v ?d = Some b" "b \<notin> L" "abs4 \<sigma>' = (V, insert b L, k)"
    have "step_post4 root V T L l (\<sigma>', l\<lparr>pc4 := Balance Adding ?d b\<rparr>)"
      by (rule quiet_push [OF pre b(3) _ _ _ _ x v b(1,2), where e = e and fs = fs])
        (use pc fr s in \<open>simp_all add: place_defs going_def\<close>)
    then show "gives (?K (Some b) \<sigma>') (step_post4 root V T L l)" by simp
  next
    assume none: "v_child v ?d = None"
    let ?V = "(V(k \<mapsto> fresh_vnode ?q))(?x \<mapsto> vset ?d (Some k) v)" and ?l = "l\<lparr>pc4 := Insert_Return\<rparr>"
    obtain T' where t: "tree_inv root ?V (Suc k) T'" "kept {} V T ?V T'" "ranges4 ?V T' = insert (kr ?q) (ranges4 V T)"
      "\<And>a. a \<noteq> k \<Longrightarrow> rg4 ?V a = rg4 V a"
      using grown_tree [OF p(2) x v none q refl refl] by metis
    have k: "V k = None" "k \<notin> insert root (set_tree T)" "?x \<noteq> k"
      using tree_invD(1) [OF p(2)] tree_in_dom [OF p(2)] v by (auto simp: domIff)
    have st: "stack4 l = frames l" "stack4 ?l = frames l" using pc by (simp_all add: stack4_def)
    have cl: "claimed4 ?l = claimed4 l" "held4 l = claimed4 l" "held4 ?l = claimed4 l"
      using pc by (simp_all add: claimed4_def held4_def place_defs)
    have kc: "k \<notin> claimed4 l" using p(3) k(2) by (auto simp: stack_inv_def claimed4_def)
    have stay: "stays (claimed4 l) V T ?V T'" unfolding stays_def
    proof (intro conjI ballI exI)
      show "rg4 ?V a = rg4 V a" if "a \<in> claimed4 l" for a using t(4) [of a] kc that by (cases "a = k") auto
      show "kept {} V T ?V T'" by (rule t(2))
    qed simp
    have w': "working root ?V T' ?l"
      using working_stable [OF w stay] st by (simp add: claimed4_def)
    have "linked4 V (frames l)" using p(3) st by (simp add: stack_inv_def)
    then have "linked4 ?V (frames l)" unfolding fr
    proof (rule linked4_head)
      fix a assume a: "a \<in> snd ` set fs"
      have "?x \<notin> snd ` set fs" using p(3) st fr by (simp add: stack_inv_def)
      moreover have "k \<notin> snd ` set fs" using kc st fr by (simp add: claimed4_def)
      ultimately show "?V a = V a" using a by (metis fun_upd_other)
    qed
    then have "stack_inv root ?V T' (frames l)"
      using p(3) st stays_in [OF stay, of "claimed4 l"] by (simp add: stack_inv_def claimed4_def)
    then have ti: "thread_inv4 root ?V T' ?l" using st w' by (simp add: thread_inv4_def)
    have post: "step_post4 root V T L l (\<sigma>', ?l)" if a: "abs4 \<sigma>' = (?V, L, Suc k)" for \<sigma>'
    proof -
      have "L = L - held4 l \<union> held4 ?l" using cl p(5) by auto
      moreover have "action4 l ?l = Acquire (kr ?q)" using pc by (simp add: action4_def adding_def)
      moreover have "?V b = V b" if "b \<in> dom V" "b \<notin> claimed4 l \<union> claimed4 ?l" for b
      proof -
        have "?x \<in> claimed4 l" using st fr by (simp add: claimed4_def)
        with that k(1) show ?thesis by auto
      qed
      ultimately show ?thesis
        unfolding step_post4_def prod.case using a t(1-3) ti cl pc
        by (intro exI [of _ ?V] exI [of _ L] exI [of _ "Suc k"] exI [of _ T'] exI [of _ "{}"])
          (auto simp: adding_def removing4_def)
    qed
    obtain \<sigma>1 where al: "alloc ?q \<sigma> = (k, \<sigma>1)" "abs4 \<sigma>1 = (V(k \<mapsto> fresh_vnode ?q), L, Suc k)"
      using alloc_abs [OF p(1) k(1)] .
    have "gives (set_child ?d ?x (Some k) \<sigma>1) (\<lambda>\<sigma>. step_post4 root V T L l (\<sigma>, ?l))"
      by (rule set_child_rule [OF al(2), where v = v]) (use k(3) v post in auto)
    then show "gives (?K None \<sigma>) (step_post4 root V T L l)" using al(1) by simp
  qed (use quiet_wait [OF pre] tree_child(1) [OF p(2) x v] tree_in_dom [OF p(2)] in auto)
  then show ?thesis
    unfolding insert_below_step_def gives_simps
    apply (intro read_rule [OF p(1) v])
    subgoal premises n for n
      using n(1) unfolding Let_def rg4_node [of V "this4 l", OF v n(3)] .
    done
qed

text \<open>The first range of an empty tree goes into its root.\<close>

lemma insert_start_ok:
  assumes pre: "step_pre4 root V T L k \<sigma> l" and pc: "pc4 l = Insert_Start"
  shows "gives (insert_start_step \<sigma> l) (step_post4 root V T L l)"
proof -
  note p = step_preD [OF pre]
  let ?b = "m_subtree (lk l)" and ?q = "op_range l"
  from p(4) pc have h: "homed root V T l" "comes_back root l" "allowed root l" "fits V T ?q" by auto
  have st: "stack4 l = [(Left_Side, ?b)]" using pc by (simp add: stack4_def)
  from p(3) st have b: "?b \<in> insert root (set_tree T)" by (simp add: stack_inv_def)
  with tree_in_dom [OF p(2)] obtain v where v: "V ?b = Some v" by blast
  show ?thesis
    unfolding insert_start_step_def gives_simps
  proof (rule read_rule [OF p(1) v])
    fix n assume n: "v = vnode_of n"
    show "gives (if m_is_empty n
      then update_node ?b (set_range_and_txnid ?q) \<sigma> \<bind> (\<lambda>\<sigma>. Some (\<sigma>, l\<lparr>pc4 := after4 l\<rparr>))
      else Some (\<sigma>, l\<lparr>frames := [(Left_Side, ?b)], pc4 := Insert_Below\<rparr>)) (step_post4 root V T L l)"
    proof (cases "v_empty v")
      case True
      let ?V = "V(?b \<mapsto> v\<lparr>v_range := ?q, v_empty := False\<rparr>)" and ?l = "l\<lparr>pc4 := after4 l\<rparr>"
      have r: "?b = root" using b True v tree_node [OF p(2), of ?b] by force
      from p(2) v True r have t: "T = Leaf" "v_child v = (\<lambda>_. None)" "v_root v"
        by (auto simp: tree_inv_def)
      have inv: "tree_inv root ?V k (Node Leaf root Leaf)"
        using p(2) v t r h(4) by (auto simp: tree_inv_def rg4_def fits_def)
      have "homed root ?V (Node Leaf root Leaf) ?l" using r by (simp add: homed_def)
      then have "thread_inv4 root ?V (Node Leaf root Leaf) ?l" "held4 ?l = {root}" "claimed4 ?l = {root}"
        "held4 l = {root}" "claimed4 l = {root}"
        using h(2) r st pc
        by (auto simp: thread_inv4_def comes_back_def stack_inv_def held4_def claimed4_def place_defs)
      moreover have "L = L - {root} \<union> {root}" using p(5) calculation by auto
      moreover have "action4 l ?l = Acquire (kr ?q)" "\<not> adding ?l" "\<not> removing4 ?l"
        using pc h(2) by (auto simp: action4_def adding_def removing4_def comes_back_def)
      moreover have "ranges4 ?V (Node Leaf root Leaf) = insert (kr ?q) (ranges4 V T)"
        using t r by (simp add: ranges4_def rg4_def)
      moreover have "kept {} V T ?V (Node Leaf root Leaf)" using t by (simp add: kept_def)
      ultimately have post: "step_post4 root V T L l (\<sigma>', ?l)" if "abs4 \<sigma>' = (?V, L, k)" for \<sigma>'
        unfolding step_post4_def prod.case using that inv r
        by (intro exI [of _ ?V] exI [of _ L] exI [of _ k] exI [of _ "Node Leaf root Leaf"] exI [of _ "{}"]) auto
      have "gives (update_node ?b (set_range_and_txnid ?q) \<sigma>) (\<lambda>\<sigma>. step_post4 root V T L l (\<sigma>, ?l))"
        by (rule set_root_rule [OF p(1) v]) (rule post)
      with True n show ?thesis by simp
    next
      case False
      have bT: "?b \<in> set_tree T"
      proof (cases "?b = root")
        case True
        with False v p(2) show ?thesis by (auto elim!: tree_inv_cases dest: shape_root_in)
      qed (use b in simp)
      have "placed V T ?q ?b"
        using h(1,3) placed_at_root [OF p(2)] bT
        by (auto simp: homed_def allowed_def within_def intro: placed_sub)
      then have "inserting4 root V T (l\<lparr>frames := [(Left_Side, ?b)], pc4 := Insert_Below\<rparr>)"
        using h bT by (simp add: inserting4_def working_def)
      then have "step_post4 root V T L l (\<sigma>, l\<lparr>frames := [(Left_Side, ?b)], pc4 := Insert_Below\<rparr>)"
        by (intro quiet_same [OF pre p(1)]) (use pc in \<open>simp_all add: place_defs\<close>)
      with False n show ?thesis by simp
    qed
  qed
qed

end
