(* ===== verification/V4_Removals.thy ===== *)
theory V4_Removals
  imports V4_Updates
begin

text \<open>
  The steps that take a range out of the tree: at a leaf the caller's pointer is set to null, at an
  inner node the neighbour of the range takes its place.
\<close>

lemma ranges_without:
  assumes inv: "tree_inv root V k T" and z: "inorder T = as @ z # bs" "rgs V' (inorder T') = rgs V as @ rgs V bs"
  shows "ranges4 V' T' = ranges4 V T - {kr (rg4 V z)}"
proof -
  have "distinct (rgs V (inorder T))" by (rule ordered_distinct [OF tree_invD(3) [OF inv]])
  then have "kr (rg4 V z) \<notin> set (rgs V as @ rgs V bs)" unfolding z(1) by auto
  moreover from arg_cong [OF z(2), of set] have "ranges4 V' T' = set (rgs V as @ rgs V bs)"
    by (simp add: ranges4_def)
  moreover from arg_cong [OF z(1), of set] have "ranges4 V T = insert (kr (rg4 V z)) (set (rgs V as @ rgs V bs))"
    by (auto simp: ranges4_def)
  ultimately show ?thesis by auto
qed

lemma step_postI:
  assumes "abs4 \<sigma>' = (V', (L - held4 l) \<union> held4 l', k')" "tree_inv root V' k' T'" "thread_inv4 root V' T' l'"
    "claimed4 l' \<subseteq> claimed4 l" "X \<subseteq> claimed4 l" "kept X V T V' T'" "\<And>a. a \<notin> claimed4 l \<Longrightarrow> V' a = V a"
    "ranges4 V' T' = apply_action (action4 l l') (ranges4 V T)" "op_range l' = op_range l"
    "adding l' \<Longrightarrow> adding l" "removing4 l' \<Longrightarrow> removing4 l"
  shows "step_post4 root V T L l (\<sigma>', l')"
proof -
  have "\<forall>a\<in>claimed4 l'. a \<in> claimed4 l \<or> fresh_lock root V L l a" "X \<subseteq> claimed4 l \<union> claimed4 l'"
    "\<forall>a\<in>dom V. a \<notin> claimed4 l \<union> claimed4 l' \<longrightarrow> V' a = V a"
    using assms(4,5,7) by auto
  with assms show ?thesis unfolding step_post4_def prod.case by metis
qed

text \<open>A step that ends a removal: \<open>front\<close> are the nodes whose calls are over.\<close>

lemma removal_post:
  assumes pre: "step_pre4 root V T L k \<sigma> l" and w: "working root V T l"
    and st: "stack4 l = frames l" "frames l = front @ (d, y) # fs" "removing4 l" "\<not> adding l" "front \<noteq> []"
    and t: "tree_inv root V' k T'" "kept X V T V' T'" "X \<subseteq> snd ` set front" "homed root V' T' l"
      "ranges4 V' T' = ranges4 V T - {kr (op_range l)}"
    and fr: "\<And>a. a \<notin> insert y (snd ` set front) \<Longrightarrow> V' a = V a"
    and abs: "abs4 \<sigma>' = (V', (L - held4 l) \<union> snd ` set ((d, y) # fs), k)"
  shows "step_post4 root V T L l (\<sigma>', l\<lparr>frames := (d, y) # fs, pc4 := Remove_Return\<rparr>)"
proof -
  note p = step_preD [OF pre]
  let ?l = "l\<lparr>frames := (d, y) # fs, pc4 := Remove_Return\<rparr>"
  have dis: "distinct (map snd (front @ (d, y) # fs))" "snd ` set (front @ (d, y) # fs) \<subseteq> insert root (set_tree T)"
    "linked4 V (front @ (d, y) # fs)" using p(3) st(1,2) by (simp_all add: stack_inv_def)
  have out: "a \<notin> insert y (snd ` set front)" if "a \<in> snd ` set fs" for a
  proof -
    from dis(1) have "snd ` set front \<inter> snd ` set fs = {}" "y \<notin> snd ` set fs" by (auto simp: image_iff)
    with that show ?thesis by blast
  qed
  have "linked4 V ((d, y) # fs)" using linked4_drop [OF dis(3), of "length front"] by simp
  then have "linked4 V' ((d, y) # fs)" by (rule linked4_head) (use out fr in blast)
  moreover have "snd ` set ((d, y) # fs) \<subseteq> insert root (set_tree T')"
  proof
    fix a assume a: "a \<in> snd ` set ((d, y) # fs)"
    then have "a \<notin> X" using t(3) dis(1) out [of a] by (auto simp: image_iff)
    moreover have "a \<in> insert root (set_tree T)" using a dis(2) by auto
    ultimately show "a \<in> insert root (set_tree T')" using t(2) by (auto simp: kept_def)
  qed
  ultimately have "stack_inv root V' T' (stack4 ?l)"
    using dis(1) by (simp add: stack_inv_def stack4_def)
  moreover have "working root V' T' ?l" using w t(4) st(2) by (auto simp: working_def)
  ultimately have ti: "thread_inv4 root V' T' ?l" by (simp add: thread_inv4_def)
  have cl: "claimed4 l = snd ` set front \<union> claimed4 ?l" "held4 ?l = snd ` set ((d, y) # fs)" "y \<in> claimed4 ?l"
    using st(1,2) by (auto simp: claimed4_def held4_def stack4_def unlocked4_def)
  have act: "action4 l ?l = Release (kr (op_range l))" using st(3,4) by (simp add: action4_def removing4_def)
  show ?thesis
  proof (rule step_postI [OF _ t(1) ti _ _ t(2)])
    show "abs4 \<sigma>' = (V', (L - held4 l) \<union> held4 ?l, k)" using abs cl(2) by simp
    show "X \<subseteq> claimed4 l" "claimed4 ?l \<subseteq> claimed4 l" using t(3) cl(1) by auto
    show "V' a = V a" if "a \<notin> claimed4 l" for a
      by (rule fr) (use that cl(1,3) in blast)
    show "ranges4 V' T' = apply_action (action4 l ?l) (ranges4 V T)" using act t(5) by simp
  qed (simp_all add: st(3) adding_def removing4_def)
qed

subsection \<open>Leaves\<close>

lemma leaf_shape:
  assumes "shape V (Some z) s" "V z = Some v" "v_child v Left_Side = None" "v_child v Right_Side = None"
  shows "s = Node Leaf z Leaf"
  using assms by (cases s) auto

text \<open>The leaf \<open>z\<close> at the side \<open>d\<close> of \<open>y\<close> is cut off.\<close>

lemma pruned_tree:
  assumes inv: "tree_inv root V k T" and y: "y \<in> set_tree T" "V y = Some u" "v_child u d = Some z"
    and z: "V z = Some v" "v_child v Left_Side = None" "v_child v Right_Side = None"
  obtains T' where "tree_inv root (V(y \<mapsto> vset d None u)) k T'" "kept {z} V T (V(y \<mapsto> vset d None u)) T'"
    "ranges4 (V(y \<mapsto> vset d None u)) T' = ranges4 V T - {kr (rg4 V z)}"
    "\<And>a. rg4 (V(y \<mapsto> vset d None u)) a = rg4 V a"
proof -
  let ?V = "V(y \<mapsto> vset d None u)"
  note shp = tree_shape(1) [OF inv y(1)] and dis = tree_invD(2) [OF inv]
  obtain c s s' where t: "T = plug c (mk d s y s')" "shape V (Some y) (mk d s y s')" "shape V (Some z) s"
    using child_focus [OF shp dis y] by metis
  have s: "s = Node Leaf z Leaf" by (rule leaf_shape [OF t(3) z])
  note t = t(1,2) [unfolded s]
  have dat: "vdata ?V = vdata V" by (rule vdata_vset [of V y u, OF y(2)])
  have rg: "rg4 ?V a = rg4 V a" for a by (rule vdata_rg [OF dat])
  have ds: "distinct (inorder (mk d (Node Leaf z Leaf) y s'))" using dis by (simp add: t(1) inorder_plug)
  have rem: "removed V (Some y) (mk d (Node Leaf z Leaf) y s') z ?V (mk d Leaf y s')"
    by (rule removed_leaf [OF t(2) ds y(2)])
  obtain w where w: "V root = Some w" "\<not> v_empty w" using tree_node [OF inv tree_shape(2) [OF inv y(1)]] .
  have "z \<in> set (inorder T)" by (simp add: t(1) set_plug)
  then obtain as bs where io: "inorder T = as @ z # bs" by (meson split_list)
  have zin: "z \<in> set_tree (mk d (Node Leaf z Leaf) y s')" by simp
  note R = remove_inv [OF inv [unfolded t(1)] shp [unfolded t(1)] t(2) w rem io [unfolded t(1)] zin]
  have "kept {z} V (plug (c @ [(d, y, s')]) (Node Leaf z Leaf)) ?V (plug (c @ [(d, y, s')]) Leaf)"
    by (rule kept_leaf) (use dis rg in \<open>simp_all add: t(1) plug_append\<close>)
  then have "kept {z} V T ?V (plug c (mk d Leaf y s'))" by (simp add: t(1) plug_append)
  then show thesis using that [OF R(1)] ranges_without [OF inv io R(2)] rg by blast
qed

lemma remove_leaf_step_ok:
  assumes pre: "step_pre4 root V T L k \<sigma> l" and pc: "pc4 l = Remove_At" and hit: "rg4 V (this4 l) = op_range l"
    and v: "V (this4 l) = Some v" "v_child v Left_Side = None" "v_child v Right_Side = None"
  shows "gives (remove_leaf_step \<sigma> l) (step_post4 root V T L l)"
proof -
  note p = step_preD [OF pre]
  let ?z = "this4 l" and ?q = "op_range l"
  from p(4) pc have w: "working root V T l" "allowed root l" and q: "closed_valid (kr ?q)" "kr ?q \<in> ranges4 V T"
    "placed V T ?q ?z" by auto
  note z = placed_in [OF q(3,2,1)]
  have st: "stack4 l = frames l" "held4 l = snd ` set (frames l)" "claimed4 l = snd ` set (frames l)"
    using pc by (simp_all add: stack4_def held4_def unlocked4_def claimed4_def)
  from frames_head [OF w(1)] obtain d rest where fr: "frames l = (d, ?z) # rest" by blast
  have zL: "?z \<in> L" using p(5) st(2) fr by simp
  show ?thesis
  proof (cases rest)
    case Nil
    then have "m_subtree (lk l) = ?z" using w(1) fr by (simp add: working_def)
    with home_is_root [OF w _ q(1)] hit have r: "?z = root" "m_subtree (lk l) = root" by simp_all
    have sT: "T = Node Leaf root Leaf" using leaf_shape [OF tree_shape(1) [OF p(2) z]] v r(1) by simp
    from p(2) v(1) r(1) have vr: "v_root v" by (auto simp: tree_inv_def)
    let ?V = "V(root \<mapsto> v\<lparr>v_empty := True\<rparr>)" and ?l = "l\<lparr>frames := [], pc4 := after4 l\<rparr>"
    have inv: "tree_inv root ?V k Leaf"
      using empty_inv [of root V k v] p(2) tree_shape(1) [OF p(2) z] v(1) r(1) sT by simp
    have cb: "comes_back root l" "homed root ?V Leaf l" using w(1) r by (simp_all add: working_def homed_def)
    note home = comes_back_ok [OF cb refl]
    have "thread_inv4 root ?V Leaf ?l" "claimed4 ?l = {root}" "held4 ?l = {root}"
      using home r(2) by (simp_all add: thread_inv4_def stack_inv_def claimed4_def held4_def)
    moreover have "claimed4 l = {root}" "held4 l = {root}" using st fr Nil r(1) by simp_all
    moreover have "action4 l ?l = Release (kr ?q)" using home pc by (simp add: action4_def adding_def removing4_def)
    moreover have "ranges4 ?V Leaf = ranges4 V T - {kr ?q}" using sT hit r(1) by (simp add: ranges4_def)
    moreover have "kept {root} V T ?V Leaf" using sT by (simp add: kept_def)
    moreover have "L = L - {root} \<union> {root}" using zL r(1) by auto
    moreover have "\<not> adding ?l" "\<not> removing4 ?l" using home by (auto simp: removing4_def adding_def)
    ultimately have post: "step_post4 root V T L l (\<sigma>', ?l)" if "abs4 \<sigma>' = (?V, L, k)" for \<sigma>'
      using that inv by (intro step_postI [of \<sigma>' ?V L l ?l k root Leaf "{root}" V T]) simp_all
    have "gives (remove_leaf ?z \<sigma>) (\<lambda>\<sigma>. step_post4 root V T L l (\<sigma>, ?l))"
      by (rule remove_leaf_rule [OF p(1) v(1) zL]) (use vr r(1) post in simp)
    then show ?thesis using fr Nil by (simp add: remove_leaf_step_def)
  next
    case (Cons g fs)
    then obtain e y where g: "rest = (e, y) # fs" by (cases g) auto
    from p(3) st(1) fr g obtain u where u: "V y = Some u" "v_child u d = Some ?z" by (auto simp: stack_inv_def)
    have "y \<in> insert root (set_tree T)" using p(3) st(1) fr g by (simp add: stack_inv_def)
    then have y: "y \<in> set_tree T" using tree_shape(2) [OF p(2) z] by auto
    from tree_child [OF p(2) y u] have nr: "\<not> v_root v" using tree_invD(5) [OF p(2) v(1)] by blast
    obtain T' where t: "tree_inv root (V(y \<mapsto> vset d None u)) k T'" "kept {?z} V T (V(y \<mapsto> vset d None u)) T'"
      "ranges4 (V(y \<mapsto> vset d None u)) T' = ranges4 V T - {kr (rg4 V ?z)}"
      "\<And>a. rg4 (V(y \<mapsto> vset d None u)) a = rg4 V a"
      using pruned_tree [OF p(2) y u v] by metis
    let ?V = "V(y \<mapsto> vset d None u)"
    have dis: "distinct (map snd (frames l))" using p(3) st(1) by (simp add: stack_inv_def)
    then have znot: "?z \<notin> snd ` set ((e, y) # fs)" by (simp add: fr g)
    have stay: "stays (snd ` set ((e, y) # fs)) V T ?V T'" using t(2,4) znot by (auto simp: stays_def)
    have "working root V T (l\<lparr>frames := (e, y) # fs\<rparr>)" using working_tl [OF w(1)] fr g by simp
    from working_stable [OF this stay] have hm: "homed root ?V T' l" by (simp add: working_def)
    have post: "step_post4 root V T L l (\<sigma>', l\<lparr>frames := (e, y) # fs, pc4 := Remove_Return\<rparr>)"
      if a: "abs4 \<sigma>' = (?V, L - {?z}, k)" for \<sigma>'
    proof (rule removal_post [OF pre w(1) st(1) _ _ _ _ t(1,2) _ hm, where front = "[(d, ?z)]"])
      have "L - {?z} = L - held4 l \<union> snd ` set ((e, y) # fs)" using st(2) p(5) znot by (auto simp: fr g)
      with a show "abs4 \<sigma>' = (?V, L - held4 l \<union> snd ` set ((e, y) # fs), k)" by simp
    qed (use fr g pc t(3) hit in \<open>simp_all add: removing4_def adding_def\<close>)
    have "gives (remove_leaf ?z \<sigma>) (\<lambda>\<sigma>. gives (set_child d y None \<sigma>)
        (\<lambda>\<sigma>. step_post4 root V T L l (\<sigma>, l\<lparr>frames := (e, y) # fs, pc4 := Remove_Return\<rparr>)))"
    proof (rule remove_leaf_rule [OF p(1) v(1) zL])
      fix \<sigma>1 assume "abs4 \<sigma>1 = (if v_root v then (V(?z \<mapsto> v\<lparr>v_empty := True\<rparr>), L, k) else (V, L - {?z}, k))"
      with nr have a: "abs4 \<sigma>1 = (V, L - {?z}, k)" by simp
      show "gives (set_child d y None \<sigma>1)
          (\<lambda>\<sigma>. step_post4 root V T L l (\<sigma>, l\<lparr>frames := (e, y) # fs, pc4 := Remove_Return\<rparr>))"
        by (rule set_child_rule [OF a u(1)]) (use post in simp_all)
    qed
    then show ?thesis using fr g by (simp add: remove_leaf_step_def)
  qed
qed

lemma remove_at_ok:
  assumes pre: "step_pre4 root V T L k \<sigma> l" and pc: "pc4 l = Remove_At"
  shows "gives (remove_at_step \<sigma> l) (step_post4 root V T L l)"
proof -
  note p = step_preD [OF pre]
  let ?x = "this4 l" and ?q = "op_range l"
  from p(4) pc have w: "working root V T l" "allowed root l" and q: "closed_valid (kr ?q)" "kr ?q \<in> ranges4 V T"
    "placed V T ?q ?x" by auto
  note x = placed_in [OF q(3,2,1)]
  obtain v where v: "V ?x = Some v" using tree_node [OF p(2) x] .
  note cmp = target_compare [OF p(2) x q(2,1)]
  show ?thesis
    unfolding remove_at_step_def gives_simps
  proof (rule read_rule [OF p(1) v])
    fix n assume n: "v = vnode_of n"
    have mr: "m_range n = rg4 V ?x" by (rule rg4_node [of V ?x, OF v n])
    have ch: "ptr (m_left_child n) = v_child v Left_Side" "ptr (m_right_child n) = v_child v Right_Side"
      by (simp_all add: n child_def)
    let ?down = "\<lambda>d g. gives (lock_child d ?x \<sigma> l (\<lambda>cp \<sigma>. cp \<bind> (\<lambda>b. Some (\<sigma>, g b)))) (step_post4 root V T L l)"
    show "gives (let c = compare ?q (m_range n) in if c = EQUALS
      then if ptr (m_left_child n) = None \<and> ptr (m_right_child n) = None then remove_leaf_step \<sigma> l
        else let d = if ptr (m_left_child n) \<noteq> None then Left_Side else Right_Side
          in lock_child d ?x \<sigma> l (\<lambda>cp \<sigma>. cp \<bind> (\<lambda>b. Some (\<sigma>, l\<lparr>frames := (d, b) # frames l, pc4 := Extreme (other d) 0\<rparr>)))
      else if c = OVERLAPS then None
      else let d = if c = LESS_THAN then Left_Side else Right_Side
        in lock_child d ?x \<sigma> l (\<lambda>cp \<sigma>. cp \<bind> (\<lambda>b. Some (\<sigma>, l\<lparr>frames := (d, b) # frames l\<rparr>)))) (step_post4 root V T L l)"
    proof (cases "rg4 V ?x = ?q")
      case True
      then have e: "compare ?q (m_range n) = EQUALS" using cmp(1) mr by simp
      show ?thesis
      proof (cases "v_child v Left_Side = None \<and> v_child v Right_Side = None")
        case True
        then show ?thesis
          using e ch remove_leaf_step_ok [OF pre pc \<open>rg4 V ?x = ?q\<close> v] by (simp add: Let_def)
      next
        case False
        obtain d where d: "d = (if v_child v Left_Side \<noteq> None then Left_Side else Right_Side)" by simp
        with False obtain b where "v_child v d = Some b" by (cases d) (auto split: if_splits)
        from remove_down_ok [OF pre pc v this disjI1 [OF conjI [OF \<open>rg4 V ?x = ?q\<close> refl]]]
        show ?thesis using e False unfolding Let_def ch d by (simp only: if_False if_True simp_thms split: if_split)
      qed
    next
      case False
      then have e: "compare ?q (m_range n) \<noteq> EQUALS" "compare ?q (m_range n) \<noteq> OVERLAPS" using cmp(1,2) mr by simp_all
      obtain b where "v_child v (turn ?q (rg4 V ?x)) = Some b" using target_child [OF p(2) x v q(2,1,3) False] .
      from remove_down_ok [OF pre pc v this disjI2 [OF conjI [OF False conjI [OF refl refl]]]]
      show ?thesis using e unfolding Let_def mr by (simp only: if_False simp_thms)
    qed
  qed
qed

subsection \<open>The neighbour in the place of a range\<close>

lemma linked4_nth:
  "linked4 V fs \<Longrightarrow> i + 1 < length fs \<Longrightarrow> \<exists>v. V (snd (fs ! (i + 1))) = Some v \<and> v_child v (fst (fs ! i)) = Some (snd (fs ! i))"
proof (induction V fs arbitrary: i rule: linked4.induct)
  case (1 V d a e p fs)
  then show ?case by (cases i) auto
qed auto

text \<open>The nodes \<open>a n, ..., a 0\<close> of a descent along the side \<open>d\<close> that cannot go on.\<close>

lemma extreme_path:
  fixes a :: "nat \<Rightarrow> addr4"
  assumes down: "\<And>j. j < n \<Longrightarrow> \<exists>v. V (a (j + 1)) = Some v \<and> v_child v d = Some (a j)"
    and stop: "V (a 0) = Some v" "v_child v d = None"
    and i: "i \<le> n" "shape V (Some (a i)) t" "distinct (inorder t)"
  shows "extreme V d (a (i + 1)) (a i) t (a 0) (a 1) \<and> a 0 \<in> set_tree t \<and> {w. a 0 \<in> desc t w} \<subseteq> a ` {..i}"
  using i
proof (induction i arbitrary: t)
  case 0
  obtain s s' u where t: "t = mk d s (a 0) s'" "V (a 0) = Some u" "shape V (v_child u d) s"
    by (rule shape_Some [where d = d, OF 0(2)])
  then have s: "s = Leaf" using stop by simp
  then have "{w. a 0 \<in> desc t w} \<subseteq> {a 0}" using 0(3) desc_subset [of s'] by (auto simp: t(1) desc_mk)
  then show ?case by (simp add: extreme_def t(1) s)
next
  case (Suc i)
  obtain s s' u where t: "t = mk d s (a (Suc i)) s'" "V (a (Suc i)) = Some u" "shape V (v_child u d) s"
    by (rule shape_Some [where d = d, OF Suc.prems(2)])
  have "v_child u d = Some (a i)" using down [of i] Suc.prems(1) t(2) by auto
  with t(3) have s: "shape V (Some (a i)) s" by simp
  have ds: "distinct (inorder s)" using Suc.prems(3) by (simp add: t(1))
  have IH: "extreme V d (a (Suc i)) (a i) s (a 0) (a 1)" "a 0 \<in> set_tree s" "{w. a 0 \<in> desc s w} \<subseteq> a ` {..i}"
    using Suc.IH [OF _ s ds] Suc.prems(1) by simp_all
  have "extreme V d (a (Suc i + 1)) (a (Suc i)) t (a 0) (a 1)"
    using extreme_below [OF _ _ s IH(1)] Suc.prems(2,3) by (simp add: t(1))
  moreover have "a 0 \<notin> set_tree s'" using IH(2) Suc.prems(3) by (auto simp: t(1))
  then have "{w. a 0 \<in> desc t w} \<subseteq> insert (a (Suc i)) {w. a 0 \<in> desc s w}"
    using desc_subset [of s'] by (auto simp: t(1) desc_mk)
  then have "{w. a 0 \<in> desc t w} \<subseteq> a ` {..Suc i}" using IH(3) by (auto simp: atMost_Suc)
  ultimately show ?case using IH(2) by (simp add: t(1))
qed

lemma extreme_first: "extreme V d par x t e p \<Longrightarrow> dir d (inorder t) = e # dir d (inorder (cut d t))"
  by (auto simp: extreme_def inorder_mk)

text \<open>The last step of a removal at an inner node \<open>y\<close>.\<close>

lemma splice_ok:
  assumes pre: "step_pre4 root V T L k \<sigma> l" and pc: "pc4 l = Extreme_Return d n n"
  shows "gives (extreme_return_step d n n \<sigma> l) (step_post4 root V T L l)"
proof -
  note p = step_preD [OF pre]
  define a where "a = (\<lambda>i. snd (frames l ! i))"
  define front where "front = take (n + 1) (frames l)"
  let ?y = "a (n + 1)" and ?c = "a n" and ?e = "a 0" and ?p = "a 1"
  from p(4) pc obtain v where c: "cutting root V T l d n" and v: "V (this4 l) = Some v" "v_child v d = None" by auto
  then have w: "working root V T l" and len: "n + 1 < length (frames l)" and sd: "\<And>i. i < n \<Longrightarrow> fst (frames l ! i) = d"
    "fst (frames l ! n) = other d" and top: "?y = m_subtree (lk l) \<Longrightarrow> m_subtree (lk l) = root"
    and rgy: "kr (op_range l) = kr (rg4 V ?y)" and tin: "this4 l \<in> set_tree T" by (auto simp: cutting_def a_def)
  have e0: "this4 l = ?e" using len by (cases "frames l") (auto simp: this4_def a_def)
  have st: "stack4 l = frames l" "unlocked4 l = n" using pc by (simp_all add: place_defs)
  from p(3) st have lkd: "linked4 V (frames l)" and dis: "distinct (map snd (frames l))"
    and sub: "snd ` set (frames l) \<subseteq> insert root (set_tree T)" by (simp_all add: stack_inv_def)
  obtain g fs where fr: "frames l = front @ (g, ?y) # fs"
    using id_take_nth_drop [OF len] by (metis a_def front_def prod.collapse)
  have lenf: "length front = n + 1" using len by (simp add: front_def)
  have front: "snd ` set front = a ` {..n}"
    using nth_image [OF less_imp_le [OF len], symmetric]
    by (simp add: front_def a_def image_image atLeast0LessThan lessThan_Suc_atMost)
  have nodes: "a i \<in> set_tree T" if "i \<le> n + 1" for i
  proof -
    have "frames l ! i \<in> set (frames l)" using that len by simp
    with sub tree_shape(2) [OF p(2) tin] show ?thesis by (auto simp: a_def)
  qed
  have child: "\<exists>u. V (a (i + 1)) = Some u \<and> v_child u (fst (frames l ! i)) = Some (a i)" if "i \<le> n" for i
    using linked4_nth [OF lkd, of i] that len by (simp add: a_def)
  have vy: "\<exists>u. V ?y = Some u \<and> v_child u (other d) = Some ?c" using child [of n] sd(2) by simp
  then obtain u where u: "V ?y = Some u" "v_child u (other d) = Some ?c" by blast
  obtain cx s s' where t: "T = plug cx (mk (other d) s ?y s')" "shape V (Some ?y) (mk (other d) s ?y s')"
      "shape V (Some ?c) s"
    using child_focus [OF tree_shape(1) [OF p(2) tin] tree_invD(2) [OF p(2)] nodes u] by (metis order_refl)
  let ?t = "mk (other d) s ?y s'" and ?s = "cut d s"
  have dT: "distinct (inorder T)" by (rule tree_invD(2) [OF p(2)])
  then have ds: "distinct (inorder ?t)" "distinct (inorder s)" by (simp_all add: t(1) inorder_plug)
  have "\<exists>u. V (a (j + 1)) = Some u \<and> v_child u d = Some (a j)" if "j < n" for j
    using child [of j] sd(1) [OF that] that by simp
  then have ext: "extreme V d ?y ?c s ?e ?p" and e: "?e \<in> set_tree s" "{w. ?e \<in> desc s w} \<subseteq> a ` {..n}"
    using extreme_path [of n V a d v n s] v e0 t(3) ds(2) by simp_all
  have io: "dir (other (other d)) (inorder s) = ?e # dir (other (other d)) (inorder (cut (other (other d)) s))"
    using extreme_first [OF ext] by simp
  have "\<exists>u. V (a 1) = Some u \<and> v_child u (fst (frames l ! 0)) = Some ?e" using child [of 0] by simp
  then have "?e \<noteq> root" using tree_child(2) [OF p(2) nodes [of 1]] by auto
  then have nr: "\<not> v_root v" using tree_invD(5) [OF p(2) v(1)] e0 by auto
  have yno: "?y \<notin> a ` {..n}" "?y \<notin> snd ` set fs" using dis by (simp_all add: fr front [symmetric])
  have pin: "?p \<in> insert ?y (a ` {..n})" by (cases n) auto
  have cL: "?c \<in> L"
    using p(5) st len by (auto simp: held4_def Cons_nth_drop_Suc [symmetric] a_def)
  have dr: "drop (n + 1) (frames l) = (g, ?y) # fs" by (subst fr) (simp add: lenf)
  then have held: "held4 l = insert ?c (snd ` set ((g, ?y) # fs))"
    using len st by (simp add: held4_def a_def Cons_nth_drop_Suc [symmetric])
  have "distinct (map snd ((frames l ! n) # (g, ?y) # fs))"
    using distinct_drop [OF dis, of n] len dr by (simp add: drop_map Cons_nth_drop_Suc [symmetric])
  then have cno: "?c \<notin> snd ` set ((g, ?y) # fs)" by (simp add: a_def)
  have "gives (splice_replacement (other d) ?y ?c (this4 l) ?p \<sigma>)
      (\<lambda>\<sigma>. step_post4 root V T L l (\<sigma>, l\<lparr>frames := (g, ?y) # fs, pc4 := Remove_Return\<rparr>))"
    unfolding e0
  proof (rule splice_replacement_rule [OF p(1) cL t(2) ds(1) t(3)])
    show "extreme V (other (other d)) ?y ?c s ?e ?p" using ext by simp
    show "\<not> v_root u" if "V ?e = Some u" for u using that v(1) e0 nr by simp
  next
    fix \<sigma>' V' assume q: "abs4 \<sigma>' = (V', L - {?c}, k)" "\<And>b. b \<notin> {?y, ?e, ?p} \<Longrightarrow> V' b = V b"
      "\<And>b. b \<notin> {?y, ?e} \<Longrightarrow> rg4 V' b = rg4 V b" "rg4 V' ?y = rg4 V ?e"
      "removed V (Some ?y) ?t ?y V' (mk (other d) (cut (other (other d)) s) ?y s')"
    let ?t' = "mk (other d) (cut (other (other d)) s) ?y s'"
    show "step_post4 root V T L l (\<sigma>', l\<lparr>frames := (g, ?y) # fs, pc4 := Remove_Return\<rparr>)"
    proof -
      obtain w0 where w0: "V root = Some w0" "\<not> v_empty w0"
        using tree_node [OF p(2) tree_shape(2) [OF p(2) tin]] .
      obtain as bs where z: "inorder T = as @ ?y # bs" using nodes [of "n + 1"] by (metis set_inorder split_list order_refl)
      note R = remove_inv [OF p(2) [unfolded t(1)] tree_shape(1) [OF p(2) tin, unfolded t(1)] t(2) w0 q(5) z [unfolded t(1)]]
      have inv: "tree_inv root V' k (plug cx ?t')" by (rule R(1)) simp
      have rgs: "ranges4 V' (plug cx ?t') = ranges4 V T - {kr (rg4 V ?y)}"
        by (rule ranges_without [OF p(2) z R(2)]) simp
      have kp: "kept {b. ?e \<in> desc s b} V T V' (plug cx ?t')"
        unfolding t(1) by (rule kept_splice [OF dT [unfolded t(1)] tree_invD(3) [OF p(2), unfolded t(1)] io q(3,4)])
      have hm: "homed root V' (plug cx ?t') l"
      proof (cases "m_subtree (lk l) = ?y")
        case True
        then show ?thesis using top by (simp add: homed_def)
      next
        case False
        have "snd (last (frames l)) \<in> snd ` set ((g, ?y) # fs)"
          by (intro imageI) (simp only: fr last_appendR last_in_set list.distinct simp_thms not_False_eq_True)
        moreover have "snd ` set front \<inter> snd ` set ((g, ?y) # fs) = {}"
          using dis unfolding fr map_append distinct_append set_map by blast
        ultimately have "m_subtree (lk l) \<notin> a ` {..n}"
          using w by (auto simp: working_def front [symmetric] simp del: list.set)
        then have "stays {m_subtree (lk l)} V T V' (plug cx ?t')"
          using q(3) False kp e(2) by (auto simp: stays_def)
        with w show ?thesis by (auto simp: working_def intro: homed_stable)
      qed
      show ?thesis
      proof (rule removal_post [OF pre w st(1) fr, where X = "{b. ?e \<in> desc s b}" and V' = V' and T' = "plug cx ?t'"])
      show "ranges4 V' (plug cx ?t') = ranges4 V T - {kr (op_range l)}" using rgs rgy by simp
      show "{b. ?e \<in> desc s b} \<subseteq> snd ` set front" using e(2) front by simp
      show "V' b = V b" if "b \<notin> insert ?y (snd ` set front)" for b
        by (rule q(2)) (use that pin in \<open>auto simp: front\<close>)
      show "abs4 \<sigma>' = (V', L - held4 l \<union> snd ` set ((g, ?y) # fs), k)" 
        using q(1) cno p(5) held by auto
      qed (use inv kp hm pc len in \<open>auto simp: place_defs front_def\<close>)
    qed
  qed
  moreover have "extreme_return_step d n n \<sigma> l = splice_replacement (other d) ?y ?c (this4 l) ?p \<sigma> \<bind>
      (\<lambda>\<sigma>. Some (\<sigma>, l\<lparr>frames := (g, ?y) # fs, pc4 := Remove_Return\<rparr>))"
    unfolding extreme_return_step_def dr unfolding a_def by simp
  ultimately show ?thesis by simp
qed

subsection \<open>Every step\<close>

lemma code_step4_ok:
  assumes pre: "step_pre4 root V T L k \<sigma> l"
  shows "gives (code_step4 root \<sigma> l (pc4 l)) (step_post4 root V T L l)"
proof (cases "pc4 l")
  case (Balance w d b)
  then show ?thesis using balance_step_ok [OF pre Balance] by simp
next
  case (Balance_Grandchild w d b e c)
  then show ?thesis using balance_grandchild_step_ok [OF pre Balance_Grandchild] by simp
next
  case (Balanced w d b)
  then show ?thesis using balanced_find_ok [OF pre, of d b] balanced_add_ok [OF pre, of d b] by (cases w) simp_all
next
  case (Extreme_Return d n i)
  then have "i = n \<or> i < n" using step_preD(4) [OF pre] by auto
  then show ?thesis using splice_ok [OF pre, of d n] extreme_unlock_ok [OF pre Extreme_Return] Extreme_Return by auto
qed (use quiet_wait [OF pre] prepare_step_ok [OF pre] acquire_step4_ok [OF pre] find_step4_ok [OF pre]
  insert_start_ok [OF pre] insert_below_ok [OF pre] insert_return_ok [OF pre] remove_at_ok [OF pre]
  extreme_step_ok [OF pre] remove_return_ok [OF pre] release_step4_ok [OF pre] in simp_all)

end
