(* ===== verification/V4_Interleaving.thy ===== *)
theory V4_Interleaving
  imports V4_Removals RL_Abstract_Lock
begin

text \<open>
  All threads together: the invariant of the tree and its threads under every interleaving of their
  steps, and the contract of the abstract lock.
\<close>

subsection \<open>Pairs of threads\<close>

text \<open>
  Two threads share no node, do not insert ranges that overlap each other, and do not remove the
  same range.
\<close>

definition apart4 :: "locals4 \<Rightarrow> locals4 \<Rightarrow> bool" where
  "apart4 l m \<longleftrightarrow> claimed4 l \<inter> claimed4 m = {} \<and>
     (adding l \<and> adding m \<longrightarrow> \<not> closed_overlaps (kr (op_range l)) (kr (op_range m))) \<and>
     (removing4 l \<and> removing4 m \<longrightarrow> op_range l \<noteq> op_range m)"

lemma parent_in:
  assumes "tree_inv root V k T" "x \<in> insert root (set_tree T)" "V x = Some v" "v_child v d = Some b"
  shows "x \<in> set_tree T"
  using assms tree_shape(2) [OF assms(1)] by (auto elim!: tree_inv_cases dest: shape_root_in)

text \<open>A node that a removal has unlocked on its way back has its parent on the stack.\<close>

lemma unlocked_parent:
  assumes ti: "thread_inv4 root V T m" and a: "a \<in> claimed4 m" "a \<notin> held4 m"
  obtains y v d where "y \<in> claimed4 m" "V y = Some v" "v_child v d = Some a"
proof -
  from a obtain i where i: "i < length (stack4 m)" "a = snd (stack4 m ! i)"
    by (auto simp: claimed4_def in_set_conv_nth)
  have "i < unlocked4 m"
  proof (rule ccontr)
    assume "\<not> i < unlocked4 m"
    then have "drop (unlocked4 m) (stack4 m) ! (i - unlocked4 m) = stack4 m ! i" "i - unlocked4 m < length (drop (unlocked4 m) (stack4 m))"
      using i(1) by auto
    then have "stack4 m ! i \<in> set (drop (unlocked4 m) (stack4 m))" by (metis nth_mem)
    with a(2) i(2) show False by (auto simp: held4_def)
  qed
  then obtain d n k where pc: "pc4 m = Extreme_Return d n k" "i < k"
    by (auto simp: unlocked4_def split: pc4.splits)
  have st: "stack4 m = frames m" using pc by (simp add: stack4_def)
  from ti pc have len: "i + 1 < length (frames m)" by (auto simp: thread_inv4_def cutting_def)
  from ti st have "linked4 V (frames m)" by (simp add: thread_inv4_def stack_inv_def)
  from linked4_nth [OF this len] obtain v where
    "V (snd (frames m ! (i + 1))) = Some v" "v_child v (fst (frames m ! i)) = Some a" using i(2) st by auto
  moreover have "snd (frames m ! (i + 1)) \<in> claimed4 m" using len st by (auto simp: claimed4_def)
  ultimately show thesis by (rule that [rotated])
qed

lemma claimed_in: "thread_inv4 root V T l \<Longrightarrow> claimed4 l \<subseteq> insert root (set_tree T)"
  by (simp add: thread_inv4_def stack_inv_def claimed4_def)

text \<open>A node that a thread locks is no other thread's.\<close>

lemma fresh_not_claimed:
  assumes inv: "tree_inv root V k T" and l: "thread_inv4 root V T l" and m: "thread_inv4 root V T m" "held4 m \<subseteq> L"
    and dis: "claimed4 l \<inter> claimed4 m = {}" and f: "fresh_lock root V L l a"
  shows "a \<notin> claimed4 m"
proof
  assume am: "a \<in> claimed4 m"
  from f m(2) have "a \<notin> held4 m" by (auto simp: fresh_lock_def)
  from unlocked_parent [OF m(1) am this] obtain y v d where y: "y \<in> claimed4 m" "V y = Some v" "v_child v d = Some a" .
  have yT: "y \<in> set_tree T" by (rule parent_in [OF inv subsetD [OF claimed_in [OF m(1)] y(1)] y(2,3)])
  from f consider "a = root" | x u e where "x \<in> claimed4 l" "V x = Some u" "v_child u e = Some a"
    by (auto simp: fresh_lock_def)
  then show False
  proof cases
    case 1
    then show False using tree_child(2) [OF inv yT y(2,3)] by simp
  next
    case 2
    then have "x \<in> set_tree T" using parent_in [OF inv subsetD [OF claimed_in [OF l]]] by blast
    from parent_unique [OF inv this 2(2,3) yT y(2,3)] 2(1) y(1) dis show False by auto
  qed
qed

text \<open>What a thread is about to insert fits, and what it is about to remove is there.\<close>

lemma adding_fits: "thread_inv4 root V T l \<Longrightarrow> adding l \<Longrightarrow> fits V T (op_range l)"
  by (auto simp: thread_inv4_def adding_def going_def inserting4_def split: pc4.splits)

lemma removing_there:
  assumes "thread_inv4 root V T l" "tree_inv root V k T" "removing4 l"
  shows "kr (op_range l) \<in> ranges4 V T"
proof -
  have cut: "kr (op_range l) \<in> ranges4 V T" if "cutting root V T l d n" "stack4 l = frames l" for d n
  proof -
    from that(1) have "frames l ! (n + 1) \<in> set (frames l)" by (auto simp: cutting_def)
    then have "snd (frames l ! (n + 1)) \<in> insert root (set_tree T)"
      using claimed_in [OF assms(1)] that(2) by (auto simp: claimed4_def)
    moreover have "root \<in> set_tree T" using that(1) tree_shape(2) [OF assms(2)] by (auto simp: cutting_def)
    ultimately show ?thesis using that(1) by (auto simp: ranges4_def cutting_def)
  qed
  show ?thesis
    using assms(1,3) cut by (auto simp: thread_inv4_def removing4_def stack4_def split: pc4.splits)
qed

subsection \<open>A step among the others\<close>

lemma apart4_sym: "apart4 l m \<longleftrightarrow> apart4 m l"
  using closed.overlaps_sym [of "kr (op_range l)" "kr (op_range m)"]
    closed.overlaps_sym [of "kr (op_range m)" "kr (op_range l)"] by (auto simp: apart4_def)

lemma step_postE:
  assumes "step_post4 root V T L l (\<sigma>', l')"
  obtains V' k' T' X where "abs4 \<sigma>' = (V', (L - held4 l) \<union> held4 l', k')" "tree_inv root V' k' T'"
    "thread_inv4 root V' T' l'" "\<forall>a\<in>claimed4 l'. a \<in> claimed4 l \<or> fresh_lock root V L l a"
    "X \<subseteq> claimed4 l \<union> claimed4 l'" "kept X V T V' T'"
    "\<forall>a\<in>dom V. a \<notin> claimed4 l \<union> claimed4 l' \<longrightarrow> V' a = V a"
    "ranges4 V' T' = apply_action (action4 l l') (ranges4 V T)"
    "op_range l' = op_range l" "(adding l' \<longrightarrow> adding l) \<and> (removing4 l' \<longrightarrow> removing4 l)"
  using assms unfolding step_post4_def prod.case by blast

lemma step_other:
  assumes pre: "step_pre4 root V T L k \<sigma> l" and m: "thread_inv4 root V T m" "held4 m \<subseteq> L" and ap: "apart4 l m"
    and new: "\<forall>a\<in>claimed4 l'. a \<in> claimed4 l \<or> fresh_lock root V L l a"
    and X: "X \<subseteq> claimed4 l \<union> claimed4 l'" "kept X V T V' T'"
    and fr: "\<forall>a\<in>dom V. a \<notin> claimed4 l \<union> claimed4 l' \<longrightarrow> V' a = V a"
    and rg: "ranges4 V' T' = apply_action (action4 l l') (ranges4 V T)"
    and op: "op_range l' = op_range l" "(adding l' \<longrightarrow> adding l) \<and> (removing4 l' \<longrightarrow> removing4 l)"
  shows "thread_inv4 root V' T' m" "apart4 l' m"
proof -
  from pre have inv: "tree_inv root V k T" and l: "thread_inv4 root V T l" by (simp_all add: step_pre4_def)
  have dis: "claimed4 l \<inter> claimed4 m = {}" using ap by (simp add: apart4_def)
  from fresh_not_claimed [OF inv l m dis] new dis have dis': "claimed4 l' \<inter> claimed4 m = {}" by blast
  with ap op show "apart4 l' m" unfolding apart4_def by auto
  show "thread_inv4 root V' T' m"
  proof (rule thread_inv4_stable [OF m(1) _ X(2)])
    show "V' a = V a" if "a \<in> claimed4 m" for a
      using fr tree_in_dom [OF inv subsetD [OF claimed_in [OF m(1)] that]] dis dis' that by blast
    show "X \<inter> claimed4 m = {}" using X(1) dis dis' by blast
    show "r \<in> ranges4 V T \<or> \<not> closed_overlaps (kr (op_range m)) r" if "adding m" "r \<in> ranges4 V' T'" for r
      using that ap rg closed.overlaps_sym [of "kr (op_range m)" "kr (op_range l)"]
      by (auto simp: action4_def apart4_def split: if_splits)
    show "kr (op_range m) \<in> ranges4 V' T'" if "pc4 m = Remove_At" "kr (op_range m) \<in> ranges4 V T"
    proof -
      have "removing4 m" using that(1) by (simp add: removing4_def)
      with ap have "removing4 l \<Longrightarrow> op_range l \<noteq> op_range m" by (simp add: apart4_def)
      then show ?thesis using that(2) unfolding rg by (auto simp: action4_def)
    qed
  qed
qed

subsection \<open>The invariant of the system\<close>

definition held_ranges4 :: "system4 \<Rightarrow> 64 word range set" where
  "held_ranges4 S = (case contents (tree4 S) of None \<Rightarrow> {} | Some rs \<Rightarrow> set (krs rs))"

definition all_held4 :: "system4 \<Rightarrow> addr4 set" where
  "all_held4 S = (\<Union>t. held4 (threads4 S t))"

text \<open>The threads are numbered from 0; those from \<open>N\<close> on take no part.\<close>

definition system_at :: "nat \<Rightarrow> system4 \<Rightarrow> addr4 tree \<Rightarrow> bool" where
  "system_at N S T \<longleftrightarrow> tree_at (tree4 S) (all_held4 S) T \<and>
     (\<forall>t. thread_inv4 (m_root (tree4 S)) (view (mem (tree4 S))) T (threads4 S t)) \<and>
     (\<forall>t u. t \<noteq> u \<longrightarrow> apart4 (threads4 S t) (threads4 S u)) \<and> (\<forall>t\<ge>N. pc4 (threads4 S t) = Idle4)"

definition system_inv4 :: "nat \<Rightarrow> system4 \<Rightarrow> bool" where
  "system_inv4 N S \<longleftrightarrow> (\<exists>T. system_at N S T)"

lemma system_atD:
  assumes "system_at N S T"
  shows "abs4 (mem (tree4 S)) = (view (mem (tree4 S)), all_held4 S, t_brk (mem (tree4 S)))"
    "tree_inv (m_root (tree4 S)) (view (mem (tree4 S))) (t_brk (mem (tree4 S))) T"
    "thread_inv4 (m_root (tree4 S)) (view (mem (tree4 S))) T (threads4 S t)"
    "t \<noteq> u \<Longrightarrow> apart4 (threads4 S t) (threads4 S u)" "N \<le> t \<Longrightarrow> pc4 (threads4 S t) = Idle4"
    "held_ranges4 S = ranges4 (view (mem (tree4 S))) T" "held4 (threads4 S t) \<subseteq> all_held4 S"
proof -
  show "held_ranges4 S = ranges4 (view (mem (tree4 S))) T"
    using assms tree_at_contents [of "tree4 S" "all_held4 S" T]
    by (simp add: held_ranges4_def system_at_def ranges4_def image_image)
qed (use assms in \<open>auto simp: system_at_def tree_at_def abs4_def all_held4_def\<close>)

lemma system_pre4:
  assumes "system_at N S T"
  shows "step_pre4 (m_root (tree4 S)) (view (mem (tree4 S))) T (all_held4 S) (t_brk (mem (tree4 S))) (mem (tree4 S)) (threads4 S t)"
  using system_atD [OF assms] by (simp add: step_pre4_def)

lemma held4_apart: "apart4 l m \<Longrightarrow> held4 l \<inter> held4 m = {}"
  using held4_claimed [of l] held4_claimed [of m] by (auto simp: apart4_def)

definition event_action4 :: "event4 \<Rightarrow> system4 \<Rightarrow> 64 word range action" where
  "event_action4 ev S = (case ev of
       Step4 t \<Rightarrow> action4 (threads4 S t) (snd (step4 (m_root (tree4 S)) (mem (tree4 S)) (threads4 S t)))
     | _ \<Rightarrow> Silent)"

lemma action_allowed:
  assumes "system_at N S T" "op_range l' = op_range (threads4 S t)"
  shows "lock_spec closed_valid closed_overlaps (held_ranges4 S) (action4 (threads4 S t) l')
    (apply_action (action4 (threads4 S t) l') (held_ranges4 S))"
  using adding_fits [OF system_atD(3) [OF assms(1)], of t] removing_there [OF system_atD(3,2) [OF assms(1)], of t]
  by (auto simp: action4_def fits_def system_atD(6) [OF assms(1)])

lemma step_event4:
  assumes at: "system_at N S T"
  obtains T' where "system_at N (do_event4 (Step4 t) S) T'"
    "held_ranges4 (do_event4 (Step4 t) S) = apply_action (event_action4 (Step4 t) S) (held_ranges4 S)"
    "lock_spec closed_valid closed_overlaps (held_ranges4 S) (event_action4 (Step4 t) S)
       (held_ranges4 (do_event4 (Step4 t) S))"
proof -
  let ?root = "m_root (tree4 S)" and ?l = "threads4 S t" and ?S = "do_event4 (Step4 t) S"
  note D = system_atD [OF at] and pre = system_pre4 [OF at, of t]
  obtain \<sigma>' l' where s: "code_step4 ?root (mem (tree4 S)) ?l (pc4 ?l) = Some (\<sigma>', l')"
    and post: "step_post4 ?root (view (mem (tree4 S))) T (all_held4 S) ?l (\<sigma>', l')"
    using givesD [OF code_step4_ok [OF pre]] by (metis surj_pair)
  from step_postE [OF post] obtain V' k' T' X where q: "abs4 \<sigma>' = (V', (all_held4 S - held4 ?l) \<union> held4 l', k')" "tree_inv ?root V' k' T'"
    "thread_inv4 ?root V' T' l'" "\<forall>a\<in>claimed4 l'. a \<in> claimed4 ?l \<or> fresh_lock ?root (view (mem (tree4 S))) (all_held4 S) ?l a"
    "X \<subseteq> claimed4 ?l \<union> claimed4 l'" "kept X (view (mem (tree4 S))) T V' T'"
    "\<forall>a\<in>dom (view (mem (tree4 S))). a \<notin> claimed4 ?l \<union> claimed4 l' \<longrightarrow> V' a = view (mem (tree4 S)) a"
    "ranges4 V' T' = apply_action (action4 ?l l') (ranges4 (view (mem (tree4 S))) T)"
    "op_range l' = op_range ?l" "(adding l' \<longrightarrow> adding ?l) \<and> (removing4 l' \<longrightarrow> removing4 ?l)" .
  have st: "step4 ?root (mem (tree4 S)) ?l = (\<sigma>', l')" using s by (simp add: step4_def)
  have S': "tree4 ?S = (tree4 S)\<lparr>mem := \<sigma>'\<rparr>" "threads4 ?S = (threads4 S)(t := l')"
    using st by (simp_all add: set_thread4_def)
  have V': "view \<sigma>' = V'" "locks \<sigma>' = (all_held4 S - held4 ?l) \<union> held4 l'" "t_brk \<sigma>' = k'"
    using q(1) by (simp_all add: abs4_eq)
  note other = step_other [OF pre D(3) D(7) D(4) q(4-10)]
  have held: "all_held4 ?S = (all_held4 S - held4 ?l) \<union> held4 l'"
  proof -
    have "a \<notin> held4 ?l" if "a \<in> held4 (threads4 S u)" "u \<noteq> t" for a u using held4_apart [OF D(4) [OF that(2)]] that(1) by blast
    then show ?thesis unfolding all_held4_def S'(2) by (auto split: if_splits)
  qed
  have "pc4 l' = Idle4" if "N \<le> t"
    using D(5) [OF that] s by simp
  then have at': "system_at N ?S T'"
    using q(2,3) V' D(4,5) other apart4_sym held
    unfolding system_at_def tree_at_def S' by auto
  have hr: "held_ranges4 ?S = apply_action (event_action4 (Step4 t) S) (held_ranges4 S)"
    using q(8) V'(1) D(6) by (simp add: system_atD(6) [OF at'] S'(1) event_action4_def st del: do_event4.simps)
  then show thesis
    using that [OF at' hr] action_allowed [OF at q(9)] by (simp add: event_action4_def st)
qed

subsection \<open>Calls\<close>

text \<open>
  What callers have to keep to: they insert only what they have acquired or what the whole tree is
  locked for, a valid range that overlaps none in the tree and none being inserted; they remove a
  range of the tree that no other thread is removing.
\<close>

definition thread_list :: "nat \<Rightarrow> system4 \<Rightarrow> locals4 list" where
  "thread_list N S = map (threads4 S) [0..<N]"

definition may_insert :: "nat \<Rightarrow> nat \<Rightarrow> keyrange \<Rightarrow> system4 \<Rightarrow> bool" where
  "may_insert N t r S \<longleftrightarrow> closed_valid (kr r) \<and> (\<forall>q\<in>held_ranges4 S. \<not> closed_overlaps (kr r) q) \<and>
     (\<forall>m\<in>set (thread_list N S). adding m \<longrightarrow> \<not> closed_overlaps (kr r) (kr (op_range m)))"

definition may_remove :: "nat \<Rightarrow> nat \<Rightarrow> keyrange \<Rightarrow> system4 \<Rightarrow> bool" where
  "may_remove N t r S \<longleftrightarrow> kr r \<in> held_ranges4 S \<and>
     (\<forall>m\<in>set (thread_list N S). removing4 m \<longrightarrow> op_range m \<noteq> r)"

definition acquired4 :: "locals4 \<Rightarrow> keyrange \<Rightarrow> bool" where
  "acquired4 l r \<longleftrightarrow> pc4 l = Prepared \<or> within r (m_lk_range (lk l))"

fun legal4 :: "nat \<Rightarrow> event4 \<Rightarrow> system4 \<Rightarrow> bool" where
  "legal4 N (Call_Prepare t) S \<longleftrightarrow> t < N"
| "legal4 N (Call_Acquire t l r) S \<longleftrightarrow> t < N \<and> l \<le> r"
| "legal4 N (Call_Insert t r) S \<longleftrightarrow> t < N \<and> acquired4 (threads4 S t) r \<and> may_insert N t r S"
| "legal4 N (Call_Remove t r) S \<longleftrightarrow> t < N \<and> acquired4 (threads4 S t) r \<and> may_remove N t r S"
| "legal4 N (Call_Release t) S \<longleftrightarrow> t < N"
| "legal4 N (Step4 t) S \<longleftrightarrow> True"

text \<open>A call changes nothing but the place of its thread.\<close>

lemma call_at:
  assumes at: "system_at N S T" and t: "t < N"
    and l: "claimed4 l = claimed4 (threads4 S t)" "held4 l = held4 (threads4 S t)"
      "thread_inv4 (m_root (tree4 S)) (view (mem (tree4 S))) T l"
    and add: "\<And>u. adding l \<Longrightarrow> u < N \<Longrightarrow> adding (threads4 S u) \<Longrightarrow>
      \<not> closed_overlaps (kr (op_range l)) (kr (op_range (threads4 S u)))"
    and rem: "\<And>u. removing4 l \<Longrightarrow> u < N \<Longrightarrow> removing4 (threads4 S u) \<Longrightarrow> op_range (threads4 S u) \<noteq> op_range l"
  shows "system_at N (set_thread4 t l S) T"
proof -
  note D = system_atD [OF at]
  have idle: "u < N" if "adding (threads4 S u) \<or> removing4 (threads4 S u)" for u
    using that D(5) [of u] by (cases "u < N") (auto simp: adding_def removing4_def)
  have ap: "apart4 l (threads4 S u)" if "u \<noteq> t" for u
    using D(4) [of t u] that l(1) add [of u] rem [of u] idle [of u] by (auto simp: apart4_def)
  have "all_held4 (set_thread4 t l S) = all_held4 S"
    using l(2) by (auto simp: all_held4_def set_thread4_def split: if_splits)
  then show ?thesis
    using at t l(3) ap apart4_sym D(4) by (auto simp: system_at_def set_thread4_def)
qed

lemma ready4_claims:
  "ready4 l \<Longrightarrow> stack4 l = [(Left_Side, m_subtree (lk l))] \<and> unlocked4 l = 0 \<and> \<not> adding l \<and> \<not> removing4 l"
  by (auto simp: ready4_def place_defs)

lemma ready4_homed: "thread_inv4 root V T l \<Longrightarrow> ready4 l \<Longrightarrow> homed root V T l \<and> (pc4 l = Prepared \<longrightarrow> m_subtree (lk l) = root)"
  by (auto simp: ready4_def thread_inv4_def homed_def)

lemma insert_call_at:
  assumes at: "system_at N S T" and t: "t < N" and r: "ready4 (threads4 S t)" and ok: "acquired4 (threads4 S t) rng"
    and may: "may_insert N t rng S"
  shows "system_at N (set_thread4 t ((threads4 S t)\<lparr>op_range := rng, after4 := pc4 (threads4 S t), pc4 := Insert_Start\<rparr>) S) T"
proof -
  note D = system_atD [OF at] and h = ready4_homed [OF system_atD(3) [OF at] r] and c = ready4_claims [OF r]
  from D(3) [of t] c have stk: "stack_inv (m_root (tree4 S)) (view (mem (tree4 S))) T [(Left_Side, m_subtree (lk (threads4 S t)))]"
    by (simp add: thread_inv4_def)
  have fit: "fits (view (mem (tree4 S))) T rng" using may D(6) by (simp add: may_insert_def fits_def)
  show ?thesis
    by (rule call_at [OF at t])
      (use c r h stk fit ok may in \<open>auto simp: claimed4_def held4_def thread_inv4_def place_defs homed_def
        comes_back_def allowed_def acquired4_def ready4_def may_insert_def thread_list_def\<close>)
qed

lemma remove_call_at:
  assumes at: "system_at N S T" and t: "t < N" and r: "ready4 (threads4 S t)" and ok: "acquired4 (threads4 S t) rng"
    and may: "may_remove N t rng S"
  shows "system_at N (set_thread4 t ((threads4 S t)\<lparr>op_range := rng, after4 := pc4 (threads4 S t),
    frames := [(Left_Side, m_subtree (lk (threads4 S t)))], pc4 := Remove_At\<rparr>) S) T"
proof -
  let ?l = "threads4 S t" and ?root = "m_root (tree4 S)" and ?V = "view (mem (tree4 S))"
  note D = system_atD [OF at] and h = ready4_homed [OF system_atD(3) [OF at] r] and c = ready4_claims [OF r]
  from D(3) [of t] c have stk: "stack_inv ?root ?V T [(Left_Side, m_subtree (lk ?l))]"
    by (simp add: thread_inv4_def)
  from may D(6) have there: "kr rng \<in> ranges4 ?V T" by (simp add: may_remove_def)
  then obtain a where a: "a \<in> set_tree T" "kr rng = kr (rg4 ?V a)" by (auto simp: ranges4_def)
  have val: "closed_valid (kr rng)" using tree_valid [OF D(2) a(1)] a(2) by simp
  have "placed ?V T rng (m_subtree (lk ?l))"
  proof (cases "m_subtree (lk ?l) = ?root")
    case True
    then show ?thesis using placed_at_root [OF D(2) tree_shape(2) [OF D(2) a(1)]] by simp
  next
    case False
    then have "within rng (m_lk_range (lk ?l))" "placed ?V T (m_lk_range (lk ?l)) (m_subtree (lk ?l))"
      using h ok by (auto simp: acquired4_def homed_def)
    then show ?thesis using placed_sub by (auto simp: within_def)
  qed
  then show ?thesis
    by (intro call_at [OF at t])
      (use c r h stk there val ok may in \<open>auto simp: claimed4_def held4_def thread_inv4_def place_defs homed_def working_def
        comes_back_def allowed_def acquired4_def ready4_def may_remove_def thread_list_def this4_def\<close>)
qed

lemma call_event4:
  assumes at: "system_at N S T" and leg: "legal4 N ev S" and call: "\<nexists>t. ev = Step4 t"
  shows "system_at N (do_event4 ev S) T"
proof (cases ev)
  case (Call_Prepare t)
  show ?thesis unfolding Call_Prepare do_event4.simps
    by (cases "pc4 (threads4 S t) = Idle4", simp, rule call_at [OF at])
      (use leg at Call_Prepare in \<open>auto simp: place_defs claimed4_def held4_def thread_inv4_def stack_inv_def\<close>)
next
  case (Call_Acquire t lo hi)
  show ?thesis unfolding Call_Acquire do_event4.simps
    by (cases "pc4 (threads4 S t) = Prepared", simp, rule call_at [OF at])
      (use leg at system_atD(3) [OF at, of t] Call_Acquire in
        \<open>auto simp: place_defs claimed4_def held4_def thread_inv4_def stack_inv_def closed_valid_def\<close>)
next
  case (Call_Insert t rng)
  then show ?thesis using insert_call_at [OF at, of t rng] leg at by (auto simp: Let_def)
next
  case (Call_Remove t rng)
  then show ?thesis using remove_call_at [OF at, of t rng] leg at by (auto simp: Let_def)
next
  case (Call_Release t)
  show ?thesis unfolding Call_Release do_event4.simps
    by (cases "ready4 (threads4 S t)", simp, rule call_at [OF at])
      (use leg at ready4_claims [of "threads4 S t"] system_atD(3) [OF at, of t] Call_Release in
        \<open>auto simp: place_defs claimed4_def held4_def thread_inv4_def stack_inv_def\<close>)
qed (use call in simp)

subsection \<open>The contract\<close>

lemma init_system_at: "system_at N (init_system4 g) Leaf"
proof -
  have h: "all_held4 (init_system4 g) = {}"
    by (simp add: all_held4_def init_system4_def fresh_locals4_def held4_def place_defs)
  show ?thesis
    unfolding system_at_def h using create_tree_at [of g]
    by (auto simp: init_system4_def fresh_locals4_def thread_inv4_def apart4_def place_defs stack_inv_def claimed4_def)
qed

lemma event4_ok:
  assumes at: "system_at N S T" and leg: "legal4 N ev S"
  shows "system_inv4 N (do_event4 ev S)"
proof (cases "\<exists>t. ev = Step4 t")
  case True
  then obtain t where "ev = Step4 t" ..
  then show ?thesis using step_event4 [OF at, of t] by (metis system_inv4_def)
next
  case False
  from call_event4 [OF at leg False] show ?thesis by (auto simp: system_inv4_def)
qed

lemma call_tree: "\<nexists>t. ev = Step4 t \<Longrightarrow> tree4 (do_event4 ev S) = tree4 S"
  by (cases ev) (auto simp: set_thread4_def Let_def)

lemma event4_refines:
  assumes "system_inv4 N S"
  shows "lock_spec closed_valid closed_overlaps (held_ranges4 S) (event_action4 ev S) (held_ranges4 (do_event4 ev S))"
proof (cases "\<exists>t. ev = Step4 t")
  case True
  then obtain t where "ev = Step4 t" ..
  then show ?thesis using assms step_event4 by (metis system_inv4_def)
next
  case False
  then have "event_action4 ev S = Silent" "held_ranges4 (do_event4 ev S) = held_ranges4 S"
    using call_tree [OF False] by (auto simp: event_action4_def held_ranges4_def split: event4.splits)
  then show ?thesis by simp
qed

interpretation v4: lock_implementation closed_valid closed_before closed_overlaps "init_system4 g" do_event4
    "legal4 N" "system_inv4 N" held_ranges4 event_action4 for g N
proof unfold_locales
  show "system_inv4 N (init_system4 g)" using init_system_at by (auto simp: system_inv4_def)
  show "held_ranges4 (init_system4 g) = {}"
    using system_atD(6) [OF init_system_at] by (simp add: ranges4_def)
  show "system_inv4 N (do_event4 ev S)" if "system_inv4 N S" "legal4 N ev S" for S ev
    using that event4_ok by (auto simp: system_inv4_def)
  show "lock_spec closed_valid closed_overlaps (held_ranges4 S) (event_action4 ev S) (held_ranges4 (do_event4 ev S))"
    if "system_inv4 N S" for S ev
    by (rule event4_refines [OF that])
qed

text \<open>Runs that keep to the contract.\<close>

definition legal_events4 :: "nat \<Rightarrow> event4 list \<Rightarrow> keyrange \<Rightarrow> bool" where
  "legal_events4 N evs g \<longleftrightarrow> legal_run do_event4 (legal4 N) evs (init_system4 g)"

lemma run_at:
  assumes "legal_events4 N evs g"
  obtains T where "system_at N (run_events4 evs (init_system4 g)) T"
  using v4.run_inv [OF assms [unfolded legal_events4_def] v4.init_inv]
  by (auto simp: system_inv4_def run_events4_def)

end
