(* ===== verification/V4_Progress.thy ===== *)
theory V4_Progress
  imports V4_Interleaving
begin

text \<open>
  Threads on the tree only wait downwards: for a child of the innermost node they hold, or for the
  root while they hold nothing. So they never wait for each other in a circle.
\<close>

subsection \<open>Waiting\<close>

text \<open>The mutex that the next step of a thread asks for.\<close>

definition child_of :: "side \<Rightarrow> addr4 \<Rightarrow> memory4 \<Rightarrow> addr4 option" where
  "child_of d a \<sigma> = t_heap \<sigma> a \<bind> (\<lambda>n. ptr (child d n))"

definition way4 :: "memory4 \<Rightarrow> locals4 \<Rightarrow> comparison option \<Rightarrow> side" where
  "way4 \<sigma> l hint = (case hint of Some c \<Rightarrow> if c = LESS_THAN then Left_Side else Right_Side
     | None \<Rightarrow> (case t_heap \<sigma> (this4 l) of None \<Rightarrow> Right_Side
         | Some n \<Rightarrow> if compare (op_range l) (m_range n) = LESS_THAN then Left_Side else Right_Side))"

fun wanted4 :: "addr4 \<Rightarrow> memory4 \<Rightarrow> locals4 \<Rightarrow> pc4 \<Rightarrow> addr4 option" where
  "wanted4 root \<sigma> l Preparing = Some root"
| "wanted4 root \<sigma> l (Find hint) = child_of (way4 \<sigma> l hint) (this4 l) \<sigma>"
| "wanted4 root \<sigma> l (Balance w d b) = t_heap \<sigma> b \<bind> (\<lambda>n. heavy_side n \<bind> (\<lambda>e. child_of e b \<sigma>))"
| "wanted4 root \<sigma> l (Balance_Grandchild w d b e c) = child_of (other e) c \<sigma>"
| "wanted4 root \<sigma> l Insert_Below = child_of (way4 \<sigma> l None) (this4 l) \<sigma>"
| "wanted4 root \<sigma> l Remove_At = t_heap \<sigma> (this4 l) \<bind> (\<lambda>n.
     if compare (op_range l) (m_range n) = EQUALS
     then child_of (if ptr (m_left_child n) \<noteq> None then Left_Side else Right_Side) (this4 l) \<sigma>
     else child_of (way4 \<sigma> l None) (this4 l) \<sigma>)"
| "wanted4 root \<sigma> l (Extreme d n) = child_of d (this4 l) \<sigma>"
| "wanted4 root \<sigma> l _ = None"

definition waits4 :: "addr4 \<Rightarrow> memory4 \<Rightarrow> locals4 \<Rightarrow> addr4 \<Rightarrow> bool" where
  "waits4 root \<sigma> l a \<longleftrightarrow> wanted4 root \<sigma> l (pc4 l) = Some a \<and> is_locked (Some a) \<sigma>"

definition busy4 :: "locals4 \<Rightarrow> bool" where
  "busy4 l \<longleftrightarrow> pc4 l \<notin> {Idle4, Prepared, Acquired, Crashed4}"

text \<open>A thread that does not wait gets on.\<close>

lemma lock_child_result:
  assumes "lock_child d a \<sigma> l K = Some (\<sigma>', l')" "\<not> is_locked (child_of d a \<sigma>) \<sigma>"
  obtains cp \<sigma>1 where "K cp \<sigma>1 = Some (\<sigma>', l')"
  using assms by (auto simp: lock_child_def child_of_def bind_eq_Some_conv split: if_splits)

definition moved :: "locals4 \<Rightarrow> locals4 \<Rightarrow> bool" where
  "moved l l' \<longleftrightarrow> pc4 l' \<noteq> pc4 l \<or> length (frames l') \<noteq> length (frames l)"

lemma end_rotation_moved: "end_rotation w d b cp r \<sigma> l = Some (\<sigma>', l') \<Longrightarrow> pc4 l = Balance w' d' b' \<or> pc4 l = Balance_Grandchild w' d' b' e c \<Longrightarrow> moved l l'"
  by (auto simp: end_rotation_def bind_eq_Some_conv moved_def)

lemma find_moved:
  assumes pc: "pc4 l = Find hint" and s: "find_step4 hint \<sigma> l = Some (\<sigma>', l')"
    and go: "\<not> is_locked (child_of (way4 \<sigma> l hint) (this4 l) \<sigma>) \<sigma>"
  shows "moved l l'"
proof -
  from s obtain n where n: "t_heap \<sigma> (this4 l) = Some n" by (auto simp: find_step4_def bind_eq_Some_conv)
  then have w: "way4 \<sigma> l hint = (if (case hint of Some h \<Rightarrow> h | None \<Rightarrow> compare (op_range l) (m_range n)) = LESS_THAN
      then Left_Side else Right_Side)" by (simp add: way4_def split: option.split)
  from s [unfolded find_step4_def n bind.bind_lunit Let_def, folded w] go show ?thesis
    by (rule lock_child_result) (use pc in \<open>auto simp: moved_def end_acquire_def split: option.splits\<close>)
qed

lemma insert_below_moved:
  assumes pc: "pc4 l = Insert_Below" and s: "insert_below_step \<sigma> l = Some (\<sigma>', l')"
    and go: "\<not> is_locked (child_of (way4 \<sigma> l None) (this4 l) \<sigma>) \<sigma>"
  shows "moved l l'"
proof -
  from s obtain n where n: "t_heap \<sigma> (this4 l) = Some n" by (auto simp: insert_below_step_def bind_eq_Some_conv)
  then have w: "way4 \<sigma> l None = turn (op_range l) (m_range n)" by (simp add: way4_def)
  from s [unfolded insert_below_step_def n bind.bind_lunit Let_def, folded w] go show ?thesis
    by (rule lock_child_result)
      (use pc in \<open>auto simp: moved_def bind_eq_Some_conv Let_def split: option.splits prod.splits\<close>)
qed

lemma balance_moved:
  assumes pc: "pc4 l = Balance w d b" and s: "balance_step w d b \<sigma> l = Some (\<sigma>', l')"
    and go: "\<not> is_locked (t_heap \<sigma> b \<bind> (\<lambda>n. heavy_side n \<bind> (\<lambda>e. child_of e b \<sigma>))) \<sigma>"
  shows "moved l l'"
proof -
  from s obtain n where n: "t_heap \<sigma> b = Some n" by (auto simp: balance_step_def bind_eq_Some_conv)
  show ?thesis
  proof (cases "heavy_side n")
    case None
    with s n show ?thesis using end_rotation_moved pc by (auto simp: balance_step_def)
  next
    case (Some e)
    with n go have "\<not> is_locked (child_of e b \<sigma>) \<sigma>" by simp
    from s [unfolded balance_step_def n bind.bind_lunit Some option.case] this show ?thesis
      by (rule lock_child_result)
        (use pc in \<open>auto simp: bind_eq_Some_conv moved_def split: if_splits dest!: end_rotation_moved [of _ _ _ _ _ _ _ _ _ w d b]\<close>)
  qed
qed

lemma balance_grandchild_moved:
  assumes pc: "pc4 l = Balance_Grandchild w d b e c" and s: "balance_grandchild_step w d b e c \<sigma> l = Some (\<sigma>', l')"
    and go: "\<not> is_locked (child_of (other e) c \<sigma>) \<sigma>"
  shows "moved l l'"
  using s [unfolded balance_grandchild_step_def] go
  by (rule lock_child_result) (use pc end_rotation_moved in \<open>fastforce simp: bind_eq_Some_conv\<close>)

lemma extreme_moved:
  assumes pc: "pc4 l = Extreme d n" and s: "extreme_step d n \<sigma> l = Some (\<sigma>', l')"
    and go: "\<not> is_locked (child_of d (this4 l) \<sigma>) \<sigma>"
  shows "moved l l'"
  using s [unfolded extreme_step_def] go
  by (rule lock_child_result) (use pc in \<open>auto simp: moved_def split: option.splits\<close>)

lemma remove_at_moved:
  assumes pc: "pc4 l = Remove_At" and s: "remove_at_step \<sigma> l = Some (\<sigma>', l')" and after: "after4 l \<noteq> Remove_At"
    and go: "\<not> is_locked (wanted4 root \<sigma> l Remove_At) \<sigma>"
  shows "moved l l'"
proof -
  from s obtain n where n: "t_heap \<sigma> (this4 l) = Some n" by (auto simp: remove_at_step_def bind_eq_Some_conv)
  have down: "moved l l'" if "lock_child d (this4 l) \<sigma> l (\<lambda>cp \<sigma>. cp \<bind> (\<lambda>b. Some (\<sigma>, g b))) = Some (\<sigma>', l')"
      "\<not> is_locked (child_of d (this4 l) \<sigma>) \<sigma>" "\<And>b. length (frames (g b)) = Suc (length (frames l))" for d g
    using that(1,2) by (rule lock_child_result) (use that(3) in \<open>auto simp: bind_eq_Some_conv moved_def\<close>)
  have leaf: "moved l l'" if "remove_leaf_step \<sigma> l = Some (\<sigma>', l')"
    using that pc after by (cases "tl (frames l)") (auto simp: remove_leaf_step_def bind_eq_Some_conv moved_def)
  show ?thesis
  proof (cases "compare (op_range l) (m_range n) = EQUALS")
    case True
    show ?thesis
    proof (cases "ptr (m_left_child n) = None \<and> ptr (m_right_child n) = None")
      case True
      with s n \<open>compare (op_range l) (m_range n) = EQUALS\<close> show ?thesis by (intro leaf) (simp add: remove_at_step_def)
    next
      case False
      with s n go \<open>compare (op_range l) (m_range n) = EQUALS\<close> show ?thesis
        by (auto simp: remove_at_step_def Let_def intro!: down split: if_splits)
    qed
  next
    case False
    with s n go show ?thesis
      by (auto simp: remove_at_step_def Let_def way4_def intro!: down split: if_splits)
  qed
qed

lemma after_rest:
  assumes "thread_inv4 root V T l" "pc4 l \<in> {Insert_Start, Insert_Return, Remove_At, Remove_Return}"
  shows "after4 l = Acquired \<or> after4 l = Prepared"
  using assms by (auto simp: thread_inv4_def working_def comes_back_def)

lemma moves4:
  assumes ti: "thread_inv4 root V T l" and b: "busy4 l" and s: "code_step4 root \<sigma> l (pc4 l) = Some (\<sigma>', l')"
    and go: "\<not> is_locked (wanted4 root \<sigma> l (pc4 l)) \<sigma>"
  shows "moved l l'"
proof (cases "pc4 l")
  case Remove_At
  then have "after4 l \<noteq> Remove_At" using after_rest [OF ti] by auto
  with Remove_At s go show ?thesis using remove_at_moved [of l \<sigma> \<sigma>' l' root] by simp
next
  case (Balanced w d b)
  with s show ?thesis
    by (cases w) (auto simp: balanced_step_def moved_def bind_eq_Some_conv Let_def end_acquire_def split: if_splits)
next
  case (Extreme_Return d n k)
  with s show ?thesis by (auto simp: extreme_return_step_def moved_def bind_eq_Some_conv split: if_splits)
next
  case Insert_Start
  with s after_rest [OF ti] show ?thesis by (auto simp: insert_start_step_def moved_def bind_eq_Some_conv split: if_splits)
next
  case Insert_Return
  with s after_rest [OF ti] show ?thesis by (auto simp: insert_return_step_def moved_def bind_eq_Some_conv split: if_splits)
next
  case Remove_Return
  with s after_rest [OF ti] show ?thesis
    by (auto simp: remove_return_step_def moved_def bind_eq_Some_conv split: list.splits prod.splits)
next
  case Preparing
  with s go show ?thesis by (auto simp: prepare_step_def moved_def bind_eq_Some_conv)
next
  case Acquiring
  with s show ?thesis by (auto simp: acquire_step4_def moved_def bind_eq_Some_conv end_acquire_def split: if_splits)
next
  case Releasing
  with s show ?thesis by (auto simp: release_step4_def moved_def bind_eq_Some_conv)
qed (use b s go find_moved [of l _ \<sigma> \<sigma>' l'] balance_moved [of l _ _ _ \<sigma> \<sigma>' l'] balance_grandchild_moved [of l _ _ _ _ _ \<sigma> \<sigma>' l']
    insert_below_moved [of l \<sigma> \<sigma>' l'] extreme_moved [of l _ _ \<sigma> \<sigma>' l'] in \<open>simp_all add: busy4_def\<close>)

subsection \<open>No circle\<close>

text \<open>Below a node of the stack lie the nodes the innermost one has below it.\<close>

lemma stack_desc:
  assumes inv: "tree_inv root V k T" and fs: "linked4 V (f # fs)" "snd ` set (f # fs) \<subseteq> insert root (set_tree T)"
    and b: "b \<in> snd ` set (f # fs)"
  shows "desc T (snd f) \<subseteq> desc T b"
  using fs b
proof (induction fs arbitrary: f)
  case (Cons g fs)
  show ?case
  proof (cases "b = snd f")
    case False
    from Cons.prems obtain v where v: "V (snd g) = Some v" "v_child v (fst f) = Some (snd f)"
      by (cases f; cases g) auto
    from Cons.prems(2) have "snd g \<in> insert root (set_tree T)" by auto
    then have "desc T (snd f) \<subseteq> desc T (snd g)"
      using child_of_in [OF inv parent_in [OF inv _ v] v] by blast
    moreover have "linked4 V (g # fs)" using Cons.prems(1) by (cases f; cases g) simp
    then have "desc T (snd g) \<subseteq> desc T b" using Cons.prems False by (intro Cons.IH) auto
    ultimately show ?thesis by blast
  qed simp
qed simp

lemma child_of_view: "child_of d a \<sigma> = Some b \<Longrightarrow> \<exists>v. view \<sigma> a = Some v \<and> v_child v d = Some b"
  by (auto simp: child_of_def view_def bind_eq_Some_conv)

text \<open>What a waiting thread waits for.\<close>

lemma wanted_below:
  assumes "wanted4 root \<sigma> l (pc4 l) = Some a" "thread_inv4 root (view \<sigma>) T l"
  shows "pc4 l = Preparing \<and> a = root \<and> stack4 l = [] \<or>
    (\<exists>f fs d v. stack4 l = f # fs \<and> unlocked4 l = 0 \<and> view \<sigma> (snd f) = Some v \<and> v_child v d = Some a)"
proof -
  have top: ?thesis if "child_of d x \<sigma> = Some a" "stack4 l = (e, x) # fs" "unlocked4 l = 0" for d x e fs
    using child_of_view [OF that(1)] that by auto
  have head: "\<exists>e fs. frames l = (e, this4 l) # fs" if "frames l \<noteq> []"
    using that by (cases "frames l") (auto simp: this4_def)
  have ne: "frames l \<noteq> []" if "pc4 l \<in> {Insert_Below, Remove_At} \<union> range Find \<union> range (case_prod Extreme)"
    using that assms(2) by (auto simp: thread_inv4_def searching_def inserting4_def working_def cutting_def)
  show ?thesis
  proof (cases "pc4 l")
    case Preparing
    with assms show ?thesis by (simp add: stack4_def)
  next
    case (Balance w d b)
    with assms obtain e where "child_of e b \<sigma> = Some a" by (auto simp: bind_eq_Some_conv)
    then show ?thesis by (rule top) (use Balance in \<open>simp_all add: place_defs\<close>)
  next
    case (Balance_Grandchild w d b e c)
    with assms have "child_of (other e) c \<sigma> = Some a" by simp
    then show ?thesis by (rule top) (use Balance_Grandchild in \<open>simp_all add: place_defs\<close>)
  next
    case Remove_At
    with assms obtain d where "child_of d (this4 l) \<sigma> = Some a" by (auto simp: bind_eq_Some_conv split: if_splits)
    moreover obtain e fs where "frames l = (e, this4 l) # fs" using head ne Remove_At by blast
    ultimately show ?thesis by (intro top) (use Remove_At in \<open>simp_all add: place_defs\<close>)
  next
    case (Find hint)
    with assms have "child_of (way4 \<sigma> l hint) (this4 l) \<sigma> = Some a" by simp
    moreover obtain e fs where "frames l = (e, this4 l) # fs" using head ne Find by blast
    ultimately show ?thesis by (intro top) (use Find in \<open>simp_all add: place_defs\<close>)
  next
    case Insert_Below
    with assms have "child_of (way4 \<sigma> l None) (this4 l) \<sigma> = Some a" by simp
    moreover obtain e fs where "frames l = (e, this4 l) # fs" using head ne Insert_Below by blast
    ultimately show ?thesis by (intro top) (use Insert_Below in \<open>simp_all add: place_defs\<close>)
  next
    case (Extreme d n)
    with assms have "child_of d (this4 l) \<sigma> = Some a" by simp
    moreover have "pc4 l \<in> range (case_prod Extreme)" using Extreme by (auto intro: image_eqI [where x = "(d, n)"])
    then obtain e fs where "frames l = (e, this4 l) # fs" using head ne by blast
    ultimately show ?thesis by (intro top) (use Extreme in \<open>simp_all add: place_defs\<close>)
  qed (use assms in simp_all)
qed

lemma waits_smaller:
  assumes at: "system_at N S T" and w: "waits4 (m_root (tree4 S)) (mem (tree4 S)) (threads4 S u) b"
    and a: "a \<in> held4 (threads4 S u)"
  shows "card (desc T b) < card (desc T a)"
proof -
  let ?l = "threads4 S u"
  note D = system_atD [OF at]
  have ti: "thread_inv4 (m_root (tree4 S)) (view (mem (tree4 S))) T ?l" by (rule D(3))
  have "stack4 ?l \<noteq> []" using a by (auto simp: held4_def)
  with wanted_below [OF _ ti] w obtain f fs d v where st: "stack4 ?l = f # fs" "unlocked4 ?l = 0"
    and v: "view (mem (tree4 S)) (snd f) = Some v" "v_child v d = Some b" by (auto simp: waits4_def)
  from ti st have l: "linked4 (view (mem (tree4 S))) (f # fs)" "snd ` set (f # fs) \<subseteq> insert (m_root (tree4 S)) (set_tree T)"
    by (simp_all add: thread_inv4_def stack_inv_def)
  have "a \<in> snd ` set (f # fs)" using a st by (simp add: held4_def)
  then have "desc T (snd f) \<subseteq> desc T a" by (rule stack_desc [OF D(2) l])
  moreover have "snd f \<in> set_tree T" using l(2) by (intro parent_in [OF D(2) _ v]) auto
  then have "desc T b \<subset> desc T (snd f)" by (rule child_of_in [OF D(2) _ v])
  moreover have "finite (desc T a)" by (rule finite_subset [OF desc_subset]) simp
  ultimately show ?thesis by (intro psubset_card_mono) auto
qed

lemma locked_held:
  assumes "system_at N S T" "is_locked (Some a) (mem (tree4 S))"
  obtains u where "a \<in> held4 (threads4 S u)"
proof -
  have "a \<in> locks (mem (tree4 S))" using assms(2) by (auto simp: is_locked_def locks_def split: option.splits)
  with system_atD(1) [OF assms(1)] that show thesis by (auto simp: abs4_eq all_held4_def)
qed

lemma busy_moves:
  assumes at: "system_at N S T" and b: "busy4 (threads4 S t)" and go: "\<nexists>a. waits4 (m_root (tree4 S)) (mem (tree4 S)) (threads4 S t) a"
  shows "do_event4 (Step4 t) S \<noteq> S"
proof -
  let ?l = "threads4 S t"
  obtain \<sigma>' l' where s: "code_step4 (m_root (tree4 S)) (mem (tree4 S)) ?l (pc4 ?l) = Some (\<sigma>', l')"
    using givesD [OF code_step4_ok [OF system_pre4 [OF at, of t]]] by (metis surj_pair)
  have "\<not> is_locked (wanted4 (m_root (tree4 S)) (mem (tree4 S)) ?l (pc4 ?l)) (mem (tree4 S))"
    using go by (auto simp: waits4_def is_locked_def split: option.splits)
  from moves4 [OF system_atD(3) [OF at] b s this] have "l' \<noteq> ?l" by (auto simp: moved_def)
  moreover have "threads4 (do_event4 (Step4 t) S) t = l'" using s by (simp add: step4_def set_thread4_def)
  ultimately show ?thesis by metis
qed

lemma no_deadlock:
  assumes at: "system_at N S T" and busy: "busy4 (threads4 S t)"
  shows "\<exists>u. busy4 (threads4 S u) \<and> do_event4 (Step4 u) S \<noteq> S \<or>
    ready4 (threads4 S u) \<and> (\<exists>w. waits4 (m_root (tree4 S)) (mem (tree4 S)) (threads4 S w) (m_subtree (lk (threads4 S u))))"
proof (rule ccontr)
  let ?waits = "\<lambda>t. waits4 (m_root (tree4 S)) (mem (tree4 S)) (threads4 S t)"
  assume no: "\<not> ?thesis"
  then have all: "\<exists>a. ?waits u a" if "busy4 (threads4 S u)" for u
    using busy_moves [OF at that] that by blast
  with busy obtain a0 where "?waits t a0" by blast
  then have "(\<lambda>(t, a). ?waits t a) (t, a0)" by simp
  from ex_has_least_nat [of "\<lambda>(t, a). ?waits t a", OF this, of "\<lambda>(t, a). card (desc T a)"]
  obtain u a where u: "?waits u a" and least: "\<And>w b. ?waits w b \<Longrightarrow> card (desc T a) \<le> card (desc T b)" by auto
  from u have "is_locked (Some a) (mem (tree4 S))" by (simp add: waits4_def)
  from locked_held [OF at this] obtain w where w: "a \<in> held4 (threads4 S w)" .
  have "\<not> ready4 (threads4 S w)"
  proof
    assume r: "ready4 (threads4 S w)"
    with w have "a = m_subtree (lk (threads4 S w))" using ready4_claims [OF r] by (simp add: held4_def)
    with no u r show False by blast
  qed
  with w system_atD(3) [OF at, of w] have "busy4 (threads4 S w)"
    by (auto simp: busy4_def ready4_def thread_inv4_def held4_def stack4_def)
  with all obtain b where b: "?waits w b" by blast
  from waits_smaller [OF at b w] least [OF b] show False by simp
qed

end
