(* ===== verification/V4_Concurrent.thy ===== *)
theory V4_Concurrent
  imports V4_Progress
begin

text \<open>
  What any number of threads may rely on when they work on one range tree, each step from one
  acquisition of a mutex to the next, and where the tree gives less than its header promises.
\<close>

subsection \<open>Nodes below one another\<close>

inductive below4 :: "memory4 \<Rightarrow> addr4 \<Rightarrow> addr4 \<Rightarrow> bool" for \<sigma> :: memory4 where
  child: "child_of d a \<sigma> = Some b \<Longrightarrow> below4 \<sigma> a b"
| deeper: "child_of d a \<sigma> = Some b \<Longrightarrow> below4 \<sigma> b c \<Longrightarrow> below4 \<sigma> a c"

lemma shape_below:
  assumes "shape (view \<sigma>) (Some x) t" "y \<in> set_tree t" "y \<noteq> x"
  shows "below4 \<sigma> x y"
  using assms
proof (induction t arbitrary: x)
  case (Node l a r)
  then obtain v where v: "a = x" "view \<sigma> x = Some v" "shape (view \<sigma>) (v_child v Left_Side) l"
    "shape (view \<sigma>) (v_child v Right_Side) r" by auto
  have c: "child_of d x \<sigma> = v_child v d" for d
    using v(2) by (auto simp: child_of_def view_def vnode_of_def)
  have step: "below4 \<sigma> x y" if "shape (view \<sigma>) (v_child v d) s" "y \<in> set_tree s"
      "\<And>z. shape (view \<sigma>) (Some z) s \<Longrightarrow> y \<noteq> z \<Longrightarrow> below4 \<sigma> z y" for d s
  proof -
    from that(1,2) obtain z where z: "v_child v d = Some z" by (cases s) auto
    show ?thesis
    proof (cases "y = z")
      case True
      then show ?thesis using below4.child [of d x \<sigma> z] c z by simp
    next
      case False
      from that(3) [OF _ this] that(1) z have "below4 \<sigma> z y" by simp
      then show ?thesis using below4.deeper [of d x \<sigma> z] c z by simp
    qed
  qed
  from Node.prems v(1) have "y \<in> set_tree l \<or> y \<in> set_tree r" by auto
  then show ?case using step [OF v(3)] step [OF v(4)] Node.IH by blast
qed simp

lemma desc_below:
  assumes inv: "tree_inv root (view \<sigma>) k T" and x: "x \<in> set_tree T" "y \<in> desc T x" "y \<noteq> x"
  shows "below4 \<sigma> x y"
proof -
  from x(1) obtain c d s s' where t: "T = plug c (mk d s x s')" by (rule focus_node)
  from tree_shape(1) [OF inv x(1)] obtain z where z: "shape (view \<sigma>) (Some z) (mk d s x s')"
    unfolding t by (rule shape_plug_sub) simp
  then have "z = x" by auto
  with z have "shape (view \<sigma>) (Some x) (mk d s x s')" by simp
  moreover have "y \<in> set_tree (mk d s x s')" using x(2) desc_focus [of c d s x s'] tree_invD(2) [OF inv] by (simp add: t)
  ultimately show ?thesis using x(3) by (rule shape_below)
qed

text \<open>Two nodes that both have room for overlapping ranges lie on one path.\<close>

lemma overlapping_nested:
  assumes inv: "tree_inv root V k T" and x: "x \<in> set_tree T" "placed V T q x" "closed_valid (kr q)"
    and y: "y \<in> set_tree T" "placed V T r y" "closed_valid (kr r)"
    and o: "closed_overlaps (kr q) (kr r)"
  shows "x \<in> desc T y \<or> y \<in> desc T x"
proof (rule ccontr)
  assume "\<not> ?thesis"
  then obtain a where a: "a \<in> set_tree T" "a \<notin> desc T x" "a \<notin> desc T y"
    "closed_before (kr (rg4 V x)) (kr (rg4 V a)) \<and> closed_before (kr (rg4 V a)) (kr (rg4 V y)) \<or>
     closed_before (kr (rg4 V y)) (kr (rg4 V a)) \<and> closed_before (kr (rg4 V a)) (kr (rg4 V x))"
    using branch_node [OF tree_invD(2,3) [OF inv] x(1) y(1)] by metis
  then have "same_side (kr (rg4 V a)) (kr (rg4 V x)) (kr q)" "same_side (kr (rg4 V a)) (kr (rg4 V y)) (kr r)"
    using x(2) y(2) by (simp_all add: placed_def)
  then show False
    using a(4) o x(3) y(3) tree_valid [OF inv x(1)] tree_valid [OF inv y(1)] tree_valid [OF inv a(1)]
    unfolding same_side_def by (auto simp: closed_defs)
qed

text \<open>What a locked key range stands for in the tree.\<close>

lemma homed_contents:
  assumes at: "system_at N S T" and h: "homed (m_root (tree4 S)) (view (mem (tree4 S))) T l"
  obtains ps sub qs where "contents (tree4 S) = Some (ps @ sub @ qs)"
    "\<forall>q\<in>set (ps @ qs). \<not> overlaps (m_lk_range (lk l)) q"
    "sub \<noteq> [] \<longrightarrow> tree_ranges (Some (m_subtree (lk l))) (mem (tree4 S)) = Some sub"
proof -
  let ?root = "m_root (tree4 S)" and ?V = "view (mem (tree4 S))" and ?q = "m_lk_range (lk l)" and ?x = "m_subtree (lk l)"
  note inv = system_atD(2) [OF at]
  have con: "contents (tree4 S) = Some (map (rg4 ?V) (inorder T))"
    using at by (auto simp: system_at_def intro: tree_at_contents)
  have sub: "tree_ranges (Some y) (mem (tree4 S)) = Some (map (rg4 ?V) (inorder s))" if "shape ?V (Some y) s" for y s
    by (rule tree_ranges_shape [OF that])
  show thesis
  proof (cases "?x = ?root")
    case True
    have "tree_ranges (Some ?x) (mem (tree4 S)) = Some (map (rg4 ?V) (inorder T))" if "map (rg4 ?V) (inorder T) \<noteq> []"
    proof -
      from that obtain y where "y \<in> set_tree T" by (cases T) auto
      from sub [OF tree_shape(1) [OF inv this]] True show ?thesis by simp
    qed
    then show thesis using that [of "[]" "map (rg4 ?V) (inorder T)" "[]"] con by simp
  next
    case False
    with h have x: "?x \<in> set_tree T" "placed ?V T ?q ?x" "closed_valid (kr ?q)" by (auto simp: homed_def)
    from x(1) obtain c d s s' where t: "T = plug c (mk d s ?x s')" by (rule focus_node)
    from tree_shape(1) [OF inv x(1)] obtain z where z: "shape ?V (Some z) (mk d s ?x s')"
      unfolding t by (rule shape_plug_sub) simp
    then have "z = ?x" by auto
    with z sub have r: "tree_ranges (Some ?x) (mem (tree4 S)) = Some (map (rg4 ?V) (inorder (mk d s ?x s')))" by simp
    have no: "\<not> overlaps ?q (rg4 ?V a)" if a: "a \<in> set (ctx_left c @ ctx_right c)" for a
    proof
      assume "overlaps ?q (rg4 ?V a)"
      then have o: "closed_overlaps (kr (rg4 ?V a)) (kr ?q)"
        by (intro closed.overlaps_sym [of "kr ?q" "kr (rg4 ?V a)"]) (simp add: overlaps_closed)
      have aT: "a \<in> set_tree T" using a by (auto simp: t set_plug)
      have "a \<in> desc T ?x" by (rule placed_overlap [OF x(2) aT o x(3) tree_valid [OF inv aT]])
      then show False using a desc_focus [of c d s ?x s'] tree_invD(2) [OF inv] by (auto simp: t inorder_plug)
    qed
    show thesis
      by (rule that [of "map (rg4 ?V) (ctx_left c)" "map (rg4 ?V) (inorder (mk d s ?x s'))" "map (rg4 ?V) (ctx_right c)"])
        (use con r no in \<open>auto simp: t inorder_plug\<close>)
  qed
qed

text \<open>
  The places of a thread that has a locked key range: between the return of \<open>prepare\<close> or \<open>acquire\<close> and
  the call of \<open>release\<close>, inside its own insertions and removals too.
\<close>

definition has_range4 :: "locals4 \<Rightarrow> bool" where
  "has_range4 l \<longleftrightarrow> adding l \<or> removing4 l \<or> pc4 l \<in> {Prepared, Acquired, Insert_Return, Remove_Return}"

lemma has_range_homed:
  assumes "thread_inv4 root V T l" "has_range4 l"
  shows "homed root V T l" "m_subtree (lk l) \<in> held4 l"
proof -
  from assms have pl: "place_inv root V T l (pc4 l)" by (simp add: thread_inv4_def)
  have w: "homed root V T l \<and> m_subtree (lk l) \<in> held4 l"
    if "working root V T l" "stack4 l = xs @ frames l" "unlocked4 l < length (xs @ frames l)" for xs
  proof -
    from that(1) have f: "frames l \<noteq> []" "snd (last (frames l)) = m_subtree (lk l)" by (simp_all add: working_def)
    have "last (drop (unlocked4 l) (stack4 l)) = last (stack4 l)" using that(2,3) by (metis last_drop)
    moreover have "last (stack4 l) = last (frames l)" using that(2) f(1) by simp
    moreover have "drop (unlocked4 l) (stack4 l) \<noteq> []" using that(2,3) by (metis drop_eq_Nil2 leD)
    ultimately have "last (drop (unlocked4 l) (stack4 l)) = last (frames l)" "drop (unlocked4 l) (stack4 l) \<noteq> []" by simp_all
    then show ?thesis using that(1) f last_in_set unfolding held4_def working_def by (metis image_eqI)
  qed
  have "homed root V T l \<and> m_subtree (lk l) \<in> held4 l"
  proof (cases "pc4 l")
    case (Balance j d b)
    with assms(2) pl show ?thesis
      by (intro w [of "[(d, b)]"]) (auto simp: has_range4_def place_defs going_def inserting4_def)
  next
    case (Balance_Grandchild j d b e c)
    with assms(2) pl show ?thesis
      by (intro w [of "[(e, c), (d, b)]"]) (auto simp: has_range4_def place_defs going_def inserting4_def)
  next
    case (Balanced j d b)
    with assms(2) pl show ?thesis
      by (intro w [of "[(d, b)]"]) (auto simp: has_range4_def place_defs going_def inserting4_def)
  next
    case (Extreme d n)
    with pl show ?thesis by (intro w [of "[]"]) (auto simp: place_defs cutting_def)
  next
    case (Extreme_Return d n k)
    with pl show ?thesis by (intro w [of "[]"]) (auto simp: place_defs cutting_def)
  qed (use assms(2) pl w [of "[]"] in \<open>auto simp: has_range4_def place_defs held4_def homed_def inserting4_def working_def\<close>)
  then show "homed root V T l" "m_subtree (lk l) \<in> held4 l" by blast+
qed

text \<open>A step leaves the nodes of the other threads as they are.\<close>

lemma step_keeps_others:
  assumes at: "system_at N S T" and tu: "t \<noteq> u" and a: "a \<in> held4 (threads4 S u)"
  shows "view (mem (tree4 (do_event4 (Step4 t) S))) a = view (mem (tree4 S)) a"
    "is_locked (Some a) (mem (tree4 (do_event4 (Step4 t) S)))"
proof -
  let ?root = "m_root (tree4 S)" and ?l = "threads4 S t" and ?V = "view (mem (tree4 S))"
  note D = system_atD [OF at] and pre = system_pre4 [OF at, of t]
  obtain \<sigma>' l' where s: "code_step4 ?root (mem (tree4 S)) ?l (pc4 ?l) = Some (\<sigma>', l')"
    and post: "step_post4 ?root ?V T (all_held4 S) ?l (\<sigma>', l')"
    using givesD [OF code_step4_ok [OF pre]] by (metis surj_pair)
  have m: "mem (tree4 (do_event4 (Step4 t) S)) = \<sigma>'" using s by (simp add: step4_def set_thread4_def)
  have ac: "a \<in> claimed4 (threads4 S u)" using a held4_claimed by blast
  from step_postE [OF post] obtain V' k' where q: "abs4 \<sigma>' = (V', (all_held4 S - held4 ?l) \<union> held4 l', k')"
    "\<forall>a\<in>claimed4 l'. a \<in> claimed4 ?l \<or> fresh_lock ?root ?V (all_held4 S) ?l a"
    "\<forall>a\<in>dom ?V. a \<notin> claimed4 ?l \<union> claimed4 l' \<longrightarrow> V' a = ?V a" by metis
  have dis: "claimed4 ?l \<inter> claimed4 (threads4 S u) = {}" using D(4) [OF tu] by (simp add: apart4_def)
  have dom: "a \<in> dom ?V" using tree_in_dom [OF D(2)] claimed_in [OF D(3)] ac by blast
  have "a \<notin> claimed4 l'" using fresh_not_claimed [OF D(2) D(3) D(3) D(7) dis] q(2) ac dis by blast
  then show "view (mem (tree4 (do_event4 (Step4 t) S))) a = ?V a" unfolding m using q(1,3) dom ac dis by (auto simp: abs4_eq)
  then have "view \<sigma>' a \<noteq> None" using dom m by auto
  moreover have "a \<in> locks \<sigma>'" using q(1) a D(7) [of u] held4_claimed [of ?l] ac dis by (auto simp: abs4_eq)
  ultimately show "is_locked (Some a) (mem (tree4 (do_event4 (Step4 t) S)))"
    unfolding m by (auto simp: is_locked_def locks_def view_def split: option.splits)
qed

lemma held_locked:
  assumes at: "system_at N S T" and a: "a \<in> held4 (threads4 S u)"
  shows "is_locked (Some a) (mem (tree4 S))"
proof -
  have "a \<in> locks (mem (tree4 S))" using system_atD(1,7) [OF at] a by (auto simp: abs4_eq)
  then show ?thesis by (auto simp: is_locked_def locks_def)
qed

lemma locks_nested:
  assumes at: "system_at N S T" and tu: "t \<noteq> u"
    and acq: "has_range4 (threads4 S t)" "has_range4 (threads4 S u)"
    and o: "overlaps (m_lk_range (lk (threads4 S t))) (m_lk_range (lk (threads4 S u)))"
  shows "below4 (mem (tree4 S)) (m_subtree (lk (threads4 S t))) (m_subtree (lk (threads4 S u))) \<or>
    below4 (mem (tree4 S)) (m_subtree (lk (threads4 S u))) (m_subtree (lk (threads4 S t)))"
proof -
  let ?root = "m_root (tree4 S)" and ?V = "view (mem (tree4 S))"
  let ?x = "m_subtree (lk (threads4 S t))" and ?y = "m_subtree (lk (threads4 S u))"
  note D = system_atD [OF at]
  have h: "homed ?root ?V T (threads4 S t)" "homed ?root ?V T (threads4 S u)"
    using has_range_homed(1) [OF D(3)] acq by blast+
  have "?x \<in> claimed4 (threads4 S t)" "?y \<in> claimed4 (threads4 S u)"
    using has_range_homed(2) [OF D(3)] acq held4_claimed by blast+
  then have ne: "?x \<noteq> ?y" using D(4) [OF tu] by (auto simp: apart4_def)
  have top: "below4 (mem (tree4 S)) ?root z" if "z \<in> set_tree T" "z \<noteq> ?root" for z
    by (rule shape_below [OF tree_shape(1) [OF D(2) that(1)] that])
  have sub: "z \<in> set_tree T" if "homed ?root ?V T l" "m_subtree (lk l) = z" "z \<noteq> ?root" for l z
    using that by (auto simp: homed_def)
  show ?thesis
  proof (cases "?x = ?root \<or> ?y = ?root")
    case True
    then show ?thesis using top sub [OF h(1) refl] sub [OF h(2) refl] ne by auto
  next
    case False
    with h o have "?x \<in> desc T ?y \<or> ?y \<in> desc T ?x"
      by (intro overlapping_nested [OF D(2)]) (auto simp: homed_def overlaps_closed)
    then show ?thesis using desc_below [OF D(2)] sub [OF h(1) refl] sub [OF h(2) refl] False ne by auto
  qed
qed

subsection \<open>Properties\<close>

text \<open>
  C19. The range tree under any number of threads implements the abstract lock: whatever the calls and
  the interleaving of their steps, as long as the callers insert only ranges that overlap none in
  the tree and none another thread is inserting4, and remove ranges of the tree that no other thread
  is removing, the ends of the insertions and removals are, in their order, a run of the abstract
  lock, which ends with the ranges of the tree.
\<close>
theorem v4_threads_refine_lock:
  assumes "legal_events4 N evs g"
  shows "spec_run closed_valid closed_overlaps {} (actions_of do_event4 event_action4 evs (init_system4 g))
    (held_ranges4 (run_events4 evs (init_system4 g)))"
  using v4.init_run_refines [OF assms [unfolded legal_events4_def]] by (simp add: run_events4_def)

text \<open>A transaction that inserts a range, run by one thread.\<close>

definition put_events :: "nat \<Rightarrow> 64 word \<Rightarrow> 64 word \<Rightarrow> event4 list" where
  "put_events t l r = [Call_Prepare t, Step4 t, Call_Insert t (create_keyrange l r)] @ replicate 4 (Step4 t) @
     [Call_Release t, Step4 t]"

text \<open>Two of them; then thread 0 acquires the range from 5 to 6, and thread 1 the one from 5 to 105.\<close>

definition overlap_events :: "event4 list" where
  "overlap_events = put_events 0 100 110 @ put_events 0 50 60 @
     [Call_Prepare 0, Step4 0, Call_Acquire 0 5 6] @ replicate 5 (Step4 0) @
     [Call_Prepare 1, Step4 1, Call_Acquire 1 5 105, Step4 1]"

definition overlap_system :: system4 where
  "overlap_system = run_events4 overlap_events (init_system4 (create_keyrange 0 0))"

lemma overlap_legal: "legal_events4 2 overlap_events (create_keyrange 0 0)"
  by code_simp

lemma overlap_threads: "pc4 (threads4 overlap_system 0) = Acquired" "pc4 (threads4 overlap_system 1) = Acquired"
  "lk (threads4 overlap_system 0) = \<lparr>m_lk_range = create_keyrange 5 6, m_subtree = 1\<rparr>"
  "lk (threads4 overlap_system 1) = \<lparr>m_lk_range = create_keyrange 5 105, m_subtree = 0\<rparr>"
  by code_simp+

theorem v4_threads_refine_lock_witness:
  "held_ranges4 overlap_system = {(100, 110), (50, 60)}"
proof -
  have acts: "actions_of do_event4 event_action4 overlap_events (init_system4 (create_keyrange 0 0)) =
      replicate 3 Silent @ Acquire (100, 110) # replicate 9 Silent @ Acquire (50, 60) # replicate 16 Silent"
    by code_simp
  note spec_run_final [OF v4_threads_refine_lock [OF overlap_legal, unfolded acts, folded overlap_system_def]]
  also have "fold apply_action (replicate 3 Silent @ Acquire (100, 110 :: 64 word) # replicate 9 Silent @
      Acquire (50, 60) # replicate 16 Silent) {} = {(100, 110), (50, 60)}"
    by (simp only: fold_append fold_simps fold_silent comp_def apply_action.simps) auto
  finally show ?thesis .
qed

text \<open>
  C20. No thread on the range tree ever follows a null pointer, unlocks a mutex twice or finds the
  range it removes replaced by an overlapping one, whatever the legal calls and the interleaving.
\<close>
theorem v4_threads_never_crash:
  assumes "legal_events4 N evs g"
  shows "pc4 (threads4 (run_events4 evs (init_system4 g)) t) \<noteq> Crashed4"
proof -
  from run_at [OF assms] obtain T where "system_at N (run_events4 evs (init_system4 g)) T" .
  from system_atD(3) [OF this, of t] show ?thesis by (auto simp: thread_inv4_def)
qed

theorem v4_threads_never_crash_witness: "pc4 (threads4 overlap_system 0) \<noteq> Crashed4"
  using v4_threads_never_crash [OF overlap_legal] by (simp add: overlap_system_def)

text \<open>
  C24. The tree stays a search tree: in every state of every legal run, between any two steps of its
  threads, the ranges read off from left to right are valid, and each lies before the next. Legal means
  that the callers insert only ranges that overlap none in the tree and none another thread is
  inserting; the header of the tree asks for less, and \<open>v4_overlapping_ranges_granted\<close> shows that less
  is not enough.
\<close>
theorem v4_threads_keep_order:
  assumes "legal_events4 N evs g" "S = run_events4 evs (init_system4 g)"
  shows "\<exists>rs. contents (tree4 S) = Some rs \<and> list_all closed_valid (krs rs) \<and> sorted_wrt closed_before (krs rs)"
proof -
  from run_at [OF assms(1)] assms(2) obtain T where "system_at N S T" by blast
  then have "tree_at (tree4 S) (all_held4 S) T" by (simp add: system_at_def)
  from tree_at_contents [OF this] tree_at_ordered [OF this] show ?thesis
    by (auto simp: ordered_def list_all_iff)
qed

theorem v4_threads_keep_order_witness:
  "\<exists>rs. contents (tree4 overlap_system) = Some rs \<and> sorted_wrt closed_before (krs rs)"
  using v4_threads_keep_order [OF overlap_legal overlap_system_def] by blast

text \<open>
  C23. The nodes a thread holds are its own: a step of another thread leaves their ranges, their links
  and their mutexes as they are, in every state of every legal run.
\<close>
theorem v4_held_nodes_untouched:
  assumes "legal_events4 N evs g" "t \<noteq> u" "a \<in> held4 (threads4 (run_events4 evs (init_system4 g)) u)"
  shows "view (mem (tree4 (do_event4 (Step4 t) (run_events4 evs (init_system4 g))))) a =
      view (mem (tree4 (run_events4 evs (init_system4 g)))) a \<and>
    is_locked (Some a) (mem (tree4 (do_event4 (Step4 t) (run_events4 evs (init_system4 g)))))"
proof -
  from run_at [OF assms(1)] obtain T where at: "system_at N (run_events4 evs (init_system4 g)) T" .
  from step_keeps_others [OF at assms(2,3)] show ?thesis by (rule conjI)
qed

theorem v4_held_nodes_untouched_witness:
  "is_locked (Some 1) (mem (tree4 (do_event4 (Step4 1) overlap_system)))"
proof -
  have "1 \<in> held4 (threads4 overlap_system 0)" by code_simp
  then show ?thesis
    using v4_held_nodes_untouched [OF overlap_legal, of 1 0 1] by (simp only: overlap_system_def)
qed

text \<open>
  C22. From the end of \<open>prepare\<close> or \<open>acquire\<close> to the call of \<open>release\<close>, inside the insertions and removals
  of the holder as well as between them, the subtree of a locked key range holds every range of the
  tree that overlaps it, and its node is locked, whatever the other threads insert, remove and rotate
  meanwhile in a legal run.
\<close>
theorem v4_acquired_covers_overlaps:
  assumes "legal_events4 N evs g" "S = run_events4 evs (init_system4 g)" "has_range4 (threads4 S t)"
  shows "\<exists>ps sub qs. contents (tree4 S) = Some (ps @ sub @ qs) \<and>
    (\<forall>q\<in>set (ps @ qs). \<not> overlaps (m_lk_range (lk (threads4 S t))) q) \<and>
    (sub \<noteq> [] \<longrightarrow> tree_ranges (Some (m_subtree (lk (threads4 S t)))) (mem (tree4 S)) = Some sub) \<and>
    is_locked (Some (m_subtree (lk (threads4 S t)))) (mem (tree4 S))"
proof -
  from run_at [OF assms(1)] assms(2) obtain T where at: "system_at N S T" by blast
  note h = has_range_homed [OF system_atD(3) [OF at] assms(3)]
  from held_locked [OF at h(2)] homed_contents [OF at h(1)] show ?thesis by metis
qed

text \<open>Thread 0 in the middle of its own insertion, at the node it has just linked.\<close>

theorem v4_acquired_covers_overlaps_witness:
  "let S = run_events4 (overlap_events @ [Call_Insert 0 (create_keyrange 5 6)] @ replicate 2 (Step4 0)) (init_system4 (create_keyrange 0 0))
   in pc4 (threads4 S 0) = Insert_Return \<and> (\<exists>ps sub qs. contents (tree4 S) = Some (ps @ sub @ qs) \<and>
    (\<forall>q\<in>set (ps @ qs). \<not> overlaps (create_keyrange 5 6) q) \<and>
    (sub \<noteq> [] \<longrightarrow> tree_ranges (Some 1) (mem (tree4 S)) = Some sub))"
proof -
  let ?evs = "overlap_events @ [Call_Insert 0 (create_keyrange 5 6)] @ replicate 2 (Step4 0)"
  let ?S = "run_events4 ?evs (init_system4 (create_keyrange 0 0))"
  have l: "legal_events4 2 ?evs (create_keyrange 0 0)" by code_simp
  have p: "pc4 (threads4 ?S 0) = Insert_Return" by code_simp
  have k: "lk (threads4 ?S 0) = \<lparr>m_lk_range = create_keyrange 5 6, m_subtree = 1\<rparr>" by code_simp
  have "has_range4 (threads4 ?S 0)" unfolding has_range4_def p by simp
  from v4_acquired_covers_overlaps [OF l refl this] show ?thesis
    unfolding k locked_keyrange.simps Let_def by (simp only: p simp_thms) blast
qed

text \<open>
  C25. Overlapping locked key ranges are granted to several threads at once, although the header of the
  tree promises exclusive access to the keys of the range. What the tree does keep, in every legal run:
  of two threads whose locked key ranges overlap one holds a node strictly below the node of the other.
\<close>
theorem v4_overlapping_locks_nested:
  assumes "legal_events4 N evs g" "S = run_events4 evs (init_system4 g)" "t \<noteq> u"
    and "has_range4 (threads4 S t)" "has_range4 (threads4 S u)"
    and "overlaps (m_lk_range (lk (threads4 S t))) (m_lk_range (lk (threads4 S u)))"
  shows "below4 (mem (tree4 S)) (m_subtree (lk (threads4 S t))) (m_subtree (lk (threads4 S u))) \<or>
    below4 (mem (tree4 S)) (m_subtree (lk (threads4 S u))) (m_subtree (lk (threads4 S t)))"
proof -
  from run_at [OF assms(1)] assms(2) obtain T where at: "system_at N S T" by blast
  show ?thesis by (rule locks_nested [OF at assms(3-6)])
qed

theorem v4_overlapping_locks_nested_witness:
  "overlaps (m_lk_range (lk (threads4 overlap_system 0))) (m_lk_range (lk (threads4 overlap_system 1))) \<and>
   (below4 (mem (tree4 overlap_system)) 1 0 \<or> below4 (mem (tree4 overlap_system)) 0 1)"
proof -
  have o: "overlaps (create_keyrange 5 6) (create_keyrange 5 105)" by code_simp
  have "has_range4 (threads4 overlap_system 0)" "has_range4 (threads4 overlap_system 1)"
    unfolding has_range4_def overlap_threads by simp_all
  with o show ?thesis
    using v4_overlapping_locks_nested [OF overlap_legal overlap_system_def zero_neq_one]
    unfolding overlap_threads locked_keyrange.simps by blast
qed

text \<open>
  An example of it: two threads may hold locked key ranges that overlap, although the header promises exclusive
  access to the keys of the range: thread 0 acquires the range from 5 to 6 and gets the left child
  of the root, thread 1 acquires the one from 5 to 105 and gets the root. Both find that the range
  from 5 to 6 overlaps nothing in the tree, both insert it, and the tree ends with it twice.
\<close>
theorem v4_overlapping_ranges_granted:
  "pc4 (threads4 overlap_system 0) = Acquired \<and> pc4 (threads4 overlap_system 1) = Acquired \<and>
   m_lk_range (lk (threads4 overlap_system 0)) = create_keyrange 5 6 \<and>
   m_lk_range (lk (threads4 overlap_system 1)) = create_keyrange 5 105 \<and>
   contents (tree4 overlap_system) = Some [create_keyrange 50 60, create_keyrange 100 110] \<and>
   contents (tree4 (run_events4 ([Call_Insert 0 (create_keyrange 5 6), Call_Insert 1 (create_keyrange 5 6)] @
     concat (replicate 6 [Step4 0, Step4 1]) @ [Call_Release 0, Step4 0] @ replicate 14 (Step4 1)) overlap_system)) =
   Some [create_keyrange 5 6, create_keyrange 5 6, create_keyrange 50 60, create_keyrange 100 110]"
  by code_simp

text \<open>
  C21. The threads on the range tree never wait for each other in a circle: in every state of every
  legal run in which a thread is inside an operation, some thread inside an operation can step, or
  a thread is waited for that has not released the key range it has locked.
\<close>
theorem v4_threads_deadlock_free:
  assumes "legal_events4 N evs g" "S = run_events4 evs (init_system4 g)" "busy4 (threads4 S t)"
  shows "\<exists>u. busy4 (threads4 S u) \<and> do_event4 (Step4 u) S \<noteq> S \<or>
    ready4 (threads4 S u) \<and>
    (\<exists>w. waits4 (m_root (tree4 S)) (mem (tree4 S)) (threads4 S w) (m_subtree (lk (threads4 S u))))"
proof -
  from run_at [OF assms(1)] assms(2) obtain T where "system_at N S T" by blast
  from no_deadlock [OF this assms(3)] show ?thesis .
qed

text \<open>Thread 1 waits below the root for the node of thread 0, which has acquired it.\<close>

theorem v4_threads_deadlock_free_witness:
  "\<exists>S u. busy4 (threads4 S 1) \<and> (busy4 (threads4 S u) \<and> do_event4 (Step4 u) S \<noteq> S \<or>
    ready4 (threads4 S u) \<and>
    (\<exists>w. waits4 (m_root (tree4 S)) (mem (tree4 S)) (threads4 S w) (m_subtree (lk (threads4 S u)))))"
proof -
  let ?evs = "overlap_events @ [Call_Insert 1 (create_keyrange 70 80), Step4 1, Step4 1]"
  let ?S = "run_events4 ?evs (init_system4 (create_keyrange 0 0))"
  have l: "legal_events4 2 ?evs (create_keyrange 0 0)" by code_simp
  have b: "busy4 (threads4 ?S 1)" by code_simp
  from v4_threads_deadlock_free [OF l refl b] b show ?thesis by blast
qed

end
