(* ===== verification/App_Workloads.thy ===== *)
theory App_Workloads
  imports RL_Abstract_Lock "HOL-Library.Multiset"
begin

text \<open>
  The ranges the programs under \<open>src/app\<close> and \<open>src/benchmark\<close> lock, and how they share them out to
  their threads. \<open>int\<close> values stay below \<open>2 ^ 31\<close> here, so they are integers. \<open>std::shuffle\<close> with a
  seed from the clock is a parameter, some function that permutes a list.
\<close>

subsection \<open>The loops that build the ranges\<close>

type_synonym int_range = "int \<times> int"

text \<open>\<open>gtest.cpp\<close> and \<open>gtest2.cpp\<close>: ranges of \<open>size\<close>, one behind the other.\<close>

definition range_len :: int where
  "range_len = 4"

fun non_overlapping_from :: "nat \<Rightarrow> int \<Rightarrow> int_range list" where
  "non_overlapping_from 0 k = []"
| "non_overlapping_from (Suc n) k = (k, k + range_len) # non_overlapping_from n (k + (range_len + 1))"

definition numOfRanges :: nat where
  "numOfRanges = 50000"

definition sharedMemorySize :: nat where
  "sharedMemorySize = numOfRanges * nat (range_len + 1)"

definition createNonOverlappingRanges :: "(int_range list \<Rightarrow> int_range list) \<Rightarrow> int_range list" where
  "createNonOverlappingRanges shuffle = shuffle (non_overlapping_from numOfRanges 1)"

definition createNonOverlappingRanges_gtest2 :: "(int_range list \<Rightarrow> int_range list) \<Rightarrow> int_range list" where
  "createNonOverlappingRanges_gtest2 shuffle = shuffle (non_overlapping_from 1000000 1)"

text \<open>The loop \<open>for (int i = first; i < last; i += stride)\<close>; the strides of the programs are positive.\<close>

function stride_ranges :: "int \<Rightarrow> int \<Rightarrow> int \<Rightarrow> int \<Rightarrow> int_range list" where
  "stride_ranges i x stride len =
     (if i < x \<and> 0 < stride then (i, i + len) # stride_ranges (i + stride) x stride len else [])"
  by pat_completeness auto
termination
  by (relation "measure (\<lambda>(i, x, stride, len). nat (x - i))") auto

declare stride_ranges.simps [simp del]

definition createNonOverlappingRanges_scalability :: "(int_range list \<Rightarrow> int_range list) \<Rightarrow> int_range list" where
  "createNonOverlappingRanges_scalability shuffle = shuffle (stride_ranges 1 500000 10 5)"

definition createRanges_benchmark :: "(int_range list \<Rightarrow> int_range list) \<Rightarrow> int \<Rightarrow> int_range list" where
  "createRanges_benchmark shuffle x = shuffle (stride_ranges 0 x 20 10)"

definition createRanges_debug :: "(int_range list \<Rightarrow> int_range list) \<Rightarrow> int \<Rightarrow> int_range list" where
  "createRanges_debug shuffle x = shuffle (stride_ranges 0 x 10 20)"

text \<open>
  \<open>initialize.cpp\<close> writes the ranges \<open>benchmark.cpp\<close> reads: a first list, and one range in each gap
  of it, which starts at a random place; \<open>rnd i\<close> is the \<open>i\<close>-th value of \<open>range_dist\<close>.
\<close>

definition initial_ranges :: "int_range list" where
  "initial_ranges = map (\<lambda>i. let start = int i * 2 * 100 in (start, start + 100)) [0 ..< 10000]"

definition instant_ranges :: "(nat \<Rightarrow> int) \<Rightarrow> int_range list" where
  "instant_ranges rnd = map (\<lambda>i. let gap_start = (int i * 2 + 1) * 100; start = gap_start + rnd i
     in (start, start + 49)) [0 ..< 10000]"

subsection \<open>Sharing them out\<close>

text \<open>\<open>startIdx\<close> and \<open>endIdx\<close> of thread \<open>i\<close>: the last thread takes what is left.\<close>

definition thread_slice :: "nat \<Rightarrow> nat \<Rightarrow> 'a list \<Rightarrow> 'a list" where
  "thread_slice numThreads i ranges =
     (let rangePerThread = length ranges div numThreads;
          startIdx = i * rangePerThread;
          endIdx = (if i = numThreads - 1 then length ranges else startIdx + rangePerThread)
      in map (\<lambda>j. ranges ! j) [startIdx ..< endIdx])"

text \<open>The loop \<open>for (size_t j = i; j < ranges.size(); j += numThreads)\<close>.\<close>

function thread_stride :: "nat \<Rightarrow> nat \<Rightarrow> 'a list \<Rightarrow> 'a list" where
  "thread_stride numThreads j ranges =
     (if j < length ranges \<and> 0 < numThreads
      then ranges ! j # thread_stride numThreads (j + numThreads) ranges else [])"
  by pat_completeness auto
termination
  by (relation "measure (\<lambda>(numThreads, j, ranges). length ranges - j)") auto

declare thread_stride.simps [simp del]

subsection \<open>Ranges that keep apart\<close>

definition apart :: "int_range list \<Rightarrow> bool" where
  "apart rs \<longleftrightarrow> distinct rs \<and> pairwise_disjoint closed_overlaps (set rs)"

definition permutes :: "('a list \<Rightarrow> 'a list) \<Rightarrow> bool" where
  "permutes shuffle \<longleftrightarrow> (\<forall>xs. mset (shuffle xs) = mset xs)"

lemma permutesD:
  assumes "permutes f"
  shows "set (f xs) = set xs" "distinct (f xs) \<longleftrightarrow> distinct xs" "length (f xs) = length xs"
proof -
  from assms have "mset (f xs) = mset xs" by (simp add: permutes_def)
  then show "set (f xs) = set xs" "distinct (f xs) \<longleftrightarrow> distinct xs" "length (f xs) = length xs"
    by (rule mset_eq_setD) (rule mset_eq_imp_distinct_iff [OF \<open>mset (f xs) = mset xs\<close>],
      rule mset_eq_length [OF \<open>mset (f xs) = mset xs\<close>])
qed

lemma permutes_rev: "permutes rev"
  by (simp add: permutes_def)

lemma apart_permutes [simp]: "permutes f \<Longrightarrow> apart (f xs) \<longleftrightarrow> apart xs"
  by (simp add: apart_def permutesD)

text \<open>All the loops build ranges of one length at a fixed distance.\<close>

definition spaced :: "int \<Rightarrow> int \<Rightarrow> int \<Rightarrow> nat \<Rightarrow> int_range list" where
  "spaced k d len n = map (\<lambda>i. (k + d * int i, k + d * int i + len)) [0 ..< n]"

lemma spaced_Suc: "spaced k d len (Suc n) = (k, k + len) # spaced (k + d) d len n"
proof -
  have "[0 ..< Suc n] = 0 # map Suc [0 ..< n]" by (simp add: map_Suc_upt upt_conv_Cons)
  then show ?thesis by (simp add: spaced_def algebra_simps)
qed

lemma set_spaced: "set (spaced k d len n) = (\<lambda>i. (k + d * int i, k + d * int i + len)) ` {..<n}"
  by (simp add: spaced_def atLeast0LessThan)

lemma spaced_apart:
  assumes "0 \<le> len" "len < d"
  shows "apart (spaced k d len n)"
proof -
  have "closed_before (k + d * int i, k + d * int i + len) (k + d * int j, k + d * int j + len)" if "i < j" for i j
  proof -
    have "int i + 1 \<le> int j" using that by simp
    then have "d * (int i + 1) \<le> d * int j" using assms by (intro mult_left_mono) auto
    then show ?thesis using assms(2) by (simp add: closed_before_def algebra_simps)
  qed
  note before = this [unfolded closed_before_def, simplified]
  have "\<not> closed_overlaps (k + d * int i, k + d * int i + len) (k + d * int j, k + d * int j + len)" if "i \<noteq> j" for i j
  proof (cases "i < j")
    case True
    from before [OF this] show ?thesis by (simp add: closed_overlaps_def)
  next
    case False
    with that before [of j i] show ?thesis by (simp add: closed_overlaps_def)
  qed
  note apart = this
  have "pairwise_disjoint closed_overlaps (set (spaced k d len n))"
    unfolding pairwise_disjoint_def
  proof (intro ballI impI)
    fix r q assume "r \<in> set (spaced k d len n)" "q \<in> set (spaced k d len n)" and ne: "r \<noteq> q"
    then obtain i j where r: "r = (k + d * int i, k + d * int i + len)" and q: "q = (k + d * int j, k + d * int j + len)"
      unfolding set_spaced by (elim imageE)
    from ne r q have "i \<noteq> j" by auto
    then show "\<not> closed_overlaps r q" unfolding r q by (rule apart)
  qed
  moreover have "inj (\<lambda>i. k + d * int i)" using assms by (auto simp: inj_def)
  then have "distinct (spaced k d len n)" by (auto simp: spaced_def distinct_map inj_on_def inj_def)
  ultimately show ?thesis by (simp add: apart_def)
qed

lemma non_overlapping_spaced: "non_overlapping_from n k = spaced k 5 4 n"
  by (induction n arbitrary: k) (simp_all add: spaced_Suc range_len_def, simp add: spaced_def)

lemma stride_spaced:
  assumes "0 < d"
  shows "stride_ranges k x d len = spaced k d len (nat ((x - k + d - 1) div d))"
  using assms
proof (induction k x d len rule: stride_ranges.induct)
  case (1 k x d len)
  show ?case
  proof (cases "k < x")
    case True
    have "(x - k + d - 1) div d = (x - (k + d) + d - 1) div d + 1"
      using div_add_self2 [of d "x - k - 1"] 1(2) by (simp add: algebra_simps)
    moreover have "0 \<le> (x - (k + d) + d - 1) div d" using True 1(2) by (simp add: pos_imp_zdiv_nonneg_iff)
    ultimately have "nat ((x - k + d - 1) div d) = Suc (nat ((x - (k + d) + d - 1) div d))" by simp
    with 1 True show ?thesis by (subst stride_ranges.simps) (simp add: spaced_Suc)
  next
    case False
    have "(x - k + d - 1) div d \<le> 0"
      using zdiv_mono1 [of "x - k + d - 1" "d - 1" d] False 1(2) by simp
    with False show ?thesis by (subst stride_ranges.simps) (simp add: spaced_def)
  qed
qed

subsection \<open>Every range goes to one thread\<close>

lemma concat_blocks: "concat (map (\<lambda>i. [i * q ..< i * q + q]) [0 ..< m]) = [0 ..< m * q]"
proof (induction m)
  case (Suc m)
  have "[0 ..< Suc m * q] = [0 ..< m * q] @ [m * q ..< m * q + q]"
    using upt_add_eq_append [of 0 "m * q" q] by (simp add: add.commute)
  with Suc show ?case by simp
qed simp

lemma concat_slices:
  assumes "0 < n"
  shows "concat (map (\<lambda>i. thread_slice n i xs) [0 ..< n]) = xs"
proof -
  let ?q = "length xs div n"
  obtain m where m: "n = Suc m" using assms by (cases n) simp_all
  have "map (\<lambda>i. thread_slice n i xs) [0 ..< m] = map (\<lambda>i. map (nth xs) [i * ?q ..< i * ?q + ?q]) [0 ..< m]"
    using m by (intro map_cong) (auto simp: thread_slice_def Let_def)
  then have "concat (map (\<lambda>i. thread_slice n i xs) [0 ..< m]) = map (nth xs) (concat (map (\<lambda>i. [i * ?q ..< i * ?q + ?q]) [0 ..< m]))"
    by (simp only: map_concat map_map comp_def)
  also have "\<dots> = map (nth xs) [0 ..< m * ?q]" by (simp only: concat_blocks)
  finally have init: "concat (map (\<lambda>i. thread_slice n i xs) [0 ..< m]) = map (nth xs) [0 ..< m * ?q]" .
  have "m * ?q \<le> n * ?q" using m by simp
  then have "m * ?q \<le> length xs" using times_div_less_eq_dividend [of n "length xs"] by (rule order_trans)
  then have "[0 ..< length xs] = [0 ..< m * ?q] @ [m * ?q ..< length xs]"
    using upt_add_eq_append [of 0 "m * ?q" "length xs - m * ?q"] by simp
  then have "xs = map (nth xs) [0 ..< m * ?q] @ map (nth xs) [m * ?q ..< length xs]"
    by (metis map_append map_nth)
  moreover have "thread_slice n m xs = map (nth xs) [m * ?q ..< length xs]"
    using m by (simp add: thread_slice_def Let_def)
  ultimately show ?thesis using init m by simp
qed

lemma thread_stride_filter:
  assumes "0 < n"
  shows "thread_stride n j xs = map (nth xs) (filter (\<lambda>k. k mod n = j mod n) [j ..< length xs])"
  using assms
proof (induction n j xs rule: thread_stride.induct)
  case (1 n j xs)
  show ?case
  proof (cases "j < length xs")
    case True
    have none: "filter (\<lambda>k. k mod n = j mod n) [Suc j ..< min (j + n) (length xs)] = []"
    proof -
      have "k mod n \<noteq> j mod n" if "j < k" "k < j + n" for k
      proof
        assume "k mod n = j mod n"
        then have "n dvd k - j" using that(1) by (simp add: mod_eq_dvd_iff_nat less_imp_le)
        with that show False by (auto dest!: dvd_imp_le)
      qed
      then show ?thesis by (auto simp: filter_empty_conv)
    qed
    have "[Suc j ..< length xs] = [Suc j ..< min (j + n) (length xs)] @ [min (j + n) (length xs) ..< length xs]"
      using True 1(2) upt_add_eq_append [of "Suc j" "min (j + n) (length xs)" "length xs - min (j + n) (length xs)"] by simp
    then have "filter (\<lambda>k. k mod n = j mod n) [Suc j ..< length xs] =
        filter (\<lambda>k. k mod n = j mod n) [min (j + n) (length xs) ..< length xs]" using none by simp
    also have "\<dots> = filter (\<lambda>k. k mod n = (j + n) mod n) [j + n ..< length xs]"
      by (cases "j + n \<le> length xs") simp_all
    finally show ?thesis using 1 True by (subst thread_stride.simps) (simp add: upt_conv_Cons)
  next
    case False
    then show ?thesis by (subst thread_stride.simps) simp
  qed
qed

lemma mset_strides:
  assumes "0 < n"
  shows "mset (concat (map (\<lambda>i. thread_stride n i xs) [0 ..< n])) = mset xs"
proof -
  have block: "thread_stride n i xs = map (nth xs) (filter (\<lambda>k. k mod n = i) [0 ..< length xs])" if "i < n" for i
  proof -
    have "filter (\<lambda>k. k mod n = i) [0 ..< i] = []" using that by (auto simp: filter_empty_conv)
    then have "filter (\<lambda>k. k mod n = i) [0 ..< length xs] = filter (\<lambda>k. k mod n = i) [i ..< length xs]"
    proof (cases "i \<le> length xs")
      case True
      then have "[0 ..< length xs] = [0 ..< i] @ [i ..< length xs]" using upt_add_eq_append [of 0 i "length xs - i"] by simp
      with \<open>filter (\<lambda>k. k mod n = i) [0 ..< i] = []\<close> show ?thesis by simp
    next
      case False
      then have "set [0 ..< length xs] \<subseteq> set [0 ..< i]" by auto
      with \<open>filter (\<lambda>k. k mod n = i) [0 ..< i] = []\<close> False show ?thesis by (auto simp: filter_empty_conv)
    qed
    then show ?thesis using thread_stride_filter [OF assms, of i xs] that by simp
  qed
  have "mset (concat (map (\<lambda>i. map (nth xs) (filter (\<lambda>k. k mod n = i) ks)) [0 ..< n])) = mset (map (nth xs) ks)" for ks
  proof (induction ks)
    case (Cons k ks)
    have "mset (concat (map (\<lambda>i. map (nth xs) (filter (\<lambda>k. k mod n = i) (k # ks))) [0 ..< n])) =
        (\<Sum>i\<leftarrow>[0 ..< n]. (if k mod n = i then {#xs ! k#} else {#}) + mset (map (nth xs) (filter (\<lambda>k. k mod n = i) ks)))"
      by (simp add: mset_concat comp_def cong: map_cong) (intro arg_cong [where f = sum_list] map_cong; simp)
    also have "\<dots> = (\<Sum>i\<leftarrow>[0 ..< n]. if k mod n = i then {#xs ! k#} else {#}) +
        mset (concat (map (\<lambda>i. map (nth xs) (filter (\<lambda>k. k mod n = i) ks)) [0 ..< n]))"
      by (simp add: sum_list_addf mset_concat comp_def)
    also have "(\<Sum>i\<leftarrow>[0 ..< n]. if k mod n = i then {#xs ! k#} else {#}) = {#xs ! k#}"
      using assms by (simp add: interv_sum_list_conv_sum_set_nat atLeast0LessThan)
    finally show ?case using Cons by simp
  qed simp
  from this [of "[0 ..< length xs]"] have "mset (concat (map (\<lambda>i. map (nth xs) (filter (\<lambda>k. k mod n = i) [0 ..< length xs])) [0 ..< n])) = mset xs"
    by (simp add: map_nth)
  moreover have "map (\<lambda>i. thread_stride n i xs) [0 ..< n] = map (\<lambda>i. map (nth xs) (filter (\<lambda>k. k mod n = i) [0 ..< length xs])) [0 ..< n]"
    using block by simp
  ultimately show ?thesis by (simp only:)
qed

text \<open>
  The threads of a program share out the ranges: the slices of \<open>startIdx\<close> and \<open>endIdx\<close> are the
  list, cut into \<open>numThreads\<close> pieces, and the loops with stride \<open>numThreads\<close> visit every range exactly
  once.
\<close>
theorem ranges_shared_out:
  assumes "0 < numThreads"
  shows "concat (map (\<lambda>i. thread_slice numThreads i ranges) [0 ..< numThreads]) = ranges \<and>
    mset (concat (map (\<lambda>i. thread_stride numThreads i ranges) [0 ..< numThreads])) = mset ranges"
  using concat_slices [OF assms] mset_strides [OF assms] by blast

theorem ranges_shared_out_witness:
  "concat (map (\<lambda>i. thread_slice 3 i [10, 20, 30, 40, 50, 60, 70 :: nat]) [0 ..< 3]) = [10, 20, 30, 40, 50, 60, 70]"
  using ranges_shared_out [of 3 "[10, 20, 30, 40, 50, 60, 70 :: nat]"] by simp

subsection \<open>The ranges of the programs\<close>

lemma spaced_bounds:
  assumes "(s, e) \<in> set (spaced k d len n)" "0 \<le> d"
  shows "k \<le> s" "e = s + len" "s \<le> k + d * (int n - 1)"
proof -
  from assms(1) obtain i where i: "i < n" "s = k + d * int i" "e = s + len" by (auto simp: set_spaced)
  then have "d * int i \<le> d * (int n - 1)" using assms(2) by (intro mult_left_mono) auto
  with i assms(2) show "k \<le> s" "e = s + len" "s \<le> k + d * (int n - 1)" by simp_all
qed

lemma gtest_ranges:
  assumes "permutes shuffle"
  shows "apart (createNonOverlappingRanges shuffle)"
    and "(s, e) \<in> set (createNonOverlappingRanges shuffle) \<Longrightarrow> 0 < s \<and> s < e \<and> e \<le> int sharedMemorySize"
proof -
  show "apart (createNonOverlappingRanges shuffle)"
    using assms spaced_apart by (simp add: createNonOverlappingRanges_def non_overlapping_spaced)
  assume "(s, e) \<in> set (createNonOverlappingRanges shuffle)"
  then have "(s, e) \<in> set (spaced 1 5 4 50000)"
    using permutesD(1) [OF assms] by (simp add: createNonOverlappingRanges_def non_overlapping_spaced numOfRanges_def)
  from spaced_bounds [OF this] show "0 < s \<and> s < e \<and> e \<le> int sharedMemorySize"
    by (simp add: sharedMemorySize_def numOfRanges_def range_len_def)
qed

lemma scalability_ranges:
  assumes "permutes shuffle"
  shows "apart (createNonOverlappingRanges_scalability shuffle)"
    and "length (createNonOverlappingRanges_scalability shuffle) = 50000"
    and "(s, e) \<in> set (createNonOverlappingRanges_scalability shuffle) \<Longrightarrow> 0 < s \<and> s < e \<and> e \<le> 500000"
proof -
  have eq: "createNonOverlappingRanges_scalability shuffle = shuffle (spaced 1 10 5 50000)"
    by (simp add: createNonOverlappingRanges_scalability_def stride_spaced)
  show "apart (createNonOverlappingRanges_scalability shuffle)"
    "length (createNonOverlappingRanges_scalability shuffle) = 50000"
    unfolding eq using assms spaced_apart [of 5 10 1 50000] permutesD(3) [OF assms] by simp_all (simp add: spaced_def)
  assume "(s, e) \<in> set (createNonOverlappingRanges_scalability shuffle)"
  with eq permutesD(1) [OF assms] have "(s, e) \<in> set (spaced 1 10 5 50000)" by simp
  from spaced_bounds [OF this] show "0 < s \<and> s < e \<and> e \<le> 500000" by simp
qed

text \<open>
  The ranges \<open>initialize.cpp\<close> writes to its two files are pairwise disjoint, whatever places
  between 1 and 49 are drawn: each instant range lies in the gap behind one initial range.
\<close>
theorem initialize_ranges_apart:
  assumes "\<And>i. 1 \<le> rnd i \<and> rnd i \<le> 49"
  shows "apart (initial_ranges @ instant_ranges rnd)"
proof -
  define f where "f b i = (if b then (int i * 2 * 100, int i * 2 * 100 + 100)
    else ((int i * 2 + 1) * 100 + rnd i, (int i * 2 + 1) * 100 + rnd i + 49))" for b and i :: nat
  have sets: "initial_ranges = map (f True) [0 ..< 10000]" "instant_ranges rnd = map (f False) [0 ..< 10000]"
    by (simp_all add: initial_ranges_def instant_ranges_def f_def Let_def)
  have apart: "\<not> closed_overlaps (f a i) (f b j)" if "(a, i) \<noteq> (b, j)" for a b i j
  proof (cases i j rule: linorder_cases)
    case equal
    with that assms [of i] show ?thesis by (auto simp: f_def closed_overlaps_def)
  qed (use assms [of i] assms [of j] in \<open>auto simp: f_def closed_overlaps_def\<close>)
  have refl: "closed_overlaps (f a i) (f a i)" for a i using assms [of i] by (auto simp: f_def closed_overlaps_def)
  have inj: "f a i = f b j \<longleftrightarrow> a = b \<and> i = j" for a b i j
    using apart [of a i b j] refl [of a i] by (cases "(a, i) = (b, j)") auto
  show ?thesis
    unfolding apart_def pairwise_disjoint_def sets
  proof (intro conjI ballI impI)
    show "distinct (map (f True) [0 ..< 10000] @ map (f False) [0 ..< 10000])"
      by (auto simp: distinct_map inj_on_def inj)
    fix r q assume r: "r \<in> set (map (f True) [0 ..< 10000] @ map (f False) [0 ..< 10000])"
      and q: "q \<in> set (map (f True) [0 ..< 10000] @ map (f False) [0 ..< 10000])" and "r \<noteq> q"
    from r obtain a i where r: "r = f a i" by auto
    from q obtain b j where q: "q = f b j" by auto
    have "(a, i) \<noteq> (b, j)"
    proof
      assume "(a, i) = (b, j)"
      then have "a = b" "i = j" by simp_all
      with \<open>r \<noteq> q\<close> r q show False by simp
    qed
    then show "\<not> closed_overlaps r q" unfolding r q by (rule apart)
  qed
qed

theorem initialize_ranges_apart_witness: "apart (initial_ranges @ instant_ranges (\<lambda>i. 1 + int i mod 49))"
proof (rule initialize_ranges_apart)
  fix i :: nat
  have "0 \<le> int i mod 49" "int i mod 49 < 49" by simp_all
  then show "1 \<le> 1 + int i mod 49 \<and> 1 + int i mod 49 \<le> 49" by linarith
qed

text \<open>
  C12. The lists of ranges of \<open>gtest.cpp\<close>, \<open>gtest2.cpp\<close>, \<open>scalability.cpp\<close> and \<open>src/app/benchmark.cpp\<close>
  are pairwise disjoint, as the names say, for every shuffle; those of \<open>debug.cpp\<close> overlap.
\<close>
theorem driver_ranges_apart:
  assumes "permutes shuffle" "10 < x"
  shows "apart (createNonOverlappingRanges shuffle) \<and> apart (createNonOverlappingRanges_gtest2 shuffle) \<and>
    apart (createNonOverlappingRanges_scalability shuffle) \<and> apart (createRanges_benchmark shuffle x) \<and>
    \<not> apart (createRanges_debug shuffle x)"
proof (intro conjI)
  show "apart (createNonOverlappingRanges_gtest2 shuffle)"
    using assms(1) spaced_apart by (simp add: createNonOverlappingRanges_gtest2_def non_overlapping_spaced)
  show "apart (createRanges_benchmark shuffle x)"
    using assms(1) spaced_apart by (simp add: createRanges_benchmark_def stride_spaced)
  have "{(0, 20), (10, 30)} \<subseteq> set (stride_ranges 0 x 10 20)"
    using assms(2) by (subst stride_ranges.simps, subst stride_ranges.simps) simp
  then have "{(0, 20), (10, 30)} \<subseteq> set (createRanges_debug shuffle x)"
    using permutesD(1) [OF assms(1)] by (simp add: createRanges_debug_def)
  moreover have "closed_overlaps (0, 20) (10, 30 :: int)" "(0, 20) \<noteq> (10, 30 :: int)" by (simp_all add: closed_overlaps_def)
  ultimately show "\<not> apart (createRanges_debug shuffle x)"
    unfolding apart_def pairwise_disjoint_def by (meson insert_subset)
qed (rule gtest_ranges(1) [OF assms(1)], rule scalability_ranges(1) [OF assms(1)])

theorem driver_ranges_apart_witness: "apart (createRanges_benchmark rev 100000) \<and> \<not> apart (createRanges_debug rev 100000)"
  using driver_ranges_apart [OF permutes_rev, of 100000] by simp

end
