(* ===== verification/App_Client.thy ===== *)
theory App_Client
  imports V0_Phases App_Workloads
begin

text \<open>
  The programs that use the v0 lock, as lists of calls and writes, and the machine that runs one such
  program on each of any number of threads, interleaved with the steps of the lock itself.
\<close>

subsection \<open>Programs\<close>

text \<open>
  What a thread of a program does with a range: \<open>TryLock\<close> calls \<open>tryLock\<close> and ignores its result,
  \<open>LockLoop\<close> is the loop \<open>while (!crl.tryLock(start, end))\<close>, \<open>WriteKeys\<close> the loop that writes the keys
  from \<open>start\<close> up to \<open>end\<close> (or the \<open>memset\<close>), \<open>ReleaseLock\<close> calls \<open>releaseLock\<close> and ignores its result,
  \<open>ReleaseOrExit\<close> calls it and ends the process when it returns false.
\<close>

datatype instr =
    TryLock int_range
  | LockLoop int_range
  | WriteKeys int_range
  | ReleaseLock int_range
  | ReleaseOrExit int_range

text \<open>\<open>database.cpp\<close>; \<open>dist i\<close> and \<open>range_dist i\<close> are the values drawn in round \<open>i\<close>.\<close>

definition num_records :: int where
  "num_records = 10000000"

definition database_transaction_v0 :: "(nat \<Rightarrow> int) \<Rightarrow> (nat \<Rightarrow> int) \<Rightarrow> nat \<Rightarrow> instr list" where
  "database_transaction_v0 dist range_dist num_transactions =
     concat (map (\<lambda>i. let start = dist i; end_key = start + range_dist i
       in [LockLoop (start, end_key), WriteKeys (start, end_key), ReleaseOrExit (start, end_key)])
       [0 ..< num_transactions])"

text \<open>The limits of the two distributions.\<close>

definition drawn :: "(nat \<Rightarrow> int) \<Rightarrow> (nat \<Rightarrow> int) \<Rightarrow> bool" where
  "drawn dist range_dist \<longleftrightarrow> (\<forall>i. 0 \<le> dist i \<and> dist i \<le> 9999000 \<and> 10 \<le> range_dist i \<and> range_dist i \<le> 1000)"

text \<open>\<open>gtest.cpp\<close>, \<open>scalability.cpp\<close>, \<open>gtest2.cpp\<close>: thread \<open>i\<close> works on its slice.\<close>

definition gtest_thread :: "int_range list \<Rightarrow> nat \<Rightarrow> nat \<Rightarrow> instr list" where
  "gtest_thread ranges numThreads i =
     (let mine = thread_slice numThreads i ranges
      in concat (map (\<lambda>r. [TryLock r, WriteKeys r]) mine) @ map ReleaseLock mine)"

definition scalability_thread :: "int_range list \<Rightarrow> nat \<Rightarrow> nat \<Rightarrow> instr list" where
  "scalability_thread ranges numThreads i = map TryLock (thread_slice numThreads i ranges)"

text \<open>\<open>release r\<close> says whether \<open>random_with_probability()\<close> is 1 for the range \<open>r\<close>.\<close>

definition gtest2_thread :: "(int_range \<Rightarrow> bool) \<Rightarrow> int_range list \<Rightarrow> nat \<Rightarrow> instr list" where
  "gtest2_thread release ranges i =
     concat (map (\<lambda>r. TryLock r # (if release r then [ReleaseLock r] else [])) (thread_slice 8 i ranges))"

text \<open>\<open>benchmark.cpp\<close> and \<open>debug.cpp\<close> under \<open>src/app\<close>: 20 threads take every 20th range.\<close>

definition benchmark_thread_v0 :: "int_range list \<Rightarrow> nat \<Rightarrow> instr list" where
  "benchmark_thread_v0 ranges i = map TryLock (thread_stride 20 i ranges)"

definition debug_thread_v0 :: "int_range list \<Rightarrow> nat \<Rightarrow> instr list" where
  "debug_thread_v0 ranges i = concat (map (\<lambda>r. [LockLoop r, ReleaseLock r]) (thread_stride 20 i ranges))"

definition singleThread_v0 :: "int_range list \<Rightarrow> instr list" where
  "singleThread_v0 ranges = map TryLock ranges @ map ReleaseLock ranges"

text \<open>\<open>src/benchmark/benchmark.cpp\<close>.\<close>

definition range_lock_v0 :: "int_range list \<Rightarrow> int_range list \<Rightarrow> instr list" where
  "range_lock_v0 initial instant =
     map LockLoop initial @ concat (map (\<lambda>r. [LockLoop r, ReleaseLock r]) instant) @ map ReleaseLock initial"

text \<open>The loop that starts the threads.\<close>

definition spawn :: "nat \<Rightarrow> (nat \<Rightarrow> instr list) \<Rightarrow> nat \<Rightarrow> instr list" where
  "spawn numThreads thread i = (if i < numThreads then thread i else [])"

subsection \<open>The machine\<close>

text \<open>The conversion of the \<open>int\<close> arguments to \<open>uint64_t\<close>.\<close>

definition keys :: "int_range \<Rightarrow> 64 word range" where
  "keys r = (word_of_int (fst r), word_of_int (snd r))"

text \<open>
  \<open>program\<close> is what a thread has still to do, \<open>inside\<close> whether it is inside the call at its head,
  \<open>cursor\<close> the key a writing loop has come to, and \<open>table\<close> the thread that wrote a key last.
\<close>

record client =
  sys :: "64 word system"
  program :: "nat \<Rightarrow> instr list"
  inside :: "nat \<Rightarrow> bool"
  cursor :: "nat \<Rightarrow> int option"
  table :: "int \<Rightarrow> nat option"
  exited :: bool

definition call_try :: "nat \<Rightarrow> nat \<Rightarrow> (nat \<Rightarrow> nat) \<Rightarrow> int_range \<Rightarrow> client \<Rightarrow> client" where
  "call_try M t rnd r C = C\<lparr>sys := do_event M (CallTry t (fst (keys r)) (snd (keys r)) rnd) (sys C),
     inside := (inside C)(t := True)\<rparr>"

definition call_release :: "nat \<Rightarrow> nat \<Rightarrow> int_range \<Rightarrow> client \<Rightarrow> client" where
  "call_release M t r C = C\<lparr>sys := do_event M (CallRelease t (fst (keys r)) (snd (keys r))) (sys C),
     inside := (inside C)(t := True)\<rparr>"

definition go_on :: "nat \<Rightarrow> nat \<Rightarrow> client \<Rightarrow> client" where
  "go_on M t C = C\<lparr>sys := do_event M (Step t) (sys C)\<rparr>"

definition next_instr :: "nat \<Rightarrow> client \<Rightarrow> client" where
  "next_instr t C = C\<lparr>program := (program C)(t := tl (program C t)), inside := (inside C)(t := False),
     cursor := (cursor C)(t := None)\<rparr>"

definition client_step :: "nat \<Rightarrow> nat \<Rightarrow> (nat \<Rightarrow> nat) \<Rightarrow> client \<Rightarrow> client" where
  "client_step M t rnd C =
     (if exited C then C else case program C t of
        [] \<Rightarrow> C
      | TryLock r # p \<Rightarrow>
          if \<not> inside C t then call_try M t rnd r C
          else (case pc (threads (sys C) t) of TryReturned b \<Rightarrow> next_instr t C | _ \<Rightarrow> go_on M t C)
      | LockLoop r # p \<Rightarrow>
          if \<not> inside C t then call_try M t rnd r C
          else (case pc (threads (sys C) t) of
              TryReturned b \<Rightarrow> if b then next_instr t C else C\<lparr>inside := (inside C)(t := False)\<rparr>
            | _ \<Rightarrow> go_on M t C)
      | WriteKeys r # p \<Rightarrow>
          (case cursor C t of
              None \<Rightarrow> C\<lparr>cursor := (cursor C)(t \<mapsto> fst r)\<rparr>
            | Some k \<Rightarrow> if k < snd r then C\<lparr>table := (table C)(k \<mapsto> t), cursor := (cursor C)(t \<mapsto> k + 1)\<rparr>
                else next_instr t C)
      | ReleaseLock r # p \<Rightarrow>
          if \<not> inside C t then call_release M t r C
          else (case pc (threads (sys C) t) of RelReturned b \<Rightarrow> next_instr t C | _ \<Rightarrow> go_on M t C)
      | ReleaseOrExit r # p \<Rightarrow>
          if \<not> inside C t then call_release M t r C
          else (case pc (threads (sys C) t) of
              RelReturned b \<Rightarrow> if b then next_instr t C else C\<lparr>exited := True\<rparr>
            | _ \<Rightarrow> go_on M t C))"

definition start_client :: "nat \<Rightarrow> (nat \<Rightarrow> instr list) \<Rightarrow> client" where
  "start_client M P = \<lparr>sys = init_system M, program = P, inside = (\<lambda>_. False), cursor = (\<lambda>_. None),
     table = (\<lambda>_. None), exited = False\<rparr>"

text \<open>A run: which thread moves next, with the random numbers a \<open>tryLock\<close> it calls would draw.\<close>

definition client_run :: "nat \<Rightarrow> (nat \<times> (nat \<Rightarrow> nat)) list \<Rightarrow> client \<Rightarrow> client" where
  "client_run M moves C = fold (\<lambda>(t, rnd). client_step M t rnd) moves C"

text \<open>
  The loop of \<open>gtest.cpp\<close> over the iterations of the benchmark: every iteration starts the threads
  again, on the same lock and the same memory, once all of them have been joined. The memory is fresh,
  and so is the lock the first iteration meets.
\<close>

definition next_iteration :: "nat \<Rightarrow> (nat \<Rightarrow> instr list) \<Rightarrow> client \<Rightarrow> client" where
  "next_iteration numThreads thread C =
     (if \<not> exited C \<and> list_all (\<lambda>i. program C i = []) [0 ..< numThreads]
      then C\<lparr>program := spawn numThreads thread\<rparr> else C)"

fun run_iterations ::
  "nat \<Rightarrow> nat \<Rightarrow> (nat \<Rightarrow> instr list) \<Rightarrow> (nat \<times> (nat \<Rightarrow> nat)) list list \<Rightarrow> client \<Rightarrow> client" where
  "run_iterations M numThreads thread [] C = C"
| "run_iterations M numThreads thread (moves # iterations) C =
     run_iterations M numThreads thread iterations (client_run M moves (next_iteration numThreads thread C))"

definition runScalabilityV0 ::
  "nat \<Rightarrow> (int_range list \<Rightarrow> int_range list) \<Rightarrow> (nat \<times> (nat \<Rightarrow> nat)) list list \<Rightarrow> client" where
  "runScalabilityV0 numThreads shuffle iterations =
     run_iterations 6 numThreads (gtest_thread (createNonOverlappingRanges shuffle) numThreads) iterations
       (start_client 6 (\<lambda>_. []))"

subsection \<open>Ranges as keys\<close>

definition good_range :: "int_range \<Rightarrow> bool" where
  "good_range r \<longleftrightarrow> 0 \<le> fst r \<and> fst r < snd r \<and> snd r < 2 ^ 64 - 1"

lemma key_le: "0 \<le> i \<Longrightarrow> i < 2 ^ 64 \<Longrightarrow> 0 \<le> j \<Longrightarrow> j < 2 ^ 64 \<Longrightarrow> (word_of_int i :: 64 word) \<le> word_of_int j \<longleftrightarrow> i \<le> j"
  by (simp add: word_le_def uint_word_of_int_eq take_bit_int_eq_self)

lemma key_less: "0 \<le> i \<Longrightarrow> i < 2 ^ 64 \<Longrightarrow> 0 \<le> j \<Longrightarrow> j < 2 ^ 64 \<Longrightarrow> (word_of_int i :: 64 word) < word_of_int j \<longleftrightarrow> i < j"
  by (simp add: word_less_def uint_word_of_int_eq take_bit_int_eq_self)

lemma keys_good:
  assumes "good_range r"
  shows "fst (keys r) < snd (keys r)" "fst (keys r) < top" "snd (keys r) < top"
proof -
  show "fst (keys r) < snd (keys r)" using assms by (simp add: good_range_def keys_def key_less)
  have "uint (snd (keys r)) \<noteq> 2 ^ 64 - 1"
    using assms by (simp add: good_range_def keys_def uint_word_of_int_eq take_bit_int_eq_self)
  then have "snd (keys r) \<noteq> - 1" by (auto simp: unsigned_minus_1_eq_mask mask_eq_exp_minus_1)
  then show "snd (keys r) < top" by (simp add: word_less_top)
  with \<open>fst (keys r) < snd (keys r)\<close> show "fst (keys r) < top" by (rule less_trans)
qed

lemma keys_overlap:
  assumes "good_range r" "good_range q"
  shows "closed_overlaps (keys r) (keys q) \<longleftrightarrow> closed_overlaps r q"
  using assms by (simp add: good_range_def closed_overlaps_def keys_def key_le)

lemma keys_inj:
  assumes "good_range r" "good_range q" "keys r = keys q"
  shows "r = q"
proof -
  have "(word_of_int (fst r) :: 64 word) = word_of_int (fst q)" "(word_of_int (snd r) :: 64 word) = word_of_int (snd q)"
    using assms(3) by (simp_all add: keys_def)
  with assms(1,2) have "fst r = fst q" "snd r = snd q"
    by (simp_all add: good_range_def order_eq_iff key_le)
  then show ?thesis by (rule prod_eqI)
qed

lemma legal_calls [simp]:
  assumes "good_range r"
  shows "legal_event (CallTry t (fst (keys r)) (snd (keys r)) rnd)"
    and "legal_event (CallRelease t (fst (keys r)) (snd (keys r)))"
  using keys_good [OF assms] by simp_all

end
