(* ===== verification/App_Ownership.thy ===== *)
theory App_Ownership
  imports App_Client
begin

text \<open>
  What the threads of a disciplined program hold. \<open>own t\<close> are the ranges thread \<open>t\<close> has locked and not
  released; they are exactly the held ranges of the lock, no range has two owners, and a release
  always finds its range.
\<close>

subsection \<open>Disciplined programs\<close>

text \<open>
  A program that holds \<open>X\<close> locks good ranges it does not hold, writes and releases ranges it holds,
  and ends with \<open>G\<close>, provided that each of its calls of \<open>tryLock\<close> succeeds.
\<close>

fun disciplined :: "int_range set \<Rightarrow> int_range set \<Rightarrow> instr list \<Rightarrow> bool" where
  "disciplined G X [] \<longleftrightarrow> X = G"
| "disciplined G X (TryLock r # p) \<longleftrightarrow> good_range r \<and> r \<notin> X \<and> disciplined G (insert r X) p"
| "disciplined G X (LockLoop r # p) \<longleftrightarrow> good_range r \<and> r \<notin> X \<and> disciplined G (insert r X) p"
| "disciplined G X (WriteKeys r # p) \<longleftrightarrow> r \<in> X \<and> disciplined G X p"
| "disciplined G X (ReleaseLock r # p) \<longleftrightarrow> r \<in> X \<and> disciplined G (X - {r}) p"
| "disciplined G X (ReleaseOrExit r # p) \<longleftrightarrow> r \<in> X \<and> disciplined G (X - {r}) p"

text \<open>Where a thread stands in a call, with what it owns.\<close>

definition in_try :: "int_range set \<Rightarrow> int_range set \<Rightarrow> 64 word locals \<Rightarrow> int_range \<Rightarrow> instr list \<Rightarrow> bool" where
  "in_try G X l r p \<longleftrightarrow> good_range r \<and> args l = keys r \<and>
     (if r \<in> X then (publishing l \<or> pc l = TryReturned True) \<and> disciplined G X p
      else (trying l \<or> pc l = TryReturned False) \<and> disciplined G (insert r X) p)"

definition in_release :: "int_range set \<Rightarrow> int_range set \<Rightarrow> 64 word system \<Rightarrow> nat \<Rightarrow> int_range \<Rightarrow> instr list \<Rightarrow> bool" where
  "in_release G X S t r p \<longleftrightarrow>
     (if r \<in> X then releasing (threads S t) (keys r) \<and> succeeding t (keys r) S \<and> disciplined G (X - {r}) p
      else succeeds (threads S t) \<and> disciplined G X p)"

fun thread_fits :: "int_range set \<Rightarrow> int_range set \<Rightarrow> 64 word system \<Rightarrow> nat \<Rightarrow> bool \<Rightarrow> instr list \<Rightarrow> bool" where
  "thread_fits G X S t False p \<longleftrightarrow> at_rest (threads S t) \<and> disciplined G X p"
| "thread_fits G X S t True (TryLock r # p) \<longleftrightarrow> in_try G X (threads S t) r p"
| "thread_fits G X S t True (LockLoop r # p) \<longleftrightarrow> in_try G X (threads S t) r p"
| "thread_fits G X S t True (ReleaseLock r # p) \<longleftrightarrow> in_release G X S t r p"
| "thread_fits G X S t True (ReleaseOrExit r # p) \<longleftrightarrow> in_release G X S t r p"
| "thread_fits G X S t True _ \<longleftrightarrow> False"

definition owners :: "64 word system \<Rightarrow> (nat \<Rightarrow> int_range set) \<Rightarrow> bool" where
  "owners S own \<longleftrightarrow> held_ranges (lock S) = (\<Union>t. keys ` own t) \<and> (\<forall>t. \<forall>r\<in>own t. good_range r) \<and>
     (\<forall>t u. t \<noteq> u \<longrightarrow> own t \<inter> own u = {})"

definition writing_ok :: "client \<Rightarrow> nat \<Rightarrow> bool" where
  "writing_ok C t \<longleftrightarrow> (\<forall>k. cursor C t = Some k \<longrightarrow> \<not> inside C t \<and>
     (\<exists>r p. program C t = WriteKeys r # p \<and> fst r \<le> k \<and> k \<le> snd r \<and> (\<forall>j. fst r \<le> j \<and> j < k \<longrightarrow> table C j = Some t)))"

definition client_inv :: "nat \<Rightarrow> (nat \<Rightarrow> int_range set) \<Rightarrow> (nat \<Rightarrow> int_range set) \<Rightarrow> client \<Rightarrow> bool" where
  "client_inv M G own C \<longleftrightarrow> reachable M (sys C) \<and> owners (sys C) own \<and>
     (\<forall>t. thread_fits (G t) (own t) (sys C) t (inside C t) (program C t)) \<and> (\<forall>t. writing_ok C t) \<and> \<not> exited C"

lemma client_invD:
  assumes "client_inv M G own C"
  shows "reachable M (sys C)" "owners (sys C) own" "thread_fits (G t) (own t) (sys C) t (inside C t) (program C t)"
    "writing_ok C t" "\<not> exited C"
  using assms by (simp_all add: client_inv_def)

subsection \<open>Owners\<close>

lemma owned_held: "owners S own \<Longrightarrow> r \<in> own t \<Longrightarrow> keys r \<in> held_ranges (lock S)"
  by (auto simp: owners_def)

lemma owned_same:
  assumes "owners S own" "r \<in> own t" "q \<in> own u" "keys r = keys q"
  shows "r = q \<and> t = u"
proof -
  have "r = q" using assms keys_inj by (auto simp: owners_def)
  with assms have "own t \<inter> own u \<noteq> {}" by auto
  with \<open>r = q\<close> assms(1) show ?thesis unfolding owners_def by blast
qed

text \<open>Ranges of two owners do not overlap.\<close>

lemma owned_apart:
  assumes "reachable M S" "owners S own" "r \<in> own t" "q \<in> own u" "t \<noteq> u"
  shows "\<not> closed_overlaps r q"
proof -
  have "keys r \<noteq> keys q" using owned_same [OF assms(2-4)] assms(5) by blast
  moreover from owned_held [OF assms(2,3)] owned_held [OF assms(2,4)] obtain a b where
    "a \<in> held (lock S)" "b \<in> held (lock S)" "rg (lock S) a = keys r" "rg (lock S) b = keys q"
    by (auto simp: held_ranges_def)
  ultimately have "\<not> closed_overlaps (keys r) (keys q)"
    using held_disjoint [OF system_invD(1) [OF reachable_system_inv [OF assms(1)]], of a b] by metis
  then show ?thesis using assms(2-4) by (auto simp: owners_def keys_overlap)
qed

text \<open>Only the owner is inside a release of its range before the mark.\<close>

lemma releasing_owner:
  assumes fit: "thread_fits G X S u i p" and o: "owners S own" "X = own u" and r: "r \<in> own t" "t \<noteq> u"
  shows "\<not> releasing (threads S u) (keys r)"
proof
  assume rel: "releasing (threads S u) (keys r)"
  have no: "\<not> at_rest (threads S u)" "\<not> trying (threads S u)" "\<not> publishing (threads S u)" "\<not> finishing (threads S u)"
    "\<not> succeeds (threads S u)"
    using rel by (auto simp: phase_defs succeeds_def split: pc.splits)
  have "pc (threads S u) \<noteq> TryReturned b" for b using rel by (auto simp: releasing_def)
  with fit no obtain q p' where "in_release G X S u q p'"
    by (cases "(G, X, S, u, i, p)" rule: thread_fits.cases) (auto simp: in_try_def split: if_splits)
  with no have "q \<in> X" "releasing (threads S u) (keys q)" by (auto simp: in_release_def split: if_splits)
  with rel have "keys q = keys r" by (auto simp: releasing_def)
  with owned_same [OF o(1), of q u r t] \<open>q \<in> X\<close> o(2) r show False by blast
qed

lemma fits_other:
  assumes fit: "thread_fits G X S u i p" and t: "threads S' u = threads S u"
    and sc: "\<And>r. r \<in> X \<Longrightarrow> succeeding u (keys r) S \<Longrightarrow> succeeding u (keys r) S'"
  shows "thread_fits G X S' u i p"
  using fit t sc by (cases "(G, X, S, u, i, p)" rule: thread_fits.cases) (auto simp: in_release_def split: if_splits)

subsection \<open>One step of the lock\<close>

lemma others_fit:
  assumes r: "reachable M S" and o: "owners S own" and fits: "\<And>u. thread_fits (G u) (own u) S u (ins u) (P u)"
    and ev: "event_thread ev = t" "\<And>u r. u \<noteq> t \<Longrightarrow> r \<in> own u \<Longrightarrow> undisturbed u (keys r) ev" and u: "u \<noteq> t"
  shows "thread_fits (G u) (own u) (do_event M ev S) u (ins u) (P u)"
proof (rule fits_other [OF fits])
  show "threads (do_event M ev S) u = threads S u" using ev(1) u by (cases ev) (auto split: prod.split)
  fix r assume "r \<in> own u" "succeeding u (keys r) S"
  then show "succeeding u (keys r) (do_event M ev S)"
    using event_succeeding [OF reachable_system_inv [OF r] reachable_marked [OF r], of u "keys r" ev] keys_good(1) [of r]
      ev(2) [OF u] o by (auto simp: owners_def)
qed

lemma union_upd: "(\<Union>u. g ((own(t := A)) u)) = g A \<union> (\<Union>u\<in>-{t}. g (own u))" for g :: "'a \<Rightarrow> 'b set"
  by (auto split: if_splits)

lemma union_at: "(\<Union>u. g (own u)) = g (own t) \<union> (\<Union>u\<in>-{t}. g (own u))" for g :: "'a \<Rightarrow> 'b set"
  by auto

lemma owners_acquire:
  assumes "owners S own" "held_ranges (lock S') = insert (keys r) (held_ranges (lock S))" "good_range r"
    and "\<forall>q\<in>held_ranges (lock S). \<not> closed_overlaps (keys r) q"
  shows "owners S' (own(t := insert r (own t)))" "\<And>u. r \<notin> own u"
proof -
  have "closed_overlaps (keys r) (keys r)" using keys_good(1) [OF assms(3)] by (simp add: closed_overlaps_def)
  then show new: "r \<notin> own u" for u using assms(4) owned_held [OF assms(1), of r u] by auto
  have un: "(\<Union>u. keys ` (own(t := insert r (own t))) u) = insert (keys r) (\<Union>u. keys ` own u)"
    unfolding union_upd [of "image keys"] union_at [of "image keys" own t] by simp
  show "owners S' (own(t := insert r (own t)))"
    using assms(1-3) new unfolding owners_def un by auto
qed

lemma owners_release:
  assumes "owners S own" "held_ranges (lock S') = held_ranges (lock S) - {keys r}" "r \<in> own t"
  shows "owners S' (own(t := own t - {r}))"
proof -
  have "(\<Union>u. keys ` (own(t := own t - {r})) u) = (\<Union>u. keys ` own u) - {keys r}"
  proof -
    have "inj_on keys (own t)" using owned_same [OF assms(1)] by (meson inj_onI)
    then have "keys ` (own t - {r}) = keys ` own t - {keys r}"
      using inj_on_image_set_diff [of keys "own t" "own t" "{r}"] assms(3) by simp
    moreover have "keys r \<notin> (\<Union>u\<in>-{t}. keys ` own u)" using owned_same [OF assms(1) _ assms(3)] by fastforce
    ultimately show ?thesis unfolding union_upd [of "image keys"] union_at [of "image keys" own t] by blast
  qed
  moreover have sub: "(own(t := own t - {r})) u \<subseteq> own u" for u by auto
  moreover have "(own(t := own t - {r})) u \<inter> (own(t := own t - {r})) v = {}" if "u \<noteq> v" for u v
    using sub [of u] sub [of v] assms(1) that unfolding owners_def by blast
  ultimately show ?thesis using assms(1,2) unfolding owners_def by (metis subsetD)
qed

lemma try_fits_step:
  assumes s: "code_step M \<sigma> l = Some (\<sigma>', l')" and fit: "in_try G X l r p" and nr: "\<not> at_rest l"
  shows "action_of l l' = Silent \<and> in_try G X l' r p \<or> action_of l l' = Acquire (keys r) \<and> good_range r \<and> in_try G (insert r X) l' r p"
proof (cases "r \<in> X")
  case True
  with fit nr have "publishing l" by (auto simp: in_try_def at_rest_def)
  from publishing_step [OF s this] True fit show ?thesis by (auto simp: in_try_def)
next
  case False
  with fit nr have l: "trying l" by (auto simp: in_try_def at_rest_def)
  from trying_step [OF s l] False fit show ?thesis by (auto simp: in_try_def)
qed

lemma release_fits_step:
  assumes s: "code_step M (lock S) (threads S t) = Some (\<sigma>', l')" and S': "threads S' t = l'"
    and fit: "in_release G X S t r p" and nr: "\<not> at_rest (threads S t)"
    and sc: "succeeding t (keys r) S \<Longrightarrow> succeeding t (keys r) S'"
  shows "action_of (threads S t) l' = Silent \<and> in_release G X S' t r p \<or>
    action_of (threads S t) l' = Release (keys r) \<and> r \<in> X \<and> in_release G (X - {r}) S' t r p"
proof (cases "r \<in> X")
  case True
  with fit have rel: "releasing (threads S t) (keys r)" and su: "succeeding t (keys r) S" and d: "disciplined G (X - {r}) p"
    by (auto simp: in_release_def)
  then have a: "args (threads S t) = keys r" by (simp add: releasing_def)
  with rel have "releasing (threads S t) (args (threads S t))" by simp
  from releasing_phase_step(2) [OF s this] a
  consider "releasing l' (keys r)" "action_of (threads S t) l' = Silent" | "pc l' = RelReturned False"
    | "finishing l'" "action_of (threads S t) l' = Release (keys r)" by auto
  then show ?thesis
  proof cases
    case 1
    with True sc [OF su] d S' show ?thesis by (simp add: in_release_def)
  next
    case 2
    with sc [OF su] S' show ?thesis
      by (auto simp: succeeding_def succeeds_def hunts_def releasing_def)
  next
    case 3
    with True d S' show ?thesis by (auto simp: in_release_def finishing_def succeeds_def)
  qed
next
  case False
  with fit nr have "finishing (threads S t)" and d: "disciplined G X p"
    by (auto simp: in_release_def succeeds_def finishing_def at_rest_def)
  from finishing_step [OF s this(1)] False d S' show ?thesis
    by (auto simp: in_release_def finishing_def succeeds_def)
qed

lemma call_fits_step:
  assumes s: "code_step M (lock S) (threads S t) = Some (\<sigma>', l')" and S': "threads S' t = l'"
    and fit: "thread_fits G X S t True p" and nr: "\<not> at_rest (threads S t)"
    and sc: "\<And>r. r \<in> X \<Longrightarrow> succeeding t (keys r) S \<Longrightarrow> succeeding t (keys r) S'"
  obtains "action_of (threads S t) l' = Silent" "thread_fits G X S' t True p"
    | r where "good_range r" "action_of (threads S t) l' = Acquire (keys r)" "thread_fits G (insert r X) S' t True p"
    | r where "r \<in> X" "action_of (threads S t) l' = Release (keys r)" "thread_fits G (X - {r}) S' t True p"
proof -
  have sc': "succeeding t (keys r) S \<Longrightarrow> succeeding t (keys r) S'" if "in_release G X S t r p'" for r p'
  proof (cases "r \<in> X")
    case False
    with that have "succeeds (threads S t)" by (simp add: in_release_def)
    with succeeds_step [OF s] S' show ?thesis by (simp add: succeeding_def)
  qed (use sc in simp)
  have attempt: "in_try G X (threads S t) r p' \<Longrightarrow> action_of (threads S t) l' = Silent \<and> in_try G X (threads S' t) r p' \<or>
      action_of (threads S t) l' = Acquire (keys r) \<and> good_range r \<and> in_try G (insert r X) (threads S' t) r p'" for r p'
    using try_fits_step [OF s _ nr] S' by blast
  have rel: "in_release G X S t r p' \<Longrightarrow> action_of (threads S t) l' = Silent \<and> in_release G X S' t r p' \<or>
      action_of (threads S t) l' = Release (keys r) \<and> r \<in> X \<and> in_release G (X - {r}) S' t r p'" for r p'
    using release_fits_step [where S' = S', OF s S' _ nr sc'] by blast
  have "action_of (threads S t) l' = Silent \<and> thread_fits G X S' t True p \<or>
      (\<exists>r. good_range r \<and> action_of (threads S t) l' = Acquire (keys r) \<and> thread_fits G (insert r X) S' t True p) \<or>
      (\<exists>r\<in>X. action_of (threads S t) l' = Release (keys r) \<and> thread_fits G (X - {r}) S' t True p)"
  proof (cases p)
    case (Cons i p')
    show ?thesis
    proof (cases i)
      case (TryLock r)
      with Cons fit attempt [of r p'] show ?thesis unfolding Cons by (simp del: split_paired_Ex) blast
    next
      case (LockLoop r)
      with Cons fit attempt [of r p'] show ?thesis unfolding Cons by (simp del: split_paired_Ex) blast
    next
      case (ReleaseLock r)
      with Cons fit rel [of r p'] show ?thesis unfolding Cons by simp blast
    next
      case (ReleaseOrExit r)
      with Cons fit rel [of r p'] show ?thesis unfolding Cons by simp blast
    qed (use Cons fit in simp)
  qed (use fit in simp)
  with that show ?thesis by blast
qed

subsection \<open>One step of a client\<close>

text \<open>An update of one thread's part of the client.\<close>

lemma client_invI:
  assumes "reachable M (sys C')" "owners (sys C') own'" "\<not> exited C'"
    and "\<And>u. thread_fits (G u) (own' u) (sys C') u (inside C' u) (program C' u)" "\<And>u. writing_ok C' u"
  shows "\<exists>own. client_inv M G own C'"
  using assms unfolding client_inv_def by blast

lemma not_writing:
  "writing_ok C t \<Longrightarrow> \<forall>r p. program C t \<noteq> WriteKeys r # p \<Longrightarrow> cursor C t = None"
  by (cases "cursor C t") (auto simp: writing_ok_def)

lemma go_on_inv:
  assumes C: "client_inv M G own C" and t: "inside C t" "\<not> at_rest (threads (sys C) t)"
  shows "\<exists>own'. client_inv M G own' (go_on M t C)"
proof -
  note D = client_invD [OF C]
  let ?S = "sys C" let ?S' = "do_event M (Step t) ?S"
  note inv = reachable_system_inv [OF D(1)]
  obtain \<sigma>' l' where s: "code_step M (lock ?S) (threads ?S t) = Some (\<sigma>', l')" "step M (lock ?S) (threads ?S t) = (\<sigma>', l')"
    by (rule step_defined [OF inv])
  have S': "threads ?S' t = l'" using s(2) by simp
  have r': "reachable M ?S'" using D(1) by (rule reachable.event) simp
  have w: "writing_ok (go_on M t C) u" for u using D(4) [of u] by (simp add: writing_ok_def go_on_def)
  have oth: "thread_fits (G u) (own u) ?S' u (inside C u) (program C u)" if "u \<noteq> t" for u
    by (rule others_fit [OF D(1,2,3)]) (use that in simp_all)
  have sc: "succeeding t (keys r) ?S'" if "r \<in> own t" "succeeding t (keys r) ?S" for r
    using event_succeeding [OF inv reachable_marked [OF D(1)] that(2), of "Step t"] keys_good(1) [of r] D(2) that(1)
    by (simp add: owners_def del: do_event.simps)
  have spec: "closed_spec (held_ranges (lock ?S)) (action_of (threads ?S t) l') (held_ranges (lock ?S'))"
    using event_refines [OF inv, of "Step t"] s(2) by simp
  from D(3) [of t] t(1) have fit: "thread_fits (G t) (own t) ?S t True (program C t)" by simp
  have over: "\<exists>own'. client_inv M G own' (go_on M t C)"
    if "owners ?S' (own(t := X))" "thread_fits (G t) X ?S' t True (program C t)" for X
    by (rule client_invI [where own' = "own(t := X)"]) (use that r' D(5) w oth t(1) in \<open>auto simp: go_on_def\<close>)
  show ?thesis
  proof (rule call_fits_step [OF s(1) S' fit t(2) sc])
    assume "action_of (threads ?S t) l' = Silent" and f: "thread_fits (G t) (own t) ?S' t True (program C t)"
    with spec D(2) have "owners ?S' (own(t := own t))" by (simp add: owners_def)
    then show ?thesis using f by (rule over)
  next
    fix r assume g: "good_range r" and a: "action_of (threads ?S t) l' = Acquire (keys r)"
      and f: "thread_fits (G t) (insert r (own t)) ?S' t True (program C t)"
    from spec a owners_acquire(1) [OF D(2) _ g, of ?S' t] show ?thesis by (intro over [OF _ f]) simp
  next
    fix r assume g: "r \<in> own t" and a: "action_of (threads ?S t) l' = Release (keys r)"
      and f: "thread_fits (G t) (own t - {r}) ?S' t True (program C t)"
    from spec a owners_release [OF D(2) _ g, of ?S'] show ?thesis by (intro over [OF _ f]) simp
  qed
qed

text \<open>Entering a call.\<close>

lemma enter_inv:
  assumes C: "client_inv M G own C" and t: "\<not> inside C t" and ev: "legal_event ev" "event_thread ev = t" "ev \<noteq> Step t"
    and und: "\<And>u r. u \<noteq> t \<Longrightarrow> r \<in> own u \<Longrightarrow> undisturbed u (keys r) ev"
    and nw: "\<forall>r p. program C t \<noteq> WriteKeys r # p"
    and fit: "thread_fits (G t) (own t) (do_event M ev (sys C)) t True (program C t)"
  shows "client_inv M G own (C\<lparr>sys := do_event M ev (sys C), inside := (inside C)(t := True)\<rparr>)" (is "client_inv M G own ?C'")
proof -
  note D = client_invD [OF C]
  have lk: "lock (do_event M ev (sys C)) = lock (sys C)" using ev(2,3) by (cases ev) auto
  have "thread_fits (G u) (own u) (sys ?C') u (inside ?C' u) (program ?C' u)" for u
  proof (cases "u = t")
    case True
    with fit show ?thesis by simp
  next
    case False
    with others_fit [OF D(1,2,3) ev(2) und] show ?thesis by simp
  qed
  moreover have "writing_ok ?C' u" for u
    using D(4) [of u] not_writing [OF D(4) nw] by (cases "u = t") (auto simp: writing_ok_def)
  moreover have "reachable M (sys ?C')" using reachable.event [OF D(1) ev(1)] by simp
  ultimately show ?thesis using D(2,5) lk by (simp add: client_inv_def owners_def)
qed

lemma call_try_inv:
  assumes C: "client_inv M G own C" and t: "\<not> inside C t" and p: "program C t = TryLock r # p \<or> program C t = LockLoop r # p"
  shows "client_inv M G own (call_try M t rnd r C)"
  unfolding call_try_def
proof (rule enter_inv [OF C t])
  from client_invD(3) [OF C, of t] t p have g: "good_range r" "r \<notin> own t" "at_rest (threads (sys C) t)"
    "disciplined (G t) (insert r (own t)) p" by auto
  show "legal_event (CallTry t (fst (keys r)) (snd (keys r)) rnd)" by (rule legal_calls [OF g(1)])
  show "thread_fits (G t) (own t) (do_event M (CallTry t (fst (keys r)) (snd (keys r)) rnd) (sys C)) t True (program C t)"
    using g p by (auto simp: in_try_def) (simp_all add: call_tryLock_def)
qed (use p in auto)

lemma call_release_inv:
  assumes C: "client_inv M G own C" and t: "\<not> inside C t"
    and p: "program C t = ReleaseLock r # p \<or> program C t = ReleaseOrExit r # p"
  shows "client_inv M G own (call_release M t r C)"
  unfolding call_release_def
proof (rule enter_inv [OF C t])
  note D = client_invD [OF C]
  from D(3) [of t] t p have g: "r \<in> own t" "at_rest (threads (sys C) t)" "disciplined (G t) (own t - {r}) p" by auto
  with D(2) have "good_range r" by (auto simp: owners_def)
  then show "legal_event (CallRelease t (fst (keys r)) (snd (keys r)))" by (rule legal_calls)
  show "undisturbed u (keys q) (CallRelease t (fst (keys r)) (snd (keys r)))" if "u \<noteq> t" "q \<in> own u" for u q
    using that owned_same [OF D(2) g(1) that(2)] by auto
  have "\<forall>u. u \<noteq> t \<longrightarrow> \<not> releasing (threads (sys C) u) (fst (keys r), snd (keys r))"
    using releasing_owner [OF D(3) D(2) refl g(1)] by auto
  moreover have "(fst (keys r), snd (keys r)) \<in> held_ranges (lock (sys C))" using owned_held [OF D(2) g(1)] by simp
  ultimately have "succeeding t (keys r) (do_event M (CallRelease t (fst (keys r)) (snd (keys r))) (sys C))"
    using call_succeeding [of "fst (keys r)" "snd (keys r)" "sys C" t M] g(2) by simp
  then show "thread_fits (G t) (own t) (do_event M (CallRelease t (fst (keys r)) (snd (keys r))) (sys C)) t True (program C t)"
    using g p by (auto simp: in_release_def)
qed (use p in auto)

text \<open>Going on to the next instruction, or around a loop.\<close>

lemma leave_inv:
  assumes C: "client_inv M G own C" and t: "at_rest (threads (sys C) t)" "disciplined (G t) (own t) p"
    and C': "sys C' = sys C" "program C' = (program C)(t := p)" "inside C' = (inside C)(t := False)" "table C' = table C"
      "exited C' = exited C" "cursor C' t = None" "\<And>u. u \<noteq> t \<Longrightarrow> cursor C' u = cursor C u"
  shows "client_inv M G own C'"
proof -
  note D = client_invD [OF C]
  have "thread_fits (G u) (own u) (sys C') u (inside C' u) (program C' u)" for u
    using D(3) [of u] t by (cases "u = t") (simp_all add: C')
  moreover have "writing_ok C' u" for u
    using D(4) [of u] C' by (cases "u = t") (auto simp: writing_ok_def)
  ultimately show ?thesis using D(1,2,5) by (simp add: client_inv_def C')
qed

lemma try_returned:
  assumes "in_try G X l r p" "pc l = TryReturned b"
  shows "if b then r \<in> X \<and> disciplined G X p else good_range r \<and> r \<notin> X \<and> disciplined G (insert r X) p"
  using assms by (auto simp: in_try_def phase_defs split: if_splits)

lemma release_returned:
  assumes "in_release G X S t r p" "pc (threads S t) = RelReturned b"
  shows "b \<and> disciplined G X p"
  using assms by (auto simp: in_release_def releasing_def succeeds_def split: if_splits)

text \<open>Writing a key nobody else has locked.\<close>

lemma write_inv:
  assumes C: "client_inv M G own C" and p: "program C t = WriteKeys r # p" and k: "cursor C t = Some k" "k < snd r"
  shows "client_inv M G own (C\<lparr>table := (table C)(k \<mapsto> t), cursor := (cursor C)(t \<mapsto> k + 1)\<rparr>)" (is "client_inv M G own ?C'")
proof -
  note D = client_invD [OF C]
  from D(4) [of t] k(1) p have in': "\<not> inside C t" "fst r \<le> k" "\<forall>j. fst r \<le> j \<and> j < k \<longrightarrow> table C j = Some t"
    by (auto simp: writing_ok_def)
  with D(3) [of t] p have r: "r \<in> own t" by simp
  have "writing_ok ?C' u" for u
  proof (cases "u = t")
    case True
    with in' p k show ?thesis by (auto simp: writing_ok_def)
  next
    case False
    show ?thesis
      unfolding writing_ok_def
    proof (intro allI impI)
      fix k' assume "cursor ?C' u = Some k'"
      with False D(4) [of u] obtain q p' where q: "\<not> inside C u" "program C u = WriteKeys q # p'" "fst q \<le> k'" "k' \<le> snd q"
        "\<forall>j. fst q \<le> j \<and> j < k' \<longrightarrow> table C j = Some u" by (auto simp: writing_ok_def)
      with D(3) [of u] have "q \<in> own u" by simp
      from owned_apart [OF D(1,2) r this] False have "\<not> closed_overlaps r q" by simp
      with in'(2) k(2) q(3,4) have "\<not> (fst q \<le> k \<and> k < k')" by (auto simp: closed_overlaps_def)
      with q show "\<not> inside ?C' u \<and> (\<exists>r p. program ?C' u = WriteKeys r # p \<and> fst r \<le> k' \<and> k' \<le> snd r \<and>
          (\<forall>j. fst r \<le> j \<and> j < k' \<longrightarrow> table ?C' j = Some u))" by auto
    qed
  qed
  with D show ?thesis by (simp add: client_inv_def)
qed

subsection \<open>Runs\<close>

text \<open>A call of \<open>tryLock\<close> whose result nobody looks at has failed.\<close>

definition refused_try :: "client \<Rightarrow> bool" where
  "refused_try C \<longleftrightarrow> (\<exists>t r p. program C t = TryLock r # p \<and> inside C t \<and> pc (threads (sys C) t) = TryReturned False)"

lemma in_try_moves: "in_try G X l r p \<Longrightarrow> \<forall>b. pc l \<noteq> TryReturned b \<Longrightarrow> \<not> at_rest l"
  by (auto simp: in_try_def phase_defs split: if_splits)

lemma in_release_moves: "in_release G X S t r p \<Longrightarrow> \<forall>b. pc (threads S t) \<noteq> RelReturned b \<Longrightarrow> \<not> at_rest (threads S t)"
  by (auto simp: in_release_def releasing_def succeeds_def at_rest_def split: if_splits)

lemma next_instr_inv:
  assumes C: "client_inv M G own C" and P: "program C t = i # p"
    and "at_rest (threads (sys C) t)" "disciplined (G t) (own t) p"
  shows "client_inv M G own (next_instr t C)"
  by (rule leave_inv [OF C assms(3,4)]) (simp_all add: next_instr_def P)

text \<open>A thread between two calls.\<close>

lemma write_step_inv:
  assumes C: "client_inv M G own C" and P: "program C t = WriteKeys r # p" and t: "\<not> inside C t"
  shows "client_inv M G own (client_step M t rnd C)"
proof -
  note D = client_invD [OF C]
  from D(3) [of t] P t have rest: "at_rest (threads (sys C) t)" "r \<in> own t" "disciplined (G t) (own t) p" by simp_all
  show ?thesis
  proof (cases "cursor C t")
    case None
    let ?C' = "C\<lparr>cursor := (cursor C)(t \<mapsto> fst r)\<rparr>"
    from rest(2) D(2) have "good_range r" by (auto simp: owners_def)
    then have "writing_ok ?C' u" for u
      using D(4) [of u] P t by (cases r, cases "u = t") (auto simp: writing_ok_def good_range_def)
    with D have "client_inv M G own ?C'" by (simp add: client_inv_def)
    with None P D(5) show ?thesis by (simp add: client_step_def)
  next
    case (Some k)
    show ?thesis
    proof (cases "k < snd r")
      case True
      with write_inv [OF C P Some] P Some D(5) show ?thesis by (simp add: client_step_def)
    next
      case False
      with next_instr_inv [OF C P rest(1,3)] P Some D(5) show ?thesis by (simp add: client_step_def)
    qed
  qed
qed

lemma outside_step_inv:
  assumes C: "client_inv M G own C" and t: "\<not> inside C t"
  shows "client_inv M G own (client_step M t rnd C)"
proof (cases "program C t")
  case (Cons i p)
  note nx = client_invD(5) [OF C]
  show ?thesis
  proof (cases i)
    case (WriteKeys r)
    with write_step_inv [OF C _ t] Cons show ?thesis by simp
  next
    case (TryLock r)
    with call_try_inv [OF C t] Cons t nx show ?thesis by (simp add: client_step_def)
  next
    case (LockLoop r)
    with call_try_inv [OF C t] Cons t nx show ?thesis by (simp add: client_step_def)
  next
    case (ReleaseLock r)
    with call_release_inv [OF C t] Cons t nx show ?thesis by (simp add: client_step_def)
  next
    case (ReleaseOrExit r)
    with call_release_inv [OF C t] Cons t nx show ?thesis by (simp add: client_step_def)
  qed
qed (use C in \<open>simp add: client_step_def\<close>)

text \<open>A thread inside a call: the call returns, or the lock makes a step.\<close>

lemma try_step_inv:
  assumes C: "client_inv M G own C" and t: "inside C t" and P: "program C t = TryLock r # p \<or> program C t = LockLoop r # p"
    and nr: "\<not> refused_try C"
  shows "\<exists>own'. client_inv M G own' (client_step M t rnd C)"
proof -
  note D = client_invD [OF C]
  from D(3) [of t] t P have fit: "in_try (G t) (own t) (threads (sys C) t) r p" by auto
  show ?thesis
  proof (cases "\<exists>b. pc (threads (sys C) t) = TryReturned b")
    case True
    then obtain b where b: "pc (threads (sys C) t) = TryReturned b" ..
    note rt = try_returned [OF fit b]
    show ?thesis
    proof (cases b)
      case True
      then have eq: "client_step M t rnd C = next_instr t C" using P t b D(5) by (auto simp: client_step_def)
      have rest: "at_rest (threads (sys C) t)" using b by (simp add: at_rest_def)
      from P obtain i where i: "program C t = i # p" by blast
      have "client_inv M G own (next_instr t C)"
        by (rule next_instr_inv [OF C i rest]) (use rt True in simp)
      then show ?thesis unfolding eq by blast
    next
      case False
      with b t nr have L: "program C t = LockLoop r # p" using P by (cases r) (auto simp: refused_try_def)
      have "client_inv M G own (C\<lparr>inside := (inside C)(t := False)\<rparr>)"
        by (rule leave_inv [OF C, of t "LockLoop r # p"])
          (use rt b False L not_writing [OF D(4), of t] in \<open>auto simp: at_rest_def\<close>)
      with b False L D(5) t show ?thesis by (auto simp: client_step_def)
    qed
  next
    case False
    then have "client_step M t rnd C = go_on M t C"
      using P t D(5) by (elim disjE; cases "pc (threads (sys C) t)"; simp add: client_step_def)
    with go_on_inv [OF C t] in_try_moves [OF fit] False show ?thesis by simp
  qed
qed

lemma release_step_inv:
  assumes C: "client_inv M G own C" and t: "inside C t"
    and P: "program C t = ReleaseLock r # p \<or> program C t = ReleaseOrExit r # p"
  shows "\<exists>own'. client_inv M G own' (client_step M t rnd C)"
proof -
  note D = client_invD [OF C]
  from D(3) [of t] t P have fit: "in_release (G t) (own t) (sys C) t r p" by auto
  show ?thesis
  proof (cases "\<exists>b. pc (threads (sys C) t) = RelReturned b")
    case True
    then obtain b where b: "pc (threads (sys C) t) = RelReturned b" ..
    note rt = release_returned [OF fit b]
    then have eq: "client_step M t rnd C = next_instr t C" using P t b D(5) by (auto simp: client_step_def)
    have rest: "at_rest (threads (sys C) t)" using b by (simp add: at_rest_def)
    from P obtain i where i: "program C t = i # p" by blast
    have "client_inv M G own (next_instr t C)"
      by (rule next_instr_inv [OF C i rest]) (use rt in simp)
    then show ?thesis unfolding eq by blast
  next
    case False
    then have "client_step M t rnd C = go_on M t C"
      using P t D(5) by (elim disjE; cases "pc (threads (sys C) t)"; simp add: client_step_def)
    with go_on_inv [OF C t] in_release_moves [OF fit] False show ?thesis by simp
  qed
qed

lemma client_step_inv:
  assumes C: "client_inv M G own C" and nr: "\<not> refused_try C"
  shows "\<exists>own'. client_inv M G own' (client_step M t rnd C)"
proof (cases "inside C t")
  case True
  with client_invD(3) [OF C, of t] obtain i p where P: "program C t = i # p" "\<forall>r. i \<noteq> WriteKeys r"
    by (cases "(G t, own t, sys C, t, inside C t, program C t)" rule: thread_fits.cases) auto
  with try_step_inv [OF C True _ nr] release_step_inv [OF C True] show ?thesis by (cases i) auto
qed (use outside_step_inv [OF C] in blast)

lemma start_inv:
  assumes "\<And>t. disciplined (G t) {} (P t)"
  shows "client_inv M G (\<lambda>_. {}) (start_client M P)"
  using assms
  by (simp add: client_inv_def start_client_def reachable.start owners_def init_held_ranges writing_ok_def)
    (simp add: init_system_def at_rest_def fresh_locals_def)

end
