(* ===== verification/App_Database.thy ===== *)
theory App_Database
  imports App_Ownership
begin

text \<open>
  Programs whose threads wait for each lock: the transactions of \<open>database.cpp\<close>, which never fail and
  write their ranges in isolation, and what becomes of a range that starts at the key 0.
\<close>

subsection \<open>Programs without ignored results\<close>

definition patient :: "(nat \<Rightarrow> instr list) \<Rightarrow> bool" where
  "patient P \<longleftrightarrow> (\<forall>t r. TryLock r \<notin> set (P t))"

lemma step_program: "program (client_step M t rnd C) u = program C u \<or>
    u = t \<and> program C t \<noteq> [] \<and> client_step M t rnd C = next_instr t C"
proof (cases "exited C \<or> program C t = []")
  case False
  then obtain i p where "program C t = i # p" "\<not> exited C" by (cases "program C t") auto
  then show ?thesis
    by (cases i; cases "inside C t"; cases "pc (threads (sys C) t)"; cases "cursor C t")
      (auto simp: client_step_def call_try_def call_release_def go_on_def next_instr_def)
qed (auto simp: client_step_def)

lemma step_program_subset: "set (program (client_step M t rnd C) u) \<subseteq> set (program C u)"
  using step_program [of M t rnd C u] by (auto simp: next_instr_def dest: list.set_sel(2))

lemma run_invariant:
  assumes "client_inv M G own C" "Q C" "\<And>C own. client_inv M G own C \<Longrightarrow> Q C \<Longrightarrow> \<not> refused_try C"
    and "\<And>C own t rnd. client_inv M G own C \<Longrightarrow> Q C \<Longrightarrow> Q (client_step M t rnd C)"
  shows "(\<exists>own. client_inv M G own (client_run M moves C)) \<and> Q (client_run M moves C)"
  using assms(1,2)
proof (induction moves arbitrary: C own)
  case Nil
  then show ?case by (auto simp: client_run_def)
next
  case (Cons m moves)
  obtain t rnd where m: "m = (t, rnd)" by (cases m)
  from client_step_inv [OF Cons.prems(1) assms(3) [OF Cons.prems]] obtain own' where
    "client_inv M G own' (client_step M t rnd C)" by blast
  from Cons.IH [OF this assms(4) [OF Cons.prems]] m show ?case by (simp add: client_run_def)
qed

lemma patient_step: "patient (program C) \<Longrightarrow> patient (program (client_step M t rnd C))"
  using step_program_subset [of M t rnd C] unfolding patient_def by blast

lemma patient_not_refused:
  assumes "patient (program C)"
  shows "\<not> refused_try C"
proof
  assume "refused_try C"
  then obtain t r p where "program C t = TryLock r # p" by (auto simp: refused_try_def)
  then have "TryLock r \<in> set (program C t)" by simp
  with assms show False unfolding patient_def by blast
qed

lemma patient_run:
  assumes "\<And>t. disciplined (G t) {} (P t)" "patient P"
  shows "\<exists>own. client_inv M G own (client_run M moves (start_client M P))"
proof -
  have "(\<exists>own. client_inv M G own (client_run M moves (start_client M P))) \<and>
      patient (program (client_run M moves (start_client M P)))"
    by (rule run_invariant [OF start_inv [OF assms(1)]])
      (use assms(2) patient_step patient_not_refused in \<open>auto simp: start_client_def\<close>)
  then show ?thesis ..
qed

subsection \<open>The transactions of the database\<close>

lemma disciplined_append:
  "disciplined X Y p \<Longrightarrow> disciplined Z X q \<Longrightarrow> disciplined Z Y (p @ q)"
  by (induction X Y p rule: disciplined.induct) auto

lemma disciplined_concat:
  "(\<And>x. x \<in> set xs \<Longrightarrow> disciplined X X (f x)) \<Longrightarrow> disciplined X X (concat (map f xs))"
  by (induction xs) (auto intro: disciplined_append)

lemma drawn_good:
  assumes "drawn dist range_dist"
  shows "good_range (dist i, dist i + range_dist i)" "dist i + range_dist i \<le> num_records"
proof -
  from assms have "0 \<le> dist i" "dist i \<le> 9999000" "10 \<le> range_dist i" "range_dist i \<le> 1000" by (auto simp: drawn_def)
  then show "good_range (dist i, dist i + range_dist i)" "dist i + range_dist i \<le> num_records"
    by (simp_all add: good_range_def num_records_def)
qed

lemma database_disciplined:
  assumes "drawn dist range_dist"
  shows "disciplined {} {} (database_transaction_v0 dist range_dist k)"
  unfolding database_transaction_v0_def Let_def
  by (rule disciplined_concat) (use drawn_good(1) [OF assms] in simp)

abbreviation benchmark_database :: "nat \<Rightarrow> (nat \<Rightarrow> nat \<Rightarrow> int) \<Rightarrow> (nat \<Rightarrow> nat \<Rightarrow> int) \<Rightarrow> nat \<Rightarrow> client" where
  "benchmark_database n dist range_dist k \<equiv>
     start_client 4 (spawn n (\<lambda>i. database_transaction_v0 (dist i) (range_dist i) k))"

definition in_table :: "instr \<Rightarrow> bool" where
  "in_table i \<longleftrightarrow> (\<forall>r. i = WriteKeys r \<longrightarrow> 0 \<le> fst r \<and> snd r \<le> num_records)"

lemma database_run:
  assumes "\<And>i. drawn (dist i) (range_dist i)"
  shows "\<exists>own. client_inv 4 (\<lambda>_. {}) own (client_run 4 moves (benchmark_database n dist range_dist k))"
proof (rule patient_run)
  fix t show "disciplined {} {} (spawn n (\<lambda>i. database_transaction_v0 (dist i) (range_dist i) k) t)"
    using database_disciplined [OF assms] by (simp add: spawn_def)
qed (auto simp: patient_def spawn_def database_transaction_v0_def Let_def)

lemma run_program_subset: "set (program (client_run M moves C) u) \<subseteq> set (program C u)"
proof (induction moves arbitrary: C)
  case (Cons m moves)
  from Cons [of "client_step M (fst m) (snd m) C"] step_program_subset [of M "fst m" "snd m" C u] show ?case
    by (auto simp: client_run_def split_beta)
qed (simp add: client_run_def)

text \<open>
  C9. No transaction of \<open>database.cpp\<close> reaches \<open>exit(EXIT_FAILURE)\<close>: whatever values are drawn, whatever
  the number of threads and their interleaving with the steps of the lock, \<open>releaseLock\<close> always finds
  the range its thread has locked.
\<close>
theorem database_never_exits:
  assumes "\<And>i. drawn (dist i) (range_dist i)"
  shows "\<not> exited (client_run 4 moves (benchmark_database n dist range_dist k))"
  using database_run [of dist range_dist, OF assms] client_invD(5) by blast

text \<open>
  C8. The transactions are isolated: at any time the keys a thread has written in the loop it is in
  still carry its name, they are keys of the table, and no other thread is in a loop over an
  overlapping range.
\<close>
theorem database_isolated:
  assumes "\<And>i. drawn (dist i) (range_dist i)"
    and "C = client_run 4 moves (benchmark_database n dist range_dist k)"
    and "cursor C t = Some key" "program C t = WriteKeys r # p"
  shows "(\<forall>j. fst r \<le> j \<and> j < key \<longrightarrow> 0 \<le> j \<and> j < num_records \<and> table C j = Some t) \<and>
    (\<forall>u q p'. u \<noteq> t \<and> program C u = WriteKeys q # p' \<longrightarrow> \<not> closed_overlaps r q)"
proof -
  from database_run [of dist range_dist, OF assms(1)] assms(2) obtain own where C: "client_inv 4 (\<lambda>_. {}) own C" by blast
  note D = client_invD [OF C]
  have own: "q \<in> own u" if "program C u = WriteKeys q # p'" for u q p'
    using D(3) [of u] that by (cases "inside C u") simp_all
  have "set (program C t) \<subseteq> set (spawn n (\<lambda>i. database_transaction_v0 (dist i) (range_dist i) k) t)"
    using run_program_subset [of 4 moves "benchmark_database n dist range_dist k" t]
    unfolding assms(2) by (simp only: start_client_def client.select_convs)
  with assms(4) obtain i where "r = (dist t i, dist t i + range_dist t i)"
    by (fastforce simp: spawn_def database_transaction_v0_def Let_def split: if_splits)
  with drawn_good [OF assms(1), of t i] have "0 \<le> fst r" "snd r \<le> num_records" by (simp_all add: good_range_def)
  moreover from D(4) [of t] assms(3,4) have "key \<le> snd r" "\<forall>j. fst r \<le> j \<and> j < key \<longrightarrow> table C j = Some t"
    by (auto simp: writing_ok_def)
  moreover have "\<not> closed_overlaps r q" if "u \<noteq> t" "program C u = WriteKeys q # p'" for u q p'
    using owned_apart [OF D(1,2) own [OF assms(4)] own [OF that(2)]] that(1) by blast
  ultimately show ?thesis by fastforce
qed

theorem database_never_exits_witness:
  "\<not> exited (client_run 4 (replicate 40 (0, \<lambda>_. 0)) (benchmark_database 2 (\<lambda>_ _. 7) (\<lambda>_ _. 10) 1))"
  by (rule database_never_exits) (simp add: drawn_def)

theorem database_isolated_witness:
  "table (client_run 4 (replicate 23 (0, \<lambda>_. 0)) (benchmark_database 2 (\<lambda>_ _. 7) (\<lambda>_ _. 10) 1)) 8 = Some 0"
proof -
  let ?C = "client_run 4 (replicate 23 (0, \<lambda>_. 0)) (benchmark_database 2 (\<lambda>_ _. 7) (\<lambda>_ _. 10) 1)"
  have c: "cursor ?C 0 = Some 12" by code_simp
  have p: "program ?C 0 = [WriteKeys (7, 17), ReleaseOrExit (7, 17)]" by code_simp
  have "(\<forall>j. fst (7, 17) \<le> j \<and> j < 12 \<longrightarrow> 0 \<le> j \<and> j < num_records \<and> table ?C j = Some 0)"
    using database_isolated [OF _ refl c p] by (simp add: drawn_def)
  then show ?thesis by simp
qed

subsection \<open>The key 0\<close>

text \<open>A thread that waits for a range from 0 on waits for ever: the head sentinel sits there.\<close>

lemma zero_stuck:
  assumes C: "client_inv M G own C" and i: "LockLoop (0, e) \<in> set (program C t)"
  shows "LockLoop (0, e) \<in> set (program (client_step M u rnd C) t)"
proof (cases "program (client_step M u rnd C) t = program C t")
  case False
  with step_program [of M u rnd C t] have u: "u = t" and nx: "client_step M u rnd C = next_instr u C" by blast+
  note D = client_invD [OF C]
  from i obtain x p where P: "program C t = x # p" by (cases "program C t") auto
  have "x \<noteq> LockLoop (0, e)"
  proof
    assume x: "x = LockLoop (0, e)"
    have tl: "program (client_step M u rnd C) t = p" using nx u P by (simp add: next_instr_def)
    from x P u D(5) tl have "inside C t" "pc (threads (sys C) t) = TryReturned True"
      by (cases "inside C t"; cases "pc (threads (sys C) t)";
          auto simp: client_step_def call_try_def go_on_def split: if_splits)+
    moreover from D(3) [of t] P x this have "in_try (G t) (own t) (threads (sys C) t) (0, e) p" by simp
    then have "arg_start (threads (sys C) t) = 0" by (simp add: in_try_def keys_def)
    moreover have "bot < arg_start (threads (sys C) t)"
      by (rule granted_node [OF reachable_system_inv [OF D(1)] \<open>pc (threads (sys C) t) = TryReturned True\<close>])
    ultimately show False by (simp add: bot_word_eq)
  qed
  with i P u nx show ?thesis by (simp add: next_instr_def)
qed (use i in simp)

lemma zero_never_passed:
  assumes "\<And>t. disciplined (G t) {} (P t)" "patient P" "LockLoop (0, e) \<in> set (P t)"
  shows "LockLoop (0, e) \<in> set (program (client_run M moves (start_client M P)) t)"
proof -
  have "(\<exists>own. client_inv M G own (client_run M moves (start_client M P))) \<and>
      patient (program (client_run M moves (start_client M P))) \<and>
      LockLoop (0, e) \<in> set (program (client_run M moves (start_client M P)) t)"
    by (rule run_invariant [OF start_inv [OF assms(1)]])
      (use assms(2,3) patient_step patient_not_refused zero_stuck in \<open>auto simp: start_client_def\<close>)
  then show ?thesis by blast
qed

text \<open>Programs that lock a list of ranges and release one.\<close>

lemma disciplined_lock_all:
  assumes "distinct rs" "\<forall>r\<in>set rs. good_range r" "set rs \<inter> X = {}" "disciplined G (set rs \<union> X) p"
  shows "disciplined G X (map LockLoop rs @ p)" "disciplined G X (map TryLock rs @ p)"
proof -
  have "disciplined G X (map LockLoop rs @ p) \<and> disciplined G X (map TryLock rs @ p)"
    using assms
  proof (induction rs arbitrary: X)
    case (Cons r rs)
    have "set rs \<inter> insert r X = {}" using Cons.prems by auto
    with Cons show ?case by simp
  qed simp
  then show "disciplined G X (map LockLoop rs @ p)" "disciplined G X (map TryLock rs @ p)" by simp_all
qed

lemma disciplined_release_all:
  assumes "distinct rs" "set rs \<subseteq> X" "disciplined G (X - set rs) p"
  shows "disciplined G X (map ReleaseLock rs @ p)"
  using assms
proof (induction rs arbitrary: X)
  case (Cons r rs)
  have "X - {r} - set rs = X - set (r # rs)" "set rs \<subseteq> X - {r}" using Cons.prems by auto
  with Cons show ?case by simp
qed simp

lemma debug_ranges:
  assumes "permutes shuffle" "0 < x" "x \<le> 2 ^ 31"
  shows "(0, 20) \<in> set (createRanges_debug shuffle x)"
    and "r \<in> set (createRanges_debug shuffle x) \<Longrightarrow> good_range r"
proof -
  have eq: "set (createRanges_debug shuffle x) = set (stride_ranges 0 x 10 20)"
    using permutesD(1) [OF assms(1)] by (simp add: createRanges_debug_def)
  show "(0, 20) \<in> set (createRanges_debug shuffle x)"
    unfolding eq using assms(2) by (subst stride_ranges.simps) simp
  assume "r \<in> set (createRanges_debug shuffle x)"
  then have r: "(fst r, snd r) \<in> set (spaced 0 10 20 (nat ((x - 0 + 10 - 1) div 10)))"
    unfolding eq using stride_spaced [of 10 0 x 20] by simp
  from assms(2) have "int (nat ((x - 0 + 10 - 1) div 10)) = (x + 9) div 10" by (simp add: pos_imp_zdiv_nonneg_iff)
  then have "10 * (int (nat ((x - 0 + 10 - 1) div 10)) - 1) \<le> x" by simp
  with spaced_bounds [OF r] assms(3) show "good_range r" by (simp add: good_range_def)
qed

lemma set_strides:
  assumes "0 < n"
  shows "(\<Union>i\<in>{..<n}. set (thread_stride n i rs)) = set rs"
proof -
  have "set (concat (map (\<lambda>i. thread_stride n i rs) [0 ..< n])) = set rs"
    using mset_strides [OF assms] by (metis set_mset_mset)
  then show ?thesis by (simp add: atLeast0LessThan)
qed

text \<open>
  C13. The program of \<open>debug.cpp\<close> does not end: its first range starts at the key 0, which \<open>tryLock\<close>
  never grants, and the loop around \<open>tryLock\<close> does not give up. In every run some thread has
  instructions left, whatever the shuffle, the number of ranges and the interleaving.
\<close>
theorem debug_never_ends:
  assumes "permutes shuffle" "0 < x" "x \<le> 2 ^ 31"
  shows "\<exists>t<20. program (client_run 5 moves (start_client 5 (spawn 20 (debug_thread_v0 (createRanges_debug shuffle x))))) t \<noteq> []"
proof -
  let ?P = "spawn 20 (debug_thread_v0 (createRanges_debug shuffle x))"
  have "disciplined {} {} (?P t)" for t
  proof (cases "t < 20")
    case True
    have "good_range r" if "r \<in> set (thread_stride 20 t (createRanges_debug shuffle x))" for r
      using set_strides [of 20 "createRanges_debug shuffle x"] True that by (intro debug_ranges(2) [OF assms]) auto
    then have "disciplined {} {} (debug_thread_v0 (createRanges_debug shuffle x) t)"
      unfolding debug_thread_v0_def by (intro disciplined_concat) simp
    with True show ?thesis by (simp add: spawn_def)
  qed (simp add: spawn_def)
  moreover have "patient ?P" by (auto simp: patient_def spawn_def debug_thread_v0_def)
  moreover from debug_ranges(1) [OF assms] set_strides [of 20 "createRanges_debug shuffle x"] obtain i where
    i: "i < 20" "(0, 20) \<in> set (thread_stride 20 i (createRanges_debug shuffle x))" by auto
  then have "LockLoop (0, 20) \<in> set (?P i)" by (auto simp: spawn_def debug_thread_v0_def)
  ultimately have "LockLoop (0, 20) \<in> set (program (client_run 5 moves (start_client 5 ?P)) i)"
    by (rule zero_never_passed)
  with i(1) show ?thesis by (auto intro!: exI [of _ i])
qed

theorem debug_never_ends_witness:
  "\<exists>t<20. program (client_run 5 [] (start_client 5 (spawn 20 (debug_thread_v0 (createRanges_debug rev 10000000))))) t \<noteq> []"
  by (rule debug_never_ends [OF permutes_rev]) simp_all

end
