(* ===== verification/V0_Unlink.thy ===== *)
theory V0_Unlink
  imports V0_Phases
begin

text \<open>
  Released nodes leave the list. The thread that has marked a node runs \<open>findDelete\<close>, which does not
  return before the node is cut out of the bottom level; so whenever no thread is inside an
  operation, the bottom level holds the sentinels and the held nodes only.
\<close>

subsection \<open>The search that cuts a node out\<close>

text \<open>As \<open>seek\<close>, for a marked node: the search cannot come to its end while the node is on the chain.\<close>

definition approach :: "('t::linorder) crl \<Rightarrow> addr \<Rightarrow> 't locals \<Rightarrow> find_pc \<Rightarrow> bool" where
  "approach \<sigma> b l f \<longleftrightarrow> f \<noteq> FReturn \<and> seek \<sigma> b l f \<and> (f = FMarked \<and> \<not> marked l \<and> level l = 0 \<longrightarrow> curr l \<noteq> Some b)"

lemma approach_step:
  assumes inv: "heap_inv M \<sigma>" and td: "top_down \<sigma>" and fi: "findExact_inv False M f \<sigma> l"
    and b: "on_chain \<sigma> b" "b \<noteq> head \<sigma>" "rg \<sigma> b = (arg_start l, arg_end l)" "arg_start l < arg_end l"
    and m: "marked0 \<sigma> b" and live: "on_chain \<sigma>' b"
    and s: "find_step (\<lambda>s n. s \<ge> getStart n) (\<lambda>s n. s \<ge> getEnd n) False FindDelete M f \<sigma> l = Some (\<sigma>', l')"
    and ap: "approach \<sigma> b l f"
  shows "\<exists>f'. pc l' = FindDelete f' \<and> approach \<sigma>' b l' f'"
proof -
  from ap have sk: "seek \<sigma> b l f" and nr: "f \<noteq> FReturn" by (simp_all add: approach_def)
  from seek_step [OF inv td fi b _ s sk] live obtain f' where f': "pc l' = FindDelete f'" "seek \<sigma>' b l' f'" by auto
  have stop: "c = b" if "level l = 0" "curr l = Some c" "ahead \<sigma> (Some c) b" "arg_start l < snd (rg \<sigma> c)" "good_ref \<sigma> (level l) c" for c
    using stop_at [OF inv, of b "arg_start l" c] b(3) that by (auto simp: good_ref_def)
  have rd: "snd x" if "read_next \<sigma> (Some b) 0 = Some x" for x using m that by (simp add: marked0_def)
  have "f' \<noteq> FReturn \<and> (f' = FMarked \<and> \<not> marked l' \<and> level l' = 0 \<longrightarrow> curr l' \<noteq> Some b)"
  proof (cases f)
    case FRetry
    with s f'(1) show ?thesis by auto
  next
    case FLevel
    with s f'(1) show ?thesis by (auto simp: bind_eq_Some_conv)
  next
    case FReload
    with s f'(1) show ?thesis by (auto simp: bind_eq_Some_conv)
  next
    case FReget
    with s f'(1) rd show ?thesis by (auto simp: bind_eq_Some_conv)
  next
    case FWhile
    with fi obtain c where c: "curr l = Some c" "good_ref \<sigma> (level l) c" by (auto simp: find_inv_def curr_ok_def)
    then obtain n where n: "heap \<sigma> c = Some n" by (auto simp: good_ref_def tall_iff)
    show ?thesis
    proof (cases "arg_start l \<ge> getStart n")
      case True
      with s FWhile c(1) n f'(1) rd show ?thesis by (auto simp: bind_eq_Some_conv)
    next
      case False
      then have "arg_start l < snd (rg \<sigma> c)" using heap_inv_node [OF inv n] n by (auto simp: rg_def well_formed_node_def)
      moreover have "level l = 0 \<longrightarrow> ahead \<sigma> (Some c) b" using sk FWhile c(1) by (auto simp: seek_def)
      moreover have "c \<noteq> b" using False n b(3) by (auto simp: rg_def)
      ultimately have "level l \<noteq> 0" using stop c by blast
      with False s FWhile c(1) n f'(1) show ?thesis by (auto simp: level_done_def Let_def)
    qed
  next
    case FMarked
    show ?thesis
    proof (cases "marked l")
      case True
      with s FMarked f'(1) show ?thesis by (auto simp: bind_eq_Some_conv split: if_splits)
    next
      case False
      from fi FMarked obtain c where c: "curr l = Some c" "good_ref \<sigma> (level l) c" by (auto simp: find_inv_def curr_ok_def)
      then obtain n where n: "heap \<sigma> c = Some n" by (auto simp: good_ref_def tall_iff)
      show ?thesis
      proof (cases "getEnd n \<le> arg_start l")
        case True
        with s FMarked False c(1) n f'(1) show ?thesis by auto
      next
        case notag: False
        then have "arg_start l < snd (rg \<sigma> c)" using n by (simp add: rg_def)
        moreover have "level l = 0 \<longrightarrow> ahead \<sigma> (Some c) b" using sk FMarked c(1) by (auto simp: seek_def)
        moreover have "level l = 0 \<longrightarrow> c \<noteq> b" using ap FMarked False c(1) by (auto simp: approach_def)
        ultimately have "level l \<noteq> 0" using stop c by blast
        with notag False s FMarked c(1) n f'(1) show ?thesis by (auto simp: level_done_def Let_def)
      qed
    qed
  qed (use nr in simp)
  with f' show ?thesis unfolding approach_def by blast
qed

text \<open>The thread that has marked \<open>b\<close>, until \<open>b\<close> is off the chain.\<close>

definition leaving :: "('t::linorder) crl \<Rightarrow> addr \<Rightarrow> 't locals \<Rightarrow> bool" where
  "leaving \<sigma> b l \<longleftrightarrow> b \<noteq> head \<sigma> \<and> b \<noteq> tail \<sigma> \<and> rg \<sigma> b = (arg_start l, arg_end l) \<and>
     (pc l = RelReget0 \<and> iMarkedIt l \<or> (\<exists>f. pc l = FindDelete f \<and> approach \<sigma> b l f))"

lemma leaving_step:
  assumes inv: "heap_inv M \<sigma>" and td: "top_down \<sigma>" and ti: "thread_inv M \<sigma> l" and s: "code_step M \<sigma> l = Some (\<sigma>', l')"
    and h: "leaving \<sigma> b l" and m: "marked0 \<sigma> b" and ch: "on_chain \<sigma> b" "on_chain \<sigma>' b"
  shows "leaving \<sigma>' b l'"
proof -
  from code_step_ok [OF inv ti] s have ev: "evolves (owned l) \<sigma> \<sigma>'" by (auto simp: step_ok_def)
  note st = rg_stable [OF ev chain_tall [OF inv ch(1)]] evolvesD(1,2) [OF ev]
  from h have b: "b \<noteq> head \<sigma>" "b \<noteq> tail \<sigma>" "rg \<sigma> b = (arg_start l, arg_end l)" by (simp_all add: leaving_def)
  from h consider "pc l = RelReget0" "iMarkedIt l" | f where "pc l = FindDelete f" "approach \<sigma> b l f"
    by (auto simp: leaving_def)
  then show ?thesis
  proof cases
    case 1
    with s have "pc l' = FindDelete FRetry" "arg_start l' = arg_start l" "arg_end l' = arg_end l"
      by (auto simp: code_step_def bind_eq_Some_conv)
    with b st show ?thesis by (simp add: leaving_def approach_def seek_def)
  next
    case 2
    then have "f \<noteq> FReturn" by (simp add: approach_def)
    with s 2 have fs: "find_step (\<lambda>s n. s \<ge> getStart n) (\<lambda>s n. s \<ge> getEnd n) False FindDelete M f \<sigma> l = Some (\<sigma>', l')"
      by (simp add: code_step_def findDelete_step_def)
    from ti 2 have t: "findExact_inv False M f \<sigma> l" "arg_start l < arg_end l" by (simp_all add: thread_inv_def)
    from approach_step [OF inv td t(1) ch(1) b(1,3) t(2) m ch(2) fs 2(2)] find_step_args [OF fs] b st show ?thesis
      by (auto simp: leaving_def)
  qed
qed

lemma leaving_other:
  assumes inv: "heap_inv M \<sigma>" and ti: "thread_inv M \<sigma> k" and s: "code_step M \<sigma> k = Some (\<sigma>', k')"
    and h: "leaving \<sigma> b l" and ch: "on_chain \<sigma> b" "on_chain \<sigma>' b"
  shows "leaving \<sigma>' b l"
proof -
  from code_step_ok [OF inv ti] s have ev: "evolves (owned k) \<sigma> \<sigma>'" by (auto simp: step_ok_def)
  from seek_stable [OF ev code_step_flows [OF inv ti s]] ch(2) have "approach \<sigma> b l f \<Longrightarrow> approach \<sigma>' b l f" for f
    by (auto simp: approach_def)
  with h rg_stable [OF ev chain_tall [OF inv ch(1)]] evolvesD(1,2) [OF ev] show ?thesis by (auto simp: leaving_def)
qed

subsection \<open>Every marked node on the chain is on its way out\<close>

definition swept :: "('t::{linorder,order_bot,order_top}) system \<Rightarrow> bool" where
  "swept S \<longleftrightarrow> (\<forall>b. marked0 (lock S) b \<and> on_chain (lock S) b \<longrightarrow> (\<exists>t. leaving (lock S) b (threads S t)))"

lemma mark_leaves:
  assumes inv: "heap_inv M \<sigma>" and ti: "thread_inv M \<sigma> l" and s: "code_step M \<sigma> l = Some (\<sigma>', l')"
    and b: "marked0 \<sigma>' b" "\<not> marked0 \<sigma> b"
  shows "leaving \<sigma>' b l'"
proof -
  from code_step_ok [OF inv ti] s have ev: "evolves (owned l) \<sigma> \<sigma>'" by (auto simp: step_ok_def)
  from b have pc: "pc l = RelCas0" using code_step_marked0 [OF inv ti _ s] by metis
  with ti obtain n where n: "nodeToRemove l = Some n" "n \<noteq> head \<sigma>" "n \<noteq> tail \<sigma>" "rg \<sigma> n = (arg_start l, arg_end l)" "tall \<sigma> n (mark_level l)"
    by (auto simp: thread_inv_def victim_def)
  from s pc n(1) obtain ok where cas: "cas_next \<sigma> (Some n) 0 (succ l) (succ l) False True = Some (ok, \<sigma>')"
    and l': "l' = l\<lparr>iMarkedIt := ok, pc := RelReget0\<rparr>" by (auto simp: code_step_def bind_eq_Some_conv)
  from cas have "ok \<and> b = n"
  proof (cases rule: cas_next_cases)
    case 1
    with nx_marked0_frame(2) [OF 1(3), of b] b show ?thesis by (auto split: if_splits)
  qed (use b in simp)
  with l' n rg_stable [OF ev n(5)] evolvesD(1,2) [OF ev] show ?thesis by (simp add: leaving_def)
qed

lemma event_swept:
  assumes inv: "system_inv M S" and mi: "marked_inv S" and sw: "swept S"
  shows "swept (do_event M ev S)"
proof (cases ev)
  case (Step u)
  obtain \<sigma>' l' where s: "code_step M (lock S) (threads S u) = Some (\<sigma>', l')"
    "step M (lock S) (threads S u) = (\<sigma>', l')"
    by (rule step_defined [OF inv])
  note i = system_invD [OF inv]
  from mi have td: "top_down (lock S)" by (simp add: marked_inv_def)
  have "\<exists>t. leaving \<sigma>' b (if t = u then l' else threads S t)" if b: "marked0 \<sigma>' b" "on_chain \<sigma>' b" for b
  proof (cases "marked0 (lock S) b")
    case False
    from mark_leaves [OF i(1,2) s(1) b(1) this] show ?thesis by (intro exI [of _ u]) simp
  next
    case True
    from flowsD(2) [OF code_step_flows [OF i(1,2) s(1)] b(2) True] have ch: "on_chain (lock S) b" .
    with sw True obtain t where t: "leaving (lock S) b (threads S t)" unfolding swept_def by blast
    show ?thesis
    proof (cases "t = u")
      case True
      with leaving_step [OF i(1) td i(2) s(1) _ \<open>marked0 (lock S) b\<close> ch b(2)] t show ?thesis by (intro exI [of _ t]) simp
    next
      case False
      with leaving_other [OF i(1,2) s(1) t ch b(2)] show ?thesis by (intro exI [of _ t]) simp
    qed
  qed
  then show ?thesis using Step s(2) by (simp add: swept_def fun_upd_def)
next
  case (CallTry t s e rnd)
  have "leaving \<sigma> b l \<Longrightarrow> \<not> at_rest l" for \<sigma> :: "'a crl" and b l by (auto simp: leaving_def at_rest_def)
  with sw CallTry show ?thesis unfolding swept_def by (auto split: if_splits) metis
next
  case (CallRelease t s e)
  have "leaving \<sigma> b l \<Longrightarrow> \<not> at_rest l" for \<sigma> :: "'a crl" and b l by (auto simp: leaving_def at_rest_def)
  with sw CallRelease show ?thesis unfolding swept_def by (auto split: if_splits) metis
qed

lemma reachable_swept: "reachable M S \<Longrightarrow> swept S"
proof (induction rule: reachable.induct)
  case start
  have "\<not> marked0 (ConcurrentRangeLock M :: 'a crl) a" for a
    using init_marked [of M, where 'a = 'a] unfolding marked_inv_def
    by (simp add: marked0_def read_next_def ConcurrentRangeLock_def initializeHead_def initialize_def
        cell_store_def cell_null_def del: replicate_Suc split: option.split)
  then show ?case by (simp add: swept_def init_system_def)
next
  case (event S ev)
  then show ?case using event_swept reachable_system_inv reachable_marked by blast
qed

text \<open>When no thread is inside an operation, the chain is what the lock holds.\<close>

lemma chain_at_rest:
  assumes "reachable M S" "\<forall>t. at_rest (threads S t)"
  shows "on_chain (lock S) a \<longrightarrow> \<not> marked0 (lock S) a"
    and "on_chain (lock S) a \<longrightarrow> a = head (lock S) \<or> a = tail (lock S) \<or> a \<in> held (lock S)"
proof -
  have "\<not> leaving (lock S) a (threads S t)" for t using assms(2) by (auto simp: leaving_def at_rest_def dest: spec [of _ t])
  with reachable_swept [OF assms(1)] show nm: "on_chain (lock S) a \<longrightarrow> \<not> marked0 (lock S) a" unfolding swept_def by blast
  then show "on_chain (lock S) a \<longrightarrow> a = head (lock S) \<or> a = tail (lock S) \<or> a \<in> held (lock S)"
    by (auto simp: held_def linked_def)
qed

end
