(* ===== verification/V0_Renewal.thy ===== *)
theory V0_Renewal
  imports V0_Unlink
begin

text \<open>
  Nodes that have left the list do not come back. Let \<open>D\<close> be a set of released nodes none of which is
  on the bottom level. Upper levels may still lead to them, but no search comes to the bottom level
  through one of them, so no \<open>tryLock\<close> is refused because of them.
\<close>

subsection \<open>Cut off from the bottom level\<close>

definition avoids :: "addr set \<Rightarrow> addr option \<Rightarrow> bool" where
  "avoids D p \<longleftrightarrow> (\<forall>a\<in>D. p \<noteq> Some a)"

lemma avoids_simps [simp]: "avoids D None" "avoids D (Some a) \<longleftrightarrow> a \<notin> D" "avoids {} p"
  by (auto simp: avoids_def)

definition severed :: "addr set \<Rightarrow> 't crl \<Rightarrow> bool" where
  "severed D \<sigma> \<longleftrightarrow> head \<sigma> \<notin> D \<and> (\<forall>a\<in>D. marked0 \<sigma> a) \<and> (\<forall>a. linked \<sigma> a \<and> a \<notin> D \<longrightarrow> avoids D (nx \<sigma> a))"

lemma severedD:
  assumes "severed D \<sigma>"
  shows "head \<sigma> \<notin> D" "a \<in> D \<Longrightarrow> marked0 \<sigma> a" "linked \<sigma> a \<Longrightarrow> a \<notin> D \<Longrightarrow> avoids D (nx \<sigma> a)"
  using assms by (auto simp: severed_def)

definition search_avoids :: "addr set \<Rightarrow> 't locals \<Rightarrow> find_pc \<Rightarrow> bool" where
  "search_avoids D l f \<longleftrightarrow> (case f of
       FRetry \<Rightarrow> True
     | FReturn \<Rightarrow> avoids D (pred l) \<and> avoids D (curr l)
     | _ \<Rightarrow> avoids D (pred l) \<and> (f \<in> {FWhile, FMarked, FReget} \<and> level l = 0 \<longrightarrow> avoids D (curr l)) \<and>
         (f = FMarked \<longrightarrow> (level l = 0 \<longrightarrow> avoids D (succ l)) \<and> (\<not> marked l \<longrightarrow> avoids D (curr l))))"

lemma severed_keeps:
  assumes ev: "evolves X \<sigma> \<sigma>'" and sv: "severed D \<sigma>"
    and nx: "\<And>a. linked \<sigma>' a \<Longrightarrow> a \<notin> D \<Longrightarrow> linked \<sigma> a \<and> nx \<sigma>' a = nx \<sigma> a \<or> avoids D (nx \<sigma>' a)"
  shows "severed D \<sigma>'"
proof -
  have "marked0 \<sigma>' a" if "a \<in> D" for a
  proof -
    from severedD(2) [OF sv that] obtain q where "read_next \<sigma> (Some a) 0 = Some (q, True)"
      by (auto simp: marked0_def split: option.splits)
    from evolvesD(5) [OF ev this] show ?thesis by (simp add: marked0_def)
  qed
  then show ?thesis using severedD(1,3) [OF sv] nx evolvesD(1) [OF ev] unfolding severed_def by metis
qed

lemma severed_same:
  assumes "evolves {} \<sigma> \<sigma>'" "severed D \<sigma>" "nx \<sigma>' = nx \<sigma>"
  shows "severed D \<sigma>'"
  by (rule severed_keeps [OF assms(1,2)]) (use evolvesD(8) [OF assms(1)] assms(3) in auto)

text \<open>What an unmarked cell says: the node is not one of \<open>D\<close>.\<close>

lemma unmarked_avoids:
  assumes td: "top_down \<sigma>" and sv: "severed D \<sigma>" and rd: "read_next \<sigma> (Some c) k = Some x"
  shows "\<not> snd x \<Longrightarrow> c \<notin> D" and "k = 0 \<Longrightarrow> linked \<sigma> c \<Longrightarrow> c \<notin> D \<Longrightarrow> avoids D (fst x)"
proof -
  assume "\<not> snd x"
  show "c \<notin> D"
  proof
    assume "c \<in> D"
    with severedD(2) [OF sv] td have "marked0 \<sigma> c" "upper_marked \<sigma> c 0" by (auto simp: top_down_def)
    then have "0 < k \<longrightarrow> snd x" using rd unfolding upper_marked_def by blast
    with rd \<open>\<not> snd x\<close> \<open>marked0 \<sigma> c\<close> show False by (cases "k = 0") (auto simp: marked0_def)
  qed
next
  assume "k = 0" "linked \<sigma> c" "c \<notin> D"
  with severedD(3) [OF sv, of c] rd show "avoids D (fst x)" by (auto simp: nx_def)
qed

lemma search_avoids_step:
  assumes inv: "heap_inv M \<sigma>" and td: "top_down \<sigma>" and fi: "find_inv wg ag arrays M f \<sigma> l" and nr: "f \<noteq> FReturn"
    and s: "find_step wg ag arrays K M f \<sigma> l = Some (\<sigma>', l')"
    and sv: "severed D \<sigma>" and sa: "search_avoids D l f"
  shows "severed D \<sigma>' \<and> (\<exists>f'. pc l' = K f' \<and> search_avoids D l' f')"
proof -
  have over: "\<exists>f'. pc (level_done arrays K l) = K f' \<and> search_avoids D (level_done arrays K l) f'"
    if "avoids D (pred l)" "level l = 0 \<longrightarrow> avoids D (curr l)"
    using that by (intro exI [of _ "if level l = 0 then FReturn else FLevel"]) (auto simp: level_done_def search_avoids_def Let_def)
  have load: "avoids D (fst c)" if "pred l = Some p" "pred_ok \<sigma> l" "avoids D (pred l)" "read_next \<sigma> (Some p) (level l) = Some c" "level l = 0" for p c
    using unmarked_avoids(2) [OF td sv that(4,5)] that(1-3) by (auto simp: pred_ok_def)
  show ?thesis
  proof (cases f)
    case FRetry
    with s sv severedD(1) [OF sv] show ?thesis by (auto simp: search_avoids_def intro!: exI [of _ FLevel])
  next
    case FLevel
    with fi obtain p where p: "pred l = Some p" "pred_ok \<sigma> l" by (auto simp: find_inv_def pred_ok_def)
    with s FLevel obtain c where c: "read_next \<sigma> (Some p) (level l) = Some c" "\<sigma>' = \<sigma>"
      "l' = l\<lparr>curr := fst c, pc := K FWhile\<rparr>" by (auto simp: bind_eq_Some_conv)
    with load [OF p _ c(1)] sa FLevel sv show ?thesis by (auto simp: search_avoids_def intro!: exI [of _ FWhile])
  next
    case FReload
    with fi obtain p where p: "pred l = Some p" "pred_ok \<sigma> l" by (auto simp: find_inv_def pred_ok_def)
    with s FReload obtain c where c: "read_next \<sigma> (Some p) (level l) = Some c" "\<sigma>' = \<sigma>"
      "l' = l\<lparr>curr := fst c, pc := K FReget\<rparr>" by (auto simp: bind_eq_Some_conv)
    with load [OF p _ c(1)] sa FReload sv show ?thesis by (auto simp: search_avoids_def intro!: exI [of _ FReget])
  next
    case FReget
    with fi obtain c where c: "curr l = Some c" "linked \<sigma> c" by (auto simp: find_inv_def curr_ok_def good_ref_def)
    with s FReget obtain x where x: "read_next \<sigma> (Some c) (level l) = Some x" "\<sigma>' = \<sigma>"
      "l' = l\<lparr>succ := fst x, marked := snd x, pc := K FMarked\<rparr>" by (auto simp: bind_eq_Some_conv)
    with unmarked_avoids [OF td sv x(1)] c sa FReget sv show ?thesis
      by (auto simp: search_avoids_def intro!: exI [of _ FMarked])
  next
    case FWhile
    with fi obtain c where c: "curr l = Some c" "linked \<sigma> c" "tall \<sigma> c (level l)" by (auto simp: find_inv_def curr_ok_def good_ref_def)
    then obtain n where n: "heap \<sigma> c = Some n" by (auto simp: tall_iff)
    show ?thesis
    proof (cases "wg (arg_start l) n")
      case True
      with s FWhile c(1) n obtain x where x: "read_next \<sigma> (Some c) (level l) = Some x" "\<sigma>' = \<sigma>"
        "l' = l\<lparr>succ := fst x, marked := snd x, pc := K FMarked\<rparr>" by (auto simp: bind_eq_Some_conv)
      with unmarked_avoids [OF td sv x(1)] c sa FWhile sv show ?thesis
        by (auto simp: search_avoids_def intro!: exI [of _ FMarked])
    next
      case False
      with s FWhile c(1) n sa sv over show ?thesis by (auto simp: search_avoids_def)
    qed
  next
    case FMarked
    show ?thesis
    proof (cases "marked l")
      case True
      from fi FMarked have ok: "level l \<le> M" "pred_ok \<sigma> l" "succ_ok \<sigma> l" by (simp_all add: find_inv_def)
      from ok(2) obtain p where p: "pred l = Some p" by (auto simp: pred_ok_def)
      from s FMarked True obtain ok' where cas: "cas_next \<sigma> (pred l) (level l) (curr l) (succ l) False False = Some (ok', \<sigma>')"
        and l': "l' = l\<lparr>pc := K (if ok' then FReload else FRetry)\<rparr>" by (auto simp: bind_eq_Some_conv)
      from snip_keeps_inv [OF inv ok True cas] have ev: "evolves {} \<sigma> \<sigma>'" by simp
      from cas [unfolded p] have "severed D \<sigma>'"
      proof (cases rule: cas_next_cases)
        case 1
        show ?thesis
          by (rule severed_keeps [OF ev sv])
            (use nx_marked0_frame(1) [OF 1(3)] evolvesD(8) [OF ev] sa FMarked in \<open>auto simp: search_avoids_def split: if_splits\<close>)
      qed (use sv in simp)
      with l' sa FMarked show ?thesis
        by (auto simp: search_avoids_def intro!: exI [of _ "if ok' then FReload else FRetry"])
    next
      case False
      from fi FMarked obtain c where c: "curr l = Some c" "tall \<sigma> c (level l)" by (auto simp: find_inv_def curr_ok_def good_ref_def)
      then obtain n where n: "heap \<sigma> c = Some n" by (auto simp: tall_iff)
      show ?thesis
      proof (cases "ag (arg_start l) n")
        case True
        with s FMarked False c(1) n sa sv show ?thesis by (auto simp: search_avoids_def intro!: exI [of _ FWhile])
      next
        case notag: False
        with s FMarked False c(1) n sa sv over show ?thesis by (auto simp: search_avoids_def)
      qed
    qed
  qed (use nr in simp)
qed

subsection \<open>Threads\<close>

definition thread_avoids :: "addr set \<Rightarrow> 't locals \<Rightarrow> bool" where
  "thread_avoids D l \<longleftrightarrow> (case pc l of
       FindInsert relink f \<Rightarrow> search_avoids D l f
     | FindExact f \<Rightarrow> search_avoids D l f
     | FindDelete f \<Rightarrow> search_avoids D l f
     | TryAlloc \<Rightarrow> avoids D (preds l 0) \<and> avoids D (succs l 0)
     | TryCas0 \<Rightarrow> avoids D (preds l 0) \<and> avoids D (succs l 0)
     | _ \<Rightarrow> True)"

text \<open>A refused range overlaps a node outside of \<open>D\<close>.\<close>

definition refused_outside :: "addr set \<Rightarrow> ('t::linorder) crl \<Rightarrow> 't locals \<Rightarrow> bool" where
  "refused_outside D \<sigma> l \<longleftrightarrow> (pc l = TryReturned False \<longrightarrow>
     (\<exists>a. linked \<sigma> a \<and> tall \<sigma> a 0 \<and> a \<notin> D \<and> closed_overlaps (arg_start l, arg_end l) (rg \<sigma> a)))"

lemma refused_outside_stable: "evolves X \<sigma> \<sigma>' \<Longrightarrow> refused_outside D \<sigma> l \<Longrightarrow> refused_outside D \<sigma>' l"
  unfolding refused_outside_def by (metis evolvesD(4) tall_stable rg_stable)

lemma insert_result_avoids:
  assumes inv: "heap_inv M \<sigma>" and ti: "thread_inv M \<sigma> l" and s: "code_step M \<sigma> l = Some (\<sigma>', l')"
    and pc: "pc l = FindInsert relink FReturn" and sa: "search_avoids D l FReturn"
  shows "\<sigma>' = \<sigma> \<and> thread_avoids D l' \<and> refused_outside D \<sigma>' l'"
proof -
  from pc ti have fi: "findInsert_inv M FReturn \<sigma> l" "legal_args l" by (simp_all add: thread_inv_def)
  then have arr: "pred l = preds l 0" "curr l = succs l 0" "arrays_from M 0 \<sigma> l" by (simp_all add: find_inv_def)
  then obtain p c n m where p: "pred l = Some p" "curr l = Some c" "heap \<sigma> p = Some n" "heap \<sigma> c = Some m"
    by (fastforce simp: arrays_from_def good_ref_def tall_iff)
  note room = no_room_neighbour [OF inv fi(2) p(1,3,2,4) fi(1)]
  from sa p(1,2) have "p \<notin> D" "c \<notin> D" by (simp_all add: search_avoids_def)
  with room have "refused_outside D \<sigma> l'" if "\<not> (n_end n < arg_start l \<and> arg_end l < n_start m)"
    "arg_start l' = arg_start l" "arg_end l' = arg_end l" using that by (auto simp: refused_outside_def)
  moreover have "search_avoids D l FReturn" by (rule sa)
  ultimately show ?thesis using s pc p arr(1,2)
    by (auto simp: code_step_def findInsert_step_def findInsert_result_def thread_avoids_def search_avoids_def
        refused_outside_def split: if_splits)
qed

lemma release_avoids:
  assumes ti: "thread_inv M \<sigma> l" and s: "code_step M \<sigma> l = Some (\<sigma>', l')"
    and sv: "severed D \<sigma>" and ev: "evolves (owned l) \<sigma> \<sigma>'"
    and pc: "pc l \<in> {RelMark, RelMarkWhile, RelMarkReget, RelCas0, RelReget0}"
  shows "severed D \<sigma>' \<and> thread_avoids D l' \<and> refused_outside D \<sigma>' l'"
proof -
  have "owned l = {}" using pc by (auto simp: owned_def)
  moreover have "nx \<sigma>' = nx \<sigma>" using quiet_step_nx [OF ti s] pc by (auto simp: searching_def)
  ultimately have "severed D \<sigma>'" using severed_same ev sv by metis
  moreover have "pc l' \<in> {RelMark, RelMarkWhile, RelMarkReget, RelCas0, RelReget0, RelReturned False, FindDelete FRetry}"
    using pc s by (elim insertE emptyE) (auto simp: code_step_def bind_eq_Some_conv split: if_splits)
  ultimately show ?thesis by (auto simp: thread_avoids_def search_avoids_def refused_outside_def)
qed

lemma avoids_step:
  assumes inv: "heap_inv M \<sigma>" and td: "top_down \<sigma>" and ti: "thread_inv M \<sigma> l" and s: "code_step M \<sigma> l = Some (\<sigma>', l')"
    and sv: "severed D \<sigma>" and ta: "thread_avoids D l" and ro: "refused_outside D \<sigma> l"
  shows "severed D \<sigma>' \<and> thread_avoids D l' \<and> refused_outside D \<sigma>' l'"
proof -
  from code_step_ok [OF inv ti] s have ev: "evolves (owned l) \<sigma> \<sigma>'" by (auto simp: step_ok_def)
  have found: ?thesis if "\<exists>f'. pc l' = K f' \<and> search_avoids D l' f'" "severed D \<sigma>'" "K = FindInsert r \<or> K = FindExact \<or> K = FindDelete" for K r
    using that by (auto simp: thread_avoids_def refused_outside_def)
  show ?thesis
  proof (cases "pc l")
    case (FindInsert relink f)
    from ta FindInsert have sa: "search_avoids D l f" by (simp add: thread_avoids_def)
    show ?thesis
    proof (cases "f = FReturn")
      case True
      with insert_result_avoids [OF inv ti s] FindInsert sa sv show ?thesis by auto
    next
      case False
      with s FindInsert have fs: "find_step (\<lambda>s n. s > getStart n) (\<lambda>s n. s \<ge> getStart n) True (FindInsert relink) M f \<sigma> l = Some (\<sigma>', l')"
        by (simp add: code_step_def findInsert_step_def)
      from ti FindInsert have "findInsert_inv M f \<sigma> l" by (simp add: thread_inv_def)
      from search_avoids_step [OF inv td this False fs sv sa] show ?thesis by (intro found) auto
    qed
  next
    case (FindExact f)
    from ta FindExact have sa: "search_avoids D l f" by (simp add: thread_avoids_def)
    show ?thesis
    proof (cases "f = FReturn")
      case True
      with s FindExact sv show ?thesis
        by (auto simp: code_step_def findExact_step_def thread_avoids_def refused_outside_def bind_eq_Some_conv split: if_splits)
    next
      case False
      with s FindExact have fs: "find_step (\<lambda>s n. s \<ge> getStart n) (\<lambda>s n. s \<ge> getEnd n) True FindExact M f \<sigma> l = Some (\<sigma>', l')"
        by (simp add: code_step_def findExact_step_def)
      from ti FindExact have "findExact_inv True M f \<sigma> l" by (simp add: thread_inv_def)
      from search_avoids_step [OF inv td this False fs sv sa] show ?thesis by (intro found) auto
    qed
  next
    case (FindDelete f)
    from ta FindDelete have sa: "search_avoids D l f" by (simp add: thread_avoids_def)
    show ?thesis
    proof (cases "f = FReturn")
      case True
      have "owned l = {}" using FindDelete by (simp add: owned_def)
      with ev have ev: "evolves {} \<sigma> \<sigma>'" by simp
      from s FindDelete True have "nx \<sigma>' = nx \<sigma>" "pc l' = RelReturned True"
        by (auto simp: code_step_def findDelete_step_def nx_def read_next_def deref_def)
      with severed_same [OF ev sv] show ?thesis by (simp add: thread_avoids_def refused_outside_def)
    next
      case False
      with s FindDelete have fs: "find_step (\<lambda>s n. s \<ge> getStart n) (\<lambda>s n. s \<ge> getEnd n) False FindDelete M f \<sigma> l = Some (\<sigma>', l')"
        by (simp add: code_step_def findDelete_step_def)
      from ti FindDelete have "findExact_inv False M f \<sigma> l" by (simp add: thread_inv_def)
      from search_avoids_step [OF inv td this False fs sv sa] show ?thesis by (intro found) auto
    qed
  next
    case TryAlloc
    have "owned l = {}" using TryAlloc by (simp add: owned_def)
    with ev have ev: "evolves {} \<sigma> \<sigma>'" by simp
    from s TryAlloc have \<sigma>': "\<sigma>' = \<sigma>\<lparr>heap := (heap \<sigma>)(brk \<sigma> \<mapsto> build_node l), brk := brk \<sigma> + 1\<rparr>"
      and l': "pc l' = TryCas0" "preds l' = preds l" "succs l' = succs l" by (auto simp: code_step_def)
    have "nx \<sigma>' a = nx \<sigma> a" if "linked \<sigma> a" for a
    proof -
      have "heap \<sigma> a \<noteq> None" using that chain_tall [OF inv] by (auto simp: linked_def tall_iff dest: marked0_heap)
      then have "a \<noteq> brk \<sigma>" using inv by (auto simp: heap_inv_def)
      then show ?thesis by (simp add: \<sigma>' nx_def read_next_def)
    qed
    with evolvesD(8) [OF ev] have "severed D \<sigma>'" by (intro severed_keeps [OF ev sv]) auto
    with l' ta TryAlloc show ?thesis by (simp add: thread_avoids_def refused_outside_def)
  next
    case TryCas0
    with ti obtain p n where p: "preds l 0 = Some p" "newNode l = Some n" "\<not> linked \<sigma> n" "heap \<sigma> n = Some (build_node l)"
      by (auto simp: thread_inv_def private_node_def arrays_from_def)
    from ta TryCas0 have av: "avoids D (succs l 0)" by (simp add: thread_avoids_def)
    have nD: "n \<notin> D" using severedD(2) [OF sv] p(3) by (auto simp: linked_def)
    from s TryCas0 p obtain ok where cas: "cas_next \<sigma> (Some p) 0 (succs l 0) (Some n) False False = Some (ok, \<sigma>')"
      and l': "l' = (if ok then l\<lparr>link_level := 1, pc := TryLink\<rparr> else l\<lparr>pc := FindInsert False FRetry\<rparr>)"
      by (auto simp: code_step_def bind_eq_Some_conv)
    from cas have "severed D \<sigma>'"
    proof (cases rule: cas_next_cases)
      case 1
      have "nx \<sigma> n = succs l 0" using p(4) by (simp add: nx_def read_next_def)
      moreover have "owned l = {n}" using TryCas0 p(2) by (simp add: claim_defs)
      ultimately have "linked \<sigma> a \<and> nx \<sigma>' a = nx \<sigma> a \<or> avoids D (nx \<sigma>' a)" if "linked \<sigma>' a" for a
        using nx_marked0_frame(1) [OF 1(3)] evolvesD(8) [OF ev that] av nD by (cases "a = p"; cases "a = n") auto
      then show ?thesis by (intro severed_keeps [OF ev sv]) blast
    qed (use sv in simp)
    then show ?thesis using l' by (auto simp: thread_avoids_def search_avoids_def refused_outside_def)
  next
    case (TryReturned b)
    with s sv ta ro show ?thesis by (simp add: code_step_def)
  next
    case TryLink
    have "nx \<sigma>' = nx \<sigma>" using quiet_step_nx [OF ti s] TryLink by (simp add: searching_def)
    moreover have "owned l = {}" using TryLink by (simp add: owned_def)
    ultimately have "severed D \<sigma>'" using severed_same ev sv by metis
    moreover have "pc l' = TryLink \<or> pc l' = TryReturned True \<or> pc l' = FindInsert True FRetry"
      using s TryLink by (auto simp: code_step_def bind_eq_Some_conv split: if_splits)
    ultimately show ?thesis by (auto simp: thread_avoids_def search_avoids_def refused_outside_def)
  qed (use s sv ta ro release_avoids [OF ti s sv ev] in \<open>simp_all add: code_step_def\<close>)
qed

subsection \<open>Reachable states\<close>

definition renewed :: "addr set \<Rightarrow> ('t::{linorder,order_bot,order_top}) system \<Rightarrow> bool" where
  "renewed D S \<longleftrightarrow> severed D (lock S) \<and> (\<forall>t. thread_avoids D (threads S t) \<and> refused_outside D (lock S) (threads S t))"

lemma calls_avoid [simp]:
  "thread_avoids D (call_tryLock M s e rnd l)" "refused_outside D \<sigma> (call_tryLock M s e rnd l)"
  "thread_avoids D (call_releaseLock s e l)" "refused_outside D \<sigma> (call_releaseLock s e l)"
  by (simp_all add: thread_avoids_def search_avoids_def refused_outside_def call_tryLock_def call_releaseLock_def)

lemma event_renewed:
  assumes inv: "system_inv M S" and mi: "marked_inv S" and r: "renewed D S"
  shows "renewed D (do_event M ev S)"
proof (cases ev)
  case (Step u)
  obtain \<sigma>' l' where s: "code_step M (lock S) (threads S u) = Some (\<sigma>', l')"
    "step M (lock S) (threads S u) = (\<sigma>', l')"
    by (rule step_defined [OF inv])
  note i = system_invD [OF inv]
  from mi have td: "top_down (lock S)" by (simp add: marked_inv_def)
  from code_step_ok [OF i(1) i(2) [of u]] s(1) have ev: "evolves (owned (threads S u)) (lock S) \<sigma>'" by (auto simp: step_ok_def)
  from r have a: "severed D (lock S)" "thread_avoids D (threads S t)" "refused_outside D (lock S) (threads S t)" for t
    by (simp_all add: renewed_def)
  from avoids_step [OF i(1) td i(2) s(1) a] refused_outside_stable [OF ev a(3)] a(2) show ?thesis
    using Step s(2) by (simp add: renewed_def)
qed (use r in \<open>auto simp: renewed_def\<close>)

text \<open>A lock at rest that holds nothing starts again: what it has released is cut off.\<close>

lemma renewed_at_rest:
  assumes "reachable M S" "\<forall>t. at_rest (threads S t)" "held (lock S) = {}"
    and D: "D = {a. marked0 (lock S) a}" and nr: "\<forall>t. pc (threads S t) \<noteq> TryReturned False"
  shows "renewed D S" "linked (lock S) a \<Longrightarrow> a \<notin> D \<Longrightarrow> a = head (lock S) \<or> a = tail (lock S)"
proof -
  note c = chain_at_rest [OF assms(1,2)]
  show "linked (lock S) a \<Longrightarrow> a \<notin> D \<Longrightarrow> a = head (lock S) \<or> a = tail (lock S)"
    using c(2) [of a] assms(3) D by (auto simp: linked_def)
  have "avoids D (nx (lock S) b)" if "linked (lock S) b" "b \<notin> D" for b
  proof -
    from that D have "on_chain (lock S) b" by (simp add: linked_def)
    then have "on_chain (lock S) q" if "nx (lock S) b = Some q" for q
      using that unfolding on_chain_def by (rule reach_step)
    with c(1) D show ?thesis by (auto simp: avoids_def)
  qed
  moreover have "head (lock S) \<notin> D" using c(1) [of "head (lock S)"] D by (auto simp: on_chain_def)
  ultimately have "severed D (lock S)" using D by (simp add: severed_def)
  moreover have "thread_avoids D (threads S t)" for t
    using assms(2) by (auto simp: thread_avoids_def at_rest_def dest: spec [of _ t] split: pc.split)
  ultimately show "renewed D S" using nr by (simp add: renewed_def refused_outside_def)
qed

lemma reachable_renewed_none: "reachable M S \<Longrightarrow> renewed {} S"
proof (induction rule: reachable.induct)
  case start
  then show ?case
    by (auto simp: renewed_def severed_def init_system_def thread_avoids_def refused_outside_def fresh_locals_def)
next
  case (event S ev)
  then show ?case using event_renewed reachable_system_inv reachable_marked by blast
qed

end
