(* ===== verification/App_Exclusive.thy ===== *)
theory App_Exclusive
  imports App_Database V0_Renewal
begin

text \<open>
  Programs that lock each range once, all of them disjoint: the drivers of \<open>gtest.cpp\<close>, \<open>gtest2.cpp\<close>
  and \<open>scalability.cpp\<close>, which ignore the result of \<open>tryLock\<close>. None of their calls is refused.
\<close>

subsection \<open>New nodes\<close>

lemma linked_tall:
  assumes "heap_inv M \<sigma>" "linked \<sigma> a"
  shows "tall \<sigma> a 0"
proof (cases "on_chain \<sigma> a")
  case False
  with assms(2) have "marked0 \<sigma> a" by (simp add: linked_def)
  then show ?thesis by (auto simp: marked0_def tall_def split: option.splits)
qed (rule chain_tall [OF assms(1)])

text \<open>A step links at most one node, and it does so when it acquires the range of the node.\<close>

lemma new_linked:
  assumes inv: "heap_inv M \<sigma>" and ti: "thread_inv M \<sigma> l" and s: "code_step M \<sigma> l = Some (\<sigma>', l')" and a: "linked \<sigma>' a"
  shows "linked \<sigma> a \<and> rg \<sigma>' a = rg \<sigma> a \<or> action_of l l' = Acquire (args l) \<and> rg \<sigma>' a = args l"
proof (cases "linked \<sigma> a")
  case True
  from code_step_ok [OF inv ti] s have "evolves (owned l) \<sigma> \<sigma>'" by (auto simp: step_ok_def)
  from rg_stable [OF this linked_tall [OF inv True]] True show ?thesis by simp
next
  case False
  from code_step_ok [OF inv ti] s have ev: "evolves (owned l) \<sigma> \<sigma>'" and ti': "thread_inv M \<sigma>' l'" by (auto simp: step_ok_def)
  from evolvesD(8) [OF ev a] False have o: "a \<in> owned l" by blast
  then have pc: "pc l = TryCas0" and n: "newNode l = Some a" by (auto simp: claim_defs split: if_splits)
  from ti pc obtain p where p: "preds l 0 = Some p" by (auto simp: thread_inv_def gap_def)
  from s pc n p obtain ok where cas: "cas_next \<sigma> (Some p) 0 (succs l 0) (Some a) False False = Some (ok, \<sigma>')"
    and l': "l' = (if ok then l\<lparr>link_level := 1, pc := TryLink\<rparr> else l\<lparr>pc := FindInsert False FRetry\<rparr>)"
    by (auto simp: code_step_def bind_eq_Some_conv)
  have ok
  proof (rule ccontr)
    assume "\<not> ok"
    with cas have "\<sigma>' = \<sigma>" by (auto elim: cas_next_cases)
    with a False show False by simp
  qed
  with ti' l' n have "rg \<sigma>' a = args l" by (auto simp: thread_inv_def published_def)
  moreover have "action_of l l' = Acquire (args l)" using pc l' \<open>ok\<close> by (simp add: action_of_def)
  ultimately show ?thesis by simp
qed

subsection \<open>Exclusive programs\<close>

fun lock_range :: "instr \<Rightarrow> int_range list" where
  "lock_range (TryLock r) = [r]"
| "lock_range (LockLoop r) = [r]"
| "lock_range _ = []"

definition lock_ranges :: "instr list \<Rightarrow> int_range list" where
  "lock_ranges p = concat (map lock_range p)"

lemma lock_ranges_simps [simp]:
  "lock_ranges [] = []" "lock_ranges (i # p) = lock_range i @ lock_ranges p" "lock_ranges (p @ q) = lock_ranges p @ lock_ranges q"
  by (simp_all add: lock_ranges_def)

definition exclusive :: "(nat \<Rightarrow> instr list) \<Rightarrow> bool" where
  "exclusive P \<longleftrightarrow> (\<forall>t. distinct (lock_ranges (P t)) \<and> (\<forall>r\<in>set (lock_ranges (P t)). 0 < fst r \<and> good_range r)) \<and>
     (\<forall>t u. \<forall>r\<in>set (lock_ranges (P t)). \<forall>q\<in>set (lock_ranges (P u)). (t, r) \<noteq> (u, q) \<longrightarrow> \<not> closed_overlaps r q)"

text \<open>The ranges a thread has still to insert into the list.\<close>

definition inserted :: "client \<Rightarrow> nat \<Rightarrow> bool" where
  "inserted C t \<longleftrightarrow> inside C t \<and> (publishing (threads (sys C) t) \<or> pc (threads (sys C) t) = TryReturned True)"

fun pending :: "bool \<Rightarrow> instr list \<Rightarrow> int_range set" where
  "pending b (TryLock r # p) = set (lock_ranges p) \<union> (if b then {} else {r})"
| "pending b (LockLoop r # p) = set (lock_ranges p) \<union> (if b then {} else {r})"
| "pending b p = set (lock_ranges p)"

text \<open>
  No node outside of \<open>D\<close>, the nodes of earlier iterations, meets a range that is still to be inserted.
\<close>

definition unmet :: "addr set \<Rightarrow> client \<Rightarrow> bool" where
  "unmet D C \<longleftrightarrow> (\<forall>a. linked (lock (sys C)) a \<and> a \<notin> D \<and> a \<noteq> head (lock (sys C)) \<and> a \<noteq> tail (lock (sys C)) \<longrightarrow>
     (\<forall>t. \<forall>r\<in>pending (inserted C t) (program C t). \<not> closed_overlaps (rg (lock (sys C)) a) (keys r)))"

lemma exclusiveD:
  assumes "exclusive P"
  shows "distinct (lock_ranges (P t))" "r \<in> set (lock_ranges (P t)) \<Longrightarrow> 0 < fst r" "r \<in> set (lock_ranges (P t)) \<Longrightarrow> good_range r"
    and "r \<in> set (lock_ranges (P t)) \<Longrightarrow> q \<in> set (lock_ranges (P u)) \<Longrightarrow> (t, r) \<noteq> (u, q) \<Longrightarrow> \<not> closed_overlaps r q"
  using assms unfolding exclusive_def by blast+

lemma pending_False [simp]: "pending False p = set (lock_ranges p)"
  by (cases "(False, p)" rule: pending.cases) auto

lemma pending_subset: "pending b p \<subseteq> set (lock_ranges p)"
  by (cases "(b, p)" rule: pending.cases) auto

lemma pending_Cons: "set (lock_ranges p) \<subseteq> pending b (i # p)"
  by (cases i) auto

lemma exclusive_not_refused:
  assumes C: "client_inv M G own C" and ex: "exclusive (program C)" and un: "unmet D C" and rn: "renewed D (sys C)"
    and t: "inside C t"
  shows "pc (threads (sys C) t) \<noteq> TryReturned False"
proof
  assume pc: "pc (threads (sys C) t) = TryReturned False"
  note D = client_invD [OF C]
  note sent = heap_inv_sentinels(2,3) [OF system_invD(1) [OF reachable_system_inv [OF D(1)]]]
  have "\<not> in_release (G t) (own t) (sys C) t r p" for r p
    using pc by (auto simp: in_release_def releasing_def succeeds_def)
  with D(3) [of t] t obtain r p where P: "program C t = TryLock r # p \<or> program C t = LockLoop r # p"
    and fit: "in_try (G t) (own t) (threads (sys C) t) r p"
    by (cases "(G t, own t, sys C, t, inside C t, program C t)" rule: thread_fits.cases) auto
  from P have rl: "r \<in> set (lock_ranges (program C t))" by auto
  note r = exclusiveD(2,3) [OF ex rl]
  from fit have a: "args (threads (sys C) t) = keys r" by (simp add: in_try_def)
  from pc have "\<not> inserted C t" by (auto simp: inserted_def publishing_def)
  with P have pend: "r \<in> pending (inserted C t) (program C t)" by auto
  from rn pc a obtain n where n: "linked (lock (sys C)) n" "n \<notin> D" "closed_overlaps (keys r) (rg (lock (sys C)) n)"
    by (auto simp: renewed_def refused_outside_def)
  have "\<not> closed_overlaps (keys r) (bot, bot)"
  proof -
    have "(word_of_int 0 :: 64 word) < word_of_int (fst r)" using r by (subst key_less) (auto simp: good_range_def)
    then show ?thesis by (simp add: closed_overlaps_def keys_def bot_word_eq not_le)
  qed
  moreover have "\<not> closed_overlaps (keys r) (top, top)"
    using keys_good(3) [OF r(2)] by (simp add: closed_overlaps_def not_le)
  ultimately have "n \<noteq> head (lock (sys C))" "n \<noteq> tail (lock (sys C))" using n(3) sent by auto
  with un n(1,2) pend have "\<not> closed_overlaps (rg (lock (sys C)) n) (keys r)" unfolding unmet_def by blast
  with n(3) show False by (auto simp: closed_overlaps_def)
qed

lemma exclusive_tl:
  assumes "exclusive P" "\<And>u. P' u = P u \<or> P' u = tl (P u)"
  shows "exclusive P'"
proof -
  have sub: "set (lock_ranges (P' u)) \<subseteq> set (lock_ranges (P u))" for u
    using assms(2) [of u] by (cases "P u") auto
  have "distinct (lock_ranges (P' u))" for u
    using assms(2) [of u] exclusiveD(1) [OF assms(1), of u] by (cases "P u") auto
  with sub exclusiveD(2-4) [OF assms(1)] show ?thesis unfolding exclusive_def by blast
qed

text \<open>What a step of a client does, seen from the lock.\<close>

lemma client_step_forms:
  assumes C: "client_inv M G own C"
  obtains "client_step M t rnd C = next_instr t C" "program C t \<noteq> []"
    | "client_step M t rnd C = go_on M t C" "inside C t" "\<not> at_rest (threads (sys C) t)"
    | r where "client_step M t rnd C = call_try M t rnd r C" "\<not> inside C t" "at_rest (threads (sys C) t)"
    | r where "client_step M t rnd C = call_release M t r C" "\<not> inside C t" "at_rest (threads (sys C) t)"
    | "sys (client_step M t rnd C) = sys C" "program (client_step M t rnd C) = program C"
      "\<And>u. inserted (client_step M t rnd C) u \<longleftrightarrow> inserted C u"
proof (cases "inside C t")
  case False
  note D = client_invD [OF C]
  from D(3) [of t] False have rest: "at_rest (threads (sys C) t)" by simp
  show thesis
  proof (cases "program C t")
    case Nil
    then show thesis using that(5) by (simp add: client_step_def)
  next
    case (Cons i p)
    show thesis
    proof (cases "\<exists>r. i = WriteKeys r")
      case True
      then obtain r where W: "program C t = WriteKeys r # p" using Cons by auto
      consider "client_step M t rnd C = next_instr t C" | "\<exists>x y. client_step M t rnd C = C\<lparr>table := x, cursor := y\<rparr>"
      proof (cases "cursor C t")
        case None
        then have "client_step M t rnd C = C\<lparr>table := table C, cursor := (cursor C)(t \<mapsto> fst r)\<rparr>"
          using W D(5) by (simp add: client_step_def)
        then show thesis using that by blast
      next
        case (Some k)
        then show thesis using that W D(5) by (cases "k < snd r") (auto simp: client_step_def)
      qed
      then show thesis using that(1,5) W by cases (auto simp: inserted_def)
    next
      case not: False
      with Cons False D(5) rest show thesis
        by (cases i) (auto simp: client_step_def intro: that)
    qed
  qed
next
  case True
  note D = client_invD [OF C]
  note out = that
  have again: thesis if "client_step M t rnd C = C\<lparr>inside := (inside C)(t := False)\<rparr>" "pc (threads (sys C) t) = TryReturned False"
    using that by (intro out(5)) (auto simp: inserted_def publishing_def)
  have rel: thesis if P: "program C t = ReleaseLock r # p \<or> program C t = ReleaseOrExit r # p" for r p
  proof -
    from D(3) [of t] True P have fit: "in_release (G t) (own t) (sys C) t r p" by auto
    show thesis
    proof (cases "\<exists>b. pc (threads (sys C) t) = RelReturned b")
      case True
      then obtain b where b: "pc (threads (sys C) t) = RelReturned b" ..
      with release_returned [OF fit b] P \<open>inside C t\<close> D(5) show thesis
        by (intro out(1)) (auto simp: client_step_def)
    next
      case False
      then have "client_step M t rnd C = go_on M t C"
        using P \<open>inside C t\<close> D(5) by (elim disjE; cases "pc (threads (sys C) t)"; simp add: client_step_def)
      with in_release_moves [OF fit] False True show thesis by (intro out(2)) auto
    qed
  qed
  have att: thesis if P: "program C t = TryLock r # p \<or> program C t = LockLoop r # p" for r p
  proof -
    from D(3) [of t] True P have fit: "in_try (G t) (own t) (threads (sys C) t) r p" by auto
    show thesis
    proof (cases "\<exists>b. pc (threads (sys C) t) = TryReturned b")
      case True
      then obtain b where b: "pc (threads (sys C) t) = TryReturned b" ..
      then have "client_step M t rnd C = next_instr t C \<or> \<not> b \<and> client_step M t rnd C = C\<lparr>inside := (inside C)(t := False)\<rparr>"
        using P \<open>inside C t\<close> D(5) by (cases b) (auto simp: client_step_def)
      with b P show thesis using out(1) again by auto
    next
      case False
      then have "client_step M t rnd C = go_on M t C"
        using P \<open>inside C t\<close> D(5) by (elim disjE; cases "pc (threads (sys C) t)"; simp add: client_step_def)
      with in_try_moves [OF fit] False True show thesis by (intro out(2)) auto
    qed
  qed
  from D(3) [of t] True obtain i p where P: "program C t = i # p" "\<forall>r. i \<noteq> WriteKeys r"
    by (cases "(G t, own t, sys C, t, inside C t, program C t)" rule: thread_fits.cases) auto
  with att rel show thesis by (cases i) auto
qed

text \<open>The pending ranges shrink, and lose the range a step acquires.\<close>

lemma pending_mono: "(b \<Longrightarrow> b') \<Longrightarrow> pending b' p \<subseteq> pending b p"
  by (cases "(b, p)" rule: pending.cases) auto

lemma go_on_inserted:
  assumes t: "\<not> at_rest (threads (sys C) t)" "inserted C t"
    and s: "code_step M (lock (sys C)) (threads (sys C) t) = Some (\<sigma>', l')" "threads (sys (go_on M t C)) t = l'"
  shows "inserted (go_on M t C) t"
proof -
  from t have "publishing (threads (sys C) t)" by (auto simp: inserted_def at_rest_def)
  from publishing_step(2) [OF s(1) this] t(2) s(2) show ?thesis by (auto simp: inserted_def go_on_def)
qed

lemma go_on_acquires:
  assumes C: "client_inv M G own C" and t: "inside C t"
    and s: "code_step M (lock (sys C)) (threads (sys C) t) = Some (\<sigma>', l')" "threads (sys (go_on M t C)) t = l'"
    and a: "action_of (threads (sys C) t) l' = Acquire q"
  obtains i r p where "program C t = i # p" "lock_range i = [r]" "q = keys r" "inserted (go_on M t C) t" "\<forall>b. pending b (i # p) = set (lock_ranges p) \<union> (if b then {} else {r})"
proof -
  from a have pc: "pc (threads (sys C) t) = TryCas0" "pc l' = TryLink" and q: "q = args (threads (sys C) t)"
    by (auto simp: action_of_def split: if_splits)
  have "\<not> in_release (G t) (own t) (sys C) t r p" for r p
    using pc(1) by (auto simp: in_release_def releasing_def succeeds_def)
  with client_invD(3) [OF C, of t] t obtain i r p where P: "program C t = i # p" "i = TryLock r \<or> i = LockLoop r"
    and fit: "in_try (G t) (own t) (threads (sys C) t) r p"
    by (cases "(G t, own t, sys C, t, inside C t, program C t)" rule: thread_fits.cases) auto
  from P(2) fit q pc(2) s(2) t show ?thesis
    by (intro that [OF P(1), of r]) (auto simp: in_try_def inserted_def publishing_def go_on_def)
qed

lemma unmet_go_on:
  assumes C: "client_inv M G own C" and t: "inside C t" "\<not> at_rest (threads (sys C) t)" and ex: "exclusive (program C)" and un: "unmet D C"
  shows "unmet D (go_on M t C)"
  unfolding unmet_def
proof (intro allI impI ballI)
  note inv = reachable_system_inv [OF client_invD(1) [OF C]]
  note i = system_invD [OF inv]
  obtain \<sigma>' l' where s: "code_step M (lock (sys C)) (threads (sys C) t) = Some (\<sigma>', l')" "step M (lock (sys C)) (threads (sys C) t) = (\<sigma>', l')"
    by (rule step_defined [OF inv])
  have S': "lock (sys (go_on M t C)) = \<sigma>'" "threads (sys (go_on M t C)) t = l'" "program (go_on M t C) = program C"
    "\<And>u. u \<noteq> t \<Longrightarrow> inserted (go_on M t C) u \<longleftrightarrow> inserted C u"
    using s(2) by (simp_all add: go_on_def inserted_def)
  from code_step_ok [OF i(1) i(2) [of t]] s(1) have ev: "evolves (owned (threads (sys C) t)) (lock (sys C)) \<sigma>'" by (auto simp: step_ok_def)
  fix a u q
  assume "linked (lock (sys (go_on M t C))) a \<and> a \<notin> D \<and> a \<noteq> head (lock (sys (go_on M t C))) \<and> a \<noteq> tail (lock (sys (go_on M t C)))"
    and q: "q \<in> pending (inserted (go_on M t C) u) (program (go_on M t C) u)"
  then have a: "linked \<sigma>' a" "a \<notin> D" "a \<noteq> head (lock (sys C))" "a \<noteq> tail (lock (sys C))" using S'(1) evolvesD(1,2) [OF ev] by simp_all
  have q': "q \<in> pending (inserted C u) (program C u)"
  proof (cases "u = t")
    case True
    with q pending_mono [OF go_on_inserted [OF t(2) _ s(1) S'(2)], of "inserted C t"] show ?thesis by (auto simp: S'(3))
  qed (use q S'(3,4) in simp)
  from new_linked [OF i(1,2) s(1) a(1)] show "\<not> closed_overlaps (rg (lock (sys (go_on M t C))) a) (keys q)"
  proof (elim disjE conjE)
    assume "linked (lock (sys C)) a" "rg \<sigma>' a = rg (lock (sys C)) a"
    with un q' a(2-4) S'(1) show ?thesis unfolding unmet_def by metis
  next
    assume act: "action_of (threads (sys C) t) l' = Acquire (args (threads (sys C) t))" and rg: "rg \<sigma>' a = args (threads (sys C) t)"
    from go_on_acquires [OF C t(1) s(1) S'(2) act] obtain j r p where P: "program C t = j # p" "lock_range j = [r]"
      "args (threads (sys C) t) = keys r" "inserted (go_on M t C) t"
      "\<forall>b. pending b (j # p) = set (lock_ranges p) \<union> (if b then {} else {r})" .
    from P(1,2) have r: "r \<in> set (lock_ranges (program C t))" by simp
    from q' pending_subset have mem: "q \<in> set (lock_ranges (program C u))" by blast
    have "(t, r) \<noteq> (u, q)"
    proof
      assume "(t, r) = (u, q)"
      with q S'(3) P(1,4,5) have "r \<in> set (lock_ranges p)" by simp
      with exclusiveD(1) [OF ex, of t] P(1,2) show False by simp
    qed
    with exclusiveD(3,4) [OF ex] r mem have "\<not> closed_overlaps (keys r) (keys q)" by (simp add: keys_overlap)
    then show ?thesis using rg P(3) S'(1) by simp
  qed
qed

lemma unmet_same:
  assumes "unmet D C" "lock (sys C') = lock (sys C)"
    "\<And>u. pending (inserted C' u) (program C' u) \<subseteq> pending (inserted C u) (program C u)"
  shows "unmet D C'"
  unfolding unmet_def assms(2)
proof (intro allI impI ballI)
  fix a u r
  assume a: "linked (lock (sys C)) a \<and> a \<notin> D \<and> a \<noteq> head (lock (sys C)) \<and> a \<noteq> tail (lock (sys C))"
    and "r \<in> pending (inserted C' u) (program C' u)"
  with assms(3) [of u] have "r \<in> pending (inserted C u) (program C u)" by blast
  with assms(1) a show "\<not> closed_overlaps (rg (lock (sys C)) a) (keys r)" unfolding unmet_def by blast
qed

lemma unmet_step:
  assumes C: "client_inv M G own C" and ex: "exclusive (program C)" and un: "unmet D C"
  shows "unmet D (client_step M t rnd C)"
  using C
proof (cases rule: client_step_forms [where t = t and rnd = rnd])
  case 1
  then obtain i p where P: "program C t = i # p" by (cases "program C t") auto
  show ?thesis unfolding 1(1)
    by (rule unmet_same [OF un]) (use pending_Cons [of p _ i] P in \<open>auto simp: next_instr_def inserted_def\<close>)
next
  case 2
  then show ?thesis using unmet_go_on [OF C 2(2,3) ex un] by simp
next
  case (3 r)
  have "inserted (call_try M t rnd r C) u \<longleftrightarrow> inserted C u" for u
    using 3(2,3) by (auto simp: call_try_def inserted_def) (auto simp: call_tryLock_def publishing_def)
  then show ?thesis unfolding 3(1) by (intro unmet_same [OF un]) (auto simp: call_try_def)
next
  case (4 r)
  have "inserted (call_release M t r C) u \<longleftrightarrow> inserted C u" for u
    using 4(2,3) by (auto simp: call_release_def inserted_def) (auto simp: call_releaseLock_def publishing_def)
  then show ?thesis unfolding 4(1) by (intro unmet_same [OF un]) (auto simp: call_release_def)
next
  case 5
  then show ?thesis by (intro unmet_same [OF un]) auto
qed

lemma start_unmet: "unmet {} (start_client M P)"
proof -
  have "lock (sys (start_client M P)) = ConcurrentRangeLock M" by (simp add: start_client_def init_system_def)
  moreover have "a = head (ConcurrentRangeLock M :: 64 word crl) \<or> a = tail (ConcurrentRangeLock M :: 64 word crl)"
    if "linked (ConcurrentRangeLock M :: 64 word crl) a" for a
  proof -
    have "heap (ConcurrentRangeLock M :: 64 word crl) a \<noteq> None"
      using linked_tall [OF init_heap_inv that] by (auto simp: tall_iff)
    then show ?thesis by (auto simp: ConcurrentRangeLock_def split: if_splits)
  qed
  ultimately show ?thesis unfolding unmet_def by metis
qed

lemma renewed_client_step:
  assumes C: "client_inv M G own C" and rn: "renewed D (sys C)"
  shows "renewed D (sys (client_step M t rnd C))"
proof -
  from client_invD(1) [OF C] have "system_inv M (sys C)" "marked_inv (sys C)"
    by (rule reachable_system_inv, rule reachable_marked)
  note ev = event_renewed [OF this rn]
  from C show ?thesis
  proof (cases rule: client_step_forms [where t = t and rnd = rnd])
    case 2
    with ev [of "Step t"] show ?thesis by (simp add: go_on_def)
  next
    case (3 r)
    with ev show ?thesis by (simp add: call_try_def del: do_event.simps)
  next
    case (4 r)
    with ev show ?thesis by (simp add: call_release_def del: do_event.simps)
  qed (use rn in \<open>simp_all add: next_instr_def\<close>)
qed

text \<open>What every state of an exclusive run has: no thread has been refused a range.\<close>

definition exclusive_state :: "addr set \<Rightarrow> client \<Rightarrow> bool" where
  "exclusive_state D C \<longleftrightarrow> exclusive (program C) \<and> unmet D C \<and> renewed D (sys C) \<and>
     (\<forall>t. pc (threads (sys C) t) \<noteq> TryReturned False)"

lemma exclusive_stateD:
  assumes "exclusive_state D C"
  shows "exclusive (program C)" "unmet D C" "renewed D (sys C)" "pc (threads (sys C) t) \<noteq> TryReturned False"
  using assms by (simp_all add: exclusive_state_def)

lemma exclusive_state_step:
  assumes C: "client_inv M G own C" and Q: "exclusive_state D C"
  shows "exclusive_state D (client_step M t rnd C)"
proof -
  note q = exclusive_stateD [OF Q]
  have "program (client_step M t rnd C) u = program C u \<or> program (client_step M t rnd C) u = tl (program C u)" for u
    using step_program [of M t rnd C u] by (auto simp: next_instr_def)
  with exclusive_tl q(1) have ex: "exclusive (program (client_step M t rnd C))" by blast
  note un = unmet_step [OF C q(1,2), of t rnd] and rn = renewed_client_step [OF C q(3), of t rnd]
  have "pc (threads (sys (client_step M t rnd C)) u) \<noteq> TryReturned False" for u
    using C
  proof (cases rule: client_step_forms [where t = t and rnd = rnd])
    case 2
    show ?thesis
    proof (cases "u = t")
      case True
      from go_on_inv [OF C 2(2,3)] obtain own' where C': "client_inv M G own' (go_on M t C)" by blast
      from exclusive_not_refused [OF this ex [unfolded 2(1)] un [unfolded 2(1)] rn [unfolded 2(1)], of t] 2 True show ?thesis
        by (simp add: go_on_def)
    next
      case False
      with 2 q(4) show ?thesis by (simp add: go_on_def split: prod.split)
    qed
  next
    case (3 r)
    with q(4) show ?thesis by (auto simp: call_try_def call_tryLock_def)
  next
    case (4 r)
    with q(4) show ?thesis by (auto simp: call_release_def call_releaseLock_def)
  qed (use q(4) in \<open>simp_all add: next_instr_def\<close>)
  with ex un rn show ?thesis by (simp add: exclusive_state_def)
qed

lemma exclusive_run:
  assumes "client_inv M G own C" "exclusive_state D C"
  shows "(\<exists>own. client_inv M G own (client_run M moves C)) \<and> exclusive_state D (client_run M moves C)"
proof (rule run_invariant [where Q = "exclusive_state D", OF assms])
  fix C own assume C: "client_inv M G own C" and Q: "exclusive_state D C"
  show "\<not> refused_try C" using exclusive_stateD(4) [OF Q] by (auto simp: refused_try_def)
  show "exclusive_state D (client_step M t rnd C)" for t rnd by (rule exclusive_state_step [OF C Q])
qed

lemma exclusive_start:
  assumes "exclusive P"
  shows "exclusive_state {} (start_client M P)"
proof -
  have "reachable M (sys (start_client M P))" by (simp add: start_client_def reachable.start)
  from reachable_renewed_none [OF this] assms start_unmet show ?thesis
    by (simp add: exclusive_state_def) (simp add: start_client_def init_system_def fresh_locals_def)
qed

lemma never_refused: "exclusive_state D C \<Longrightarrow> \<not> refused_try C"
  using exclusive_stateD(4) by (auto simp: refused_try_def)

text \<open>
  A new iteration on the same lock: when the threads have finished and hold nothing, the nodes they
  have released are cut off, and the next programs start as on a fresh lock.
\<close>

lemma exclusive_again:
  assumes C: "client_inv M (\<lambda>_. {}) own C" and Q: "exclusive_state D C" and over: "\<forall>t. program C t = []"
    and ex: "exclusive P" and d: "\<And>t. disciplined {} {} (P t)"
  shows "client_inv M (\<lambda>_. {}) (\<lambda>_. {}) (C\<lparr>program := P\<rparr>)" "\<exists>D. exclusive_state D (C\<lparr>program := P\<rparr>)"
proof -
  note D = client_invD [OF C]
  have rest: "own t = {} \<and> at_rest (threads (sys C) t) \<and> \<not> inside C t" for t using D(3) [of t] over by (cases "inside C t") simp_all
  then have own: "own = (\<lambda>_. {})" by auto
  have "cursor C t = None" for t using D(4) [of t] over by (cases "cursor C t") (auto simp: writing_ok_def)
  then show "client_inv M (\<lambda>_. {}) (\<lambda>_. {}) (C\<lparr>program := P\<rparr>)"
    using D(1,2,5) rest d own by (simp add: client_inv_def writing_ok_def)
  let ?D = "{a. marked0 (lock (sys C)) a}"
  from D(2) own have "held_ranges (lock (sys C)) = {}" by (simp add: owners_def)
  then have "held (lock (sys C)) = {}" by (simp add: held_ranges_def)
  from renewed_at_rest [OF D(1) _ this refl] rest exclusive_stateD(4) [OF Q]
  have "renewed ?D (sys C)" "\<And>a. linked (lock (sys C)) a \<Longrightarrow> a \<notin> ?D \<Longrightarrow> a = head (lock (sys C)) \<or> a = tail (lock (sys C))"
    by blast+
  then have "exclusive_state ?D (C\<lparr>program := P\<rparr>)"
    using ex exclusive_stateD(4) [OF Q] by (auto simp: exclusive_state_def unmet_def)
  then show "\<exists>D. exclusive_state D (C\<lparr>program := P\<rparr>)" ..
qed

end
