(* ===== verification/App_Drivers.thy ===== *)
theory App_Drivers
  imports App_Exclusive
begin

text \<open>
  The drivers of \<open>scalability.cpp\<close>, \<open>gtest.cpp\<close> and \<open>gtest2.cpp\<close> with the ranges they build: no call
  of theirs is refused, the \<open>assert\<close> on the size holds, and the memory they write is theirs.
\<close>

subsection \<open>Programs that share out disjoint ranges\<close>

lemma distinct_pieces:
  assumes "distinct (concat (map f [0 ..< n]))"
  shows "i < n \<Longrightarrow> distinct (f i)" "i < j \<Longrightarrow> j < n \<Longrightarrow> set (f i) \<inter> set (f j) = {}"
  using assms by (induction n) (fastforce simp: less_Suc_eq)+

lemma set_pieces: "set (concat (map f [0 ..< n])) = (\<Union>i\<in>{..<n}. set (f i))"
  by (simp add: atLeast0LessThan)

lemma exclusive_pieces:
  assumes "\<And>t. lock_ranges (P t) = (if t < n then f t else [])" "apart (concat (map f [0 ..< n]))"
    and "\<And>r. r \<in> set (concat (map f [0 ..< n])) \<Longrightarrow> 0 < fst r \<and> good_range r"
  shows "exclusive P"
  unfolding exclusive_def
proof (intro conjI allI ballI impI)
  from assms(2) have d: "distinct (concat (map f [0 ..< n]))"
    and pd: "pairwise_disjoint closed_overlaps (set (concat (map f [0 ..< n])))" by (simp_all only: apart_def)
  have mem: "t < n \<and> r \<in> set (f t) \<and> r \<in> set (concat (map f [0 ..< n]))" if "r \<in> set (lock_ranges (P t))" for t r
    using that assms(1) [of t] unfolding set_pieces by (auto split: if_splits)
  fix t
  show "distinct (lock_ranges (P t))" using distinct_pieces(1) [OF d, of t] assms(1) [of t] by simp
  show "0 < fst r" "good_range r" if "r \<in> set (lock_ranges (P t))" for r using mem [OF that] assms(3) by blast+
  fix u r q assume r: "r \<in> set (lock_ranges (P t))" and q: "q \<in> set (lock_ranges (P u))" and ne: "(t, r) \<noteq> (u, q)"
  have "r \<noteq> q"
  proof
    assume "r = q"
    with ne have "t < u \<or> u < t" by auto
    with distinct_pieces(2) [OF d] mem [OF r] mem [OF q] \<open>r = q\<close> show False by blast
  qed
  with pd mem [OF r] mem [OF q] show "\<not> closed_overlaps r q" unfolding pairwise_disjoint_def by blast
qed

lemma exclusive_slices:
  assumes "\<And>t. lock_ranges (P t) = (if t < n then thread_slice n t ranges else [])" "0 < n" "apart ranges"
    and "\<And>r. r \<in> set ranges \<Longrightarrow> 0 < fst r \<and> good_range r"
  shows "exclusive P"
  by (rule exclusive_pieces [OF assms(1)]) (use assms(2-4) concat_slices [OF assms(2), of ranges] in simp_all)

lemma slice_facts:
  assumes "i < n" "apart ranges"
  shows "distinct (thread_slice n i ranges)" "set (thread_slice n i ranges) \<subseteq> set ranges"
proof -
  have c: "concat (map (\<lambda>i. thread_slice n i ranges) [0 ..< n]) = ranges" using concat_slices assms(1) by (metis gr_implies_not0 not_gr_zero)
  with assms(2) have "distinct (concat (map (\<lambda>i. thread_slice n i ranges) [0 ..< n]))" by (simp add: apart_def)
  from distinct_pieces(1) [OF this assms(1)] show "distinct (thread_slice n i ranges)" .
  have "set (thread_slice n i ranges) \<subseteq> set (concat (map (\<lambda>i. thread_slice n i ranges) [0 ..< n]))"
    using assms(1) unfolding set_pieces by auto
  with c show "set (thread_slice n i ranges) \<subseteq> set ranges" by simp
qed

lemma union_if: "(\<Union>t. g ` (if t < n then A t else {})) = g ` (\<Union>t\<in>{..<n}. A t)"
proof (rule equalityI)
  show "(\<Union>t. g ` (if t < n then A t else {})) \<subseteq> g ` (\<Union>t\<in>{..<n}. A t)"
    by (rule UN_least) (auto split: if_splits)
  have "g ` A t \<subseteq> (\<Union>t. g ` (if t < n then A t else {}))" if "t < n" for t
    using UN_upper [of t UNIV "\<lambda>t. g ` (if t < n then A t else {})"] that by simp
  then show "g ` (\<Union>t\<in>{..<n}. A t) \<subseteq> (\<Union>t. g ` (if t < n then A t else {}))" unfolding image_UN by blast
qed

text \<open>When all threads have finished, the lock holds what their programs leave locked.\<close>

lemma finished:
  assumes C: "client_inv M G own C" and over: "\<forall>t. program C t = []"
  shows "held_ranges (lock (sys C)) = (\<Union>t. keys ` G t)" "\<And>t r. r \<in> G t \<Longrightarrow> good_range r"
    and "size_v0 (lock (sys C)) = of_nat (card (held_ranges (lock (sys C))))"
proof -
  note D = client_invD [OF C]
  have "own t = G t \<and> at_rest (threads (sys C) t)" for t using D(3) [of t] over by (cases "inside C t") simp_all
  then have own: "own = G" and rest: "\<forall>t. at_rest (threads (sys C) t)" by auto
  with D(2) show "held_ranges (lock (sys C)) = (\<Union>t. keys ` G t)" "\<And>t r. r \<in> G t \<Longrightarrow> good_range r" by (auto simp: owners_def)
  show "size_v0 (lock (sys C)) = of_nat (card (held_ranges (lock (sys C))))" using size_of_rest [OF D(1) rest] by simp
qed

subsection \<open>scalability.cpp\<close>

lemma lock_ranges_try [simp]: "lock_ranges (map TryLock rs) = rs"
  by (induction rs) simp_all

lemma lock_ranges_release [simp]: "lock_ranges (map ReleaseLock rs) = []"
  by (induction rs) simp_all

lemma scalability_disciplined:
  assumes "apart ranges" "\<And>r. r \<in> set ranges \<Longrightarrow> good_range r"
  shows "disciplined (if t < n then set (thread_slice n t ranges) else {}) {} (spawn n (scalability_thread ranges n) t)"
proof (cases "t < n")
  case True
  from slice_facts [OF True assms(1)] assms(2) have "distinct (thread_slice n t ranges)" "\<forall>r\<in>set (thread_slice n t ranges). good_range r"
    by blast+
  then show ?thesis
    using disciplined_lock_all(2) [of "thread_slice n t ranges" "{}" "set (thread_slice n t ranges)" "[]"] True
    by (simp add: spawn_def scalability_thread_def)
qed (simp add: spawn_def)

text \<open>
  C10. The \<open>assert(crl.size() == ranges.size())\<close> of \<open>scalability.cpp\<close> holds: when all threads have
  finished their slices of a list of disjoint ranges, whatever their number and their interleaving,
  every range is locked and counted, although no thread looks at the result of \<open>tryLock\<close>.
\<close>
theorem scalability_assert_holds:
  assumes "apart ranges" "\<forall>r\<in>set ranges. 0 < fst r \<and> good_range r" "0 < n"
    and "C = client_run 6 moves (start_client 6 (spawn n (scalability_thread ranges n)))"
    and "\<forall>t. program C t = []"
  shows "size_v0 (lock (sys C)) = of_nat (length ranges)"
proof -
  let ?G = "\<lambda>t. if t < n then set (thread_slice n t ranges) else {}"
  from assms(2) have good: "0 < fst r \<and> good_range r" if "r \<in> set ranges" for r using that by blast
  have "exclusive (spawn n (scalability_thread ranges n))"
    by (rule exclusive_slices [OF _ assms(3,1) good]) (simp_all add: spawn_def scalability_thread_def)
  moreover have "client_inv 6 ?G (\<lambda>_. {}) (start_client 6 (spawn n (scalability_thread ranges n)))"
    by (rule start_inv) (use scalability_disciplined [OF assms(1)] good in blast)
  ultimately obtain own where "client_inv 6 ?G own C"
    using exclusive_run exclusive_start unfolding assms(4) by blast
  note f = finished [OF this assms(5)]
  have "(\<Union>t. keys ` ?G t) = keys ` (\<Union>i\<in>{..<n}. set (thread_slice n i ranges))" by (rule union_if)
  also have "(\<Union>i\<in>{..<n}. set (thread_slice n i ranges)) = set ranges"
    using concat_slices [OF assms(3), of ranges] set_pieces [of "\<lambda>i. thread_slice n i ranges" n] by simp
  finally have "held_ranges (lock (sys C)) = keys ` set ranges" using f(1) by simp
  moreover have "inj_on keys (set ranges)" using good keys_inj by (meson inj_onI)
  ultimately have "card (held_ranges (lock (sys C))) = length ranges"
    using assms(1) by (simp add: card_image distinct_card apart_def)
  with f(3) show ?thesis by simp
qed

theorem scalability_assert_holds_witness:
  "size_v0 (lock (sys (client_run 6 (replicate 80 (0, \<lambda>_. 0) @ replicate 80 (1, \<lambda>_. 0))
     (start_client 6 (spawn 2 (scalability_thread [(11, 16), (1, 6), (21, 26)] 2)))))) = 3"
proof -
  let ?C = "client_run 6 (replicate 80 (0, \<lambda>_. 0) @ replicate 80 (1, \<lambda>_. 0))
     (start_client 6 (spawn 2 (scalability_thread [(11, 16), (1, 6), (21, 26)] 2)))"
  have "program ?C t = []" for t
  proof (cases "t < 2")
    case True
    then have "t = 0 \<or> t = 1" by auto
    moreover have "program ?C 0 = []" by code_simp
    moreover have "program ?C 1 = []" by code_simp
    ultimately show ?thesis by auto
  next
    case False
    then have "set (program ?C t) \<subseteq> {}"
      using run_program_subset [of 6 "replicate 80 (0, \<lambda>_. 0) @ replicate 80 (1, \<lambda>_. 0)"
          "start_client 6 (spawn 2 (scalability_thread [(11, 16), (1, 6), (21, 26)] 2))" t]
      by (simp add: start_client_def spawn_def)
    then show ?thesis by simp
  qed
  moreover have "apart [(11, 16), (1, 6), (21, 26)]"
    by (auto simp: apart_def pairwise_disjoint_def closed_overlaps_def)
  ultimately show ?thesis
    using scalability_assert_holds [of "[(11, 16), (1, 6), (21, 26)]" 2 ?C, OF _ _ _ refl] by (simp add: good_range_def)
qed

subsection \<open>gtest.cpp\<close>

lemma disciplined_lock_write:
  assumes "distinct rs" "\<forall>r\<in>set rs. good_range r" "set rs \<inter> X = {}" "disciplined G (set rs \<union> X) p"
  shows "disciplined G X (concat (map (\<lambda>r. [TryLock r, WriteKeys r]) rs) @ p)"
  using assms
proof (induction rs arbitrary: X)
  case (Cons r rs)
  have "set rs \<inter> insert r X = {}" using Cons.prems by auto
  with Cons show ?case by simp
qed simp

lemma gtest_disciplined:
  assumes "apart ranges" "\<And>r. r \<in> set ranges \<Longrightarrow> good_range r"
  shows "disciplined {} {} (spawn n (gtest_thread ranges n) t)"
proof (cases "t < n")
  case True
  let ?mine = "thread_slice n t ranges"
  from slice_facts [OF True assms(1)] assms(2) have d: "distinct ?mine" "\<forall>r\<in>set ?mine. good_range r" by blast+
  have "disciplined {} (set ?mine) (map ReleaseLock ?mine)"
    using disciplined_release_all [OF d(1), of "set ?mine" "{}" "[]"] by simp
  with disciplined_lock_write [OF d, of "{}" "{}"] True show ?thesis
    by (simp add: spawn_def gtest_thread_def Let_def)
qed (simp add: spawn_def)

lemma lock_ranges_write [simp]: "lock_ranges (concat (map (\<lambda>r. [TryLock r, WriteKeys r]) rs)) = rs"
  by (induction rs) simp_all

text \<open>A thread writes only where the loop it is in has come to, and what it has written stays.\<close>

lemma step_table:
  assumes "table (client_step M t rnd C) k \<noteq> table C k"
  shows "table (client_step M t rnd C) k = Some t \<and>
    (\<exists>r p. program C t = WriteKeys r # p \<and> cursor C t = Some k \<and> k < snd r)"
proof -
  have "\<not> exited C" using assms by (auto simp: client_step_def)
  moreover have "program C t \<noteq> []"
  proof
    assume "program C t = []"
    then have "client_step M t rnd C = C" by (simp add: client_step_def)
    with assms show False by simp
  qed
  ultimately obtain i p where P: "program C t = i # p" by (cases "program C t") auto
  with assms \<open>\<not> exited C\<close> show ?thesis
    by (cases i; cases "inside C t"; cases "pc (threads (sys C) t)"; cases "cursor C t")
      (auto simp: client_step_def call_try_def call_release_def go_on_def next_instr_def split: if_splits)
qed

definition written :: "(nat \<Rightarrow> int_range set) \<Rightarrow> client \<Rightarrow> bool" where
  "written W C \<longleftrightarrow> (\<forall>t. \<forall>r\<in>W t. WriteKeys r \<in> set (program C t) \<or> (\<forall>k. fst r \<le> k \<and> k < snd r \<longrightarrow> table C k = Some t))"

definition apart_shares :: "(nat \<Rightarrow> int_range set) \<Rightarrow> bool" where
  "apart_shares W \<longleftrightarrow> (\<forall>t u. \<forall>r\<in>W t. \<forall>q\<in>W u. (t, r) \<noteq> (u, q) \<longrightarrow> \<not> closed_overlaps r q)"

lemma apart_sharesD: "apart_shares W \<Longrightarrow> r \<in> W t \<Longrightarrow> q \<in> W u \<Longrightarrow> fst r \<le> k \<Longrightarrow> k \<le> snd r \<Longrightarrow> fst q \<le> k \<Longrightarrow> k \<le> snd q \<Longrightarrow> t = u \<and> r = q"
  unfolding apart_shares_def by (fastforce simp: closed_overlaps_def)

lemma written_step:
  assumes C: "client_inv M G own C" and w: "written W C" and W: "apart_shares W" "\<And>t r. WriteKeys r \<in> set (program C t) \<Longrightarrow> r \<in> W t"
  shows "written W (client_step M t rnd C)"
  unfolding written_def
proof (intro allI ballI)
  fix u r assume r: "r \<in> W u"
  note D = client_invD [OF C]
  let ?C' = "client_step M t rnd C"
  have stays: "table ?C' k = Some u" if k: "fst r \<le> k" "k < snd r" "table C k = Some u" for k
  proof (cases "table ?C' k = table C k")
    case False
    from step_table [OF False] obtain q p where q: "program C t = WriteKeys q # p" "cursor C t = Some k" "k < snd q"
      and tab: "table ?C' k = Some t" by blast
    from D(4) [of t] q have "fst q \<le> k" by (auto simp: writing_ok_def)
    with apart_sharesD [OF W(1) r W(2) [of q t], of k] q k tab show ?thesis by simp
  qed (use k in simp)
  show "WriteKeys r \<in> set (program ?C' u) \<or> (\<forall>k. fst r \<le> k \<and> k < snd r \<longrightarrow> table ?C' k = Some u)"
  proof (cases "WriteKeys r \<in> set (program C u)")
    case False
    with w r stays show ?thesis unfolding written_def by blast
  next
    case True
    show ?thesis
    proof (cases "program ?C' u = program C u")
      case False
      note False' = this
      with step_program [of M t rnd C u] have u: "u = t" "?C' = next_instr t C" by auto
      from True obtain i p where P: "program C t = i # p" unfolding u(1) by (cases "program C t") auto
      show ?thesis
      proof (cases "i = WriteKeys r")
        case True
        have "cursor C t \<noteq> None"
        proof
          assume "cursor C t = None"
          then have "program ?C' t = program C t" using P True D(5) by (simp add: client_step_def)
          with False' u(1) show False by simp
        qed
        then obtain k where k: "cursor C t = Some k" by blast
        have "snd r \<le> k"
        proof (rule ccontr)
          assume "\<not> snd r \<le> k"
          then have "program ?C' t = program C t" using P True D(5) k by (simp add: client_step_def)
          with False' u(1) show False by simp
        qed
        moreover from D(4) [of t] k P True have "\<forall>j. fst r \<le> j \<and> j < k \<longrightarrow> table C j = Some t" by (auto simp: writing_ok_def)
        ultimately show ?thesis using stays u(1) by auto
      next
        case False
        with \<open>WriteKeys r \<in> set (program C u)\<close> P u show ?thesis by (simp add: next_instr_def)
      qed
    qed (use True in simp)
  qed
qed

text \<open>The slices of the threads.\<close>

lemma slices_apart:
  assumes "0 < n" "apart ranges"
  shows "apart_shares (\<lambda>t. if t < n then set (thread_slice n t ranges) else {})"
  unfolding apart_shares_def
proof (intro allI ballI impI)
  fix t u r q assume r: "r \<in> (if t < n then set (thread_slice n t ranges) else {})"
    and q: "q \<in> (if u < n then set (thread_slice n u ranges) else {})" and ne: "(t, r) \<noteq> (u, q)"
  then have m: "t < n" "u < n" "r \<in> set (thread_slice n t ranges)" "q \<in> set (thread_slice n u ranges)" by (auto split: if_splits)
  from assms have "distinct (concat (map (\<lambda>i. thread_slice n i ranges) [0 ..< n]))" using concat_slices by (metis apart_def)
  note d = distinct_pieces(2) [OF this]
  have "r \<noteq> q"
  proof
    assume "r = q"
    with ne have "t < u \<or> u < t" by auto
    with d [of t u] d [of u t] m \<open>r = q\<close> show False by blast
  qed
  with m slice_facts(2) [OF _ assms(2)] assms(2) show "\<not> closed_overlaps r q" unfolding apart_def pairwise_disjoint_def by blast
qed

lemma slice_writes: "WriteKeys r \<in> set (spawn n (gtest_thread ranges n) t) \<Longrightarrow> t < n \<and> r \<in> set (thread_slice n t ranges)"
  by (auto simp: spawn_def gtest_thread_def Let_def split: if_splits)

lemma slice_written: "t < n \<Longrightarrow> r \<in> set (thread_slice n t ranges) \<Longrightarrow> WriteKeys r \<in> set (spawn n (gtest_thread ranges n) t)"
  by (auto simp: spawn_def gtest_thread_def Let_def)

text \<open>What holds at any time in any iteration.\<close>

definition iteration_inv :: "nat \<Rightarrow> int_range list \<Rightarrow> client \<Rightarrow> bool" where
  "iteration_inv n ranges C \<longleftrightarrow> (\<exists>own. client_inv 6 (\<lambda>_. {}) own C) \<and> (\<exists>D. exclusive_state D C) \<and>
     (\<forall>t. set (program C t) \<subseteq> set (spawn n (gtest_thread ranges n) t))"

lemma joined:
  assumes "\<forall>t. set (program C t) \<subseteq> set (spawn n f t)" "\<forall>t<n. program C t = []"
  shows "program C t = []"
  using assms by (cases "t < n") (auto simp: spawn_def dest: spec [of _ t])

lemma iteration_start: "iteration_inv n ranges (start_client 6 (\<lambda>_. []))"
  using start_inv [of "\<lambda>_. {}" "\<lambda>_. []" 6] exclusive_start [of "\<lambda>_. []" 6]
  by (auto simp: iteration_inv_def exclusive_def start_client_def)

lemma iteration_run:
  assumes "iteration_inv n ranges C"
  shows "iteration_inv n ranges (client_run 6 moves C)"
proof -
  from assms obtain own D where C: "client_inv 6 (\<lambda>_. {}) own C" "exclusive_state D C"
    and sub: "\<And>t. set (program C t) \<subseteq> set (spawn n (gtest_thread ranges n) t)" by (auto simp: iteration_inv_def)
  from exclusive_run [OF C, of moves] subset_trans [OF run_program_subset sub] show ?thesis
    unfolding iteration_inv_def by blast
qed

lemma iteration_next:
  assumes C: "iteration_inv n ranges C" and r: "0 < n" "apart ranges" "\<And>r. r \<in> set ranges \<Longrightarrow> 0 < fst r \<and> good_range r"
  shows "iteration_inv n ranges (next_iteration n (gtest_thread ranges n) C)"
proof (cases "\<not> exited C \<and> (\<forall>t<n. program C t = [])")
  case True
  from C obtain own D where inv: "client_inv 6 (\<lambda>_. {}) own C" and ex: "exclusive_state D C"
    and sub: "\<forall>t. set (program C t) \<subseteq> set (spawn n (gtest_thread ranges n) t)" by (auto simp: iteration_inv_def)
  from joined [OF sub] True have over: "\<forall>t. program C t = []" by blast
  have "exclusive (spawn n (gtest_thread ranges n))"
    by (rule exclusive_slices [OF _ r]) (simp_all add: spawn_def gtest_thread_def Let_def)
  from exclusive_again [OF inv ex over this gtest_disciplined [OF r(2)]] r(3)
  have "iteration_inv n ranges (C\<lparr>program := spawn n (gtest_thread ranges n)\<rparr>)" by (auto simp: iteration_inv_def)
  moreover have "next_iteration n (gtest_thread ranges n) C = C\<lparr>program := spawn n (gtest_thread ranges n)\<rparr>"
    using True by (simp add: next_iteration_def list_all_iff)
  ultimately show ?thesis by simp
next
  case False
  then have "next_iteration n (gtest_thread ranges n) C = C" by (auto simp: next_iteration_def list_all_iff)
  with C show ?thesis by simp
qed

lemma iterations_inv:
  assumes "iteration_inv n ranges C" "0 < n" "apart ranges" "\<And>r. r \<in> set ranges \<Longrightarrow> 0 < fst r \<and> good_range r"
  shows "iteration_inv n ranges (run_iterations 6 n (gtest_thread ranges n) iterations C)"
  using assms(1)
proof (induction iterations arbitrary: C)
  case (Cons moves iterations)
  from iteration_run [OF iteration_next [OF Cons.prems assms(2-4)]] show ?case by (simp add: Cons.IH)
qed simp

abbreviation "slices n ranges \<equiv> (\<lambda>t. if t < n then set (thread_slice n t ranges) else {})"

lemma written_next:
  assumes "written (slices n ranges) C \<or> (\<forall>t. program C t = []) \<and> \<not> exited C"
  shows "written (slices n ranges) (next_iteration n (gtest_thread ranges n) C)"
proof -
  have "written (slices n ranges) (C\<lparr>program := spawn n (gtest_thread ranges n)\<rparr>)"
    unfolding written_def by (auto dest: slice_written split: if_splits)
  with assms show ?thesis by (auto simp: next_iteration_def list_all_iff)
qed

lemma written_run:
  assumes "iteration_inv n ranges C" "written (slices n ranges) C" "0 < n" "apart ranges"
  shows "written (slices n ranges) (client_run 6 moves C)"
proof (induction moves rule: rev_induct)
  case Nil
  from assms(2) show ?case by (simp add: client_run_def)
next
  case (snoc m moves)
  let ?C = "client_run 6 moves C"
  obtain t rnd where m: "m = (t, rnd)" by (cases m)
  from iteration_run [OF assms(1), of moves] obtain own where C: "client_inv 6 (\<lambda>_. {}) own ?C"
    and sub: "\<And>u. set (program ?C u) \<subseteq> set (spawn n (gtest_thread ranges n) u)" by (auto simp: iteration_inv_def)
  have "written (slices n ranges) (client_step 6 t rnd ?C)"
  proof (rule written_step [OF C snoc.IH slices_apart [OF assms(3,4)]])
    fix u r assume "WriteKeys r \<in> set (program ?C u)"
    with sub have "WriteKeys r \<in> set (spawn n (gtest_thread ranges n) u)" by blast
    from slice_writes [OF this] show "r \<in> slices n ranges u" by simp
  qed
  then show ?case by (simp add: client_run_def m)
qed

lemma iterations_written:
  assumes "iteration_inv n ranges C" "written (slices n ranges) C" "0 < n" "apart ranges"
    and "\<And>r. r \<in> set ranges \<Longrightarrow> 0 < fst r \<and> good_range r"
  shows "written (slices n ranges) (run_iterations 6 n (gtest_thread ranges n) iterations C)"
  using assms(1,2)
proof (induction iterations arbitrary: C)
  case (Cons moves iterations)
  note next' = iteration_next [OF Cons.prems(1) assms(3-5)]
  have "written (slices n ranges) (client_run 6 moves (next_iteration n (gtest_thread ranges n) C))"
    by (rule written_run [OF next' written_next [OF disjI1 [OF Cons.prems(2)]] assms(3,4)])
  with iteration_run [OF next'] show ?case by (simp add: Cons.IH)
qed simp

text \<open>
  C11. The threads of \<open>gtest.cpp\<close> ignore the results of \<open>tryLock\<close> and \<open>releaseLock\<close>, and may. At any time
  in any of the iterations of the benchmark, which all use the same lock, and in every interleaving: no
  call of \<open>tryLock\<close> is refused; the byte a \<open>memset\<close> writes next lies in the shared memory, in a range
  of the thread's own slice which is locked at that moment, and in no range of another thread; and when
  all threads have finished, no range is held, the size is 0, the bottom level of the list leads from
  the head straight to the tail, and every byte of every range carries the mark of its thread.
\<close>
theorem gtest_threads_correct:
  assumes "permutes shuffle" "0 < n" "ranges = createNonOverlappingRanges shuffle" "C = runScalabilityV0 n shuffle iterations"
  shows "\<not> refused_try C \<and>
    (\<forall>t k r p. cursor C t = Some k \<and> program C t = WriteKeys r # p \<and> k < snd r \<longrightarrow>
      t < n \<and> r \<in> set (thread_slice n t ranges) \<and> keys r \<in> held_ranges (lock (sys C)) \<and>
      fst r \<le> k \<and> 0 \<le> k \<and> k < int sharedMemorySize \<and>
      (\<forall>u<n. \<forall>q\<in>set (thread_slice n u ranges). u \<noteq> t \<longrightarrow> \<not> (fst q \<le> k \<and> k \<le> snd q))) \<and>
    ((\<forall>t<n. program C t = []) \<longrightarrow> held_ranges (lock (sys C)) = {} \<and> size_v0 (lock (sys C)) = 0 \<and>
      (\<forall>a. on_chain (lock (sys C)) a \<longrightarrow> a = head (lock (sys C)) \<or> a = tail (lock (sys C))) \<and>
      (iterations \<noteq> [] \<longrightarrow> (\<forall>t<n. \<forall>r\<in>set (thread_slice n t ranges). \<forall>k. fst r \<le> k \<and> k < snd r \<longrightarrow> table C k = Some t)))"
proof -
  have ap: "apart ranges" using gtest_ranges(1) [OF assms(1)] assms(3) by simp
  have good: "0 < fst r \<and> good_range r" if "r \<in> set ranges" for r
    using gtest_ranges(2) [OF assms(1), of "fst r" "snd r"] that assms(3)
    by (simp add: good_range_def sharedMemorySize_def numOfRanges_def range_len_def)
  note again = iterations_inv [OF _ assms(2) ap good] and wr = iterations_written [OF _ _ assms(2) ap good]
  from again [OF iteration_start] have "iteration_inv n ranges C"
    by (simp add: assms(3,4) runScalabilityV0_def)
  then obtain own D where C: "client_inv 6 (\<lambda>_. {}) own C" "exclusive_state D C"
    and sub: "\<forall>t. set (program C t) \<subseteq> set (spawn n (gtest_thread ranges n) t)" by (auto simp: iteration_inv_def)
  note D = client_invD [OF C(1)]
  note W = apart_sharesD [OF slices_apart [OF assms(2) ap]]
  have place: "t < n \<and> r \<in> set (thread_slice n t ranges) \<and> keys r \<in> held_ranges (lock (sys C)) \<and>
      fst r \<le> k \<and> 0 \<le> k \<and> k < int sharedMemorySize \<and>
      (\<forall>u<n. \<forall>q\<in>set (thread_slice n u ranges). u \<noteq> t \<longrightarrow> \<not> (fst q \<le> k \<and> k \<le> snd q))"
    if k: "cursor C t = Some k" "program C t = WriteKeys r # p" "k < snd r" for t k r p
  proof -
    from D(4) [of t] k have lo: "fst r \<le> k" "\<not> inside C t" by (auto simp: writing_ok_def)
    with D(3) [of t] k(2) have "r \<in> own t" by simp
    with owned_held [OF D(2)] have held: "keys r \<in> held_ranges (lock (sys C))" .
    from sub k(2) have "WriteKeys r \<in> set (spawn n (gtest_thread ranges n) t)" by (auto dest: spec [of _ t])
    from slice_writes [OF this] have t: "t < n" "r \<in> set (thread_slice n t ranges)" by simp_all
    with slice_facts(2) ap assms(3) have "r \<in> set (createNonOverlappingRanges shuffle)" by blast
    with gtest_ranges(2) [OF assms(1)] have "0 < fst r" "snd r \<le> int sharedMemorySize" by (metis prod.collapse)+
    moreover have "\<not> (fst q \<le> k \<and> k \<le> snd q)" if "u < n" "q \<in> set (thread_slice n u ranges)" "u \<noteq> t" for u q
      using W [of r t q u k] t that lo k(3) by auto
    ultimately show ?thesis using t lo k(3) held by auto
  qed
  have all: "table C k = Some t" if "\<forall>t. program C t = []" "iterations \<noteq> []" "t < n" "r \<in> set (thread_slice n t ranges)"
    "fst r \<le> k" "k < snd r" for t r k
  proof -
    let ?p = "gtest_thread ranges n"
    from that(2) obtain moves rest where it: "iterations = moves # rest" by (cases iterations) auto
    have "written (slices n ranges) (next_iteration n ?p (start_client 6 (\<lambda>_. [])))"
      by (rule written_next) (simp add: start_client_def)
    note first = iteration_next [OF iteration_start assms(2) ap good] this
    from wr [OF iteration_run [OF first(1)] written_run [OF first assms(2) ap]]
    have "written (slices n ranges) C" by (simp add: assms(3,4) runScalabilityV0_def it)
    with that show ?thesis unfolding written_def by auto
  qed
  have over: "held_ranges (lock (sys C)) = {} \<and> size_v0 (lock (sys C)) = 0 \<and>
      (\<forall>a. on_chain (lock (sys C)) a \<longrightarrow> a = head (lock (sys C)) \<or> a = tail (lock (sys C)))"
    if fin: "\<forall>t. program C t = []"
  proof -
    note f = finished [OF C(1) fin]
    have "at_rest (threads (sys C) t)" for t using D(3) [of t] spec [OF fin, of t] by (cases "inside C t") simp_all
    then have "\<forall>t. at_rest (threads (sys C) t)" by blast
    from chain_at_rest(2) [OF D(1) this] f show ?thesis by (auto simp: held_ranges_def)
  qed
  from never_refused [OF C(2)] place over all joined [OF sub] show ?thesis by blast
qed

theorem gtest_threads_correct_witness:
  "\<not> refused_try (runScalabilityV0 2 rev (replicate 5 (concat (replicate 50 [(0, \<lambda>_. 1), (1, \<lambda>_. 0)]))))"
  by (rule gtest_threads_correct [OF permutes_rev zero_less_numeral refl refl, THEN conjunct1])

end
