(* ===== verification/Spec2Isabelle.thy ===== *)
theory Spec2Isabelle
  imports V0_Properties V0_Phases V0_Display V1_Properties V1_Points V1_Liveness V1_Display V1_Optimistic_Mutex V2_Properties V3_Properties
    V4_Properties V4_Concurrent App_Drivers
begin

text \<open>
  A verification development for the concurrent range locks of this repository.

  \<^bold>\<open>The program.\<close> A range lock grants a caller an address range \<open>[start, end]\<close> when no other caller
  holds an overlapping one. The repository has five of them under \<open>src/\<close>, which share no code:
  \<^item> \<open>v0\<close>: a lock-free skip list of ranges; a link is a pointer with a mark in its lowest bit
    (\<open>AtomicMarkableReference\<close>), changed by compare-and-swap;
  \<^item> \<open>v1\<close>: a lazy skip list; searches take no lock, an insertion or removal locks the predecessors of
    its node, checks them again and retries when the check fails;
  \<^item> \<open>v2\<close>: a lock-free singly linked list with marked pointers;
  \<^item> \<open>v3\<close>: a skip list under one mutex;
  \<^item> \<open>v4\<close>: a balanced binary tree of disjoint key ranges, descended hand over hand.
  The only thing they have in common is what they promise, and that is the contract of
  \<open>RL_Abstract_Lock\<close>.

  \<^bold>\<open>Shared theories.\<close>
  \<^item> \<open>RL_Prelude\<close>: closed and half-open ranges; the locale \<open>range_order\<close>, the laws an order on ranges
    has to meet, with its consequence that the nodes of an ordered chain hold disjoint ranges
    (\<open>chain_disjoint\<close>); chains in a memory given by a successor map (\<open>reach\<close>, \<open>linked_in\<close>), and how
    an insertion, a mark and an unlinking change them. The locale is interpreted on closed ranges (v0,
    v3, v4), on half-open ranges (v2) and, in \<open>V1_Safety\<close>, on closed ranges that may touch (v1).
  \<^item> \<open>RL_Abstract_Lock\<close>: the abstract lock, a set of held ranges with \<open>Acquire\<close> and \<open>Release\<close>, and the
    locale \<open>lock_implementation\<close>, interpreted for the threads of v0, v1 and v4.
  \<^item> \<open>RL_Random_Level\<close>: the loop that draws the level of a node in v0 and v3.

  \<^bold>\<open>v0\<close> (\<open>atomic_reference.hpp\<close>, \<open>node.hpp\<close>, \<open>range_lock.hpp\<close>). \<open>V0_Markable_Reference\<close> models the
  packed word and shows that it refines the pairs of pointer and mark the list model uses, and that
  \<open>attemptMark\<close>, a load and an exchange, is one atomic step. \<open>V0_Skiplist\<close> models the lock: a heap
  of nodes, the local variables of a thread with a program counter, and \<open>code_step\<close>, which runs a
  thread up to and including its next access to shared memory. Any number of threads may call and
  step in any order (\<open>do_event\<close>). \<open>V0_Safety\<close> has the invariant of the heap and what a step may change
  under other threads (\<open>evolves\<close>), \<open>V0_Threads\<close> what a thread knows at each place of the code and that
  every step keeps it, \<open>V0_System\<close> the invariant of reachable states, \<open>V0_Properties\<close> mutual
  exclusion, the refinement of the abstract lock and the rest. \<open>V0_Release\<close> shows that a held range
  can be released: what lies ahead of a node stays ahead of it, also when that node is cut out, and
  marks are set from the top level down. \<open>V0_Phases\<close> cuts an operation into the phases its caller
  sees and shows that \<open>size()\<close> is right whenever no operation runs. \<open>V0_Display\<close> is the printing.

  \<^bold>\<open>v1\<close> (\<open>node.hpp\<close>, \<open>range_lock.hpp\<close>). The theories follow the same plan: \<open>V1_Skiplist\<close> is the code,
  with the nodes a thread has locked (\<open>tracked\<close>) as part of its state and a step that waits when it
  finds a mutex locked; \<open>V1_Safety\<close> is the heap, where \<open>evolves1\<close> lets a step change the lowest link
  and the mark of a node only under the node's mutex; \<open>V1_Threads\<close>, \<open>V1_Steps\<close> and \<open>V1_Linking\<close> are the
  knowledge of a thread and its steps; \<open>V1_System\<close>, \<open>V1_Refinement\<close> and \<open>V1_Properties\<close> lift them to
  reachable states. The node a removal has marked and not yet unlinked is a ghost value of the
  invariant, since the code forgets it when it searches again. \<open>V1_Progress\<close>, \<open>V1_Deadlock\<close> and
  \<open>V1_Liveness\<close> show that the lock does not deadlock: a thread waits for a node whose key, its end and
  then its address, is smaller than the keys of the nodes it has locked. \<open>V1_Points\<close> shows what becomes
  of ranges of one point, which searches move past: they exclude nobody and are never released.
  \<open>V1_Display\<close> is the printing; \<open>V1_Optimistic_Mutex\<close> is the spin lock of \<open>node.hpp\<close>, with its version counter as a
  32-bit word.

  \<^bold>\<open>v2\<close> (\<open>range_lock.cpp\<close>). \<open>V2_List\<close> models \<open>InsertNode\<close> and \<open>DeleteNode\<close> access by access. The store
  of \<open>DeleteNode\<close> may overwrite a link that was changed since its load: \<open>V2_Properties\<close> shows that each
  such store takes an inserted node off the list while its range is held, with a run of three threads
  as an example, and proves mutual exclusion for the runs in which no such store is disturbed. Memory
  safety is proved without this condition and for callers that release what they like: null, a range
  twice, or a \<open>RangeLock\<close> of their own (\<open>MakeLock\<close>); only a null that is released crashes.

  \<^bold>\<open>v3\<close> (\<open>range_lock.hpp\<close>, \<open>range_lock.cpp\<close>). Every operation holds the mutex from its start to its end,
  so \<open>V3_Song\<close> models it as one function on the memory. \<open>V3_Layout\<close> describes the memory by the sorted
  list of its nodes, \<open>V3_Proofs\<close> shows what each loop does to it, \<open>V3_Properties\<close> has the contracts.

  \<^bold>\<open>v4\<close> (\<open>keyrange\<close>, \<open>treenode\<close>, \<open>concurrent_tree\<close>). \<open>V4_Keyrange\<close> and \<open>V4_Treenode\<close> model the code in an
  explicit memory with a mutex per node; what the code writes twice, for the left and the right, is
  written once with a side. \<open>V4_Layout\<close> looks at the memory without the depth estimates, since these
  only steer the rotations; \<open>V4_Rebalance\<close>, \<open>V4_Insert\<close>, \<open>V4_Search\<close> and \<open>V4_Remove\<close> prove one rule per
  operation, that it returns and how the tree of ranges changes; \<open>V4_System\<close> and \<open>V4_Properties\<close>
  combine them to transactions from \<open>prepare\<close> to \<open>release\<close> and to the abstract lock.

  \<^bold>\<open>Threads on the tree of v4.\<close> \<open>V4_Threads\<close> cuts the same operations into steps (\<open>code_step4\<close>) that
  any number of threads take in any order (\<open>do_event4\<close>). A step runs from one acquisition of a mutex
  to the next and waits when the mutex is locked; the recursions are a stack of nodes (\<open>frames\<close>), and
  each unlocking on the way back is a step of its own. The nodes a rotation replaces are unlocked in
  the step that sets the pointer to the new root: until then no other thread can reach them, since
  their parent is locked. \<open>V4_Subtrees\<close> has the trees: what lies below a node (\<open>desc\<close>), when the place
  of a range is below a node (\<open>placed\<close>), and that rotations, insertions and removals elsewhere keep
  this (\<open>kept\<close>). \<open>V4_Sharing\<close> says what a thread knows at each place (\<open>thread_inv4\<close>), and that the others
  do not disturb it as long as they leave the nodes it claims alone. \<open>V4_Steps\<close>, \<open>V4_Walk\<close>, \<open>V4_Rotating\<close>,
  \<open>V4_Updates\<close> and \<open>V4_Removals\<close> prove for each step that it does not fail and what it changes
  (\<open>step_post4\<close>). \<open>V4_Interleaving\<close> lifts this to all threads and interprets \<open>lock_implementation\<close>;
  \<open>V4_Progress\<close> shows that threads only wait downwards, so there is no deadlock; \<open>V4_Concurrent\<close> has the
  properties. What the callers have to keep to is \<open>legal4\<close>: the conditions of the header, and that no
  two threads insert overlapping ranges or remove the same range at the same time. The header does
  not ask for that, and \<open>v4_overlapping_ranges_granted\<close> shows what happens without it. Locked key ranges
  that overlap are not exclusive; what the tree keeps is that one of their nodes lies below the other
  (\<open>v4_overlapping_locks_nested\<close>). \<open>has_range4\<close> says that a thread has a locked key range, from the end
  of \<open>prepare\<close> or \<open>acquire\<close> to the call of \<open>release\<close>.

  \<^bold>\<open>Programs that use the v0 lock\<close> (\<open>src/app\<close>, \<open>src/benchmark\<close>). \<open>App_Workloads\<close> has the loops that build
  their ranges and share them out to threads. \<open>App_Client\<close> writes what a thread of each program does as
  a list of instructions (\<open>database_transaction_v0\<close>, \<open>gtest_thread\<close>, \<open>scalability_thread\<close> and others) and
  runs such lists on the model of the lock, one step of the lock or of a loop at a time
  (\<open>client_step\<close>). \<open>App_Ownership\<close> shows that every range a disciplined program has locked has one
  owner, who alone writes it and whose release succeeds; it rests on the refinement of the abstract
  lock and on \<open>V0_Release\<close>. \<open>App_Database\<close> applies this to programs that wait for each lock: the
  transactions of \<open>database.cpp\<close> are isolated and never exit, and a range from the key 0 is waited for
  for ever. \<open>App_Exclusive\<close> and \<open>App_Drivers\<close> treat programs that lock disjoint ranges without looking
  at the result: no call is refused, and the size is right in the end. Of \<open>gtest.cpp\<close>, which runs its
  threads five times on one lock, this covers the first run, on the fresh lock.

  \<^bold>\<open>Conventions.\<close> The key type of v0 and v1 is a type variable with a least and a greatest element,
  as \<open>numeric_limits<T>\<close> gives them; v2, v3 and v4 use 64-bit words. A null or uninitialised pointer
  that is followed and an array that is left are the value \<open>None\<close> of a step, and end in the place
  \<open>Crashed\<close>. Recursion over pointers is \<open>partial_function (option)\<close>, so a loop that does not return is
  \<open>None\<close> as well; the properties of v3 and v4 state that the result is \<open>Some\<close>. No fuel is used.
  \<open>rand()\<close> is a parameter, a function from the number of the call to its result. The calls of v0 and
  v1 keep to \<open>start <= end\<close> and \<open>start\<close> below the greatest key, and \<open>maxLevel\<close> of v1 is positive:
  outside of these conditions the code itself follows a null pointer or leaves an array.

  \<^bold>\<open>Not modelled.\<close> Memory orders and data races: every access is one atomic step, also of the plain
  fields of v1 and v4, or in v4 one piece of code between two acquisitions, and steps interleave.
  Termination of the operations of v0, v1 and v2 under contention (v1 and v4 are free of deadlock, see
  \<open>V1_Liveness\<close> and \<open>V4_Progress\<close>). Of the programs under \<open>src/app\<close> and \<open>src/benchmark\<close> the copies of the
  thread functions for the locks other than v0, the timing and the printing; the commented-out code
  of \<open>v0.cpp\<close>; the tests; the third-party \<open>PerfEvent.hpp\<close>. \<open>std::shuffle\<close> and the random draws are
  parameters of the definitions, bounded by hypotheses (\<open>permutes\<close>, \<open>drawn\<close>).
\<close>

end
